(* ===== verification/KPrelude.thy ===== *)
theory KPrelude
  imports Main "HOL-Library.Word"
begin

text \<open>
  Shared vocabulary of the development: the C integer types of the kernel, the collections of
  rewrite rules the component theories extend, and the generic facts on words, lists and
  index arithmetic that several components use.
\<close>

unbundle bit_operations_syntax

section \<open>C types\<close>

type_synonym u8 = "8 word"
type_synonym u16 = "16 word"
type_synonym uint_t = "32 word"

abbreviation NBITPW :: nat where
  "NBITPW \<equiv> 32"

named_theorems bit_test_simps "how the bit tests of a map react to its updates"
named_theorems length_simps "operations that keep the length of an array"

text \<open>
  Subtraction and addition of two \<open>unsigned int\<close> (or \<open>unsigned long\<close>, the same 32 bits on
  this processor) whose values are held as natural numbers.
\<close>

definition usub32 :: "nat \<Rightarrow> nat \<Rightarrow> nat" where
  "usub32 a b = (if b \<le> a then a - b else a + 2 ^ 32 - b)"

definition uadd32 :: "nat \<Rightarrow> nat \<Rightarrow> nat" where
  "uadd32 a b = (a + b) mod 2 ^ 32"

definition umul32 :: "nat \<Rightarrow> nat \<Rightarrow> nat" where
  "umul32 a b = (a * b) mod 2 ^ 32"

text \<open>Reading the 32 bits of an \<open>unsigned\<close> as a \<open>long\<close>.\<close>

definition slong :: "nat \<Rightarrow> int" where
  "slong a = (if a mod 2 ^ 32 < 2 ^ 31 then int (a mod 2 ^ 32) else int (a mod 2 ^ 32) - 2 ^ 32)"

lemma usub32_le [simp]: "b \<le> a \<Longrightarrow> usub32 a b = a - b"
  by (simp add: usub32_def)

lemma uadd32_small [simp]: "a + b < 2 ^ 32 \<Longrightarrow> uadd32 a b = a + b"
  by (simp add: uadd32_def)

lemma umul32_small [simp]: "a * b < 2 ^ 32 \<Longrightarrow> umul32 a b = a * b"
  by (simp add: umul32_def)

lemma slong_small: "a < 2 ^ 31 \<Longrightarrow> slong a = int a"
  by (simp add: slong_def)

text \<open>\<open>--x\<close> on an \<open>unsigned short\<close>.\<close>

lemma dec_ushort:
  assumes "0 < m" "m \<le> 65536"
  shows "(m + 65535) mod 65536 = m - (1::nat)"
proof -
  obtain k where k: "m = Suc k" using assms(1) by (cases m) auto
  then have "m + 65535 = k + 65536" by simp
  then have "(m + 65535) mod 65536 = k mod 65536" by (simp only: mod_add_self2)
  with k assms(2) show ?thesis by simp
qed

section \<open>Tests of a word against a mask\<close>

definition lowest_bit :: "'a::len word \<Rightarrow> nat \<Rightarrow> bool" where
  "lowest_bit w k \<longleftrightarrow> bit w k \<and> (\<forall>i<k. \<not> bit w i)"

definition highest_bit :: "'a::len word \<Rightarrow> nat \<Rightarrow> bool" where
  "highest_bit w k \<longleftrightarrow> bit w k \<and> (\<forall>i>k. \<not> bit w i)"

lemma and_mask_hit:
  fixes w m :: "'a::len word"
  assumes "bit w k" and "bit m k"
  shows "w AND m \<noteq> 0"
proof
  assume "w AND m = 0"
  then have "bit (w AND m) k = bit (0::'a word) k" by simp
  with assms show False by (simp add: bit_and_iff)
qed

lemma lowest_bit_hit: "lowest_bit w k \<Longrightarrow> bit m k \<Longrightarrow> w AND m \<noteq> 0"
  by (rule and_mask_hit) (auto simp: lowest_bit_def)

lemma highest_bit_hit: "highest_bit w k \<Longrightarrow> bit m k \<Longrightarrow> w AND m \<noteq> 0"
  by (rule and_mask_hit) (auto simp: highest_bit_def)

lemma lowest_bit_miss:
  fixes w m :: "'a::len word"
  assumes "lowest_bit w k" and "take_bit k m = m"
  shows "w AND m = 0"
proof (rule bit_word_eqI)
  fix n
  have "bit m n \<Longrightarrow> n < k" using assms(2) bit_take_bit_iff [of k m n] by simp
  with assms(1) show "bit (w AND m) n = bit (0::'a word) n"
    by (auto simp: bit_and_iff lowest_bit_def)
qed

lemma highest_bit_miss:
  fixes w m :: "'a::len word"
  assumes "highest_bit w k" and "take_bit (k + 1) m = 0"
  shows "w AND m = 0"
proof (rule bit_word_eqI)
  fix n
  have "bit (take_bit (k + 1) m) n = bit (0::'a word) n" using assms(2) by simp
  then have "bit m n \<Longrightarrow> k < n" by (auto simp: bit_take_bit_iff)
  with assms(1) show "bit (w AND m) n = bit (0::'a word) n"
    by (auto simp: bit_and_iff highest_bit_def)
qed

lemma lowest_bit_nonzero: "lowest_bit w k \<Longrightarrow> w \<noteq> 0"
  by (auto simp: lowest_bit_def)

lemma highest_bit_nonzero: "highest_bit w k \<Longrightarrow> w \<noteq> 0"
  by (auto simp: highest_bit_def)

lemma nonzero_bit: "w \<noteq> (0::'a::len word) \<Longrightarrow> \<exists>n. bit w n"
  using bit_word_eqI [of w 0] by auto

lemma nonzero_lowest_bit:
  assumes "w \<noteq> (0::'a::len word)"
  shows "\<exists>k. lowest_bit w k"
proof -
  obtain n where "bit w n" using nonzero_bit [OF assms] by blast
  then have "lowest_bit w (LEAST n. bit w n)"
    by (auto simp: lowest_bit_def intro: LeastI dest: not_less_Least)
  then show ?thesis ..
qed

lemma nonzero_highest_bit:
  assumes "w \<noteq> (0::'a::len word)"
  shows "\<exists>k. highest_bit w k"
proof -
  obtain n where n: "bit w n" using nonzero_bit [OF assms] by blast
  have fin: "finite {n. bit w n}"
    by (rule finite_subset [of _ "{..<LENGTH('a)}"]) (auto dest: bit_imp_le_length)
  from n have "bit w (Max {n. bit w n})" using Max_in [OF fin] by auto
  moreover have "\<not> bit w i" if "Max {n. bit w n} < i" for i
  proof
    assume "bit w i"
    then have "i \<le> Max {n. bit w n}" using fin by (intro Max_ge) auto
    with that show False by simp
  qed
  ultimately have "highest_bit w (Max {n. bit w n})" unfolding highest_bit_def by blast
  then show ?thesis ..
qed

lemma lowest_bit_length: "lowest_bit (w::'a::len word) k \<Longrightarrow> k < LENGTH('a)"
  by (auto simp: lowest_bit_def dest: bit_imp_le_length)

lemma highest_bit_length: "highest_bit (w::'a::len word) k \<Longrightarrow> k < LENGTH('a)"
  by (auto simp: highest_bit_def dest: bit_imp_le_length)

lemma less_32_cases: "(k::nat) < 32 \<longleftrightarrow>
    k \<in> {0,1,2,3,4,5,6,7,8,9,10,11,12,13,14,15,16,17,18,19,20,21,22,23,24,25,26,27,28,29,30,31}"
  by simp presburger

lemma all_bits_set: "(w::'a::len word) = NOT 0 \<longleftrightarrow> (\<forall>n < LENGTH('a). bit w n)"
  by (auto intro!: bit_word_eqI)

lemma all_bits_clear: "(w::'a::len word) = 0 \<longleftrightarrow> (\<forall>n < LENGTH('a). \<not> bit w n)"
  by (auto intro!: bit_word_eqI)

section \<open>Indices into an array of words\<close>

lemma word_index_bound: "k < NBITPW * n \<Longrightarrow> k div NBITPW < n"
  by (simp add: less_mult_imp_div_less mult.commute)

lemma word_index_eq:
  "(k::nat) < NBITPW \<Longrightarrow> (i * NBITPW + k) div NBITPW = i"
  "(k::nat) < NBITPW \<Longrightarrow> (i * NBITPW + k) mod NBITPW = k"
  by auto

lemma same_bit_index: "(j::nat) div n = k div n \<Longrightarrow> j mod n = k mod n \<Longrightarrow> j = k"
  by (metis div_mult_mod_eq)

lemma below_bit_cases:
  assumes "b < i * NBITPW + k" and "k < NBITPW"
  shows "b div NBITPW < i \<or> b div NBITPW = i \<and> b mod NBITPW < k"
proof -
  have "b div NBITPW * NBITPW + b mod NBITPW = b" by (rule div_mult_mod_eq)
  with assms show ?thesis by (cases "b div NBITPW" i rule: linorder_cases) linarith+
qed

lemma above_bit_cases:
  assumes "i * NBITPW + k < b" and "k < NBITPW"
  shows "i < b div NBITPW \<or> b div NBITPW = i \<and> k < b mod NBITPW"
proof -
  have "b div NBITPW * NBITPW + b mod NBITPW = b" by (rule div_mult_mod_eq)
  moreover have "b mod NBITPW < NBITPW" by simp
  ultimately show ?thesis using assms by (cases "b div NBITPW" i rule: linorder_cases) linarith+
qed

section \<open>First and last number with a property\<close>

text \<open>
  The reference for every bit search: the first (the last) of the numbers below \<open>n\<close> that satisfies
  a predicate, and the C convention for "none", which is -1.
\<close>

definition first_such :: "(nat \<Rightarrow> bool) \<Rightarrow> nat \<Rightarrow> nat option" where
  "first_such P n = find P [0..<n]"

definition last_such :: "(nat \<Rightarrow> bool) \<Rightarrow> nat \<Rightarrow> nat option" where
  "last_such P n = find P (rev [0..<n])"

definition c_result :: "nat option \<Rightarrow> int" where
  "c_result r = (case r of None \<Rightarrow> -1 | Some k \<Rightarrow> int k)"

lemma c_result_simps [simp]: "c_result None = -1" "c_result (Some k) = int k"
  by (simp_all add: c_result_def)

lemma first_such_Some: "first_such P n = Some k \<longleftrightarrow> k < n \<and> P k \<and> (\<forall>j<k. \<not> P j)"
  unfolding first_such_def find_Some_iff by auto

lemma first_such_None: "first_such P n = None \<longleftrightarrow> (\<forall>j<n. \<not> P j)"
  unfolding first_such_def find_None_iff by auto

lemma last_such_Some: "last_such P n = Some k \<longleftrightarrow> k < n \<and> P k \<and> (\<forall>j. k < j \<and> j < n \<longrightarrow> \<not> P j)"
proof -
  have "last_such P n = Some k \<longleftrightarrow>
      (\<exists>i<n. P (n - Suc i) \<and> k = n - Suc i \<and> (\<forall>j<i. \<not> P (n - Suc j)))"
    unfolding last_such_def find_Some_iff by (auto simp: rev_nth)
  also have "\<dots> \<longleftrightarrow> k < n \<and> P k \<and> (\<forall>j. k < j \<and> j < n \<longrightarrow> \<not> P j)" (is "?L = ?R")
  proof
    assume ?L
    then obtain i where i: "i < n" "P (n - Suc i)" "k = n - Suc i" "\<forall>j<i. \<not> P (n - Suc j)" by blast
    have "\<not> P j" if "k < j" "j < n" for j
    proof -
      have "n - Suc j < i" "n - Suc (n - Suc j) = j" using that i(3) by arith+
      with i(4) show ?thesis by metis
    qed
    with i show ?R by auto
  next
    assume r: ?R
    then have k: "n - Suc k < n" "n - Suc (n - Suc k) = k" by arith+
    have "\<not> P (n - Suc j)" if "j < n - Suc k" for j
      using that r by auto
    with r k show ?L by (intro exI [of _ "n - Suc k"]) auto
  qed
  finally show ?thesis .
qed

lemma last_such_None: "last_such P n = None \<longleftrightarrow> (\<forall>j<n. \<not> P j)"
  unfolding last_such_def find_None_iff by auto

lemma first_such_word: "first_such (bit w) NBITPW = Some k \<longleftrightarrow> lowest_bit (w::uint_t) k"
  by (auto simp: first_such_Some lowest_bit_def dest: bit_imp_le_length)

lemma last_such_word: "last_such (bit w) NBITPW = Some k \<longleftrightarrow> highest_bit (w::uint_t) k"
  using bit_imp_le_length [of w] by (fastforce simp: last_such_Some highest_bit_def)

end
