(* ===== verification/BitmapSpec.thy ===== *)
theory BitmapSpec
  imports KPrelude
begin

text \<open>
  The contract of a bit map, as the allocators of the kernel use one: a map of \<open>cap\<close> bits with
  a test, a set and a clear operation. The bit arrays of \<open>util/bitmasks.c\<close> and the in-use map of
  clusters of a DOS file system are two providers of it (interpreted in their own theories); the
  facts about the set of used bits are proved here once.
\<close>

locale bitmap =
  fixes cap :: "'m \<Rightarrow> nat"
    and tst :: "'m \<Rightarrow> nat \<Rightarrow> bool"
    and st :: "'m \<Rightarrow> nat \<Rightarrow> 'm"
    and cl :: "'m \<Rightarrow> nat \<Rightarrow> 'm"
  assumes cap_st: "cap (st m i) = cap m"
    and cap_cl: "cap (cl m i) = cap m"
    and tst_st: "i < cap m \<Longrightarrow> j < cap m \<Longrightarrow> tst (st m i) j \<longleftrightarrow> j = i \<or> tst m j"
    and tst_cl: "i < cap m \<Longrightarrow> j < cap m \<Longrightarrow> tst (cl m i) j \<longleftrightarrow> j \<noteq> i \<and> tst m j"
begin

definition used :: "'m \<Rightarrow> nat set" where
  "used m = {i. i < cap m \<and> tst m i}"

lemma finite_used [simp]: "finite (used m)"
  by (rule finite_subset [of _ "{..<cap m}"]) (auto simp: used_def)

lemma used_less: "i \<in> used m \<Longrightarrow> i < cap m"
  by (simp add: used_def)

lemma used_st: "i < cap m \<Longrightarrow> used (st m i) = insert i (used m)"
  by (auto simp: used_def cap_st tst_st)

lemma used_cl: "i < cap m \<Longrightarrow> used (cl m i) = used m - {i}"
  by (auto simp: used_def cap_cl tst_cl)

lemma card_used_st: "i < cap m \<Longrightarrow> i \<notin> used m \<Longrightarrow> card (used (st m i)) = Suc (card (used m))"
  by (simp add: used_st)

lemma card_used_cl: "i \<in> used m \<Longrightarrow> Suc (card (used (cl m i))) = card (used m)"
  by (metis card.remove finite_used used_cl used_less)

lemma used_st_cl: "i < cap m \<Longrightarrow> i \<notin> used m \<Longrightarrow> used (cl (st m i) i) = used m"
  by (simp add: used_st used_cl cap_st)

lemma fold_st:
  assumes "\<forall>i \<in> set is. i < cap m"
  shows "cap (fold (\<lambda>i m. st m i) is m) = cap m
    \<and> used (fold (\<lambda>i m. st m i) is m) = used m \<union> set is"
  using assms by (induction "is" arbitrary: m) (auto simp: cap_st used_st)

lemma fold_cl:
  assumes "\<forall>i \<in> set is. i < cap m"
  shows "cap (fold (\<lambda>i m. cl m i) is m) = cap m
    \<and> used (fold (\<lambda>i m. cl m i) is m) = used m - set is"
  using assms by (induction "is" arbitrary: m) (auto simp: cap_cl used_cl)

end

text \<open>
  A map with a search for the first clear bit: what an allocator adds to the contract. An
  allocation marks a bit nobody holds, and fails only when every bit is taken.
\<close>

locale bitmap_alloc = bitmap cap tst st cl
  for cap :: "'m \<Rightarrow> nat" and tst st cl +
  fixes ffc :: "'m \<Rightarrow> nat option"
  assumes ffc_Some: "ffc m = Some i \<Longrightarrow> i < cap m \<and> \<not> tst m i \<and> (\<forall>j<i. tst m j)"
    and ffc_None: "ffc m = None \<Longrightarrow> \<forall>j < cap m. tst m j"
begin

lemma ffc_fresh: "ffc m = Some i \<Longrightarrow> i < cap m \<and> i \<notin> used m"
  by (auto simp: used_def dest: ffc_Some)

lemma ffc_total: "ffc m = None \<longleftrightarrow> used m = {..<cap m}"
proof
  assume "ffc m = None"
  then show "used m = {..<cap m}" by (auto simp: used_def dest: ffc_None)
next
  assume full: "used m = {..<cap m}"
  show "ffc m = None"
  proof (rule ccontr)
    assume "ffc m \<noteq> None"
    then obtain i where "ffc m = Some i" by auto
    with full show False by (auto dest: ffc_fresh)
  qed
qed

lemma ffc_least: "ffc m = Some i \<Longrightarrow> j < cap m \<Longrightarrow> j \<notin> used m \<Longrightarrow> i \<le> j"
  by (metis (mono_tags) ffc_Some linorder_not_le mem_Collect_eq used_def)

lemma alloc_used: "ffc m = Some i \<Longrightarrow> used (st m i) = insert i (used m) \<and> i \<notin> used m"
  by (simp add: used_st ffc_fresh)

lemma alloc_count: "ffc m = Some i \<Longrightarrow> card (used (st m i)) = Suc (card (used m))"
  by (simp add: card_used_st ffc_fresh)

end

end
