(* ===== verification/Bitmasks.thy ===== *)
theory Bitmasks
  imports BitmapSpec
begin

text \<open>
  Bit arrays of arbitrary size (\<open>util/bitmasks.c\<close>, \<open>util/bitmasks.h\<close>). An array is a list of
  32-bit words; a one-word operation gets the word its pointer refers to and, where it writes
  through the pointer, gives the new word back. The searches of one word are the binary
  searches of the source, mask by mask. A search of an array that runs past its last word has
  the result \<open>None\<close> (the C code would read foreign memory); otherwise the result is \<open>Some\<close> of
  what the C function returns, \<open>-1\<close> for "no such bit". Bit numbers are exact: the maps of the
  kernel have far fewer than \<open>2 ^ 31\<close> bits.
\<close>

section \<open>Single bits and whole arrays\<close>

definition BITMASK_NWORDS :: "nat \<Rightarrow> nat" where
  "BITMASK_NWORDS nbits = (nbits + NBITPW - 1) div NBITPW"

definition BITMASKN_TEST1 :: "uint_t list \<Rightarrow> nat \<Rightarrow> bool" where
  "BITMASKN_TEST1 bits bitno = bit (bits ! (bitno div NBITPW)) (bitno mod NBITPW)"

definition BITMASKN_SET1 :: "uint_t list \<Rightarrow> nat \<Rightarrow> uint_t list" where
  "BITMASKN_SET1 bits bitno =
     bits[bitno div NBITPW := bits ! (bitno div NBITPW) OR push_bit (bitno mod NBITPW) 1]"

definition BITMASKN_CLR1 :: "uint_t list \<Rightarrow> nat \<Rightarrow> uint_t list" where
  "BITMASKN_CLR1 bits bitno =
     bits[bitno div NBITPW := bits ! (bitno div NBITPW) AND NOT (push_bit (bitno mod NBITPW) 1)]"

definition BITMASKN_CLRALL :: "uint_t list \<Rightarrow> nat \<Rightarrow> uint_t list" where
  "BITMASKN_CLRALL bits n = replicate n 0 @ drop n bits"

definition BITMASKN_SETALL :: "uint_t list \<Rightarrow> nat \<Rightarrow> uint_t list" where
  "BITMASKN_SETALL bits n = replicate n (NOT 0) @ drop n bits"

definition BITMASK1_TEST1 :: "uint_t \<Rightarrow> nat \<Rightarrow> bool" where
  "BITMASK1_TEST1 word bitno = (word AND push_bit bitno 1 \<noteq> 0)"

definition BITMASK1_SET1 :: "uint_t \<Rightarrow> nat \<Rightarrow> uint_t" where
  "BITMASK1_SET1 word bitno = word OR push_bit bitno 1"

definition BITMASK1_CLR1 :: "uint_t \<Rightarrow> nat \<Rightarrow> uint_t" where
  "BITMASK1_CLR1 word bitno = word AND NOT (push_bit bitno 1)"

section \<open>Searches of one word\<close>

definition BITMASK1_FFS :: "uint_t \<Rightarrow> int" where
  "BITMASK1_FFS word =
    (if word = 0 then -1 else
     if word AND 0x0000ffff \<noteq> 0 then
       (if word AND 0x000000ff \<noteq> 0 then
          (if word AND 0x0000000f \<noteq> 0 then
             (if word AND 0x00000003 \<noteq> 0 then
                (if word AND 0x00000001 \<noteq> 0 then 0
                 else 1)
              else if word AND 0x00000004 \<noteq> 0 then 2
              else 3)
           else if word AND 0x00000030 \<noteq> 0 then
             (if word AND 0x00000010 \<noteq> 0 then 4
              else 5)
           else if word AND 0x00000040 \<noteq> 0 then 6
           else 7)
        else if word AND 0x00000f00 \<noteq> 0 then
          (if word AND 0x00000300 \<noteq> 0 then
             (if word AND 0x00000100 \<noteq> 0 then 8
              else 9)
           else if word AND 0x00000400 \<noteq> 0 then 10
           else 11)
        else if word AND 0x00003000 \<noteq> 0 then
          (if word AND 0x00001000 \<noteq> 0 then 12
           else 13)
        else if word AND 0x00004000 \<noteq> 0 then 14
        else 15)
     else if word AND 0x00ff0000 \<noteq> 0 then
       (if word AND 0x000f0000 \<noteq> 0 then
          (if word AND 0x00030000 \<noteq> 0 then
             (if word AND 0x00010000 \<noteq> 0 then 16
              else 17)
           else if word AND 0x00040000 \<noteq> 0 then 18
           else 19)
        else if word AND 0x00300000 \<noteq> 0 then
          (if word AND 0x00100000 \<noteq> 0 then 20
           else 21)
        else if word AND 0x00400000 \<noteq> 0 then 22
        else 23)
     else if word AND 0x0f000000 \<noteq> 0 then
       (if word AND 0x03000000 \<noteq> 0 then
          (if word AND 0x01000000 \<noteq> 0 then 24
           else 25)
        else if word AND 0x04000000 \<noteq> 0 then 26
        else 27)
     else if word AND 0x30000000 \<noteq> 0 then
       (if word AND 0x10000000 \<noteq> 0 then 28
        else 29)
     else if word AND 0x40000000 \<noteq> 0 then 30
     else 31)"

definition BITMASK1_FLS :: "uint_t \<Rightarrow> int" where
  "BITMASK1_FLS word =
    (if word = 0 then -1 else
     if word AND 0xffff0000 \<noteq> 0 then
       (if word AND 0xff000000 \<noteq> 0 then
          (if word AND 0xf0000000 \<noteq> 0 then
             (if word AND 0xc0000000 \<noteq> 0 then
                (if word AND 0x80000000 \<noteq> 0 then 31
                 else 30)
              else if word AND 0x20000000 \<noteq> 0 then 29
              else 28)
           else if word AND 0x0c000000 \<noteq> 0 then
             (if word AND 0x08000000 \<noteq> 0 then 27
              else 26)
           else if word AND 0x02000000 \<noteq> 0 then 25
           else 24)
        else if word AND 0x00f00000 \<noteq> 0 then
          (if word AND 0x00c00000 \<noteq> 0 then
             (if word AND 0x00800000 \<noteq> 0 then 23
              else 22)
           else if word AND 0x00200000 \<noteq> 0 then 21
           else 20)
        else if word AND 0x000c0000 \<noteq> 0 then
          (if word AND 0x00080000 \<noteq> 0 then 19
           else 18)
        else if word AND 0x00020000 \<noteq> 0 then 17
        else 16)
     else if word AND 0x0000ff00 \<noteq> 0 then
       (if word AND 0x0000f000 \<noteq> 0 then
          (if word AND 0x0000c000 \<noteq> 0 then
             (if word AND 0x00008000 \<noteq> 0 then 15
              else 14)
           else if word AND 0x00002000 \<noteq> 0 then 13
           else 12)
        else if word AND 0x00000c00 \<noteq> 0 then
          (if word AND 0x00000800 \<noteq> 0 then 11
           else 10)
        else if word AND 0x00000200 \<noteq> 0 then 9
        else 8)
     else if word AND 0x000000f0 \<noteq> 0 then
       (if word AND 0x000000c0 \<noteq> 0 then
          (if word AND 0x00000080 \<noteq> 0 then 7
           else 6)
        else if word AND 0x00000020 \<noteq> 0 then 5
        else 4)
     else if word AND 0x0000000c \<noteq> 0 then
       (if word AND 0x00000008 \<noteq> 0 then 3
        else 2)
     else if word AND 0x00000002 \<noteq> 0 then 1
     else 0)"

definition BITMASK1_FFSCLR :: "uint_t \<Rightarrow> uint_t \<times> int" where
  "BITMASK1_FFSCLR word =
    (if word = 0 then (word, -1) else
     if word AND 0x0000ffff \<noteq> 0 then
       (if word AND 0x000000ff \<noteq> 0 then
          (if word AND 0x0000000f \<noteq> 0 then
             (if word AND 0x00000003 \<noteq> 0 then
                (if word AND 0x00000001 \<noteq> 0 then (word AND NOT 0x00000001, 0)
                 else (word AND NOT 0x00000002, 1))
              else if word AND 0x00000004 \<noteq> 0 then (word AND NOT 0x00000004, 2)
              else (word AND NOT 0x00000008, 3))
           else if word AND 0x00000030 \<noteq> 0 then
             (if word AND 0x00000010 \<noteq> 0 then (word AND NOT 0x00000010, 4)
              else (word AND NOT 0x00000020, 5))
           else if word AND 0x00000040 \<noteq> 0 then (word AND NOT 0x00000040, 6)
           else (word AND NOT 0x00000080, 7))
        else if word AND 0x00000f00 \<noteq> 0 then
          (if word AND 0x00000300 \<noteq> 0 then
             (if word AND 0x00000100 \<noteq> 0 then (word AND NOT 0x00000100, 8)
              else (word AND NOT 0x00000200, 9))
           else if word AND 0x00000400 \<noteq> 0 then (word AND NOT 0x00000400, 10)
           else (word AND NOT 0x00000800, 11))
        else if word AND 0x00003000 \<noteq> 0 then
          (if word AND 0x00001000 \<noteq> 0 then (word AND NOT 0x00001000, 12)
           else (word AND NOT 0x00002000, 13))
        else if word AND 0x00004000 \<noteq> 0 then (word AND NOT 0x00004000, 14)
        else (word AND NOT 0x00008000, 15))
     else if word AND 0x00ff0000 \<noteq> 0 then
       (if word AND 0x000f0000 \<noteq> 0 then
          (if word AND 0x00030000 \<noteq> 0 then
             (if word AND 0x00010000 \<noteq> 0 then (word AND NOT 0x00010000, 16)
              else (word AND NOT 0x00020000, 17))
           else if word AND 0x00040000 \<noteq> 0 then (word AND NOT 0x00040000, 18)
           else (word AND NOT 0x00080000, 19))
        else if word AND 0x00300000 \<noteq> 0 then
          (if word AND 0x00100000 \<noteq> 0 then (word AND NOT 0x00100000, 20)
           else (word AND NOT 0x00200000, 21))
        else if word AND 0x00400000 \<noteq> 0 then (word AND NOT 0x00400000, 22)
        else (word AND NOT 0x00800000, 23))
     else if word AND 0x0f000000 \<noteq> 0 then
       (if word AND 0x03000000 \<noteq> 0 then
          (if word AND 0x01000000 \<noteq> 0 then (word AND NOT 0x01000000, 24)
           else (word AND NOT 0x02000000, 25))
        else if word AND 0x04000000 \<noteq> 0 then (word AND NOT 0x04000000, 26)
        else (word AND NOT 0x08000000, 27))
     else if word AND 0x30000000 \<noteq> 0 then
       (if word AND 0x10000000 \<noteq> 0 then (word AND NOT 0x10000000, 28)
        else (word AND NOT 0x20000000, 29))
     else if word AND 0x40000000 \<noteq> 0 then (word AND NOT 0x40000000, 30)
     else (word AND NOT 0x80000000, 31))"

definition BITMASK1_FLSCLR :: "uint_t \<Rightarrow> uint_t \<times> int" where
  "BITMASK1_FLSCLR word =
    (if word = 0 then (word, -1) else
     if word AND 0xffff0000 \<noteq> 0 then
       (if word AND 0xff000000 \<noteq> 0 then
          (if word AND 0xf0000000 \<noteq> 0 then
             (if word AND 0xc0000000 \<noteq> 0 then
                (if word AND 0x80000000 \<noteq> 0 then (word AND NOT 0x80000000, 31)
                 else (word AND NOT 0x40000000, 30))
              else if word AND 0x20000000 \<noteq> 0 then (word AND NOT 0x20000000, 29)
              else (word AND NOT 0x10000000, 28))
           else if word AND 0x0c000000 \<noteq> 0 then
             (if word AND 0x08000000 \<noteq> 0 then (word AND NOT 0x08000000, 27)
              else (word AND NOT 0x04000000, 26))
           else if word AND 0x02000000 \<noteq> 0 then (word AND NOT 0x02000000, 25)
           else (word AND NOT 0x01000000, 24))
        else if word AND 0x00f00000 \<noteq> 0 then
          (if word AND 0x00c00000 \<noteq> 0 then
             (if word AND 0x00800000 \<noteq> 0 then (word AND NOT 0x00800000, 23)
              else (word AND NOT 0x00400000, 22))
           else if word AND 0x00200000 \<noteq> 0 then (word AND NOT 0x00200000, 21)
           else (word AND NOT 0x00100000, 20))
        else if word AND 0x000c0000 \<noteq> 0 then
          (if word AND 0x00080000 \<noteq> 0 then (word AND NOT 0x00080000, 19)
           else (word AND NOT 0x00040000, 18))
        else if word AND 0x00020000 \<noteq> 0 then (word AND NOT 0x00020000, 17)
        else (word AND NOT 0x00010000, 16))
     else if word AND 0x0000ff00 \<noteq> 0 then
       (if word AND 0x0000f000 \<noteq> 0 then
          (if word AND 0x0000c000 \<noteq> 0 then
             (if word AND 0x00008000 \<noteq> 0 then (word AND NOT 0x00008000, 15)
              else (word AND NOT 0x00004000, 14))
           else if word AND 0x00002000 \<noteq> 0 then (word AND NOT 0x00002000, 13)
           else (word AND NOT 0x00001000, 12))
        else if word AND 0x00000c00 \<noteq> 0 then
          (if word AND 0x00000800 \<noteq> 0 then (word AND NOT 0x00000800, 11)
           else (word AND NOT 0x00000400, 10))
        else if word AND 0x00000200 \<noteq> 0 then (word AND NOT 0x00000200, 9)
        else (word AND NOT 0x00000100, 8))
     else if word AND 0x000000f0 \<noteq> 0 then
       (if word AND 0x000000c0 \<noteq> 0 then
          (if word AND 0x00000080 \<noteq> 0 then (word AND NOT 0x00000080, 7)
           else (word AND NOT 0x00000040, 6))
        else if word AND 0x00000020 \<noteq> 0 then (word AND NOT 0x00000020, 5)
        else (word AND NOT 0x00000010, 4))
     else if word AND 0x0000000c \<noteq> 0 then
       (if word AND 0x00000008 \<noteq> 0 then (word AND NOT 0x00000008, 3)
        else (word AND NOT 0x00000004, 2))
     else if word AND 0x00000002 \<noteq> 0 then (word AND NOT 0x00000002, 1)
     else (word AND NOT 0x00000001, 0))"

definition BITMASK1_FFC :: "uint_t \<Rightarrow> int" where
  "BITMASK1_FFC bits0 = (let word = NOT bits0 in BITMASK1_FFS word)"

definition BITMASK1_FLC :: "uint_t \<Rightarrow> int" where
  "BITMASK1_FLC bits0 = (let word = NOT bits0 in BITMASK1_FLS word)"

definition BITMASK1_FFCSET :: "uint_t \<Rightarrow> uint_t \<times> int" where
  "BITMASK1_FFCSET bits0 =
     (let word = NOT bits0; (word, bitno) = BITMASK1_FFSCLR word in (NOT word, bitno))"

definition BITMASK1_FLCSET :: "uint_t \<Rightarrow> uint_t \<times> int" where
  "BITMASK1_FLCSET bits0 =
     (let word = NOT bits0; (word, bitno) = BITMASK1_FLSCLR word in (NOT word, bitno))"

section \<open>Searches of an array\<close>

text \<open>
  The three loops over words. The first is \<open>for (i = 0; bits[i] == skip;) if (++i == n) return -1\<close>,
  the second the \<open>do ... while\<close> of \<open>BITMASKN_FLS\<close>, the third the \<open>while (bits[--i] == skip)\<close> of the
  other downward searches. The inner option is \<open>None\<close> when the loop returns -1, \<open>Some i\<close> when
  it stops at word \<open>i\<close>; the outer one is \<open>None\<close> when it leaves the array.
\<close>

function scan_up :: "uint_t \<Rightarrow> uint_t list \<Rightarrow> nat \<Rightarrow> nat \<Rightarrow> nat option option" where
  "scan_up skip bits i n =
    (if length bits \<le> i then None
     else if bits ! i \<noteq> skip then Some (Some i)
     else if Suc i = n then Some None
     else scan_up skip bits (Suc i) n)"
  by pat_completeness auto
termination
  by (relation "measure (\<lambda>(skip, bits, i, n). length bits - i)") auto

declare scan_up.simps [simp del]

fun scan_do_down :: "uint_t \<Rightarrow> uint_t list \<Rightarrow> nat \<Rightarrow> nat option option" where
  "scan_do_down skip bits 0 = Some None"
| "scan_do_down skip bits (Suc i) =
    (if length bits \<le> i then None
     else if bits ! i = skip then scan_do_down skip bits i
     else Some (Some i))"

fun scan_while_down :: "uint_t \<Rightarrow> uint_t list \<Rightarrow> nat \<Rightarrow> nat option option" where
  "scan_while_down skip bits 0 = None"
| "scan_while_down skip bits (Suc i) =
    (if length bits \<le> i then None
     else if bits ! i = skip then (if i = 0 then Some None else scan_while_down skip bits i)
     else Some (Some i))"

text \<open>
  What follows the loop: \<open>if ((n = f(&bits[i])) == -1) return -1; return i * NBITPW + n\<close>, for a
  one-word search \<open>f\<close> that only reads, or that also writes the word.
\<close>

definition found_word :: "uint_t list \<Rightarrow> (uint_t \<Rightarrow> int) \<Rightarrow> nat option option \<Rightarrow> int option" where
  "found_word bits f r =
    (case r of
       None \<Rightarrow> None
     | Some None \<Rightarrow> Some (-1)
     | Some (Some i) \<Rightarrow>
         (let n = f (bits ! i) in Some (if n = -1 then -1 else int (i * NBITPW) + n)))"

definition found_word_upd ::
  "uint_t list \<Rightarrow> (uint_t \<Rightarrow> uint_t \<times> int) \<Rightarrow> nat option option \<Rightarrow> (uint_t list \<times> int) option" where
  "found_word_upd bits f r =
    (case r of
       None \<Rightarrow> None
     | Some None \<Rightarrow> Some (bits, -1)
     | Some (Some i) \<Rightarrow>
         (let (w, n) = f (bits ! i)
          in Some (bits[i := w], if n = -1 then -1 else int (i * NBITPW) + n)))"

definition BITMASKN_FFS :: "uint_t list \<Rightarrow> nat \<Rightarrow> int option" where
  "BITMASKN_FFS bits n = found_word bits BITMASK1_FFS (scan_up 0 bits 0 n)"

definition BITMASKN_FLS :: "uint_t list \<Rightarrow> nat \<Rightarrow> int option" where
  "BITMASKN_FLS bits n = found_word bits BITMASK1_FLS (scan_do_down 0 bits n)"

definition BITMASKN_FFSCLR :: "uint_t list \<Rightarrow> nat \<Rightarrow> (uint_t list \<times> int) option" where
  "BITMASKN_FFSCLR bits n = found_word_upd bits BITMASK1_FFSCLR (scan_up 0 bits 0 n)"

definition BITMASKN_FLSCLR :: "uint_t list \<Rightarrow> nat \<Rightarrow> (uint_t list \<times> int) option" where
  "BITMASKN_FLSCLR bits n = found_word_upd bits BITMASK1_FLSCLR (scan_while_down 0 bits n)"

definition BITMASKN_FFC :: "uint_t list \<Rightarrow> nat \<Rightarrow> int option" where
  "BITMASKN_FFC bits n = found_word bits BITMASK1_FFC (scan_up (NOT 0) bits 0 n)"

definition BITMASKN_FLC :: "uint_t list \<Rightarrow> nat \<Rightarrow> int option" where
  "BITMASKN_FLC bits n = found_word bits BITMASK1_FLC (scan_while_down (NOT 0) bits n)"

definition BITMASKN_FFCSET :: "uint_t list \<Rightarrow> nat \<Rightarrow> (uint_t list \<times> int) option" where
  "BITMASKN_FFCSET bits n = found_word_upd bits BITMASK1_FFCSET (scan_up (NOT 0) bits 0 n)"

definition BITMASKN_FLCSET :: "uint_t list \<Rightarrow> nat \<Rightarrow> (uint_t list \<times> int) option" where
  "BITMASKN_FLCSET bits n = found_word_upd bits BITMASK1_FLCSET (scan_while_down (NOT 0) bits n)"

section \<open>Runs of bits\<close>

text \<open>
  The two inner loops of \<open>BITMASKN_ALLOCRANGE\<close>. \<open>range_clear\<close> walks up from a clear bit until
  \<open>end_bit\<close> (\<open>Some None\<close>: the run is free) or a set bit; \<open>range_skip\<close> walks up from a set bit to
  the next clear one, and gives up (\<open>Some None\<close>) past the last place a run can start.
\<close>

function range_clear :: "uint_t list \<Rightarrow> nat \<Rightarrow> nat \<Rightarrow> nat option option" where
  "range_clear bits bitno end_bit =
    (let bitno' = Suc bitno
     in if bitno' = end_bit then Some None
        else if NBITPW * length bits \<le> bitno' then None
        else if BITMASKN_TEST1 bits bitno' then Some (Some bitno')
        else range_clear bits bitno' end_bit)"
  by pat_completeness auto
termination
  by (relation "measure (\<lambda>(bits, bitno, end_bit). NBITPW * length bits - bitno)") auto

function range_skip :: "uint_t list \<Rightarrow> nat \<Rightarrow> nat \<Rightarrow> nat option option" where
  "range_skip bits bitno limit =
    (let bitno' = Suc bitno
     in if limit < bitno' then Some None
        else if NBITPW * length bits \<le> bitno' then None
        else if BITMASKN_TEST1 bits bitno' then range_skip bits bitno' limit
        else Some (Some bitno'))"
  by pat_completeness auto
termination
  by (relation "measure (\<lambda>(bits, bitno, limit). limit - bitno)") auto

declare range_clear.simps [simp del] range_skip.simps [simp del]

text \<open>\<open>do { --bitno; SET1(bits, bitno); } while (bitno != first_bit)\<close>, \<open>k\<close> rounds of it.\<close>

fun range_set :: "uint_t list \<Rightarrow> nat \<Rightarrow> nat \<Rightarrow> uint_t list" where
  "range_set bits first_bit 0 = bits"
| "range_set bits first_bit (Suc k) = range_set (BITMASKN_SET1 bits (first_bit + k)) first_bit k"

lemma range_clear_gt: "range_clear bits b e = Some (Some s) \<Longrightarrow> b < s \<and> s < NBITPW * length bits"
proof (induction bits b e rule: range_clear.induct)
  case (1 bits bitno end_bit)
  from "1.prems" show ?case
    using "1.IH" by (subst (asm) range_clear.simps) (fastforce simp: Let_def split: if_splits)
qed

lemma range_skip_gt: "range_skip bits b l = Some (Some s) \<Longrightarrow> b < s \<and> s \<le> l"
proof (induction bits b l rule: range_skip.induct)
  case (1 bits bitno limit)
  from "1.prems" show ?case
    using "1.IH" by (subst (asm) range_skip.simps) (fastforce simp: Let_def split: if_splits)
qed

function range_search :: "uint_t list \<Rightarrow> nat \<Rightarrow> nat \<Rightarrow> nat \<Rightarrow> (uint_t list \<times> int) option" where
  "range_search bits first_bit limit nbits =
    (case range_clear bits first_bit (first_bit + nbits) of
       None \<Rightarrow> None
     | Some None \<Rightarrow> Some (range_set bits first_bit nbits, int first_bit)
     | Some (Some s) \<Rightarrow>
         (case range_skip bits s limit of
            None \<Rightarrow> None
          | Some None \<Rightarrow> Some (bits, -1)
          | Some (Some f) \<Rightarrow> range_search bits f limit nbits))"
  by pat_completeness auto
termination
  by (relation "measure (\<lambda>(bits, first_bit, limit, nbits). NBITPW * length bits + limit - first_bit)")
     (fastforce dest: range_clear_gt range_skip_gt)+

declare range_search.simps [simp del]

definition BITMASKN_ALLOCRANGE :: "uint_t list \<Rightarrow> nat \<Rightarrow> nat \<Rightarrow> (uint_t list \<times> int) option" where
  "BITMASKN_ALLOCRANGE bits totalbits nbits =
    (case BITMASKN_FFC bits (BITMASK_NWORDS totalbits) of
       None \<Rightarrow> None
     | Some first_bit \<Rightarrow>
         if first_bit = -1 \<or> int (usub32 totalbits nbits) < first_bit then Some (bits, -1)
         else range_search bits (nat first_bit) (usub32 totalbits nbits) nbits)"

text \<open>\<open>do { CLR1(bits, bitno); ++bitno; } while (--nbits != 0)\<close>: with \<open>nbits\<close> 0 the count wraps and the
  loop runs through \<open>2 ^ 32\<close> bits, past any array (\<open>None\<close>).\<close>

fun range_unset :: "uint_t list \<Rightarrow> nat \<Rightarrow> nat \<Rightarrow> uint_t list" where
  "range_unset bits bitno 0 = bits"
| "range_unset bits bitno (Suc nbits) = range_unset (BITMASKN_CLR1 bits bitno) (Suc bitno) nbits"

definition BITMASKN_FREERANGE :: "uint_t list \<Rightarrow> nat \<Rightarrow> nat \<Rightarrow> uint_t list option" where
  "BITMASKN_FREERANGE bits bitno nbits =
    (if nbits = 0 \<or> NBITPW * length bits < bitno + nbits then None
     else Some (range_unset bits bitno nbits))"

end
