(* ===== verification/BitmaskSearch.thy ===== *)
theory BitmaskSearch
  imports Bitmasks
begin

text \<open>
  Correctness of the bit-array routines of \<open>Bitmasks\<close>. The interface between the two layers is the
  locale \<open>word_search\<close>: what an array search needs of the one-word search it calls. It is
  interpreted on the searches for set bits and on those for clear bits, which gives the eight array
  searches; the range allocator and the contracts of \<open>BitmapSpec\<close> follow.
\<close>

section \<open>One word\<close>

lemma FFS_lowest:
  assumes "lowest_bit w k"
  shows "BITMASK1_FFS w = int k"
proof -
  have "k < NBITPW" "w \<noteq> 0"
    using lowest_bit_length [OF assms] lowest_bit_nonzero [OF assms] by simp_all
  with assms show ?thesis
    unfolding less_32_cases BITMASK1_FFS_def
    apply (elim insertE emptyE)
    apply (simp_all add: lowest_bit_hit lowest_bit_miss)
    done
qed

lemma FLS_highest:
  assumes "highest_bit w k"
  shows "BITMASK1_FLS w = int k"
proof -
  have "k < NBITPW" "w \<noteq> 0"
    using highest_bit_length [OF assms] highest_bit_nonzero [OF assms] by simp_all
  with assms show ?thesis
    unfolding less_32_cases BITMASK1_FLS_def
    apply (elim insertE emptyE)
    apply (simp_all add: numeral_2_eq_2 [symmetric] highest_bit_hit highest_bit_miss)
    done
qed

lemma FFSCLR_lowest:
  assumes "lowest_bit w k"
  shows "BITMASK1_FFSCLR w = (BITMASK1_CLR1 w k, int k)"
proof -
  have "k < NBITPW" "w \<noteq> 0"
    using lowest_bit_length [OF assms] lowest_bit_nonzero [OF assms] by simp_all
  with assms show ?thesis
    unfolding less_32_cases BITMASK1_FFSCLR_def BITMASK1_CLR1_def
    apply (elim insertE emptyE)
    apply (simp_all add: lowest_bit_hit lowest_bit_miss)
    done
qed

lemma FLSCLR_highest:
  assumes "highest_bit w k"
  shows "BITMASK1_FLSCLR w = (BITMASK1_CLR1 w k, int k)"
proof -
  have "k < NBITPW" "w \<noteq> 0"
    using highest_bit_length [OF assms] highest_bit_nonzero [OF assms] by simp_all
  with assms show ?thesis
    unfolding less_32_cases BITMASK1_FLSCLR_def BITMASK1_CLR1_def
    apply (elim insertE emptyE)
    apply (simp_all add: numeral_2_eq_2 [symmetric] highest_bit_hit highest_bit_miss)
    done
qed

lemma BITMASK1_simps_0 [simp]:
  "BITMASK1_FFS 0 = -1" "BITMASK1_FLS 0 = -1"
  "BITMASK1_FFSCLR 0 = (0, -1)" "BITMASK1_FLSCLR 0 = (0, -1)"
  by (simp_all add: BITMASK1_FFS_def BITMASK1_FLS_def BITMASK1_FFSCLR_def BITMASK1_FLSCLR_def)

text \<open>The binary searches compute what a scan of the bits computes.\<close>

lemma no_bit_zero: "first_such (bit w) NBITPW = None \<longleftrightarrow> (w::uint_t) = 0"
  using all_bits_clear [of w] by (simp add: first_such_None)

lemma no_last_such_zero: "last_such (bit w) NBITPW = None \<longleftrightarrow> (w::uint_t) = 0"
  using all_bits_clear [of w] by (simp add: last_such_None)

lemma FFS_scan: "BITMASK1_FFS w = c_result (first_such (bit w) NBITPW)"
  using no_bit_zero [of w] FFS_lowest [OF first_such_word [THEN iffD1], of w]
  by (cases "first_such (bit w) NBITPW") simp_all

lemma FLS_scan: "BITMASK1_FLS w = c_result (last_such (bit w) NBITPW)"
  using no_last_such_zero [of w] FLS_highest [OF last_such_word [THEN iffD1], of w]
  by (cases "last_such (bit w) NBITPW") simp_all

definition scan_upd :: "('a \<Rightarrow> nat \<Rightarrow> 'a) \<Rightarrow> 'a \<Rightarrow> nat option \<Rightarrow> 'a \<times> int" where
  "scan_upd f w r = (case r of None \<Rightarrow> (w, -1) | Some k \<Rightarrow> (f w k, int k))"

lemma scan_upd_simps [simp]: "scan_upd f w None = (w, -1)" "scan_upd f w (Some k) = (f w k, int k)"
  by (simp_all add: scan_upd_def)

lemma FFSCLR_scan: "BITMASK1_FFSCLR w = scan_upd BITMASK1_CLR1 w (first_such (bit w) NBITPW)"
  using no_bit_zero [of w] FFSCLR_lowest [OF first_such_word [THEN iffD1], of w]
  by (cases "first_such (bit w) NBITPW") simp_all

lemma FLSCLR_scan: "BITMASK1_FLSCLR w = scan_upd BITMASK1_CLR1 w (last_such (bit w) NBITPW)"
  using no_last_such_zero [of w] FLSCLR_highest [OF last_such_word [THEN iffD1], of w]
  by (cases "last_such (bit w) NBITPW") simp_all

lemma first_such_not: "first_such (bit (NOT w)) NBITPW = first_such (\<lambda>i. \<not> bit (w::uint_t) i) NBITPW"
  unfolding first_such_def by (rule find_cong) (simp_all add: bit_not_iff)

lemma last_such_not: "last_such (bit (NOT w)) NBITPW = last_such (\<lambda>i. \<not> bit (w::uint_t) i) NBITPW"
  unfolding last_such_def by (rule find_cong) (simp_all add: bit_not_iff)

lemma CLR1_NOT: "NOT (BITMASK1_CLR1 (NOT w) k) = BITMASK1_SET1 w k"
  by (simp add: BITMASK1_CLR1_def BITMASK1_SET1_def)

lemma FFC_scan: "BITMASK1_FFC w = c_result (first_such (\<lambda>i. \<not> bit w i) NBITPW)"
  by (simp add: BITMASK1_FFC_def FFS_scan first_such_not)

lemma FLC_scan: "BITMASK1_FLC w = c_result (last_such (\<lambda>i. \<not> bit w i) NBITPW)"
  by (simp add: BITMASK1_FLC_def FLS_scan last_such_not)

lemma FFCSET_scan:
  "BITMASK1_FFCSET w = scan_upd BITMASK1_SET1 w (first_such (\<lambda>i. \<not> bit w i) NBITPW)"
  by (simp add: BITMASK1_FFCSET_def FFSCLR_scan first_such_not scan_upd_def CLR1_NOT
      split: option.split)

lemma FLCSET_scan:
  "BITMASK1_FLCSET w = scan_upd BITMASK1_SET1 w (last_such (\<lambda>i. \<not> bit w i) NBITPW)"
  by (simp add: BITMASK1_FLCSET_def FLSCLR_scan last_such_not scan_upd_def CLR1_NOT
      split: option.split)

section \<open>The loops over words\<close>

lemma scan_up_cases:
  assumes "i < n" and "n \<le> length bits"
  shows "(scan_up skip bits i n = Some None \<and> (\<forall>j. i \<le> j \<and> j < n \<longrightarrow> bits ! j = skip)) \<or>
    (\<exists>j. scan_up skip bits i n = Some (Some j) \<and> i \<le> j \<and> j < n \<and> bits ! j \<noteq> skip \<and>
       (\<forall>l. i \<le> l \<and> l < j \<longrightarrow> bits ! l = skip))"
  using assms
proof (induction "n - i" arbitrary: i)
  case 0
  then show ?case by simp
next
  case (Suc m)
  show ?case
  proof (cases "bits ! i = skip \<and> Suc i < n")
    case False
    with Suc.prems show ?thesis
      by (subst (1 2) scan_up.simps) (auto simp: le_less_Suc_eq not_less_eq)
  next
    case True
    then have eq: "scan_up skip bits i n = scan_up skip bits (Suc i) n"
      using Suc.prems by (subst scan_up.simps) simp
    have "m = n - Suc i" using Suc.hyps(2) by simp
    from Suc.hyps(1) [OF this] True Suc.prems show ?thesis
      unfolding eq by (metis Suc_leD Suc_leI le_neq_implies_less)
  qed
qed

lemma scan_do_down_cases:
  assumes "n \<le> length bits"
  shows "(scan_do_down skip bits n = Some None \<and> (\<forall>j<n. bits ! j = skip)) \<or>
    (\<exists>j. scan_do_down skip bits n = Some (Some j) \<and> j < n \<and> bits ! j \<noteq> skip \<and>
       (\<forall>l. j < l \<and> l < n \<longrightarrow> bits ! l = skip))"
  using assms
proof (induction n)
  case (Suc n)
  then show ?case by (cases "bits ! n = skip") (auto simp: less_Suc_eq)
qed simp

lemma scan_while_down_eq:
  "0 < n \<Longrightarrow> n \<le> length bits \<Longrightarrow> scan_while_down skip bits n = scan_do_down skip bits n"
  by (induction n) auto

section \<open>From a word to an array\<close>

locale word_search =
  fixes p :: "uint_t \<Rightarrow> nat \<Rightarrow> bool"
    and skip :: uint_t
    and flip :: "uint_t \<Rightarrow> nat \<Rightarrow> uint_t"
    and ffirst flast :: "uint_t \<Rightarrow> int"
    and ffirst_upd flast_upd :: "uint_t \<Rightarrow> uint_t \<times> int"
  assumes skip_iff: "w = skip \<longleftrightarrow> (\<forall>k<NBITPW. \<not> p w k)"
    and ffirst: "ffirst w = c_result (first_such (p w) NBITPW)"
    and flast: "flast w = c_result (last_such (p w) NBITPW)"
    and ffirst_upd: "ffirst_upd w = scan_upd flip w (first_such (p w) NBITPW)"
    and flast_upd: "flast_upd w = scan_upd flip w (last_such (p w) NBITPW)"
begin

definition pn :: "uint_t list \<Rightarrow> nat \<Rightarrow> bool" where
  "pn bits b = p (bits ! (b div NBITPW)) (b mod NBITPW)"

definition flipn :: "uint_t list \<Rightarrow> nat \<Rightarrow> uint_t list" where
  "flipn bits b = bits[b div NBITPW := flip (bits ! (b div NBITPW)) (b mod NBITPW)]"

lemma skip_none: "k < NBITPW \<Longrightarrow> \<not> p skip k"
  using skip_iff by blast

lemma all_skip: "\<forall>j<n. bits ! j = skip \<Longrightarrow> b < NBITPW * n \<Longrightarrow> \<not> pn bits b"
  by (simp add: pn_def word_index_bound skip_none)

lemma first_in_word:
  assumes "j < n" "\<forall>l<j. bits ! l = skip" "first_such (p (bits ! j)) NBITPW = Some k"
  shows "first_such (pn bits) (NBITPW * n) = Some (j * NBITPW + k)"
proof -
  from assms(3) have k: "k < NBITPW" "p (bits ! j) k" "\<forall>i<k. \<not> p (bits ! j) i"
    by (auto simp: first_such_Some)
  have "\<not> pn bits b" if "b < j * NBITPW + k" for b
    using below_bit_cases [OF that k(1)] assms(2) k by (auto simp: pn_def skip_none)
  moreover have "pn bits (j * NBITPW + k)" using k by (simp add: pn_def)
  ultimately show ?thesis using assms(1) k(1) by (simp add: first_such_Some)
qed

lemma last_in_word:
  assumes "j < n" "\<forall>l. j < l \<and> l < n \<longrightarrow> bits ! l = skip"
    "last_such (p (bits ! j)) NBITPW = Some k"
  shows "last_such (pn bits) (NBITPW * n) = Some (j * NBITPW + k)"
proof -
  from assms(3) have k: "k < NBITPW" "p (bits ! j) k"
    "\<forall>i. k < i \<and> i < NBITPW \<longrightarrow> \<not> p (bits ! j) i"
    by (auto simp: last_such_Some)
  have "\<not> pn bits b" if b: "j * NBITPW + k < b" "b < NBITPW * n" for b
    using above_bit_cases [OF b(1) k(1)] word_index_bound [OF b(2)] assms(2) k
    by (auto simp: pn_def skip_none)
  moreover have "pn bits (j * NBITPW + k)" using k by (simp add: pn_def)
  ultimately show ?thesis using assms(1) k(1) by (simp add: last_such_Some)
qed

lemma word_first: "w \<noteq> skip \<Longrightarrow> \<exists>k<NBITPW. first_such (p w) NBITPW = Some k"
  using skip_iff [of w] first_such_None [of "p w" NBITPW]
  by (cases "first_such (p w) NBITPW") (auto simp: first_such_Some)

lemma word_last: "w \<noteq> skip \<Longrightarrow> \<exists>k<NBITPW. last_such (p w) NBITPW = Some k"
  using skip_iff [of w] last_such_None [of "p w" NBITPW]
  by (cases "last_such (p w) NBITPW") (auto simp: last_such_Some)

lemma up_cases:
  assumes "0 < n" "n \<le> length bits"
  obtains "scan_up skip bits 0 n = Some None" "first_such (pn bits) (NBITPW * n) = None"
  | j k where "scan_up skip bits 0 n = Some (Some j)" "j < n" "k < NBITPW"
      "first_such (p (bits ! j)) NBITPW = Some k"
      "first_such (pn bits) (NBITPW * n) = Some (j * NBITPW + k)"
  using scan_up_cases [OF assms, of skip]
proof (elim disjE exE conjE)
  assume "scan_up skip bits 0 n = Some None" "\<forall>j. 0 \<le> j \<and> j < n \<longrightarrow> bits ! j = skip"
  then show thesis using all_skip [of n bits] that(1) by (simp add: first_such_None)
next
  fix j
  assume j: "scan_up skip bits 0 n = Some (Some j)" "j < n" "bits ! j \<noteq> skip"
    "\<forall>l. 0 \<le> l \<and> l < j \<longrightarrow> bits ! l = skip"
  from word_first [OF j(3)] obtain k
    where k: "k < NBITPW" "first_such (p (bits ! j)) NBITPW = Some k" by blast
  show thesis
    by (rule that(2) [OF j(1,2) k first_in_word [OF j(2) _ k(2)]]) (use j(4) in simp)
qed

lemma down_cases:
  assumes "n \<le> length bits"
  obtains "scan_do_down skip bits n = Some None" "last_such (pn bits) (NBITPW * n) = None"
  | j k where "scan_do_down skip bits n = Some (Some j)" "j < n" "k < NBITPW"
      "last_such (p (bits ! j)) NBITPW = Some k"
      "last_such (pn bits) (NBITPW * n) = Some (j * NBITPW + k)"
  using scan_do_down_cases [OF assms, of skip]
proof (elim disjE exE conjE)
  assume "scan_do_down skip bits n = Some None" "\<forall>j<n. bits ! j = skip"
  then show thesis using all_skip [of n bits] that(1) by (simp add: last_such_None)
next
  fix j
  assume j: "scan_do_down skip bits n = Some (Some j)" "j < n" "bits ! j \<noteq> skip"
    "\<forall>l. j < l \<and> l < n \<longrightarrow> bits ! l = skip"
  from word_last [OF j(3)] obtain k
    where k: "k < NBITPW" "last_such (p (bits ! j)) NBITPW = Some k" by blast
  show thesis by (rule that(2) [OF j(1,2) k last_in_word [OF j(2,4) k(2)]])
qed

lemma array_first:
  "0 < n \<Longrightarrow> n \<le> length bits \<Longrightarrow>
    found_word bits ffirst (scan_up skip bits 0 n) = Some (c_result (first_such (pn bits) (NBITPW * n)))"
  by (erule up_cases) (auto simp: found_word_def ffirst)

lemma array_last:
  "n \<le> length bits \<Longrightarrow>
    found_word bits flast (scan_do_down skip bits n) = Some (c_result (last_such (pn bits) (NBITPW * n)))"
  by (erule down_cases) (auto simp: found_word_def flast)

lemma array_first_upd:
  "0 < n \<Longrightarrow> n \<le> length bits \<Longrightarrow>
    found_word_upd bits ffirst_upd (scan_up skip bits 0 n)
    = Some (scan_upd flipn bits (first_such (pn bits) (NBITPW * n)))"
  by (erule up_cases) (auto simp: found_word_upd_def ffirst_upd flipn_def)

lemma array_last_upd:
  "n \<le> length bits \<Longrightarrow>
    found_word_upd bits flast_upd (scan_do_down skip bits n)
    = Some (scan_upd flipn bits (last_such (pn bits) (NBITPW * n)))"
  by (erule down_cases) (auto simp: found_word_upd_def flast_upd flipn_def)

end

interpretation set_bits: word_search bit 0 BITMASK1_CLR1 BITMASK1_FFS BITMASK1_FLS
  BITMASK1_FFSCLR BITMASK1_FLSCLR
  by unfold_locales (use all_bits_clear [where 'a = 32] in
    \<open>simp_all add: FFS_scan FLS_scan FFSCLR_scan FLSCLR_scan\<close>)

interpretation clear_bits: word_search "\<lambda>w k. \<not> bit w k" "NOT 0" BITMASK1_SET1 BITMASK1_FFC
  BITMASK1_FLC BITMASK1_FFCSET BITMASK1_FLCSET
  by unfold_locales (use all_bits_set [where 'a = 32] in
    \<open>simp_all add: FFC_scan FLC_scan FFCSET_scan FLCSET_scan\<close>)

section \<open>Single bits of an array\<close>

lemma SET1_length [length_simps]: "length (BITMASKN_SET1 bits i) = length bits"
  by (simp add: BITMASKN_SET1_def)

lemma CLR1_length [length_simps]: "length (BITMASKN_CLR1 bits i) = length bits"
  by (simp add: BITMASKN_CLR1_def)

lemma TEST1_SET1 [bit_test_simps]:
  assumes "i < NBITPW * length bits"
  shows "BITMASKN_TEST1 (BITMASKN_SET1 bits i) j \<longleftrightarrow> j = i \<or> BITMASKN_TEST1 bits j"
proof -
  have "bit (push_bit (i mod NBITPW) (1::uint_t)) (j mod NBITPW) \<longleftrightarrow> j mod NBITPW = i mod NBITPW"
    by (auto simp: bit_exp_iff)
  then show ?thesis
    using word_index_bound [OF assms] same_bit_index [of j NBITPW i]
    by (auto simp: BITMASKN_TEST1_def BITMASKN_SET1_def nth_list_update bit_or_iff)
qed

lemma TEST1_CLR1 [bit_test_simps]:
  assumes "i < NBITPW * length bits"
  shows "BITMASKN_TEST1 (BITMASKN_CLR1 bits i) j \<longleftrightarrow> j \<noteq> i \<and> BITMASKN_TEST1 bits j"
proof -
  have "bit (NOT (push_bit (i mod NBITPW) (1::uint_t))) (j mod NBITPW)
      \<longleftrightarrow> j mod NBITPW \<noteq> i mod NBITPW"
    by (auto simp: bit_exp_iff bit_not_iff)
  then show ?thesis
    using word_index_bound [OF assms] same_bit_index [of j NBITPW i]
    by (auto simp: BITMASKN_TEST1_def BITMASKN_CLR1_def nth_list_update bit_and_iff)
qed

lemma TEST1_ext:
  assumes "length bits = length bits'"
    and "\<And>k. k < NBITPW * length bits \<Longrightarrow> BITMASKN_TEST1 bits k = BITMASKN_TEST1 bits' k"
  shows "bits = bits'"
proof (rule nth_equalityI)
  fix i assume i: "i < length bits"
  show "bits ! i = bits' ! i"
  proof (rule bit_word_eqI)
    fix n assume n: "n < LENGTH(32)"
    then have "i * NBITPW + n < NBITPW * length bits" using i by simp
    from assms(2) [OF this] n show "bit (bits ! i) n = bit (bits' ! i) n"
      by (simp add: BITMASKN_TEST1_def)
  qed
qed (rule assms(1))

lemma search_correspondence:
  "set_bits.pn bits = BITMASKN_TEST1 bits"
  "clear_bits.pn bits = (\<lambda>b. \<not> BITMASKN_TEST1 bits b)"
  "set_bits.flipn = BITMASKN_CLR1"
  "clear_bits.flipn = BITMASKN_SET1"
  by (auto simp: fun_eq_iff set_bits.pn_def clear_bits.pn_def set_bits.flipn_def
      clear_bits.flipn_def BITMASKN_TEST1_def BITMASKN_CLR1_def BITMASKN_SET1_def
      BITMASK1_CLR1_def BITMASK1_SET1_def)

lemmas set_searches =
  set_bits.array_first set_bits.array_last set_bits.array_first_upd set_bits.array_last_upd
lemmas clear_searches =
  clear_bits.array_first clear_bits.array_last clear_bits.array_first_upd clear_bits.array_last_upd

lemma FFC_first:
  "0 < n \<Longrightarrow> n \<le> length bits \<Longrightarrow>
    BITMASKN_FFC bits n = Some (c_result (first_such (\<lambda>b. \<not> BITMASKN_TEST1 bits b) (NBITPW * n)))"
  using clear_bits.array_first [of n bits] by (simp add: BITMASKN_FFC_def search_correspondence)

section \<open>Bit arrays are bit maps\<close>

definition ffc_option :: "uint_t list \<Rightarrow> nat option" where
  "ffc_option bits =
    (case BITMASKN_FFC bits (length bits) of
       None \<Rightarrow> None | Some r \<Rightarrow> if r = -1 then None else Some (nat r))"

lemma ffc_option_first:
  "ffc_option bits = first_such (\<lambda>b. \<not> BITMASKN_TEST1 bits b) (NBITPW * length bits)"
proof (cases bits)
  case Nil
  then show ?thesis
    by (simp add: ffc_option_def BITMASKN_FFC_def found_word_def scan_up.simps first_such_def)
next
  case Cons
  then have "0 < length bits" by simp
  then show ?thesis by (simp add: ffc_option_def FFC_first c_result_def split: option.split)
qed

interpretation bitmask: bitmap_alloc "\<lambda>bits. NBITPW * length bits" BITMASKN_TEST1 BITMASKN_SET1
  BITMASKN_CLR1 ffc_option
  by unfold_locales
    (auto simp: length_simps bit_test_simps ffc_option_first first_such_Some first_such_None)

section \<open>Runs of bits\<close>

definition run_free :: "uint_t list \<Rightarrow> nat \<Rightarrow> nat \<Rightarrow> bool" where
  "run_free bits n f \<longleftrightarrow> (\<forall>k<n. \<not> BITMASKN_TEST1 bits (f + k))"

lemma run_freeD: "run_free bits n f \<Longrightarrow> f \<le> j \<Longrightarrow> j < f + n \<Longrightarrow> \<not> BITMASKN_TEST1 bits j"
  unfolding run_free_def by (metis le_add_diff_inverse nat_add_left_cancel_less)

lemma range_set_fold: "range_set bits f n = fold (\<lambda>i m. BITMASKN_SET1 m i) (rev [f..<f + n]) bits"
  by (induction bits f n rule: range_set.induct) simp_all

lemma range_unset_fold:
  "range_unset bits f n = fold (\<lambda>i m. BITMASKN_CLR1 m i) [f..<f + n] bits"
  by (induction bits f n rule: range_unset.induct) (simp_all add: upt_conv_Cons del: upt_Suc)

lemma range_set_used:
  assumes "f + n \<le> NBITPW * length bits"
  shows "length (range_set bits f n) = length bits
    \<and> bitmask.used (range_set bits f n) = bitmask.used bits \<union> {f..<f + n}"
  using bitmask.fold_st [of "rev [f..<f + n]" bits] assms by (auto simp: range_set_fold)

lemma range_unset_used:
  assumes "f + n \<le> NBITPW * length bits"
  shows "length (range_unset bits f n) = length bits
    \<and> bitmask.used (range_unset bits f n) = bitmask.used bits - {f..<f + n}"
  using bitmask.fold_cl [of "[f..<f + n]" bits] assms by (auto simp: range_unset_fold)

lemma used_ext: "length bits = length bits' \<Longrightarrow> bitmask.used bits = bitmask.used bits' \<Longrightarrow> bits = bits'"
  by (rule TEST1_ext) (auto simp: bitmask.used_def set_eq_iff)

lemma range_clear_cases:
  assumes "b < e" and "e \<le> NBITPW * length bits"
  shows "(range_clear bits b e = Some None \<and> (\<forall>j. b < j \<and> j < e \<longrightarrow> \<not> BITMASKN_TEST1 bits j)) \<or>
    (\<exists>s. range_clear bits b e = Some (Some s) \<and> b < s \<and> s < e \<and> BITMASKN_TEST1 bits s)"
  using assms
proof (induction "e - b" arbitrary: b)
  case 0
  then show ?case by simp
next
  case (Suc m)
  show ?case
  proof (cases "Suc b = e \<or> BITMASKN_TEST1 bits (Suc b)")
    case True
    with Suc.prems show ?thesis
      by (subst (1 2) range_clear.simps) (auto simp: Let_def)
  next
    case False
    with Suc.prems have lt: "Suc b < e" by simp
    with Suc.prems False have eq: "range_clear bits b e = range_clear bits (Suc b) e"
      by (subst range_clear.simps) (simp add: Let_def)
    have "m = e - Suc b" using Suc.hyps(2) by simp
    from Suc.hyps(1) [OF this lt] Suc.prems False show ?thesis
      unfolding eq by (metis Suc_lessD Suc_lessI)
  qed
qed

lemma range_skip_cases:
  assumes "limit < NBITPW * length bits"
  shows "(range_skip bits b limit = Some None \<and>
      (\<forall>j. b < j \<and> j \<le> limit \<longrightarrow> BITMASKN_TEST1 bits j)) \<or>
    (\<exists>f. range_skip bits b limit = Some (Some f) \<and> b < f \<and> f \<le> limit \<and>
      \<not> BITMASKN_TEST1 bits f \<and> (\<forall>j. b < j \<and> j < f \<longrightarrow> BITMASKN_TEST1 bits j))"
  using assms
proof (induction "limit - b" arbitrary: b)
  case 0
  then show ?case by (subst (1 2) range_skip.simps) (auto simp: Let_def)
next
  case (Suc m)
  show ?case
  proof (cases "BITMASKN_TEST1 bits (Suc b)")
    case False
    with Suc.prems Suc.hyps(2) show ?thesis
      by (subst (1 2) range_skip.simps) (auto simp: Let_def)
  next
    case True
    moreover have "\<not> limit < Suc b" using Suc.hyps(2) by simp
    ultimately have eq: "range_skip bits b limit = range_skip bits (Suc b) limit"
      using Suc.prems by (subst range_skip.simps) (simp add: Let_def)
    have "m = limit - Suc b" using Suc.hyps(2) by simp
    from Suc.hyps(1) [OF this Suc.prems] True show ?thesis
      unfolding eq by (metis Suc_lessD Suc_lessI)
  qed
qed

lemma range_search_first:
  assumes "0 < n" "f \<le> limit" "limit + n \<le> NBITPW * length bits"
    "\<not> BITMASKN_TEST1 bits f" "\<forall>j<f. \<not> run_free bits n j"
  shows "range_search bits f limit n
    = Some (scan_upd (\<lambda>bits f. range_set bits f n) bits (first_such (run_free bits n) (Suc limit)))"
  using assms
proof (induction bits f limit n rule: range_search.induct)
  case (1 bits f limit n)
  have bound: "f < f + n" "f + n \<le> NBITPW * length bits" "limit < NBITPW * length bits"
    using "1.prems" by simp_all
  show ?case
    using range_clear_cases [OF bound(1,2)]
  proof (elim disjE exE conjE)
    assume r: "range_clear bits f (f + n) = Some None"
      "\<forall>j. f < j \<and> j < f + n \<longrightarrow> \<not> BITMASKN_TEST1 bits j"
    have "run_free bits n f"
      unfolding run_free_def using r(2) "1.prems"(4)
      by (metis add_less_cancel_left less_add_same_cancel1 neq0_conv add.right_neutral)
    then have "first_such (run_free bits n) (Suc limit) = Some f"
      using "1.prems" by (simp add: first_such_Some)
    with r(1) show ?thesis by (subst range_search.simps) simp
  next
    fix s
    assume s: "range_clear bits f (f + n) = Some (Some s)" "f < s" "s < f + n"
      "BITMASKN_TEST1 bits s"
    have blocked: "\<not> run_free bits n j" if "j \<le> s" for j
      using that s "1.prems"(5) run_freeD [of bits n j s] by (cases "j < f") auto
    show ?thesis
      using range_skip_cases [OF bound(3), of s]
    proof (elim disjE exE conjE)
      assume k: "range_skip bits s limit = Some None"
        "\<forall>j. s < j \<and> j \<le> limit \<longrightarrow> BITMASKN_TEST1 bits j"
      have "\<not> run_free bits n j" if "j \<le> limit" for j
        using blocked [of j] k(2) that run_freeD [of bits n j j] "1.prems"(1)
        by (cases "j \<le> s") auto
      then have "first_such (run_free bits n) (Suc limit) = None"
        by (simp add: first_such_None)
      with s(1) k(1) show ?thesis by (subst range_search.simps) simp
    next
      fix g
      assume g: "range_skip bits s limit = Some (Some g)" "s < g" "g \<le> limit"
        "\<not> BITMASKN_TEST1 bits g" "\<forall>j. s < j \<and> j < g \<longrightarrow> BITMASKN_TEST1 bits j"
      have "\<forall>j<g. \<not> run_free bits n j"
      proof (intro allI impI)
        fix j assume "j < g"
        then show "\<not> run_free bits n j"
          using blocked [of j] g(5) run_freeD [of bits n j j] "1.prems"(1)
          by (cases "j \<le> s") auto
      qed
      from "1.IH" [OF s(1) refl g(1) refl "1.prems"(1) g(3) "1.prems"(3) g(4) this] s(1) g(1)
      show ?thesis by (subst range_search.simps) simp
    qed
  qed
qed

lemma ALLOCRANGE_first_fit:
  assumes "0 < n" "n \<le> tb" "tb \<le> NBITPW * length bits"
  shows "BITMASKN_ALLOCRANGE bits tb n
    = Some (scan_upd (\<lambda>bits f. range_set bits f n) bits
        (first_such (run_free bits n) (Suc (tb - n))))"
proof -
  let ?w = "BITMASK_NWORDS tb"
  have w: "0 < ?w" "?w \<le> length bits" "tb \<le> NBITPW * ?w"
    using assms unfolding BITMASK_NWORDS_def by (linarith | presburger)+
  note ffc = FFC_first [OF w(1,2)]
  show ?thesis
  proof (cases "first_such (\<lambda>b. \<not> BITMASKN_TEST1 bits b) (NBITPW * ?w)")
    case None
    then have "\<not> run_free bits n j" if "j \<le> tb - n" for j
      using that assms w(3) run_freeD [of bits n j j] by (auto simp: first_such_None)
    then have "first_such (run_free bits n) (Suc (tb - n)) = None"
      by (simp add: first_such_None)
    with None ffc show ?thesis by (simp add: BITMASKN_ALLOCRANGE_def)
  next
    case (Some f)
    then have f: "\<not> BITMASKN_TEST1 bits f" "\<forall>j<f. BITMASKN_TEST1 bits j"
      by (auto simp: first_such_Some)
    have nf: "\<forall>j<f. \<not> run_free bits n j"
      using f(2) run_freeD [of bits n] assms(1) by fastforce
    show ?thesis
    proof (cases "f \<le> tb - n")
      case True
      then have "\<not> int tb - int n < int f" using assms(2) by linarith
      with True range_search_first [of n f "tb - n" bits] f(1) nf assms Some ffc show ?thesis
        by (simp add: BITMASKN_ALLOCRANGE_def)
    next
      case False
      then have "first_such (run_free bits n) (Suc (tb - n)) = None"
        using nf by (simp add: first_such_None)
      moreover have "int tb - int n < int f" using False assms(2) by linarith
      ultimately show ?thesis using Some ffc assms by (simp add: BITMASKN_ALLOCRANGE_def)
    qed
  qed
qed

lemma ALLOCRANGE_Some:
  assumes "BITMASKN_ALLOCRANGE bits tb n = Some (bits', r)" "r \<noteq> -1"
    and "0 < n" "n \<le> tb" "tb \<le> NBITPW * length bits"
  obtains f where "r = int f" "bits' = range_set bits f n" "run_free bits n f" "f + n \<le> tb"
    "\<forall>g<f. \<not> run_free bits n g"
  using assms ALLOCRANGE_first_fit [OF assms(3-5)]
  by (cases "first_such (run_free bits n) (Suc (tb - n))") (auto simp: first_such_Some)

section \<open>Properties\<close>

text \<open>the unrolled one-word binary searches \<open>BITMASK1_FFS\<close>, \<open>_FLS\<close>, \<open>_FFC\<close> and \<open>_FLC\<close> return, for
  each of the \<open>2 ^ 32\<close> words, the number of the first or last set or clear bit that a scan of the bits
  finds, -1 if there is none; the \<open>CLR\<close> and \<open>SET\<close> variants return the same number and flip exactly
  that bit of the word.\<close>

theorem bitmask1_searches:
  "BITMASK1_FFS w = c_result (first_such (bit w) NBITPW) \<and>
   BITMASK1_FLS w = c_result (last_such (bit w) NBITPW) \<and>
   BITMASK1_FFC w = c_result (first_such (\<lambda>i. \<not> bit w i) NBITPW) \<and>
   BITMASK1_FLC w = c_result (last_such (\<lambda>i. \<not> bit w i) NBITPW) \<and>
   BITMASK1_FFSCLR w = scan_upd BITMASK1_CLR1 w (first_such (bit w) NBITPW) \<and>
   BITMASK1_FLSCLR w = scan_upd BITMASK1_CLR1 w (last_such (bit w) NBITPW) \<and>
   BITMASK1_FFCSET w = scan_upd BITMASK1_SET1 w (first_such (\<lambda>i. \<not> bit w i) NBITPW) \<and>
   BITMASK1_FLCSET w = scan_upd BITMASK1_SET1 w (last_such (\<lambda>i. \<not> bit w i) NBITPW)"
  by (intro conjI FFS_scan FLS_scan FFC_scan FLC_scan FFSCLR_scan FLSCLR_scan FFCSET_scan FLCSET_scan)

text \<open>C1: the searches of an array of words for a set bit stay inside the array and return the first
  (last) set bit of its \<open>32 * n\<close> bits, -1 if all are clear; the \<open>CLR\<close> variants clear exactly that
  bit.\<close>

theorem bitmaskn_set_searches:
  assumes "0 < n" "n \<le> length bits"
  shows "BITMASKN_FFS bits n = Some (c_result (first_such (BITMASKN_TEST1 bits) (NBITPW * n))) \<and>
    BITMASKN_FLS bits n = Some (c_result (last_such (BITMASKN_TEST1 bits) (NBITPW * n))) \<and>
    BITMASKN_FFSCLR bits n =
      Some (scan_upd BITMASKN_CLR1 bits (first_such (BITMASKN_TEST1 bits) (NBITPW * n))) \<and>
    BITMASKN_FLSCLR bits n =
      Some (scan_upd BITMASKN_CLR1 bits (last_such (BITMASKN_TEST1 bits) (NBITPW * n)))"
  using assms set_searches [of n bits]
  by (simp add: BITMASKN_FFS_def BITMASKN_FLS_def BITMASKN_FFSCLR_def BITMASKN_FLSCLR_def
      scan_while_down_eq search_correspondence)

theorem bitmaskn_set_searches_witness:
  "BITMASKN_FLSCLR [0x10, 0x300, 0] 3 = Some ([0x10, 0x100, 0], 41)"
  using bitmaskn_set_searches [of 3 "[0x10, 0x300, 0]"]
  by (simp add: last_such_def upt_conv_Cons BITMASKN_TEST1_def BITMASKN_CLR1_def upt_rec)

text \<open>C2: the searches of an array of words for a clear bit stay inside the array and return the first
  (last) clear bit of its \<open>32 * n\<close> bits, -1 if all are set; the \<open>SET\<close> variants set exactly that
  bit.\<close>

theorem bitmaskn_clear_searches:
  assumes "0 < n" "n \<le> length bits"
  shows "BITMASKN_FFC bits n = Some (c_result (first_such (\<lambda>b. \<not> BITMASKN_TEST1 bits b) (NBITPW * n))) \<and>
    BITMASKN_FLC bits n = Some (c_result (last_such (\<lambda>b. \<not> BITMASKN_TEST1 bits b) (NBITPW * n))) \<and>
    BITMASKN_FFCSET bits n =
      Some (scan_upd BITMASKN_SET1 bits (first_such (\<lambda>b. \<not> BITMASKN_TEST1 bits b) (NBITPW * n))) \<and>
    BITMASKN_FLCSET bits n =
      Some (scan_upd BITMASKN_SET1 bits (last_such (\<lambda>b. \<not> BITMASKN_TEST1 bits b) (NBITPW * n)))"
  using assms clear_searches [of n bits]
  by (simp add: BITMASKN_FFC_def BITMASKN_FLC_def BITMASKN_FFCSET_def BITMASKN_FLCSET_def
      scan_while_down_eq search_correspondence)

theorem bitmaskn_clear_searches_witness:
  "BITMASKN_FFCSET [NOT 0, 0x1] 2 = Some ([NOT 0, 0x3], 33)"
  using bitmaskn_clear_searches [of 2 "[NOT 0, 0x1]"]
  by (simp add: first_such_def upt_rec BITMASKN_TEST1_def BITMASKN_SET1_def)

text \<open>C3: \<open>BITMASKN_ALLOCRANGE\<close> is first fit. It never reads outside the map; it returns the lowest
  place below \<open>totalbits\<close> where a run of \<open>nbits\<close> clear bits starts and sets exactly the bits of that
  run, or returns -1 and leaves the map alone when there is no such run.\<close>

theorem bitmaskn_allocrange_first_fit:
  assumes "0 < n" "n \<le> tb" "tb \<le> NBITPW * length bits"
  shows "\<exists>bits' r. BITMASKN_ALLOCRANGE bits tb n = Some (bits', r) \<and> length bits' = length bits \<and>
    (if r = -1 then bits' = bits \<and> (\<forall>g \<le> tb - n. \<not> run_free bits n g)
     else \<exists>f. r = int f \<and> f + n \<le> tb \<and> run_free bits n f \<and> (\<forall>g<f. \<not> run_free bits n g) \<and>
       bitmask.used bits' = bitmask.used bits \<union> {f..<f + n})"
proof (cases "first_such (run_free bits n) (Suc (tb - n))")
  case None
  with ALLOCRANGE_first_fit [OF assms] show ?thesis by (simp add: first_such_None)
next
  case (Some f)
  then have f: "f \<le> tb - n" "run_free bits n f" "\<forall>g<f. \<not> run_free bits n g"
    by (auto simp: first_such_Some)
  with assms have "f + n \<le> NBITPW * length bits" "f + n \<le> tb" by simp_all
  with range_set_used [of f n bits] Some f ALLOCRANGE_first_fit [OF assms] show ?thesis by simp
qed

lemma allocrange_example:
  "BITMASKN_ALLOCRANGE [0xfffffff5, 0x1] 40 3 = Some ([0xfffffff5, 0xf], 33)"
  by code_simp

theorem bitmaskn_allocrange_first_fit_witness:
  "run_free [0xfffffff5, 0x1] 3 33 \<and>
   bitmask.used [0xfffffff5, 0xf] = bitmask.used [0xfffffff5, 0x1] \<union> {33..<36}"
  using bitmaskn_allocrange_first_fit [of 3 40 "[0xfffffff5, 0x1]"]
  by (simp add: allocrange_example)

text \<open>Freeing the run that \<open>BITMASKN_ALLOCRANGE\<close> has just handed out gives back the map the
  allocation started from, bit for bit.\<close>

theorem bitmaskn_alloc_free_roundtrip:
  assumes "BITMASKN_ALLOCRANGE bits tb n = Some (bits', int f)"
    and "0 < n" "n \<le> tb" "tb \<le> NBITPW * length bits"
  shows "BITMASKN_FREERANGE bits' f n = Some bits"
proof -
  from ALLOCRANGE_Some [OF assms(1) _ assms(2-4)]
  have r: "bits' = range_set bits f n" "run_free bits n f" "f + n \<le> tb" by auto
  then have le: "f + n \<le> NBITPW * length bits" using assms(4) by simp
  have new: "{f..<f + n} \<inter> bitmask.used bits = {}"
    using run_freeD [OF r(2)] by (auto simp: bitmask.used_def)
  note set = range_set_used [OF le]
  note unset = range_unset_used [of f n bits', folded r(1)]
  have "range_unset bits' f n = bits"
    by (rule used_ext) (use set unset le new r(1) in auto)
  with le set r(1) assms(2) show ?thesis by (simp add: BITMASKN_FREERANGE_def)
qed

theorem bitmaskn_alloc_free_roundtrip_witness:
  "BITMASKN_FREERANGE [0xfffffff5, 0xf] 33 3 = Some [0xfffffff5, 0x1]"
proof -
  have "BITMASKN_ALLOCRANGE [0xfffffff5, 0x1] 40 3 = Some ([0xfffffff5, 0xf], int 33)"
    by (simp add: allocrange_example)
  from bitmaskn_alloc_free_roundtrip [OF this] show ?thesis by simp
qed

end
