(* ===== verification/LinkRing.thy ===== *)
theory LinkRing
  imports KPrelude
begin

text \<open>
  Circular doubly linked lists, the one linked structure of the modelled code. Nodes live in an
  array and a link is an index into it; a list head is the index of its first node, or \<open>None\<close>. The
  locale \<open>linked_ring\<close> is the interface: a node type with two links that can be read and written without
  touching the rest of the node (its \<open>pay\<close>load). Insertion at the tail and deletion are written as
  the code writes them, and proved to be the list operations.
\<close>

definition upd :: "'a list \<Rightarrow> nat \<Rightarrow> ('a \<Rightarrow> 'a) \<Rightarrow> 'a list" where
  "upd ns i f = ns[i := f (ns ! i)]"

lemma length_upd [simp]: "length (upd ns i f) = length ns"
  by (simp add: upd_def)

lemma nth_upd: "j < length ns \<Longrightarrow> upd ns i f ! j = (if j = i then f (ns ! j) else ns ! j)"
  by (auto simp: upd_def)

definition head_of :: "nat list \<Rightarrow> nat option" where
  "head_of xs = (case xs of [] \<Rightarrow> None | x # _ \<Rightarrow> Some x)"

lemma head_of_simps [simp]: "head_of [] = None" "head_of (x # xs) = Some x"
  by (simp_all add: head_of_def)

lemma head_of_Some: "head_of xs = Some x \<longleftrightarrow> xs \<noteq> [] \<and> hd xs = x"
  by (cases xs) auto

lemma head_of_None [simp]: "head_of xs = None \<longleftrightarrow> xs = []" "None = head_of xs \<longleftrightarrow> xs = []"
  by (cases xs; simp)+

lemma head_of_append: "xs \<noteq> [] \<Longrightarrow> head_of (xs @ ys) = head_of xs"
  by (cases xs) auto

locale linked_ring =
  fixes fl bl :: "'n \<Rightarrow> nat"
    and sfl sbl :: "nat \<Rightarrow> 'n \<Rightarrow> 'n"
    and pay :: "'n \<Rightarrow> 'p"
  assumes fl_sfl [simp]: "fl (sfl i n) = i"
    and bl_sbl [simp]: "bl (sbl i n) = i"
    and fl_sbl [simp]: "fl (sbl i n) = fl n"
    and bl_sfl [simp]: "bl (sfl i n) = bl n"
    and pay_sfl [simp]: "pay (sfl i n) = pay n"
    and pay_sbl [simp]: "pay (sbl i n) = pay n"
begin

text \<open>\<open>seg ns xs\<close>: the nodes \<open>xs\<close> follow one another; \<open>ring_at ns xs\<close>: they form a ring.\<close>

fun seg :: "'n list \<Rightarrow> nat list \<Rightarrow> bool" where
  "seg ns [] = True"
| "seg ns [a] = True"
| "seg ns (a # b # xs) \<longleftrightarrow> fl (ns ! a) = b \<and> bl (ns ! b) = a \<and> seg ns (b # xs)"

definition ring_at :: "'n list \<Rightarrow> nat list \<Rightarrow> bool" where
  "ring_at ns xs \<longleftrightarrow> distinct xs \<and> set xs \<subseteq> {..<length ns} \<and> (xs \<noteq> [] \<longrightarrow> seg ns (xs @ [hd xs]))"

definition ring_add :: "nat option \<Rightarrow> 'n list \<Rightarrow> nat \<Rightarrow> nat option \<times> 'n list" where
  "ring_add pool ns c =
    (case pool of
       None \<Rightarrow> (Some c, upd (upd ns c (sbl c)) c (sfl c))
     | Some nxt \<Rightarrow>
         let lst = bl (ns ! nxt);
             ns = upd ns nxt (sbl c);
             ns = upd ns lst (sfl c);
             ns = upd ns c (sfl nxt);
             ns = upd ns c (sbl lst)
         in (Some nxt, ns))"

definition ring_del :: "nat option \<Rightarrow> 'n list \<Rightarrow> nat \<Rightarrow> nat option \<times> 'n list" where
  "ring_del pool ns c =
    (let (pool, ns) =
       (if fl (ns ! c) = c then (None, ns)
        else
          let nxt = fl (ns ! c);
              lst = bl (ns ! c);
              ns = upd ns nxt (sbl lst);
              ns = upd ns lst (sfl nxt);
              pool = (if pool = Some c then Some (fl (ns ! c)) else pool)
          in (pool, ns));
       ns = upd ns c (sfl c);
       ns = upd ns c (sbl c)
     in (pool, ns))"

lemma seg_append: "seg ns (xs @ a # ys) \<longleftrightarrow> seg ns (xs @ [a]) \<and> seg ns (a # ys)"
proof (induction xs)
  case (Cons x xs)
  then show ?case by (cases xs) auto
qed (cases ys; simp)

lemma seg_butlast: "seg ns (xs @ [a]) \<Longrightarrow> seg ns xs"
proof (induction xs)
  case (Cons x xs)
  then show ?case by (cases xs) auto
qed simp

lemma seg_tl: "seg ns (a # xs) \<Longrightarrow> seg ns xs"
  by (cases xs) auto

lemma seg_frame:
  assumes "seg ns xs"
    and "\<And>a. a \<in> set (butlast xs) \<Longrightarrow> fl (ms ! a) = fl (ns ! a)"
    and "\<And>a. a \<in> set (tl xs) \<Longrightarrow> bl (ms ! a) = bl (ns ! a)"
  shows "seg ms xs"
  using assms
proof (induction ns xs rule: seg.induct)
  case (3 ns a b xs)
  then have "seg ms (b # xs)" by (intro "3.IH") (auto split: if_splits)
  with 3 show ?case by auto
qed auto

lemma ring_frame:
  assumes "ring_at ns xs" "length ms = length ns"
    and "\<And>a. a \<in> set xs \<Longrightarrow> fl (ms ! a) = fl (ns ! a) \<and> bl (ms ! a) = bl (ns ! a)"
  shows "ring_at ms xs"
proof (cases xs)
  case Nil
  then show ?thesis by (simp add: ring_at_def)
next
  case (Cons x ys)
  with assms(1) have "seg ns (xs @ [hd xs])" by (simp add: ring_at_def)
  then have "seg ms (xs @ [hd xs])"
    by (rule seg_frame) (use assms(3) Cons in \<open>auto dest: in_set_butlastD\<close>)
  with assms show ?thesis by (simp add: ring_at_def)
qed

lemma ring_rotate:
  assumes "ring_at ns (a # xs)"
  shows "ring_at ns (xs @ [a])"
proof (cases xs)
  case (Cons b ys)
  from assms have s: "seg ns (a # xs @ [a])" by (simp add: ring_at_def)
  then have "seg ns (xs @ [a])" "seg ns [a, b]" using Cons by simp_all
  then have "seg ns (xs @ a # [b])" by (subst seg_append) simp
  with assms Cons show ?thesis by (simp add: ring_at_def)
qed (use assms in simp)

lemma ring_rotate_append: "ring_at ns (ys @ xs) \<Longrightarrow> ring_at ns (xs @ ys)"
proof (induction ys arbitrary: xs)
  case (Cons y ys)
  from ring_rotate [of ns y "ys @ xs"] Cons.prems have "ring_at ns (ys @ xs @ [y])" by simp
  from Cons.IH [OF this] show ?case by simp
qed simp

lemma ring_neighbours:
  assumes "ring_at ns (c # w # ws)"
  shows "fl (ns ! c) = w" "bl (ns ! c) = last (w # ws)"
proof -
  from assms have s: "seg ns (c # (w # ws) @ [c])" by (simp add: ring_at_def)
  then show "fl (ns ! c) = w" by simp
  have "seg ns ((c # butlast (w # ws)) @ last (w # ws) # [c])"
    using s by (metis append_Cons append.assoc append_butlast_last_id append_Nil list.distinct(1))
  then have "seg ns [last (w # ws), c]" by (subst (asm) seg_append) blast
  then show "bl (ns ! c) = last (w # ws)" by simp
qed

lemma ring_blink_hd:
  assumes "ring_at ns xs" "xs \<noteq> []"
  shows "bl (ns ! hd xs) = last xs"
proof (cases xs)
  case (Cons x ys)
  show ?thesis
  proof (cases ys)
    case Nil
    with assms Cons show ?thesis by (simp add: ring_at_def)
  next
    case (Cons y zs)
    with assms \<open>xs = x # ys\<close> ring_neighbours(2) [of ns x y zs] show ?thesis by simp
  qed
qed (use assms in simp)

lemma ring_flink_self:
  assumes "ring_at ns xs" "c \<in> set xs"
  shows "fl (ns ! c) = c \<longleftrightarrow> xs = [c]"
proof -
  from assms(2) obtain ys zs where xs: "xs = ys @ c # zs" by (meson split_list)
  have r: "ring_at ns (c # zs @ ys)" using ring_rotate_append [of ns ys "c # zs"] assms(1) xs by simp
  show ?thesis
  proof (cases "zs @ ys")
    case Nil
    then have e: "zs = []" "ys = []" by simp_all
    from r have "fl (ns ! c) = c" unfolding e by (simp add: ring_at_def)
    then show ?thesis using xs e by simp
  next
    case (Cons w ws)
    from r have "c \<notin> set (w # ws)" unfolding ring_at_def Cons by simp
    moreover have "fl (ns ! c) = w" by (rule ring_neighbours(1) [OF r [unfolded Cons]])
    moreover have "xs \<noteq> [c]"
    proof
      assume "xs = [c]"
      with xs have "length (zs @ ys) = 0" by (cases ys) auto
      with Cons show False by simp
    qed
    ultimately show ?thesis by auto
  qed
qed

lemma ring_add_pay: "map pay (snd (ring_add pool ns c)) = map pay ns"
  by (rule nth_equalityI) (auto simp: ring_add_def Let_def nth_upd split: option.split)

lemma ring_del_pay: "map pay (snd (ring_del pool ns c)) = map pay ns"
  by (rule nth_equalityI) (auto simp: ring_del_def Let_def nth_upd)

lemma ring_add_length [simp]: "length (snd (ring_add pool ns c)) = length ns"
  using arg_cong [OF ring_add_pay, of length] by simp

lemma ring_del_length [simp]: "length (snd (ring_del pool ns c)) = length ns"
  using arg_cong [OF ring_del_pay, of length] by simp

lemma ring_add_ring:
  assumes r: "ring_at ns xs" and c: "c \<notin> set xs" "c < length ns"
  shows "\<exists>ms. ring_add (head_of xs) ns c = (head_of (xs @ [c]), ms) \<and> ring_at ms (xs @ [c]) \<and>
    (\<forall>a < length ns. a \<notin> set xs \<and> a \<noteq> c \<longrightarrow> ms ! a = ns ! a)"
proof (cases xs rule: rev_cases)
  case Nil
  with c show ?thesis by (simp add: ring_add_def ring_at_def nth_upd)
next
  case (snoc us l)
  define h where "h = hd xs"
  have ne: "xs \<noteq> []" using snoc by simp
  have l: "bl (ns ! h) = l" using ring_blink_hd [OF r ne] snoc by (simp add: h_def)
  have hl: "h \<in> set xs" unfolding h_def by (rule hd_in_set [OF ne])
  have "l \<in> set xs" using snoc by simp
  have b: "h < length ns" "l < length ns" "h \<in> set xs" "l \<in> set xs" "distinct (us @ [l])"
    using r snoc hl \<open>l \<in> set xs\<close> unfolding ring_at_def by auto
  define ms where "ms = snd (ring_add (Some h) ns c)"
  have len: "length ms = length ns" by (simp add: ms_def)
  have fl: "fl (ms ! a) = (if a = c then h else if a = l then c else fl (ns ! a))"
    if "a < length ns" for a
    using that b c l by (auto simp: ms_def ring_add_def Let_def nth_upd)
  have bl: "bl (ms ! a) = (if a = c then l else if a = h then c else bl (ns ! a))"
    if "a < length ns" for a
    using that b c l by (auto simp: ms_def ring_add_def Let_def nth_upd)
  have other: "ms ! a = ns ! a" if "a < length ns" "a \<notin> set xs" "a \<noteq> c" for a
    using that b l by (auto simp: ms_def ring_add_def Let_def nth_upd)
  have "seg ns (us @ [l])"
    by (rule seg_butlast [of ns "us @ [l]" "hd xs"]) (use r snoc ne in \<open>simp add: ring_at_def\<close>)
  then have "seg ms (us @ [l])"
  proof (rule seg_frame)
    fix a assume "a \<in> set (butlast (us @ [l]))"
    then have "a \<in> set xs" "a \<noteq> l" using b(5) snoc by auto
    then show "fl (ms ! a) = fl (ns ! a)" using fl [of a] r c by (auto simp: ring_at_def)
  next
    fix a assume a: "a \<in> set (tl (us @ [l]))"
    then have "a \<in> set xs" "a \<noteq> h" using b(5) snoc h_def by (cases us; auto)+
    then show "bl (ms ! a) = bl (ns ! a)" using bl [of a] r c by (auto simp: ring_at_def)
  qed
  moreover have "seg ms [l, c, h]"
    using fl [of l] fl [of c] bl [of c] bl [of h] b c by auto
  ultimately have "seg ms (us @ l # [c, h])" by (subst seg_append) blast
  then have "ring_at ms (xs @ [c])"
    using r c snoc len ne by (auto simp: ring_at_def h_def hd_append)
  moreover have "ring_add (head_of xs) ns c = (head_of (xs @ [c]), ms)"
  proof -
    have "head_of xs = Some h" using ne by (simp add: head_of_Some h_def)
    then show ?thesis using ne by (simp add: ms_def head_of_append ring_add_def Let_def)
  qed
  ultimately show ?thesis using other by blast
qed

lemma ring_del_ring:
  assumes r: "ring_at ns (ys @ c # zs)"
  shows "\<exists>ms. ring_del (head_of (ys @ c # zs)) ns c = (head_of (ys @ zs), ms) \<and>
    ring_at ms (ys @ zs) \<and> fl (ms ! c) = c \<and> bl (ms ! c) = c \<and>
    (\<forall>a < length ns. a \<notin> set (ys @ c # zs) \<longrightarrow> ms ! a = ns ! a)"
proof -
  have rot: "ring_at ns (c # zs @ ys)" using ring_rotate_append [OF r] by simp
  have cb: "c < length ns" "c \<notin> set (zs @ ys)" using rot by (auto simp: ring_at_def)
  show ?thesis
  proof (cases "zs @ ys")
    case Nil
    with rot cb show ?thesis by (simp add: ring_del_def ring_at_def nth_upd)
  next
    case (Cons w ws)
    define l where "l = last (w # ws)"
    have n: "fl (ns ! c) = w" "bl (ns ! c) = l"
      using ring_neighbours [of ns c w ws] rot Cons by (simp_all add: l_def)
    have b: "w < length ns" "l < length ns" "w \<noteq> c" "l \<noteq> c" "l \<in> set (w # ws)" "distinct (w # ws)"
      "set (w # ws) \<subseteq> {..<length ns}"
      using rot cb Cons last_in_set [of "w # ws"] unfolding ring_at_def l_def by auto
    define ms where "ms = snd (ring_del (head_of (ys @ c # zs)) ns c)"
    have len: "length ms = length ns" by (simp add: ms_def)
    have fl: "fl (ms ! a) = (if a = c then c else if a = l then w else fl (ns ! a))"
      if "a < length ns" for a
      using that b cb n by (auto simp: ms_def ring_del_def Let_def nth_upd)
    have bl: "bl (ms ! a) = (if a = c then c else if a = w then l else bl (ns ! a))"
      if "a < length ns" for a
      using that b cb n by (auto simp: ms_def ring_del_def Let_def nth_upd)
    have other: "ms ! a = ns ! a" if "a < length ns" "a \<notin> set (ys @ c # zs)" for a
    proof -
      have "a \<notin> set (w # ws)" "a \<noteq> c" using that Cons by (auto simp flip: Cons)
      then have "a \<noteq> w" "a \<noteq> l" "a \<noteq> c" using b(5) by auto
      with that b cb n show ?thesis by (auto simp: ms_def ring_del_def Let_def nth_upd)
    qed
    have ul: "w # ws = butlast (w # ws) @ [l]" by (simp add: l_def)
    have "seg ns (w # ws)"
      using rot Cons seg_butlast [of ns "w # ws" c] by (simp add: ring_at_def)
    then have "seg ms (w # ws)"
    proof (rule seg_frame)
      fix a assume a: "a \<in> set (butlast (w # ws))"
      from b(6) have "distinct (butlast (w # ws) @ [l])" using ul by metis
      with a have "a \<in> set (w # ws)" "a \<noteq> l" by (auto dest: in_set_butlastD simp del: butlast.simps)
      then show "fl (ms ! a) = fl (ns ! a)" using fl [of a] b(7) cb Cons by auto
    next
      fix a assume a: "a \<in> set (tl (w # ws))"
      then show "bl (ms ! a) = bl (ns ! a)" using bl [of a] b(6,7) cb Cons by auto
    qed
    moreover have "seg ms [l, w]" using fl [of l] bl [of w] b by simp
    ultimately have "seg ms (butlast (w # ws) @ l # [w])"
      using ul by (subst seg_append) metis
    then have "seg ms ((w # ws) @ [w])" using ul by (metis append.assoc append_Cons append_Nil)
    then have "ring_at ms (zs @ ys)" using b(6,7) len Cons by (simp add: ring_at_def)
    then have "ring_at ms (ys @ zs)" by (rule ring_rotate_append)
    moreover have "ring_del (head_of (ys @ c # zs)) ns c = (head_of (ys @ zs), ms)"
    proof (cases ys)
      case Nil
      then have "zs = w # ws" using Cons by simp
      with Nil n b cb show ?thesis by (simp add: ms_def ring_del_def Let_def nth_upd)
    next
      case (Cons y ys')
      then have "y \<noteq> c" using cb by auto
      with Cons n b show ?thesis by (simp add: ms_def ring_del_def Let_def)
    qed
    ultimately show ?thesis using other fl [of c] bl [of c] cb by auto
  qed
qed

text \<open>Walking the forward links visits the ring in order.\<close>

lemma ring_walk:
  assumes "ring_at ns xs" "i < length xs"
  shows "((\<lambda>a. fl (ns ! a)) ^^ i) (hd xs) = xs ! i"
  using assms(2)
proof (induction i)
  case 0
  then show ?case by (simp add: hd_conv_nth)
next
  case (Suc i)
  then have "xs = take i xs @ xs ! i # xs ! Suc i # drop (Suc (Suc i)) xs"
    by (metis Cons_nth_drop_Suc Suc_lessD append_take_drop_id)
  moreover have "seg ns xs"
    using assms Suc.prems seg_butlast by (cases xs) (auto simp: ring_at_def)
  ultimately have "seg ns (xs ! i # xs ! Suc i # drop (Suc (Suc i)) xs)"
    by (metis seg_append)
  with Suc show ?case by simp
qed

end

end
