(* ===== verification/Rzbm.thy ===== *)
theory Rzbm
  imports BitmaskSearch LinkRing
begin

text \<open>
  The zoned bit map allocator of identityless pages (\<open>mem/vm_rzbm.c\<close>, \<open>mem/rzbm.h\<close>): the
  definitions. A chunk of physical memory has a bit map, one bit per 4K page, cut into cells; a cell
  with free pages is linked into the pool of its chunk, or into the 4M pool when all its 1024 pages
  are free. Cell pointers are indices into \<open>zbm_cell\<close>, chunk pointers indices into the list
  \<open>zbm_heap\<close> of all chunks. Counters have the width of the C field (\<open>ushort\<close>, \<open>uchar\<close>). The spin
  lock makes each routine atomic; a panic, or an access outside the arrays, is \<open>None\<close>. The statistics
  of the DEBUG build and the zero fill of an allocated page are left out.
\<close>

section \<open>Data\<close>

record rzbm_cell =
  zbc_nfree :: nat
  zbc_cursor :: nat
  zbc_flink :: nat
  zbc_blink :: nat

record rzbm =
  zbm_flink :: nat
  zbm_blink :: nat
  zbm_bitmap :: "uint_t list"
  zbm_cell :: "rzbm_cell list"
  zbm_pool :: "nat option"
  zbm_psepool :: "nat option"
  zbm_home :: int
  zbm_unavail :: nat
  zbm_cellwidth :: nat
  zbm_ncell :: nat
  zbm_mapsize :: nat
  zbm_mapwidth :: nat
  zbm_cwshft :: nat
  zbm_cellmask :: nat
  zbm_cellsize :: nat
  zbm_base :: nat
  zbm_size :: nat

record rzbm_list =
  zbm_heap :: "rzbm list"
  zbm_chunk :: "nat option"
  zbm_nchunk :: nat
  zbm_maxfree :: nat
  zbm_resv :: nat

definition PAGESIZE :: nat where "PAGESIZE = 4096"
definition PSE_PAGESIZE :: nat where "PSE_PAGESIZE = 0x400000"
definition PSE_NPAGES :: nat where "PSE_NPAGES = 1024"
definition RZBM_MINCELLS :: nat where "RZBM_MINCELLS = 16"
definition RZBM_CELLSIZE :: nat where "RZBM_CELLSIZE = 32 * NBITPW"
definition CG_NONE :: int where "CG_NONE = -1"

lemmas rzbm_consts = PSE_NPAGES_def RZBM_MINCELLS_def RZBM_CELLSIZE_def PAGESIZE_def PSE_PAGESIZE_def

definition RZBM_CELLTOPA :: "rzbm \<Rightarrow> nat \<Rightarrow> nat \<Rightarrow> int \<Rightarrow> nat" where
  "RZBM_CELLTOPA z i cr bn = nat (int (zbm_base z) + (int ((cr + i * 2 ^ zbm_cwshft z) * NBITPW) + bn))"

section \<open>Pools\<close>

definition rzbm_add_cell :: "nat option \<Rightarrow> rzbm_cell list \<Rightarrow> nat \<Rightarrow> nat option \<times> rzbm_cell list" where
  "rzbm_add_cell pool cells c =
    (case pool of
       None \<Rightarrow> (Some c, upd (upd cells c (zbc_blink_update (\<lambda>_. c))) c (zbc_flink_update (\<lambda>_. c)))
     | Some next \<Rightarrow>
         let last = zbc_blink (cells ! next);
             cells = upd cells next (zbc_blink_update (\<lambda>_. c));
             cells = upd cells last (zbc_flink_update (\<lambda>_. c));
             cells = upd cells c (zbc_flink_update (\<lambda>_. next));
             cells = upd cells c (zbc_blink_update (\<lambda>_. last))
         in (Some next, cells))"

definition rzbm_del_cell :: "nat option \<Rightarrow> rzbm_cell list \<Rightarrow> nat \<Rightarrow> nat option \<times> rzbm_cell list" where
  "rzbm_del_cell pool cells c =
    (let (pool, cells) =
       (if zbc_flink (cells ! c) = c then (None, cells)
        else
          let next = zbc_flink (cells ! c);
              last = zbc_blink (cells ! c);
              cells = upd cells next (zbc_blink_update (\<lambda>_. last));
              cells = upd cells last (zbc_flink_update (\<lambda>_. next));
              pool = (if pool = Some c then Some (zbc_flink (cells ! c)) else pool)
          in (pool, cells));
       cells = upd cells c (zbc_flink_update (\<lambda>_. c));
       cells = upd cells c (zbc_blink_update (\<lambda>_. c))
     in (pool, cells))"

text \<open>The same routines on the two pools of a chunk.\<close>

definition pool_add :: "rzbm \<Rightarrow> nat \<Rightarrow> rzbm" where
  "pool_add z c = (let (p, cs) = rzbm_add_cell (zbm_pool z) (zbm_cell z) c
                   in z\<lparr>zbm_pool := p, zbm_cell := cs\<rparr>)"

definition pool_del :: "rzbm \<Rightarrow> nat \<Rightarrow> rzbm" where
  "pool_del z c = (let (p, cs) = rzbm_del_cell (zbm_pool z) (zbm_cell z) c
                   in z\<lparr>zbm_pool := p, zbm_cell := cs\<rparr>)"

definition psepool_add :: "rzbm \<Rightarrow> nat \<Rightarrow> rzbm" where
  "psepool_add z c = (let (p, cs) = rzbm_add_cell (zbm_psepool z) (zbm_cell z) c
                      in z\<lparr>zbm_psepool := p, zbm_cell := cs\<rparr>)"

definition psepool_del :: "rzbm \<Rightarrow> nat \<Rightarrow> rzbm" where
  "psepool_del z c = (let (p, cs) = rzbm_del_cell (zbm_psepool z) (zbm_cell z) c
                      in z\<lparr>zbm_psepool := p, zbm_cell := cs\<rparr>)"

section \<open>Runs of bitmap words\<close>

fun rzbm_nbits :: "uint_t list \<Rightarrow> nat \<Rightarrow> nat" where
  "rzbm_nbits mp 0 = 0"
| "rzbm_nbits [] (Suc n) = 0"
| "rzbm_nbits (w # mp) (Suc n) =
     length (filter (BITMASK1_TEST1 w) [0..<NBITPW]) + rzbm_nbits mp n"

fun rzbm_setnbits :: "uint_t list \<Rightarrow> nat \<Rightarrow> uint_t list" where
  "rzbm_setnbits mp 0 = mp"
| "rzbm_setnbits [] (Suc n) = []"
| "rzbm_setnbits (w # mp) (Suc n) =
     fold (\<lambda>i w. BITMASK1_SET1 w i) [0..<NBITPW] w # rzbm_setnbits mp n"

fun rzbm_clrnbits :: "uint_t list \<Rightarrow> nat \<Rightarrow> uint_t list" where
  "rzbm_clrnbits mp 0 = mp"
| "rzbm_clrnbits [] (Suc n) = []"
| "rzbm_clrnbits (w # mp) (Suc n) =
     fold (\<lambda>i w. BITMASK1_CLR1 w i) [0..<NBITPW] w # rzbm_clrnbits mp n"

section \<open>The consistency check of the DEBUG build\<close>

text \<open>
  Walks one pool from \<open>cellp\<close> to the last cell of it. The result is the pair (\<open>rvcount\<close>,
  \<open>freecount\<close>), or \<open>None\<close> if an assertion fails.
\<close>

function audit_pool :: "rzbm \<Rightarrow> nat \<Rightarrow> nat \<Rightarrow> nat \<Rightarrow> nat \<Rightarrow> nat \<Rightarrow> (nat \<times> nat) option" where
  "audit_pool z first cellp lastp rvcount freecount =
    (if cellp = zbc_blink (zbm_cell z ! first) then Some (rvcount, Suc freecount)
     else if zbc_nfree (zbm_cell z ! cellp) = 0 \<or> zbm_ncell z < Suc rvcount
        \<or> zbc_blink (zbm_cell z ! cellp) \<noteq> lastp then None
     else audit_pool z first (zbc_flink (zbm_cell z ! cellp)) cellp (Suc rvcount) (Suc freecount))"
  by pat_completeness auto
termination
  by (relation "measure (\<lambda>(z, first, cellp, lastp, rvcount, freecount). zbm_ncell z - rvcount)") auto

declare audit_pool.simps [simp del]

definition audit_pools :: "rzbm \<Rightarrow> (nat \<times> nat) option" where
  "audit_pools z =
    (case (case zbm_pool z of
             None \<Rightarrow> Some (0, 0)
           | Some c \<Rightarrow> audit_pool z c c (zbc_blink (zbm_cell z ! c)) 0 0) of
       None \<Rightarrow> None
     | Some (rv, fr) \<Rightarrow>
         (case zbm_psepool z of
            None \<Rightarrow> Some (rv, fr)
          | Some c \<Rightarrow> audit_pool z c c (zbc_blink (zbm_cell z ! c)) rv fr))"

definition rzbm_audit :: "rzbm \<Rightarrow> bool" where
  "rzbm_audit z =
    (let totalcount = int (rzbm_nbits (zbm_bitmap z) (zbm_mapwidth z)) - int (zbm_unavail z);
         cellcount = sum_list (map zbc_nfree (take (zbm_ncell z) (zbm_cell z)))
     in int (zbm_mapsize z) - int cellcount = totalcount \<and>
        (case audit_pools z of
           None \<Rightarrow> False
         | Some (_, freecount) \<Rightarrow>
             (\<forall>i<zbm_ncell z.
                int (rzbm_nbits (drop (i * 2 ^ zbm_cwshft z) (zbm_bitmap z)) (zbm_cellwidth z))
                  = int (zbm_cellsize z) - int (zbc_nfree (zbm_cell z ! i)) \<and>
                zbc_cursor (zbm_cell z ! i) \<le> zbm_cellwidth z) \<and>
             freecount + length (filter (\<lambda>i. zbc_nfree (zbm_cell z ! i) = 0) [0..<zbm_ncell z])
               = zbm_ncell z))"

section \<open>Chunks\<close>

definition rzbm_add_chunk :: "rzbm_list \<Rightarrow> nat \<Rightarrow> rzbm_list" where
  "rzbm_add_chunk st zi =
    (case zbm_chunk st of
       None \<Rightarrow>
         st\<lparr>zbm_heap := upd (zbm_heap st) zi (\<lambda>z. z\<lparr>zbm_blink := zi, zbm_flink := zi\<rparr>),
            zbm_chunk := Some zi, zbm_nchunk := zbm_nchunk st + 1\<rparr>
     | Some r \<Rightarrow>
         let heap = zbm_heap st;
             last = zbm_blink (heap ! r);
             heap = upd heap zi (zbm_blink_update (\<lambda>_. last));
             heap = upd heap zi (zbm_flink_update (\<lambda>_. zbm_flink (heap ! last)));
             heap = upd heap (zbm_flink (heap ! last)) (zbm_blink_update (\<lambda>_. zi));
             heap = upd heap last (zbm_flink_update (\<lambda>_. zi))
         in st\<lparr>zbm_heap := heap, zbm_nchunk := zbm_nchunk st + 1\<rparr>)"

definition rzbm_del_chunk :: "rzbm_list \<Rightarrow> nat \<Rightarrow> rzbm_list" where
  "rzbm_del_chunk st zi =
    (if zbm_flink (zbm_heap st ! zi) = zi then st\<lparr>zbm_chunk := None\<rparr>
     else
       let heap = zbm_heap st;
           next = zbm_flink (heap ! zi);
           last = zbm_blink (heap ! zi);
           heap = upd heap next (zbm_blink_update (\<lambda>_. last));
           heap = upd heap last (zbm_flink_update (\<lambda>_. next))
       in st\<lparr>zbm_heap := heap,
             zbm_chunk := (if zbm_chunk st = Some zi then Some (zbm_flink (heap ! zi))
                           else zbm_chunk st)\<rparr>)"

text \<open>\<open>while (i < cellsize) i *= 2\<close>, for \<open>i\<close> not 0.\<close>

function double_up :: "nat \<Rightarrow> nat \<Rightarrow> nat" where
  "double_up i cellsize = (if i = 0 \<or> cellsize \<le> i then i else double_up (i * 2) cellsize)"
  by pat_completeness auto
termination by (relation "measure (\<lambda>(i, c). c - i)") auto

declare double_up.simps [simp del]

definition rzbm_cell_size :: "nat \<Rightarrow> nat" where
  "rzbm_cell_size segsize =
    (if PSE_NPAGES \<le> segsize then RZBM_CELLSIZE
     else
       let cellsize = RZBM_CELLSIZE;
           cellsize = (if segsize div cellsize < RZBM_MINCELLS then segsize div RZBM_MINCELLS
                       else cellsize);
           i = double_up NBITPW cellsize
       in if cellsize < i \<and> NBITPW < i then i div 2 else i)"

text \<open>\<open>while (i < cellwidth) { ++cwshft; i <<= 1; }\<close>.\<close>

function shift_of :: "nat \<Rightarrow> nat \<Rightarrow> nat \<Rightarrow> nat" where
  "shift_of i cellwidth cwshft =
    (if i = 0 \<or> cellwidth \<le> i then cwshft else shift_of (i * 2) cellwidth (cwshft + 1))"
  by pat_completeness auto
termination by (relation "measure (\<lambda>(i, c, s). c - i)") auto

declare shift_of.simps [simp del]

definition zero_cell :: rzbm_cell where
  "zero_cell = \<lparr>zbc_nfree = 0, zbc_cursor = 0, zbc_flink = 0, zbc_blink = 0\<rparr>"

definition zero_chunk :: "nat \<Rightarrow> nat \<Rightarrow> rzbm" where
  "zero_chunk ncells nwords =
    \<lparr>zbm_flink = 0, zbm_blink = 0, zbm_bitmap = replicate nwords 0,
     zbm_cell = replicate ncells zero_cell, zbm_pool = None, zbm_psepool = None, zbm_home = 0,
     zbm_unavail = 0, zbm_cellwidth = 0, zbm_ncell = 0, zbm_mapsize = 0, zbm_mapwidth = 0,
     zbm_cwshft = 0, zbm_cellmask = 0, zbm_cellsize = 0, zbm_base = 0, zbm_size = 0\<rparr>"

text \<open>The scalar fields, lines 517 to 551.\<close>

definition init_fields :: "nat \<Rightarrow> nat \<Rightarrow> int \<Rightarrow> nat \<Rightarrow> nat \<Rightarrow> nat \<Rightarrow> rzbm \<Rightarrow> rzbm" where
  "init_fields base npages cgnum cellsize ncells nwords z =
    (let z = z\<lparr>zbm_base := base, zbm_size := npages, zbm_cellsize := cellsize,
               zbm_cellwidth := cellsize div NBITPW, zbm_mapsize := npages, zbm_ncell := ncells,
               zbm_mapwidth := nwords, zbm_cellmask := cellsize div NBITPW - 1, zbm_home := cgnum\<rparr>
     in z\<lparr>zbm_cwshft := shift_of 1 (zbm_cellwidth z) (zbm_cwshft z)\<rparr>)"

text \<open>One round of the loop that puts every cell on the 4K pool, lines 556 to 561.\<close>

definition init_cell :: "nat \<Rightarrow> rzbm \<Rightarrow> rzbm" where
  "init_cell i z =
    pool_add (z\<lparr>zbm_cell := upd (zbm_cell z) i (\<lambda>c. c\<lparr>zbc_nfree := zbm_cellsize z mod 65536,
                                                    zbc_flink := i, zbc_blink := i\<rparr>)\<rparr>) i"

text \<open>The partially available last cell, lines 572 to 580.\<close>

definition init_last :: "nat \<Rightarrow> rzbm \<Rightarrow> rzbm option" where
  "init_last rem z =
    (if rem = 0 then Some z
     else case zbm_pool z of
       None \<Rightarrow> None
     | Some p \<Rightarrow>
         let lastcellp = zbc_blink (zbm_cell z ! p);
             mi = lastcellp * 2 ^ zbm_cwshft z
         in Some (z\<lparr>zbm_cell := upd (zbm_cell z) lastcellp (zbc_nfree_update (\<lambda>_. rem mod 65536)),
                    zbm_bitmap := upd (zbm_bitmap z) mi
                      (\<lambda>w. fold (\<lambda>i w. BITMASK1_SET1 w i) [rem..<NBITPW] w),
                    zbm_unavail := NBITPW - rem\<rparr>))"

text \<open>One round of the loop that moves a wholly free 4M cell to its pool, lines 582 to 596.\<close>

definition init_pse :: "nat \<Rightarrow> rzbm \<Rightarrow> rzbm" where
  "init_pse i z =
    (if zbc_nfree (zbm_cell z ! i) = PSE_NPAGES then psepool_add (pool_del z i) i else z)"

definition init_chunk_body :: "nat \<Rightarrow> nat \<Rightarrow> int \<Rightarrow> nat \<Rightarrow> nat \<Rightarrow> nat \<Rightarrow> nat \<Rightarrow> rzbm \<Rightarrow> rzbm option" where
  "init_chunk_body base npages cgnum cellsize ncells nwords rem z =
    (let z = init_fields base npages cgnum cellsize ncells nwords z;
         z = fold init_cell [0..<zbm_ncell z] z;
         z = z\<lparr>zbm_bitmap := BITMASKN_CLRALL (zbm_bitmap z) (zbm_mapwidth z)\<rparr>
     in case init_last rem z of
          None \<Rightarrow> None
        | Some z \<Rightarrow> Some (fold init_pse [0..<zbm_ncell z] z))"

definition rzbm_init_chunk_actual :: "rzbm_list \<Rightarrow> nat \<Rightarrow> nat \<Rightarrow> int \<Rightarrow> (rzbm_list \<times> int) option" where
  "rzbm_init_chunk_actual st base npages cgnum =
    (if npages = 0 then Some (st, 0)
     else
       let cellsize = rzbm_cell_size npages;
           rem = npages mod cellsize;
           ncells = npages div cellsize + (if rem \<noteq> 0 then 1 else 0);
           nwords = npages div NBITPW + (if rem \<noteq> 0 then 1 else 0);
           zi = length (zbm_heap st);
           st = rzbm_add_chunk (st\<lparr>zbm_heap := zbm_heap st @ [zero_chunk ncells nwords]\<rparr>) zi
       in case init_chunk_body base npages cgnum cellsize ncells nwords rem (zbm_heap st ! zi) of
            None \<Rightarrow> None
          | Some z \<Rightarrow> Some (st\<lparr>zbm_heap := (zbm_heap st)[zi := z],
                             zbm_maxfree := uadd32 (zbm_maxfree st) (zbm_mapsize z)\<rparr>, 0))"

text \<open>\<open>psetop(btopser64(ptob64(base)))\<close>: round a page number up to a multiple of 1024.\<close>

definition pse_round :: "nat \<Rightarrow> nat" where
  "pse_round base = ((base * 4096 + (PSE_PAGESIZE - 1)) div 2 ^ 22) * 1024"

text \<open>The carving of a range into an unaligned start, an unaligned end and an aligned middle:
  \<open>presz\<close>, \<open>postsz\<close>, and \<open>base\<close> and \<open>npages\<close> of the middle.\<close>

definition carve :: "nat \<Rightarrow> nat \<Rightarrow> nat \<times> nat \<times> nat \<times> nat" where
  "carve base npages =
    (let presz = (if base mod PSE_NPAGES \<noteq> 0 then min (pse_round base - base) npages else 0);
         base = base + presz;
         npages = npages - presz;
         postsz = (if PSE_NPAGES < npages then (base + npages) mod PSE_NPAGES else 0)
     in (presz, postsz, base, npages - postsz))"

definition rzbm_init_chunk :: "rzbm_list \<Rightarrow> nat \<Rightarrow> nat \<Rightarrow> int \<Rightarrow> (rzbm_list \<times> int) option" where
  "rzbm_init_chunk st base npages cgnum =
    (if npages = 0 then Some (st, 0)
     else if npages < PSE_NPAGES then rzbm_init_chunk_actual st base npages cgnum
     else
       let (presz, postsz, midbase, midsz) = carve base npages
       in case (if presz \<noteq> 0 then rzbm_init_chunk_actual st base presz cgnum else Some (st, 0)) of
            None \<Rightarrow> None
          | Some (st, error) \<Rightarrow>
              if error \<noteq> 0 then Some (st, error)
              else case (if postsz \<noteq> 0
                         then rzbm_init_chunk_actual st (midbase + midsz) postsz cgnum
                         else Some (st, 0)) of
                None \<Rightarrow> None
              | Some (st, error) \<Rightarrow>
                  if error \<noteq> 0 then Some (st, error)
                  else if midsz \<noteq> 0 then rzbm_init_chunk_actual st midbase midsz cgnum
                  else Some (st, 0))"

section \<open>Reservations\<close>

text \<open>The caller of \<open>rzbm_resv\<close> with \<open>SLEEP\<close> waits (\<open>None\<close>) until a release wakes it up.\<close>

definition rzbm_resv :: "rzbm_list \<Rightarrow> nat \<Rightarrow> bool \<Rightarrow> (rzbm_list \<times> int) option" where
  "rzbm_resv st npages sleep =
    (if zbm_maxfree st < uadd32 (zbm_resv st) npages then (if sleep then None else Some (st, 0))
     else Some (st\<lparr>zbm_resv := uadd32 (zbm_resv st) npages\<rparr>, 1))"

definition rzbm_unresv :: "rzbm_list \<Rightarrow> nat \<Rightarrow> rzbm_list" where
  "rzbm_unresv st npages = st\<lparr>zbm_resv := usub32 (zbm_resv st) npages\<rparr>"

definition rzbm_memsize :: "rzbm_list \<Rightarrow> nat" where
  "rzbm_memsize st = zbm_maxfree st"

section \<open>Allocation and release\<close>

text \<open>The search for a chunk with a 4M cell: at most \<open>nchunks\<close> steps along the ring.\<close>

fun psealloc_scan :: "int \<Rightarrow> nat \<Rightarrow> nat \<Rightarrow> rzbm list \<Rightarrow> nat option" where
  "psealloc_scan cgnum 0 zi heap = None"
| "psealloc_scan cgnum (Suc nchunks) zi heap =
    (if (zbm_home (heap ! zi) = cgnum \<or> cgnum = CG_NONE) \<and> zbm_psepool (heap ! zi) \<noteq> None
     then Some zi
     else psealloc_scan cgnum nchunks (zbm_flink (heap ! zi)) heap)"

text \<open>With no chunk at all (\<open>zbm_nchunk\<close> 0) the search fails at once.\<close>

definition psealloc_find :: "int \<Rightarrow> rzbm_list \<Rightarrow> nat option" where
  "psealloc_find cgnum st =
    (case zbm_chunk st of
       None \<Rightarrow> None
     | Some zi \<Rightarrow>
         (case psealloc_scan cgnum (zbm_nchunk st) zi (zbm_heap st) of
            Some r \<Rightarrow> Some r
          | None \<Rightarrow> if cgnum \<noteq> CG_NONE
                    then psealloc_scan CG_NONE (zbm_nchunk st) zi (zbm_heap st) else None))"

definition psealloc_take :: "rzbm \<Rightarrow> nat \<Rightarrow> (rzbm \<times> nat) option" where
  "psealloc_take z c =
    (let cursor = zbc_cursor (zbm_cell z ! c);
         off = c * 2 ^ zbm_cwshft z + cursor;
         mp = drop off (zbm_bitmap z)
     in case BITMASKN_FFC mp (zbm_cellwidth z - cursor) of
          None \<Rightarrow> None
        | Some n \<Rightarrow>
            let z = z\<lparr>zbm_bitmap := take off (zbm_bitmap z) @ rzbm_setnbits mp (zbm_cellwidth z),
                      zbm_cell := upd (zbm_cell z) c (\<lambda>p. p\<lparr>zbc_nfree := 0,
                        zbc_cursor := nat (int cursor + (n + int PSE_NPAGES) div int NBITPW) mod 256\<rparr>)\<rparr>;
                pf = RZBM_CELLTOPA z c cursor n
            in Some (psepool_del z c, pf))"

definition rzbm_psealloc :: "rzbm_list \<Rightarrow> int \<Rightarrow> (rzbm_list \<times> nat) option" where
  "rzbm_psealloc st cgnum =
    (case psealloc_find cgnum st of
       None \<Rightarrow> Some (st, 0)
     | Some zi \<Rightarrow>
         let z = zbm_heap st ! zi
         in case zbm_psepool z of
              None \<Rightarrow> None
            | Some c \<Rightarrow>
                (case psealloc_take z c of
                   None \<Rightarrow> None
                 | Some (z, pf) \<Rightarrow> Some (st\<lparr>zbm_heap := (zbm_heap st)[zi := z]\<rparr>, pf)))"

text \<open>The search for a chunk with a free page; it breaks up a 4M cell when it has to. The result is
  the chunk, after that change.\<close>

fun alloc_scan :: "int \<Rightarrow> nat \<Rightarrow> nat \<Rightarrow> rzbm list \<Rightarrow> (nat \<times> rzbm) option" where
  "alloc_scan cgnum 0 zi heap = None"
| "alloc_scan cgnum (Suc nchunks) zi heap =
    (let z = heap ! zi
     in if zbm_home z = cgnum \<or> cgnum = CG_NONE then
          (if zbm_pool z \<noteq> None then Some (zi, z)
           else case zbm_psepool z of
             Some c \<Rightarrow> Some (zi, pool_add (psepool_del z c) c)
           | None \<Rightarrow> alloc_scan cgnum nchunks (zbm_flink z) heap)
        else alloc_scan cgnum nchunks (zbm_flink z) heap)"

definition alloc_find :: "int \<Rightarrow> rzbm_list \<Rightarrow> (nat \<times> rzbm) option" where
  "alloc_find cgnum st =
    (case zbm_chunk st of
       None \<Rightarrow> None
     | Some zi \<Rightarrow>
         (case alloc_scan cgnum (zbm_nchunk st) zi (zbm_heap st) of
            Some r \<Rightarrow> Some r
          | None \<Rightarrow> if cgnum \<noteq> CG_NONE
                    then alloc_scan CG_NONE (zbm_nchunk st) zi (zbm_heap st) else None))"

definition alloc_take :: "rzbm \<Rightarrow> nat \<Rightarrow> (rzbm \<times> nat) option" where
  "alloc_take z c =
    (let cursor = zbc_cursor (zbm_cell z ! c);
         cursor = (if cursor = zbm_cellwidth z then 0 else cursor);
         off = c * 2 ^ zbm_cwshft z + cursor
     in case BITMASKN_FFCSET (drop off (zbm_bitmap z)) (zbm_cellwidth z - cursor) of
          None \<Rightarrow> None
        | Some (mp, n) \<Rightarrow>
            let z = z\<lparr>zbm_bitmap := take off (zbm_bitmap z) @ mp,
                      zbm_cell := upd (zbm_cell z) c (\<lambda>p. p\<lparr>
                        zbc_nfree := (zbc_nfree p + 65535) mod 65536,
                        zbc_cursor := nat (int cursor + (n + 1) div int NBITPW) mod 256\<rparr>)\<rparr>;
                pf = RZBM_CELLTOPA z c cursor n
            in Some (if zbc_nfree (zbm_cell z ! c) = 0 then pool_del z c else z, pf))"

definition rzbm_alloc :: "rzbm_list \<Rightarrow> int \<Rightarrow> nat \<Rightarrow> (rzbm_list \<times> nat) option" where
  "rzbm_alloc st cgnum pagesz =
    (if pagesz = PSE_PAGESIZE then rzbm_psealloc st cgnum
     else case alloc_find cgnum st of
       None \<Rightarrow> None
     | Some (zi, z) \<Rightarrow>
         (case zbm_pool z of
            None \<Rightarrow> None
          | Some c \<Rightarrow>
              (case alloc_take z c of
                 None \<Rightarrow> None
               | Some (z, pf) \<Rightarrow> Some (st\<lparr>zbm_heap := (zbm_heap st)[zi := z]\<rparr>, pf))))"

text \<open>A page outside every chunk is \<open>None\<close>: an assertion of the DEBUG build, undefined in others.\<close>

fun free_scan :: "nat \<Rightarrow> nat \<Rightarrow> nat \<Rightarrow> rzbm list \<Rightarrow> nat option" where
  "free_scan pf 0 zi heap = None"
| "free_scan pf (Suc i) zi heap =
    (if zbm_base (heap ! zi) \<le> pf \<and> pf < zbm_base (heap ! zi) + zbm_size (heap ! zi) then Some zi
     else free_scan pf i (zbm_flink (heap ! zi)) heap)"

definition free_page :: "rzbm \<Rightarrow> nat \<Rightarrow> rzbm" where
  "free_page z pf =
    (let mbn = pf - zbm_base z;
         mi = mbn div NBITPW;
         wbn = mbn mod NBITPW;
         c = mi div 2 ^ zbm_cwshft z;
         cursor = mi AND zbm_cellmask z;
         z = z\<lparr>zbm_bitmap := upd (zbm_bitmap z) mi (\<lambda>w. BITMASK1_CLR1 w wbn),
               zbm_cell := upd (zbm_cell z) c (\<lambda>p. p\<lparr>
                 zbc_nfree := (zbc_nfree p + 1) mod 65536,
                 zbc_cursor := (if cursor < zbc_cursor p then cursor mod 256 else zbc_cursor p)\<rparr>)\<rparr>;
         z = (if zbc_nfree (zbm_cell z ! c) = 1 then pool_add z c else z)
     in if zbc_nfree (zbm_cell z ! c) = PSE_NPAGES then psepool_add (pool_del z c) c else z)"

definition free_pse :: "rzbm \<Rightarrow> nat \<Rightarrow> rzbm" where
  "free_pse z pf =
    (let mbn = pf - zbm_base z;
         mi = mbn div NBITPW;
         c = mi div 2 ^ zbm_cwshft z
     in psepool_add (z\<lparr>
          zbm_bitmap := take mi (zbm_bitmap z) @ rzbm_clrnbits (drop mi (zbm_bitmap z)) (zbm_cellwidth z),
          zbm_cell := upd (zbm_cell z) c (\<lambda>p. p\<lparr>zbc_nfree := zbm_cellsize z mod 65536,
            zbc_cursor := 0\<rparr>)\<rparr>) c)"

definition rzbm_free :: "rzbm_list \<Rightarrow> nat \<Rightarrow> nat \<Rightarrow> rzbm_list option" where
  "rzbm_free st pf pagesz =
    (case zbm_chunk st of
       None \<Rightarrow> None
     | Some zh \<Rightarrow>
         (case free_scan pf (zbm_nchunk st) zh (zbm_heap st) of
            None \<Rightarrow> None
          | Some zi \<Rightarrow>
              let z = zbm_heap st ! zi
              in if pagesz = PAGESIZE then Some (st\<lparr>zbm_heap := (zbm_heap st)[zi := free_page z pf]\<rparr>)
                 else if pagesz = PSE_PAGESIZE
                 then Some (st\<lparr>zbm_heap := (zbm_heap st)[zi := free_pse z pf]\<rparr>)
                 else None))"

section \<open>Release of a chunk\<close>

fun deinit_scan :: "nat \<Rightarrow> nat \<Rightarrow> nat \<Rightarrow> nat \<Rightarrow> rzbm list \<Rightarrow> nat option" where
  "deinit_scan base npages 0 zi heap = None"
| "deinit_scan base npages (Suc i) zi heap =
    (if base = zbm_base (heap ! zi) \<and> npages = zbm_base (heap ! zi) then Some zi
     else deinit_scan base npages i (zbm_flink (heap ! zi)) heap)"

fun deinit_cells :: "rzbm \<Rightarrow> nat \<Rightarrow> nat \<Rightarrow> nat \<Rightarrow> nat option" where
  "deinit_cells z i 0 maxfree = Some maxfree"
| "deinit_cells z i (Suc n) maxfree =
    (if zbc_nfree (zbm_cell z ! i) \<noteq> zbm_cellsize z mod 65536 then None
     else deinit_cells z (Suc i) n (uadd32 maxfree (zbc_nfree (zbm_cell z ! i))))"

text \<open>\<open>maxfree0\<close> is the value of the uninitialised local variable \<open>maxfree\<close>. With no free cell the
  pointer to the last one is NULL (\<open>None\<close>).\<close>

definition rzbm_deinit_chunk :: "nat \<Rightarrow> rzbm_list \<Rightarrow> nat \<Rightarrow> nat \<Rightarrow> (rzbm_list \<times> int) option" where
  "rzbm_deinit_chunk maxfree0 st base npages =
    (case (case zbm_chunk st of
             None \<Rightarrow> None
           | Some zh \<Rightarrow> deinit_scan base npages (zbm_nchunk st) zh (zbm_heap st)) of
       None \<Rightarrow> Some (st, 1)
     | Some zi \<Rightarrow>
         let z = zbm_heap st ! zi;
             cellsize = zbm_cellsize z;
             ncells = npages div cellsize;
             rem = npages mod cellsize
         in case deinit_cells z 0 ncells maxfree0 of
              None \<Rightarrow> Some (st, 1)
            | Some maxfree \<Rightarrow>
                if rem = 0 then Some (st\<lparr>zbm_maxfree := usub32 (zbm_maxfree st) maxfree\<rparr>, 0)
                else case zbm_pool z of
                  None \<Rightarrow> None
                | Some p \<Rightarrow>
                    let lastcell = zbm_cell z ! zbc_blink (zbm_cell z ! p)
                    in if zbc_nfree lastcell \<noteq> rem then Some (st, 1)
                       else Some (st\<lparr>zbm_maxfree :=
                              usub32 (zbm_maxfree st) (uadd32 maxfree (zbc_nfree lastcell))\<rparr>, 0))"

end
