(* ===== verification/RzbmPools.thy ===== *)
theory RzbmPools
  imports Rzbm
begin

text \<open>
  The pools of a chunk: the cell and chunk lists are linked rings (interpretations of the locale
  \<open>linked_ring\<close>), and what adding a cell to a pool and deleting it does to the two pools.
\<close>

interpretation cells: linked_ring zbc_flink zbc_blink "\<lambda>i. zbc_flink_update (\<lambda>_. i)"
  "\<lambda>i. zbc_blink_update (\<lambda>_. i)" "\<lambda>c. (zbc_nfree c, zbc_cursor c)"
  by unfold_locales simp_all

interpretation chunks: linked_ring zbm_flink zbm_blink "\<lambda>i. zbm_flink_update (\<lambda>_. i)"
  "\<lambda>i. zbm_blink_update (\<lambda>_. i)" "\<lambda>z. z\<lparr>zbm_flink := 0, zbm_blink := 0\<rparr>"
  by unfold_locales simp_all

lemma rzbm_add_cell_ring: "rzbm_add_cell = cells.ring_add"
  by (simp add: fun_eq_iff rzbm_add_cell_def cells.ring_add_def)

lemma rzbm_del_cell_ring: "rzbm_del_cell = cells.ring_del"
  by (simp add: fun_eq_iff rzbm_del_cell_def cells.ring_del_def)

text \<open>What never changes after initialisation.\<close>

definition static :: "rzbm \<Rightarrow> rzbm" where
  "static z = z\<lparr>zbm_bitmap := [], zbm_cell := [], zbm_pool := None, zbm_psepool := None\<rparr>"

lemma static_fields:
  assumes "static z' = static z"
  shows "zbm_flink z' = zbm_flink z" "zbm_blink z' = zbm_blink z" "zbm_home z' = zbm_home z"
    "zbm_unavail z' = zbm_unavail z" "zbm_cellwidth z' = zbm_cellwidth z"
    "zbm_ncell z' = zbm_ncell z" "zbm_mapsize z' = zbm_mapsize z"
    "zbm_mapwidth z' = zbm_mapwidth z" "zbm_cwshft z' = zbm_cwshft z"
    "zbm_cellmask z' = zbm_cellmask z" "zbm_cellsize z' = zbm_cellsize z"
    "zbm_base z' = zbm_base z" "zbm_size z' = zbm_size z"
  using arg_cong [OF assms, of zbm_flink] arg_cong [OF assms, of zbm_blink]
    arg_cong [OF assms, of zbm_home] arg_cong [OF assms, of zbm_unavail]
    arg_cong [OF assms, of zbm_cellwidth] arg_cong [OF assms, of zbm_ncell]
    arg_cong [OF assms, of zbm_mapsize] arg_cong [OF assms, of zbm_mapwidth]
    arg_cong [OF assms, of zbm_cwshft] arg_cong [OF assms, of zbm_cellmask]
    arg_cong [OF assms, of zbm_cellsize] arg_cong [OF assms, of zbm_base]
    arg_cong [OF assms, of zbm_size]
  by (simp_all add: static_def)

lemma pool_ops_static [simp]:
  "static (pool_add z c) = static z" "static (pool_del z c) = static z"
  "static (psepool_add z c) = static z" "static (psepool_del z c) = static z"
  by (simp_all add: static_def pool_add_def pool_del_def psepool_add_def psepool_del_def split_def Let_def)

lemmas pool_ops_fields [simp] =
  pool_ops_static [THEN static_fields(1)] pool_ops_static [THEN static_fields(2)]
  pool_ops_static [THEN static_fields(3)] pool_ops_static [THEN static_fields(4)]
  pool_ops_static [THEN static_fields(5)] pool_ops_static [THEN static_fields(6)]
  pool_ops_static [THEN static_fields(7)] pool_ops_static [THEN static_fields(8)]
  pool_ops_static [THEN static_fields(9)] pool_ops_static [THEN static_fields(10)]
  pool_ops_static [THEN static_fields(11)] pool_ops_static [THEN static_fields(12)]
  pool_ops_static [THEN static_fields(13)]

lemma pool_ops_bitmap [simp]:
  "zbm_bitmap (pool_add z c) = zbm_bitmap z" "zbm_bitmap (pool_del z c) = zbm_bitmap z"
  "zbm_bitmap (psepool_add z c) = zbm_bitmap z" "zbm_bitmap (psepool_del z c) = zbm_bitmap z"
  by (simp_all add: pool_add_def pool_del_def psepool_add_def psepool_del_def split_def Let_def)

lemma pool_ops_pay:
  "map (\<lambda>c. (zbc_nfree c, zbc_cursor c)) (zbm_cell (pool_add z c)) =
     map (\<lambda>c. (zbc_nfree c, zbc_cursor c)) (zbm_cell z)"
  "map (\<lambda>c. (zbc_nfree c, zbc_cursor c)) (zbm_cell (pool_del z c)) =
     map (\<lambda>c. (zbc_nfree c, zbc_cursor c)) (zbm_cell z)"
  "map (\<lambda>c. (zbc_nfree c, zbc_cursor c)) (zbm_cell (psepool_add z c)) =
     map (\<lambda>c. (zbc_nfree c, zbc_cursor c)) (zbm_cell z)"
  "map (\<lambda>c. (zbc_nfree c, zbc_cursor c)) (zbm_cell (psepool_del z c)) =
     map (\<lambda>c. (zbc_nfree c, zbc_cursor c)) (zbm_cell z)"
  by (simp_all add: pool_add_def pool_del_def psepool_add_def psepool_del_def split_def Let_def
      rzbm_add_cell_ring rzbm_del_cell_ring cells.ring_add_pay cells.ring_del_pay)

lemma pay_nth:
  assumes "map (\<lambda>c. (zbc_nfree c, zbc_cursor c)) cs = map (\<lambda>c. (zbc_nfree c, zbc_cursor c)) ds"
  shows "length cs = length ds"
    "i < length ds \<Longrightarrow> zbc_nfree (cs ! i) = zbc_nfree (ds ! i)"
    "i < length ds \<Longrightarrow> zbc_cursor (cs ! i) = zbc_cursor (ds ! i)"
proof -
  show l: "length cs = length ds" using arg_cong [OF assms, of length] by simp
  show "i < length ds \<Longrightarrow> zbc_nfree (cs ! i) = zbc_nfree (ds ! i)"
    "i < length ds \<Longrightarrow> zbc_cursor (cs ! i) = zbc_cursor (ds ! i)"
    using arg_cong [OF assms, of "\<lambda>xs. xs ! i"] l by simp_all
qed

lemmas pool_ops_cells [simp] =
  pay_nth(1) [OF pool_ops_pay(1)] pay_nth(1) [OF pool_ops_pay(2)]
  pay_nth(1) [OF pool_ops_pay(3)] pay_nth(1) [OF pool_ops_pay(4)]
  pay_nth(2) [OF pool_ops_pay(1)] pay_nth(2) [OF pool_ops_pay(2)]
  pay_nth(2) [OF pool_ops_pay(3)] pay_nth(2) [OF pool_ops_pay(4)]
  pay_nth(3) [OF pool_ops_pay(1)] pay_nth(3) [OF pool_ops_pay(2)]
  pay_nth(3) [OF pool_ops_pay(3)] pay_nth(3) [OF pool_ops_pay(4)]

text \<open>\<open>pools_at z ps qs\<close>: the 4K pool of \<open>z\<close> holds the cells \<open>ps\<close>, the 4M pool the cells \<open>qs\<close>.\<close>

definition pools_at :: "rzbm \<Rightarrow> nat list \<Rightarrow> nat list \<Rightarrow> bool" where
  "pools_at z ps qs \<longleftrightarrow>
     zbm_pool z = head_of ps \<and> zbm_psepool z = head_of qs \<and>
     cells.ring_at (zbm_cell z) ps \<and> cells.ring_at (zbm_cell z) qs \<and> set ps \<inter> set qs = {}"

lemma pools_at_bound: "pools_at z ps qs \<Longrightarrow> set ps \<union> set qs \<subseteq> {..<length (zbm_cell z)}"
  by (auto simp: pools_at_def cells.ring_at_def)

lemma pools_at_distinct: "pools_at z ps qs \<Longrightarrow> distinct ps \<and> distinct qs"
  by (auto simp: pools_at_def cells.ring_at_def)

text \<open>An update of the cells that keeps the links keeps the pools.\<close>

lemma pools_at_keep:
  assumes "pools_at z ps qs" "zbm_pool z' = zbm_pool z" "zbm_psepool z' = zbm_psepool z"
    "length (zbm_cell z') = length (zbm_cell z)"
    "\<And>a. a < length (zbm_cell z) \<Longrightarrow> zbc_flink (zbm_cell z' ! a) = zbc_flink (zbm_cell z ! a) \<and>
      zbc_blink (zbm_cell z' ! a) = zbc_blink (zbm_cell z ! a)"
  shows "pools_at z' ps qs"
proof -
  have "cells.ring_at (zbm_cell z') xs" if "cells.ring_at (zbm_cell z) xs" for xs
    by (rule cells.ring_frame [OF that assms(4)])
      (use that assms(5) in \<open>auto simp: cells.ring_at_def\<close>)
  with assms show ?thesis by (simp add: pools_at_def)
qed

lemma ring_at_frame:
  assumes "cells.ring_at ns xs" "length ms = length ns" "\<forall>a<length ns. a \<notin> T \<longrightarrow> ms ! a = ns ! a"
    "set xs \<inter> T = {}"
  shows "cells.ring_at ms xs"
  by (rule cells.ring_frame [OF assms(1,2)]) (use assms in \<open>auto simp: cells.ring_at_def\<close>)

lemma pool_add_at:
  assumes "pools_at z ps qs" "c \<notin> set ps" "c \<notin> set qs" "c < length (zbm_cell z)"
  shows "pools_at (pool_add z c) (ps @ [c]) qs"
proof -
  from assms obtain ms where ms: "cells.ring_add (head_of ps) (zbm_cell z) c = (head_of (ps @ [c]), ms)"
    "cells.ring_at ms (ps @ [c])"
    "\<forall>a < length (zbm_cell z). a \<notin> set ps \<and> a \<noteq> c \<longrightarrow> ms ! a = zbm_cell z ! a"
    using cells.ring_add_ring [of "zbm_cell z" ps c] by (auto simp: pools_at_def)
  have l: "length ms = length (zbm_cell z)"
    using cells.ring_add_length [of "head_of ps" "zbm_cell z" c] ms(1) by simp
  have "cells.ring_at ms qs"
    by (rule ring_at_frame [of "zbm_cell z" _ _ "insert c (set ps)"])
      (use assms ms(3) l in \<open>auto simp: pools_at_def\<close>)
  with ms assms show ?thesis
    by (auto simp: pools_at_def pool_add_def rzbm_add_cell_ring)
qed

lemma psepool_add_at:
  assumes "pools_at z ps qs" "c \<notin> set ps" "c \<notin> set qs" "c < length (zbm_cell z)"
  shows "pools_at (psepool_add z c) ps (qs @ [c])"
proof -
  from assms obtain ms where ms: "cells.ring_add (head_of qs) (zbm_cell z) c = (head_of (qs @ [c]), ms)"
    "cells.ring_at ms (qs @ [c])"
    "\<forall>a < length (zbm_cell z). a \<notin> set qs \<and> a \<noteq> c \<longrightarrow> ms ! a = zbm_cell z ! a"
    using cells.ring_add_ring [of "zbm_cell z" qs c] by (auto simp: pools_at_def)
  have l: "length ms = length (zbm_cell z)"
    using cells.ring_add_length [of "head_of qs" "zbm_cell z" c] ms(1) by simp
  have "cells.ring_at ms ps"
    by (rule ring_at_frame [of "zbm_cell z" _ _ "insert c (set qs)"])
      (use assms ms(3) l in \<open>auto simp: pools_at_def\<close>)
  with ms assms show ?thesis
    by (auto simp: pools_at_def psepool_add_def rzbm_add_cell_ring)
qed

lemma pool_del_at:
  assumes "pools_at z (xs @ c # ys) qs"
  shows "pools_at (pool_del z c) (xs @ ys) qs"
proof -
  from assms obtain ms where ms:
    "cells.ring_del (head_of (xs @ c # ys)) (zbm_cell z) c = (head_of (xs @ ys), ms)"
    "cells.ring_at ms (xs @ ys)"
    "\<forall>a < length (zbm_cell z). a \<notin> set (xs @ c # ys) \<longrightarrow> ms ! a = zbm_cell z ! a"
    using cells.ring_del_ring [of "zbm_cell z" xs c ys] by (auto simp: pools_at_def)
  have l: "length ms = length (zbm_cell z)"
    using cells.ring_del_length [of "head_of (xs @ c # ys)" "zbm_cell z" c] ms(1) by simp
  have "cells.ring_at ms qs"
    by (rule ring_at_frame [of "zbm_cell z" _ _ "set (xs @ c # ys)"])
      (use assms ms(3) l in \<open>auto simp: pools_at_def\<close>)
  with ms assms show ?thesis
    by (auto simp: pools_at_def pool_del_def rzbm_del_cell_ring)
qed

lemma psepool_del_at:
  assumes "pools_at z ps (xs @ c # ys)"
  shows "pools_at (psepool_del z c) ps (xs @ ys)"
proof -
  from assms obtain ms where ms:
    "cells.ring_del (head_of (xs @ c # ys)) (zbm_cell z) c = (head_of (xs @ ys), ms)"
    "cells.ring_at ms (xs @ ys)"
    "\<forall>a < length (zbm_cell z). a \<notin> set (xs @ c # ys) \<longrightarrow> ms ! a = zbm_cell z ! a"
    using cells.ring_del_ring [of "zbm_cell z" xs c ys] by (auto simp: pools_at_def)
  have l: "length ms = length (zbm_cell z)"
    using cells.ring_del_length [of "head_of (xs @ c # ys)" "zbm_cell z" c] ms(1) by simp
  have "cells.ring_at ms ps"
    by (rule ring_at_frame [of "zbm_cell z" _ _ "set (xs @ c # ys)"])
      (use assms ms(3) l in \<open>auto simp: pools_at_def\<close>)
  with ms assms show ?thesis
    by (auto simp: pools_at_def psepool_del_def rzbm_del_cell_ring)
qed

section \<open>The invariant of a chunk\<close>

text \<open>The fields agree with one another, the bits behind the last page are set, and a chunk of 4M cells starts at a
  multiple of 4M.\<close>

definition geometry :: "rzbm \<Rightarrow> bool" where
  "geometry z \<longleftrightarrow>
     zbm_cellwidth z = 2 ^ zbm_cwshft z \<and> zbm_cwshft z \<le> 5 \<and>
     zbm_cellsize z = NBITPW * zbm_cellwidth z \<and> zbm_cellmask z = zbm_cellwidth z - 1 \<and>
     length (zbm_cell z) = zbm_ncell z \<and> length (zbm_bitmap z) = zbm_ncell z * zbm_cellwidth z \<and>
     zbm_mapwidth z = length (zbm_bitmap z) \<and> zbm_mapsize z = zbm_size z \<and>
     zbm_size z + zbm_unavail z = NBITPW * length (zbm_bitmap z) \<and>
     (\<forall>b. zbm_size z \<le> b \<and> b < NBITPW * length (zbm_bitmap z) \<longrightarrow> BITMASKN_TEST1 (zbm_bitmap z) b) \<and>
     (zbm_cellsize z = PSE_NPAGES \<longrightarrow> zbm_base z mod PSE_NPAGES = 0)"

definition cell_free :: "rzbm \<Rightarrow> nat \<Rightarrow> nat set" where
  "cell_free z c =
     {k. k < zbm_cellsize z \<and> \<not> BITMASKN_TEST1 (zbm_bitmap z) (c * zbm_cellsize z + k)}"

definition cells_ok :: "rzbm \<Rightarrow> bool" where
  "cells_ok z \<longleftrightarrow>
     (\<forall>c < zbm_ncell z.
        zbc_nfree (zbm_cell z ! c) = card (cell_free z c) \<and>
        zbc_cursor (zbm_cell z ! c) \<le> zbm_cellwidth z \<and>
        (\<forall>k < NBITPW * zbc_cursor (zbm_cell z ! c). k \<notin> cell_free z c))"

definition pools_ok :: "rzbm \<Rightarrow> nat list \<Rightarrow> nat list \<Rightarrow> bool" where
  "pools_ok z ps qs \<longleftrightarrow> pools_at z ps qs \<and>
     set ps = {c. c < zbm_ncell z \<and> zbc_nfree (zbm_cell z ! c) \<notin> {0, PSE_NPAGES}} \<and>
     set qs = {c. c < zbm_ncell z \<and> zbc_nfree (zbm_cell z ! c) = PSE_NPAGES}"

definition chunk_ok :: "rzbm \<Rightarrow> bool" where
  "chunk_ok z \<longleftrightarrow> geometry z \<and> cells_ok z \<and> (\<exists>ps qs. pools_ok z ps qs)"

lemma geometry_pool_ops [simp]:
  "geometry (pool_add z c) = geometry z" "geometry (pool_del z c) = geometry z"
  "geometry (psepool_add z c) = geometry z" "geometry (psepool_del z c) = geometry z"
  by (simp_all add: geometry_def)

lemma cell_free_pool_ops [simp]:
  "cell_free (pool_add z c) = cell_free z" "cell_free (pool_del z c) = cell_free z"
  "cell_free (psepool_add z c) = cell_free z" "cell_free (psepool_del z c) = cell_free z"
  by (simp_all add: fun_eq_iff cell_free_def)

lemma cells_ok_pool_ops [simp]:
  assumes "geometry z"
  shows "cells_ok (pool_add z c) = cells_ok z" "cells_ok (pool_del z c) = cells_ok z"
    "cells_ok (psepool_add z c) = cells_ok z" "cells_ok (psepool_del z c) = cells_ok z"
  using assms unfolding cells_ok_def geometry_def by auto

lemma cell_free_subset: "cell_free z c \<subseteq> {..<zbm_cellsize z}"
  by (auto simp: cell_free_def)

lemma finite_cell_free [simp]: "finite (cell_free z c)"
  by (rule finite_subset [OF cell_free_subset]) simp

lemma geometry_width: "geometry z \<Longrightarrow> 0 < zbm_cellwidth z \<and> zbm_cellwidth z \<le> 32"
  using power_increasing [of "zbm_cwshft z" 5 "2::nat"] by (auto simp: geometry_def)

lemma nfree_le:
  assumes "geometry z"
  shows "card (cell_free z c) \<le> PSE_NPAGES"
  using card_mono [OF _ cell_free_subset [of z c]] geometry_width [OF assms] assms
  by (simp add: geometry_def PSE_NPAGES_def)

lemma size_bits: "geometry z \<Longrightarrow> b < zbm_size z \<Longrightarrow> b < NBITPW * length (zbm_bitmap z)"
  unfolding geometry_def by linarith

lemma cell_bit_less:
  assumes "geometry z" "c < zbm_ncell z" "k < zbm_cellsize z"
  shows "c * zbm_cellsize z + k < NBITPW * length (zbm_bitmap z)"
proof -
  have "c * zbm_cellsize z + k < (c + 1) * zbm_cellsize z" using assms(3) by simp
  also have "\<dots> \<le> zbm_ncell z * zbm_cellsize z" using assms(2) by (intro mult_le_mono1) simp
  also have "\<dots> = NBITPW * length (zbm_bitmap z)" using assms(1) by (simp add: geometry_def)
  finally show ?thesis .
qed

lemma cell_of_bit:
  assumes "geometry z" "b < NBITPW * length (zbm_bitmap z)"
  shows "b div zbm_cellsize z < zbm_ncell z" "b mod zbm_cellsize z < zbm_cellsize z"
    "b div zbm_cellsize z * zbm_cellsize z + b mod zbm_cellsize z = b"
proof -
  have p: "0 < zbm_cellsize z" using geometry_width [OF assms(1)] assms(1) by (simp add: geometry_def)
  have "b < zbm_ncell z * zbm_cellsize z" using assms by (simp add: geometry_def mult.assoc mult.left_commute)
  then show "b div zbm_cellsize z < zbm_ncell z" by (simp add: less_mult_imp_div_less)
  show "b mod zbm_cellsize z < zbm_cellsize z" using p by simp
  show "b div zbm_cellsize z * zbm_cellsize z + b mod zbm_cellsize z = b" by simp
qed

end
