(* ===== verification/RzbmAlloc.thy ===== *)
theory RzbmAlloc
  imports RzbmPools
begin

text \<open>
  Allocation and release within one chunk: each keeps \<open>chunk_ok\<close> and changes the set
  \<open>free_pages\<close> of free page numbers by exactly the pages it hands out or takes back.
\<close>

definition free_pages :: "rzbm \<Rightarrow> nat set" where
  "free_pages z = {zbm_base z + b | b. b < zbm_size z \<and> \<not> BITMASKN_TEST1 (zbm_bitmap z) b}"

definition pages :: "rzbm \<Rightarrow> nat set" where
  "pages z = {zbm_base z ..< zbm_base z + zbm_size z}"

lemma free_pages_pages: "free_pages z \<subseteq> pages z"
  by (auto simp: free_pages_def pages_def)

lemma free_pages_iff:
  "zbm_base z + b \<in> free_pages z \<longleftrightarrow> b < zbm_size z \<and> \<not> BITMASKN_TEST1 (zbm_bitmap z) b"
  by (auto simp: free_pages_def)

lemma free_pages_pool_ops [simp]:
  "free_pages (pool_add z c) = free_pages z" "free_pages (pool_del z c) = free_pages z"
  "free_pages (psepool_add z c) = free_pages z" "free_pages (psepool_del z c) = free_pages z"
  by (simp_all add: free_pages_def)

section \<open>A suffix of the bit map\<close>

lemma TEST1_drop:
  assumes "off \<le> length bits"
  shows "BITMASKN_TEST1 (drop off bits) b = BITMASKN_TEST1 bits (NBITPW * off + b)"
  using assms by (simp add: BITMASKN_TEST1_def)

lemma SET1_drop:
  assumes "off \<le> length bits"
  shows "take off bits @ BITMASKN_SET1 (drop off bits) b = BITMASKN_SET1 bits (NBITPW * off + b)"
proof -
  have "take off bits @ (drop off bits)[b div NBITPW := v] = bits[off + b div NBITPW := v]" for v
    using assms list_update_append [of "take off bits" "drop off bits" "off + b div NBITPW" v]
    by simp
  with assms show ?thesis by (simp add: BITMASKN_SET1_def)
qed

section \<open>Flipping the bits of a chunk\<close>

text \<open>A cell whose clear bits are \<open>S\<close>, after an update of the bits of that cell only.\<close>

lemma cells_ok_upd:
  assumes g: "geometry z" and co: "cells_ok z" and c: "c < zbm_ncell z"
    and st: "static z' = static z"
    and cells: "zbm_cell z' = upd (zbm_cell z) c f"
    and len: "length (zbm_bitmap z') = length (zbm_bitmap z)"
    and other: "\<And>b. b < NBITPW * length (zbm_bitmap z) \<Longrightarrow> b div zbm_cellsize z \<noteq> c \<Longrightarrow>
      BITMASKN_TEST1 (zbm_bitmap z') b = BITMASKN_TEST1 (zbm_bitmap z) b"
    and new: "zbc_nfree (f (zbm_cell z ! c)) = card (cell_free z' c)"
      "zbc_cursor (f (zbm_cell z ! c)) \<le> zbm_cellwidth z"
      "\<forall>k < NBITPW * zbc_cursor (f (zbm_cell z ! c)). k \<notin> cell_free z' c"
  shows "cells_ok z'"
  unfolding cells_ok_def
proof (intro allI impI)
  fix d assume "d < zbm_ncell z'"
  then have d: "d < zbm_ncell z" using static_fields(6) [OF st] by simp
  have p: "0 < zbm_cellsize z" using geometry_width [OF g] g by (simp add: geometry_def)
  have l: "length (zbm_cell z) = zbm_ncell z" using g by (simp add: geometry_def)
  show "zbc_nfree (zbm_cell z' ! d) = card (cell_free z' d) \<and>
    zbc_cursor (zbm_cell z' ! d) \<le> zbm_cellwidth z' \<and>
    (\<forall>k < NBITPW * zbc_cursor (zbm_cell z' ! d). k \<notin> cell_free z' d)"
  proof (cases "d = c")
    case True
    with new c l show ?thesis by (simp add: cells nth_upd static_fields [OF st])
  next
    case False
    have "cell_free z' d = cell_free z d"
      unfolding cell_free_def static_fields [OF st]
      using other [OF cell_bit_less [OF g d]] False p by auto
    with False d l co show ?thesis by (simp add: cells nth_upd static_fields [OF st] cells_ok_def)
  qed
qed

lemma geometry_upd:
  assumes "geometry z" "static z' = static z" "length (zbm_cell z') = length (zbm_cell z)"
    "length (zbm_bitmap z') = length (zbm_bitmap z)"
    "\<And>b. zbm_size z \<le> b \<Longrightarrow> b < NBITPW * length (zbm_bitmap z) \<Longrightarrow>
      BITMASKN_TEST1 (zbm_bitmap z) b \<Longrightarrow> BITMASKN_TEST1 (zbm_bitmap z') b"
  shows "geometry z'"
  using assms by (simp add: geometry_def static_fields [OF assms(2)])

section \<open>One page\<close>

lemma no_free_cursor:
  assumes "geometry z" "cells_ok z" "c < zbm_ncell z" "cell_free z c \<noteq> {}"
  shows "zbc_cursor (zbm_cell z ! c) < zbm_cellwidth z"
proof (rule ccontr)
  assume "\<not> ?thesis"
  with assms have "zbc_cursor (zbm_cell z ! c) = zbm_cellwidth z" by (simp add: cells_ok_def order_antisym)
  with assms have "\<forall>k < zbm_cellsize z. k \<notin> cell_free z c" by (auto simp: cells_ok_def geometry_def)
  with assms(4) show False by (auto simp: cell_free_def)
qed

lemma first_free_in_cell:
  assumes g: "geometry z" and co: "cells_ok z" and c: "c < zbm_ncell z"
    and ne: "cell_free z c \<noteq> {}"
  defines "cursor \<equiv> zbc_cursor (zbm_cell z ! c)"
  obtains n where
    "first_such (\<lambda>b. \<not> BITMASKN_TEST1 (drop (c * zbm_cellwidth z + cursor) (zbm_bitmap z)) b)
      (NBITPW * (zbm_cellwidth z - cursor)) = Some n"
    "NBITPW * cursor + n \<in> cell_free z c" "\<forall>k < NBITPW * cursor + n. k \<notin> cell_free z c"
proof -
  let ?off = "c * zbm_cellwidth z + cursor"
  have cur: "cursor < zbm_cellwidth z" unfolding cursor_def by (rule no_free_cursor [OF g co c ne])
  have "?off < (c + 1) * zbm_cellwidth z" using cur by simp
  also have "\<dots> \<le> zbm_ncell z * zbm_cellwidth z" using c by (intro mult_le_mono1) simp
  finally have off: "?off \<le> length (zbm_bitmap z)" using g by (simp add: geometry_def)
  have cs: "zbm_cellsize z = NBITPW * zbm_cellwidth z" using g by (simp add: geometry_def)
  have full: "\<forall>k < NBITPW * cursor. k \<notin> cell_free z c"
    using co c by (simp add: cells_ok_def cursor_def)
  have bit: "BITMASKN_TEST1 (drop ?off (zbm_bitmap z)) b =
      BITMASKN_TEST1 (zbm_bitmap z) (c * zbm_cellsize z + (NBITPW * cursor + b))" for b
    unfolding TEST1_drop [OF off] cs by (simp add: algebra_simps)
  have inv: "\<not> BITMASKN_TEST1 (drop ?off (zbm_bitmap z)) b \<longleftrightarrow> NBITPW * cursor + b \<in> cell_free z c"
    if "b < NBITPW * (zbm_cellwidth z - cursor)" for b
  proof -
    have "NBITPW * cursor + b < NBITPW * zbm_cellwidth z" using that cur by linarith
    then show ?thesis by (simp add: bit cell_free_def cs)
  qed
  obtain k where k: "k \<in> cell_free z c" using ne by blast
  then have "NBITPW * cursor \<le> k" "k < zbm_cellsize z" using full
    by (auto simp: cell_free_def not_less [symmetric])
  then have "k - NBITPW * cursor < NBITPW * (zbm_cellwidth z - cursor)"
    "NBITPW * cursor + (k - NBITPW * cursor) = k" using cur cs by (auto simp: diff_mult_distrib2)
  with k inv have "first_such (\<lambda>b. \<not> BITMASKN_TEST1 (drop ?off (zbm_bitmap z)) b)
      (NBITPW * (zbm_cellwidth z - cursor)) \<noteq> None"
    unfolding first_such_None by metis
  then obtain n where n: "first_such (\<lambda>b. \<not> BITMASKN_TEST1 (drop ?off (zbm_bitmap z)) b)
      (NBITPW * (zbm_cellwidth z - cursor)) = Some n" by blast
  then have n': "n < NBITPW * (zbm_cellwidth z - cursor)"
    "\<not> BITMASKN_TEST1 (drop ?off (zbm_bitmap z)) n"
    "\<forall>j<n. BITMASKN_TEST1 (drop ?off (zbm_bitmap z)) j" by (auto simp: first_such_Some)
  have low: "k \<notin> cell_free z c" if "k < NBITPW * cursor + n" for k
  proof (cases "k < NBITPW * cursor")
    case False
    then obtain j where j: "k = NBITPW * cursor + j" by (metis le_add_diff_inverse not_less)
    with that have "j < n" by simp
    with n' inv [of j] j show ?thesis by simp
  qed (use full in simp)
  from that [OF n] inv [OF n'(1)] n'(2) low show thesis by blast
qed

text \<open>The chunk after the allocation of bit \<open>k\<close> of cell \<open>c\<close>, before its pool is adjusted.\<close>

definition take_bit_of :: "rzbm \<Rightarrow> nat \<Rightarrow> nat \<Rightarrow> rzbm" where
  "take_bit_of z c k =
    z\<lparr>zbm_bitmap := BITMASKN_SET1 (zbm_bitmap z) (c * zbm_cellsize z + k),
      zbm_cell := upd (zbm_cell z) c (\<lambda>p. p\<lparr>zbc_nfree := zbc_nfree p - 1,
        zbc_cursor := (k + 1) div NBITPW\<rparr>)\<rparr>"

lemma take_bit_of_static [simp]: "static (take_bit_of z c k) = static z"
  by (simp add: static_def take_bit_of_def)

lemma take_bit_of_ok:
  assumes g: "geometry z" and co: "cells_ok z" and c: "c < zbm_ncell z"
    and k: "k \<in> cell_free z c" "\<forall>j<k. j \<notin> cell_free z c"
  shows "geometry (take_bit_of z c k)" "cells_ok (take_bit_of z c k)"
proof -
  let ?z = "take_bit_of z c k"
  note sf = static_fields [OF take_bit_of_static [of z c k]]
  have kc: "k < zbm_cellsize z" using k by (simp add: cell_free_def)
  note b = cell_bit_less [OF g c kc]
  have p: "0 < zbm_cellsize z" using kc by simp
  have T: "BITMASKN_TEST1 (zbm_bitmap ?z) j \<longleftrightarrow>
      j = c * zbm_cellsize z + k \<or> BITMASKN_TEST1 (zbm_bitmap z) j" for j
    using b by (simp add: take_bit_of_def bit_test_simps)
  have cf: "cell_free ?z c = cell_free z c - {k}"
    using kc by (auto simp: cell_free_def sf T)
  show "geometry ?z"
    by (rule geometry_upd [OF g]) (simp_all add: T, simp_all add: take_bit_of_def length_simps)
  show "cells_ok ?z"
  proof (rule cells_ok_upd [OF g co c, of ?z])
    show "zbm_cell ?z = upd (zbm_cell z) c (\<lambda>p. p\<lparr>zbc_nfree := zbc_nfree p - 1,
        zbc_cursor := (k + 1) div NBITPW\<rparr>)" by (simp add: take_bit_of_def)
    show "BITMASKN_TEST1 (zbm_bitmap ?z) b = BITMASKN_TEST1 (zbm_bitmap z) b"
      if "b div zbm_cellsize z \<noteq> c" for b
      using that kc p by (auto simp: T)
    have "zbc_nfree (zbm_cell z ! c) = card (cell_free z c)" using co c by (simp add: cells_ok_def)
    then show "zbc_nfree ((zbm_cell z ! c)\<lparr>zbc_nfree := zbc_nfree (zbm_cell z ! c) - 1,
        zbc_cursor := (k + 1) div NBITPW\<rparr>) = card (cell_free ?z c)"
      using k(1) by (simp add: cf)
    show "zbc_cursor ((zbm_cell z ! c)\<lparr>zbc_nfree := zbc_nfree (zbm_cell z ! c) - 1,
        zbc_cursor := (k + 1) div NBITPW\<rparr>) \<le> zbm_cellwidth z"
      using kc g by (simp add: geometry_def)
    show "\<forall>j < NBITPW * zbc_cursor ((zbm_cell z ! c)\<lparr>zbc_nfree := zbc_nfree (zbm_cell z ! c) - 1,
        zbc_cursor := (k + 1) div NBITPW\<rparr>). j \<notin> cell_free ?z c"
    proof (intro allI impI)
      fix j assume "j < NBITPW * zbc_cursor ((zbm_cell z ! c)\<lparr>zbc_nfree :=
        zbc_nfree (zbm_cell z ! c) - 1, zbc_cursor := (k + 1) div NBITPW\<rparr>)"
      then have "j < NBITPW * ((k + 1) div NBITPW)" by simp
      also have "\<dots> \<le> k + 1" by (rule div_times_less_eq_dividend [THEN order_trans [OF eq_refl [OF mult.commute]]])
      finally show "j \<notin> cell_free ?z c" using k(2) by (auto simp: cf less_Suc_eq)
    qed
  qed (simp_all add: take_bit_of_def static_def length_simps)
qed

lemma free_pages_take:
  assumes g: "geometry z" and c: "c < zbm_ncell z" and k: "k \<in> cell_free z c"
  shows "zbm_base z + (c * zbm_cellsize z + k) \<in> free_pages z"
    "free_pages (take_bit_of z c k) = free_pages z - {zbm_base z + (c * zbm_cellsize z + k)}"
proof -
  let ?b = "c * zbm_cellsize z + k"
  have b: "?b < NBITPW * length (zbm_bitmap z)" "\<not> BITMASKN_TEST1 (zbm_bitmap z) ?b"
    using cell_bit_less [OF g c] k by (auto simp: cell_free_def)
  then have "?b < zbm_size z" using g by (meson geometry_def linorder_not_less)
  with b show "zbm_base z + ?b \<in> free_pages z" by (simp add: free_pages_iff)
  have T: "BITMASKN_TEST1 (zbm_bitmap (take_bit_of z c k)) j \<longleftrightarrow>
      j = ?b \<or> BITMASKN_TEST1 (zbm_bitmap z) j" for j
    using b by (simp add: take_bit_of_def bit_test_simps)
  show "free_pages (take_bit_of z c k) = free_pages z - {zbm_base z + ?b}"
    by (auto simp: free_pages_def static_fields [OF take_bit_of_static] T)
qed

lemma alloc_take_eq:
  assumes g: "geometry z" and co: "cells_ok z" and c: "c < zbm_ncell z"
    and nf: "zbc_nfree (zbm_cell z ! c) \<noteq> 0"
  obtains k where "k \<in> cell_free z c" "\<forall>j<k. j \<notin> cell_free z c"
    "alloc_take z c = Some (if zbc_nfree (zbm_cell z ! c) = 1 then pool_del (take_bit_of z c k) c
       else take_bit_of z c k, zbm_base z + (c * zbm_cellsize z + k))"
proof -
  define cursor where "cursor = zbc_cursor (zbm_cell z ! c)"
  let ?off = "c * zbm_cellwidth z + cursor"
  have card: "zbc_nfree (zbm_cell z ! c) = card (cell_free z c)" using co c by (simp add: cells_ok_def)
  with nf have ne: "cell_free z c \<noteq> {}" by auto
  from first_free_in_cell [OF g co c ne] obtain n where n:
    "first_such (\<lambda>b. \<not> BITMASKN_TEST1 (drop ?off (zbm_bitmap z)) b)
      (NBITPW * (zbm_cellwidth z - cursor)) = Some n"
    "NBITPW * cursor + n \<in> cell_free z c" "\<forall>k < NBITPW * cursor + n. k \<notin> cell_free z c"
    unfolding cursor_def by blast
  have cur: "cursor < zbm_cellwidth z" unfolding cursor_def by (rule no_free_cursor [OF g co c ne])
  have w: "zbm_cellwidth z = 2 ^ zbm_cwshft z" "zbm_cellwidth z \<le> 32"
    "zbm_cellsize z = NBITPW * zbm_cellwidth z"
    using g geometry_width [OF g] by (auto simp: geometry_def)
  have le: "(c + 1) * zbm_cellwidth z \<le> zbm_ncell z * zbm_cellwidth z"
    using c by (intro mult_le_mono1) simp
  then have off: "?off \<le> length (zbm_bitmap z)"
    "zbm_cellwidth z - cursor \<le> length (drop ?off (zbm_bitmap z))"
    using g cur by (auto simp: geometry_def algebra_simps)
  have ffc: "BITMASKN_FFCSET (drop ?off (zbm_bitmap z)) (zbm_cellwidth z - cursor) =
      Some (BITMASKN_SET1 (drop ?off (zbm_bitmap z)) n, int n)"
    using clear_searches(3) [OF _ off(2)] cur n(1)
    by (simp add: BITMASKN_FFCSET_def search_correspondence)
  have map: "take ?off (zbm_bitmap z) @ BITMASKN_SET1 (drop ?off (zbm_bitmap z)) n =
      BITMASKN_SET1 (zbm_bitmap z) (c * zbm_cellsize z + (NBITPW * cursor + n))"
    unfolding SET1_drop [OF off(1)] w(3) by (simp add: algebra_simps)
  have kc: "NBITPW * cursor + n < zbm_cellsize z" using n(2) by (simp add: cell_free_def)
  have curs: "nat (int cursor + (int n + 1) div int NBITPW) mod 256 = (NBITPW * cursor + n + 1) div NBITPW"
  proof -
    have "(int n + 1) div int NBITPW = int ((n + 1) div NBITPW)" by (simp add: zdiv_int)
    then have "nat (int cursor + (int n + 1) div int NBITPW) = cursor + (n + 1) div NBITPW" by simp
    also have "\<dots> = (NBITPW * cursor + n + 1) div NBITPW" by simp
    moreover have "\<dots> < 256" using kc w by (simp add: less_mult_imp_div_less)
    ultimately show ?thesis by simp
  qed
  have nfree: "(zbc_nfree (zbm_cell z ! c) + 65535) mod 65536 = zbc_nfree (zbm_cell z ! c) - 1"
    by (rule dec_ushort) (use ne nfree_le [OF g, of c] card in \<open>simp_all add: PSE_NPAGES_def card_gt_0_iff\<close>)
  have l: "c < length (zbm_cell z)" using g c by (simp add: geometry_def)
  let ?z = "take_bit_of z c (NBITPW * cursor + n)"
  have pf: "RZBM_CELLTOPA ?z c cursor (int n) = zbm_base z + (c * zbm_cellsize z + (NBITPW * cursor + n))"
    by (simp add: RZBM_CELLTOPA_def static_fields [OF take_bit_of_static] w nat_eq_iff algebra_simps)
  have z1: "z\<lparr>zbm_bitmap := take ?off (zbm_bitmap z) @ BITMASKN_SET1 (drop ?off (zbm_bitmap z)) n,
      zbm_cell := upd (zbm_cell z) c (\<lambda>p. p\<lparr>zbc_nfree := (zbc_nfree p + 65535) mod 65536,
        zbc_cursor := nat (int cursor + (int n + 1) div int NBITPW) mod 256\<rparr>)\<rparr> = ?z"
    unfolding take_bit_of_def upd_def nfree curs map by simp
  have nf1: "zbc_nfree (zbm_cell ?z ! c) = zbc_nfree (zbm_cell z ! c) - 1"
    using l by (simp add: take_bit_of_def nth_upd)
  have c0: "(if cursor = zbm_cellwidth z then 0 else cursor) = cursor" using cur by simp
  have "alloc_take z c = Some (if zbc_nfree (zbm_cell z ! c) = 1 then pool_del ?z c else ?z,
      zbm_base z + (c * zbm_cellsize z + (NBITPW * cursor + n)))"
    unfolding alloc_take_def Let_def cursor_def [symmetric] c0 w(1) [symmetric] ffc option.case
      prod.case z1 pf nf1
    using nf by auto
  with that n(2,3) show thesis by blast
qed

text \<open>Membership of the pools, for all cells but \<open>c\<close>.\<close>

definition pools_but :: "rzbm \<Rightarrow> nat \<Rightarrow> nat list \<Rightarrow> nat list \<Rightarrow> bool" where
  "pools_but z c ps qs \<longleftrightarrow> pools_at z ps qs \<and>
     (\<forall>d < zbm_ncell z. d \<noteq> c \<longrightarrow> (d \<in> set ps \<longleftrightarrow> zbc_nfree (zbm_cell z ! d) \<notin> {0, PSE_NPAGES}) \<and>
       (d \<in> set qs \<longleftrightarrow> zbc_nfree (zbm_cell z ! d) = PSE_NPAGES))"

lemma pools_ok_but: "pools_ok z ps qs \<Longrightarrow> pools_but z c ps qs"
  by (auto simp: pools_ok_def pools_but_def)

lemma pools_but_ok:
  assumes "pools_but z c ps qs" "geometry z" "c < zbm_ncell z"
    "c \<in> set ps \<longleftrightarrow> zbc_nfree (zbm_cell z ! c) \<notin> {0, PSE_NPAGES}"
    "c \<in> set qs \<longleftrightarrow> zbc_nfree (zbm_cell z ! c) = PSE_NPAGES"
  shows "pools_ok z ps qs"
proof -
  have "set ps \<union> set qs \<subseteq> {..<zbm_ncell z}"
    using pools_at_bound [of z ps qs] assms(1,2) by (simp add: pools_but_def geometry_def)
  then show ?thesis using assms unfolding pools_ok_def pools_but_def set_eq_iff
    by (intro conjI allI) (blast | (metis (no_types, lifting) Un_iff lessThan_iff mem_Collect_eq subsetD))+
qed

lemma pools_but_keep:
  assumes "pools_but z c ps qs" "static z' = static z" "zbm_pool z' = zbm_pool z"
    "zbm_psepool z' = zbm_psepool z" "zbm_cell z' = upd (zbm_cell z) c f" "geometry z"
    "\<And>p. zbc_flink (f p) = zbc_flink p \<and> zbc_blink (f p) = zbc_blink p"
  shows "pools_but z' c ps qs"
proof -
  have "pools_at z' ps qs"
    by (rule pools_at_keep [of z]) (use assms in \<open>auto simp: pools_but_def nth_upd\<close>)
  with assms show ?thesis
    by (simp add: pools_but_def static_fields [OF assms(2)] nth_upd geometry_def)
qed

text \<open>The allocation of a page from the first cell of the 4K pool, which may be a 4M cell that was
  just moved there.\<close>

lemma alloc_take_chunk:
  assumes g: "geometry z" and co: "cells_ok z" and po: "pools_but z c (c # ps) qs"
    and c: "c < zbm_ncell z" and nf: "zbc_nfree (zbm_cell z ! c) \<noteq> 0"
  shows "\<exists>z' pf. alloc_take z c = Some (z', pf) \<and> chunk_ok z' \<and> static z' = static z \<and>
    pf \<in> free_pages z \<and> free_pages z' = free_pages z - {pf}"
proof -
  from alloc_take_eq [OF g co c nf] obtain k where k: "k \<in> cell_free z c" "\<forall>j<k. j \<notin> cell_free z c"
    "alloc_take z c = Some (if zbc_nfree (zbm_cell z ! c) = 1 then pool_del (take_bit_of z c k) c
       else take_bit_of z c k, zbm_base z + (c * zbm_cellsize z + k))" by metis
  let ?z = "take_bit_of z c k"
  note ok = take_bit_of_ok [OF g co c k(1,2)]
  note fp = free_pages_take [OF g c k(1)]
  have c': "c < zbm_ncell ?z" using c by (simp add: take_bit_of_def)
  have l: "c < length (zbm_cell z)" using g c by (simp add: geometry_def)
  have nf': "zbc_nfree (zbm_cell ?z ! c) = zbc_nfree (zbm_cell z ! c) - 1"
    using l by (simp add: take_bit_of_def nth_upd)
  have le: "zbc_nfree (zbm_cell z ! c) \<le> PSE_NPAGES"
    using nfree_le [OF g, of c] co c by (simp add: cells_ok_def)
  have po': "pools_but ?z c (c # ps) qs"
  proof (rule pools_but_keep [OF po])
    show "zbm_cell ?z = upd (zbm_cell z) c (\<lambda>p. p\<lparr>zbc_nfree := zbc_nfree p - 1,
        zbc_cursor := (k + 1) div NBITPW\<rparr>)" by (simp add: take_bit_of_def)
  qed (simp_all add: take_bit_of_def static_def g)
  have dis: "c \<notin> set ps" "c \<notin> set qs"
    using po pools_at_distinct [of z "c # ps" qs] by (auto simp: pools_but_def pools_at_def)
  show ?thesis
  proof (cases "zbc_nfree (zbm_cell z ! c) = 1")
    case True
    have "pools_but (pool_del ?z c) c ps qs"
      using po' pool_del_at [of ?z "[]" c ps qs] ok(1)
      by (auto simp: pools_but_def geometry_def)
    then have "pools_ok (pool_del ?z c) ps qs"
      by (rule pools_but_ok) (use ok(1) c' dis nf' True l in \<open>simp_all add: PSE_NPAGES_def take_bit_of_def\<close>)
    with ok True k(3) fp show ?thesis by (auto simp: chunk_ok_def)
  next
    case False
    have "pools_ok ?z (c # ps) qs"
      by (rule pools_but_ok [OF po' ok(1) c'])
        (use nf nf' False le dis in \<open>auto simp: PSE_NPAGES_def\<close>)
    with ok False k(3) fp show ?thesis by (auto simp: chunk_ok_def)
  qed
qed

text \<open>No free page is left exactly when both pools are empty.\<close>

lemma free_page_cell:
  assumes "geometry z" "pf \<in> free_pages z"
  obtains c where "c < zbm_ncell z" "cell_free z c \<noteq> {}"
proof -
  from assms(2) obtain b where b: "b < zbm_size z" "\<not> BITMASKN_TEST1 (zbm_bitmap z) b"
    by (auto simp: free_pages_def)
  then have "b < NBITPW * length (zbm_bitmap z)" using assms(1) by (auto simp: geometry_def)
  note cb = cell_of_bit [OF assms(1) this]
  have "b mod zbm_cellsize z \<in> cell_free z (b div zbm_cellsize z)"
    using b cb by (simp add: cell_free_def)
  with cb(1) that show thesis by blast
qed

lemma cell_free_page:
  assumes "geometry z" "c < zbm_ncell z" "k \<in> cell_free z c"
  shows "zbm_base z + (c * zbm_cellsize z + k) \<in> free_pages z"
  by (rule free_pages_take(1) [OF assms])

lemma chunk_empty:
  assumes "chunk_ok z"
  shows "free_pages z = {} \<longleftrightarrow> zbm_pool z = None \<and> zbm_psepool z = None"
proof -
  from assms obtain ps qs where ok: "geometry z" "cells_ok z" "pools_ok z ps qs"
    by (auto simp: chunk_ok_def)
  have heads: "zbm_pool z = head_of ps" "zbm_psepool z = head_of qs"
    using ok(3) by (simp_all add: pools_ok_def pools_at_def)
  have "free_pages z = {} \<longleftrightarrow> (\<forall>c < zbm_ncell z. cell_free z c = {})"
  proof (intro iffI allI impI)
    fix c assume "free_pages z = {}" "c < zbm_ncell z"
    then show "cell_free z c = {}" using cell_free_page [OF ok(1)] by fastforce
  next
    assume all: "\<forall>c < zbm_ncell z. cell_free z c = {}"
    show "free_pages z = {}"
    proof (rule ccontr)
      assume "free_pages z \<noteq> {}"
      then obtain pf where "pf \<in> free_pages z" by blast
      from free_page_cell [OF ok(1) this] all show False by metis
    qed
  qed
  also have "\<dots> \<longleftrightarrow> (\<forall>c < zbm_ncell z. zbc_nfree (zbm_cell z ! c) = 0)"
    using ok(2) by (simp add: cells_ok_def)
  also have "\<dots> \<longleftrightarrow> set ps = {} \<and> set qs = {}"
  proof -
    from ok(3) have "set ps = {c. c < zbm_ncell z \<and> zbc_nfree (zbm_cell z ! c) \<notin> {0, PSE_NPAGES}}"
      "set qs = {c. c < zbm_ncell z \<and> zbc_nfree (zbm_cell z ! c) = PSE_NPAGES}"
      by (simp_all add: pools_ok_def)
    then show ?thesis by (auto simp: PSE_NPAGES_def)
  qed
  finally show ?thesis by (simp add: heads)
qed

section \<open>Release of a page\<close>

definition put_bit :: "rzbm \<Rightarrow> nat \<Rightarrow> nat \<Rightarrow> rzbm" where
  "put_bit z c k =
    z\<lparr>zbm_bitmap := BITMASKN_CLR1 (zbm_bitmap z) (c * zbm_cellsize z + k),
      zbm_cell := upd (zbm_cell z) c (\<lambda>p. p\<lparr>zbc_nfree := zbc_nfree p + 1,
        zbc_cursor := min (zbc_cursor p) (k div NBITPW)\<rparr>)\<rparr>"

lemma put_bit_static [simp]: "static (put_bit z c k) = static z"
  by (simp add: static_def put_bit_def)

lemma put_bit_TEST1:
  assumes "geometry z" "c < zbm_ncell z" "k < zbm_cellsize z"
  shows "BITMASKN_TEST1 (zbm_bitmap (put_bit z c k)) j \<longleftrightarrow>
    j \<noteq> c * zbm_cellsize z + k \<and> BITMASKN_TEST1 (zbm_bitmap z) j"
  using cell_bit_less [OF assms] by (simp add: put_bit_def bit_test_simps)

lemma put_bit_cell_free:
  assumes "geometry z" "c < zbm_ncell z" "k < zbm_cellsize z"
  shows "cell_free (put_bit z c k) c = insert k (cell_free z c)"
  using assms(3) by (auto simp: cell_free_def static_fields [OF put_bit_static] put_bit_TEST1 [OF assms])

lemma put_bit_ok:
  assumes g: "geometry z" and co: "cells_ok z" and c: "c < zbm_ncell z"
    and k: "k < zbm_cellsize z" "k \<notin> cell_free z c" "c * zbm_cellsize z + k < zbm_size z"
  shows "geometry (put_bit z c k)" "cells_ok (put_bit z c k)"
proof -
  let ?z = "put_bit z c k"
  let ?f = "\<lambda>p. p\<lparr>zbc_nfree := zbc_nfree p + 1, zbc_cursor := min (zbc_cursor p) (k div NBITPW)\<rparr>"
  note T = put_bit_TEST1 [OF g c k(1)]
  note cf = put_bit_cell_free [OF g c k(1)]
  show "geometry ?z"
    by (rule geometry_upd [OF g]) (use k(3) in \<open>simp_all add: T, simp_all add: put_bit_def length_simps\<close>)
  show "cells_ok ?z"
  proof (rule cells_ok_upd [OF g co c, of ?z])
    show "zbm_cell ?z = upd (zbm_cell z) c ?f" by (simp add: put_bit_def)
    show "BITMASKN_TEST1 (zbm_bitmap ?z) b = BITMASKN_TEST1 (zbm_bitmap z) b"
      if "b div zbm_cellsize z \<noteq> c" for b
      using that k(1) by (auto simp: T)
    have n: "zbc_nfree (zbm_cell z ! c) = card (cell_free z c)" using co c by (simp add: cells_ok_def)
    show "zbc_nfree (?f (zbm_cell z ! c)) = card (cell_free ?z c)"
      using k(2) by (simp add: cf n)
    show "zbc_cursor (?f (zbm_cell z ! c)) \<le> zbm_cellwidth z"
      using co c by (simp add: cells_ok_def min.coboundedI1)
    show "\<forall>j < NBITPW * zbc_cursor (?f (zbm_cell z ! c)). j \<notin> cell_free ?z c"
    proof (intro allI impI)
      fix j assume j: "j < NBITPW * zbc_cursor (?f (zbm_cell z ! c))"
      have "NBITPW * min (zbc_cursor (zbm_cell z ! c)) (k div NBITPW) \<le> NBITPW * (k div NBITPW)"
        by simp
      also have "\<dots> \<le> k" by (metis div_times_less_eq_dividend mult.commute)
      finally have "j \<noteq> k" using j by simp
      moreover have "j < NBITPW * zbc_cursor (zbm_cell z ! c)" using j by simp
      ultimately show "j \<notin> cell_free ?z c" using co c by (simp add: cf cells_ok_def)
    qed
  qed (simp_all add: put_bit_def static_def length_simps)
qed

lemma free_pages_put:
  assumes "geometry z" "c < zbm_ncell z" "k < zbm_cellsize z" "c * zbm_cellsize z + k < zbm_size z"
  shows "free_pages (put_bit z c k) = insert (zbm_base z + (c * zbm_cellsize z + k)) (free_pages z)"
  using assms(4) by (auto simp: free_pages_def static_fields [OF put_bit_static] put_bit_TEST1 [OF assms(1-3)])

text \<open>The address arithmetic of the release: map word, cell, cursor.\<close>

lemma mask_cell:
  assumes "geometry z"
  shows "mi AND zbm_cellmask z = mi mod zbm_cellwidth z"
proof -
  have "mi AND zbm_cellmask z = take_bit (zbm_cwshft z) mi"
    using assms by (simp add: geometry_def take_bit_eq_mask mask_eq_exp_minus_1)
  with assms show ?thesis by (simp add: geometry_def take_bit_eq_mod)
qed

lemma word_of_cell_bit:
  assumes "geometry z"
  shows "(b div NBITPW) div zbm_cellwidth z = b div zbm_cellsize z"
    "(b div NBITPW) mod zbm_cellwidth z = (b mod zbm_cellsize z) div NBITPW"
proof -
  have cs: "zbm_cellsize z = NBITPW * zbm_cellwidth z" using assms by (simp add: geometry_def)
  show "(b div NBITPW) div zbm_cellwidth z = b div zbm_cellsize z" by (simp add: cs div_mult2_eq)
  show "(b div NBITPW) mod zbm_cellwidth z = (b mod zbm_cellsize z) div NBITPW"
    by (simp add: cs mod_mult2_eq)
qed

lemma free_page_eq:
  assumes g: "geometry z" and co: "cells_ok z" and b: "b < zbm_size z"
  defines "c \<equiv> b div zbm_cellsize z" and "k \<equiv> b mod zbm_cellsize z"
  assumes kn: "k \<notin> cell_free z c"
  shows "free_page z (zbm_base z + b) =
    (let z' = put_bit z c k
     in if zbc_nfree (zbm_cell z ! c) = 0 then pool_add z' c
        else if zbc_nfree (zbm_cell z ! c) = 1023 then psepool_add (pool_del z' c) c else z')"
proof -
  have w: "zbm_cellwidth z = 2 ^ zbm_cwshft z" "zbm_cellwidth z \<le> 32"
    using g geometry_width [OF g] by (auto simp: geometry_def)
  have bl: "b < NBITPW * length (zbm_bitmap z)" using size_bits [OF g] b by blast
  note cb = cell_of_bit [OF g bl, folded c_def k_def]
  have l: "c < length (zbm_cell z)" using g cb by (simp add: geometry_def)
  have n: "zbc_nfree (zbm_cell z ! c) = card (cell_free z c)" using co cb by (simp add: cells_ok_def)
  have "card (insert k (cell_free z c)) \<le> card {..<zbm_cellsize z}"
    by (rule card_mono) (use cb cell_free_subset in auto)
  then have n1: "zbc_nfree (zbm_cell z ! c) + 1 \<le> 1024"
    using kn n g w by (simp add: geometry_def)
  have kc: "k div NBITPW < 32"
  proof -
    have "k < 32 * 32" using cb(2) g w by (simp add: geometry_def)
    then show ?thesis by simp
  qed
  have z1: "z\<lparr>zbm_bitmap := upd (zbm_bitmap z) (b div NBITPW) (\<lambda>w. BITMASK1_CLR1 w (b mod NBITPW)),
      zbm_cell := upd (zbm_cell z) c (\<lambda>p. p\<lparr>zbc_nfree := (zbc_nfree p + 1) mod 65536,
        zbc_cursor := (if k div NBITPW < zbc_cursor p then k div NBITPW mod 256 else zbc_cursor p)\<rparr>)\<rparr>
    = put_bit z c k"
    using kc n1 cb(3) unfolding put_bit_def upd_def BITMASKN_CLR1_def BITMASK1_CLR1_def
    by (simp add: min_def)
  have nf: "zbc_nfree (zbm_cell (put_bit z c k) ! c) = zbc_nfree (zbm_cell z ! c) + 1"
    using l by (simp add: put_bit_def nth_upd)
  have "free_page z (zbm_base z + b) =
    (let z' = put_bit z c k;
         z'' = (if zbc_nfree (zbm_cell z' ! c) = 1 then pool_add z' c else z')
     in if zbc_nfree (zbm_cell z'' ! c) = PSE_NPAGES then psepool_add (pool_del z'' c) c else z'')"
    unfolding free_page_def Let_def mask_cell [OF g] w(1) [symmetric] word_of_cell_bit [OF g]
      add_diff_cancel_left' c_def [symmetric] k_def [symmetric] z1 ..
  moreover have "c < length (zbm_cell (put_bit z c k))" using l by (simp add: put_bit_def)
  ultimately show ?thesis by (simp add: Let_def nf PSE_NPAGES_def)
qed

lemma free_page_chunk:
  assumes ok: "chunk_ok z" and pf: "pf \<in> pages z" "pf \<notin> free_pages z"
  shows "chunk_ok (free_page z pf) \<and> static (free_page z pf) = static z \<and>
    free_pages (free_page z pf) = insert pf (free_pages z)"
proof -
  from ok obtain ps qs where g: "geometry z" and co: "cells_ok z" and po: "pools_ok z ps qs"
    by (auto simp: chunk_ok_def)
  from pf(1) obtain b where b: "b < zbm_size z" "pf = zbm_base z + b"
    by (auto simp: pages_def le_iff_add)
  define c where "c = b div zbm_cellsize z"
  define k where "k = b mod zbm_cellsize z"
  have bl: "b < NBITPW * length (zbm_bitmap z)" using size_bits [OF g] b by blast
  note cb = cell_of_bit [OF g bl, folded c_def k_def]
  have kn: "k \<notin> cell_free z c"
    using pf(2) b cb by (simp add: cell_free_def free_pages_iff)
  note eq = free_page_eq [OF g co b(1), folded c_def k_def, OF kn, folded b(2)]
  let ?z = "put_bit z c k"
  have ks: "c * zbm_cellsize z + k < zbm_size z" using cb(3) b(1) by simp
  note ok' = put_bit_ok [OF g co cb(1,2) kn ks]
  have fp: "free_pages ?z = insert pf (free_pages z)"
    using free_pages_put [OF g cb(1,2) ks] cb(3) b(2) by simp
  have l: "c < length (zbm_cell z)" "c < length (zbm_cell ?z)" "c < zbm_ncell ?z"
    using g cb by (simp_all add: geometry_def put_bit_def)
  have nf: "zbc_nfree (zbm_cell ?z ! c) = zbc_nfree (zbm_cell z ! c) + 1"
    using l by (simp add: put_bit_def nth_upd)
  have mem: "c \<in> set ps \<longleftrightarrow> zbc_nfree (zbm_cell z ! c) \<notin> {0, PSE_NPAGES}"
    "c \<in> set qs \<longleftrightarrow> zbc_nfree (zbm_cell z ! c) = PSE_NPAGES"
    using po cb(1) by (auto simp: pools_ok_def)
  have le: "zbc_nfree (zbm_cell ?z ! c) \<le> PSE_NPAGES"
    using nfree_le [OF ok'(1), of c] ok'(2) l(3) by (simp add: cells_ok_def)
  have po': "pools_but ?z c ps qs"
  proof (rule pools_but_keep [OF pools_ok_but [OF po]])
    show "zbm_cell ?z = upd (zbm_cell z) c (\<lambda>p. p\<lparr>zbc_nfree := zbc_nfree p + 1,
        zbc_cursor := min (zbc_cursor p) (k div NBITPW)\<rparr>)" by (simp add: put_bit_def)
  qed (simp_all add: put_bit_def static_def g)
  consider "zbc_nfree (zbm_cell z ! c) = 0" | "zbc_nfree (zbm_cell z ! c) = 1023"
    | "zbc_nfree (zbm_cell z ! c) \<noteq> 0" "zbc_nfree (zbm_cell z ! c) \<noteq> 1023" by blast
  then show ?thesis
  proof cases
    case 1
    with mem have "c \<notin> set ps" "c \<notin> set qs" by (auto simp: PSE_NPAGES_def)
    then have "pools_but (pool_add ?z c) c (ps @ [c]) qs"
      using po' pool_add_at [of ?z ps qs c] l ok'(1) by (auto simp: pools_but_def geometry_def)
    then have "pools_ok (pool_add ?z c) (ps @ [c]) qs"
      by (rule pools_but_ok) (use ok' l nf 1 mem in \<open>simp_all add: PSE_NPAGES_def\<close>)
    with ok' fp 1 eq show ?thesis by (auto simp: chunk_ok_def)
  next
    case 2
    with mem have "c \<in> set ps" "c \<notin> set qs" by (auto simp: PSE_NPAGES_def)
    then obtain xs ys where ps: "ps = xs @ c # ys" by (meson split_list)
    have dis: "c \<notin> set (xs @ ys)" using po' ps pools_at_distinct [of ?z ps qs] by (auto simp: pools_but_def)
    have "pools_but (psepool_add (pool_del ?z c) c) c (xs @ ys) (qs @ [c])"
      using po' ps dis \<open>c \<notin> set qs\<close> l ok'(1) pool_del_at [of ?z xs c ys qs]
        psepool_add_at [of "pool_del ?z c" "xs @ ys" qs c]
      by (auto simp: pools_but_def geometry_def)
    then have "pools_ok (psepool_add (pool_del ?z c) c) (xs @ ys) (qs @ [c])"
      by (rule pools_but_ok) (use ok' l nf 2 dis in \<open>simp_all add: PSE_NPAGES_def\<close>)
    with ok' fp 2 eq show ?thesis by (auto simp: chunk_ok_def)
  next
    case 3
    have "pools_ok ?z ps qs"
      by (rule pools_but_ok [OF po' ok'(1) l(3)]) (use 3 nf mem le in \<open>auto simp: PSE_NPAGES_def\<close>)
    with ok' fp 3 eq show ?thesis by (auto simp: chunk_ok_def)
  qed
qed

end
