(* ===== verification/RzbmPse.thy ===== *)
theory RzbmPse
  imports RzbmAlloc
begin

text \<open>
  4M pages: the allocation of a whole cell from the 4M pool, and its release. A chunk with a cell in
  that pool has cells of 1024 pages, and the whole bit map of the cell is written at once.
\<close>

lemma fold_SET1: "bit (fold (\<lambda>i w. BITMASK1_SET1 w i) is w) n \<longleftrightarrow>
    n < NBITPW \<and> (n \<in> set is \<or> bit w n)"
proof (induction "is" arbitrary: w)
  case Nil
  then show ?case by (auto dest: bit_imp_le_length)
next
  case (Cons i "is")
  then show ?case by (auto simp: BITMASK1_SET1_def bit_or_iff bit_exp_iff)
qed

lemma fold_CLR1: "bit (fold (\<lambda>i w. BITMASK1_CLR1 w i) is w) n \<longleftrightarrow> n \<notin> set is \<and> bit w n"
proof (induction "is" arbitrary: w)
  case (Cons i "is")
  then show ?case
    by (auto simp: BITMASK1_CLR1_def bit_and_iff bit_not_iff bit_exp_iff dest: bit_imp_le_length)
qed simp

lemma setnbits_eq: "n \<le> length mp \<Longrightarrow> rzbm_setnbits mp n = replicate n (NOT 0) @ drop n mp"
proof (induction mp n rule: rzbm_setnbits.induct)
  case (3 w mp n)
  have "fold (\<lambda>i w. BITMASK1_SET1 w i) [0..<NBITPW] w = NOT 0"
    by (rule bit_word_eqI) (simp add: fold_SET1)
  with 3 show ?case by (simp del: upt_Suc)
qed simp_all

lemma clrnbits_eq: "n \<le> length mp \<Longrightarrow> rzbm_clrnbits mp n = replicate n 0 @ drop n mp"
proof (induction mp n rule: rzbm_clrnbits.induct)
  case (3 w mp n)
  have "fold (\<lambda>i w. BITMASK1_CLR1 w i) [0..<NBITPW] w = 0"
    by (rule bit_word_eqI) (simp add: fold_CLR1)
  with 3 show ?case by (simp del: upt_Suc)
qed simp_all

text \<open>The chunk with all words of cell \<open>c\<close> set to \<open>w\<close>.\<close>

definition fill_words :: "rzbm \<Rightarrow> nat \<Rightarrow> uint_t \<Rightarrow> uint_t list" where
  "fill_words z c w = take (c * zbm_cellwidth z) (zbm_bitmap z) @ replicate (zbm_cellwidth z) w @
     drop (c * zbm_cellwidth z + zbm_cellwidth z) (zbm_bitmap z)"

lemma cell_words_le:
  assumes "geometry z" "c < zbm_ncell z"
  shows "c * zbm_cellwidth z + zbm_cellwidth z \<le> length (zbm_bitmap z)"
proof -
  have "(c + 1) * zbm_cellwidth z \<le> zbm_ncell z * zbm_cellwidth z"
    using assms(2) by (intro mult_le_mono1) simp
  with assms(1) show ?thesis by (simp add: geometry_def)
qed

lemma fill_words_length:
  assumes "geometry z" "c < zbm_ncell z"
  shows "length (fill_words z c w) = length (zbm_bitmap z)"
  using cell_words_le [OF assms] by (simp add: fill_words_def)

lemma fill_words_TEST1:
  assumes g: "geometry z" and c: "c < zbm_ncell z" and b: "b < NBITPW * length (zbm_bitmap z)"
  shows "BITMASKN_TEST1 (fill_words z c w) b \<longleftrightarrow>
    (if b div zbm_cellsize z = c then bit w (b mod NBITPW) else BITMASKN_TEST1 (zbm_bitmap z) b)"
proof -
  let ?i = "b div NBITPW" and ?cw = "zbm_cellwidth z"
  have le: "c * ?cw + ?cw \<le> length (zbm_bitmap z)" by (rule cell_words_le [OF g c])
  have i: "?i < length (zbm_bitmap z)" by (rule word_index_bound [OF b])
  have cw: "0 < ?cw" using geometry_width [OF g] by simp
  have eq: "b div zbm_cellsize z = ?i div ?cw" by (simp add: word_of_cell_bit [OF g])
  consider "?i < c * ?cw" | "c * ?cw \<le> ?i" "?i < c * ?cw + ?cw" | "c * ?cw + ?cw \<le> ?i" by linarith
  then show ?thesis
  proof cases
    case 1
    then have "?i div ?cw \<noteq> c" using cw by (metis div_times_less_eq_dividend leD)
    with 1 le show ?thesis by (simp add: BITMASKN_TEST1_def fill_words_def nth_append eq)
  next
    case 2
    then have "?i div ?cw = c" by (intro div_nat_eqI) (simp_all add: mult.commute)
    moreover have "?i - c * ?cw < ?cw" using 2 by linarith
    ultimately show ?thesis using 2 le by (simp add: BITMASKN_TEST1_def fill_words_def nth_append eq)
  next
    case 3
    then have "Suc c * ?cw \<le> ?i" by simp
    then have "?i div ?cw \<noteq> c" using cw by (metis less_eq_div_iff_mult_less_eq Suc_n_not_le_n)
    moreover have "fill_words z c w ! ?i = zbm_bitmap z ! ?i"
    proof -
      have "\<not> ?i < c * ?cw" "\<not> ?i - c * ?cw < ?cw" using 3 by linarith+
      with 3 le i show ?thesis by (simp add: fill_words_def nth_append)
    qed
    ultimately show ?thesis by (simp add: BITMASKN_TEST1_def eq)
  qed
qed

definition fill_cell :: "rzbm \<Rightarrow> nat \<Rightarrow> uint_t \<Rightarrow> nat \<Rightarrow> nat \<Rightarrow> rzbm" where
  "fill_cell z c w nfree cursor =
    z\<lparr>zbm_bitmap := fill_words z c w,
      zbm_cell := upd (zbm_cell z) c (\<lambda>p. p\<lparr>zbc_nfree := nfree, zbc_cursor := cursor\<rparr>)\<rparr>"

lemma fill_cell_static [simp]: "static (fill_cell z c w n k) = static z"
  by (simp add: static_def fill_cell_def)

lemma fill_cell_ok:
  assumes g: "geometry z" and co: "cells_ok z" and c: "c < zbm_ncell z"
    and w: "w = NOT 0 \<and> nfree = 0 \<and> cursor = zbm_cellwidth z \<or>
      w = 0 \<and> nfree = zbm_cellsize z \<and> cursor = 0 \<and> (c + 1) * zbm_cellsize z \<le> zbm_size z"
  shows "geometry (fill_cell z c w nfree cursor)" "cells_ok (fill_cell z c w nfree cursor)"
proof -
  let ?z = "fill_cell z c w nfree cursor"
  let ?f = "\<lambda>p. p\<lparr>zbc_nfree := nfree, zbc_cursor := cursor\<rparr>"
  have T: "b < NBITPW * length (zbm_bitmap z) \<Longrightarrow> BITMASKN_TEST1 (zbm_bitmap ?z) b \<longleftrightarrow>
      (if b div zbm_cellsize z = c then w = NOT 0 else BITMASKN_TEST1 (zbm_bitmap z) b)" for b
    using fill_words_TEST1 [OF g c, of b w] w by (auto simp: fill_cell_def)
  have len: "length (zbm_bitmap ?z) = length (zbm_bitmap z)"
    by (simp add: fill_cell_def fill_words_length [OF g c])
  have p: "0 < zbm_cellsize z" using geometry_width [OF g] g by (simp add: geometry_def)
  show "geometry ?z"
  proof (rule geometry_upd [OF g _ _ len])
    fix b assume b: "zbm_size z \<le> b" "b < NBITPW * length (zbm_bitmap z)"
      "BITMASKN_TEST1 (zbm_bitmap z) b"
    have "b div zbm_cellsize z = c \<Longrightarrow> b < (c + 1) * zbm_cellsize z"
      using p dividend_less_div_times [of "zbm_cellsize z" b] by auto
    with b w T show "BITMASKN_TEST1 (zbm_bitmap ?z) b" by auto
  qed (simp_all add: fill_cell_def static_def)
  have cf: "cell_free ?z c = (if w = NOT 0 then {} else {..<zbm_cellsize z})"
    using T [OF cell_bit_less [OF g c]] p by (auto simp: cell_free_def static_fields [OF fill_cell_static])
  show "cells_ok ?z"
  proof (rule cells_ok_upd [OF g co c, of ?z])
    show "zbm_cell ?z = upd (zbm_cell z) c ?f" by (simp add: fill_cell_def)
    show "BITMASKN_TEST1 (zbm_bitmap ?z) b = BITMASKN_TEST1 (zbm_bitmap z) b"
      if "b < NBITPW * length (zbm_bitmap z)" "b div zbm_cellsize z \<noteq> c" for b
      using T that by simp
  qed (use w cf len in auto)
qed

lemma free_pages_fill:
  assumes g: "geometry z" and c: "c < zbm_ncell z" and le: "(c + 1) * zbm_cellsize z \<le> zbm_size z"
    and w: "w = NOT 0 \<or> w = 0"
  defines "S \<equiv> {zbm_base z + c * zbm_cellsize z ..< zbm_base z + (c + 1) * zbm_cellsize z}"
  shows "free_pages (fill_cell z c w nfree cursor) =
    (if w = NOT 0 then free_pages z - S else free_pages z \<union> S)"
proof -
  let ?z = "fill_cell z c w nfree cursor"
  have p: "0 < zbm_cellsize z" using geometry_width [OF g] g by (simp add: geometry_def)
  have T: "b < zbm_size z \<Longrightarrow> BITMASKN_TEST1 (zbm_bitmap ?z) b \<longleftrightarrow>
      (if b div zbm_cellsize z = c then w = NOT 0 else BITMASKN_TEST1 (zbm_bitmap z) b)" for b
    using fill_words_TEST1 [OF g c size_bits [OF g], of b w] w by (auto simp: fill_cell_def)
  have d: "b div zbm_cellsize z = c \<longleftrightarrow> zbm_base z + b \<in> S" for b
  proof -
    have "b div zbm_cellsize z = c \<longleftrightarrow> c * zbm_cellsize z \<le> b \<and> b < (c + 1) * zbm_cellsize z"
      using p by (metis Suc_eq_plus1 div_less_iff_less_mult less_Suc_eq_le less_eq_div_iff_mult_less_eq order_antisym order_refl)
    then show ?thesis by (simp add: S_def)
  qed
  have "pf \<in> free_pages ?z \<longleftrightarrow> pf \<in> (if w = NOT 0 then free_pages z - S else free_pages z \<union> S)" for pf
  proof (cases "\<exists>b < zbm_size z. pf = zbm_base z + b")
    case True
    then obtain b where b: "b < zbm_size z" "pf = zbm_base z + b" by blast
    have "zbm_base ?z = zbm_base z" "zbm_size ?z = zbm_size z"
      by (simp_all add: static_fields [OF fill_cell_static])
    with b T [OF b(1)] w show ?thesis
      using free_pages_iff [of ?z b] free_pages_iff [of z b] d [of b] by auto
  next
    case False
    have "pf \<notin> S"
    proof
      assume "pf \<in> S"
      then have "pf = zbm_base z + (pf - zbm_base z)" "pf - zbm_base z < zbm_size z"
        using le by (auto simp: S_def)
      with False show False by blast
    qed
    with False show ?thesis by (auto simp: free_pages_def static_fields [OF fill_cell_static])
  qed
  then show ?thesis by blast
qed

section \<open>Allocation\<close>

lemma pse_cell:
  assumes g: "geometry z" and co: "cells_ok z" and c: "c < zbm_ncell z"
    and nf: "zbc_nfree (zbm_cell z ! c) = PSE_NPAGES"
  shows "zbm_cellsize z = PSE_NPAGES" "zbm_cellwidth z = 32" "cell_free z c = {..<PSE_NPAGES}"
    "zbc_cursor (zbm_cell z ! c) = 0" "(c + 1) * zbm_cellsize z \<le> zbm_size z"
proof -
  have n: "card (cell_free z c) = PSE_NPAGES" using co c nf by (simp add: cells_ok_def)
  have "PSE_NPAGES \<le> zbm_cellsize z" using card_mono [OF _ cell_free_subset [of z c]] n by simp
  with geometry_width [OF g] g show cs: "zbm_cellsize z = PSE_NPAGES" "zbm_cellwidth z = 32"
    by (auto simp: geometry_def PSE_NPAGES_def)
  show cf: "cell_free z c = {..<PSE_NPAGES}"
    using card_subset_eq [OF _ cell_free_subset [of z c]] n cs by simp
  show "zbc_cursor (zbm_cell z ! c) = 0"
  proof (rule ccontr)
    assume "zbc_cursor (zbm_cell z ! c) \<noteq> 0"
    then have "0 \<notin> cell_free z c" using co c by (simp add: cells_ok_def)
    then show False by (simp add: cf PSE_NPAGES_def)
  qed
  have "1023 \<in> cell_free z c" by (simp add: cf PSE_NPAGES_def)
  from free_pages_take(1) [OF g c this] show "(c + 1) * zbm_cellsize z \<le> zbm_size z"
    by (simp add: free_pages_iff cs PSE_NPAGES_def)
qed

lemma psealloc_take_eq:
  assumes g: "geometry z" and co: "cells_ok z" and c: "c < zbm_ncell z"
    and nf: "zbc_nfree (zbm_cell z ! c) = PSE_NPAGES"
  shows "psealloc_take z c =
    Some (psepool_del (fill_cell z c (NOT 0) 0 (zbm_cellwidth z)) c, zbm_base z + c * zbm_cellsize z)"
proof -
  note pc = pse_cell [OF g co c nf]
  have w: "2 ^ zbm_cwshft z = (32::nat)" using pc(2) g by (simp add: geometry_def)
  let ?mp = "drop (c * 32) (zbm_bitmap z)"
  have le: "c * 32 + 32 \<le> length (zbm_bitmap z)" using cell_words_le [OF g c] pc(2) by simp
  have "0 \<in> cell_free z c" by (simp add: pc(3) PSE_NPAGES_def)
  then have "\<not> BITMASKN_TEST1 ?mp 0"
    using le by (simp add: TEST1_drop cell_free_def pc(1) PSE_NPAGES_def mult.commute)
  then have "first_such (\<lambda>b. \<not> BITMASKN_TEST1 ?mp b) (NBITPW * 32) = Some 0"
    by (simp add: first_such_Some)
  then have ffc: "BITMASKN_FFC ?mp 32 = Some 0" using le by (simp add: FFC_first)
  have fill: "take (c * 32) (zbm_bitmap z) @ rzbm_setnbits ?mp 32 = fill_words z c (NOT 0)"
    using le by (simp add: setnbits_eq fill_words_def pc(2) add.commute)
  let ?z = "fill_cell z c (NOT 0) 0 (zbm_cellwidth z)"
  have cur: "nat (int 0 + (0 + int PSE_NPAGES) div int (zbm_cellwidth z)) mod 256
      = zbm_cellwidth z"
    by (simp add: PSE_NPAGES_def pc(2))
  have z1: "z\<lparr>zbm_bitmap := fill_words z c (NOT 0), zbm_cell := upd (zbm_cell z) c (\<lambda>p. p\<lparr>
      zbc_nfree := 0, zbc_cursor := zbm_cellwidth z\<rparr>)\<rparr> = ?z" by (simp add: fill_cell_def)
  have "zbm_cwshft ?z = zbm_cwshft z" "zbm_base ?z = zbm_base z"
    by (rule static_fields [OF fill_cell_static])+
  then have pf: "RZBM_CELLTOPA ?z c 0 0 = zbm_base z + c * zbm_cellsize z"
    unfolding RZBM_CELLTOPA_def by (simp add: w pc(1) PSE_NPAGES_def nat_eq_iff)
  show ?thesis
    unfolding psealloc_take_def Let_def pc(4) w
    using ffc by (simp only: add_0_right diff_zero pc(2) option.case fill) (simp only: pc(2) [symmetric] cur z1 pf)
qed

lemma psealloc_chunk:
  assumes ok: "chunk_ok z" and pool: "zbm_psepool z = Some c"
  shows "\<exists>z' pf. psealloc_take z c = Some (z', pf) \<and> chunk_ok z' \<and> static z' = static z \<and>
    {pf ..< pf + PSE_NPAGES} \<subseteq> free_pages z \<and>
    free_pages z' = free_pages z - {pf ..< pf + PSE_NPAGES} \<and>
    zbm_cellsize z = PSE_NPAGES \<and> (\<exists>c. pf = zbm_base z + c * PSE_NPAGES \<and> (c + 1) * PSE_NPAGES \<le> zbm_size z)"
proof -
  from ok obtain ps qs where g: "geometry z" and co: "cells_ok z" and po: "pools_ok z ps qs"
    by (auto simp: chunk_ok_def)
  from pool po obtain qs' where qs: "qs = c # qs'"
    by (cases qs) (auto simp: pools_ok_def pools_at_def)
  with po have c: "c < zbm_ncell z" "zbc_nfree (zbm_cell z ! c) = PSE_NPAGES"
    by (auto simp: pools_ok_def)
  note pc = pse_cell [OF g co c]
  let ?z = "fill_cell z c (NOT 0) 0 (zbm_cellwidth z)"
  have ok': "geometry ?z" "cells_ok ?z"
    by (rule fill_cell_ok [OF g co c(1)]; simp)+
  have l: "c < length (zbm_cell z)" "c < length (zbm_cell ?z)" "c < zbm_ncell ?z"
    using g c by (simp_all add: geometry_def fill_cell_def)
  have nf: "zbc_nfree (zbm_cell ?z ! c) = 0" using l by (simp add: fill_cell_def nth_upd)
  have po': "pools_but ?z c ps qs"
  proof (rule pools_but_keep [OF pools_ok_but [OF po]])
    show "zbm_cell ?z = upd (zbm_cell z) c (\<lambda>p. p\<lparr>zbc_nfree := 0, zbc_cursor := zbm_cellwidth z\<rparr>)"
      by (simp add: fill_cell_def)
  qed (simp_all add: fill_cell_def static_def g)
  have dis: "c \<notin> set ps" "c \<notin> set qs'"
    using po qs pools_at_distinct [of z ps qs] by (auto simp: pools_ok_def pools_at_def)
  have "pools_but (psepool_del ?z c) c ps qs'"
    using po' psepool_del_at [of ?z ps "[]" c qs'] ok'(1) qs by (auto simp: pools_but_def geometry_def)
  then have "pools_ok (psepool_del ?z c) ps qs'"
    by (rule pools_but_ok) (use ok'(1) l dis nf in \<open>simp_all add: PSE_NPAGES_def\<close>)
  then have "chunk_ok (psepool_del ?z c)" using ok' by (auto simp: chunk_ok_def)
  moreover have "{zbm_base z + c * zbm_cellsize z ..< zbm_base z + c * zbm_cellsize z + PSE_NPAGES}
      \<subseteq> free_pages z"
  proof
    fix pf assume "pf \<in> {zbm_base z + c * zbm_cellsize z ..<
        zbm_base z + c * zbm_cellsize z + PSE_NPAGES}"
    then obtain k where "k < PSE_NPAGES" "pf = zbm_base z + (c * zbm_cellsize z + k)"
      by (auto simp: le_iff_add)
    then show "pf \<in> free_pages z" using free_pages_take(1) [OF g c(1)] pc(3) by simp
  qed
  moreover have "free_pages ?z = free_pages z -
      {zbm_base z + c * zbm_cellsize z ..< zbm_base z + c * zbm_cellsize z + PSE_NPAGES}"
    using free_pages_fill [OF g c(1) pc(5), of "NOT 0" 0 "zbm_cellwidth z"] pc(1)
    by (simp add: algebra_simps)
  moreover have "\<exists>d. zbm_base z + c * zbm_cellsize z = zbm_base z + d * PSE_NPAGES \<and>
      (d + 1) * PSE_NPAGES \<le> zbm_size z"
    using pc(1,5) by (intro exI [of _ c]) simp
  ultimately show ?thesis using psealloc_take_eq [OF g co c] pc(1) by auto
qed

section \<open>Release\<close>

lemma free_pse_eq:
  assumes g: "geometry z" and cs: "zbm_cellsize z = PSE_NPAGES" and c: "c < zbm_ncell z"
  shows "free_pse z (zbm_base z + c * PSE_NPAGES) =
    psepool_add (fill_cell z c 0 PSE_NPAGES 0) c"
proof -
  have w: "zbm_cellwidth z = 32" "2 ^ zbm_cwshft z = (32::nat)"
    using cs g by (simp_all add: geometry_def PSE_NPAGES_def)
  have le: "c * 32 + 32 \<le> length (zbm_bitmap z)" using cell_words_le [OF g c] w by simp
  have mi: "c * 1024 div NBITPW = c * 32" by simp
  have "take (c * 32) (zbm_bitmap z) @ rzbm_clrnbits (drop (c * 32) (zbm_bitmap z)) 32 = fill_words z c 0"
    using le by (simp add: clrnbits_eq fill_words_def w add.commute)
  then show ?thesis
    by (simp add: free_pse_def fill_cell_def Let_def w cs PSE_NPAGES_def mi upd_def)
qed

lemma free_pse_chunk:
  assumes ok: "chunk_ok z" and cs: "zbm_cellsize z = PSE_NPAGES" and c: "c < zbm_ncell z"
    and pf: "pf = zbm_base z + c * PSE_NPAGES"
    and busy: "{pf ..< pf + PSE_NPAGES} \<subseteq> pages z" "{pf ..< pf + PSE_NPAGES} \<inter> free_pages z = {}"
  shows "chunk_ok (free_pse z pf) \<and> static (free_pse z pf) = static z \<and>
    free_pages (free_pse z pf) = free_pages z \<union> {pf ..< pf + PSE_NPAGES}"
proof -
  from ok obtain ps qs where g: "geometry z" and co: "cells_ok z" and po: "pools_ok z ps qs"
    by (auto simp: chunk_ok_def)
  have "pf + 1023 \<in> {pf ..< pf + PSE_NPAGES}" by (simp add: PSE_NPAGES_def)
  with busy(1) have "pf + 1023 \<in> pages z" by blast
  then have le: "(c + 1) * zbm_cellsize z \<le> zbm_size z"
    by (simp add: pages_def pf cs PSE_NPAGES_def)
  have "cell_free z c = {}"
  proof (rule ccontr)
    assume "cell_free z c \<noteq> {}"
    then obtain k where k: "k \<in> cell_free z c" by blast
    then have "pf + k \<in> free_pages z" using free_pages_take(1) [OF g c k] by (simp add: pf cs add.assoc)
    moreover have "pf + k \<in> {pf ..< pf + PSE_NPAGES}" using k cs by (simp add: cell_free_def)
    ultimately show False using busy(2) by blast
  qed
  then have n: "zbc_nfree (zbm_cell z ! c) = 0" using co c by (simp add: cells_ok_def)
  let ?z = "fill_cell z c 0 PSE_NPAGES 0"
  have ok': "geometry ?z" "cells_ok ?z"
    by (rule fill_cell_ok [OF g co c]; use le cs in simp)+
  have l: "c < length (zbm_cell z)" "c < length (zbm_cell ?z)" "c < zbm_ncell ?z"
    using g c by (simp_all add: geometry_def fill_cell_def)
  have nf: "zbc_nfree (zbm_cell ?z ! c) = PSE_NPAGES" using l by (simp add: fill_cell_def nth_upd)
  have po': "pools_but ?z c ps qs"
  proof (rule pools_but_keep [OF pools_ok_but [OF po]])
    show "zbm_cell ?z = upd (zbm_cell z) c (\<lambda>p. p\<lparr>zbc_nfree := PSE_NPAGES, zbc_cursor := 0\<rparr>)"
      by (simp add: fill_cell_def)
  qed (simp_all add: fill_cell_def static_def g)
  have dis: "c \<notin> set ps" "c \<notin> set qs" using po n by (auto simp: pools_ok_def PSE_NPAGES_def)
  have "pools_but (psepool_add ?z c) c ps (qs @ [c])"
    using po' psepool_add_at [of ?z ps qs c] ok'(1) dis l by (auto simp: pools_but_def geometry_def)
  then have "pools_ok (psepool_add ?z c) ps (qs @ [c])"
    by (rule pools_but_ok) (use ok'(1) l dis nf in \<open>simp_all add: PSE_NPAGES_def\<close>)
  moreover have "free_pages ?z = free_pages z \<union> {pf ..< pf + PSE_NPAGES}"
    using free_pages_fill [OF g c le, of 0 PSE_NPAGES 0] cs pf by (simp add: algebra_simps)
  ultimately show ?thesis
    using free_pse_eq [OF g cs c] ok' pf by (auto simp: chunk_ok_def)
qed

end
