(* ===== verification/RzbmList.thy ===== *)
theory RzbmList
  imports RzbmPse
begin

text \<open>
  The allocator as its callers see it. The abstract state is one set, \<open>avail\<close>, of the free page
  numbers of all chunks; \<open>rzbm_ok\<close> is the invariant of the list of chunks. Allocation removes a
  page (or 1024 of them) from the set, release puts it back, and allocation fails only when there is
  nothing to take.
\<close>

section \<open>Searches along the ring of chunks\<close>

lemma psealloc_scan_find:
  "chunks.seg heap xs \<Longrightarrow> xs \<noteq> [] \<Longrightarrow>
    psealloc_scan cg (length xs) (hd xs) heap =
      find (\<lambda>i. (zbm_home (heap ! i) = cg \<or> cg = CG_NONE) \<and> zbm_psepool (heap ! i) \<noteq> None) xs"
  by (induction heap xs rule: chunks.seg.induct) auto

definition broken_up :: "rzbm \<Rightarrow> rzbm" where
  "broken_up z = (if zbm_pool z \<noteq> None then z
    else case zbm_psepool z of Some c \<Rightarrow> pool_add (psepool_del z c) c | None \<Rightarrow> z)"

definition may_alloc :: "int \<Rightarrow> rzbm \<Rightarrow> bool" where
  "may_alloc cg z \<longleftrightarrow> (zbm_home z = cg \<or> cg = CG_NONE) \<and>
     \<not> (zbm_pool z = None \<and> zbm_psepool z = None)"

lemma alloc_scan_Suc:
  "alloc_scan cg (Suc n) zi heap =
    (if may_alloc cg (heap ! zi) then Some (zi, broken_up (heap ! zi))
     else alloc_scan cg n (zbm_flink (heap ! zi)) heap)"
  by (cases "zbm_pool (heap ! zi)"; cases "zbm_psepool (heap ! zi)")
    (simp_all add: Let_def broken_up_def may_alloc_def)

lemma alloc_scan_find:
  "chunks.seg heap xs \<Longrightarrow> xs \<noteq> [] \<Longrightarrow>
    alloc_scan cg (length xs) (hd xs) heap =
      map_option (\<lambda>i. (i, broken_up (heap ! i))) (find (\<lambda>i. may_alloc cg (heap ! i)) xs)"
proof (induction heap xs rule: chunks.seg.induct)
  case (2 heap a)
  then show ?case by (simp add: alloc_scan_Suc del: alloc_scan.simps(2))
next
  case (3 heap a b xs)
  then have "alloc_scan cg (length (a # b # xs)) (hd (a # b # xs)) heap =
      (if may_alloc cg (heap ! a) then Some (a, broken_up (heap ! a))
       else alloc_scan cg (length (b # xs)) (hd (b # xs)) heap)"
    using alloc_scan_Suc [of cg "length (b # xs)" a heap] by simp
  with 3 show ?case by (simp del: alloc_scan.simps(2))
qed simp

text \<open>A second search of all CPU groups follows a failed search of one.\<close>

lemma retry_all:
  "(case map_option h (F cg) of Some r \<Rightarrow> Some r
    | None \<Rightarrow> if cg \<noteq> CG_NONE then map_option h (F CG_NONE) else None) =
   map_option h (case F cg of Some i \<Rightarrow> Some i | None \<Rightarrow> F CG_NONE)"
  by (cases "cg = CG_NONE"; cases "F cg") (auto split: option.split)

lemma retry_all_id:
  "(case F cg of Some r \<Rightarrow> Some r | None \<Rightarrow> if cg \<noteq> CG_NONE then F CG_NONE else None) =
   (case F cg of Some i \<Rightarrow> Some i | None \<Rightarrow> F CG_NONE)"
  by (cases "cg = CG_NONE"; cases "F cg") auto

lemma free_scan_find:
  "chunks.seg heap xs \<Longrightarrow> xs \<noteq> [] \<Longrightarrow>
    free_scan pf (length xs) (hd xs) heap = find (\<lambda>i. pf \<in> pages (heap ! i)) xs"
  by (induction heap xs rule: chunks.seg.induct) (auto simp: pages_def)

lemma deinit_scan_find:
  "chunks.seg heap xs \<Longrightarrow> xs \<noteq> [] \<Longrightarrow>
    deinit_scan base npages (length xs) (hd xs) heap =
      find (\<lambda>i. base = zbm_base (heap ! i) \<and> npages = zbm_base (heap ! i)) xs"
  by (induction heap xs rule: chunks.seg.induct) auto

section \<open>The invariant\<close>

definition chunks_linked :: "rzbm_list \<Rightarrow> nat list \<Rightarrow> bool" where
  "chunks_linked st xs \<longleftrightarrow> chunks.ring_at (zbm_heap st) xs \<and> zbm_chunk st = head_of xs \<and>
     zbm_nchunk st = length xs \<and> set xs = {..<length (zbm_heap st)}"

definition rzbm_ok :: "rzbm_list \<Rightarrow> bool" where
  "rzbm_ok st \<longleftrightarrow> (\<exists>xs. chunks_linked st xs) \<and>
     (\<forall>i < length (zbm_heap st). chunk_ok (zbm_heap st ! i)) \<and>
     (\<forall>i < length (zbm_heap st). \<forall>j < length (zbm_heap st).
        i \<noteq> j \<longrightarrow> pages (zbm_heap st ! i) \<inter> pages (zbm_heap st ! j) = {})"

definition avail :: "rzbm_list \<Rightarrow> nat set" where
  "avail st = (\<Union>i < length (zbm_heap st). free_pages (zbm_heap st ! i))"

definition managed :: "rzbm_list \<Rightarrow> nat set" where
  "managed st = (\<Union>i < length (zbm_heap st). pages (zbm_heap st ! i))"

lemma linked_seg:
  assumes "chunks_linked st xs" "xs \<noteq> []"
  shows "chunks.seg (zbm_heap st) xs"
  using assms chunks.seg_butlast by (auto simp: chunks_linked_def chunks.ring_at_def)

lemma linked_head:
  assumes "chunks_linked st xs" "xs \<noteq> []"
  shows "zbm_chunk st = Some (hd xs)"
  using assms by (cases xs) (auto simp: chunks_linked_def)

lemma linked_update:
  assumes "chunks_linked st xs" "static z = static (zbm_heap st ! i)"
  shows "chunks_linked (st\<lparr>zbm_heap := (zbm_heap st)[i := z]\<rparr>) xs"
proof -
  have "chunks.ring_at ((zbm_heap st)[i := z]) xs"
  proof (rule chunks.ring_frame)
    show "chunks.ring_at (zbm_heap st) xs" using assms by (simp add: chunks_linked_def)
    fix a assume "a \<in> set xs"
    then show "zbm_flink ((zbm_heap st)[i := z] ! a) = zbm_flink (zbm_heap st ! a) \<and>
        zbm_blink ((zbm_heap st)[i := z] ! a) = zbm_blink (zbm_heap st ! a)"
      using assms static_fields(1,2) [OF assms(2)]
      by (cases "a = i") (auto simp: chunks_linked_def nth_list_update)
  qed simp
  with assms show ?thesis by (simp add: chunks_linked_def)
qed

text \<open>Replacing one chunk by another over the same pages.\<close>

lemma rzbm_ok_update:
  assumes ok: "rzbm_ok st" and i: "i < length (zbm_heap st)" and z: "chunk_ok z"
    and st: "static z = static (zbm_heap st ! i)"
  shows "rzbm_ok (st\<lparr>zbm_heap := (zbm_heap st)[i := z]\<rparr>)"
proof -
  have p: "pages z = pages (zbm_heap st ! i)" by (simp add: pages_def static_fields [OF st])
  from ok obtain xs where "chunks_linked st xs" by (auto simp: rzbm_ok_def)
  from linked_update [OF this st] have "\<exists>xs. chunks_linked (st\<lparr>zbm_heap := (zbm_heap st)[i := z]\<rparr>) xs" ..
  moreover have "pages ((zbm_heap st)[i := z] ! j) = pages (zbm_heap st ! j)"
    if "j < length (zbm_heap st)" for j
    using p that i by (cases "j = i") simp_all
  moreover have "chunk_ok ((zbm_heap st)[i := z] ! j)" if "j < length (zbm_heap st)" for j
    using ok z that i by (cases "j = i") (simp_all add: rzbm_ok_def)
  ultimately show ?thesis using ok by (simp add: rzbm_ok_def)
qed

lemma avail_update:
  assumes ok: "rzbm_ok st" and i: "i < length (zbm_heap st)"
    and fp: "free_pages z = free_pages (zbm_heap st ! i) - S" and S: "S \<subseteq> pages (zbm_heap st ! i)"
  shows "avail (st\<lparr>zbm_heap := (zbm_heap st)[i := z]\<rparr>) = avail st - S"
proof (rule set_eqI)
  fix p
  have dis: "p \<in> S \<Longrightarrow> j < length (zbm_heap st) \<Longrightarrow> j \<noteq> i \<Longrightarrow> p \<notin> free_pages (zbm_heap st ! j)" for j
    using ok S i free_pages_pages [of "zbm_heap st ! j"] unfolding rzbm_ok_def by blast
  show "p \<in> avail (st\<lparr>zbm_heap := (zbm_heap st)[i := z]\<rparr>) \<longleftrightarrow> p \<in> avail st - S"
    using fp i dis by (auto simp: avail_def nth_list_update split: if_splits)
qed

lemma avail_update_add:
  assumes i: "i < length (zbm_heap st)" and fp: "free_pages z = free_pages (zbm_heap st ! i) \<union> S"
  shows "avail (st\<lparr>zbm_heap := (zbm_heap st)[i := z]\<rparr>) = avail st \<union> S"
  using fp i by (auto simp: avail_def nth_list_update split: if_splits)

lemma managed_update:
  assumes "static z = static (zbm_heap st ! i)"
  shows "managed (st\<lparr>zbm_heap := (zbm_heap st)[i := z]\<rparr>) = managed st"
proof -
  have p: "pages z = pages (zbm_heap st ! i)" by (simp add: pages_def static_fields [OF assms])
  have "pages ((zbm_heap st)[i := z] ! j) = pages (zbm_heap st ! j)" if "j < length (zbm_heap st)" for j
    using p that by (cases "j = i") simp_all
  then show ?thesis by (simp add: managed_def)
qed

section \<open>4K pages\<close>

lemma find_SomeD: "find P xs = Some i \<Longrightarrow> i \<in> set xs \<and> P i"
  by (auto simp: find_Some_iff)

lemma alloc_find_cases:
  assumes ok: "rzbm_ok st"
  shows "(alloc_find cg st = None \<and> avail st = {}) \<or>
    (\<exists>i. alloc_find cg st = Some (i, broken_up (zbm_heap st ! i)) \<and> i < length (zbm_heap st) \<and>
       free_pages (zbm_heap st ! i) \<noteq> {})"
proof -
  from ok obtain xs where xs: "chunks_linked st xs" by (auto simp: rzbm_ok_def)
  have set: "set xs = {..<length (zbm_heap st)}" using xs by (simp add: chunks_linked_def)
  show ?thesis
  proof (cases "xs = []")
    case True
    with xs show ?thesis by (simp add: chunks_linked_def alloc_find_def avail_def)
  next
    case False
    let ?P = "\<lambda>cg i. may_alloc cg (zbm_heap st ! i)"
    have free: "\<not> (zbm_pool (zbm_heap st ! i) = None \<and> zbm_psepool (zbm_heap st ! i) = None)
        \<longleftrightarrow> free_pages (zbm_heap st ! i) \<noteq> {}" if "i < length (zbm_heap st)" for i
      using chunk_empty [of "zbm_heap st ! i"] ok that by (simp add: rzbm_ok_def)
    have scan: "alloc_scan cg (zbm_nchunk st) (hd xs) (zbm_heap st) =
        map_option (\<lambda>i. (i, broken_up (zbm_heap st ! i))) (find (?P cg) xs)" for cg
      using alloc_scan_find [OF linked_seg [OF xs False] False] xs by (simp add: chunks_linked_def)
    have find: "alloc_find cg st = map_option (\<lambda>i. (i, broken_up (zbm_heap st ! i)))
        (case find (?P cg) xs of Some i \<Rightarrow> Some i | None \<Rightarrow> find (?P CG_NONE) xs)"
      unfolding alloc_find_def linked_head [OF xs False] option.case scan by (rule retry_all)
    have none: "avail st = {}" if "find (?P CG_NONE) xs = None"
    proof -
      have "free_pages (zbm_heap st ! i) = {}" if i: "i < length (zbm_heap st)" for i
      proof -
        have "i \<in> set xs" using i set by simp
        then have "\<not> may_alloc CG_NONE (zbm_heap st ! i)"
          using \<open>find (?P CG_NONE) xs = None\<close> by (auto simp: find_None_iff)
        then show ?thesis using free [OF i] by (simp add: may_alloc_def)
      qed
      then show ?thesis by (simp add: avail_def)
    qed
    have some: "i < length (zbm_heap st) \<and> free_pages (zbm_heap st ! i) \<noteq> {}"
      if "find (?P cg) xs = Some i" for cg i
    proof -
      have i: "i < length (zbm_heap st)" and p: "may_alloc cg (zbm_heap st ! i)"
        using find_SomeD [OF that] set by auto
      from p have "\<not> (zbm_pool (zbm_heap st ! i) = None \<and> zbm_psepool (zbm_heap st ! i) = None)"
        unfolding may_alloc_def by blast
      with free [OF i] i show ?thesis by blast
    qed
    show ?thesis
    proof (cases "find (?P cg) xs")
      case (Some i)
      with find some [OF Some] show ?thesis by (simp only: option.case option.map) blast
    next
      case n: None
      show ?thesis
      proof (cases "find (?P CG_NONE) xs")
        case (Some i)
        with n find some [OF Some] show ?thesis by (simp only: option.case option.map) blast
      next
        case None
        with n find none [OF None] show ?thesis by (simp only: option.case option.map simp_thms) (blast | simp)?
      qed
    qed
  qed
qed

lemma broken_up_pools:
  assumes ok: "chunk_ok z" and fp: "free_pages z \<noteq> {}"
  shows "\<exists>c ps qs. zbm_pool (broken_up z) = Some c \<and> pools_but (broken_up z) c (c # ps) qs \<and>
    geometry (broken_up z) \<and> cells_ok (broken_up z) \<and> c < zbm_ncell z \<and>
    zbc_nfree (zbm_cell (broken_up z) ! c) \<noteq> 0 \<and> static (broken_up z) = static z \<and>
    free_pages (broken_up z) = free_pages z"
proof -
  from ok obtain ps qs where g: "geometry z" and co: "cells_ok z" and po: "pools_ok z ps qs"
    by (auto simp: chunk_ok_def)
  have heads: "zbm_pool z = head_of ps" "zbm_psepool z = head_of qs"
    using po by (simp_all add: pools_ok_def pools_at_def)
  show ?thesis
  proof (cases ps)
    case (Cons c ps')
    then have "c < zbm_ncell z" "zbc_nfree (zbm_cell z ! c) \<noteq> 0" using po by (auto simp: pools_ok_def)
    moreover have "broken_up z = z" using heads Cons by (simp add: broken_up_def)
    ultimately show ?thesis using g co pools_ok_but [OF po] heads Cons by auto
  next
    case Nil
    then obtain c qs' where qs: "qs = c # qs'"
      using fp chunk_empty [OF ok] heads by (cases qs) auto
    then have c: "c < zbm_ncell z" "zbc_nfree (zbm_cell z ! c) = PSE_NPAGES"
      using po by (auto simp: pools_ok_def)
    then have l: "c < length (zbm_cell z)" using g by (simp add: geometry_def)
    have eq: "broken_up z = pool_add (psepool_del z c) c"
      using heads Nil qs by (simp add: broken_up_def)
    have "c \<notin> set qs'" using po qs pools_at_distinct [of z ps qs] by (auto simp: pools_ok_def)
    then have "pools_but (pool_add (psepool_del z c) c) c [c] qs'"
      using pools_ok_but [OF po, of c] psepool_del_at [of z "[]" "[]" c qs']
        pool_add_at [of "psepool_del z c" "[]" qs' c] Nil qs l g
      by (auto simp: pools_but_def geometry_def)
    moreover from this have "zbm_pool (broken_up z) = Some c"
      by (simp add: eq pools_but_def pools_at_def)
    ultimately show ?thesis using c g co l by (auto simp: eq PSE_NPAGES_def)
  qed
qed

lemma alloc_4k:
  assumes ok: "rzbm_ok st" and sz: "pagesz \<noteq> PSE_PAGESIZE"
  shows "(rzbm_alloc st cg pagesz = None \<and> avail st = {}) \<or>
    (\<exists>st' pf. rzbm_alloc st cg pagesz = Some (st', pf) \<and> rzbm_ok st' \<and> pf \<in> avail st \<and>
       avail st' = avail st - {pf} \<and> managed st' = managed st)"
  using alloc_find_cases [OF ok, of cg]
proof (elim disjE exE conjE)
  assume "alloc_find cg st = None" "avail st = {}"
  then show ?thesis using sz by (simp add: rzbm_alloc_def)
next
  fix i assume i: "alloc_find cg st = Some (i, broken_up (zbm_heap st ! i))" "i < length (zbm_heap st)"
    "free_pages (zbm_heap st ! i) \<noteq> {}"
  let ?z = "zbm_heap st ! i"
  have cz: "chunk_ok ?z" using ok i(2) by (simp add: rzbm_ok_def)
  from broken_up_pools [OF cz i(3)] obtain c ps qs where b: "zbm_pool (broken_up ?z) = Some c"
    "pools_but (broken_up ?z) c (c # ps) qs" "geometry (broken_up ?z)" "cells_ok (broken_up ?z)"
    "c < zbm_ncell ?z" "zbc_nfree (zbm_cell (broken_up ?z) ! c) \<noteq> 0"
    "static (broken_up ?z) = static ?z" "free_pages (broken_up ?z) = free_pages ?z" by blast
  have "c < zbm_ncell (broken_up ?z)" using b(5) static_fields(6) [OF b(7)] by simp
  from alloc_take_chunk [OF b(3,4,2) this b(6)] b(7,8) obtain z' pf where
    t: "alloc_take (broken_up ?z) c = Some (z', pf)" "chunk_ok z'" "static z' = static ?z"
    "pf \<in> free_pages ?z" "free_pages z' = free_pages ?z - {pf}" by auto
  let ?st = "st\<lparr>zbm_heap := (zbm_heap st)[i := z']\<rparr>"
  have "rzbm_alloc st cg pagesz = Some (?st, pf)"
    using sz i(1) b(1) t(1) by (simp add: rzbm_alloc_def)
  moreover have "rzbm_ok ?st" by (rule rzbm_ok_update [OF ok i(2) t(2,3)])
  moreover have "avail ?st = avail st - {pf}"
    by (rule avail_update [OF ok i(2) t(5)]) (use t(4) free_pages_pages in auto)
  moreover have "pf \<in> avail st" using t(4) i(2) by (auto simp: avail_def)
  moreover have "managed ?st = managed st"
    by (rule managed_update [OF t(3)])
  ultimately show ?thesis by blast
qed

lemma find_chunk:
  assumes ok: "rzbm_ok st" and pf: "pf \<in> managed st"
  obtains i where "i < length (zbm_heap st)" "pf \<in> pages (zbm_heap st ! i)"
    "free_scan pf (zbm_nchunk st) (the (zbm_chunk st)) (zbm_heap st) = Some i" "zbm_chunk st \<noteq> None"
proof -
  from ok obtain xs where xs: "chunks_linked st xs" by (auto simp: rzbm_ok_def)
  have set: "set xs = {..<length (zbm_heap st)}" using xs by (simp add: chunks_linked_def)
  from pf obtain i where i: "i < length (zbm_heap st)" "pf \<in> pages (zbm_heap st ! i)"
    by (auto simp: managed_def)
  then have "i \<in> set xs" using set by simp
  then have ne: "xs \<noteq> []" by (cases xs) auto
  have scan: "free_scan pf (zbm_nchunk st) (the (zbm_chunk st)) (zbm_heap st) =
      find (\<lambda>i. pf \<in> pages (zbm_heap st ! i)) xs"
  proof -
    have "zbm_nchunk st = length xs" using xs by (simp add: chunks_linked_def)
    then show ?thesis
      using free_scan_find [OF linked_seg [OF xs ne] ne] by (simp add: linked_head [OF xs ne])
  qed
  have "find (\<lambda>i. pf \<in> pages (zbm_heap st ! i)) xs \<noteq> None"
    using i set by (auto simp: find_None_iff)
  then obtain j where "find (\<lambda>i. pf \<in> pages (zbm_heap st ! i)) xs = Some j" by blast
  moreover from find_SomeD [OF this] have "j \<in> set xs" "pf \<in> pages (zbm_heap st ! j)" by auto
  ultimately show thesis using that scan set linked_head [OF xs ne] by auto
qed

lemma free_4k:
  assumes ok: "rzbm_ok st" and pf: "pf \<in> managed st" "pf \<notin> avail st"
  shows "\<exists>st'. rzbm_free st pf PAGESIZE = Some st' \<and> rzbm_ok st' \<and> avail st' = insert pf (avail st)
    \<and> managed st' = managed st"
proof -
  from find_chunk [OF ok pf(1)] obtain i where i: "i < length (zbm_heap st)" "pf \<in> pages (zbm_heap st ! i)"
    "free_scan pf (zbm_nchunk st) (the (zbm_chunk st)) (zbm_heap st) = Some i" "zbm_chunk st \<noteq> None" .
  let ?z = "zbm_heap st ! i"
  have "pf \<notin> free_pages ?z" using pf(2) i(1) by (auto simp: avail_def)
  from free_page_chunk [OF _ i(2) this] ok i(1) have t: "chunk_ok (free_page ?z pf)"
    "static (free_page ?z pf) = static ?z" "free_pages (free_page ?z pf) = free_pages ?z \<union> {pf}"
    by (auto simp: rzbm_ok_def)
  let ?st = "st\<lparr>zbm_heap := (zbm_heap st)[i := free_page ?z pf]\<rparr>"
  have "rzbm_free st pf PAGESIZE = Some ?st" using i(3,4) by (auto simp: rzbm_free_def)
  moreover have "rzbm_ok ?st" by (rule rzbm_ok_update [OF ok i(1) t(1,2)])
  moreover have "avail ?st = avail st \<union> {pf}" by (rule avail_update_add [OF i(1) t(3)])
  moreover have "managed ?st = managed st"
    by (rule managed_update [OF t(2)])
  ultimately show ?thesis by auto
qed

section \<open>4M pages\<close>

text \<open>The 4M pages a chunk can hand out: its cells of 1024 pages, by their first page.\<close>

definition pse_frames :: "rzbm_list \<Rightarrow> nat set" where
  "pse_frames st = {zbm_base z + c * PSE_NPAGES | z c.
     z \<in> set (zbm_heap st) \<and> zbm_cellsize z = PSE_NPAGES \<and> (c + 1) * PSE_NPAGES \<le> zbm_size z}"

definition chunk_frames :: "rzbm \<Rightarrow> nat set" where
  "chunk_frames z = {zbm_base z + c * PSE_NPAGES | c. zbm_cellsize z = PSE_NPAGES \<and> (c + 1) * PSE_NPAGES \<le> zbm_size z}"

lemma pse_frames_union: "pse_frames st = (\<Union>j < length (zbm_heap st). chunk_frames (zbm_heap st ! j))"
  by (auto simp: pse_frames_def chunk_frames_def in_set_conv_nth)

text \<open>They are multiples of 4M.\<close>

lemma pse_frames_aligned:
  assumes "rzbm_ok st" "f \<in> pse_frames st"
  shows "f mod PSE_NPAGES = 0"
proof -
  from assms(2) obtain z c where z: "z \<in> set (zbm_heap st)" "zbm_cellsize z = PSE_NPAGES" "f = zbm_base z + c * PSE_NPAGES"
    unfolding pse_frames_def by blast
  then have "geometry z" using assms(1) by (auto simp: rzbm_ok_def chunk_ok_def in_set_conv_nth)
  then have "zbm_base z mod PSE_NPAGES = 0" using z(2) by (simp add: geometry_def)
  then show ?thesis unfolding z(3) by simp
qed

lemma psealloc_find_cases:
  assumes ok: "rzbm_ok st"
  shows "(psealloc_find cg st = None \<and> (\<forall>i < length (zbm_heap st). zbm_psepool (zbm_heap st ! i) = None)) \<or>
    (\<exists>i. psealloc_find cg st = Some i \<and> i < length (zbm_heap st) \<and>
       zbm_psepool (zbm_heap st ! i) \<noteq> None)"
proof -
  from ok obtain xs where xs: "chunks_linked st xs" by (auto simp: rzbm_ok_def)
  have set: "set xs = {..<length (zbm_heap st)}" using xs by (simp add: chunks_linked_def)
  show ?thesis
  proof (cases "xs = []")
    case True
    with set have "zbm_heap st = []" by (cases "zbm_heap st") auto
    with xs True show ?thesis by (simp add: chunks_linked_def psealloc_find_def)
  next
    case False
    let ?P = "\<lambda>cg i. (zbm_home (zbm_heap st ! i) = cg \<or> cg = CG_NONE) \<and>
      zbm_psepool (zbm_heap st ! i) \<noteq> None"
    have scan: "psealloc_scan cg (zbm_nchunk st) (hd xs) (zbm_heap st) = find (?P cg) xs" for cg
      using psealloc_scan_find [OF linked_seg [OF xs False] False] xs by (simp add: chunks_linked_def)
    have find: "psealloc_find cg st =
        (case find (?P cg) xs of Some i \<Rightarrow> Some i | None \<Rightarrow> find (?P CG_NONE) xs)"
      unfolding psealloc_find_def linked_head [OF xs False] option.case scan by (rule retry_all_id)
    have none: "find (?P CG_NONE) xs = None \<Longrightarrow>
        \<forall>i < length (zbm_heap st). zbm_psepool (zbm_heap st ! i) = None"
      using set by (auto simp: find_None_iff)
    have some: "find (?P cg) xs = Some i \<Longrightarrow> i < length (zbm_heap st) \<and>
        zbm_psepool (zbm_heap st ! i) \<noteq> None" for cg i
      using set by (auto dest!: find_SomeD)
    show ?thesis
    proof (cases "find (?P cg) xs")
      case (Some i)
      with find some [OF Some] show ?thesis by (simp only: option.case option.map) blast
    next
      case n: None
      show ?thesis
      proof (cases "find (?P CG_NONE) xs")
        case (Some i)
        with n find some [OF Some] show ?thesis by (simp only: option.case option.map) blast
      next
        case None
        with n find none [OF None] show ?thesis by (simp only: option.case option.map simp_thms) (blast | simp)?
      qed
    qed
  qed
qed

lemma pse_frame_chunk:
  assumes ok: "rzbm_ok st" and f: "f \<in> pse_frames st"
  obtains i c where "i < length (zbm_heap st)" "f = zbm_base (zbm_heap st ! i) + c * PSE_NPAGES"
    "zbm_cellsize (zbm_heap st ! i) = PSE_NPAGES" "c < zbm_ncell (zbm_heap st ! i)"
    "{f ..< f + PSE_NPAGES} \<subseteq> pages (zbm_heap st ! i)"
proof -
  from f obtain i c where i: "i < length (zbm_heap st)" "f = zbm_base (zbm_heap st ! i) + c * PSE_NPAGES"
    "zbm_cellsize (zbm_heap st ! i) = PSE_NPAGES" "(c + 1) * PSE_NPAGES \<le> zbm_size (zbm_heap st ! i)"
    by (auto simp: pse_frames_def in_set_conv_nth)
  let ?z = "zbm_heap st ! i"
  have g: "geometry ?z" using ok i(1) by (simp add: rzbm_ok_def chunk_ok_def)
  have "c * PSE_NPAGES < zbm_size ?z" using i(4) by (simp add: PSE_NPAGES_def)
  from cell_of_bit(1) [OF g size_bits [OF g this]] have "c < zbm_ncell ?z"
    using i(3) by (simp add: PSE_NPAGES_def)
  moreover have "{f ..< f + PSE_NPAGES} \<subseteq> pages ?z" using i(2,4) by (auto simp: pages_def)
  ultimately show thesis using that [OF i(1-3)] by blast
qed

lemma frame_pages_of:
  assumes ok: "rzbm_ok st" and i: "i < length (zbm_heap st)" and p: "p \<in> pages (zbm_heap st ! i)"
  shows "p \<in> avail st \<longleftrightarrow> p \<in> free_pages (zbm_heap st ! i)"
proof
  assume "p \<in> avail st"
  then obtain j where j: "j < length (zbm_heap st)" "p \<in> free_pages (zbm_heap st ! j)"
    by (auto simp: avail_def)
  then have "p \<in> pages (zbm_heap st ! j)" using free_pages_pages by blast
  with ok i p j(1) have "j = i" unfolding rzbm_ok_def by blast
  with j show "p \<in> free_pages (zbm_heap st ! i)" by simp
qed (use i in \<open>auto simp: avail_def\<close>)

lemma pse_frame_free:
  assumes ok: "rzbm_ok st" and np: "\<forall>i < length (zbm_heap st). zbm_psepool (zbm_heap st ! i) = None"
    and f: "f \<in> pse_frames st"
  shows "\<not> {f ..< f + PSE_NPAGES} \<subseteq> avail st"
proof
  assume sub: "{f ..< f + PSE_NPAGES} \<subseteq> avail st"
  from pse_frame_chunk [OF ok f] obtain i c where
    i: "i < length (zbm_heap st)" "f = zbm_base (zbm_heap st ! i) + c * PSE_NPAGES"
    "zbm_cellsize (zbm_heap st ! i) = PSE_NPAGES" "c < zbm_ncell (zbm_heap st ! i)"
    "{f ..< f + PSE_NPAGES} \<subseteq> pages (zbm_heap st ! i)" .
  let ?z = "zbm_heap st ! i"
  from ok i(1) obtain ps qs where g: "geometry ?z" "cells_ok ?z" "pools_ok ?z ps qs"
    by (auto simp: rzbm_ok_def chunk_ok_def)
  have "qs = []" using np i(1) g(3) by (auto simp: pools_ok_def pools_at_def)
  then have nf: "zbc_nfree (zbm_cell ?z ! c) \<noteq> PSE_NPAGES" using g(3) i(4) by (auto simp: pools_ok_def)
  have "k \<in> cell_free ?z c" if k: "k < PSE_NPAGES" for k
  proof -
    have m: "f + k \<in> {f ..< f + PSE_NPAGES}" using k by simp
    with sub have "f + k \<in> avail st" by blast
    then have "f + k \<in> free_pages ?z" using frame_pages_of [OF ok i(1)] m i(5) by blast
    then have "zbm_base ?z + (c * PSE_NPAGES + k) \<in> free_pages ?z" using i(2) by (simp add: add.assoc)
    then show ?thesis using k i(3) by (simp add: free_pages_iff cell_free_def)
  qed
  then have "{..<PSE_NPAGES} \<subseteq> cell_free ?z c" by blast
  from card_mono [OF finite_cell_free this] have "PSE_NPAGES \<le> card (cell_free ?z c)" by simp
  with nfree_le [OF g(1), of c] g(2) i(4) nf show False by (simp add: cells_ok_def)
qed

lemma alloc_4m:
  assumes ok: "rzbm_ok st"
  shows "(rzbm_psealloc st cg = Some (st, 0) \<and>
      (\<forall>f \<in> pse_frames st. \<not> {f ..< f + PSE_NPAGES} \<subseteq> avail st)) \<or>
    (\<exists>st' pf. rzbm_psealloc st cg = Some (st', pf) \<and> rzbm_ok st' \<and>
       {pf ..< pf + PSE_NPAGES} \<subseteq> avail st \<and> avail st' = avail st - {pf ..< pf + PSE_NPAGES} \<and>
       managed st' = managed st \<and> pf \<in> pse_frames st)"
  using psealloc_find_cases [OF ok, of cg]
proof (elim disjE exE conjE)
  assume "psealloc_find cg st = None" "\<forall>i < length (zbm_heap st). zbm_psepool (zbm_heap st ! i) = None"
  then show ?thesis using pse_frame_free [OF ok] by (simp add: rzbm_psealloc_def)
next
  fix i assume i: "psealloc_find cg st = Some i" "i < length (zbm_heap st)"
    "zbm_psepool (zbm_heap st ! i) \<noteq> None"
  let ?z = "zbm_heap st ! i"
  have cz: "chunk_ok ?z" using ok i(2) by (simp add: rzbm_ok_def)
  from i(3) obtain c where c: "zbm_psepool ?z = Some c" by blast
  from psealloc_chunk [OF cz c] obtain z' pf where
    t: "psealloc_take ?z c = Some (z', pf)" "chunk_ok z'" "static z' = static ?z"
    "{pf ..< pf + PSE_NPAGES} \<subseteq> free_pages ?z"
    "free_pages z' = free_pages ?z - {pf ..< pf + PSE_NPAGES}"
    "zbm_cellsize ?z = PSE_NPAGES"
    "\<exists>d. pf = zbm_base ?z + d * PSE_NPAGES \<and> (d + 1) * PSE_NPAGES \<le> zbm_size ?z" by blast
  have "?z \<in> set (zbm_heap st)" using i(2) by simp
  with t(6,7) have "pf \<in> pse_frames st" unfolding pse_frames_def by blast
  let ?st = "st\<lparr>zbm_heap := (zbm_heap st)[i := z']\<rparr>"
  have "rzbm_psealloc st cg = Some (?st, pf)" using i(1) c t(1) by (simp add: rzbm_psealloc_def)
  moreover have "rzbm_ok ?st" by (rule rzbm_ok_update [OF ok i(2) t(2,3)])
  moreover have "avail ?st = avail st - {pf ..< pf + PSE_NPAGES}"
    by (rule avail_update [OF ok i(2) t(5)]) (use t(4) free_pages_pages in blast)
  moreover have "{pf ..< pf + PSE_NPAGES} \<subseteq> avail st" using t(4) i(2) by (auto simp: avail_def)
  moreover have "managed ?st = managed st"
    by (rule managed_update [OF t(3)])
  ultimately show ?thesis using \<open>pf \<in> pse_frames st\<close> by blast
qed

lemma free_4m:
  assumes ok: "rzbm_ok st" and pf: "pf \<in> pse_frames st" "{pf ..< pf + PSE_NPAGES} \<inter> avail st = {}"
  shows "\<exists>st'. rzbm_free st pf PSE_PAGESIZE = Some st' \<and> rzbm_ok st' \<and>
    avail st' = avail st \<union> {pf ..< pf + PSE_NPAGES} \<and> managed st' = managed st"
proof -
  from pse_frame_chunk [OF ok pf(1)] obtain j c where
    j: "j < length (zbm_heap st)" "pf = zbm_base (zbm_heap st ! j) + c * PSE_NPAGES"
    "zbm_cellsize (zbm_heap st ! j) = PSE_NPAGES" "c < zbm_ncell (zbm_heap st ! j)"
    "{pf ..< pf + PSE_NPAGES} \<subseteq> pages (zbm_heap st ! j)" .
  have "pf \<in> {pf ..< pf + PSE_NPAGES}" by (simp add: PSE_NPAGES_def)
  with j(5) have pj: "pf \<in> pages (zbm_heap st ! j)" by blast
  with j(1) have "pf \<in> managed st" by (auto simp: managed_def)
  from find_chunk [OF ok this] obtain i where i: "i < length (zbm_heap st)" "pf \<in> pages (zbm_heap st ! i)"
    "free_scan pf (zbm_nchunk st) (the (zbm_chunk st)) (zbm_heap st) = Some i" "zbm_chunk st \<noteq> None" .
  have ij: "i = j" using ok i(1,2) j(1) pj unfolding rzbm_ok_def by blast
  let ?z = "zbm_heap st ! j"
  have cz: "chunk_ok ?z" using ok j(1) by (simp add: rzbm_ok_def)
  have "{pf ..< pf + PSE_NPAGES} \<inter> free_pages ?z = {}" using pf(2) j(1) by (auto simp: avail_def)
  from free_pse_chunk [OF cz j(3,4,2,5) this] have t: "chunk_ok (free_pse ?z pf)"
    "static (free_pse ?z pf) = static ?z"
    "free_pages (free_pse ?z pf) = free_pages ?z \<union> {pf ..< pf + PSE_NPAGES}" by auto
  let ?st = "st\<lparr>zbm_heap := (zbm_heap st)[j := free_pse ?z pf]\<rparr>"
  have "rzbm_free st pf PSE_PAGESIZE = Some ?st"
    using i(3,4) ij by (auto simp: rzbm_free_def PAGESIZE_def PSE_PAGESIZE_def)
  moreover have "rzbm_ok ?st" by (rule rzbm_ok_update [OF ok j(1) t(1,2)])
  moreover have "avail ?st = avail st \<union> {pf ..< pf + PSE_NPAGES}" by (rule avail_update_add [OF j(1) t(3)])
  moreover have "managed ?st = managed st"
    by (rule managed_update [OF t(2)])
  ultimately show ?thesis by blast
qed

text \<open>The set of 4M pages is fixed.\<close>

lemma psealloc_frames:
  assumes ok: "rzbm_ok st" and a: "rzbm_psealloc st cg = Some (st', pf)"
  shows "pse_frames st' = pse_frames st"
proof (cases "psealloc_find cg st")
  case None
  with a show ?thesis by (simp add: rzbm_psealloc_def)
next
  case (Some i)
  then have i: "i < length (zbm_heap st)" "zbm_psepool (zbm_heap st ! i) \<noteq> None"
    using psealloc_find_cases [OF ok, of cg] by auto
  let ?z = "zbm_heap st ! i"
  from i(2) obtain c where c: "zbm_psepool ?z = Some c" by blast
  have cz: "chunk_ok ?z" using ok i(1) by (simp add: rzbm_ok_def)
  from psealloc_chunk [OF cz c] obtain z' pf' where
    t: "psealloc_take ?z c = Some (z', pf')" "static z' = static ?z" by blast
  have st': "st' = st\<lparr>zbm_heap := (zbm_heap st)[i := z']\<rparr>"
    using a Some c t(1) by (simp add: rzbm_psealloc_def)
  note sf = static_fields [OF t(2)]
  have heap: "zbm_base (zbm_heap st' ! j) = zbm_base (zbm_heap st ! j)"
    "zbm_size (zbm_heap st' ! j) = zbm_size (zbm_heap st ! j)"
    "zbm_cellsize (zbm_heap st' ! j) = zbm_cellsize (zbm_heap st ! j)" if "j < length (zbm_heap st)" for j
    using that sf by (cases "j = i"; simp add: st')+
  have len: "length (zbm_heap st') = length (zbm_heap st)" by (simp add: st')
  show ?thesis
    unfolding pse_frames_union len
  proof (rule SUP_cong)
    fix j assume "j \<in> {..<length (zbm_heap st)}"
    then show "chunk_frames (zbm_heap st' ! j) = chunk_frames (zbm_heap st ! j)"
      using heap [of j] by (simp add: chunk_frames_def)
  qed simp
qed

end
