(* ===== verification/RzbmInit.thy ===== *)
theory RzbmInit
  imports RzbmList
begin

text \<open>
  The initialisation of chunks: a fresh chunk satisfies \<open>chunk_ok\<close> with every page free, and the
  carving of a range by \<open>rzbm_init_chunk\<close> covers the range exactly.
\<close>

section \<open>Sizes\<close>

lemma double_up_32: "c \<le> 63 \<Longrightarrow> double_up 32 c \<in> {32, 64} \<and> (double_up 32 c = 64 \<longrightarrow> 32 < c)"
  by (cases "c \<le> 32") (simp_all add: double_up.simps [of 32 c] double_up.simps [of 64 c])

lemma cell_size_cases:
  "rzbm_cell_size n = (if 1024 \<le> n then 1024 else 32)"
proof (cases "1024 \<le> n")
  case True
  then show ?thesis by (simp add: rzbm_cell_size_def rzbm_consts)
next
  case False
  then have "n div 1024 = 0" "n div 16 \<le> 63" by auto
  with False double_up_32 [of "n div 16"] show ?thesis
    by (auto simp: rzbm_cell_size_def rzbm_consts Let_def)
qed

lemma shift_of_values: "shift_of 1 1 0 = 0" "shift_of 1 32 0 = 5"
  by (simp_all add: shift_of.simps)

section \<open>The loops of the initialisation\<close>

lemma static_upd:
  "static (z\<lparr>zbm_cell := cs\<rparr>) = static z" "static (z\<lparr>zbm_bitmap := b\<rparr>) = static z"
  by (simp_all add: static_def)

text \<open>After \<open>i\<close> rounds of the first loop: the cells below \<open>i\<close> are on the 4K pool, with all pages free.\<close>

definition filled :: "rzbm \<Rightarrow> rzbm \<Rightarrow> nat \<Rightarrow> bool" where
  "filled z0 z i \<longleftrightarrow> static z = static z0 \<and> zbm_bitmap z = zbm_bitmap z0 \<and>
     length (zbm_cell z) = length (zbm_cell z0) \<and> pools_at z [0..<i] [] \<and>
     (\<forall>c < length (zbm_cell z0). zbc_cursor (zbm_cell z ! c) = zbc_cursor (zbm_cell z0 ! c)) \<and>
     (\<forall>c < i. zbc_nfree (zbm_cell z ! c) = zbm_cellsize z0 mod 65536)"

lemma init_cell_step:
  assumes f: "filled z0 z i" and i: "i < length (zbm_cell z0)"
  shows "filled z0 (init_cell i z) (Suc i)"
proof -
  let ?z = "z\<lparr>zbm_cell := upd (zbm_cell z) i (\<lambda>c. c\<lparr>zbc_nfree := zbm_cellsize z mod 65536,
    zbc_flink := i, zbc_blink := i\<rparr>)\<rparr>"
  have st: "static z = static z0" and l: "length (zbm_cell z) = length (zbm_cell z0)"
    and po: "pools_at z [0..<i] []" using f by (simp_all add: filled_def)
  have cs: "zbm_cellsize z = zbm_cellsize z0" by (rule static_fields(11) [OF st])
  have "cells.ring_at (zbm_cell ?z) [0..<i]"
    by (rule ring_at_frame [of "zbm_cell z" _ _ "{i}"])
      (use po in \<open>auto simp: pools_at_def nth_upd\<close>)
  then have "pools_at ?z [0..<i] []" using po by (simp add: pools_at_def cells.ring_at_def)
  then have "pools_at (init_cell i z) ([0..<i] @ [i]) []"
    unfolding init_cell_def by (rule pool_add_at) (use i l in simp_all)
  moreover have "static (init_cell i z) = static z0" by (simp add: init_cell_def static_upd st)
  moreover have "zbm_bitmap (init_cell i z) = zbm_bitmap z0"
    using f by (simp add: init_cell_def filled_def)
  moreover have "length (zbm_cell (init_cell i z)) = length (zbm_cell z0)" by (simp add: init_cell_def l)
  moreover have "zbc_cursor (zbm_cell (init_cell i z) ! c) = zbc_cursor (zbm_cell z0 ! c)"
    if "c < length (zbm_cell z0)" for c
    using that f l by (simp add: init_cell_def nth_upd filled_def)
  moreover have "zbc_nfree (zbm_cell (init_cell i z) ! c) = zbm_cellsize z0 mod 65536"
    if "c < Suc i" for c
    using that f l i cs by (auto simp: init_cell_def nth_upd filled_def less_Suc_eq)
  ultimately show ?thesis by (simp add: filled_def)
qed

lemma init_cells:
  assumes "zbm_pool z0 = None" "zbm_psepool z0 = None" "n \<le> length (zbm_cell z0)"
  shows "filled z0 (fold init_cell [0..<n] z0) n"
  using assms(3)
proof (induction n)
  case 0
  with assms show ?case by (simp add: filled_def pools_at_def cells.ring_at_def)
next
  case (Suc n)
  then show ?case using init_cell_step [of z0 _ n] by simp
qed

text \<open>The second loop does nothing to small cells, and moves every 4M cell to the other pool.\<close>

lemma init_pse_small:
  assumes "\<forall>c < n. zbc_nfree (zbm_cell z ! c) \<noteq> PSE_NPAGES"
  shows "fold init_pse [0..<n] z = z"
  using assms
proof (induction n)
  case (Suc n)
  then show ?case by (simp add: init_pse_def)
qed simp

definition moved :: "rzbm \<Rightarrow> rzbm \<Rightarrow> nat \<Rightarrow> bool" where
  "moved z0 z i \<longleftrightarrow> static z = static z0 \<and> zbm_bitmap z = zbm_bitmap z0 \<and>
     length (zbm_cell z) = length (zbm_cell z0) \<and>
     pools_at z [i..<length (zbm_cell z0)] [0..<i] \<and>
     (\<forall>c < length (zbm_cell z0). zbc_cursor (zbm_cell z ! c) = zbc_cursor (zbm_cell z0 ! c) \<and>
       zbc_nfree (zbm_cell z ! c) = zbc_nfree (zbm_cell z0 ! c))"

lemma init_pse_step:
  assumes m: "moved z0 z i" and i: "i < length (zbm_cell z0)"
    and n: "zbc_nfree (zbm_cell z0 ! i) = PSE_NPAGES"
  shows "moved z0 (init_pse i z) (Suc i)"
proof -
  let ?n = "length (zbm_cell z0)"
  have l: "length (zbm_cell z) = ?n" using m by (simp add: moved_def)
  have eq: "init_pse i z = psepool_add (pool_del z i) i" using m i n by (simp add: init_pse_def moved_def)
  have "[i..<?n] = [] @ i # [Suc i..<?n]" using i by (simp add: upt_conv_Cons)
  then have "pools_at (pool_del z i) [Suc i..<?n] [0..<i]"
    using m pool_del_at [of z "[]" i "[Suc i..<?n]" "[0..<i]"] by (simp add: moved_def)
  then have "pools_at (init_pse i z) [Suc i..<?n] ([0..<i] @ [i])"
    unfolding eq by (rule psepool_add_at) (use i l in simp_all)
  with m l show ?thesis by (simp add: moved_def eq)
qed

lemma init_pses:
  assumes "pools_at z0 [0..<length (zbm_cell z0)] []" "n \<le> length (zbm_cell z0)"
    "\<forall>c < length (zbm_cell z0). zbc_nfree (zbm_cell z0 ! c) = PSE_NPAGES"
  shows "moved z0 (fold init_pse [0..<n] z0) n"
  using assms(2)
proof (induction n)
  case 0
  with assms show ?case by (simp add: moved_def)
next
  case (Suc n)
  then show ?case using init_pse_step [of z0 _ n] assms(3) by simp
qed

section \<open>A fresh chunk\<close>

lemma TEST1_zero: "b < NBITPW * n \<Longrightarrow> \<not> BITMASKN_TEST1 (replicate n 0) b"
  by (simp add: BITMASKN_TEST1_def word_index_bound)

lemma cells_ok_clear:
  assumes "\<forall>c < zbm_ncell z. cell_free z c = {..<zbm_cellsize z}"
    and "\<forall>c < zbm_ncell z. zbc_nfree (zbm_cell z ! c) = zbm_cellsize z \<and> zbc_cursor (zbm_cell z ! c) = 0"
  shows "cells_ok z"
  using assms by (simp add: cells_ok_def)

definition fresh_chunk :: "rzbm \<Rightarrow> nat \<Rightarrow> nat \<Rightarrow> int \<Rightarrow> nat \<Rightarrow> rzbm \<Rightarrow> bool" where
  "fresh_chunk z0 base npages cg cs z \<longleftrightarrow> chunk_ok z \<and> zbm_cellsize z = cs \<and> zbm_base z = base \<and> zbm_size z = npages \<and>
     zbm_home z = cg \<and> zbm_mapsize z = npages \<and> free_pages z = {base ..< base + npages} \<and>
     zbm_flink z = zbm_flink z0 \<and> zbm_blink z = zbm_blink z0"

lemma free_pages_all:
  assumes "\<forall>b < zbm_size z. \<not> BITMASKN_TEST1 (zbm_bitmap z) b"
  shows "free_pages z = {zbm_base z ..< zbm_base z + zbm_size z}"
  using assms by (auto simp: free_pages_def le_iff_add)

text \<open>The chunk after the first loop and the clearing of the map, for the two cell sizes.\<close>

lemma init_prefix:
  fixes base npages ncells nwords :: nat and cg :: int
  assumes z0: "zbm_pool z0 = None" "zbm_psepool z0 = None" "zbm_cwshft z0 = 0" "zbm_unavail z0 = 0"
      "zbm_cell z0 = replicate ncells zero_cell" "zbm_bitmap z0 = replicate nwords 0"
    and cw: "cellsize = NBITPW * cw" "cw = 1 \<or> cw = 32"
  defines "z1 \<equiv> init_fields base npages cg cellsize ncells nwords z0"
  defines "z2 \<equiv> fold init_cell [0..<zbm_ncell z1] z1"
  defines "z3 \<equiv> z2\<lparr>zbm_bitmap := BITMASKN_CLRALL (zbm_bitmap z2) (zbm_mapwidth z2)\<rparr>"
  shows "static z3 = static z1" "zbm_bitmap z3 = replicate nwords 0" "length (zbm_cell z3) = ncells"
    "pools_at z3 [0..<ncells] []"
    "\<forall>c < ncells. zbc_cursor (zbm_cell z3 ! c) = 0 \<and> zbc_nfree (zbm_cell z3 ! c) = cellsize"
    "zbm_ncell z1 = ncells" "zbm_cellwidth z1 = cw" "2 ^ zbm_cwshft z1 = cw" "zbm_cwshft z1 \<le> 5"
    "zbm_ncell z3 = ncells"
proof -
  have cw': "cellsize div NBITPW = cw" using cw by simp
  have f: "zbm_ncell z1 = ncells" "zbm_cellwidth z1 = cw" "zbm_mapwidth z1 = nwords"
    "zbm_cellsize z1 = cellsize" "zbm_pool z1 = None" "zbm_psepool z1 = None"
    "zbm_cell z1 = replicate ncells zero_cell" "zbm_bitmap z1 = replicate nwords 0"
    using z0 cw' by (simp_all add: z1_def init_fields_def Let_def)
  show "zbm_ncell z1 = ncells" "zbm_cellwidth z1 = cw" by (fact f)+
  have sh: "zbm_cwshft z1 = shift_of 1 cw 0" using z0 cw' by (simp add: z1_def init_fields_def Let_def)
  show "2 ^ zbm_cwshft z1 = cw" "zbm_cwshft z1 \<le> 5" using cw(2) shift_of_values unfolding sh by auto
  have fl: "filled z1 z2 ncells"
    unfolding z2_def f(1) by (rule init_cells) (simp_all add: f)
  then have s2: "static z2 = static z1" by (simp add: filled_def)
  then show "static z3 = static z1" by (simp add: z3_def static_upd)
  show "zbm_ncell z3 = ncells" using static_fields(6) [OF s2] by (simp add: z3_def f)
  show "zbm_bitmap z3 = replicate nwords 0"
    using fl static_fields(8) [OF s2] f by (simp add: z3_def filled_def BITMASKN_CLRALL_def)
  show "length (zbm_cell z3) = ncells" using fl f by (simp add: z3_def filled_def)
  show "pools_at z3 [0..<ncells] []" using fl by (simp add: z3_def filled_def pools_at_def)
  have "cellsize < 65536" using cw by auto
  then show "\<forall>c < ncells. zbc_cursor (zbm_cell z3 ! c) = 0 \<and> zbc_nfree (zbm_cell z3 ! c) = cellsize"
    using fl f by (simp add: z3_def filled_def zero_cell_def)
qed

lemma init_body_large:
  assumes z0: "zbm_pool z0 = None" "zbm_psepool z0 = None" "zbm_cwshft z0 = 0" "zbm_unavail z0 = 0"
      "zbm_cell z0 = replicate ncells zero_cell" "zbm_bitmap z0 = replicate nwords 0"
    and n: "npages = 1024 * ncells" "nwords = 32 * ncells" and al: "base mod 1024 = 0"
  shows "\<exists>z. init_chunk_body base npages cg 1024 ncells nwords 0 z0 = Some z \<and>
    fresh_chunk z0 base npages cg 1024 z"
proof -
  define z1 where "z1 = init_fields base npages cg 1024 ncells nwords z0"
  define z3 where "z3 = (let z = fold init_cell [0..<zbm_ncell z1] z1
    in z\<lparr>zbm_bitmap := BITMASKN_CLRALL (zbm_bitmap z) (zbm_mapwidth z)\<rparr>)"
  note p = init_prefix [OF z0, of 1024 32 base npages cg, folded z1_def, folded z3_def [unfolded Let_def], simplified]
  note s3 = static_fields [OF p(1)]
  have f: "zbm_cellsize z1 = 1024" "zbm_base z1 = base" "zbm_size z1 = npages" "zbm_home z1 = cg"
    "zbm_mapsize z1 = npages" "zbm_mapwidth z1 = nwords" "zbm_cellmask z1 = 31"
    "zbm_unavail z1 = 0" "zbm_flink z1 = zbm_flink z0" "zbm_blink z1 = zbm_blink z0"
    using z0 by (simp_all add: z1_def init_fields_def Let_def)
  define z where "z = fold init_pse [0..<ncells] z3"
  have mv: "moved z3 z ncells"
    unfolding z_def by (rule init_pses) (use p in \<open>simp_all add: PSE_NPAGES_def\<close>)
  then have st: "static z = static z1" using p(1) by (simp add: moved_def)
  note s = static_fields [OF st]
  have bm: "zbm_bitmap z = replicate nwords 0" "length (zbm_cell z) = ncells" "pools_at z [] [0..<ncells]"
    and c: "\<forall>c < ncells. zbc_cursor (zbm_cell z ! c) = 0 \<and> zbc_nfree (zbm_cell z ! c) = 1024"
    using mv p by (simp_all add: moved_def)
  have "geometry z" using p n z0 al by (auto simp: geometry_def s f bm PSE_NPAGES_def)
  moreover have "cells_ok z"
  proof (rule cells_ok_clear)
    show "\<forall>c < zbm_ncell z. cell_free z c = {..<zbm_cellsize z}"
      using TEST1_zero [of _ nwords] n p(6) by (auto simp: cell_free_def s f bm)
  qed (use c p in \<open>simp add: s f\<close>)
  moreover have "pools_ok z [] [0..<ncells]"
    using bm c p by (auto simp: pools_ok_def s PSE_NPAGES_def)
  moreover have "free_pages z = {base ..< base + npages}"
    using free_pages_all [of z] TEST1_zero [of _ nwords] n by (simp add: s f bm)
  moreover have "init_chunk_body base npages cg 1024 ncells nwords 0 z0 = Some z"
    using p(10) by (simp add: init_chunk_body_def Let_def init_last_def z_def z3_def z1_def)
  ultimately show ?thesis by (auto simp: fresh_chunk_def chunk_ok_def s f)
qed

lemma init_body_small:
  assumes z0: "zbm_pool z0 = None" "zbm_psepool z0 = None" "zbm_cwshft z0 = 0" "zbm_unavail z0 = 0"
      "zbm_cell z0 = replicate ncells zero_cell" "zbm_bitmap z0 = replicate ncells 0"
    and n: "npages + (if rem = 0 then 0 else 32 - rem) = 32 * ncells" "rem < 32" "0 < npages"
  shows "\<exists>z. init_chunk_body base npages cg 32 ncells ncells rem z0 = Some z \<and>
    fresh_chunk z0 base npages cg 32 z"
proof -
  define z1 where "z1 = init_fields base npages cg 32 ncells ncells z0"
  define z3 where "z3 = (let z = fold init_cell [0..<zbm_ncell z1] z1
    in z\<lparr>zbm_bitmap := BITMASKN_CLRALL (zbm_bitmap z) (zbm_mapwidth z)\<rparr>)"
  note p = init_prefix [OF z0, of 32 1 base npages cg, folded z1_def, folded z3_def [unfolded Let_def], simplified]
  note s3 = static_fields [OF p(1)]
  have f: "zbm_cellsize z1 = 32" "zbm_base z1 = base" "zbm_size z1 = npages" "zbm_home z1 = cg"
    "zbm_mapsize z1 = npages" "zbm_mapwidth z1 = ncells" "zbm_cellmask z1 = 0"
    "zbm_unavail z1 = 0" "zbm_flink z1 = zbm_flink z0" "zbm_blink z1 = zbm_blink z0"
    using z0 by (simp_all add: z1_def init_fields_def Let_def)
  have nc: "0 < ncells" using n by (cases "rem = 0") auto
  define z4 where "z4 = (if rem = 0 then z3 else z3\<lparr>
      zbm_cell := upd (zbm_cell z3) (ncells - 1) (zbc_nfree_update (\<lambda>_. rem)),
      zbm_bitmap := upd (replicate ncells 0) (ncells - 1)
        (\<lambda>w. fold (\<lambda>i w. BITMASK1_SET1 w i) [rem..<NBITPW] w),
      zbm_unavail := 32 - rem\<rparr>)"
  have last: "init_last rem z3 = Some z4"
  proof (cases "rem = 0")
    case False
    have "[0..<ncells] \<noteq> []" "hd [0..<ncells] = 0" using nc by simp_all
    then have "zbm_pool z3 = Some 0" "zbc_blink (zbm_cell z3 ! 0) = ncells - 1"
      using p(4) nc cells.ring_blink_hd [of "zbm_cell z3" "[0..<ncells]"]
      by (simp_all add: pools_at_def head_of_Some)
    with False n(2) p(2,8) show ?thesis
      by (simp add: init_last_def z4_def Let_def s3)
  qed (simp add: init_last_def z4_def)
  have nf4: "zbc_nfree (zbm_cell z4 ! c) = (if rem \<noteq> 0 \<and> c = ncells - 1 then rem else 32)"
    "zbc_cursor (zbm_cell z4 ! c) = 0" if "c < ncells" for c
    using that p(3,5) by (auto simp: z4_def nth_upd)
  have small: "fold init_pse [0..<ncells] z4 = z4"
    by (rule init_pse_small) (use nf4 n(2) in \<open>auto simp: PSE_NPAGES_def\<close>)
  have s4: "zbm_flink z4 = zbm_flink z0" "zbm_blink z4 = zbm_blink z0" "zbm_home z4 = cg"
    "zbm_cellwidth z4 = 1" "zbm_ncell z4 = ncells" "zbm_mapsize z4 = npages" "zbm_mapwidth z4 = ncells"
    "zbm_cwshft z4 = 0" "zbm_cellmask z4 = 0" "zbm_cellsize z4 = 32" "zbm_base z4 = base"
    "zbm_size z4 = npages" "zbm_unavail z4 = (if rem = 0 then 0 else 32 - rem)"
    using p(6-8) by (simp_all add: z4_def s3 f)
  have l4: "length (zbm_cell z4) = ncells" "length (zbm_bitmap z4) = ncells"
    using p(2,3) by (simp_all add: z4_def)
  have T: "BITMASKN_TEST1 (zbm_bitmap z4) b \<longleftrightarrow> npages \<le> b" if b: "b < NBITPW * ncells" for b
  proof -
    have i: "b div NBITPW < ncells" by (rule word_index_bound [OF b])
    show ?thesis
    proof (cases "rem = 0")
      case True
      then show ?thesis using b n(1) TEST1_zero [OF b] p(2) by (simp add: z4_def)
    next
      case False
      obtain m where m: "ncells = Suc m" using nc by (cases ncells) auto
      have np: "npages = 32 * m + rem" using n False m by simp
      have bd: "b = 32 * (b div 32) + b mod 32" by simp
      have "zbm_bitmap z4 ! (b div NBITPW) =
          (if b div NBITPW = ncells - 1 then fold (\<lambda>i w. BITMASK1_SET1 w i) [rem..<NBITPW] 0 else 0)"
        using i False by (simp add: z4_def nth_upd)
      then have "bit (zbm_bitmap z4 ! (b div NBITPW)) (b mod NBITPW) \<longleftrightarrow>
          b div NBITPW = m \<and> rem \<le> b mod NBITPW"
        using m by (simp add: fold_SET1)
      also have "\<dots> \<longleftrightarrow> npages \<le> b"
      proof
        assume "npages \<le> b"
        then show "b div NBITPW = m \<and> rem \<le> b mod NBITPW"
          using np bd i m by (cases "b div 32 < m") linarith+
      next
        assume "b div NBITPW = m \<and> rem \<le> b mod NBITPW"
        then show "npages \<le> b" using np bd by linarith
      qed
      finally show ?thesis by (simp add: BITMASKN_TEST1_def)
    qed
  qed
  have "geometry z4" using n(1) T by (auto simp: geometry_def s4 l4 PSE_NPAGES_def)
  moreover have "cells_ok z4"
    unfolding cells_ok_def
  proof (intro allI impI)
    fix c assume "c < zbm_ncell z4"
    then have c: "c < ncells" by (simp add: s4)
    have cf: "cell_free z4 c = {k. k < 32 \<and> c * 32 + k < npages}"
      using T c by (auto simp: cell_free_def s4)
    have "cell_free z4 c = {..<if rem \<noteq> 0 \<and> c = ncells - 1 then rem else 32}"
      unfolding cf using n c by (cases ncells; cases "rem = 0") (auto simp: less_Suc_eq_le)
    then show "zbc_nfree (zbm_cell z4 ! c) = card (cell_free z4 c) \<and>
      zbc_cursor (zbm_cell z4 ! c) \<le> zbm_cellwidth z4 \<and>
      (\<forall>k < NBITPW * zbc_cursor (zbm_cell z4 ! c). k \<notin> cell_free z4 c)"
      using nf4 [OF c] by simp
  qed
  moreover have "pools_at z4 [0..<ncells] []"
    by (rule pools_at_keep [OF p(4)]) (auto simp: z4_def nth_upd)
  then have "pools_ok z4 [0..<ncells] []"
    using nf4 n(2) by (auto simp: pools_ok_def s4 PSE_NPAGES_def split: if_splits)
  moreover have "free_pages z4 = {base ..< base + npages}"
    using free_pages_all [of z4] T n(1) by (simp add: s4)
  moreover have "init_chunk_body base npages cg 32 ncells ncells rem z0 = Some z4"
  proof -
    have "zbm_ncell z4 = ncells" by (rule s4)
    then show ?thesis using last small p(6)
      by (simp add: init_chunk_body_def Let_def z3_def z1_def)
  qed
  ultimately show ?thesis by (auto simp: fresh_chunk_def chunk_ok_def s4)
qed

section \<open>Linking the chunk\<close>

text \<open>Links to other chunks do not matter to a chunk.\<close>

lemma chunk_links [simp]:
  "chunk_ok (z\<lparr>zbm_flink := a, zbm_blink := b\<rparr>) = chunk_ok z"
  "free_pages (z\<lparr>zbm_flink := a, zbm_blink := b\<rparr>) = free_pages z"
  "pages (z\<lparr>zbm_flink := a, zbm_blink := b\<rparr>) = pages z"
  "chunk_frames (z\<lparr>zbm_flink := a, zbm_blink := b\<rparr>) = chunk_frames z"
  by (simp_all add: chunk_frames_def chunk_ok_def geometry_def cells_ok_def cell_free_def pools_ok_def pools_at_def
      free_pages_def pages_def)

lemma chunk_same:
  assumes "z\<lparr>zbm_flink := 0, zbm_blink := 0\<rparr> = w\<lparr>zbm_flink := 0, zbm_blink := 0\<rparr>"
  shows "chunk_ok z = chunk_ok w" "free_pages z = free_pages w" "pages z = pages w" "chunk_frames z = chunk_frames w"
  using chunk_links [where z = z and a = 0 and b = 0] chunk_links [where z = w and a = 0 and b = 0] assms
  by simp_all

lemma rzbm_add_chunk_ring:
  assumes r: "chunks.ring_at (zbm_heap st) xs" and h: "zbm_chunk st = head_of xs"
    and c: "c \<notin> set xs" "c < length (zbm_heap st)"
  shows "rzbm_add_chunk st c = (let (p, heap) = chunks.ring_add (zbm_chunk st) (zbm_heap st) c
    in st\<lparr>zbm_heap := heap, zbm_chunk := p, zbm_nchunk := zbm_nchunk st + 1\<rparr>)"
proof (cases xs)
  case Nil
  with h c show ?thesis
    by (simp add: rzbm_add_chunk_def chunks.ring_add_def upd_def)
next
  case (Cons hd0 ys)
  let ?heap = "zbm_heap st"
  define lst where "lst = zbm_blink (?heap ! hd0)"
  have ne: "xs \<noteq> []" using Cons by simp
  have l: "lst = last xs" using chunks.ring_blink_hd [OF r ne] Cons by (simp add: lst_def)
  then have b: "hd0 < length ?heap" "lst < length ?heap" "hd0 \<noteq> c" "lst \<noteq> c"
    using r c Cons last_in_set [OF ne] by (auto simp: chunks.ring_at_def)
  have fl: "zbm_flink (?heap ! lst) = hd0"
  proof -
    have "xs = butlast xs @ [lst]" using ne l by simp
    with r Cons have "chunks.seg ?heap (butlast xs @ lst # [hd0])"
      by (metis append.assoc append_Cons append_Nil chunks.ring_at_def list.sel(1) ne)
    then have "chunks.seg ?heap [lst, hd0]" by (subst (asm) chunks.seg_append) blast
    then show ?thesis by simp
  qed
  have "snd (chunks.ring_add (Some hd0) ?heap c) = zbm_heap (rzbm_add_chunk st c)"
    by (rule nth_equalityI)
      (use b fl h Cons c in \<open>auto simp: chunks.ring_add_def rzbm_add_chunk_def Let_def nth_upd
         simp flip: lst_def\<close>)
  moreover have "fst (chunks.ring_add (Some hd0) ?heap c) = Some hd0"
    by (simp add: chunks.ring_add_def Let_def)
  ultimately show ?thesis using h Cons by (simp add: split_def rzbm_add_chunk_def Let_def)
qed

text \<open>The list after a new chunk has been linked: nothing but links has changed.\<close>

lemma seg_append_heap:
  assumes "chunks.ring_at heap xs"
  shows "chunks.ring_at (heap @ zs) xs"
proof (cases "xs = []")
  case False
  have same: "(heap @ zs) ! a = heap ! a" if "a \<in> set xs" for a
    using that assms by (auto simp: chunks.ring_at_def nth_append)
  from assms False have "chunks.seg heap (xs @ [hd xs])" by (simp add: chunks.ring_at_def)
  then have "chunks.seg (heap @ zs) (xs @ [hd xs])"
  proof (rule chunks.seg_frame)
    fix a assume "a \<in> set (butlast (xs @ [hd xs]))"
    then show "zbm_flink ((heap @ zs) ! a) = zbm_flink (heap ! a)" using same by simp
  next
    fix a assume "a \<in> set (tl (xs @ [hd xs]))"
    then have "a \<in> set xs" using False by (cases xs) auto
    then show "zbm_blink ((heap @ zs) ! a) = zbm_blink (heap ! a)" using same by simp
  qed
  with assms show ?thesis by (auto simp: chunks.ring_at_def)
qed (simp add: chunks.ring_at_def)

lemma add_chunk_shape:
  assumes xs: "chunks_linked st xs"
    and zi: "zi = length (zbm_heap st)"
  shows "\<exists>ms. rzbm_add_chunk (st\<lparr>zbm_heap := zbm_heap st @ [z0]\<rparr>) zi =
      st\<lparr>zbm_heap := ms, zbm_chunk := head_of (xs @ [zi]), zbm_nchunk := zbm_nchunk st + 1\<rparr> \<and>
    chunks.ring_at ms (xs @ [zi]) \<and> length ms = Suc zi \<and>
    (\<forall>j < Suc zi. (ms ! j)\<lparr>zbm_flink := 0, zbm_blink := 0\<rparr> =
      (if j = zi then z0 else zbm_heap st ! j)\<lparr>zbm_flink := 0, zbm_blink := 0\<rparr>)"
proof -
  let ?st0 = "st\<lparr>zbm_heap := zbm_heap st @ [z0]\<rparr>"
  have r0: "chunks.ring_at (zbm_heap ?st0) xs"
    using xs by (simp add: chunks_linked_def seg_append_heap)
  have h0: "zbm_chunk ?st0 = head_of xs" and c: "zi \<notin> set xs" "zi < length (zbm_heap ?st0)"
    using xs by (auto simp: chunks_linked_def zi)
  from chunks.ring_add_ring [OF r0 c] obtain ms where ms:
    "chunks.ring_add (head_of xs) (zbm_heap ?st0) zi = (head_of (xs @ [zi]), ms)"
    "chunks.ring_at ms (xs @ [zi])" by blast
  have pay: "map (\<lambda>z. z\<lparr>zbm_flink := 0, zbm_blink := 0\<rparr>) ms
      = map (\<lambda>z. z\<lparr>zbm_flink := 0, zbm_blink := 0\<rparr>) (zbm_heap st @ [z0])"
    using chunks.ring_add_pay [of "head_of xs" "zbm_heap ?st0" zi] ms(1) by simp
  have lm: "length ms = Suc zi" using arg_cong [OF pay, of length] by (simp add: zi)
  have eq: "rzbm_add_chunk ?st0 zi =
      st\<lparr>zbm_heap := ms, zbm_chunk := head_of (xs @ [zi]), zbm_nchunk := zbm_nchunk st + 1\<rparr>"
    using rzbm_add_chunk_ring [OF r0 h0 c] ms(1) h0 by simp
  have "(ms ! j)\<lparr>zbm_flink := 0, zbm_blink := 0\<rparr> =
      (if j = zi then z0 else zbm_heap st ! j)\<lparr>zbm_flink := 0, zbm_blink := 0\<rparr>" if "j < Suc zi" for j
    using arg_cong [OF pay, of "\<lambda>xs. xs ! j"] that lm by (auto simp: nth_append zi)
  with eq ms(2) lm show ?thesis by blast
qed

text \<open>A new chunk at the end of the heap, and its value once initialised.\<close>

lemma add_chunk_ok:
  fixes z0 z :: rzbm
  assumes ok: "rzbm_ok st" and zi: "zi = length (zbm_heap st)"
    and st1: "st1 = rzbm_add_chunk (st\<lparr>zbm_heap := zbm_heap st @ [z0]\<rparr>) zi"
    and z: "chunk_ok z" "pages z \<inter> managed st = {}"
    and links: "zbm_flink z = zbm_flink (zbm_heap st1 ! zi)" "zbm_blink z = zbm_blink (zbm_heap st1 ! zi)"
  shows "rzbm_ok (st1\<lparr>zbm_heap := (zbm_heap st1)[zi := z], zbm_maxfree := m\<rparr>)"
    "avail (st1\<lparr>zbm_heap := (zbm_heap st1)[zi := z], zbm_maxfree := m\<rparr>) = avail st \<union> free_pages z"
    "managed (st1\<lparr>zbm_heap := (zbm_heap st1)[zi := z], zbm_maxfree := m\<rparr>) = managed st \<union> pages z"
    "pse_frames (st1\<lparr>zbm_heap := (zbm_heap st1)[zi := z], zbm_maxfree := m\<rparr>) = pse_frames st \<union> chunk_frames z"
proof -
  from ok obtain xs where xs: "chunks_linked st xs" by (auto simp: rzbm_ok_def)
  from add_chunk_shape [OF xs zi, of z0, folded st1] obtain ms where ms:
    "st1 = st\<lparr>zbm_heap := ms, zbm_chunk := head_of (xs @ [zi]), zbm_nchunk := zbm_nchunk st + 1\<rparr>"
    "chunks.ring_at ms (xs @ [zi])" "length ms = Suc zi"
    "\<forall>j < Suc zi. (ms ! j)\<lparr>zbm_flink := 0, zbm_blink := 0\<rparr> =
      (if j = zi then z0 else zbm_heap st ! j)\<lparr>zbm_flink := 0, zbm_blink := 0\<rparr>" by blast
  have old: "chunk_ok (ms ! j) = chunk_ok (zbm_heap st ! j)" "free_pages (ms ! j) = free_pages (zbm_heap st ! j)"
    "pages (ms ! j) = pages (zbm_heap st ! j)" "chunk_frames (ms ! j) = chunk_frames (zbm_heap st ! j)" if j: "j < zi" for j
  proof -
    have "(ms ! j)\<lparr>zbm_flink := 0, zbm_blink := 0\<rparr> = (zbm_heap st ! j)\<lparr>zbm_flink := 0, zbm_blink := 0\<rparr>"
      using ms(4) j by auto
    from chunk_same [OF this] show "chunk_ok (ms ! j) = chunk_ok (zbm_heap st ! j)"
      "free_pages (ms ! j) = free_pages (zbm_heap st ! j)" "pages (ms ! j) = pages (zbm_heap st ! j)"
      "chunk_frames (ms ! j) = chunk_frames (zbm_heap st ! j)" .
  qed
  let ?st = "st1\<lparr>zbm_heap := (zbm_heap st1)[zi := z], zbm_maxfree := m\<rparr>"
  have heap: "zbm_heap ?st ! j = (if j = zi then z else ms ! j)" if "j < Suc zi" for j
    using that ms(3) by (simp add: ms(1))
  have len: "length (zbm_heap ?st) = Suc zi" using ms(3) by (simp add: ms(1))
  have ring: "chunks.ring_at (zbm_heap ?st) (xs @ [zi])"
  proof (rule chunks.ring_frame [OF ms(2)])
    show "length (zbm_heap ?st) = length ms" using len ms(3) by simp
    fix a assume "a \<in> set (xs @ [zi])"
    then have "a < Suc zi" using ms(2,3) by (auto simp: chunks.ring_at_def)
    then show "zbm_flink (zbm_heap ?st ! a) = zbm_flink (ms ! a) \<and>
        zbm_blink (zbm_heap ?st ! a) = zbm_blink (ms ! a)"
      unfolding heap [OF \<open>a < Suc zi\<close>] using links ms(1) by simp
  qed
  have old_xs: "set xs = {..<zi}" "zbm_nchunk st = length xs"
    using xs by (simp_all add: chunks_linked_def zi)
  have "chunks_linked ?st (xs @ [zi])"
    unfolding chunks_linked_def
  proof (intro conjI ring)
    show "set (xs @ [zi]) = {..<length (zbm_heap ?st)}"
      unfolding len by (simp add: old_xs(1) lessThan_Suc)
  qed (simp_all add: ms(1) old_xs(2))
  moreover have "\<forall>i < Suc zi. chunk_ok (zbm_heap ?st ! i)"
    using ok z(1) heap old(1) by (simp add: rzbm_ok_def zi less_Suc_eq)
  moreover have "\<forall>i < Suc zi. \<forall>j < Suc zi.
      i \<noteq> j \<longrightarrow> pages (zbm_heap ?st ! i) \<inter> pages (zbm_heap ?st ! j) = {}"
  proof (intro allI impI)
    fix i j assume ij: "i < Suc zi" "j < Suc zi" "i \<noteq> j"
    have m: "pages (zbm_heap st ! k) \<inter> pages z = {}" if "k < zi" for k
      using z(2) that by (auto simp: managed_def zi)
    have dis: "pages (zbm_heap st ! i) \<inter> pages (zbm_heap st ! j) = {}" if "i < zi" "j < zi"
      using ok that ij(3) by (simp add: rzbm_ok_def zi)
    show "pages (zbm_heap ?st ! i) \<inter> pages (zbm_heap ?st ! j) = {}"
      unfolding heap [OF ij(1)] heap [OF ij(2)]
      using ij dis m [of i] m [of j] old(3) [of i] old(3) [of j] by (auto simp: less_Suc_eq)
  qed
  ultimately show "rzbm_ok ?st" unfolding rzbm_ok_def len by blast
  have union: "(\<Union>i<Suc zi. f (zbm_heap ?st ! i)) = (\<Union>i<zi. f (ms ! i)) \<union> f z" for f :: "rzbm \<Rightarrow> nat set"
  proof -
    have "(\<Union>i<Suc zi. f (zbm_heap ?st ! i)) = (\<Union>i<zi. f (zbm_heap ?st ! i)) \<union> f (zbm_heap ?st ! zi)"
      by (simp add: lessThan_Suc Un_commute)
    also have "(\<Union>i<zi. f (zbm_heap ?st ! i)) = (\<Union>i<zi. f (ms ! i))"
    proof (rule SUP_cong)
      fix i assume "i \<in> {..<zi}"
      then show "f (zbm_heap ?st ! i) = f (ms ! i)" using heap [of i] by simp
    qed simp
    also have "zbm_heap ?st ! zi = z" using heap [of zi] by simp
    finally show ?thesis .
  qed
  show "avail ?st = avail st \<union> free_pages z"
    unfolding avail_def len union using old(2) by (simp add: zi)
  show "managed ?st = managed st \<union> pages z"
    unfolding managed_def len union using old(3) by (simp add: zi)
  show "pse_frames ?st = pse_frames st \<union> chunk_frames z"
    unfolding pse_frames_union len union using old(4) by (simp add: zi)
qed

section \<open>\<open>rzbm_init_chunk_actual\<close> and \<open>rzbm_init_chunk\<close>\<close>

text \<open>The multiples of 4M whose 1024 pages all lie in a range.\<close>

definition aligned_frames :: "nat \<Rightarrow> nat \<Rightarrow> nat set" where
  "aligned_frames base npages = {f. f mod PSE_NPAGES = 0 \<and> {f ..< f + PSE_NPAGES} \<subseteq> {base ..< base + npages}}"

lemma aligned_frames_iff: "f \<in> aligned_frames base npages \<longleftrightarrow> f mod 1024 = 0 \<and> base \<le> f \<and> f + 1024 \<le> base + npages"
  by (auto simp: aligned_frames_def PSE_NPAGES_def)

lemma aligned_frames_small: "n < 1024 \<Longrightarrow> aligned_frames b n = {}"
  by (auto simp: aligned_frames_iff)

lemma chunk_frames_aligned:
  assumes "zbm_cellsize z = PSE_NPAGES" "zbm_base z mod PSE_NPAGES = 0"
  shows "chunk_frames z = aligned_frames (zbm_base z) (zbm_size z)"
proof (rule set_eqI)
  fix f
  have al: "zbm_base z mod 1024 = 0" using assms(2) by (simp add: PSE_NPAGES_def)
  have "f \<in> chunk_frames z \<longleftrightarrow> (\<exists>c. f = zbm_base z + c * 1024 \<and> (c + 1) * 1024 \<le> zbm_size z)"
    using assms(1) by (auto simp: chunk_frames_def PSE_NPAGES_def)
  also have "\<dots> \<longleftrightarrow> f \<in> aligned_frames (zbm_base z) (zbm_size z)"
  proof
    assume "\<exists>c. f = zbm_base z + c * 1024 \<and> (c + 1) * 1024 \<le> zbm_size z"
    then show "f \<in> aligned_frames (zbm_base z) (zbm_size z)" using al by (auto simp: aligned_frames_iff)
  next
    assume "f \<in> aligned_frames (zbm_base z) (zbm_size z)"
    then have f: "f mod 1024 = 0" "zbm_base z \<le> f" "f + 1024 \<le> zbm_base z + zbm_size z" by (simp_all add: aligned_frames_iff)
    from f(1) al obtain a b where "f = 1024 * a" "zbm_base z = 1024 * b" by (meson mod_0_imp_dvd dvdE)
    with f(2,3) show "\<exists>c. f = zbm_base z + c * 1024 \<and> (c + 1) * 1024 \<le> zbm_size z"
      by (intro exI [of _ "a - b"]) (auto simp: algebra_simps diff_mult_distrib)
  qed
  finally show "f \<in> chunk_frames z \<longleftrightarrow> f \<in> aligned_frames (zbm_base z) (zbm_size z)" .
qed

lemma init_chunk_actual_ok:
  assumes ok: "rzbm_ok st" and n: "0 < npages" "npages < 1024 \<or> 1024 dvd npages \<and> base mod 1024 = 0"
    and fresh: "{base ..< base + npages} \<inter> managed st = {}"
    and m: "zbm_maxfree st + npages < 2 ^ 32"
  shows "\<exists>st'. rzbm_init_chunk_actual st base npages cg = Some (st', 0) \<and> rzbm_ok st' \<and>
    avail st' = avail st \<union> {base ..< base + npages} \<and>
    managed st' = managed st \<union> {base ..< base + npages} \<and>
    zbm_maxfree st' = zbm_maxfree st + npages \<and> zbm_resv st' = zbm_resv st \<and>
    pse_frames st' = pse_frames st \<union> aligned_frames base npages \<and>
    (\<exists>z \<in> set (zbm_heap st'). zbm_base z = base \<and> zbm_size z = npages \<and> free_pages z = pages z)"
proof -
  define cs where "cs = rzbm_cell_size npages"
  define rem where "rem = npages mod cs"
  define ncells where "ncells = npages div cs + (if rem \<noteq> 0 then 1 else 0)"
  define nwords where "nwords = npages div NBITPW + (if rem \<noteq> 0 then 1 else 0)"
  define zi where "zi = length (zbm_heap st)"
  define st1 where "st1 = rzbm_add_chunk (st\<lparr>zbm_heap := zbm_heap st @ [zero_chunk ncells nwords]\<rparr>) zi"
  define z0 where "z0 = zbm_heap st1 ! zi"
  from ok obtain xs where xs: "chunks_linked st xs" by (auto simp: rzbm_ok_def)
  from add_chunk_shape [OF xs zi_def, of "zero_chunk ncells nwords", folded st1_def] obtain ms where
    ms1: "st1 = st\<lparr>zbm_heap := ms, zbm_chunk := head_of (xs @ [zi]), zbm_nchunk := zbm_nchunk st + 1\<rparr>"
    and ms3: "\<forall>j < Suc zi. (ms ! j)\<lparr>zbm_flink := 0, zbm_blink := 0\<rparr> =
      (if j = zi then zero_chunk ncells nwords else zbm_heap st ! j)\<lparr>zbm_flink := 0, zbm_blink := 0\<rparr>"
    and len: "length ms = Suc zi"
    by blast
  have "z0 = ms ! zi" by (simp add: z0_def ms1)
  with ms3 have ms2: "z0\<lparr>zbm_flink := 0, zbm_blink := 0\<rparr> =
      (zero_chunk ncells nwords)\<lparr>zbm_flink := 0, zbm_blink := 0\<rparr>" by auto
  have z0: "zbm_pool z0 = None" "zbm_psepool z0 = None" "zbm_cwshft z0 = 0" "zbm_unavail z0 = 0"
      "zbm_cell z0 = replicate ncells zero_cell" "zbm_bitmap z0 = replicate nwords 0"
    using arg_cong [OF ms2, of zbm_pool] arg_cong [OF ms2, of zbm_psepool]
      arg_cong [OF ms2, of zbm_cwshft] arg_cong [OF ms2, of zbm_unavail]
      arg_cong [OF ms2, of zbm_cell] arg_cong [OF ms2, of zbm_bitmap]
    unfolding zero_chunk_def by simp_all
  have "\<exists>z. init_chunk_body base npages cg cs ncells nwords rem z0 = Some z \<and>
    fresh_chunk z0 base npages cg cs z"
  proof (cases "1024 \<le> npages")
    case True
    then have "1024 dvd npages" and al: "base mod 1024 = 0" using n(2) by simp_all
    then have "cs = 1024" "rem = 0" "npages = 1024 * ncells" "nwords = 32 * ncells"
      using True by (auto simp: cs_def rem_def ncells_def nwords_def cell_size_cases dvd_def)
    with init_body_large [OF z0, of npages base cg] al show ?thesis by simp
  next
    case False
    then have cs: "cs = 32" by (simp add: cs_def cell_size_cases)
    obtain q r where qr: "npages = 32 * q + r" "r < 32"
    proof
      show "npages = 32 * (npages div 32) + npages mod 32" "npages mod 32 < 32" by simp_all
    qed
    then have "rem = r" "ncells = q + (if r \<noteq> 0 then 1 else 0)" "nwords = ncells"
      by (simp_all add: cs rem_def ncells_def nwords_def)
    then have "npages + (if rem = 0 then 0 else 32 - rem) = 32 * ncells" "rem < 32" "nwords = ncells"
      using qr by simp_all
    with init_body_small [OF z0(1-5), of npages rem base cg] z0(6) n(1) cs show ?thesis by simp
  qed
  then obtain z where z: "init_chunk_body base npages cg cs ncells nwords rem z0 = Some z"
    "fresh_chunk z0 base npages cg cs z" by blast
  then have f: "chunk_ok z" "pages z = {base ..< base + npages}" "free_pages z = {base ..< base + npages}"
    "zbm_mapsize z = npages" "zbm_flink z = zbm_flink z0" "zbm_blink z = zbm_blink z0"
    "zbm_cellsize z = cs" "zbm_base z = base" "zbm_size z = npages"
    by (auto simp: fresh_chunk_def pages_def)
  have dis: "pages z \<inter> managed st = {}" using fresh f(2) by simp
  note add = add_chunk_ok [OF ok zi_def st1_def f(1) dis f(5,6) [unfolded z0_def]]
  let ?st = "st1\<lparr>zbm_heap := (zbm_heap st1)[zi := z], zbm_maxfree := zbm_maxfree st + npages\<rparr>"
  have "rzbm_init_chunk_actual st base npages cg = Some (?st, 0)"
  proof -
    have "uadd32 (zbm_maxfree st1) (zbm_mapsize z) = zbm_maxfree st + npages"
      using m f(4) by (simp add: ms1)
    then show ?thesis
      using n(1) z(1)
      unfolding rzbm_init_chunk_actual_def Let_def cs_def [symmetric] rem_def [symmetric]
        ncells_def [symmetric] nwords_def [symmetric] zi_def [symmetric] st1_def [symmetric]
        z0_def [symmetric]
      by simp
  qed
  moreover have "zbm_maxfree ?st = zbm_maxfree st + npages" "zbm_resv ?st = zbm_resv st"
    by (simp_all add: ms1)
  moreover have "chunk_frames z = aligned_frames base npages"
  proof (cases "1024 \<le> npages")
    case True
    then have "zbm_cellsize z = PSE_NPAGES" by (simp add: f(7) cs_def cell_size_cases PSE_NPAGES_def)
    with f(1) show ?thesis using chunk_frames_aligned [of z] by (simp add: chunk_ok_def geometry_def f(8,9))
  next
    case False
    then have "zbm_cellsize z \<noteq> PSE_NPAGES" by (simp add: f(7) cs_def cell_size_cases PSE_NPAGES_def)
    with False show ?thesis by (simp add: chunk_frames_def aligned_frames_small)
  qed
  moreover have "\<exists>z \<in> set (zbm_heap ?st). zbm_base z = base \<and> zbm_size z = npages \<and> free_pages z = pages z"
  proof (rule bexI [of _ z])
    show "z \<in> set (zbm_heap ?st)" using len by (simp add: ms1 set_update_memI)
  qed (simp add: f)
  ultimately show ?thesis using add [of "zbm_maxfree st + npages"] f(2,3) by simp
qed

lemma pse_round_up:
  assumes "0 < r" "r < 1024"
  shows "pse_round (1024 * q + r) = (q + 1) * 1024"
proof -
  have "((1024 * q + r) * 4096 + (PSE_PAGESIZE - 1)) div 2 ^ 22 = q + 1"
    by (rule div_nat_eqI) (use assms in \<open>simp_all add: PSE_PAGESIZE_def\<close>)
  then show ?thesis by (simp add: pse_round_def)
qed

lemma pse_round_eq:
  assumes "b mod 1024 \<noteq> 0"
  shows "pse_round b = (b div 1024 + 1) * 1024"
  using pse_round_up [of "b mod 1024" "b div 1024"] assms by simp

lemma carve_ok:
  assumes n: "1024 \<le> npages" and c: "carve base npages = (presz, postsz, midbase, midsz)"
  shows "midbase = base + presz" "presz + midsz + postsz = npages" "presz < 1024" "postsz < 1024"
    "midsz < 1024 \<or> 1024 dvd midsz \<and> midbase mod 1024 = 0" "midbase mod 1024 = 0"
    "aligned_frames midbase midsz = aligned_frames base npages"
proof -
  have r: "base mod 1024 \<noteq> 0 \<Longrightarrow> pse_round base - base = 1024 - base mod 1024"
  proof -
    assume nz: "base mod 1024 \<noteq> 0"
    obtain q r where b: "base = 1024 * q + r" "r < 1024"
    proof
      show "base = 1024 * (base div 1024) + base mod 1024" "base mod 1024 < 1024" by simp_all
    qed
    then have "base mod 1024 = r" by simp
    with nz b pse_round_up [of r q] show "pse_round base - base = 1024 - base mod 1024" by simp
  qed
  define pre where "pre = (if base mod PSE_NPAGES \<noteq> 0 then min (pse_round base - base) npages else 0)"
  define post where "post = (if PSE_NPAGES < npages - pre
    then (base + pre + (npages - pre)) mod PSE_NPAGES else 0)"
  have "carve base npages = (pre, post, base + pre, npages - pre - post)"
    unfolding carve_def Let_def pre_def post_def ..
  then have "(presz, postsz, midbase, midsz) = (pre, post, base + pre, npages - pre - post)"
    unfolding c .
  then have eqs: "presz = pre" "postsz = post" "midbase = base + pre" "midsz = npages - pre - post"
    unfolding prod.inject by blast+
  have pre: "presz = (if base mod 1024 \<noteq> 0 then 1024 - base mod 1024 else 0)"
    unfolding eqs(1) pre_def PSE_NPAGES_def using r n by (cases "base mod 1024 = 0") simp_all
  then show p: "presz < 1024" by (cases "base mod 1024 = 0") simp_all
  show mb: "midbase = base + presz" by (simp add: eqs)
  show m0: "midbase mod 1024 = 0"
  proof (cases "base mod 1024 = 0")
    case True
    then show ?thesis by (simp add: mb pre)
  next
    case False
    obtain q r where b: "base = 1024 * q + r" "r < 1024"
    proof
      show "base = 1024 * (base div 1024) + base mod 1024" "base mod 1024 < 1024" by simp_all
    qed
    with False have "midbase = 1024 * (q + 1)" unfolding mb pre by simp
    then show ?thesis by simp
  qed
  have post: "postsz = (if 1024 < npages - presz then (midbase + (npages - presz)) mod 1024 else 0)"
    "midsz = npages - presz - postsz"
    unfolding eqs post_def PSE_NPAGES_def by simp_all
  then show lt: "postsz < 1024" by simp
  have "postsz \<le> npages - presz"
  proof (cases "1024 < npages - presz")
    case True
    have "postsz < 1024" using post(1) by simp
    with True show ?thesis by linarith
  qed (simp add: post(1))
  then show sizes: "presz + midsz + postsz = npages" using post(2) p n by linarith
  have ms: "1024 dvd midsz" if True: "1024 < npages - presz"
  proof -
    have "(midbase + (npages - presz)) mod 1024 = (npages - presz) mod 1024"
      using m0 by (metis add_0 mod_add_left_eq)
    then have "midsz = npages - presz - (npages - presz) mod 1024" using post True by simp
    then show ?thesis by (simp add: minus_mod_eq_mult_div)
  qed
  have "midsz < 1024 \<or> 1024 dvd midsz"
  proof (cases "1024 < npages - presz")
    case False
    then show ?thesis using post by (cases "npages - presz = 1024") auto
  qed (use ms in simp)
  with m0 show "midsz < 1024 \<or> 1024 dvd midsz \<and> midbase mod 1024 = 0" by blast
  show "aligned_frames midbase midsz = aligned_frames base npages"
  proof (intro set_eqI iffI)
    fix f assume "f \<in> aligned_frames midbase midsz"
    with sizes mb show "f \<in> aligned_frames base npages" by (auto simp: aligned_frames_iff)
  next
    fix f assume "f \<in> aligned_frames base npages"
    then have f: "f mod 1024 = 0" "base \<le> f" "f + 1024 \<le> base + npages" by (simp_all add: aligned_frames_iff)
    obtain a where a: "f = 1024 * a" using f(1) by (meson mod_0_imp_dvd dvdE)
    obtain b where b: "midbase = 1024 * b" using m0 by (meson mod_0_imp_dvd dvdE)
    have "midbase < base + 1024" using mb p by simp
    then have "1024 * b < 1024 * (a + 1)" using f(2) a b by simp
    then have lo: "midbase \<le> f" using a b by simp
    have "f + 1024 \<le> midbase + midsz"
    proof (cases "1024 < npages - presz")
      case True
      from ms [OF this] obtain c where c: "midsz = 1024 * c" by (rule dvdE)
      have "1024 * a < 1024 * (b + c)" using f(3) lt sizes mb a b c by simp
      then have "a < b + c" by (subst (asm) mult_less_cancel1) simp
      then show ?thesis using a b c by linarith
    next
      case False
      then have "postsz = 0" using post(1) by simp
      then show ?thesis using sizes mb f(3) by simp
    qed
    with f(1) lo show "f \<in> aligned_frames midbase midsz" by (simp add: aligned_frames_iff)
  qed
qed

text \<open>One step of the carving: a piece that is skipped when empty.\<close>

lemma init_piece:
  assumes ok: "rzbm_ok st" and n: "n < 1024 \<or> 1024 dvd n \<and> b mod 1024 = 0"
    and fresh: "{b ..< b + n} \<inter> managed st = {}" and m: "zbm_maxfree st + n < 2 ^ 32"
  shows "\<exists>st'. (if n \<noteq> 0 then rzbm_init_chunk_actual st b n cg else Some (st, 0)) = Some (st', 0) \<and>
    rzbm_ok st' \<and> avail st' = avail st \<union> {b ..< b + n} \<and> managed st' = managed st \<union> {b ..< b + n} \<and>
    pse_frames st' = pse_frames st \<union> aligned_frames b n \<and>
    zbm_maxfree st' = zbm_maxfree st + n \<and> zbm_resv st' = zbm_resv st"
  using init_chunk_actual_ok [OF ok _ n fresh m, of cg] ok by (cases "n = 0") (auto simp: aligned_frames_small)

lemma init_chunk_ok:
  assumes ok: "rzbm_ok st" and fresh: "{base ..< base + npages} \<inter> managed st = {}"
    and m: "zbm_maxfree st + npages < 2 ^ 32"
  shows "\<exists>st'. rzbm_init_chunk st base npages cg = Some (st', 0) \<and> rzbm_ok st' \<and>
    avail st' = avail st \<union> {base ..< base + npages} \<and>
    managed st' = managed st \<union> {base ..< base + npages} \<and>
    pse_frames st' = pse_frames st \<union> aligned_frames base npages \<and>
    zbm_maxfree st' = zbm_maxfree st + npages \<and> zbm_resv st' = zbm_resv st"
proof (cases "npages < 1024")
  case True
  with init_piece [OF ok _ fresh m, of cg] show ?thesis
    by (auto simp: rzbm_init_chunk_def PSE_NPAGES_def aligned_frames_small split: if_splits)
next
  case False
  obtain presz postsz midbase midsz where c: "carve base npages = (presz, postsz, midbase, midsz)"
    by (cases "carve base npages") auto
  from False have n: "1024 \<le> npages" by simp
  note k = carve_ok [OF n c]
  from k(1,2) have sub: "{base ..< base + presz} \<subseteq> {base ..< base + npages}"
    "{midbase + midsz ..< midbase + midsz + postsz} \<subseteq> {base ..< base + npages}"
    "{midbase ..< midbase + midsz} \<subseteq> {base ..< base + npages}" by auto
  have "{base ..< base + presz} \<inter> managed st = {}" using fresh sub(1) by blast
  from init_piece [OF ok disjI1 [OF k(3)] this, of cg] m k(2) obtain st1 where
    s1: "(if presz \<noteq> 0 then rzbm_init_chunk_actual st base presz cg else Some (st, 0)) = Some (st1, 0)"
    "rzbm_ok st1" "avail st1 = avail st \<union> {base ..< base + presz}"
    "managed st1 = managed st \<union> {base ..< base + presz}"
    "zbm_maxfree st1 = zbm_maxfree st + presz" "zbm_resv st1 = zbm_resv st"
    "pse_frames st1 = pse_frames st" by (auto simp: aligned_frames_small [OF k(3)])
  have "{midbase + midsz ..< midbase + midsz + postsz} \<inter> managed st1 = {}"
    using fresh sub(2) k(1) unfolding s1(4) by fastforce
  from init_piece [OF s1(2) disjI1 [OF k(4)] this, of cg] m k(2) s1(5) obtain st2 where
    s2: "(if postsz \<noteq> 0 then rzbm_init_chunk_actual st1 (midbase + midsz) postsz cg else Some (st1, 0))
      = Some (st2, 0)"
    "rzbm_ok st2" "avail st2 = avail st1 \<union> {midbase + midsz ..< midbase + midsz + postsz}"
    "managed st2 = managed st1 \<union> {midbase + midsz ..< midbase + midsz + postsz}"
    "zbm_maxfree st2 = zbm_maxfree st1 + postsz" "zbm_resv st2 = zbm_resv st1"
    "pse_frames st2 = pse_frames st1" by (auto simp: aligned_frames_small [OF k(4)])
  have "{midbase ..< midbase + midsz} \<inter> managed st2 = {}"
    using fresh sub(3) k(1) unfolding s1(4) s2(4) by fastforce
  from init_piece [OF s2(2) k(5) this, of cg] m k(2) s1(5) s2(5) obtain st3 where
    s3: "(if midsz \<noteq> 0 then rzbm_init_chunk_actual st2 midbase midsz cg else Some (st2, 0))
      = Some (st3, 0)"
    "rzbm_ok st3" "avail st3 = avail st2 \<union> {midbase ..< midbase + midsz}"
    "managed st3 = managed st2 \<union> {midbase ..< midbase + midsz}"
    "zbm_maxfree st3 = zbm_maxfree st2 + midsz" "zbm_resv st3 = zbm_resv st2"
    "pse_frames st3 = pse_frames st2 \<union> aligned_frames base npages" unfolding k(7) by auto
  have cover: "{base ..< base + presz} \<union> {midbase + midsz ..< midbase + midsz + postsz} \<union>
      {midbase ..< midbase + midsz} = {base ..< base + npages}"
    using k(1,2) by auto
  have "rzbm_init_chunk st base npages cg = Some (st3, 0)"
    using n s1(1) s2(1) s3(1) unfolding rzbm_init_chunk_def c
    by (simp add: PSE_NPAGES_def)
  moreover have "avail st3 = avail st \<union> {base ..< base + npages}"
    unfolding s3(3) s2(3) s1(3) cover [symmetric] by (simp add: Un_assoc)
  moreover have "managed st3 = managed st \<union> {base ..< base + npages}"
    unfolding s3(4) s2(4) s1(4) cover [symmetric] by (simp add: Un_assoc)
  ultimately show ?thesis using s3(2,5-7) s2(5-7) s1(5-7) k(2) by auto
qed

end
