(* ===== verification/RzbmProps.thy ===== *)
theory RzbmProps
  imports RzbmInit
begin

text \<open>
  The properties of the page allocator. Its operations refine one set of free pages; every state
  the kernel can reach passes the consistency check \<open>rzbm_audit\<close> of the DEBUG build and never hands
  out a page twice; reservations stay within the memory there is.
\<close>

section \<open>The audit\<close>

lemma card_filter_upt: "length (filter P [0..<n]) = card {i. i < n \<and> P i}"
  by (simp add: length_filter_conv_card cong: conj_cong)

lemma TEST1_Cons:
  "BITMASKN_TEST1 (w # mp) b = (if b < NBITPW then bit w b else BITMASKN_TEST1 mp (b - NBITPW))"
proof (cases "b < NBITPW")
  case False
  then have "b div NBITPW = Suc ((b - NBITPW) div NBITPW)" "b mod NBITPW = (b - NBITPW) mod NBITPW"
    by (simp_all add: le_div_geq le_mod_geq)
  with False show ?thesis by (simp add: BITMASKN_TEST1_def)
qed (simp add: BITMASKN_TEST1_def)

lemma TEST1_one_word: "i < NBITPW \<Longrightarrow> BITMASK1_TEST1 w i = bit w i"
proof -
  have "w AND push_bit i 1 \<noteq> 0 \<longleftrightarrow> bit w i" if "i < NBITPW"
    using that by (simp add: and_exp_eq_0_iff_not_bit)
  then show "i < NBITPW \<Longrightarrow> BITMASK1_TEST1 w i = bit w i" by (simp add: BITMASK1_TEST1_def)
qed

lemma nbits_card: "n \<le> length mp \<Longrightarrow> rzbm_nbits mp n = card {b. b < NBITPW * n \<and> BITMASKN_TEST1 mp b}"
proof (induction mp n rule: rzbm_nbits.induct)
  case (3 w mp n)
  let ?A = "{b. b < NBITPW \<and> bit w b}"
  let ?B = "{b. b < NBITPW * n \<and> BITMASKN_TEST1 mp b}"
  have "{b. b < NBITPW * Suc n \<and> BITMASKN_TEST1 (w # mp) b} = ?A \<union> (\<lambda>b. b + NBITPW) ` ?B"
  proof (intro set_eqI iffI)
    fix b assume "b \<in> {b. b < NBITPW * Suc n \<and> BITMASKN_TEST1 (w # mp) b}"
    then show "b \<in> ?A \<union> (\<lambda>b. b + NBITPW) ` ?B"
      by (cases "b < NBITPW") (auto simp: TEST1_Cons intro!: image_eqI [of b _ "b - NBITPW"])
  qed (auto simp: TEST1_Cons)
  moreover have "card (?A \<union> (\<lambda>b. b + NBITPW) ` ?B) = card ?A + card ?B"
    by (subst card_Un_disjoint) (auto simp: card_image)
  moreover have "filter (BITMASK1_TEST1 w) [0..<NBITPW] = filter (bit w) [0..<NBITPW]"
    by (rule filter_cong) (simp_all add: TEST1_one_word)
  ultimately show ?case using 3 by (simp add: card_filter_upt del: upt_Suc)
qed simp_all

lemma sum_cells: "(\<Sum>c<n. card {k. k < s \<and> P (c * s + k)}) = card {b. b < n * s \<and> P b}" for s :: nat
proof (induction n)
  case (Suc n)
  have "{b. b < Suc n * s \<and> P b} = {b. b < n * s \<and> P b} \<union> (\<lambda>k. n * s + k) ` {k. k < s \<and> P (n * s + k)}"
  proof (intro set_eqI iffI)
    fix b assume "b \<in> {b. b < Suc n * s \<and> P b}"
    then show "b \<in> {b. b < n * s \<and> P b} \<union> (\<lambda>k. n * s + k) ` {k. k < s \<and> P (n * s + k)}"
      by (cases "b < n * s") (auto intro!: image_eqI [of b _ "b - n * s"])
  qed auto
  moreover have "card ({b. b < n * s \<and> P b} \<union> (\<lambda>k. n * s + k) ` {k. k < s \<and> P (n * s + k)}) =
      card {b. b < n * s \<and> P b} + card {k. k < s \<and> P (n * s + k)}"
    by (subst card_Un_disjoint) (auto simp: card_image)
  ultimately show ?case using Suc by simp
qed simp

lemma audit_pool_ring:
  assumes "cells.seg (zbm_cell z) xs" "xs \<noteq> []" "distinct xs"
    "zbc_blink (zbm_cell z ! first) = last xs" "zbc_blink (zbm_cell z ! hd xs) = lastp"
    "\<forall>c \<in> set xs. zbc_nfree (zbm_cell z ! c) \<noteq> 0" "rv + length xs \<le> zbm_ncell z + 1"
  shows "audit_pool z first (hd xs) lastp rv fr = Some (rv + length xs - 1, fr + length xs)"
  using assms
proof (induction xs arbitrary: lastp rv fr)
  case (Cons a xs)
  show ?case
  proof (cases xs)
    case Nil
    with Cons.prems show ?thesis by (simp add: audit_pool.simps)
  next
    case (Cons b ys)
    note prems = Cons.prems
    have seg: "cells.seg (zbm_cell z) xs" "zbc_flink (zbm_cell z ! a) = hd xs"
      "zbc_blink (zbm_cell z ! hd xs) = a"
      using prems(1) Cons by auto
    have "a \<noteq> last xs" using prems(3) Cons last_in_set [of xs] by auto
    then have "audit_pool z first a lastp rv fr =
        audit_pool z first (hd xs) a (Suc rv) (Suc fr)"
      using prems Cons seg(2) by (subst audit_pool.simps) auto
    also have "\<dots> = Some (Suc rv + length xs - 1, Suc fr + length xs)"
      by (rule Cons.IH) (use prems Cons seg in auto)
    finally show ?thesis using Cons by simp
  qed
qed simp

lemma audit_pools_ok:
  assumes g: "geometry z" and po: "pools_ok z ps qs"
  shows "\<exists>rv. audit_pools z = Some (rv, length ps + length qs)"
proof -
  let ?pool = "\<lambda>xs rv fr. case head_of xs of None \<Rightarrow> Some (rv, fr)
    | Some c \<Rightarrow> audit_pool z c c (zbc_blink (zbm_cell z ! c)) rv fr"
  have sub: "set ps \<union> set qs \<subseteq> {..<zbm_ncell z}" "set ps \<inter> set qs = {}" "distinct ps" "distinct qs"
    using po pools_at_bound [of z ps qs] pools_at_distinct [of z ps qs] g
    by (auto simp: pools_ok_def pools_at_def geometry_def)
  have "card (set ps \<union> set qs) \<le> card {..<zbm_ncell z}" by (rule card_mono [OF _ sub(1)]) simp
  then have len: "length ps + length qs \<le> zbm_ncell z"
    using sub by (simp add: card_Un_disjoint distinct_card)
  have one: "?pool xs rv fr = Some (rv + length xs - 1, fr + length xs)"
    if r: "cells.ring_at (zbm_cell z) xs" "xs \<noteq> []" "rv + length xs \<le> zbm_ncell z + 1"
      "\<forall>c \<in> set xs. zbc_nfree (zbm_cell z ! c) \<noteq> 0" for xs rv fr
  proof -
    have "cells.seg (zbm_cell z) xs"
      using r(1,2) cells.seg_butlast by (auto simp: cells.ring_at_def)
    from audit_pool_ring [OF this r(2) _ cells.ring_blink_hd [OF r(1,2)] refl r(4,3)] r(1)
    have "audit_pool z (hd xs) (hd xs) (zbc_blink (zbm_cell z ! hd xs)) rv fr =
        Some (rv + length xs - 1, fr + length xs)"
      by (simp add: cells.ring_at_def)
    moreover have "head_of xs = Some (hd xs)" using r(2) by (simp add: head_of_Some)
    ultimately show ?thesis by simp
  qed
  have rings: "cells.ring_at (zbm_cell z) ps" "cells.ring_at (zbm_cell z) qs"
    "zbm_pool z = head_of ps" "zbm_psepool z = head_of qs"
    using po by (simp_all add: pools_ok_def pools_at_def)
  have nz: "\<forall>c \<in> set ps. zbc_nfree (zbm_cell z ! c) \<noteq> 0" "\<forall>c \<in> set qs. zbc_nfree (zbm_cell z ! c) \<noteq> 0"
    using po by (auto simp: pools_ok_def PSE_NPAGES_def)
  have p: "\<exists>rv. ?pool ps 0 0 = Some (rv, length ps) \<and> rv \<le> length ps"
    using one [OF rings(1) _ _ nz(1), of 0 0] len by (cases "ps = []") auto
  then obtain rv where rv: "?pool ps 0 0 = Some (rv, length ps)" "rv \<le> length ps" by blast
  have "\<exists>rv'. ?pool qs rv (length ps) = Some (rv', length ps + length qs)"
    using one [OF rings(2) _ _ nz(2), of rv "length ps"] len rv(2) by (cases "qs = []") auto
  with rv(1) show ?thesis unfolding audit_pools_def rings by simp
qed

lemma chunk_ok_audit:
  assumes "chunk_ok z"
  shows "rzbm_audit z"
proof -
  from assms obtain ps qs where g: "geometry z" and co: "cells_ok z" and po: "pools_ok z ps qs"
    by (auto simp: chunk_ok_def)
  let ?bm = "zbm_bitmap z" and ?N = "NBITPW * length (zbm_bitmap z)" and ?cs = "zbm_cellsize z"
  have geo: "length (zbm_cell z) = zbm_ncell z" "zbm_ncell z * ?cs = ?N" "zbm_mapwidth z = length ?bm"
    "zbm_mapsize z + zbm_unavail z = ?N" "2 ^ zbm_cwshft z = zbm_cellwidth z" "?cs = NBITPW * zbm_cellwidth z"
    using g by (simp_all add: geometry_def)
  have nf: "zbc_nfree (zbm_cell z ! c) = card (cell_free z c)" if "c < zbm_ncell z" for c
    using co that by (simp add: cells_ok_def)
  have split: "card {b. b < n \<and> BITMASKN_TEST1 bm (m + b)} + card {b. b < n \<and> \<not> BITMASKN_TEST1 bm (m + b)} = n"
    for n m bm
  proof -
    have "{b. b < n \<and> BITMASKN_TEST1 bm (m + b)} \<union> {b. b < n \<and> \<not> BITMASKN_TEST1 bm (m + b)} = {..<n}" by auto
    then show ?thesis by (subst card_Un_disjoint [symmetric]) auto
  qed
  have sum: "sum_list (map zbc_nfree (take (zbm_ncell z) (zbm_cell z))) =
      card {b. b < ?N \<and> \<not> BITMASKN_TEST1 ?bm b}"
  proof -
    have "sum_list (map zbc_nfree (take (zbm_ncell z) (zbm_cell z))) = (\<Sum>c<zbm_ncell z. card (cell_free z c))"
      using geo(1) nf by (simp add: sum_list_sum_nth atLeast0LessThan)
    also have "\<dots> = card {b. b < zbm_ncell z * ?cs \<and> \<not> BITMASKN_TEST1 ?bm b}"
      unfolding cell_free_def by (rule sum_cells)
    finally show ?thesis by (simp only: geo(2))
  qed
  have 1: "int (zbm_mapsize z) - int (sum_list (map zbc_nfree (take (zbm_ncell z) (zbm_cell z)))) =
      int (rzbm_nbits ?bm (zbm_mapwidth z)) - int (zbm_unavail z)"
    using nbits_card [of "length ?bm" ?bm] split [of ?N ?bm 0] geo(4) unfolding sum geo(3) by simp
  have 2: "int (rzbm_nbits (drop (i * 2 ^ zbm_cwshft z) ?bm) (zbm_cellwidth z)) =
      int ?cs - int (zbc_nfree (zbm_cell z ! i)) \<and> zbc_cursor (zbm_cell z ! i) \<le> zbm_cellwidth z"
    if i: "i < zbm_ncell z" for i
  proof -
    have le: "i * zbm_cellwidth z + zbm_cellwidth z \<le> length ?bm" by (rule cell_words_le [OF g i])
    have "rzbm_nbits (drop (i * zbm_cellwidth z) ?bm) (zbm_cellwidth z) =
        card {b. b < ?cs \<and> BITMASKN_TEST1 ?bm (i * ?cs + b)}"
    proof -
      have off: "i * zbm_cellwidth z \<le> length ?bm"
        and w: "zbm_cellwidth z \<le> length (drop (i * zbm_cellwidth z) ?bm)" using le by simp_all
      have "BITMASKN_TEST1 (drop (i * zbm_cellwidth z) ?bm) b = BITMASKN_TEST1 ?bm (i * ?cs + b)" for b
        unfolding TEST1_drop [OF off] geo(6) by (simp add: algebra_simps)
      then show ?thesis unfolding nbits_card [OF w] geo(6) [symmetric] by simp
    qed
    moreover have "zbc_nfree (zbm_cell z ! i) = card {k. k < ?cs \<and> \<not> BITMASKN_TEST1 ?bm (i * ?cs + k)}"
      using nf [OF i] by (simp only: cell_free_def)
    moreover note split [of ?cs ?bm "i * ?cs"]
    ultimately have "int (rzbm_nbits (drop (i * zbm_cellwidth z) ?bm) (zbm_cellwidth z)) =
        int ?cs - int (zbc_nfree (zbm_cell z ! i))" by linarith
    then show ?thesis unfolding geo(5) using co i by (simp add: cells_ok_def)
  qed
  have 3: "length ps + length qs + length (filter (\<lambda>i. zbc_nfree (zbm_cell z ! i) = 0) [0..<zbm_ncell z])
      = zbm_ncell z"
  proof -
    let ?Z = "{i. i < zbm_ncell z \<and> zbc_nfree (zbm_cell z ! i) = 0}"
    have sets: "set ps = {c. c < zbm_ncell z \<and> zbc_nfree (zbm_cell z ! c) \<notin> {0, PSE_NPAGES}}"
      "set qs = {c. c < zbm_ncell z \<and> zbc_nfree (zbm_cell z ! c) = PSE_NPAGES}" "distinct ps" "distinct qs"
      using po pools_at_distinct [of z ps qs] by (simp_all add: pools_ok_def)
    have all: "(set ps \<union> set qs) \<union> ?Z = {..<zbm_ncell z}"
      unfolding sets(1,2) by (auto simp: PSE_NPAGES_def)
    have dis: "(set ps \<union> set qs) \<inter> ?Z = {}" "set ps \<inter> set qs = {}"
      unfolding sets(1,2) by (auto simp: PSE_NPAGES_def)
    have "card ((set ps \<union> set qs) \<union> ?Z) = card (set ps \<union> set qs) + card ?Z"
      by (rule card_Un_disjoint) (simp_all add: dis(1))
    moreover have "card (set ps \<union> set qs) = card (set ps) + card (set qs)"
      by (rule card_Un_disjoint) (simp_all add: dis(2))
    ultimately have "card (set ps) + card (set qs) + card ?Z = zbm_ncell z"
      unfolding all by simp
    then show ?thesis using sets(3,4) by (simp add: card_filter_upt distinct_card)
  qed
  from audit_pools_ok [OF g po] obtain rv where "audit_pools z = Some (rv, length ps + length qs)" ..
  with 1 2 3 show ?thesis unfolding rzbm_audit_def Let_def by simp
qed

section \<open>The states the kernel can reach\<close>

definition rzbm_init :: rzbm_list where
  "rzbm_init = \<lparr>zbm_heap = [], zbm_chunk = None, zbm_nchunk = 0, zbm_maxfree = 0, zbm_resv = 0\<rparr>"

lemma rzbm_init_ok: "rzbm_ok rzbm_init" "avail rzbm_init = {}" "managed rzbm_init = {}" "pse_frames rzbm_init = {}"
  by (auto simp: pse_frames_def rzbm_init_def rzbm_ok_def chunks_linked_def chunks.ring_at_def avail_def managed_def)

text \<open>
  A caller of the allocator together with the set of the pages it holds. It frees what it holds,
  as a page or as a 4M page; new chunks lie outside the memory there is.
\<close>

inductive rzbm_step :: "rzbm_list \<times> nat set \<Rightarrow> rzbm_list \<times> nat set \<Rightarrow> bool" where
  step_chunk: "{base ..< base + npages} \<inter> managed st = {} \<Longrightarrow> zbm_maxfree st + npages < 2 ^ 32 \<Longrightarrow>
    rzbm_init_chunk st base npages cg = Some (st', r) \<Longrightarrow> rzbm_step (st, held) (st', held)"
| step_alloc: "rzbm_alloc st cg PAGESIZE = Some (st', pf) \<Longrightarrow> rzbm_step (st, held) (st', insert pf held)"
| step_pse: "rzbm_alloc st cg PSE_PAGESIZE = Some (st', pf) \<Longrightarrow> pf \<noteq> 0 \<Longrightarrow>
    rzbm_step (st, held) (st', held \<union> {pf ..< pf + PSE_NPAGES})"
| step_free: "pf \<in> held \<Longrightarrow> rzbm_free st pf PAGESIZE = Some st' \<Longrightarrow>
    rzbm_step (st, held) (st', held - {pf})"
| step_free_pse: "pf \<in> pse_frames st \<Longrightarrow> {pf ..< pf + PSE_NPAGES} \<subseteq> held \<Longrightarrow>
    rzbm_free st pf PSE_PAGESIZE = Some st' \<Longrightarrow>
    rzbm_step (st, held) (st', held - {pf ..< pf + PSE_NPAGES})"
| step_resv: "rzbm_resv st n sleep = Some (st', r) \<Longrightarrow> rzbm_step (st, held) (st', held)"
| step_unresv: "rzbm_step (st, held) (rzbm_unresv st n, held)"

inductive rzbm_reach :: "rzbm_list \<times> nat set \<Rightarrow> bool" where
  reach_init: "rzbm_reach (rzbm_init, {})"
| reach_step: "rzbm_reach s \<Longrightarrow> rzbm_step s s' \<Longrightarrow> rzbm_reach s'"

definition owned_ok :: "rzbm_list \<times> nat set \<Rightarrow> bool" where
  "owned_ok s \<longleftrightarrow> (case s of (st, held) \<Rightarrow>
     rzbm_ok st \<and> held \<inter> avail st = {} \<and> held \<union> avail st = managed st)"

lemma links_only:
  "zbm_heap st' = zbm_heap st \<Longrightarrow> zbm_chunk st' = zbm_chunk st \<Longrightarrow> zbm_nchunk st' = zbm_nchunk st \<Longrightarrow>
    rzbm_ok st' = rzbm_ok st \<and> avail st' = avail st \<and> managed st' = managed st"
  by (simp add: rzbm_ok_def chunks_linked_def avail_def managed_def)

lemma owned_step: "rzbm_step s s' \<Longrightarrow> owned_ok s \<Longrightarrow> owned_ok s'"
proof (induction rule: rzbm_step.induct)
  case (step_chunk base npages st cg st' r held)
  then show ?case
    using init_chunk_ok [OF _ step_chunk(1,2), of cg] by (auto simp: owned_ok_def)
next
  case (step_alloc st cg st' pf held)
  then show ?case
    using alloc_4k [of st PAGESIZE cg] by (auto simp: owned_ok_def PAGESIZE_def PSE_PAGESIZE_def)
next
  case (step_pse st cg st' pf held)
  then have "rzbm_psealloc st cg = Some (st', pf)" by (simp add: rzbm_alloc_def)
  with step_pse alloc_4m [of st cg] show ?case by (auto simp: owned_ok_def)
next
  case (step_free pf held st st')
  then have "rzbm_ok st" "pf \<in> managed st" "pf \<notin> avail st" by (auto simp: owned_ok_def)
  from free_4k [OF this] step_free show ?case by (auto simp: owned_ok_def)
next
  case (step_free_pse pf st held st')
  then have "rzbm_ok st" "{pf ..< pf + PSE_NPAGES} \<inter> avail st = {}" by (auto simp: owned_ok_def)
  from free_4m [OF this(1) step_free_pse(1) this(2)] step_free_pse show ?case
    by (auto simp: owned_ok_def)
next
  case (step_resv st n sleep st' r held)
  then show ?case
    using links_only [of st' st] by (auto simp: owned_ok_def rzbm_resv_def split: if_splits)
next
  case (step_unresv st held n)
  then show ?case
    using links_only [of "rzbm_unresv st n" st] by (auto simp: owned_ok_def rzbm_unresv_def)
qed

lemma reach_owned: "rzbm_reach s \<Longrightarrow> owned_ok s"
proof (induction rule: rzbm_reach.induct)
  case reach_init
  show ?case by (simp add: owned_ok_def rzbm_init_ok)
next
  case (reach_step s s')
  then show ?case using owned_step by blast
qed

text \<open>A machine with two ranges of memory, for the witnesses.\<close>

lemma boot_example:
  "\<exists>st. rzbm_init_chunk rzbm_init 1000 3000 0 = Some (st, 0) \<and> rzbm_ok st \<and>
    avail st = {1000..<4000} \<and> managed st = {1000..<4000} \<and> pse_frames st = aligned_frames 1000 3000 \<and>
    zbm_maxfree st = 3000 \<and> zbm_resv st = 0"
proof -
  have "zbm_maxfree rzbm_init = 0" "zbm_resv rzbm_init = 0" by (simp_all add: rzbm_init_def)
  then show ?thesis using init_chunk_ok [OF rzbm_init_ok(1), of 1000 3000 0] by (simp add: rzbm_init_ok)
qed

lemma boot_reach:
  "\<exists>st. rzbm_init_chunk rzbm_init 1000 3000 0 = Some (st, 0) \<and> rzbm_reach (st, {}) \<and> rzbm_ok st \<and>
    avail st = {1000..<4000} \<and> pse_frames st = aligned_frames 1000 3000"
proof -
  from boot_example obtain st where st: "rzbm_init_chunk rzbm_init 1000 3000 0 = Some (st, 0)"
    "rzbm_ok st" "avail st = {1000..<4000}" "pse_frames st = aligned_frames 1000 3000" by blast
  have "zbm_maxfree rzbm_init = 0" by (simp add: rzbm_init_def)
  then have "rzbm_step (rzbm_init, {}) (st, {})"
    by (intro step_chunk [OF _ _ st(1)]) (simp_all add: rzbm_init_ok)
  with st show ?thesis using reach_step [OF reach_init] by blast
qed

section \<open>Properties\<close>

text \<open>C4: \<open>rzbm_init_chunk\<close> succeeds on a range outside the memory there is. Whatever the alignment of
  the range, the up to three chunks it is carved into cover it exactly: all its pages become free
  pages of the allocator, the totals are raised by their number, and the invariant holds. The 4M pages that can
  be handed out gain exactly the multiples of 4M that lie in the range with all their pages.\<close>

theorem rzbm_init_chunk_covers:
  assumes "rzbm_ok st" "{base ..< base + npages} \<inter> managed st = {}" "zbm_maxfree st + npages < 2 ^ 32"
  shows "\<exists>st'. rzbm_init_chunk st base npages cg = Some (st', 0) \<and> rzbm_ok st' \<and>
    avail st' = avail st \<union> {base ..< base + npages} \<and>
    managed st' = managed st \<union> {base ..< base + npages} \<and>
    pse_frames st' = pse_frames st \<union> aligned_frames base npages \<and>
    rzbm_memsize st' = rzbm_memsize st + npages"
  using init_chunk_ok [OF assms, of cg] by (auto simp: rzbm_memsize_def)

theorem rzbm_init_chunk_covers_witness:
  "\<exists>st'. rzbm_init_chunk rzbm_init 1000 3000 0 = Some (st', 0) \<and> avail st' = {1000..<4000}"
proof -
  have "zbm_maxfree rzbm_init = 0" by (simp add: rzbm_init_def)
  then show ?thesis using rzbm_init_chunk_covers [OF rzbm_init_ok(1), of 1000 3000 0]
    by (auto simp: rzbm_init_ok)
qed

text \<open>C5: \<open>rzbm_alloc\<close> of a 4K page refines the removal of one element of the set of free pages: the
  page it returns was free, exactly that page stops being free, and the invariant is kept; it panics
  only if no page of any chunk, of whatever CPU group, is free.\<close>

theorem rzbm_alloc_refines:
  assumes "rzbm_ok st"
  shows "case rzbm_alloc st cg PAGESIZE of
      None \<Rightarrow> avail st = {}
    | Some (st', pf) \<Rightarrow> rzbm_ok st' \<and> pf \<in> avail st \<and> avail st' = avail st - {pf} \<and>
        managed st' = managed st"
  using alloc_4k [OF assms, of PAGESIZE cg] by (auto simp: PAGESIZE_def PSE_PAGESIZE_def)

theorem rzbm_alloc_refines_witness:
  "\<exists>st st' pf. rzbm_alloc st 7 PAGESIZE = Some (st', pf) \<and> pf \<in> {1000..<4000} \<and>
     avail st' = {1000..<4000} - {pf}"
proof -
  from boot_example obtain st where st: "rzbm_ok st" "avail st = {1000..<4000}" by blast
  from rzbm_alloc_refines [OF st(1), of 7] st(2) show ?thesis
    by (cases "rzbm_alloc st 7 PAGESIZE") auto
qed

text \<open>C6: in every state reachable from the empty allocator, \<open>rzbm_alloc\<close> of a 4M page either hands out
  1024 consecutive free pages that start at a multiple of 4M, held by nobody, and takes exactly those away,
  keeping the invariant; or it returns 0 and changes nothing, and then none of the 4M pages of the chunks is
  wholly free. (The 4M pages of the chunks are those of \<open>rzbm_init_chunk_covers\<close>: all that lie in one of the
  ranges added. Were memory added from page 0 on, its first 4M page could not be told from a failure.)\<close>

theorem rzbm_psealloc_refines:
  assumes "rzbm_reach (st, held)"
  shows "\<exists>st' pf. rzbm_alloc st cg PSE_PAGESIZE = Some (st', pf) \<and>
    (pf = 0 \<and> st' = st \<and> (\<forall>f \<in> pse_frames st. \<not> {f ..< f + PSE_NPAGES} \<subseteq> avail st) \<or>
     rzbm_ok st' \<and> pf mod PSE_NPAGES = 0 \<and> pf \<in> pse_frames st \<and>
     {pf ..< pf + PSE_NPAGES} \<subseteq> avail st \<and> {pf ..< pf + PSE_NPAGES} \<inter> held = {} \<and>
     avail st' = avail st - {pf ..< pf + PSE_NPAGES} \<and> managed st' = managed st)"
proof -
  have ok: "rzbm_ok st" and h: "held \<inter> avail st = {}" using reach_owned [OF assms] by (simp_all add: owned_ok_def)
  note al = pse_frames_aligned [OF ok]
  from alloc_4m [OF ok, of cg] show ?thesis
  proof (elim disjE exE conjE)
    fix st' pf assume a: "rzbm_psealloc st cg = Some (st', pf)" "rzbm_ok st'" "{pf ..< pf + PSE_NPAGES} \<subseteq> avail st"
      "avail st' = avail st - {pf ..< pf + PSE_NPAGES}" "managed st' = managed st" "pf \<in> pse_frames st"
    have "{pf ..< pf + PSE_NPAGES} \<inter> held = {}" using a(3) h by blast
    with a al [OF a(6)] show ?thesis by (simp add: rzbm_alloc_def)
  qed (simp add: rzbm_alloc_def)
qed

text \<open>A range from 1000 to 4000 holds the 4M pages 1024 and 2048; one of them is handed out.\<close>

lemma frames_example: "aligned_frames 1000 3000 = {1024, 2048}"
proof (rule set_eqI, rule iffI)
  fix f :: nat
  assume "f \<in> aligned_frames 1000 3000"
  then have f: "f mod 1024 = 0" "1000 \<le> f" "f \<le> 2976" by (simp_all add: aligned_frames_iff)
  from f(1) obtain a where a: "f = 1024 * a" by (meson mod_0_imp_dvd dvdE)
  then have "0 < a" "a < 3" using f(2,3) by simp_all
  then have "a = 1 \<or> a = 2" by linarith
  then show "f \<in> {1024, 2048}" using a by auto
qed (auto simp: aligned_frames_iff)

theorem rzbm_psealloc_refines_witness:
  "\<exists>st st' pf. rzbm_init_chunk rzbm_init 1000 3000 0 = Some (st, 0) \<and>
     rzbm_alloc st 0 PSE_PAGESIZE = Some (st', pf) \<and> pf \<in> {1024, 2048} \<and>
     avail st' = {1000..<4000} - {pf ..< pf + 1024}"
proof -
  from boot_reach obtain st where st: "rzbm_init_chunk rzbm_init 1000 3000 0 = Some (st, 0)" "rzbm_reach (st, {})"
    "avail st = {1000..<4000}" "pse_frames st = {1024, 2048}" unfolding frames_example by blast
  have n: "\<not> (\<forall>f \<in> pse_frames st. \<not> {f ..< f + PSE_NPAGES} \<subseteq> avail st)" by (simp add: st(3,4) PSE_NPAGES_def)
  from rzbm_psealloc_refines [OF st(2), of 0] n st show ?thesis by (auto simp: PSE_NPAGES_def)
qed

text \<open>C7: \<open>rzbm_free\<close> of a page in use makes exactly that page free again and keeps the invariant,
  whichever chunk and cell the page belongs to (a cell that was full returns to the 4K pool, one that
  becomes wholly free moves to the 4M pool).\<close>

theorem rzbm_free_refines:
  assumes "rzbm_ok st" "pf \<in> managed st" "pf \<notin> avail st"
  shows "\<exists>st'. rzbm_free st pf PAGESIZE = Some st' \<and> rzbm_ok st' \<and>
    avail st' = insert pf (avail st) \<and> managed st' = managed st"
  using free_4k [OF assms] .

theorem rzbm_free_refines_witness:
  "\<exists>st st1 st2 pf. rzbm_alloc st 0 PAGESIZE = Some (st1, pf) \<and> rzbm_free st1 pf PAGESIZE = Some st2 \<and>
     avail st2 = avail st"
proof -
  from boot_example obtain st where st: "rzbm_ok st" "avail st = {1000..<4000}" "managed st = {1000..<4000}"
    by blast
  from alloc_4k [OF st(1), of PAGESIZE 0] st(2) obtain st1 pf where
    a: "rzbm_alloc st 0 PAGESIZE = Some (st1, pf)" "rzbm_ok st1" "pf \<in> avail st"
      "avail st1 = avail st - {pf}" "managed st1 = managed st"
    by (auto simp: PAGESIZE_def PSE_PAGESIZE_def)
  from rzbm_free_refines [OF a(2), of pf] a(3,4,5) st(2,3) obtain st2 where
    "rzbm_free st1 pf PAGESIZE = Some st2" "avail st2 = insert pf (avail st1)" by auto
  with a show ?thesis by (metis insert_Diff)
qed

text \<open>\<open>rzbm_free\<close> of a 4M page whose 1024 pages are in use makes exactly those pages free again
  and keeps the invariant.\<close>

theorem rzbm_free_pse_refines:
  assumes "rzbm_ok st" "pf \<in> pse_frames st" "{pf ..< pf + PSE_NPAGES} \<inter> avail st = {}"
  shows "\<exists>st'. rzbm_free st pf PSE_PAGESIZE = Some st' \<and> rzbm_ok st' \<and>
    avail st' = avail st \<union> {pf ..< pf + PSE_NPAGES} \<and> managed st' = managed st"
  using free_4m [OF assms] .

text \<open>A range of one 4M page, aligned: the first allocation takes it.\<close>

lemma boot_pse:
  "\<exists>st st1 pf. rzbm_ok st \<and> rzbm_alloc st 0 PSE_PAGESIZE = Some (st1, pf) \<and> rzbm_ok st1 \<and>
     pf \<in> pse_frames st1 \<and> avail st1 = avail st - {pf ..< pf + PSE_NPAGES} \<and>
     {pf ..< pf + PSE_NPAGES} \<subseteq> avail st"
proof -
  have "zbm_maxfree rzbm_init = 0" by (simp add: rzbm_init_def)
  then obtain st where st: "rzbm_ok st" "avail st = {1024..<2048}" "1024 \<in> pse_frames st"
    using init_chunk_actual_ok [OF rzbm_init_ok(1), of 1024 1024 0] by (auto simp: rzbm_init_ok aligned_frames_iff)
  have "{1024 ..< 1024 + PSE_NPAGES} \<subseteq> avail st" by (simp add: st(2) PSE_NPAGES_def)
  with alloc_4m [OF st(1), of 0] st(3) obtain st1 pf where
    a: "rzbm_psealloc st 0 = Some (st1, pf)" "rzbm_ok st1" "{pf ..< pf + PSE_NPAGES} \<subseteq> avail st"
      "avail st1 = avail st - {pf ..< pf + PSE_NPAGES}" "pf \<in> pse_frames st" by blast
  have "pse_frames st1 = pse_frames st" using psealloc_frames [OF st(1) a(1)] .
  with st a show ?thesis by (auto simp: rzbm_alloc_def)
qed

theorem rzbm_free_pse_refines_witness:
  "\<exists>st st1 st2 pf. rzbm_alloc st 0 PSE_PAGESIZE = Some (st1, pf) \<and>
     rzbm_free st1 pf PSE_PAGESIZE = Some st2 \<and> avail st2 = avail st"
proof -
  from boot_pse obtain st st1 pf where a: "rzbm_alloc st 0 PSE_PAGESIZE = Some (st1, pf)"
    "rzbm_ok st1" "pf \<in> pse_frames st1" "avail st1 = avail st - {pf ..< pf + PSE_NPAGES}"
    "{pf ..< pf + PSE_NPAGES} \<subseteq> avail st" by blast
  then have "{pf ..< pf + PSE_NPAGES} \<inter> avail st1 = {}" by auto
  from rzbm_free_pse_refines [OF a(2,3) this] a(4,5) obtain st2 where
    "rzbm_free st1 pf PSE_PAGESIZE = Some st2" "avail st2 = avail st" by auto
  with a(1) show ?thesis by blast
qed

text \<open>Every chunk that satisfies the invariant passes \<open>rzbm_audit\<close>, the consistency check of the
  DEBUG build: bit counts, cell counts, cursors, and the links and sizes of both pools agree.\<close>

theorem rzbm_audit_passes:
  assumes "chunk_ok z"
  shows "rzbm_audit z"
  using chunk_ok_audit [OF assms] .

theorem rzbm_audit_passes_witness:
  "\<exists>(st::rzbm_list) z. zbm_heap st \<noteq> [] \<and> z \<in> set (zbm_heap st) \<and> rzbm_audit z"
proof -
  from boot_example obtain st where st: "rzbm_ok st" "avail st = {1000..<4000}" by blast
  have ne: "zbm_heap st \<noteq> []"
  proof
    assume "zbm_heap st = []"
    then have "avail st = {}" by (simp add: avail_def)
    with st(2) show False by simp
  qed
  then have "chunk_ok (zbm_heap st ! 0)" using st(1) by (simp add: rzbm_ok_def)
  from rzbm_audit_passes [OF this] ne show ?thesis
    by (intro exI [of _ st] exI [of _ "zbm_heap st ! 0"]) simp
qed

text \<open>C8: no page is ever handed out twice. In every state reachable from the empty allocator by
  adding ranges, allocating and freeing pages of both sizes, reserving and unreserving, the pages
  held by callers and the free pages partition the memory, every chunk passes the audit, and a page
  that \<open>rzbm_alloc\<close> returns next is not held by anybody.\<close>

theorem rzbm_no_double_allocation:
  assumes "rzbm_reach (st, held)"
  shows "held \<inter> avail st = {} \<and> held \<union> avail st = managed st \<and>
    (\<forall>z \<in> set (zbm_heap st). rzbm_audit z) \<and>
    (\<forall>st' pf. rzbm_alloc st cg PAGESIZE = Some (st', pf) \<longrightarrow> pf \<notin> held \<and> pf \<in> managed st)"
proof (intro conjI)
  have o: "owned_ok (st, held)" by (rule reach_owned [OF assms])
  then show "held \<inter> avail st = {}" "held \<union> avail st = managed st" by (simp_all add: owned_ok_def)
  from o have ok: "rzbm_ok st" by (simp add: owned_ok_def)
  show "\<forall>z \<in> set (zbm_heap st). rzbm_audit z"
  proof
    fix z assume "z \<in> set (zbm_heap st)"
    with ok have "chunk_ok z" by (auto simp: rzbm_ok_def in_set_conv_nth)
    then show "rzbm_audit z" by (rule chunk_ok_audit)
  qed
  show "\<forall>st' pf. rzbm_alloc st cg PAGESIZE = Some (st', pf) \<longrightarrow> pf \<notin> held \<and> pf \<in> managed st"
    using alloc_4k [OF ok, of PAGESIZE cg] o by (auto simp: owned_ok_def PAGESIZE_def PSE_PAGESIZE_def)
qed

theorem rzbm_no_double_allocation_witness:
  "\<exists>st pf. rzbm_reach (st, {pf}) \<and> {pf} \<inter> avail st = {} \<and> pf \<in> {1000..<4000}"
proof -
  from boot_reach obtain st where r: "rzbm_reach (st, {})" and st: "rzbm_ok st" "avail st = {1000..<4000}" by blast
  from alloc_4k [OF st(1), of PAGESIZE 0] st(2) obtain st1 pf where
    a: "rzbm_alloc st 0 PAGESIZE = Some (st1, pf)" "pf \<in> avail st"
    by (auto simp: PAGESIZE_def PSE_PAGESIZE_def)
  from reach_step [OF r step_alloc [OF a(1)]] have r1: "rzbm_reach (st1, {pf})" by simp
  from rzbm_no_double_allocation [OF r1] r1 a(2) st(2) show ?thesis by auto
qed

text \<open>reservations. As long as the 32-bit sum does not wrap, \<open>rzbm_resv\<close> grants a reservation
  exactly when it fits in the memory there is, so that the total reserved never exceeds it;
  otherwise it changes nothing and fails, or waits if the caller may sleep; and \<open>rzbm_unresv\<close> undoes
  a reservation that was granted.\<close>

theorem rzbm_resv_exact:
  assumes "zbm_resv st + n < 2 ^ 32"
  shows "case rzbm_resv st n sleep of
      None \<Rightarrow> sleep \<and> rzbm_memsize st < zbm_resv st + n
    | Some (st', r) \<Rightarrow>
        (r = 1 \<and> zbm_resv st' = zbm_resv st + n \<and> zbm_resv st' \<le> rzbm_memsize st' \<and>
         rzbm_unresv st' n = st) \<or>
        (r = 0 \<and> \<not> sleep \<and> st' = st \<and> rzbm_memsize st < zbm_resv st + n)"
  using assms by (auto simp: rzbm_resv_def rzbm_unresv_def rzbm_memsize_def)

theorem rzbm_resv_exact_witness:
  "\<exists>st'. rzbm_resv (rzbm_init\<lparr>zbm_maxfree := 10\<rparr>) 4 False = Some (st', 1) \<and> zbm_resv st' = 4"
  using rzbm_resv_exact [of "rzbm_init\<lparr>zbm_maxfree := 10\<rparr>" 4 False]
  by (simp add: rzbm_init_def rzbm_resv_def)

text \<open>\<open>rzbm_deinit_chunk\<close> compares the size it is given with the base of a chunk, not with its
  size. So it refuses every range whose base and size differ, in particular an existing, wholly free
  chunk; only a range with equal base and size can pass.\<close>

theorem rzbm_deinit_refuses:
  assumes "rzbm_ok st" "z \<in> set (zbm_heap st)" "free_pages z = pages z" "zbm_base z \<noteq> zbm_size z"
  shows "rzbm_deinit_chunk junk st (zbm_base z) (zbm_size z) = Some (st, 1)"
proof -
  from assms(1) obtain xs where xs: "chunks_linked st xs" by (auto simp: rzbm_ok_def)
  show ?thesis
  proof (cases "xs = []")
    case True
    with xs show ?thesis by (simp add: rzbm_deinit_chunk_def chunks_linked_def)
  next
    case False
    have n: "zbm_nchunk st = length xs" using xs by (simp add: chunks_linked_def)
    have "find (\<lambda>i. zbm_base z = zbm_base (zbm_heap st ! i) \<and> zbm_size z = zbm_base (zbm_heap st ! i)) xs = None"
      using assms(4) by (auto simp: find_None_iff)
    then show ?thesis
      using deinit_scan_find [OF linked_seg [OF xs False] False]
      by (simp add: rzbm_deinit_chunk_def linked_head [OF xs False] n)
  qed
qed

theorem rzbm_deinit_refuses_witness:
  "\<exists>st z. z \<in> set (zbm_heap st) \<and> free_pages z = {1024..<1124} \<and>
     rzbm_deinit_chunk 0 st 1024 100 = Some (st, 1)"
proof -
  have "zbm_maxfree rzbm_init = 0" by (simp add: rzbm_init_def)
  then obtain st z where st: "rzbm_ok st" "z \<in> set (zbm_heap st)" "zbm_base z = 1024" "zbm_size z = 100"
    "free_pages z = pages z"
    using init_chunk_actual_ok [OF rzbm_init_ok(1), of 100 1024 0] by (auto simp: rzbm_init_ok)
  then have "free_pages z = {1024..<1124}" by (simp add: pages_def)
  with rzbm_deinit_refuses [OF st(1,2,5), of 0] st show ?thesis by auto
qed

end
