(* ===== verification/DosConv.thy ===== *)
theory DosConv
  imports KPrelude "HOL-Library.Monad_Syntax"
begin

text \<open>
  The conversion between UNIX and DOS time of \<open>fs/dosfs/dosfs_conv.c\<close>, with the file's static
  variables, which remember the last conversion in each direction, as the state \<open>conv\<close>. The unions of
  bit fields are records of words of the fields' widths.
\<close>

section \<open>Dates and times\<close>

record dostime =
  dt_2seconds :: "5 word"
  dt_minutes :: "6 word"
  dt_hours :: "5 word"

record dosdate =
  dd_day :: "5 word"
  dd_month :: "4 word"
  dd_year :: "7 word"

text \<open>The 16 bits the fields are stored in, the first field lowest.\<close>

definition dti :: "dostime \<Rightarrow> u16" where
  "dti t = ucast (dt_2seconds t) OR push_bit 5 (ucast (dt_minutes t)) OR push_bit 11 (ucast (dt_hours t))"

definition ddi :: "dosdate \<Rightarrow> u16" where
  "ddi d = ucast (dd_day d) OR push_bit 5 (ucast (dd_month d)) OR push_bit 9 (ucast (dd_year d))"

definition dts :: "u16 \<Rightarrow> dostime" where
  "dts w = \<lparr>dt_2seconds = ucast w, dt_minutes = ucast (drop_bit 5 w), dt_hours = ucast (drop_bit 11 w)\<rparr>"

definition dds :: "u16 \<Rightarrow> dosdate" where
  "dds w = \<lparr>dd_day = ucast w, dd_month = ucast (drop_bit 5 w), dd_year = ucast (drop_bit 9 w)\<rparr>"

record conv =
  c_lasttime :: uint_t
  c_lastday :: nat
  c_lastddate :: dosdate
  c_lastdtime :: dostime
  c_lastdosdate :: dosdate
  c_lastseconds :: uint_t

text \<open>The initial values: all zero.\<close>

definition conv_init :: conv where
  "conv_init = \<lparr>c_lasttime = 0, c_lastday = 0, c_lastddate = dds 0, c_lastdtime = dts 0,
     c_lastdosdate = dds 0, c_lastseconds = 0\<rparr>"

text \<open>The time zone is a static variable nobody sets.\<close>

definition tz_minuteswest :: int where
  "tz_minuteswest = 0"

definition regyear :: "nat list" where
  "regyear = [31, 28, 31, 30, 31, 30, 31, 31, 30, 31, 30, 31]"

definition leapyear :: "nat list" where
  "leapyear = [31, 29, 31, 30, 31, 30, 31, 31, 30, 31, 30, 31]"

definition conv_months :: "nat \<Rightarrow> nat list" where
  "conv_months year = (if year AND 0x03 \<noteq> 0 then regyear else leapyear)"

definition conv_inc :: "nat \<Rightarrow> nat" where
  "conv_inc year = (if year AND 0x03 \<noteq> 0 then 365 else 366)"

section \<open>From UNIX time\<close>

definition conv_time :: "nat \<Rightarrow> dostime" where
  "conv_time t = \<lparr>dt_2seconds = of_nat (drop_bit 1 (t mod 60)), dt_minutes = of_nat (t div 60 mod 60),
     dt_hours = of_nat (t div (60 * 60) mod 24)\<rparr>"

text \<open>The loop over the years from \<open>year\<close> and the loop over the months: the year or month reached, and the days left.\<close>

function conv_year :: "nat \<Rightarrow> nat \<Rightarrow> nat \<times> nat" where
  "conv_year year days = (if days < conv_inc year then (year, days) else conv_year (year + 1) (days - conv_inc year))"
  by pat_completeness auto
termination
  by (relation "measure snd") (auto simp: conv_inc_def)

fun conv_month :: "nat list \<Rightarrow> nat \<Rightarrow> nat \<times> nat" where
  "conv_month [] days = (0, days)"
| "conv_month (m # ms) days = (if days < m then (0, days)
     else case conv_month ms (days - m) of (month, days) \<Rightarrow> (Suc month, days))"

definition conv_date :: "nat \<Rightarrow> dosdate" where
  "conv_date days = (case conv_year 1970 days of (year, days) \<Rightarrow>
     case conv_month (conv_months year) days of (month, days) \<Rightarrow>
       \<lparr>dd_day = of_nat (days + 1), dd_month = of_nat (month + 1),
        dd_year = of_nat (if year < 1980 then 0 else year - 1980)\<rparr>)"

definition unix2dostime :: "conv \<Rightarrow> uint_t \<Rightarrow> conv \<times> dosdate \<times> dostime" where
  "unix2dostime st tv_sec = (
     let st = (if c_lasttime st \<noteq> tv_sec then
         let lasttime = tv_sec - of_int (tz_minuteswest * 60);
             st = st\<lparr>c_lasttime := lasttime, c_lastdtime := conv_time (unat lasttime)\<rparr>;
             days = unat lasttime div (24 * 60 * 60)
         in if days \<noteq> c_lastday st then st\<lparr>c_lastday := days, c_lastddate := conv_date days\<rparr> else st
       else st)
     in (st, c_lastddate st, c_lastdtime st))"

section \<open>To UNIX time\<close>

definition SECONDSTO1980 :: nat where
  "SECONDSTO1980 = ((8 * 365) + (2 * 366)) * (24 * 60 * 60)"

definition dos_seconds :: "dostime \<Rightarrow> uint_t" where
  "dos_seconds t = push_bit 1 (ucast (dt_2seconds t)) + ucast (dt_minutes t) * 60 + ucast (dt_hours t) * 60 * 60"

text \<open>
  The days up to a date, from 1980. A month past the end of the year reads past the array, which is
  \<open>None\<close>.
\<close>

definition dos_days :: "dosdate \<Rightarrow> uint_t option" where
  "dos_days d = (
     let yr = unat (dd_year d); month = unat (dd_month d) - 1; months = conv_months yr
     in if length months < month then None
        else Some (of_nat (sum_list (map conv_inc [0..<yr]) + sum_list (take month months)) + ucast (dd_day d) - 1))"

definition dos2unixtime :: "conv \<Rightarrow> dosdate \<Rightarrow> dostime \<Rightarrow> (conv \<times> dosdate \<times> uint_t) option" where
  "dos2unixtime st dd dt = do {
     (st, dd) \<leftarrow> (if c_lastdosdate st \<noteq> dd then do {
         let st = st\<lparr>c_lastdosdate := dd\<rparr>;
         let dd = (if dd_month dd = 0 then dd\<lparr>dd_month := 1\<rparr> else dd);
         days \<leftarrow> dos_days dd;
         Some (st\<lparr>c_lastseconds := days * 24 * 60 * 60 + of_nat SECONDSTO1980\<rparr>, dd) }
       else Some (st, dd));
     Some (st, dd, dos_seconds dt + c_lastseconds st + of_int (tz_minuteswest * 60)) }"

section \<open>The unions\<close>

lemma bit_field: "bit (ucast (w :: 'a :: len word) :: 'b :: len word) n \<longleftrightarrow> n < LENGTH('b) \<and> bit w n"
  by (simp add: bit_simps)

lemma bit_bound: "bit (w :: 'a :: len word) n \<Longrightarrow> n < LENGTH('a)"
  by (rule bit_imp_le_length)

lemma dts_dti: "dts (dti t) = t"
proof (rule dostime.equality)
  show "dt_2seconds (dts (dti t)) = dt_2seconds t" "dt_minutes (dts (dti t)) = dt_minutes t"
    "dt_hours (dts (dti t)) = dt_hours t"
    by (rule bit_word_eqI; auto simp: dts_def dti_def bit_simps dest: bit_imp_le_length)+
qed simp

lemma dds_ddi: "dds (ddi d) = d"
proof (rule dosdate.equality)
  show "dd_day (dds (ddi d)) = dd_day d" "dd_month (dds (ddi d)) = dd_month d" "dd_year (dds (ddi d)) = dd_year d"
    by (rule bit_word_eqI; auto simp: dds_def ddi_def bit_simps dest: bit_imp_le_length)+
qed simp

lemma ddi_dds: "ddi (dds w) = w"
proof (rule bit_word_eqI)
  fix n assume "n < LENGTH(16)"
  then show "bit (ddi (dds w)) n = bit w n"
    by (cases "n < 9"; cases "n < 5") (auto simp: dds_def ddi_def bit_simps)
qed

lemma dti_dts: "dti (dts w) = w"
proof (rule bit_word_eqI)
  fix n assume "n < LENGTH(16)"
  then show "bit (dti (dts w)) n = bit w n"
    by (cases "n < 11"; cases "n < 5") (auto simp: dts_def dti_def bit_simps)
qed

section \<open>The two loops\<close>

lemma conv_inc_mod: "conv_inc y = (if 4 dvd y then 366 else 365)"
proof -
  have m: "y AND 0x03 = y mod 4"
    using take_bit_eq_mask [of 2 y] by (simp add: take_bit_eq_mod mask_eq_exp_minus_1)
  show ?thesis unfolding conv_inc_def m by (auto simp: dvd_eq_mod_eq_0)
qed

lemma conv_months_mod: "conv_months y = (if 4 dvd y then leapyear else regyear)"
  using conv_inc_mod [of y] unfolding conv_inc_def conv_months_def by (auto split: if_splits)

lemma months_sum: "sum_list (conv_months y) = conv_inc y" "length (conv_months y) = 12"
  by (simp_all add: conv_months_mod conv_inc_mod leapyear_def regyear_def)

lemma conv_year_step:
  "days < conv_inc year \<Longrightarrow> conv_year year days = (year, days)"
  "\<not> days < conv_inc year \<Longrightarrow> conv_year year days = conv_year (year + 1) (days - conv_inc year)"
  by (subst conv_year.simps, simp)+

declare conv_year.simps [simp del]

lemma conv_year_of:
  assumes "r < conv_inc y'" and "y \<le> y'"
  shows "conv_year y (sum_list (map conv_inc [y..<y']) + r) = (y', r)"
  using assms(2)
proof (induction rule: inc_induct)
  case base
  then show ?case using assms(1) by (simp add: conv_year_step)
next
  case (step k)
  have "[k..<y'] = k # [Suc k..<y']" using step.hyps by (simp add: upt_rec)
  then show ?case using step.IH by (simp add: conv_year_step)
qed

lemma conv_year_ex:
  "\<exists>y' r. y \<le> y' \<and> days = sum_list (map conv_inc [y..<y']) + r \<and> r < conv_inc y'"
proof (induction y days rule: conv_year.induct)
  case (1 y days)
  show ?case
  proof (cases "days < conv_inc y")
    case True
    then show ?thesis by (intro exI [of _ y] exI [of _ days]) simp
  next
    case False
    then obtain y' r where h: "y + 1 \<le> y'" "days - conv_inc y = sum_list (map conv_inc [y + 1..<y']) + r" "r < conv_inc y'"
      using "1.IH" by blast
    have "[y..<y'] = y # [y + 1..<y']" using h(1) by (simp add: upt_rec)
    then show ?thesis using h False by (intro exI [of _ y'] exI [of _ r]) simp
  qed
qed

lemma conv_month_of:
  "k < length ms \<Longrightarrow> r < ms ! k \<Longrightarrow> conv_month ms (sum_list (take k ms) + r) = (k, r)"
proof (induction ms arbitrary: k)
  case (Cons m ms)
  then show ?case by (cases k) auto
qed simp

lemma conv_month_ex:
  "(days::nat) < sum_list ms \<Longrightarrow> \<exists>k r. k < length ms \<and> days = sum_list (take k ms) + r \<and> r < ms ! k"
proof (induction ms arbitrary: days)
  case (Cons m ms)
  show ?case
  proof (cases "days < m")
    case True
    then show ?thesis by (intro exI [of _ 0] exI [of _ days]) simp
  next
    case False
    then have "days - m < sum_list ms" using Cons.prems by simp
    from Cons.IH [OF this] obtain k r where "k < length ms" "days - m = sum_list (take k ms) + r" "r < ms ! k" by blast
    then show ?thesis using False by (intro exI [of _ "Suc k"] exI [of _ r]) simp
  qed
qed simp

text \<open>The day number of the day \<open>q\<close> of month \<open>k\<close> of year \<open>y\<close>, each counted from 0 except the year.\<close>

definition day_number :: "nat \<Rightarrow> nat \<Rightarrow> nat \<Rightarrow> nat" where
  "day_number y k q = sum_list (map conv_inc [1970..<y]) + sum_list (take k (conv_months y)) + q"

lemma month_in_year: "k < 12 \<Longrightarrow> q < conv_months y ! k \<Longrightarrow> sum_list (take k (conv_months y)) + q < conv_inc y"
proof -
  assume a: "k < 12" "q < conv_months y ! k"
  have "sum_list (take k (conv_months y)) + conv_months y ! k = sum_list (take (Suc k) (conv_months y))"
    using a(1) by (simp add: take_Suc_conv_app_nth months_sum)
  also have "\<dots> \<le> sum_list (take (Suc k) (conv_months y)) + sum_list (drop (Suc k) (conv_months y))" by simp
  also have "\<dots> = conv_inc y" unfolding sum_list_append [symmetric] append_take_drop_id by (rule months_sum)
  finally show ?thesis using a(2) by linarith
qed

lemma conv_date_number:
  assumes "1970 \<le> y" and "k < 12" and "q < conv_months y ! k"
  shows "conv_date (day_number y k q) = \<lparr>dd_day = of_nat (q + 1), dd_month = of_nat (k + 1),
      dd_year = of_nat (if y < 1980 then 0 else y - 1980)\<rparr>"
  unfolding conv_date_def day_number_def add.assoc conv_year_of [OF month_in_year [OF assms(2,3)] assms(1)]
  using conv_month_of [of k "conv_months y" q] assms(2,3) by (simp add: months_sum)

lemma day_number_ex:
  "\<exists>y k q. 1970 \<le> y \<and> k < 12 \<and> q < conv_months y ! k \<and> days = day_number y k q"
proof -
  obtain y r where y: "1970 \<le> y" "days = sum_list (map conv_inc [1970..<y]) + r" "r < conv_inc y"
    using conv_year_ex by blast
  obtain k q where k: "k < length (conv_months y)" "r = sum_list (take k (conv_months y)) + q" "q < conv_months y ! k"
    using conv_month_ex [of r "conv_months y"] y(3) months_sum(1) by auto
  show ?thesis
    by (intro exI [of _ y] exI [of _ k] exI [of _ q]) (use y k in \<open>simp add: day_number_def months_sum(2)\<close>)
qed

section \<open>Static variables\<close>

text \<open>The pure conversion to seconds, and what the static variables hold at any time.\<close>

definition dos_secs :: "dosdate \<Rightarrow> uint_t option" where
  "dos_secs dd = map_option (\<lambda>days. days * 24 * 60 * 60 + of_nat SECONDSTO1980)
     (dos_days (if dd_month dd = 0 then dd\<lparr>dd_month := 1\<rparr> else dd))"

definition conv_inv :: "conv \<Rightarrow> bool" where
  "conv_inv st \<longleftrightarrow> c_lastdtime st = conv_time (unat (c_lasttime st))
     \<and> c_lastday st = unat (c_lasttime st) div (24 * 60 * 60)
     \<and> (c_lastday st \<noteq> 0 \<longrightarrow> c_lastddate st = conv_date (c_lastday st))
     \<and> (c_lastdosdate st \<noteq> dds 0 \<longrightarrow> dos_secs (c_lastdosdate st) = Some (c_lastseconds st))"

inductive conv_reach :: "conv \<Rightarrow> bool" where
  conv_start: "conv_reach conv_init"
| conv_unix: "conv_reach st \<Longrightarrow> conv_reach (fst (unix2dostime st t))"
| conv_dos: "conv_reach st \<Longrightarrow> dos2unixtime st dd dt = Some (st', r) \<Longrightarrow> conv_reach st'"

lemma unix2dostime_same: "conv_inv st \<Longrightarrow> c_lasttime st = t \<Longrightarrow> fst (unix2dostime st t) = st"
  by (simp add: unix2dostime_def Let_def)

lemma unix2dostime_new:
  assumes "c_lasttime st \<noteq> t"
  shows "fst (unix2dostime st t) = (let days = unat t div (24 * 60 * 60) in st\<lparr>c_lasttime := t, c_lastdtime := conv_time (unat t),
     c_lastday := days, c_lastddate := (if days \<noteq> c_lastday st then conv_date days else c_lastddate st)\<rparr>)"
  using assms by (simp add: unix2dostime_def tz_minuteswest_def Let_def)

lemma unix2dostime_inv:
  assumes "conv_inv st"
  shows "conv_inv (fst (unix2dostime st t))" and "c_lasttime (fst (unix2dostime st t)) = t"
proof -
  show "conv_inv (fst (unix2dostime st t))"
  proof (cases "c_lasttime st = t")
    case True
    then show ?thesis using assms by (simp only: unix2dostime_same)
  next
    case False
    show ?thesis unfolding unix2dostime_new [OF False]
      using assms by (simp add: conv_inv_def Let_def)
  qed
  show "c_lasttime (fst (unix2dostime st t)) = t"
    by (cases "c_lasttime st = t") (simp_all add: unix2dostime_same [OF assms] unix2dostime_new Let_def)
qed

lemma unix2dostime_result:
  "snd (unix2dostime st t) = (c_lastddate (fst (unix2dostime st t)), c_lastdtime (fst (unix2dostime st t)))"
  by (simp add: unix2dostime_def Let_def)

lemma dos2unixtime_ok:
  assumes inv: "conv_inv st" and nz: "dd \<noteq> dds 0"
  shows "dos2unixtime st dd dt = (case dos_secs dd of None \<Rightarrow> None
    | Some s \<Rightarrow> Some (st\<lparr>c_lastdosdate := dd, c_lastseconds := s\<rparr>,
        if c_lastdosdate st \<noteq> dd \<and> dd_month dd = 0 then dd\<lparr>dd_month := 1\<rparr> else dd, dos_seconds dt + s))"
proof (cases "c_lastdosdate st = dd")
  case True
  then have "dos_secs dd = Some (c_lastseconds st)" using inv nz by (simp add: conv_inv_def)
  then show ?thesis using True by (cases st) (simp add: dos2unixtime_def tz_minuteswest_def)
next
  case False
  then show ?thesis
    by (auto simp: dos2unixtime_def dos_secs_def tz_minuteswest_def Let_def split: option.splits bind_split)
qed

lemma dos2unixtime_inv:
  assumes inv: "conv_inv st" and r: "dos2unixtime st dd dt = Some (st', q)"
  shows "conv_inv st'"
proof (cases "dd = dds 0")
  case False
  then show ?thesis
    using r inv unfolding dos2unixtime_ok [OF inv False] by (auto simp: conv_inv_def split: option.splits)
next
  case True
  then show ?thesis
    using r inv by (auto simp: dos2unixtime_def conv_inv_def Let_def split: if_splits Option.bind_splits)
qed

lemma conv_reach_inv: "conv_reach st \<Longrightarrow> conv_inv st"
proof (induction rule: conv_reach.induct)
  case conv_start
  show ?case by (simp add: conv_inv_def conv_init_def conv_time_def dts_def)
next
  case (conv_unix st t)
  show ?case by (rule unix2dostime_inv(1) [OF conv_unix.IH])
next
  case (conv_dos st dd dt st' r)
  show ?case by (rule dos2unixtime_inv [OF conv_dos.IH conv_dos.hyps(2)])
qed

text \<open>What a conversion in any reachable state returns.\<close>

lemma unix2dostime_ok:
  assumes inv: "conv_inv st" and day: "24 * 60 * 60 \<le> unat t"
  shows "snd (unix2dostime st t) = (conv_date (unat t div (24 * 60 * 60)), conv_time (unat t))"
proof -
  define s where "s = fst (unix2dostime st t)"
  have s: "conv_inv s" "c_lasttime s = t" using unix2dostime_inv [OF inv] by (simp_all add: s_def)
  have "unat t div (24 * 60 * 60) \<noteq> 0" using day by (simp add: div_eq_0_iff)
  then show ?thesis using s unfolding unix2dostime_result s_def [symmetric] by (simp add: conv_inv_def)
qed

end
