(* ===== verification/ConvProps.thy ===== *)
theory ConvProps
  imports DosConv
begin

text \<open>
  The properties of the time conversion: it does not depend on what the static variables remember, it
  is exact both ways, and it agrees with the calendar up to February 2100.
\<close>

section \<open>Arithmetic of the fields\<close>

lemma month_len: "k < 12 \<Longrightarrow> conv_months y ! k \<le> 31"
proof -
  assume "k < 12"
  then have "conv_months y ! k \<in> set (conv_months y)" by (simp add: months_sum)
  then show ?thesis by (auto simp: conv_months_mod leapyear_def regyear_def split: if_splits)
qed

lemma field_vals:
  "n < 32 \<Longrightarrow> unat (of_nat n :: 5 word) = n" "n < 64 \<Longrightarrow> unat (of_nat n :: 6 word) = n"
  "n < 16 \<Longrightarrow> unat (of_nat n :: 4 word) = n" "n < 128 \<Longrightarrow> unat (of_nat n :: 7 word) = n"
  by (simp_all add: unat_of_nat)

lemma field_up: "ucast (w :: 'a :: len word) = (of_nat (unat w) :: uint_t)"
  by simp

lemma half_add: "(a + b * 2) div (2::nat) = b + a div 2"
  by simp

lemma sixty_add: "a < 60 \<Longrightarrow> (a + b * 60) mod 60 = a \<and> (a + b * 60) div 60 = (b::nat)"
  by simp

lemma day_seconds:
  "t mod (24 * 60 * 60) = t div (60 * 60) mod 24 * 3600 + t div 60 mod 60 * 60 + t mod 60" for t :: nat
proof -
  have "t mod (60 * (60 * 24)) = 60 * (t div 60 mod (60 * 24)) + t mod 60" by (rule mod_mult2_eq)
  moreover have "t div 60 mod (60 * 24) = 60 * (t div 60 div 60 mod 24) + t div 60 mod 60" by (rule mod_mult2_eq)
  moreover have "t div 60 div 60 = t div (60 * 60)" by (simp only: div_mult2_eq)
  ultimately show ?thesis by simp
qed

lemma dos_seconds_time: "dos_seconds (conv_time t) = of_nat (t mod (24 * 60 * 60) div 2 * 2)"
proof -
  let ?s = "t mod 60" and ?m = "t div 60 mod 60" and ?h = "t div (60 * 60) mod 24"
  have b: "?s div 2 < 32" "?m < 64" "?h < 32"
    using mod_less_divisor [of 60 t] mod_less_divisor [of 60 "t div 60"] mod_less_divisor [of 24 "t div (60 * 60)"]
    by linarith+
  have "dos_seconds (conv_time t) = of_nat (?s div 2 * 2 + ?m * 60 + ?h * 60 * 60)"
    unfolding dos_seconds_def conv_time_def dostime.simps field_up field_vals(2) [OF b(2)] field_vals(1) [OF b(3)]
      drop_bit_eq_div power_one_right field_vals(1) [OF b(1)]
    by (simp add: push_bit_eq_mult)
  moreover have "t mod (24 * 60 * 60) div 2 * 2 = ?s div 2 * 2 + ?m * 60 + ?h * 60 * 60"
  proof -
    have "?h * 3600 + ?m * 60 + ?s = ?s + (?h * 1800 + ?m * 30) * 2" by simp
    then have "(?h * 3600 + ?m * 60 + ?s) div 2 = ?h * 1800 + ?m * 30 + ?s div 2" by (simp only: half_add)
    then show ?thesis unfolding day_seconds by simp
  qed
  ultimately show ?thesis by simp
qed

section \<open>From 1970 and from 1980\<close>

lemma conv_inc_1980: "conv_inc (i + 1980) = conv_inc i"
proof -
  have "4 dvd (1980 :: nat)" by simp
  then have "4 dvd (i + 1980) \<longleftrightarrow> 4 dvd i" by (rule dvd_add_left_iff)
  then show ?thesis unfolding conv_inc_mod by simp
qed

lemma conv_months_1980: "conv_months (i + 1980) = conv_months i"
  using conv_inc_1980 [of i] by (auto simp: conv_months_mod conv_inc_mod split: if_splits)

lemma years_from_1980:
  "sum_list (map conv_inc [1970..<n + 1980]) = 3652 + sum_list (map conv_inc [0..<n])"
proof -
  have a: "[1970..<n + 1980] = [1970..<1980] @ [1980..<n + 1980]"
    using upt_add_eq_append [of 1970 1980 n] by (simp add: add.commute)
  have b: "map conv_inc [1980..<n + 1980] = map conv_inc [0..<n]"
  proof -
    have "[1980..<n + 1980] = map (\<lambda>i. i + 1980) [0..<n]" by (simp add: map_add_upt)
    then show ?thesis by (simp add: conv_inc_1980)
  qed
  have "sum_list (map conv_inc [1970..<1980]) = 3652" by (simp add: upt_rec conv_inc_mod)
  then show ?thesis by (simp add: a b)
qed

lemma four_years: "sum_list (map conv_inc [0..<4 * n]) = 1461 * n"
proof (induction n)
  case (Suc n)
  have e: "4 * Suc n = Suc (Suc (Suc (Suc (4 * n))))" by simp
  have "\<not> 4 dvd Suc (4 * n)" "\<not> 4 dvd Suc (Suc (4 * n))" "\<not> 4 dvd Suc (Suc (Suc (4 * n)))" by presburger+
  then have "conv_inc (4 * n) = 366" "conv_inc (Suc (4 * n)) = 365" "conv_inc (Suc (Suc (4 * n))) = 365"
      "conv_inc (Suc (Suc (Suc (4 * n)))) = 365" by (simp_all add: conv_inc_mod)
  then show ?case unfolding e upt_Suc using Suc by simp
qed simp

lemma years_ge: "365 * n \<le> sum_list (map conv_inc [a..<a + n])"
  by (induction n) (auto simp: conv_inc_mod)

text \<open>The year of a 32-bit time, from 1980 on, fits the seven bits.\<close>

lemma day_year:
  assumes "day_number y k q = unat (t :: uint_t) div (24 * 60 * 60)" and "1970 \<le> y" and "SECONDSTO1980 \<le> unat t"
    and "k < 12" and "q < conv_months y ! k"
  shows "1980 \<le> y \<and> y < 2108"
proof -
  have "unat t < 2 ^ 32" using unsigned_less [of t, where ?'a = nat] by simp
  then have "unat t div (24 * 60 * 60) < 49711" by (simp add: less_mult_imp_div_less)
  moreover have "365 * (y - 1970) \<le> day_number y k q"
    using years_ge [of "y - 1970" 1970] assms(2) by (simp add: day_number_def)
  ultimately have up: "y < 2108" using assms(1) by linarith
  have "3652 \<le> unat t div (24 * 60 * 60)" using assms(3) by (simp add: SECONDSTO1980_def less_eq_div_iff_mult_less_eq)
  then have lo: "3652 \<le> day_number y k q" using assms(1) by simp
  have "1980 \<le> y"
  proof (rule ccontr)
    assume "\<not> 1980 \<le> y"
    then have "Suc y \<le> 1980" by simp
    then have "[1970..<1980] = [1970..<Suc y] @ [Suc y..<1980]"
      using upt_add_eq_append [of 1970 "Suc y" "1980 - Suc y"] assms(2) by simp
    then have "sum_list (map conv_inc [1970..<Suc y]) \<le> sum_list (map conv_inc [1970..<1980])" by simp
    also have "\<dots> = 3652" using years_from_1980 [of 0] by simp
    finally have "sum_list (map conv_inc [1970..<y]) + conv_inc y \<le> 3652" using assms(2) by simp
    then have "day_number y k q < 3652" using month_in_year [OF assms(4,5)] by (simp add: day_number_def)
    with lo show False by simp
  qed
  with up show ?thesis by simp
qed

lemma dos_secs_number:
  assumes y: "1980 \<le> y" "y < 2108" and k: "k < 12" and q: "q < conv_months y ! k"
  shows "dos_secs \<lparr>dd_day = of_nat (q + 1), dd_month = of_nat (k + 1), dd_year = of_nat (y - 1980)\<rparr>
    = Some (of_nat (day_number y k q * (24 * 60 * 60)))"
proof -
  define n where "n = y - 1980"
  have yn: "y = n + 1980" "n < 128" using y by (simp_all add: n_def)
  have b: "q + 1 < 32" "k + 1 < 16" using month_len [OF k, of y] q k by simp_all
  note v = field_vals(1) [OF b(1)] field_vals(3) [OF b(2)] field_vals(4) [OF yn(2)]
  have nz: "(of_nat (k + 1) :: 4 word) \<noteq> 0" using v(2) by (metis Suc_eq_plus1 nat.simps(3) unat_0)
  have cm: "conv_months n = conv_months y" by (simp add: yn(1) conv_months_1980)
  have "dos_days \<lparr>dd_day = of_nat (q + 1), dd_month = of_nat (k + 1), dd_year = of_nat n\<rparr>
      = Some (of_nat (sum_list (map conv_inc [0..<n]) + sum_list (take k (conv_months y)) + q))"
    unfolding dos_days_def Let_def dosdate.simps field_up v cm using k by (simp add: months_sum)
  then have "dos_secs \<lparr>dd_day = of_nat (q + 1), dd_month = of_nat (k + 1), dd_year = of_nat n\<rparr>
      = Some (of_nat ((sum_list (map conv_inc [0..<n]) + sum_list (take k (conv_months y)) + q) * (24 * 60 * 60) + SECONDSTO1980))"
    unfolding dos_secs_def dosdate.simps if_not_P [OF nz] by (simp add: algebra_simps)
  moreover have "day_number y k q = 3652 + (sum_list (map conv_inc [0..<n]) + sum_list (take k (conv_months y)) + q)"
    unfolding day_number_def yn(1) years_from_1980 by simp
  ultimately show ?thesis unfolding n_def [symmetric] by (simp add: SECONDSTO1980_def algebra_simps)
qed

section \<open>Properties\<close>

text \<open>In every state the conversions can reach, \<open>unix2dostime\<close> gives the fields computed from its
  argument alone (from the second day of 1970 on) and \<open>dos2unixtime\<close> of any date but the all-zero one the
  seconds computed from its arguments alone: what the static variables remember never changes a
  result. A month of 14 or 15 reads past the array of month lengths.\<close>

theorem conversion_memo_sound:
  assumes "conv_reach st"
  shows "(24 * 60 * 60 \<le> unat t \<longrightarrow>
      snd (unix2dostime st t) = (conv_date (unat t div (24 * 60 * 60)), conv_time (unat t)))
    \<and> (dd \<noteq> dds 0 \<longrightarrow>
      map_option (\<lambda>(_, _, s). s) (dos2unixtime st dd dt) = map_option (\<lambda>s. dos_seconds dt + s) (dos_secs dd)
      \<and> (dos2unixtime st dd dt = None) = (13 < unat (dd_month dd)))"
proof -
  have inv: "conv_inv st" by (rule conv_reach_inv [OF assms])
  have n: "(dos_secs dd = None) = (13 < unat (dd_month dd))"
    by (auto simp: dos_secs_def dos_days_def Let_def months_sum)
  show ?thesis
    using unix2dostime_ok [OF inv, of t] dos2unixtime_ok [OF inv, of dd dt] n by (auto split: option.splits)
qed

theorem conversion_memo_sound_witness:
  "snd (unix2dostime (fst (unix2dostime conv_init 951868799)) 951868800)
     = (conv_date (unat (951868800 :: uint_t) div (24 * 60 * 60)), conv_time (unat (951868800 :: uint_t)))"
proof -
  have r: "conv_reach (fst (unix2dostime conv_init 951868799))" by (intro conv_unix conv_start)
  show ?thesis using conversion_memo_sound [OF r, of 951868800] by simp
qed

text \<open>C19: A time from 1980 on survives the round trip through the two 16-bit words of a directory entry,
  whatever was converted before in either direction, up to the odd second the format cannot hold.\<close>

theorem dos_time_roundtrip:
  assumes "conv_reach st" and "conv_reach st'" and "SECONDSTO1980 \<le> unat t"
    and "snd (unix2dostime st t) = (dd, dt)"
  shows "\<exists>st''. dos2unixtime st' (dds (ddi dd)) (dts (dti dt)) = Some (st'', dd, of_nat (unat t div 2 * 2))"
proof -
  let ?D = "24 * 60 * 60"
  have day: "?D \<le> unat t" using assms(3) by (simp add: SECONDSTO1980_def)
  have r: "dd = conv_date (unat t div ?D)" "dt = conv_time (unat t)"
    using unix2dostime_ok [OF conv_reach_inv [OF assms(1)] day] assms(4) by simp_all
  obtain y k q where n: "1970 \<le> y" "k < 12" "q < conv_months y ! k" "unat t div ?D = day_number y k q"
    using day_number_ex by blast
  note y = day_year [OF n(4) [symmetric] n(1) assms(3) n(2,3)]
  have dd: "dd = \<lparr>dd_day = of_nat (q + 1), dd_month = of_nat (k + 1), dd_year = of_nat (y - 1980)\<rparr>"
    unfolding r(1) n(4) conv_date_number [OF n(1-3)] using y by simp
  have s: "dos_secs dd = Some (of_nat (unat t div ?D * ?D))"
    unfolding dd n(4) by (rule dos_secs_number [OF _ _ n(2,3)]) (use y in simp_all)
  have "unat (dd_month dd) = k + 1" unfolding dd dosdate.simps by (rule field_vals(3)) (use n(2) in simp)
  then have m: "dd_month dd \<noteq> 0" by auto
  then have nz: "dd \<noteq> dds 0" by (auto simp: dds_def)
  have "dos_seconds dt + of_nat (unat t div ?D * ?D) = of_nat (unat t div 2 * 2)"
  proof -
    have e: "unat t = unat t mod ?D + unat t div ?D * 43200 * 2"
      using div_mult_mod_eq [of "unat t" ?D] by simp
    have "unat t div 2 = unat t div ?D * 43200 + unat t mod ?D div 2"
      by (subst (1) e) (rule half_add)
    then have "unat t div 2 * 2 = unat t mod ?D div 2 * 2 + unat t div ?D * ?D" by simp
    then show ?thesis unfolding r(2) dos_seconds_time by (simp only: of_nat_add)
  qed
  then show ?thesis
    unfolding dds_ddi dts_dti dos2unixtime_ok [OF conv_reach_inv [OF assms(2)] nz] s using m by simp
qed

theorem dos_time_roundtrip_witness:
  "\<exists>st'' dd dt. snd (unix2dostime conv_init 951868801) = (dd, dt)
    \<and> dos2unixtime conv_init (dds (ddi dd)) (dts (dti dt)) = Some (st'', dd, 951868800)"
proof -
  obtain dd dt where r: "snd (unix2dostime conv_init 951868801) = (dd, dt)" by (rule prod.exhaust)
  have "SECONDSTO1980 \<le> unat (951868801 :: uint_t)" by (simp add: SECONDSTO1980_def)
  from dos_time_roundtrip [OF conv_start conv_start this r] r show ?thesis by auto
qed

text \<open>The calendar: lengths of years and months, and the number of a day since 1 January 1970.\<close>

definition leap :: "nat \<Rightarrow> bool" where
  "leap y \<longleftrightarrow> 4 dvd y \<and> (100 dvd y \<longrightarrow> 400 dvd y)"

definition month_days :: "nat \<Rightarrow> nat list" where
  "month_days y = [31, if leap y then 29 else 28, 31, 30, 31, 30, 31, 31, 30, 31, 30, 31]"

definition civil_day :: "nat \<Rightarrow> nat \<Rightarrow> nat \<Rightarrow> nat" where
  "civil_day y m d = sum_list (map (\<lambda>y. if leap y then 366 else 365) [1970..<y])
     + sum_list (take (m - 1) (month_days y)) + (d - 1)"

lemma leap_4: "1970 \<le> y \<Longrightarrow> y < 2100 \<Longrightarrow> leap y \<longleftrightarrow> 4 dvd y"
proof -
  assume a: "1970 \<le> y" "y < 2100"
  have "400 dvd y" if h: "100 dvd y"
  proof -
    from h have "y = 100 * (y div 100)" by simp
    moreover from this have "y div 100 = 20" using a by linarith
    ultimately have "y = 400 * 5" by simp
    then show ?thesis by (rule dvdI)
  qed
  then show ?thesis unfolding leap_def by blast
qed

lemma month_days_conv: "1970 \<le> y \<Longrightarrow> y < 2100 \<Longrightarrow> month_days y = conv_months y"
  by (simp add: month_days_def leap_4 conv_months_mod leapyear_def regyear_def)

lemma civil_years:
  assumes "y \<le> 2100"
  shows "sum_list (map (\<lambda>y. if leap y then 366 else 365) [1970..<y]) = sum_list (map conv_inc [1970..<y])"
  by (rule arg_cong [of _ _ sum_list], rule map_cong [OF refl]) (use assms in \<open>simp add: leap_4 conv_inc_mod\<close>)

lemma civil_day_conv:
  assumes "1970 \<le> y" and "y < 2100"
  shows "civil_day y m d = day_number y (m - 1) (d - 1)"
proof -
  show ?thesis
    using assms(2) by (simp only: civil_day_def day_number_def month_days_conv [OF assms] civil_years less_imp_le)
qed

text \<open>C20: For every date of the calendar from 1980 to 2099 and every second of it, \<open>unix2dostime\<close> stores
  the day, month and year of that date and the time of day in two-second units.\<close>

theorem unix2dostime_calendar:
  assumes "conv_reach st" and y: "1980 \<le> y" "y < 2100" and m: "1 \<le> m" "m \<le> 12"
    and d: "1 \<le> d" "d \<le> month_days y ! (m - 1)"
    and t: "unat t = civil_day y m d * 86400 + h * 3600 + mi * 60 + s" and hms: "h < 24" "mi < 60" "s < 60"
  shows "\<exists>dd dt. snd (unix2dostime st t) = (dd, dt)
    \<and> unat (dd_day dd) = d \<and> unat (dd_month dd) = m \<and> unat (dd_year dd) = y - 1980
    \<and> unat (dt_hours dt) = h \<and> unat (dt_minutes dt) = mi \<and> unat (dt_2seconds dt) = s div 2"
proof -
  have y0: "1970 \<le> y" using y by simp
  have k: "m - 1 < 12" "d - 1 < conv_months y ! (m - 1)" using m d month_days_conv [OF y0 y(2)] by simp_all
  have len: "conv_months y ! (m - 1) \<le> 31" by (rule month_len [OF k(1)])
  let ?c = "civil_day y m d" and ?r = "h * 3600 + mi * 60 + s"
  have tt: "unat t = ?r + ?c * 86400" using t by simp
  have rs: "?r < 86400" "?r = s + (h * 60 + mi) * 60" "(h * 60 + mi) = mi + h * 60" using hms by simp_all
  have D: "24 * 60 * 60 = (86400::nat)" by simp
  have dv: "unat t div (24 * 60 * 60) = ?c" unfolding D tt using rs(1) by (simp add: div_mult_self1)
  have c: "?c = day_number y (m - 1) (d - 1)" by (rule civil_day_conv [OF y0 y(2)])
  have "1 \<le> ?c"
  proof -
    have "365 * (y - 1970) \<le> ?c" unfolding c using years_ge [of "y - 1970" 1970] y0 by (simp add: day_number_def)
    then show ?thesis using y(1) by simp
  qed
  then have day: "24 * 60 * 60 \<le> unat t" unfolding tt by simp
  have date: "conv_date (unat t div (24 * 60 * 60)) = \<lparr>dd_day = of_nat d, dd_month = of_nat m, dd_year = of_nat (y - 1980)\<rparr>"
    unfolding dv c conv_date_number [OF y0 k] using m d y by simp
  have e: "unat t = s + ((mi + h * 60) + ?c * 1440) * 60" using t by simp
  note a = sixty_add [OF hms(3), of "(mi + h * 60) + ?c * 1440"]
  have q: "unat t mod 60 = s" "unat t div 60 = (mi + h * 60) + ?c * 1440" by (simp_all only: e a)
  have q3: "unat t div 60 = mi + (h + ?c * 24) * 60" using q(2) by simp
  have "unat t div 60 mod 60 = mi" "unat t div 60 div 60 = h + ?c * 24"
    by (simp_all only: q3 sixty_add [OF hms(2)])
  moreover have "unat t div (60 * 60) = unat t div 60 div 60" by (simp only: div_mult2_eq)
  ultimately have time: "conv_time (unat t) = \<lparr>dt_2seconds = of_nat (s div 2), dt_minutes = of_nat mi, dt_hours = of_nat h\<rparr>"
    using q(1) hms(1) by (simp add: conv_time_def drop_bit_eq_div)
  have v: "d < 32" "m < 16" "y - 1980 < 128" "h < 32" "mi < 64" "s div 2 < 32" using d len m y hms month_days_conv [OF y0 y(2)] by auto
  show ?thesis
    unfolding unix2dostime_ok [OF conv_reach_inv [OF assms(1)] day] date time
    by (intro exI conjI, rule refl) (simp_all only: dosdate.simps dostime.simps field_vals v)
qed

theorem unix2dostime_calendar_witness:
  "\<exists>dd dt. snd (unix2dostime conv_init 951827696) = (dd, dt)
    \<and> unat (dd_day dd) = 29 \<and> unat (dd_month dd) = 2 \<and> unat (dd_year dd) = 20
    \<and> unat (dt_hours dt) = 12 \<and> unat (dt_minutes dt) = 34 \<and> unat (dt_2seconds dt) = 28"
proof -
  have c: "civil_day 2000 2 29 = 11016"
    by (simp add: civil_day_def month_days_def upt_rec leap_def)
  show ?thesis
    using unix2dostime_calendar [OF conv_start, of 2000 2 29 951827696 12 34 56]
    by (simp add: c month_days_def leap_def)
qed

text \<open>2100 is no leap year, but the conversion takes it for one: at the first second of 1 March 2100 it
  stores 29 February.\<close>

theorem unix2dostime_2100:
  assumes "conv_reach st"
  shows "civil_day 2100 3 1 * 86400 = 4107542400
    \<and> fst (snd (unix2dostime st 4107542400)) = \<lparr>dd_day = 29, dd_month = 2, dd_year = 120\<rparr>"
proof -
  have l: "\<not> leap 2100" by (simp add: leap_def)
  have e: "120 + 1980 = (2100 :: nat)" by simp
  have "sum_list (map conv_inc [1970..<120 + 1980]) = 47482"
    unfolding years_from_1980 using four_years [of 30] by simp
  then have s: "sum_list (map conv_inc [1970..<2100]) = 47482" unfolding e .
  have s2: "sum_list (map (\<lambda>y. if leap y then 366 else 365) [1970..<2100]) = (47482::nat)"
    unfolding civil_years [OF order_refl] by (rule s)
  have c: "civil_day 2100 3 1 * 86400 = 4107542400" unfolding civil_day_def s2 by (simp add: month_days_def l)
  have k: "(1::nat) < 12" "28 < conv_months 2100 ! 1" by (simp_all add: conv_months_mod leapyear_def)
  have n: "day_number 2100 1 28 = 47541" unfolding day_number_def s by (simp add: conv_months_mod leapyear_def)
  have u: "24 * 60 * 60 \<le> unat (4107542400 :: uint_t)" "unat (4107542400 :: uint_t) div (24 * 60 * 60) = 47541" by simp_all
  have "conv_date 47541 = \<lparr>dd_day = 29, dd_month = 2, dd_year = 120\<rparr>"
    unfolding n [symmetric] by (subst conv_date_number [OF _ k]) simp_all
  then show ?thesis using c unfolding unix2dostime_ok [OF conv_reach_inv [OF assms] u(1)] u(2) by simp
qed

theorem unix2dostime_2100_witness:
  "fst (snd (unix2dostime conv_init 4107542400)) = \<lparr>dd_day = 29, dd_month = 2, dd_year = 120\<rparr>"
  using unix2dostime_2100 [OF conv_start] by (rule conjunct2)

end
