(* ===== verification/BlockIO.thy ===== *)
theory BlockIO
  imports KPrelude
begin

text \<open>
  The buffer cache the DOS file system stands on. Its code (\<open>bread\<close>, \<open>getblk\<close>, \<open>bwrite\<close> and the rest)
  is not part of this source tree, so it is a parameter of the model: a record of operations on an
  abstract device state \<open>'d\<close>. What the callers rely on is the hypothesis \<open>bio_ok\<close>: there is a \<open>view\<close> of
  the device (the sectors as the cache shows them) and a set of \<open>held\<close> sectors, those whose buffer
  some caller owns. A sector is read or claimed only while nobody holds it (the kernel would
  sleep), and is held until it is written or released.
\<close>

definition DEV_BSIZE :: nat where
  "DEV_BSIZE = 512"

text \<open>A physical buffer: \<open>buf_t\<close> as far as the file system uses it.\<close>

record buf =
  b_blkno :: nat
  b_addr :: "u8 list"
  b_error :: nat

record 'd bio =
  io_bread :: "'d \<Rightarrow> nat \<Rightarrow> nat \<Rightarrow> 'd \<times> buf"
  io_breada :: "'d \<Rightarrow> nat \<Rightarrow> nat \<Rightarrow> nat \<Rightarrow> 'd \<times> buf"
  io_getblk :: "'d \<Rightarrow> nat \<Rightarrow> nat \<Rightarrow> 'd \<times> buf"
  io_bwrite :: "'d \<Rightarrow> buf \<Rightarrow> 'd \<times> nat"
  io_bawrite :: "'d \<Rightarrow> buf \<Rightarrow> 'd"
  io_bdwrite :: "'d \<Rightarrow> buf \<Rightarrow> 'd"
  io_brelse :: "'d \<Rightarrow> buf \<Rightarrow> 'd"
  io_biowait :: "'d \<Rightarrow> buf \<Rightarrow> 'd \<times> nat"
  io_biodone :: "'d \<Rightarrow> buf \<Rightarrow> 'd"
  io_geterror :: "buf \<Rightarrow> nat"

text \<open>
  The documented behaviour of the four kinds of operation. A read gives the sector's contents unless
  \<open>geterror\<close> reports a failure; a claimed sector has unspecified contents; a write (at once,
  asynchronous or delayed) makes the buffer's bytes the contents and gives the buffer back; a
  release gives it back unchanged.
\<close>

definition reads_ok :: "(buf \<Rightarrow> nat) \<Rightarrow> ('d \<Rightarrow> nat \<Rightarrow> u8 list) \<Rightarrow> ('d \<Rightarrow> nat set)
    \<Rightarrow> ('d \<Rightarrow> nat \<Rightarrow> 'd \<times> buf) \<Rightarrow> bool" where
  "reads_ok err view held rd \<longleftrightarrow> (\<forall>d b d' bp. b \<notin> held d \<longrightarrow> rd d b = (d', bp) \<longrightarrow>
     view d' = view d \<and> held d' = insert b (held d) \<and> b_blkno bp = b
     \<and> length (b_addr bp) = DEV_BSIZE \<and> (err bp = 0 \<longrightarrow> b_addr bp = view d b))"

definition claims_ok :: "('d \<Rightarrow> nat \<Rightarrow> u8 list) \<Rightarrow> ('d \<Rightarrow> nat set) \<Rightarrow> ('d \<Rightarrow> nat \<Rightarrow> 'd \<times> buf) \<Rightarrow> bool" where
  "claims_ok view held gb \<longleftrightarrow> (\<forall>d b d' bp. b \<notin> held d \<longrightarrow> gb d b = (d', bp) \<longrightarrow>
     view d' = view d \<and> held d' = insert b (held d) \<and> b_blkno bp = b
     \<and> length (b_addr bp) = DEV_BSIZE)"

definition writes_ok :: "('d \<Rightarrow> nat \<Rightarrow> u8 list) \<Rightarrow> ('d \<Rightarrow> nat set) \<Rightarrow> ('d \<Rightarrow> buf \<Rightarrow> 'd) \<Rightarrow> bool" where
  "writes_ok view held wr \<longleftrightarrow> (\<forall>d bp. b_blkno bp \<in> held d \<longrightarrow> length (b_addr bp) = DEV_BSIZE \<longrightarrow>
     view (wr d bp) = (view d)(b_blkno bp := b_addr bp)
     \<and> held (wr d bp) = held d - {b_blkno bp})"

definition releases_ok :: "('d \<Rightarrow> nat \<Rightarrow> u8 list) \<Rightarrow> ('d \<Rightarrow> nat set) \<Rightarrow> ('d \<Rightarrow> buf \<Rightarrow> 'd) \<Rightarrow> bool" where
  "releases_ok view held rl \<longleftrightarrow> (\<forall>d bp. b_blkno bp \<in> held d \<longrightarrow>
     view (rl d bp) = view d \<and> held (rl d bp) = held d - {b_blkno bp})"

definition bio_ok :: "'d bio \<Rightarrow> ('d \<Rightarrow> nat \<Rightarrow> u8 list) \<Rightarrow> ('d \<Rightarrow> nat set) \<Rightarrow> bool" where
  "bio_ok io view held \<longleftrightarrow>
     (\<forall>d b. length (view d b) = DEV_BSIZE)
     \<and> reads_ok (io_geterror io) view held (\<lambda>d b. io_bread io d b DEV_BSIZE)
     \<and> (\<forall>r. reads_ok (io_geterror io) view held (\<lambda>d b. io_breada io d b (r b) DEV_BSIZE))
     \<and> claims_ok view held (\<lambda>d b. io_getblk io d b DEV_BSIZE)
     \<and> writes_ok view held (\<lambda>d bp. fst (io_bwrite io d bp))
     \<and> writes_ok view held (io_bawrite io)
     \<and> writes_ok view held (io_bdwrite io)
     \<and> releases_ok view held (io_brelse io)"

text \<open>
  A device in memory, on which the hypothesis holds: sector contents, the set of held sectors as a
  list, and a list of sectors that cannot be read. The witnesses of the file system run on it.
\<close>

record ram =
  r_data :: "nat \<Rightarrow> u8 list"
  r_held :: "nat list"
  r_bad :: "nat list"

definition ram_read :: "ram \<Rightarrow> nat \<Rightarrow> nat \<Rightarrow> ram \<times> buf" where
  "ram_read d b n = (d\<lparr>r_held := b # r_held d\<rparr>,
     \<lparr>b_blkno = b, b_addr = take DEV_BSIZE (r_data d b @ replicate DEV_BSIZE 0),
      b_error = (if b \<in> set (r_bad d) then 5 else 0)\<rparr>)"

definition ram_write :: "ram \<Rightarrow> buf \<Rightarrow> ram" where
  "ram_write d bp = d\<lparr>r_data := (r_data d)(b_blkno bp := b_addr bp),
     r_held := removeAll (b_blkno bp) (r_held d)\<rparr>"

definition ram_release :: "ram \<Rightarrow> buf \<Rightarrow> ram" where
  "ram_release d bp = d\<lparr>r_held := removeAll (b_blkno bp) (r_held d)\<rparr>"

definition ram_io :: "ram bio" where
  "ram_io = \<lparr>io_bread = ram_read, io_breada = (\<lambda>d b r n. ram_read d b n), io_getblk = ram_read,
     io_bwrite = (\<lambda>d bp. (ram_write d bp, 0)), io_bawrite = ram_write, io_bdwrite = ram_write,
     io_brelse = ram_release, io_biowait = (\<lambda>d bp. (d, b_error bp)), io_biodone = (\<lambda>d bp. d),
     io_geterror = b_error\<rparr>"

definition ram_view :: "ram \<Rightarrow> nat \<Rightarrow> u8 list" where
  "ram_view d b = take DEV_BSIZE (r_data d b @ replicate DEV_BSIZE 0)"

definition ram_heldset :: "ram \<Rightarrow> nat set" where
  "ram_heldset d = set (r_held d)"

lemma ram_io_ok: "bio_ok ram_io ram_view ram_heldset"
  unfolding bio_ok_def reads_ok_def claims_ok_def writes_ok_def releases_ok_def
  by (auto simp: ram_io_def ram_view_def ram_heldset_def ram_read_def ram_write_def ram_release_def
      fun_eq_iff)

text \<open>The same device without read errors.\<close>

definition good_io :: "ram bio" where
  "good_io = ram_io\<lparr>io_geterror := \<lambda>_. 0\<rparr>"

lemma good_io_ok: "bio_ok good_io ram_view ram_heldset"
  unfolding bio_ok_def reads_ok_def claims_ok_def writes_ok_def releases_ok_def
  by (auto simp: good_io_def ram_io_def ram_view_def ram_heldset_def ram_read_def ram_write_def
      ram_release_def fun_eq_iff)

end
