(* ===== verification/Lbuf.thy ===== *)
theory Lbuf
  imports BlockIO
begin

text \<open>
  The logical buffers of \<open>fs/dosfs/dosfs_lbuf.c\<close>: a cluster buffer in memory over one physical buffer
  per 512-byte sector. Storing more than \<open>MAXCLUSTBLOCKS\<close> buffer pointers would run past the array
  of the C structure, so allocating such a buffer is \<open>None\<close>. The bytes after the last whole sector,
  which the code never initialises, are absent from \<open>lb_addr\<close>.
\<close>

definition MAXCLUSTBLOCKS :: nat where
  "MAXCLUSTBLOCKS = 64"

record lbuf =
  lb_addr :: "u8 list"
  lb_bsize :: nat
  lb_bp :: "buf list"

section \<open>Operations\<close>

text \<open>The loop of the three allocating routines: get sector \<open>i\<close>, append its bytes.\<close>

definition lb_gather :: "('d \<Rightarrow> nat \<Rightarrow> 'd \<times> buf) \<Rightarrow> 'd \<Rightarrow> nat \<Rightarrow> nat \<Rightarrow> ('d \<times> lbuf) option" where
  "lb_gather rd d blkno bsize =
     (if MAXCLUSTBLOCKS < bsize div DEV_BSIZE then None
      else Some (foldl (\<lambda>(d, lb) i.
          let (d', bp) = rd d (blkno + i)
          in (d', lb\<lparr>lb_bp := lb_bp lb @ [bp],
                     lb_addr := lb_addr lb @ take DEV_BSIZE (b_addr bp)\<rparr>))
        (d, \<lparr>lb_addr = [], lb_bsize = bsize, lb_bp = []\<rparr>) [0..<bsize div DEV_BSIZE]))"

definition lbread :: "'d bio \<Rightarrow> 'd \<Rightarrow> nat \<Rightarrow> nat \<Rightarrow> ('d \<times> lbuf) option" where
  "lbread io d blkno bsize = lb_gather (\<lambda>d b. io_bread io d b DEV_BSIZE) d blkno bsize"

definition lbreada :: "'d bio \<Rightarrow> 'd \<Rightarrow> nat \<Rightarrow> nat \<Rightarrow> nat \<Rightarrow> ('d \<times> lbuf) option" where
  "lbreada io d blkno rablk bsize =
     lb_gather (\<lambda>d b. io_breada io d b (rablk + (b - blkno)) DEV_BSIZE) d blkno bsize"

definition lgetblk :: "'d bio \<Rightarrow> 'd \<Rightarrow> nat \<Rightarrow> nat \<Rightarrow> ('d \<times> lbuf) option" where
  "lgetblk io d blkno bsize = lb_gather (\<lambda>d b. io_getblk io d b DEV_BSIZE) d blkno bsize"

text \<open>Sector \<open>i\<close> of the cluster buffer copied into its physical buffer.\<close>

definition lb_sector :: "lbuf \<Rightarrow> nat \<Rightarrow> buf" where
  "lb_sector lb i = (lb_bp lb ! i)\<lparr>b_addr := take DEV_BSIZE (drop (DEV_BSIZE * i) (lb_addr lb))\<rparr>"

definition lb_scatter :: "('d \<Rightarrow> buf \<Rightarrow> 'd) \<Rightarrow> 'd \<Rightarrow> lbuf \<Rightarrow> 'd" where
  "lb_scatter wr d lb = foldl (\<lambda>d i. wr d (lb_sector lb i)) d [0..<lb_bsize lb div DEV_BSIZE]"

definition lbwrite :: "'d bio \<Rightarrow> 'd \<Rightarrow> lbuf \<Rightarrow> 'd" where
  "lbwrite io d lb = lb_scatter (\<lambda>d bp. fst (io_bwrite io d bp)) d lb"

definition lbawrite :: "'d bio \<Rightarrow> 'd \<Rightarrow> lbuf \<Rightarrow> 'd" where
  "lbawrite io d lb = lb_scatter (io_bawrite io) d lb"

definition lbdwrite :: "'d bio \<Rightarrow> 'd \<Rightarrow> lbuf \<Rightarrow> 'd" where
  "lbdwrite io d lb = lb_scatter (io_bdwrite io) d lb"

definition lbwritewait :: "'d bio \<Rightarrow> 'd \<Rightarrow> lbuf \<Rightarrow> 'd \<times> nat" where
  "lbwritewait io d lb =
     foldl (\<lambda>(d, error) i. let (d', e) = io_bwrite io d (lb_sector lb i)
              in (d', if error = 0 then e else error))
       (d, 0) [0..<lb_bsize lb div DEV_BSIZE]"

definition lbrelse :: "'d bio \<Rightarrow> 'd \<Rightarrow> lbuf \<Rightarrow> 'd" where
  "lbrelse io d lb = foldl (\<lambda>d i. io_brelse io d (lb_bp lb ! i)) d [0..<lb_bsize lb div DEV_BSIZE]"

definition lclrbuf :: "lbuf \<Rightarrow> lbuf" where
  "lclrbuf lb = lb\<lparr>lb_addr := replicate (lb_bsize lb) 0\<rparr>"

definition lbiowait :: "'d bio \<Rightarrow> 'd \<Rightarrow> lbuf \<Rightarrow> 'd \<times> nat" where
  "lbiowait io d lb =
     foldl (\<lambda>(d, error) i. let (d', e) = io_biowait io d (lb_bp lb ! i)
              in (d', if error = 0 then e else error))
       (d, 0) [0..<lb_bsize lb div DEV_BSIZE]"

definition lbiodone :: "'d bio \<Rightarrow> 'd \<Rightarrow> lbuf \<Rightarrow> 'd" where
  "lbiodone io d lb =
     foldl (\<lambda>d i. io_biodone io d (lb_bp lb ! i)) d [0..<lb_bsize lb div DEV_BSIZE]"

fun first_error :: "nat list \<Rightarrow> nat" where
  "first_error [] = 0"
| "first_error (e # es) = (if e \<noteq> 0 then e else first_error es)"

definition lgeterror :: "'d bio \<Rightarrow> lbuf \<Rightarrow> nat" where
  "lgeterror io lb =
     first_error (map (\<lambda>i. io_geterror io (lb_bp lb ! i)) [0..<lb_bsize lb div DEV_BSIZE])"

section \<open>A logical buffer over \<open>n\<close> sectors\<close>

definition lbuf_at :: "lbuf \<Rightarrow> nat \<Rightarrow> nat \<Rightarrow> bool" where
  "lbuf_at lb b n \<longleftrightarrow> lb_bsize lb = n * DEV_BSIZE \<and> length (lb_addr lb) = n * DEV_BSIZE
     \<and> length (lb_bp lb) = n \<and> (\<forall>i<n. b_blkno (lb_bp lb ! i) = b + i)"

lemma DEV_BSIZE_pos [simp]: "0 < DEV_BSIZE" "DEV_BSIZE \<noteq> 0"
  by (simp_all add: DEV_BSIZE_def)

lemma lbuf_at_addr: "lbuf_at lb b n \<Longrightarrow> length xs = n * DEV_BSIZE \<Longrightarrow> lbuf_at (lb\<lparr>lb_addr := xs\<rparr>) b n"
  by (simp add: lbuf_at_def)

lemma lbuf_at_lclrbuf: "lbuf_at lb b n \<Longrightarrow> lbuf_at (lclrbuf lb) b n"
  by (simp add: lbuf_at_def lclrbuf_def)

lemma lb_sector_at:
  assumes "lbuf_at lb b n" and "i < n"
  shows "b_blkno (lb_sector lb i) = b + i"
    and "b_addr (lb_sector lb i) = take DEV_BSIZE (drop (DEV_BSIZE * i) (lb_addr lb))"
    and "length (b_addr (lb_sector lb i)) = DEV_BSIZE"
proof -
  have "DEV_BSIZE * Suc i \<le> DEV_BSIZE * n" using assms(2) by (intro mult_le_mono2) simp
  then show "length (b_addr (lb_sector lb i)) = DEV_BSIZE"
    using assms by (simp add: lb_sector_def lbuf_at_def min_def mult.commute le_antisym add_le_imp_le_diff)
qed (use assms in \<open>simp_all add: lb_sector_def lbuf_at_def\<close>)

text \<open>The state of the gathering loop after \<open>k\<close> sectors.\<close>

definition gathered :: "('d \<Rightarrow> nat \<Rightarrow> 'd \<times> buf) \<Rightarrow> 'd \<Rightarrow> nat \<Rightarrow> nat \<Rightarrow> nat \<Rightarrow> 'd \<times> lbuf" where
  "gathered rd d blkno bsize k = foldl (\<lambda>(d, lb) i.
          let (d', bp) = rd d (blkno + i)
          in (d', lb\<lparr>lb_bp := lb_bp lb @ [bp],
                     lb_addr := lb_addr lb @ take DEV_BSIZE (b_addr bp)\<rparr>))
        (d, \<lparr>lb_addr = [], lb_bsize = bsize, lb_bp = []\<rparr>) [0..<k]"

lemma gathered_0: "gathered rd d b bs 0 = (d, \<lparr>lb_addr = [], lb_bsize = bs, lb_bp = []\<rparr>)"
  by (simp add: gathered_def)

lemma gathered_Suc: "gathered rd d b bs (Suc k) = (let (d, lb) = gathered rd d b bs k;
          (d', bp) = rd d (b + k)
          in (d', lb\<lparr>lb_bp := lb_bp lb @ [bp],
                     lb_addr := lb_addr lb @ take DEV_BSIZE (b_addr bp)\<rparr>))"
  by (simp add: gathered_def case_prod_beta Let_def)

lemma range_Suc_disjoint: "{b..<b + Suc k} \<inter> H = {} \<Longrightarrow> {b..<b + k} \<inter> H = {} \<and> b + k \<notin> H"
  by (auto simp: disjoint_iff)

lemma lb_gather_gathered: "n \<le> MAXCLUSTBLOCKS \<Longrightarrow>
    lb_gather rd d b (n * DEV_BSIZE) = Some (gathered rd d b (n * DEV_BSIZE) n)"
  by (simp add: lb_gather_def gathered_def)

lemma claims_ok_reads: "reads_ok err view held rd \<Longrightarrow> claims_ok view held rd"
  unfolding reads_ok_def claims_ok_def by blast

lemma gathered_claims:
  assumes "claims_ok view held rd" and "{b..<b + k} \<inter> held d = {}"
    and "gathered rd d b bs k = (d', lb)"
  shows "view d' = view d \<and> held d' = held d \<union> {b..<b + k} \<and> lb_bsize lb = bs
    \<and> length (lb_addr lb) = k * DEV_BSIZE \<and> length (lb_bp lb) = k
    \<and> (\<forall>i<k. b_blkno (lb_bp lb ! i) = b + i)"
  using assms(2,3)
proof (induction k arbitrary: d' lb)
  case 0
  then show ?case by (auto simp: gathered_0)
next
  case (Suc k)
  obtain e lc where g: "gathered rd d b bs k = (e, lc)" by (cases "gathered rd d b bs k")
  obtain e' bp where r: "rd e (b + k) = (e', bp)" by (cases "rd e (b + k)")
  have dis: "{b..<b + k} \<inter> held d = {}" "b + k \<notin> held d"
    using range_Suc_disjoint [OF Suc.prems(1)] by simp_all
  note ih = Suc.IH [OF dis(1) g]
  have nh: "b + k \<notin> held e" using ih dis(2) by auto
  have c: "view e' = view e \<and> held e' = insert (b + k) (held e) \<and> b_blkno bp = b + k
      \<and> length (b_addr bp) = DEV_BSIZE"
    using assms(1) nh r unfolding claims_ok_def by blast
  have out: "d' = e'" "lb = lc\<lparr>lb_bp := lb_bp lc @ [bp], lb_addr := lb_addr lc @ take DEV_BSIZE (b_addr bp)\<rparr>"
    using Suc.prems(2) g r by (simp_all add: gathered_Suc)
  show ?case
  proof (intro conjI)
    show "held d' = held d \<union> {b..<b + Suc k}" using ih c out by auto
    show "\<forall>i<Suc k. b_blkno (lb_bp lb ! i) = b + i"
      using ih c out by (auto simp: nth_append less_Suc_eq)
  qed (use ih c out in simp_all)
qed

lemma first_error_0: "first_error es = 0 \<longleftrightarrow> (\<forall>e \<in> set es. e = 0)"
  by (induction es) auto

lemma gathered_reads:
  assumes ok: "reads_ok err view held rd" and "{b..<b + k} \<inter> held d = {}"
    and "gathered rd d b bs k = (d', lb)" and "\<forall>i<k. err (lb_bp lb ! i) = 0"
  shows "lb_addr lb = concat (map (view d) [b..<b + k])"
  using assms(2-)
proof (induction k arbitrary: d' lb)
  case 0
  then show ?case by (auto simp: gathered_0)
next
  case (Suc k)
  obtain e lc where g: "gathered rd d b bs k = (e, lc)" by (cases "gathered rd d b bs k")
  obtain e' bp where r: "rd e (b + k) = (e', bp)" by (cases "rd e (b + k)")
  have dis: "{b..<b + k} \<inter> held d = {}" "b + k \<notin> held d"
    using range_Suc_disjoint [OF Suc.prems(1)] by simp_all
  note cl = gathered_claims [OF claims_ok_reads [OF ok] dis(1) g]
  have out: "d' = e'" "lb = lc\<lparr>lb_bp := lb_bp lc @ [bp], lb_addr := lb_addr lc @ take DEV_BSIZE (b_addr bp)\<rparr>"
    using Suc.prems(2) g r by (simp_all add: gathered_Suc)
  have er: "\<forall>i<k. err (lb_bp lc ! i) = 0" "err bp = 0"
    using Suc.prems(3) out cl by (auto simp: nth_append less_Suc_eq)
  have "b + k \<notin> held e" using cl dis(2) by auto
  then have "b_addr bp = view e (b + k)" "length (b_addr bp) = DEV_BSIZE"
    using ok r er(2) unfolding reads_ok_def by blast+
  with Suc.IH [OF dis(1) g er(1)] cl out show ?case by simp
qed

lemma range_Suc_diff: "H - {b..<b + k} - {b + k} = H - {b..<b + Suc k}"
  by auto

text \<open>Scattering: every sector of the buffer becomes the contents of its block.\<close>

definition scattered :: "('d \<Rightarrow> buf \<Rightarrow> 'd) \<Rightarrow> 'd \<Rightarrow> lbuf \<Rightarrow> nat \<Rightarrow> 'd" where
  "scattered wr d lb k = foldl (\<lambda>d i. wr d (lb_sector lb i)) d [0..<k]"

lemma scattered_simps: "scattered wr d lb 0 = d"
    "scattered wr d lb (Suc k) = wr (scattered wr d lb k) (lb_sector lb k)"
  by (simp_all add: scattered_def)

lemma lb_scatter_scattered: "lbuf_at lb b n \<Longrightarrow> lb_scatter wr d lb = scattered wr d lb n"
  by (simp add: lb_scatter_def scattered_def lbuf_at_def)

lemma scattered_writes:
  assumes ok: "writes_ok view held wr" and at: "lbuf_at lb b n" and h: "{b..<b + n} \<subseteq> held d" and "k \<le> n"
  shows "view (scattered wr d lb k) = (\<lambda>s. if b \<le> s \<and> s < b + k
             then take DEV_BSIZE (drop (DEV_BSIZE * (s - b)) (lb_addr lb)) else view d s)
    \<and> held (scattered wr d lb k) = held d - {b..<b + k}"
  using \<open>k \<le> n\<close>
proof (induction k)
  case 0
  have "\<not> (b \<le> s \<and> s < b + 0)" for s by simp
  then show ?case by (simp only: scattered_simps if_False) simp
next
  case (Suc k)
  note ih = Suc.IH [OF Suc_leD [OF Suc.prems]]
  have k: "k < n" using Suc.prems by simp
  note sec = lb_sector_at [OF at k]
  have inh: "b_blkno (lb_sector lb k) \<in> held (scattered wr d lb k)"
    using ih h k sec(1) by auto
  have w: "view (scattered wr d lb (Suc k))
        = (view (scattered wr d lb k))(b + k := b_addr (lb_sector lb k))
      \<and> held (scattered wr d lb (Suc k)) = held (scattered wr d lb k) - {b + k}"
    using ok inh sec unfolding writes_ok_def scattered_simps by metis
  show ?case
  proof
    show "held (scattered wr d lb (Suc k)) = held d - {b..<b + Suc k}"
      by (simp only: conjunct2 [OF w] conjunct2 [OF ih] range_Suc_diff)
    show "view (scattered wr d lb (Suc k)) = (\<lambda>s. if b \<le> s \<and> s < b + Suc k
             then take DEV_BSIZE (drop (DEV_BSIZE * (s - b)) (lb_addr lb)) else view d s)"
      using w ih sec(2) by (auto simp: fun_eq_iff)
  qed
qed

section \<open>What the operations promise\<close>

lemma err_lgeterror: "lbuf_at lb b n \<Longrightarrow>
    lgeterror io lb = 0 \<longleftrightarrow> (\<forall>i<n. io_geterror io (lb_bp lb ! i) = 0)"
  by (auto simp: lgeterror_def lbuf_at_def first_error_0)

lemma lbread_ok:
  assumes ok: "bio_ok io view held" and n: "n \<le> MAXCLUSTBLOCKS" and free: "{b..<b + n} \<inter> held d = {}"
  shows "\<exists>d' lb. lbread io d b (n * DEV_BSIZE) = Some (d', lb) \<and> view d' = view d
    \<and> held d' = held d \<union> {b..<b + n} \<and> lbuf_at lb b n
    \<and> (lgeterror io lb = 0 \<longrightarrow> lb_addr lb = concat (map (view d) [b..<b + n]))"
proof -
  let ?rd = "\<lambda>d b. io_bread io d b DEV_BSIZE"
  have rd: "reads_ok (io_geterror io) view held ?rd" using ok by (simp add: bio_ok_def)
  obtain d' lb where g: "gathered ?rd d b (n * DEV_BSIZE) n = (d', lb)"
    by (cases "gathered ?rd d b (n * DEV_BSIZE) n")
  note c = gathered_claims [OF claims_ok_reads [OF rd] free g]
  from c have at: "lbuf_at lb b n" by (simp add: lbuf_at_def)
  have "lgeterror io lb = 0 \<longrightarrow> lb_addr lb = concat (map (view d) [b..<b + n])"
    using gathered_reads [OF rd free g] err_lgeterror [OF at] by blast
  with c at show ?thesis by (simp add: lbread_def lb_gather_gathered [OF n] g)
qed

lemma lgetblk_ok:
  assumes ok: "bio_ok io view held" and n: "n \<le> MAXCLUSTBLOCKS" and free: "{b..<b + n} \<inter> held d = {}"
  shows "\<exists>d' lb. lgetblk io d b (n * DEV_BSIZE) = Some (d', lb) \<and> view d' = view d
    \<and> held d' = held d \<union> {b..<b + n} \<and> lbuf_at lb b n"
proof -
  let ?rd = "\<lambda>d b. io_getblk io d b DEV_BSIZE"
  have rd: "claims_ok view held ?rd" using ok by (simp add: bio_ok_def)
  obtain d' lb where g: "gathered ?rd d b (n * DEV_BSIZE) n = (d', lb)"
    by (cases "gathered ?rd d b (n * DEV_BSIZE) n")
  note c = gathered_claims [OF rd free g]
  from c have "lbuf_at lb b n" by (simp add: lbuf_at_def)
  with c show ?thesis by (simp add: lgetblk_def lb_gather_gathered [OF n] g)
qed

text \<open>The contents of the device after a buffer over \<open>n\<close> sectors from \<open>b\<close> is written.\<close>

definition stored :: "(nat \<Rightarrow> u8 list) \<Rightarrow> nat \<Rightarrow> nat \<Rightarrow> u8 list \<Rightarrow> nat \<Rightarrow> u8 list" where
  "stored v b n xs s = (if b \<le> s \<and> s < b + n
     then take DEV_BSIZE (drop (DEV_BSIZE * (s - b)) xs) else v s)"

lemma lb_scatter_ok:
  assumes "writes_ok view held wr" and "lbuf_at lb b n" and "{b..<b + n} \<subseteq> held d"
  shows "view (lb_scatter wr d lb) = stored (view d) b n (lb_addr lb)
    \<and> held (lb_scatter wr d lb) = held d - {b..<b + n}"
  using scattered_writes [OF assms order_refl]
  by (simp add: lb_scatter_scattered [OF assms(2)] stored_def fun_eq_iff)

lemma lb_write_ok:
  assumes ok: "bio_ok io view held" and at: "lbuf_at lb b n" and h: "{b..<b + n} \<subseteq> held d"
  shows "view (lbwrite io d lb) = stored (view d) b n (lb_addr lb)"
    and "held (lbwrite io d lb) = held d - {b..<b + n}"
    and "view (lbawrite io d lb) = stored (view d) b n (lb_addr lb)"
    and "held (lbawrite io d lb) = held d - {b..<b + n}"
    and "view (lbdwrite io d lb) = stored (view d) b n (lb_addr lb)"
    and "held (lbdwrite io d lb) = held d - {b..<b + n}"
proof -
  have w: "writes_ok view held (\<lambda>d bp. fst (io_bwrite io d bp))" "writes_ok view held (io_bawrite io)"
      "writes_ok view held (io_bdwrite io)"
    using ok by (simp_all add: bio_ok_def)
  note s = lb_scatter_ok [OF w(1) at h] lb_scatter_ok [OF w(2) at h] lb_scatter_ok [OF w(3) at h]
  show "view (lbwrite io d lb) = stored (view d) b n (lb_addr lb)"
    "held (lbwrite io d lb) = held d - {b..<b + n}"
    "view (lbawrite io d lb) = stored (view d) b n (lb_addr lb)"
    "held (lbawrite io d lb) = held d - {b..<b + n}"
    "view (lbdwrite io d lb) = stored (view d) b n (lb_addr lb)"
    "held (lbdwrite io d lb) = held d - {b..<b + n}"
    using s by (simp_all add: lbwrite_def lbawrite_def lbdwrite_def)
qed

lemma lbrelse_ok:
  assumes ok: "bio_ok io view held" and at: "lbuf_at lb b n" and h: "{b..<b + n} \<subseteq> held d"
  shows "view (lbrelse io d lb) = view d \<and> held (lbrelse io d lb) = held d - {b..<b + n}"
proof -
  have rel: "releases_ok view held (io_brelse io)" using ok by (simp add: bio_ok_def)
  define f where "f k = foldl (\<lambda>d i. io_brelse io d (lb_bp lb ! i)) d [0..<k]" for k
  have "view (f k) = view d \<and> held (f k) = held d - {b..<b + k}" if "k \<le> n" for k
    using that
  proof (induction k)
    case 0
    then show ?case by (simp add: f_def)
  next
    case (Suc k)
    have st: "f (Suc k) = io_brelse io (f k) (lb_bp lb ! k)" by (simp add: f_def)
    have "b_blkno (lb_bp lb ! k) = b + k" using at Suc.prems by (simp add: lbuf_at_def)
    moreover have "b + k \<in> held (f k)" using Suc h by auto
    ultimately have r: "view (f (Suc k)) = view (f k) \<and> held (f (Suc k)) = held (f k) - {b + k}"
      using rel unfolding releases_ok_def st by metis
    have "view (f k) = view d \<and> held (f k) = held d - {b..<b + k}" using Suc by simp
    with r show ?case by (simp only: range_Suc_diff simp_thms)
  qed
  then show ?thesis using at by (simp add: lbrelse_def lbuf_at_def f_def)
qed

text \<open>Writing every sector although one failed, and reporting the first failure.\<close>

lemma lbwritewait_first:
  "lbwritewait io d lb = (let wr = (\<lambda>d bp. fst (io_bwrite io d bp)) in
     (lb_scatter wr d lb,
      first_error (map (\<lambda>k. snd (io_bwrite io (scattered wr d lb k) (lb_sector lb k)))
        [0..<lb_bsize lb div DEV_BSIZE])))"
proof -
  define wr where "wr = (\<lambda>d bp. fst (io_bwrite io d bp))"
  define g where "g k = foldl (\<lambda>(d, error) i. let (d', e) = io_bwrite io d (lb_sector lb i)
              in (d', if error = 0 then e else error)) (d, 0) [0..<k]" for k
  have fe: "first_error (xs @ [x]) = (if first_error xs = 0 then x else first_error xs)" for xs x
    by (induction xs) auto
  have "g k = (scattered wr d lb k,
      first_error (map (\<lambda>k. snd (io_bwrite io (scattered wr d lb k) (lb_sector lb k))) [0..<k]))" for k
  proof (induction k)
    case 0
    then show ?case by (simp add: g_def scattered_simps)
  next
    case (Suc k)
    have "g (Suc k) = (let (d', e) = io_bwrite io (fst (g k)) (lb_sector lb k)
        in (d', if snd (g k) = 0 then e else snd (g k)))"
      by (simp add: g_def case_prod_beta)
    then show ?case
      by (simp add: Suc fe scattered_simps wr_def case_prod_beta Let_def)
  qed
  then show ?thesis
    unfolding lbwritewait_def g_def Let_def wr_def lb_scatter_def scattered_def by blast
qed

text \<open>Cutting a byte string into sectors and joining them again.\<close>

lemma join_sectors:
  assumes "length xs = n * DEV_BSIZE"
  shows "concat (map (\<lambda>s. take DEV_BSIZE (drop (DEV_BSIZE * (s - b)) xs)) [b..<b + n]) = xs"
  using assms
proof (induction n arbitrary: xs b)
  case (Suc n)
  have le: "DEV_BSIZE \<le> length xs" using Suc.prems by simp
  have "length (drop DEV_BSIZE xs) = n * DEV_BSIZE" using Suc.prems by simp
  note ih = Suc.IH [OF this, of "Suc b"]
  have shift: "take DEV_BSIZE (drop (DEV_BSIZE * (s - b)) xs)
      = take DEV_BSIZE (drop (DEV_BSIZE * (s - Suc b)) (drop DEV_BSIZE xs))" if "Suc b \<le> s" for s
  proof -
    have t: "s - b = Suc (s - Suc b)" using that by simp
    have e: "DEV_BSIZE * (s - b) = DEV_BSIZE * (s - Suc b) + DEV_BSIZE"
      unfolding t by (simp only: mult_Suc_right add.commute)
    show ?thesis by (simp only: e drop_drop)
  qed
  have up: "[b..<b + Suc n] = b # [Suc b..<Suc b + n]" by (simp add: upt_rec)
  have "map (\<lambda>s. take DEV_BSIZE (drop (DEV_BSIZE * (s - b)) xs)) [Suc b..<Suc b + n]
      = map (\<lambda>s. take DEV_BSIZE (drop (DEV_BSIZE * (s - Suc b)) (drop DEV_BSIZE xs))) [Suc b..<Suc b + n]"
    by (rule map_cong [OF refl], rule shift) (simp only: set_upt atLeastLessThan_iff)
  then show ?case by (simp only: up list.map concat.simps ih) simp
qed simp

lemma stored_concat: "length xs = n * DEV_BSIZE \<Longrightarrow>
    concat (map (stored v b n xs) [b..<b + n]) = xs"
  by (subst (2) join_sectors [of xs n b, symmetric], assumption, rule arg_cong [of _ _ concat],
      rule map_cong [OF refl]) (simp add: stored_def)

section \<open>Properties\<close>

text \<open>C9: A claimed (or read) cluster buffer that is filled and written, by the synchronous, the
  asynchronous or the delayed write, gives all its sectors back, changes no sector outside, and a
  later read of the cluster returns exactly the bytes written unless a read error is reported.\<close>

theorem lb_store_load:
  assumes ok: "bio_ok io view held" and n: "n \<le> MAXCLUSTBLOCKS" and free: "{b..<b + n} \<inter> held d = {}"
    and len: "length xs = n * DEV_BSIZE" and wr: "wr \<in> {lbwrite io, lbawrite io, lbdwrite io}"
    and get: "get \<in> {lgetblk io, lbread io}"
  shows "\<exists>d1 lb. get d b (n * DEV_BSIZE) = Some (d1, lb)
    \<and> (let d2 = wr d1 (lb\<lparr>lb_addr := xs\<rparr>) in
        held d2 = held d \<and> (\<forall>s. s \<notin> {b..<b + n} \<longrightarrow> view d2 s = view d s)
        \<and> (\<exists>d3 lb'. lbread io d2 b (n * DEV_BSIZE) = Some (d3, lb')
            \<and> (lgeterror io lb' = 0 \<longrightarrow> lb_addr lb' = xs)))"
proof -
  obtain d1 lb where g: "get d b (n * DEV_BSIZE) = Some (d1, lb)" "view d1 = view d"
      "held d1 = held d \<union> {b..<b + n}" "lbuf_at lb b n"
    using get lgetblk_ok [OF ok n free] lbread_ok [OF ok n free] by (elim insertE) auto
  define d2 where "d2 = wr d1 (lb\<lparr>lb_addr := xs\<rparr>)"
  have at: "lbuf_at (lb\<lparr>lb_addr := xs\<rparr>) b n" using g(4) len by (rule lbuf_at_addr)
  have h: "{b..<b + n} \<subseteq> held d1" using g(3) by blast
  have w: "view d2 = stored (view d1) b n xs" "held d2 = held d1 - {b..<b + n}"
    using wr lb_write_ok [OF ok at h] by (auto simp: d2_def)
  have h2: "held d2 = held d" using w(2) g(3) free by blast
  have same: "\<forall>s. s \<notin> {b..<b + n} \<longrightarrow> view d2 s = view d s"
    unfolding w(1) g(2) stored_def by simp
  obtain d3 lb' where r: "lbread io d2 b (n * DEV_BSIZE) = Some (d3, lb')"
      "lgeterror io lb' = 0 \<longrightarrow> lb_addr lb' = concat (map (view d2) [b..<b + n])"
    using lbread_ok [OF ok n] free h2 by metis
  have "lgeterror io lb' = 0 \<longrightarrow> lb_addr lb' = xs"
    using r(2) unfolding w(1) stored_concat [OF len] .
  with g(1) h2 same r(1) show ?thesis unfolding d2_def by (simp add: Let_def)
qed

theorem lb_store_load_witness:
  "let d = \<lparr>r_data = (\<lambda>_. []), r_held = [9], r_bad = [8]\<rparr>; xs = replicate 1024 7 in
   \<exists>d1 lb. lgetblk ram_io d 20 (2 * DEV_BSIZE) = Some (d1, lb)
    \<and> (let d2 = lbdwrite ram_io d1 (lb\<lparr>lb_addr := xs\<rparr>) in
        ram_heldset d2 = ram_heldset d \<and> (\<forall>s. s \<notin> {20..<20 + 2} \<longrightarrow> ram_view d2 s = ram_view d s)
        \<and> (\<exists>d3 lb'. lbread ram_io d2 20 (2 * DEV_BSIZE) = Some (d3, lb')
            \<and> (lgeterror ram_io lb' = 0 \<longrightarrow> lb_addr lb' = xs)))"
  unfolding Let_def
  using lb_store_load [OF ram_io_ok, of 2 20 "\<lparr>r_data = (\<lambda>_. []), r_held = [9], r_bad = [8]\<rparr>"
      "replicate 1024 7" "lbdwrite ram_io" "lgetblk ram_io", unfolded Let_def]
  by (simp add: MAXCLUSTBLOCKS_def ram_heldset_def DEV_BSIZE_def)

text \<open>Writing with wait writes every sector of the buffer, also after one has failed, so the
  device ends as after the plain write; the error returned is that of the first sector whose write
  failed, and 0 exactly when none did.\<close>

theorem lbwritewait_reports_first:
  "fst (lbwritewait io d lb) = lbwrite io d lb
   \<and> (\<exists>errs. length errs = lb_bsize lb div DEV_BSIZE \<and> snd (lbwritewait io d lb) = first_error errs
       \<and> (snd (lbwritewait io d lb) = 0) = (set errs \<subseteq> {0})
       \<and> errs = map (\<lambda>k. snd (io_bwrite io
             (foldl (\<lambda>d i. fst (io_bwrite io d (lb_sector lb i))) d [0..<k]) (lb_sector lb k)))
           [0..<lb_bsize lb div DEV_BSIZE])"
  unfolding lbwritewait_first Let_def fst_conv snd_conv lbwrite_def scattered_def
  by (intro conjI exI [where P = "\<lambda>errs. length errs = _ \<and> _ errs"]) (auto simp: first_error_0)

text \<open>A buffer of more than \<open>MAXCLUSTBLOCKS\<close> sectors overruns the array of buffer pointers, in
  each of the allocating routines; any smaller one is allocated.\<close>

lemma lbuf_overflow:
  "(lbread io d b bsize = None) = (MAXCLUSTBLOCKS < bsize div DEV_BSIZE)
   \<and> (lbreada io d b ra bsize = None) = (MAXCLUSTBLOCKS < bsize div DEV_BSIZE)
   \<and> (lgetblk io d b bsize = None) = (MAXCLUSTBLOCKS < bsize div DEV_BSIZE)"
  by (simp add: lbread_def lbreada_def lgetblk_def lb_gather_def)

end
