(* ===== verification/DosTypes.thy ===== *)
theory DosTypes
  imports KPrelude
begin

text \<open>
  The data of the DOS file system: the mount structure, the directory entry and the in-core file
  (denode) with its two-slot FAT cache, as \<open>fs/dosfs/dosfs_filsys.h\<close>, \<open>fs/dosfs/direntry.h\<close>,
  \<open>fs/dosfs/denode.h\<close> and \<open>fs/dosfs/fat.h\<close> declare them, without the fields that only link them to
  the rest of the kernel (vnodes, locks, hash chains).
\<close>

section \<open>Constants\<close>

definition EINVAL :: nat where "EINVAL = 22"
definition E2BIG :: nat where "E2BIG = 7"
definition ENOSPC :: nat where "ENOSPC = 28"
definition EIO :: nat where "EIO = 5"
definition ENOENT :: nat where "ENOENT = 2"

definition DOSFSROOT :: nat where "DOSFSROOT = 0"
definition DOSFSFREE :: nat where "DOSFSFREE = 0"
definition CLUST_FIRST :: nat where "CLUST_FIRST = 2"
definition CLUST_EOFE :: nat where "CLUST_EOFE = 0xffff"
definition FAT_GET :: nat where "FAT_GET = 1"
definition FAT_SET :: nat where "FAT_SET = 2"
definition FC_SIZE :: nat where "FC_SIZE = 2"
definition FC_LASTMAP :: nat where "FC_LASTMAP = 0"
definition FC_LASTFC :: nat where "FC_LASTFC = 1"
definition FCE_EMPTY :: nat where "FCE_EMPTY = 0xffff"

definition ATTR_VOLUME :: u8 where "ATTR_VOLUME = 0x08"
definition ATTR_DIRECTORY :: u8 where "ATTR_DIRECTORY = 0x10"

lemmas dos_consts = EINVAL_def E2BIG_def ENOSPC_def EIO_def ENOENT_def DOSFSROOT_def DOSFSFREE_def
  CLUST_FIRST_def CLUST_EOFE_def FAT_GET_def FAT_SET_def FC_SIZE_def FC_LASTMAP_def FC_LASTFC_def
  FCE_EMPTY_def

definition DOSFSEOF :: "nat \<Rightarrow> bool" where
  "DOSFSEOF cn \<longleftrightarrow> cn AND 0xfff8 = 0xfff8"

section \<open>The mount structure\<close>

record dosfs_vfs =
  vfs_SectPerClust :: nat
  vfs_BytesPerSec :: nat
  vfs_FATs :: nat
  vfs_FATsecs :: nat
  vfs_fatblk :: nat
  vfs_rootdirblk :: nat
  vfs_rootdirsize :: nat
  vfs_firstcluster :: nat
  vfs_nmbrofclusters :: nat
  vfs_maxcluster :: nat
  vfs_freeclustercount :: int
  vfs_lookhere :: int
  vfs_bnshift :: nat
  vfs_brbomask :: nat
  vfs_cnshift :: nat
  vfs_crbomask :: nat
  vfs_bpcluster :: nat
  vfs_depclust :: nat
  vfs_fmod :: uint_t
  vfs_waitonfat :: bool
  vfs_inusemap :: "u8 list"

definition FAT12 :: "dosfs_vfs \<Rightarrow> bool" where
  "FAT12 pvp \<longleftrightarrow> vfs_maxcluster pvp \<le> 4086"

definition cntobn :: "dosfs_vfs \<Rightarrow> nat \<Rightarrow> nat" where
  "cntobn pvp cn = uadd32 (umul32 (usub32 cn CLUST_FIRST) (vfs_SectPerClust pvp)) (vfs_firstcluster pvp)"

definition bntocn :: "dosfs_vfs \<Rightarrow> nat \<Rightarrow> nat" where
  "bntocn pvp bn = uadd32 (usub32 bn (vfs_firstcluster pvp) div vfs_SectPerClust pvp) CLUST_FIRST"

section \<open>Directory entries and files\<close>

record direntry =
  deName :: "u8 list"
  deExtension :: "u8 list"
  deAttributes :: u8
  deReserved :: "u8 list"
  deTime :: u16
  deDate :: u16
  deStartCluster :: u16
  deFileSize :: uint_t

record fatcache =
  fc_frcn :: nat
  fc_fsrcn :: nat

record denode =
  de_flag :: uint_t
  de_dirclust :: nat
  de_diroffset :: nat
  de_refcnt :: int
  de_de :: direntry
  de_fc :: "fatcache list"
  de_lastr :: nat
  de_frspace :: nat
  de_froffset :: nat
  de_frcluster :: nat
  de_vroot :: bool

abbreviation de_StartCluster :: "denode \<Rightarrow> nat" where
  "de_StartCluster dep \<equiv> unat (deStartCluster (de_de dep))"

abbreviation de_Attributes :: "denode \<Rightarrow> u8" where
  "de_Attributes dep \<equiv> deAttributes (de_de dep)"

abbreviation de_FileSize :: "denode \<Rightarrow> nat" where
  "de_FileSize dep \<equiv> unat (deFileSize (de_de dep))"

text \<open>Setting a slot of the cache stores into two \<open>unsigned short\<close>.\<close>

definition fc_setcache :: "denode \<Rightarrow> nat \<Rightarrow> nat \<Rightarrow> nat \<Rightarrow> denode" where
  "fc_setcache dep slot frcn fsrcn = dep\<lparr>de_fc := (de_fc dep)[slot :=
     \<lparr>fc_frcn = frcn mod 65536, fc_fsrcn = fsrcn mod 65536\<rparr>]\<rparr>"

text \<open>The map from clusters to disk blocks and back is exact on the clusters of the file system.\<close>

lemma bntocn_cntobn:
  assumes "CLUST_FIRST \<le> cn" and "0 < vfs_SectPerClust pvp"
    and "(cn - CLUST_FIRST) * vfs_SectPerClust pvp + vfs_firstcluster pvp < 2 ^ 32" and "cn < 2 ^ 32"
    and "o' < vfs_SectPerClust pvp" and "(cn - CLUST_FIRST) * vfs_SectPerClust pvp + vfs_firstcluster pvp + o' < 2 ^ 32"
  shows "bntocn pvp (cntobn pvp cn + o') = cn"
proof -
  let ?a = "(cn - CLUST_FIRST) * vfs_SectPerClust pvp"
  have c: "cntobn pvp cn = ?a + vfs_firstcluster pvp"
    using assms(1,3) by (simp add: cntobn_def)
  have "(?a + o') div vfs_SectPerClust pvp = cn - CLUST_FIRST" using assms(2,5) by simp
  with assms(1,4) show ?thesis by (simp add: bntocn_def c)
qed

lemma DOSFSEOF_16: "cn < 65536 \<Longrightarrow> DOSFSEOF cn \<longleftrightarrow> 0xfff8 \<le> cn"
proof -
  assume cn: "cn < 65536"
  have e: "(0xfff8::nat) = push_bit 3 (mask 13)" by (simp add: mask_eq_exp_minus_1 push_bit_eq_mult)
  have "cn AND 0xfff8 = push_bit 3 (drop_bit 3 cn AND mask 13)"
    unfolding e by (rule bit_eqI) (auto simp: bit_simps)
  also have "drop_bit 3 cn AND mask 13 = cn div 8"
    using cn by (simp add: drop_bit_eq_div take_bit_eq_mod flip: take_bit_eq_mask)
  finally have "cn AND 0xfff8 = cn div 8 * 8" by (simp add: push_bit_eq_mult)
  moreover have "cn div 8 * 8 = 65528 \<longleftrightarrow> 65528 \<le> cn" using cn by arith
  ultimately show ?thesis by (simp add: DOSFSEOF_def)
qed

end
