(* ===== verification/FatTable.thy ===== *)
theory FatTable
  imports DosTypes
begin

text \<open>
  The file allocation table as bytes. An entry is 12 bits (two entries share three bytes) or 16
  bits; both encodings provide the interface \<open>fat_codec\<close>, in which the facts on cluster chains are
  proved once.
\<close>

section \<open>The two bytes of an entry\<close>

text \<open>\<open>union fattwiddle\<close> on a little-endian machine.\<close>

definition tw_word :: "u8 \<Rightarrow> u8 \<Rightarrow> u16" where
  "tw_word b0 b1 = ucast b0 OR push_bit 8 (ucast b1)"

definition tw_byte0 :: "u16 \<Rightarrow> u8" where
  "tw_byte0 w = ucast w"

definition tw_byte1 :: "u16 \<Rightarrow> u8" where
  "tw_byte1 w = ucast (drop_bit 8 w)"

lemma bit_tw_word: "bit (tw_word b0 b1) n = (if n < 8 then bit b0 n else bit b1 (n - 8))"
  by (auto simp: tw_word_def bit_simps dest: bit_imp_le_length)

lemma bit_tw_byte0: "bit (tw_byte0 w) n = (n < 8 \<and> bit w n)"
  by (auto simp: tw_byte0_def bit_simps)

lemma bit_tw_byte1: "bit (tw_byte1 w) n = (n < 8 \<and> bit w (n + 8))"
  by (auto simp: tw_byte1_def bit_simps add.commute)

lemmas tw_bits = bit_tw_word bit_tw_byte0 bit_tw_byte1

lemma tw_word_bytes [simp]: "tw_word (tw_byte0 w) (tw_byte1 w) = w"
  by (rule bit_word_eqI) (auto simp: tw_bits)

text \<open>The 12 bits of an entry out of its two bytes, put back into them, and the widening of the
  special values \<open>0xff0\<close> to \<open>0xfff\<close> to their 16-bit form.\<close>

definition tw_get12 :: "bool \<Rightarrow> u16 \<Rightarrow> u16" where
  "tw_get12 oddc w = (if oddc then drop_bit 4 w else w) AND 0x0fff"

definition widen12 :: "u16 \<Rightarrow> u16" where
  "widen12 w = (if w AND 0x0ff0 = 0x0ff0 then w OR 0xf000 else w)"

definition tw_put12 :: "bool \<Rightarrow> u8 \<Rightarrow> u8 \<Rightarrow> u16 \<Rightarrow> u8 \<times> u8" where
  "tw_put12 oddc b0 b1 v =
     (if oddc then let x = push_bit 4 v in ((b0 AND 0x0f) OR tw_byte0 x, tw_byte1 x)
      else let x = v AND 0x0fff in (tw_byte0 x, (b1 AND 0xf0) OR tw_byte1 x))"

lemma mask_bits:
  "bit (0x0fff :: u16) n = (n < 12)" "bit (0xf000 :: u16) n = (12 \<le> n \<and> n < 16)"
  "bit (0x0f :: u8) n = (n < 4)" "bit (0xf0 :: u8) n = (4 \<le> n \<and> n < 8)"
  "bit (0x0ff0 :: u16) n = (4 \<le> n \<and> n < 12)"
proof -
  have m: "(0x0fff :: u16) = mask 12" "(0xf000 :: u16) = push_bit 12 (mask 4)" "(0x0f :: u8) = mask 4"
      "(0xf0 :: u8) = push_bit 4 (mask 4)" "(0x0ff0 :: u16) = push_bit 4 (mask 8)"
    by (simp_all add: mask_eq_exp_minus_1 push_bit_eq_mult)
  show "bit (0x0fff :: u16) n = (n < 12)" unfolding m(1) by (simp only: bit_mask_iff) auto
  show "bit (0xf000 :: u16) n = (12 \<le> n \<and> n < 16)"
    unfolding m(2) by (simp only: bit_push_bit_iff bit_mask_iff) auto
  show "bit (0x0f :: u8) n = (n < 4)" unfolding m(3) by (simp only: bit_mask_iff) auto
  show "bit (0xf0 :: u8) n = (4 \<le> n \<and> n < 8)"
    unfolding m(4) by (simp only: bit_push_bit_iff bit_mask_iff) auto
  show "bit (0x0ff0 :: u16) n = (4 \<le> n \<and> n < 12)"
    unfolding m(5) by (simp only: bit_push_bit_iff bit_mask_iff) auto
qed

lemma tw_get12_put12: "tw_get12 oddc (tw_word (fst (tw_put12 oddc b0 b1 v)) (snd (tw_put12 oddc b0 b1 v)))
    = v AND 0x0fff"
  by (rule bit_word_eqI) (auto simp: tw_get12_def tw_put12_def Let_def tw_bits bit_simps mask_bits
      simp del: bit_numeral_word_iff)

text \<open>The nibble of the shared byte that belongs to the neighbour survives.\<close>

lemma tw_put12_other:
  "tw_get12 True (tw_word (snd (tw_put12 False b0 b1 v)) b2) = tw_get12 True (tw_word b1 b2)"
  "tw_get12 False (tw_word b (fst (tw_put12 True b0 b1 v))) = tw_get12 False (tw_word b b0)"
  by (rule bit_word_eqI; auto simp: tw_get12_def tw_put12_def Let_def tw_bits bit_simps mask_bits
      simp del: bit_numeral_word_iff)+

section \<open>Entries in the bytes of a table\<close>

definition off12 :: "nat \<Rightarrow> nat" where
  "off12 c = c + c div 2"

definition get12 :: "(nat \<Rightarrow> u8) \<Rightarrow> nat \<Rightarrow> u16" where
  "get12 f c = widen12 (tw_get12 (odd c) (tw_word (f (off12 c)) (f (off12 c + 1))))"

definition put12 :: "(nat \<Rightarrow> u8) \<Rightarrow> nat \<Rightarrow> u16 \<Rightarrow> nat \<Rightarrow> u8" where
  "put12 f c v = (let p = tw_put12 (odd c) (f (off12 c)) (f (off12 c + 1)) v
     in f(off12 c := fst p, off12 c + 1 := snd p))"

definition get16 :: "(nat \<Rightarrow> u8) \<Rightarrow> nat \<Rightarrow> u16" where
  "get16 f c = tw_word (f (2 * c)) (f (2 * c + 1))"

definition put16 :: "(nat \<Rightarrow> u8) \<Rightarrow> nat \<Rightarrow> u16 \<Rightarrow> nat \<Rightarrow> u8" where
  "put16 f c v = f(2 * c := tw_byte0 v, 2 * c + 1 := tw_byte1 v)"

definition norm12 :: "u16 \<Rightarrow> u16" where
  "norm12 v = widen12 (v AND 0x0fff)"

lemma get12_put12: "get12 (put12 f c v) c = norm12 v"
  by (simp add: get12_def put12_def norm12_def Let_def tw_get12_put12)

lemma get12_other:
  assumes "c \<noteq> c'"
  shows "get12 (put12 f c v) c' = get12 f c'"
proof -
  define k k' where "k = c div 2" and "k' = c' div 2"
  have o: "off12 c = 3 * k + (if odd c then 1 else 0)" "off12 c' = 3 * k' + (if odd c' then 1 else 0)"
    unfolding off12_def k_def k'_def by (cases "odd c"; cases "odd c'"; presburger)+
  show ?thesis
  proof (cases "k = k'")
    case True
    with assms have "odd c \<noteq> odd c'" unfolding k_def k'_def by presburger
    then show ?thesis using o True
      by (cases "odd c") (simp_all add: get12_def put12_def Let_def tw_put12_other)
  next
    case False
    then have "off12 c' \<noteq> off12 c" "off12 c' \<noteq> off12 c + 1" "off12 c' + 1 \<noteq> off12 c"
      unfolding o by (auto split: if_splits)
    then show ?thesis by (simp add: get12_def put12_def Let_def)
  qed
qed

lemma get16_put16: "get16 (put16 f c v) c = v"
  by (simp add: get16_def put16_def)

lemma get16_other: "c \<noteq> c' \<Longrightarrow> get16 (put16 f c v) c' = get16 f c'"
  by (simp add: get16_def put16_def)

lemma widen12_0: "widen12 w = 0 \<longleftrightarrow> w = 0"
proof
  assume h: "widen12 w = 0"
  have "\<not> bit w n" for n
  proof
    assume b: "bit w n"
    have "bit (widen12 w) n" using b by (simp add: widen12_def bit_simps)
    with h show False by simp
  qed
  then show "w = 0" by (intro bit_word_eqI) simp
qed (simp add: widen12_def)

section \<open>The interface of a table and its chains\<close>

text \<open>
  What the cluster code relies on in either encoding: an entry reads back as written, up to the
  widening, other entries keep their value, and a zero stays zero.
\<close>

locale fat_codec =
  fixes get :: "'f \<Rightarrow> nat \<Rightarrow> u16"
    and put :: "'f \<Rightarrow> nat \<Rightarrow> u16 \<Rightarrow> 'f"
    and norm :: "u16 \<Rightarrow> u16"
  assumes get_put: "get (put f c v) c = norm v"
    and get_other: "c \<noteq> c' \<Longrightarrow> get (put f c v) c' = get f c'"
    and norm_0: "norm 0 = 0"
    and norm_ffff: "norm 0xffff = 0xffff"
begin

definition entry :: "'f \<Rightarrow> nat \<Rightarrow> nat" where
  "entry f c = unat (get f c)"

lemma entry_put: "entry (put f c v) = (entry f)(c := unat (norm v))"
  by (auto simp: entry_def fun_eq_iff get_put get_other)

lemma entry_free: "entry (put f c 0) = (entry f)(c := 0)"
  by (simp add: entry_put norm_0)

lemma entry_end: "entry (put f c 0xffff) = (entry f)(c := 0xffff)"
  by (simp add: entry_put norm_ffff)

lemma entry_less: "entry f c < 65536"
  using unsigned_less [of "get f c"] by (simp add: entry_def)

end

interpretation fat12: fat_codec get12 put12 norm12
  by unfold_locales (auto simp: get12_put12 get12_other norm12_def widen12_def)

interpretation fat16: fat_codec get16 put16 "\<lambda>v. v"
  by unfold_locales (auto simp: get16_put16 get16_other)

end
