(* ===== verification/Fat.thy ===== *)
theory Fat
  imports Lbuf FatTable BitmapSpec "HOL-Library.Monad_Syntax"
begin

text \<open>
  The cluster code of the DOS file system, \<open>fs/dosfs/dosfs_fat.c\<close>: reading and setting entries of the
  file allocation table on all its copies, allocating and freeing clusters, the map of clusters in
  use, and the walk from a file's cluster number to a disk block with its two-slot cache.

  Every operation threads the device state, the mount structure and the denode explicitly. \<open>None\<close>
  stands for what C leaves undefined: an index outside a buffer, a null buffer, a variable read before
  it is set. The spin lock around the fields of the mount structure is not modelled (each operation
  is a step), nor are the statistics counters and warnings.
\<close>

section \<open>Buffers of the table\<close>

definition lb_get :: "lbuf \<Rightarrow> nat \<Rightarrow> u8 option" where
  "lb_get lb i = (if i < length (lb_addr lb) then Some (lb_addr lb ! i) else None)"

definition lb_set :: "lbuf \<Rightarrow> nat \<Rightarrow> u8 \<Rightarrow> lbuf option" where
  "lb_set lb i x = (if i < length (lb_addr lb) then Some (lb\<lparr>lb_addr := (lb_addr lb)[i := x]\<rparr>) else None)"

definition fat_bread :: "'d bio \<Rightarrow> dosfs_vfs \<Rightarrow> 'd \<Rightarrow> nat \<Rightarrow> ('d \<times> lbuf) option" where
  "fat_bread io pvp d bn = lbread io d bn (vfs_BytesPerSec pvp)"

definition fat_bwrite :: "'d bio \<Rightarrow> dosfs_vfs \<Rightarrow> 'd \<Rightarrow> lbuf \<Rightarrow> 'd" where
  "fat_bwrite io pvp d lb = (if vfs_waitonfat pvp then lbwrite io d lb else lbdwrite io d lb)"

definition lb_copy_in :: "lbuf \<Rightarrow> lbuf \<Rightarrow> nat \<Rightarrow> lbuf" where
  "lb_copy_in src dst n = dst\<lparr>lb_addr := take n (lb_addr src) @ drop n (lb_addr dst)\<rparr>"

definition rel_opt :: "'d bio \<Rightarrow> lbuf option \<Rightarrow> 'd \<Rightarrow> 'd" where
  "rel_opt io b d = (case b of None \<Rightarrow> d | Some lb \<Rightarrow> lbrelse io d lb)"

section \<open>Setting entries\<close>

text \<open>One copy of a modified block to another copy of the table.\<close>

definition copy_block :: "'d bio \<Rightarrow> dosfs_vfs \<Rightarrow> 'd \<Rightarrow> lbuf \<Rightarrow> nat \<Rightarrow> 'd option" where
  "copy_block io pvp d bp bn = do {
     (d, bpn) \<leftarrow> lgetblk io d bn (vfs_BytesPerSec pvp);
     Some (fat_bwrite io pvp d (lb_copy_in bp bpn (vfs_BytesPerSec pvp))) }"

fun otherfats_loop :: "'d bio \<Rightarrow> dosfs_vfs \<Rightarrow> lbuf \<Rightarrow> lbuf option \<Rightarrow> nat \<Rightarrow> nat \<Rightarrow> 'd \<Rightarrow> 'd option" where
  "otherfats_loop io pvp bp0 bp1 0 fatbn d = Some d"
| "otherfats_loop io pvp bp0 bp1 (Suc n) fatbn d = do {
     let fatbn = fatbn + vfs_FATsecs pvp;
     d \<leftarrow> copy_block io pvp d bp0 fatbn;
     d \<leftarrow> (case bp1 of None \<Rightarrow> Some d | Some b \<Rightarrow> copy_block io pvp d b (fatbn + 1));
     otherfats_loop io pvp bp0 bp1 n fatbn d }"

definition updateotherfats :: "'d bio \<Rightarrow> dosfs_vfs \<Rightarrow> 'd \<Rightarrow> lbuf \<Rightarrow> lbuf option \<Rightarrow> nat \<Rightarrow> 'd option" where
  "updateotherfats io pvp d bp0 bp1 fatbn = otherfats_loop io pvp bp0 bp1 (vfs_FATs pvp - 1) fatbn d"

definition setfat12slot :: "lbuf \<Rightarrow> lbuf option \<Rightarrow> bool \<Rightarrow> nat \<Rightarrow> nat \<Rightarrow> (lbuf \<times> lbuf option) option" where
  "setfat12slot bp0 bp1 oddcluster byteoffset newvalue = do {
     b0 \<leftarrow> lb_get bp0 byteoffset;
     b1 \<leftarrow> (case bp1 of Some b \<Rightarrow> lb_get b 0 | None \<Rightarrow> lb_get bp0 (byteoffset + 1));
     let p = tw_put12 oddcluster b0 b1 (of_nat newvalue);
     bp0 \<leftarrow> lb_set bp0 byteoffset (fst p);
     (case bp1 of
        Some b \<Rightarrow> do { b \<leftarrow> lb_set b 0 (snd p); Some (bp0, Some b) }
      | None \<Rightarrow> do { bp0 \<leftarrow> lb_set bp0 (byteoffset + 1) (snd p); Some (bp0, None) }) }"

text \<open>The first table is written out last; the buffers are gone afterwards.\<close>

definition fat_flush :: "'d bio \<Rightarrow> dosfs_vfs \<Rightarrow> 'd \<Rightarrow> lbuf \<Rightarrow> lbuf option \<Rightarrow> nat \<Rightarrow> ('d \<times> dosfs_vfs) option" where
  "fat_flush io pvp d bp0 bp1 blk = do {
     d \<leftarrow> updateotherfats io pvp d bp0 bp1 blk;
     let d = fat_bwrite io pvp d bp0;
     let d = (case bp1 of None \<Rightarrow> d | Some b \<Rightarrow> fat_bwrite io pvp d b);
     Some (d, pvp\<lparr>vfs_fmod := vfs_fmod pvp + 1\<rparr>) }"

section \<open>\<open>fatentry\<close>\<close>

text \<open>
  The result of an entry operation: the device, the mount structure, the error number, and what was
  stored through \<open>oldcontents\<close>, if anything.
\<close>

type_synonym 'd fat_result = "('d \<times> dosfs_vfs \<times> nat \<times> nat option) option"

definition fatentry12 :: "'d bio \<Rightarrow> nat \<Rightarrow> dosfs_vfs \<Rightarrow> 'd \<Rightarrow> nat \<Rightarrow> nat \<Rightarrow> nat \<Rightarrow> lbuf \<Rightarrow> lbuf option
    \<Rightarrow> nat \<Rightarrow> 'd fat_result" where
  "fatentry12 io function pvp d cluster whichblk whichbyte bp0 bp1 newcontents = do {
     old \<leftarrow> (if function AND FAT_GET \<noteq> 0 then do {
         b0 \<leftarrow> lb_get bp0 whichbyte;
         b1 \<leftarrow> (case bp1 of Some b \<Rightarrow> lb_get b 0 | None \<Rightarrow> lb_get bp0 (whichbyte + 1));
         Some (Some (unat (widen12 (tw_get12 (odd cluster) (tw_word b0 b1))))) }
       else Some None);
     if function AND FAT_SET \<noteq> 0 then do {
         (bp0, bp1) \<leftarrow> setfat12slot bp0 bp1 (odd cluster) whichbyte newcontents;
         (d, pvp) \<leftarrow> fat_flush io pvp d bp0 bp1 whichblk;
         Some (d, pvp, 0, old) }
     else Some (rel_opt io bp1 (lbrelse io d bp0), pvp, 0, old) }"

definition fatentry16 :: "'d bio \<Rightarrow> nat \<Rightarrow> dosfs_vfs \<Rightarrow> 'd \<Rightarrow> nat \<Rightarrow> nat \<Rightarrow> lbuf \<Rightarrow> nat \<Rightarrow> 'd fat_result" where
  "fatentry16 io function pvp d whichblk whichbyte bp0 newcontents = do {
     b0 \<leftarrow> lb_get bp0 whichbyte;
     b1 \<leftarrow> lb_get bp0 (whichbyte + 1);
     let old = (if function AND FAT_GET \<noteq> 0 then Some (unat (tw_word b0 b1)) else None);
     if function AND FAT_SET \<noteq> 0 then do {
         bp0 \<leftarrow> lb_set bp0 whichbyte (tw_byte0 (of_nat newcontents));
         bp0 \<leftarrow> lb_set bp0 (whichbyte + 1) (tw_byte1 (of_nat newcontents));
         (d, pvp) \<leftarrow> fat_flush io pvp d bp0 None whichblk;
         Some (d, pvp, 0, old) }
     else Some (lbrelse io d bp0, pvp, 0, old) }"

definition fatentry :: "'d bio \<Rightarrow> nat \<Rightarrow> dosfs_vfs \<Rightarrow> 'd \<Rightarrow> nat \<Rightarrow> bool \<Rightarrow> nat \<Rightarrow> 'd fat_result" where
  "fatentry io function pvp d cluster oldcontents newcontents =
     (if function AND (FAT_SET OR FAT_GET) = 0 then Some (d, pvp, EINVAL, None)
      else if function AND FAT_GET \<noteq> 0 \<and> \<not> oldcontents then Some (d, pvp, EINVAL, None)
      else if cluster < CLUST_FIRST \<or> vfs_maxcluster pvp < cluster then Some (d, pvp, EINVAL, None)
      else if FAT12 pvp then do {
        let whichbyte = (cluster + cluster div 2) mod 65536;
        let whichblk = drop_bit (vfs_bnshift pvp) whichbyte + vfs_fatblk pvp;
        let whichbyte = whichbyte AND vfs_brbomask pvp;
        (d, bp0) \<leftarrow> fat_bread io pvp d whichblk;
        if lgeterror io bp0 \<noteq> 0 then Some (lbrelse io d bp0, pvp, lgeterror io bp0, None)
        else if whichbyte = vfs_BytesPerSec pvp - 1 then do {
          (d, bp1) \<leftarrow> fat_bread io pvp d (whichblk + 1);
          if lgeterror io bp1 \<noteq> 0 then Some (lbrelse io d bp1, pvp, lgeterror io bp1, None)
          else fatentry12 io function pvp d cluster whichblk whichbyte bp0 (Some bp1) newcontents }
        else fatentry12 io function pvp d cluster whichblk whichbyte bp0 None newcontents }
      else do {
        let whichbyte = (cluster * 2) mod 65536;
        let whichblk = drop_bit (vfs_bnshift pvp) whichbyte + vfs_fatblk pvp;
        let whichbyte = whichbyte AND vfs_brbomask pvp;
        (d, bp0) \<leftarrow> fat_bread io pvp d whichblk;
        if lgeterror io bp0 \<noteq> 0 then Some (lbrelse io d bp0, pvp, lgeterror io bp0, None)
        else fatentry16 io function pvp d whichblk whichbyte bp0 newcontents })"

section \<open>The map of clusters in use\<close>

definition inuse_cap :: "u8 list \<Rightarrow> nat" where
  "inuse_cap m = 8 * length m"

definition inuse_tst :: "u8 list \<Rightarrow> nat \<Rightarrow> bool" where
  "inuse_tst m cn \<longleftrightarrow> m ! (cn div 8) AND push_bit (cn mod 8) 1 \<noteq> 0"

definition inuse_set :: "u8 list \<Rightarrow> nat \<Rightarrow> u8 list" where
  "inuse_set m cn = m[cn div 8 := m ! (cn div 8) OR push_bit (cn mod 8) 1]"

definition inuse_clr :: "u8 list \<Rightarrow> nat \<Rightarrow> u8 list" where
  "inuse_clr m cn = m[cn div 8 := m ! (cn div 8) AND NOT (push_bit (cn mod 8) 1)]"

lemma or_seven: "(cn::nat) OR 7 = cn div 8 * 8 + 7"
proof -
  have m: "(7::nat) = mask 3" by (simp add: mask_eq_exp_minus_1)
  have "cn OR 7 = push_bit 3 (drop_bit 3 cn) OR 7"
    unfolding m by (rule bit_eqI) (auto simp: bit_simps)
  also have "\<dots> = push_bit 3 (drop_bit 3 cn) + 7"
    unfolding m by (rule disjunctive_add [symmetric]) (auto simp: bit_simps)
  finally show ?thesis by (simp add: push_bit_eq_mult drop_bit_eq_div)
qed

lemma or_seven_ge: "(cn::nat) \<le> cn OR 7"
  unfolding or_seven by arith

function inuse_scan :: "u8 list \<Rightarrow> nat \<Rightarrow> nat \<Rightarrow> nat option" where
  "inuse_scan m mx cn =
     (if mx < cn then None
      else if m ! (cn div 8) \<noteq> 0xff then
        (case find (\<lambda>c. \<not> inuse_tst m c) [cn..<(cn OR 7) + 1] of
           Some c \<Rightarrow> Some c
         | None \<Rightarrow> inuse_scan m mx ((cn OR 7) + 1 + 8))
      else inuse_scan m mx (cn + 8))"
  by pat_completeness auto

termination
proof (relation "measure (\<lambda>(m, mx, cn). mx + 1 - cn)", goal_cases)
  case (2 m mx cn)
  have "cn < (cn OR 7) + 1 + 8" using or_seven_ge [of cn] by linarith
  with 2 show ?case by (simp only: in_measure case_prod_conv)
qed simp_all

declare inuse_scan.simps [simp del]

section \<open>Allocating and freeing clusters\<close>

definition clusterfree :: "'d bio \<Rightarrow> dosfs_vfs \<Rightarrow> 'd \<Rightarrow> nat \<Rightarrow> ('d \<times> dosfs_vfs \<times> nat) option" where
  "clusterfree io pvp d cluster = do {
     (d, pvp, error, _) \<leftarrow> fatentry io FAT_SET pvp d cluster False DOSFSFREE;
     if error = 0 then
       Some (d, pvp\<lparr>vfs_freeclustercount := vfs_freeclustercount pvp + 1,
               vfs_inusemap := inuse_clr (vfs_inusemap pvp) cluster\<rparr>, 0)
     else Some (d, pvp, error) }"

definition clusteralloc :: "'d bio \<Rightarrow> dosfs_vfs \<Rightarrow> 'd \<Rightarrow> nat \<Rightarrow> ('d \<times> dosfs_vfs \<times> nat \<times> nat option) option" where
  "clusteralloc io pvp d fillwith =
     (case inuse_scan (vfs_inusemap pvp) (vfs_maxcluster pvp) 0 of
        None \<Rightarrow> Some (d, pvp, ENOSPC, None)
      | Some cn \<Rightarrow> do {
          (d, pvp, error, _) \<leftarrow> fatentry io FAT_SET pvp d cn False fillwith;
          if error = 0 then
            Some (d, pvp\<lparr>vfs_inusemap := inuse_set (vfs_inusemap pvp) cn,
                    vfs_freeclustercount := vfs_freeclustercount pvp - 1,
                    vfs_fmod := vfs_fmod pvp + 1\<rparr>, 0, Some cn)
          else Some (d, pvp, error, None) })"

text \<open>The loop over a chain; \<open>fuel\<close> bounds the number of clusters visited.\<close>

fun freeclusterchain :: "'d bio \<Rightarrow> nat \<Rightarrow> dosfs_vfs \<Rightarrow> 'd \<Rightarrow> nat \<Rightarrow> ('d \<times> dosfs_vfs \<times> nat) option" where
  "freeclusterchain io 0 pvp d startcluster = None"
| "freeclusterchain io (Suc fuel) pvp d startcluster =
     (if CLUST_FIRST \<le> startcluster \<and> startcluster \<le> vfs_maxcluster pvp then do {
        (d, pvp, error, old) \<leftarrow> fatentry io (FAT_GET OR FAT_SET) pvp d startcluster True DOSFSFREE;
        if error \<noteq> 0 then Some (d, pvp, error)
        else do {
          nextcluster \<leftarrow> old;
          freeclusterchain io fuel (pvp\<lparr>vfs_freeclustercount := vfs_freeclustercount pvp + 1,
              vfs_inusemap := inuse_clr (vfs_inusemap pvp) startcluster,
              vfs_fmod := vfs_fmod pvp + 1\<rparr>) d nextcluster } }
      else Some (d, pvp, 0))"

section \<open>Walking the table with one buffer in hand\<close>

text \<open>
  The block that holds an entry, read unless it is the one in hand. An error has released every
  buffer (\<open>Inl\<close>); otherwise the buffer in hand and its block number follow (\<open>Inr\<close>).
\<close>

definition fat_load :: "'d bio \<Rightarrow> dosfs_vfs \<Rightarrow> 'd \<Rightarrow> lbuf option \<Rightarrow> nat \<Rightarrow> nat
    \<Rightarrow> ('d \<times> nat + 'd \<times> lbuf) option" where
  "fat_load io pvp d bp0 bp0_bn bn =
     (if bn \<noteq> bp0_bn then do {
        let d = rel_opt io bp0 d;
        (d, bp0) \<leftarrow> fat_bread io pvp d bn;
        if lgeterror io bp0 \<noteq> 0 then Some (Inl (lbrelse io d bp0, lgeterror io bp0))
        else Some (Inr (d, bp0)) }
      else do { bp0 \<leftarrow> bp0; Some (Inr (d, bp0)) })"

section \<open>Filling the map of clusters in use\<close>

text \<open>The two bytes of entry \<open>cn\<close>: the next block becomes the one in hand when the entry spans two.\<close>

definition fill_word :: "'d bio \<Rightarrow> dosfs_vfs \<Rightarrow> 'd \<Rightarrow> lbuf option \<Rightarrow> nat \<Rightarrow> nat
    \<Rightarrow> ('d \<times> nat + 'd \<times> lbuf \<times> nat \<times> u16) option" where
  "fill_word io pvp d bp0 bp0_blk cn = do {
     let off = (if FAT12 pvp then cn + cn div 2 else cn * 2);
     let whichblk = drop_bit (vfs_bnshift pvp) off + vfs_fatblk pvp;
     let whichbyte = off AND vfs_brbomask pvp;
     r \<leftarrow> fat_load io pvp d bp0 bp0_blk whichblk;
     (case r of
        Inl (d, error) \<Rightarrow> Some (Inl (d, error))
      | Inr (d, bp0) \<Rightarrow> do {
          b0 \<leftarrow> lb_get bp0 whichbyte;
          if FAT12 pvp \<and> whichbyte = vfs_BytesPerSec pvp - 1 then do {
            (d, bp1) \<leftarrow> fat_bread io pvp d (whichblk + 1);
            if lgeterror io bp1 \<noteq> 0
            then Some (Inl (lbrelse io (lbrelse io d bp0) bp1, lgeterror io bp1))
            else do {
              b1 \<leftarrow> lb_get bp1 0;
              Some (Inr (lbrelse io d bp0, bp1, whichblk + 1,
                tw_get12 (odd cn) (tw_word b0 b1))) } }
          else do {
            b1 \<leftarrow> lb_get bp0 (whichbyte + 1);
            Some (Inr (d, bp0, whichblk,
              if FAT12 pvp then tw_get12 (odd cn) (tw_word b0 b1) else tw_word b0 b1)) } }) }"

fun fill_loop :: "'d bio \<Rightarrow> nat list \<Rightarrow> dosfs_vfs \<Rightarrow> 'd \<Rightarrow> lbuf option \<Rightarrow> nat
    \<Rightarrow> ('d \<times> dosfs_vfs \<times> nat) option" where
  "fill_loop io [] pvp d bp0 bp0_blk = do { b \<leftarrow> bp0; Some (lbrelse io d b, pvp, 0) }"
| "fill_loop io (cn # cns) pvp d bp0 bp0_blk = do {
     r \<leftarrow> fill_word io pvp d bp0 bp0_blk cn;
     (case r of
        Inl (d, error) \<Rightarrow> Some (d, pvp, error)
      | Inr (d, bp0, blk, w) \<Rightarrow>
          fill_loop io cns
            (if w = 0 then pvp\<lparr>vfs_freeclustercount := vfs_freeclustercount pvp + 1,
                vfs_inusemap := inuse_clr (vfs_inusemap pvp) cn,
                vfs_lookhere := (if vfs_lookhere pvp < 0 then int cn else vfs_lookhere pvp)\<rparr>
             else pvp)
            d (Some bp0) blk) }"

definition fillinusemap :: "'d bio \<Rightarrow> dosfs_vfs \<Rightarrow> 'd \<Rightarrow> ('d \<times> dosfs_vfs \<times> nat) option" where
  "fillinusemap io pvp d =
     fill_loop io [CLUST_FIRST..<vfs_maxcluster pvp + 1]
       (pvp\<lparr>vfs_inusemap := replicate (vfs_maxcluster pvp div 8 + 1) 0xff
              @ drop (vfs_maxcluster pvp div 8 + 1) (vfs_inusemap pvp),
            vfs_freeclustercount := 0, vfs_lookhere := - 1\<rparr>)
       d None (2 ^ 32 - 1)"

section \<open>The FAT cache of a file\<close>

definition fc_closer :: "nat \<Rightarrow> fatcache option \<Rightarrow> fatcache \<Rightarrow> fatcache option" where
  "fc_closer findcn closest fc =
     (if fc_frcn fc \<noteq> FCE_EMPTY \<and> fc_frcn fc \<le> findcn
         \<and> (case closest of None \<Rightarrow> True | Some c \<Rightarrow> fc_frcn c < fc_frcn fc)
      then Some fc else closest)"

definition fc_lookup :: "denode \<Rightarrow> nat \<Rightarrow> nat \<times> nat \<Rightarrow> nat \<times> nat" where
  "fc_lookup dep findcn dflt =
     (case foldl (fc_closer findcn) None (map (\<lambda>i. de_fc dep ! i) [0..<FC_SIZE]) of
        None \<Rightarrow> dflt
      | Some fc \<Rightarrow> (fc_frcn fc, fc_fsrcn fc))"

definition fc_purge :: "denode \<Rightarrow> nat \<Rightarrow> denode" where
  "fc_purge dep frcn = dep\<lparr>de_fc := map (\<lambda>fc.
     if fc_frcn fc \<noteq> FCE_EMPTY \<and> frcn \<le> fc_frcn fc then fc\<lparr>fc_frcn := FCE_EMPTY\<rparr> else fc) (de_fc dep)\<rparr>"

section \<open>From a file's cluster to the disk\<close>

text \<open>One step of the loop in \<open>pcbmap\<close>: the entry of \<open>cn\<close>.\<close>

definition pcb_next :: "'d bio \<Rightarrow> dosfs_vfs \<Rightarrow> 'd \<Rightarrow> lbuf option \<Rightarrow> nat \<Rightarrow> nat
    \<Rightarrow> ('d \<times> nat + 'd \<times> lbuf \<times> nat \<times> nat) option" where
  "pcb_next io pvp d bp0 bp0_bn cn = do {
     let byteoffset = (if FAT12 pvp then cn + cn div 2 else cn * 2);
     let bn = drop_bit (vfs_bnshift pvp) byteoffset + vfs_fatblk pvp;
     let bo = byteoffset AND vfs_brbomask pvp;
     r \<leftarrow> fat_load io pvp d bp0 bp0_bn bn;
     (case r of
        Inl (d, error) \<Rightarrow> Some (Inl (d, error))
      | Inr (d, bp0) \<Rightarrow> do {
          b0 \<leftarrow> lb_get bp0 bo;
          if FAT12 pvp \<and> bo = vfs_BytesPerSec pvp - 1 then do {
            (d, bp1) \<leftarrow> fat_bread io pvp d (bn + 1);
            if lgeterror io bp1 \<noteq> 0
            then Some (Inl (lbrelse io (lbrelse io d bp0) bp1, lgeterror io bp1))
            else do {
              b1 \<leftarrow> lb_get bp1 0;
              Some (Inr (lbrelse io d bp1, bp0, bn,
                unat (widen12 (tw_get12 (odd cn) (tw_word b0 b1))))) } }
          else do {
            b1 \<leftarrow> lb_get bp0 (bo + 1);
            Some (Inr (d, bp0, bn,
              if FAT12 pvp then unat (widen12 (tw_get12 (odd cn) (tw_word b0 b1)))
              else unat (tw_word b0 b1))) } }) }"

text \<open>
  The loop over at most \<open>n\<close> entries from file cluster \<open>i\<close> at \<open>cn\<close>. The last component is \<open>prevcn\<close>,
  \<open>None\<close> until it is set.
\<close>

fun pcb_loop :: "'d bio \<Rightarrow> dosfs_vfs \<Rightarrow> nat \<Rightarrow> 'd \<Rightarrow> lbuf option \<Rightarrow> nat \<Rightarrow> nat \<Rightarrow> nat \<Rightarrow> nat option
    \<Rightarrow> ('d \<times> nat + 'd \<times> lbuf option \<times> nat \<times> nat \<times> nat option) option" where
  "pcb_loop io pvp 0 d bp0 bp0_bn i cn prevcn = Some (Inr (d, bp0, i, cn, prevcn))"
| "pcb_loop io pvp (Suc n) d bp0 bp0_bn i cn prevcn =
     (if DOSFSEOF cn then Some (Inr (d, bp0, i, cn, prevcn))
      else do {
        r \<leftarrow> pcb_next io pvp d bp0 bp0_bn cn;
        (case r of
           Inl (d, error) \<Rightarrow> Some (Inl (d, error))
         | Inr (d, bp0, bn, cn') \<Rightarrow> pcb_loop io pvp n d (Some bp0) bn (i + 1) cn' (Some cn)) })"

text \<open>
  The result: device, denode (its cache changes), error number, and what is stored through \<open>bnp\<close> and
  \<open>cnp\<close>. \<open>wantb\<close> and \<open>wantc\<close> say which of the two pointers is not null.
\<close>

definition pcbmap :: "'d bio \<Rightarrow> dosfs_vfs \<Rightarrow> 'd \<Rightarrow> denode \<Rightarrow> nat \<Rightarrow> bool \<Rightarrow> bool
    \<Rightarrow> ('d \<times> denode \<times> nat \<times> nat option \<times> nat option) option" where
  "pcbmap io pvp d dep findcn wantb wantc =
     (let opt = (\<lambda>c x. if c then Some x else None) in
      if \<not> wantb \<and> \<not> wantc then Some (d, dep, 0, None, None)
      else if de_StartCluster dep = DOSFSROOT then
        (if de_Attributes dep AND ATTR_DIRECTORY \<noteq> 0 then
           (if int (vfs_rootdirsize pvp) < slong (umul32 findcn (vfs_SectPerClust pvp))
            then Some (d, dep, E2BIG, None, opt wantc (vfs_rootdirsize pvp div vfs_SectPerClust pvp))
            else Some (d, dep, 0, opt wantb (uadd32 (vfs_rootdirblk pvp) (umul32 findcn (vfs_SectPerClust pvp))),
                       opt wantc DOSFSROOT))
         else Some (d, dep, E2BIG, None, opt wantc 0))
      else do {
        let start = fc_lookup dep findcn (0, de_StartCluster dep);
        r \<leftarrow> pcb_loop io pvp (findcn - fst start) d None (2 ^ 32 - 1) (fst start) (snd start) None;
        (case r of
           Inl (d, error) \<Rightarrow> Some (d, dep, error, None, None)
         | Inr (d, bp0, i, cn, prevcn) \<Rightarrow>
             if \<not> DOSFSEOF cn then
               Some (rel_opt io bp0 d, fc_setcache dep FC_LASTMAP i cn, 0, opt wantb (cntobn pvp cn), opt wantc cn)
             else do {
               prevcn \<leftarrow> prevcn;
               Some (rel_opt io bp0 d, fc_setcache dep FC_LASTFC (usub32 i 1) prevcn, E2BIG, None, opt wantc i) }) })"

section \<open>Extending a file\<close>

text \<open>The last-cluster slot is filled by mapping a position no file has, which is expected to fail with E2BIG.\<close>

definition ext_last :: "'d bio \<Rightarrow> dosfs_vfs \<Rightarrow> 'd \<Rightarrow> denode \<Rightarrow> ('d \<times> denode \<times> nat option) option" where
  "ext_last io pvp d dep =
     (if fc_frcn (de_fc dep ! FC_LASTFC) = FCE_EMPTY \<and> de_StartCluster dep \<noteq> 0 then do {
        (d, dep, error, _, _) \<leftarrow> pcbmap io pvp d dep 0xffff False True;
        Some (d, dep, if error = E2BIG then None else Some error) }
      else Some (d, dep, None))"

text \<open>The new cluster becomes the start of an empty file, or is linked to from the last cluster.\<close>

definition ext_chain :: "'d bio \<Rightarrow> dosfs_vfs \<Rightarrow> 'd \<Rightarrow> denode \<Rightarrow> nat
    \<Rightarrow> ('d \<times> dosfs_vfs \<times> denode \<times> nat \<times> nat) option" where
  "ext_chain io pvp d dep cn =
     (if de_StartCluster dep = 0 then
        Some (d, pvp, dep\<lparr>de_de := (de_de dep)\<lparr>deStartCluster := of_nat cn\<rparr>\<rparr>, 0, 0)
      else do {
        (d, pvp, error, _) \<leftarrow> fatentry io FAT_SET pvp d (fc_fsrcn (de_fc dep ! FC_LASTFC)) False cn;
        if error \<noteq> 0 then do {
          (d, pvp, _) \<leftarrow> clusterfree io pvp d cn;
          Some (d, pvp, dep, error, 0) }
        else Some (d, pvp, dep, 0, fc_frcn (de_fc dep ! FC_LASTFC) + 1) })"

definition extendfile :: "'d bio \<Rightarrow> dosfs_vfs \<Rightarrow> 'd \<Rightarrow> denode \<Rightarrow> bool \<Rightarrow> bool
    \<Rightarrow> ('d \<times> dosfs_vfs \<times> denode \<times> nat \<times> lbuf option \<times> nat option) option" where
  "extendfile io pvp d dep wantbp wantc =
     (if de_vroot dep then Some (d, pvp, dep, ENOSPC, None, None)
      else do {
        (d, dep, stop) \<leftarrow> ext_last io pvp d dep;
        (case stop of
           Some e \<Rightarrow> Some (d, pvp, dep, e, None, None)
         | None \<Rightarrow> do {
             (d, pvp, error, cn) \<leftarrow> clusteralloc io pvp d CLUST_EOFE;
             if error \<noteq> 0 then Some (d, pvp, dep, error, None, None)
             else do {
               cn \<leftarrow> cn;
               (d, pvp, dep, error, frcn) \<leftarrow> ext_chain io pvp d dep cn;
               if error \<noteq> 0 then Some (d, pvp, dep, error, None, None)
               else do {
                 let dep = fc_setcache dep FC_LASTFC frcn cn;
                 (d, bp) \<leftarrow>
                   (if wantbp then do {
                      (d, bp) \<leftarrow> lgetblk io d (cntobn pvp cn) (vfs_bpcluster pvp);
                      Some (d, Some (lclrbuf bp)) }
                    else Some (d, None));
                 Some (d, pvp, dep, 0, bp, if wantc then Some cn else None) } } }) })"

end
