(* ===== verification/FatIO.thy ===== *)
theory FatIO
  imports Fat
begin

text \<open>
  The table on the device: its bytes and entries as a function of what the cache shows, the
  conditions a mounted file system meets, and how reading and flushing blocks act on them.
\<close>

section \<open>The table of a mounted file system\<close>

definition fatblks :: "dosfs_vfs \<Rightarrow> nat set" where
  "fatblks pvp = {vfs_fatblk pvp..<vfs_fatblk pvp + vfs_FATs pvp * vfs_FATsecs pvp}"

definition fatb :: "dosfs_vfs \<Rightarrow> (nat \<Rightarrow> u8 list) \<Rightarrow> nat \<Rightarrow> u8" where
  "fatb pvp v i = v (vfs_fatblk pvp + i div 512) ! (i mod 512)"

definition fat_at :: "dosfs_vfs \<Rightarrow> (nat \<Rightarrow> u8 list) \<Rightarrow> nat \<Rightarrow> nat" where
  "fat_at pvp v c = (if FAT12 pvp then fat12.entry (fatb pvp v) c else fat16.entry (fatb pvp v) c)"

definition fat_norm :: "dosfs_vfs \<Rightarrow> nat \<Rightarrow> nat" where
  "fat_norm pvp w = (if FAT12 pvp then unat (norm12 (of_nat w)) else unat (of_nat w :: u16))"

definition fat_off :: "dosfs_vfs \<Rightarrow> nat \<Rightarrow> nat" where
  "fat_off pvp c = (if FAT12 pvp then off12 c else 2 * c)"

text \<open>All copies of the table agree.\<close>

definition synced :: "dosfs_vfs \<Rightarrow> (nat \<Rightarrow> u8 list) \<Rightarrow> bool" where
  "synced pvp v \<longleftrightarrow> (\<forall>k<vfs_FATs pvp. \<forall>j<vfs_FATsecs pvp.
     v (vfs_fatblk pvp + k * vfs_FATsecs pvp + j) = v (vfs_fatblk pvp + j))"

text \<open>
  What mounting establishes (512-byte blocks, at least one table, a map with a bit for every
  cluster) and what a file system that was made properly has: a table large enough for its
  clusters.
\<close>

definition mount_ok :: "dosfs_vfs \<Rightarrow> bool" where
  "mount_ok pvp \<longleftrightarrow> vfs_bnshift pvp = 9 \<and> vfs_brbomask pvp = 511 \<and> vfs_BytesPerSec pvp = 512
     \<and> 1 \<le> vfs_FATs pvp \<and> fat_off pvp (vfs_maxcluster pvp) + 1 < vfs_FATsecs pvp * 512
     \<and> vfs_maxcluster pvp < 65520 \<and> length (vfs_inusemap pvp) = vfs_maxcluster pvp div 8 + 1
     \<and> vfs_fatblk pvp + vfs_FATs pvp * vfs_FATsecs pvp < 2 ^ 32"

lemma fat_off_mono: "c \<le> c' \<Longrightarrow> fat_off pvp c \<le> fat_off pvp c'"
  by (auto simp: fat_off_def off12_def intro: add_mono div_le_mono)

lemma mount_off:
  assumes "mount_ok pvp" and "c \<le> vfs_maxcluster pvp"
  shows "fat_off pvp c + 1 < vfs_FATsecs pvp * 512"
  using fat_off_mono [OF assms(2), of pvp] assms(1) by (simp add: mount_ok_def)

text \<open>An entry depends on two bytes only.\<close>

lemma fat_at_cong:
  assumes "fatb pvp v (fat_off pvp c) = f (fat_off pvp c)"
    and "fatb pvp v (fat_off pvp c + 1) = f (fat_off pvp c + 1)"
  shows "fat_at pvp v c = (if FAT12 pvp then fat12.entry f c else fat16.entry f c)"
  using assms
  by (cases "FAT12 pvp") (simp_all add: fat_at_def fat12.entry_def fat16.entry_def get12_def get16_def fat_off_def)

section \<open>One-sector buffers\<close>

lemma fat_bread_ok:
  assumes "bio_ok io view held" and "vfs_BytesPerSec pvp = 512" and "bn \<notin> held d"
  shows "\<exists>d' lb. fat_bread io pvp d bn = Some (d', lb) \<and> view d' = view d
    \<and> held d' = insert bn (held d) \<and> lbuf_at lb bn 1
    \<and> (lgeterror io lb = 0 \<longrightarrow> lb_addr lb = view d bn)"
  using lbread_ok [OF assms(1), of 1 bn d] assms(2,3)
  by (simp add: fat_bread_def MAXCLUSTBLOCKS_def DEV_BSIZE_def)

lemma one_sector:
  assumes "length (lb_addr lb) = DEV_BSIZE"
  shows "stored v b 1 (lb_addr lb) = v(b := lb_addr lb)"
proof (rule ext)
  fix s
  show "stored v b 1 (lb_addr lb) s = (v(b := lb_addr lb)) s"
    using assms by (cases "s = b") (auto simp: stored_def)
qed

lemma fat_bwrite_ok:
  assumes "bio_ok io view held" and "lbuf_at lb bn 1" and "bn \<in> held d"
  shows "view (fat_bwrite io pvp d lb) = (view d)(bn := lb_addr lb)
    \<and> held (fat_bwrite io pvp d lb) = held d - {bn}"
  using lb_write_ok [OF assms(1,2), of d] assms(2,3) one_sector [of lb]
  by (simp add: fat_bwrite_def lbuf_at_def)

lemma lbrelse1_ok:
  assumes "bio_ok io view held" and "lbuf_at lb bn 1" and "bn \<in> held d"
  shows "view (lbrelse io d lb) = view d \<and> held (lbrelse io d lb) = held d - {bn}"
  using lbrelse_ok [OF assms(1,2), of d] assms(3) by simp

lemma copy_block_ok:
  assumes ok: "bio_ok io view held" and bs: "vfs_BytesPerSec pvp = 512" and at: "lbuf_at bp b 1"
    and free: "bn \<notin> held d"
  shows "\<exists>d'. copy_block io pvp d bp bn = Some d' \<and> view d' = (view d)(bn := lb_addr bp) \<and> held d' = held d"
proof -
  obtain d1 lb where g: "lgetblk io d bn 512 = Some (d1, lb)" "view d1 = view d"
      "held d1 = insert bn (held d)" "lbuf_at lb bn 1"
    using lgetblk_ok [OF ok, of 1 bn d] free by (auto simp: MAXCLUSTBLOCKS_def DEV_BSIZE_def)
  have a: "lb_addr (lb_copy_in bp lb 512) = lb_addr bp"
    using at g(4) by (simp add: lb_copy_in_def lbuf_at_def DEV_BSIZE_def)
  have l: "lbuf_at (lb_copy_in bp lb 512) bn 1"
    using at g(4) by (simp add: lb_copy_in_def lbuf_at_def DEV_BSIZE_def)
  have w: "view (fat_bwrite io pvp d1 (lb_copy_in bp lb 512)) = (view d)(bn := lb_addr bp)
      \<and> held (fat_bwrite io pvp d1 (lb_copy_in bp lb 512)) = held d"
    using fat_bwrite_ok [OF ok l, of d1] g(2,3) a free by simp
  show ?thesis using w by (simp add: copy_block_def bs g(1))
qed

section \<open>Spreading blocks over the copies\<close>

text \<open>\<open>spread\<close>: every one of \<open>N\<close> tables of \<open>S\<close> blocks gets \<open>X0\<close> at its block \<open>blk\<close> (and \<open>X1\<close> at the next).\<close>

definition spread :: "nat set \<Rightarrow> nat \<Rightarrow> nat \<Rightarrow> u8 list \<Rightarrow> u8 list option \<Rightarrow> (nat \<Rightarrow> u8 list) \<Rightarrow> nat \<Rightarrow> u8 list" where
  "spread K S blk X0 X1 v s = (if \<exists>k\<in>K. s = blk + k * S then X0
     else case X1 of Some X \<Rightarrow> if \<exists>k\<in>K. s = blk + k * S + 1 then X else v s | None \<Rightarrow> v s)"

lemma ex_shift: "(\<exists>k\<in>{1..Suc n}. s = b + k * S) \<longleftrightarrow> s = b + S \<or> (\<exists>k\<in>{1..n}. s = (b + S) + k * (S::nat))"
proof
  assume "\<exists>k\<in>{1..Suc n}. s = b + k * S"
  then obtain k where k: "1 \<le> k" "k \<le> Suc n" "s = b + k * S" by auto
  then obtain j where j: "k = Suc j" by (cases k) auto
  show "s = b + S \<or> (\<exists>k\<in>{1..n}. s = (b + S) + k * S)"
    using k j by (cases "j = 0") (auto intro!: bexI [of _ j])
next
  assume "s = b + S \<or> (\<exists>k\<in>{1..n}. s = (b + S) + k * S)"
  then show "\<exists>k\<in>{1..Suc n}. s = b + k * S"
  proof
    assume "s = b + S"
    then show ?thesis by (intro bexI [of _ 1]) auto
  next
    assume "\<exists>k\<in>{1..n}. s = (b + S) + k * S"
    then obtain k where "k \<in> {1..n}" "s = (b + S) + k * S" by blast
    then show ?thesis by (intro bexI [of _ "Suc k"]) auto
  qed
qed

lemma ex_shift1: "(\<exists>k\<in>{1..Suc n}. s = b + k * S + 1) \<longleftrightarrow>
    s = b + S + 1 \<or> (\<exists>k\<in>{1..n}. s = (b + S) + k * (S::nat) + 1)"
  using ex_shift [of n "s - 1" b S] by (cases s) auto

lemma spread_step:
  assumes "X1 \<noteq> None \<Longrightarrow> 1 < S"
  shows "spread {1..n} S (b + S) X0 X1 (case X1 of None \<Rightarrow> v(b + S := X0)
           | Some X \<Rightarrow> (v(b + S := X0))(b + S + 1 := X))
     = spread {1..Suc n} S b X0 X1 v"
proof (rule ext)
  fix s
  have "\<not> (s = b + S + 1 \<and> s = b + S)" by simp
  then show "spread {1..n} S (b + S) X0 X1 (case X1 of None \<Rightarrow> v(b + S := X0)
           | Some X \<Rightarrow> (v(b + S := X0))(b + S + 1 := X)) s = spread {1..Suc n} S b X0 X1 v s"
    unfolding spread_def ex_shift ex_shift1 by (cases X1) auto
qed

lemma otherfats_ok:
  assumes ok: "bio_ok io view held" and bs: "vfs_BytesPerSec pvp = 512" and at0: "lbuf_at bp0 a0 1"
    and at1: "\<And>b. bp1 = Some b \<Longrightarrow> lbuf_at b a1 1 \<and> 1 < vfs_FATsecs pvp"
    and free: "\<forall>k\<in>{1..n}. fatbn + k * vfs_FATsecs pvp \<notin> held d
      \<and> (bp1 \<noteq> None \<longrightarrow> fatbn + k * vfs_FATsecs pvp + 1 \<notin> held d)"
  shows "\<exists>d'. otherfats_loop io pvp bp0 bp1 n fatbn d = Some d' \<and> held d' = held d
    \<and> view d' = spread {1..n} (vfs_FATsecs pvp) fatbn (lb_addr bp0) (map_option lb_addr bp1) (view d)"
  using free
proof (induction n arbitrary: fatbn d)
  case 0
  then show ?case by (cases bp1) (simp_all add: spread_def fun_eq_iff)
next
  case (Suc n)
  let ?S = "vfs_FATsecs pvp"
  have f0: "fatbn + ?S \<notin> held d" using Suc.prems [rule_format, of 1] by simp
  have f1: "bp1 \<noteq> None \<Longrightarrow> fatbn + ?S + 1 \<notin> held d" using Suc.prems [rule_format, of 1] by simp
  obtain d1 where c0: "copy_block io pvp d bp0 (fatbn + ?S) = Some d1"
      "view d1 = (view d)(fatbn + ?S := lb_addr bp0)" "held d1 = held d"
    using copy_block_ok [OF ok bs at0 f0] by blast
  obtain d2 where c1: "(case bp1 of None \<Rightarrow> Some d1 | Some b \<Rightarrow> copy_block io pvp d1 b (fatbn + ?S + 1)) = Some d2"
      "view d2 = (case map_option lb_addr bp1 of None \<Rightarrow> (view d)(fatbn + ?S := lb_addr bp0)
         | Some X \<Rightarrow> ((view d)(fatbn + ?S := lb_addr bp0))(fatbn + ?S + 1 := X))" "held d2 = held d"
  proof (cases bp1)
    case None
    then show ?thesis using that [of d1] c0 by simp
  next
    case (Some b)
    have "fatbn + ?S + 1 \<notin> held d1" using f1 Some c0(3) by simp
    from copy_block_ok [OF ok bs conjunct1 [OF at1 [OF Some]] this]
    obtain e where "copy_block io pvp d1 b (fatbn + ?S + 1) = Some e"
        "view e = (view d1)(fatbn + ?S + 1 := lb_addr b)" "held e = held d1" by blast
    then show ?thesis using that [of e] c0 Some by simp
  qed
  have rest: "\<forall>k\<in>{1..n}. fatbn + ?S + k * ?S \<notin> held d2
      \<and> (bp1 \<noteq> None \<longrightarrow> fatbn + ?S + k * ?S + 1 \<notin> held d2)"
  proof
    fix k assume "k \<in> {1..n}"
    then have "Suc k \<in> {1..Suc n}" by simp
    from Suc.prems [rule_format, OF this]
    show "fatbn + ?S + k * ?S \<notin> held d2 \<and> (bp1 \<noteq> None \<longrightarrow> fatbn + ?S + k * ?S + 1 \<notin> held d2)"
      by (simp add: c1(3) add.assoc)
  qed
  obtain d3 where l: "otherfats_loop io pvp bp0 bp1 n (fatbn + ?S) d2 = Some d3" "held d3 = held d2"
      "view d3 = spread {1..n} ?S (fatbn + ?S) (lb_addr bp0) (map_option lb_addr bp1) (view d2)"
    using Suc.IH [OF rest] by blast
  have "otherfats_loop io pvp bp0 bp1 (Suc n) fatbn d = Some d3"
    using c0(1) c1(1) l(1) by simp
  moreover have "view d3 = spread {1..Suc n} ?S fatbn (lb_addr bp0) (map_option lb_addr bp1) (view d)"
    unfolding l(3) c1(2) by (rule spread_step) (use at1 in auto)
  ultimately show ?case using l(2) c1(3) by auto
qed

lemma spread_home:
  assumes "X1 \<noteq> None \<Longrightarrow> 1 < S" and "1 \<le> n"
  shows "(case X1 of None \<Rightarrow> (spread {1..n - 1} S b X0 X1 v)(b := X0)
      | Some X \<Rightarrow> ((spread {1..n - 1} S b X0 X1 v)(b := X0))(b + 1 := X))
    = spread {..<n} S b X0 X1 v"
proof (rule ext)
  fix s
  have e: "(\<exists>k\<in>{..<n}. s = b + k * S) \<longleftrightarrow> s = b \<or> (\<exists>k\<in>{1..n - 1}. s = b + k * S)" for s
  proof
    assume "\<exists>k\<in>{..<n}. s = b + k * S"
    then obtain k where "k < n" "s = b + k * S" by auto
    then show "s = b \<or> (\<exists>k\<in>{1..n - 1}. s = b + k * S)" by (cases k) (auto intro!: bexI [of _ k])
  next
    assume "s = b \<or> (\<exists>k\<in>{1..n - 1}. s = b + k * S)"
    then show "\<exists>k\<in>{..<n}. s = b + k * S"
    proof
      assume "s = b"
      then show ?thesis using assms(2) by (intro bexI [of _ 0]) auto
    next
      assume "\<exists>k\<in>{1..n - 1}. s = b + k * S"
      then obtain k where "k \<in> {1..n - 1}" "s = b + k * S" by blast
      then show ?thesis by (intro bexI [of _ k]) auto
    qed
  qed
  have e1: "(\<exists>k\<in>{..<n}. s = b + k * S + 1) \<longleftrightarrow> s = b + 1 \<or> (\<exists>k\<in>{1..n - 1}. s = b + k * S + 1)"
    using e [of "s - 1"] by (cases s) auto
  have n1: "\<not> (\<exists>k\<in>{1..n - 1}. b + 1 = b + k * S)" if "1 < S"
    using that by auto
  show "(case X1 of None \<Rightarrow> (spread {1..n - 1} S b X0 X1 v)(b := X0)
      | Some X \<Rightarrow> ((spread {1..n - 1} S b X0 X1 v)(b := X0))(b + 1 := X)) s
    = spread {..<n} S b X0 X1 v s"
  proof (cases X1)
    case None
    then show ?thesis unfolding spread_def e by auto
  next
    case (Some X)
    then have "1 < S" using assms(1) by simp
    then show ?thesis unfolding spread_def e e1 using Some n1 by (cases "s = b + 1") auto
  qed
qed

lemma copy_in_table:
  assumes "j < S" and "1 \<le> k" and "k < N"
  shows "f + j + k * S \<in> {f..<f + N * (S::nat)}" and "f + j + k * S \<noteq> f + j"
    and "1 < S \<Longrightarrow> f + j + k * S \<noteq> f + j + 1"
    and "j + 1 < S \<Longrightarrow> f + j + k * S + 1 \<in> {f..<f + N * S}"
    and "f + j + k * S + 1 \<noteq> f + j" and "f + j + k * S + 1 \<noteq> f + j + 1"
proof -
  have "(k + 1) * S \<le> N * S" using assms(3) by (intro mult_le_mono1) simp
  then have u: "k * S + S \<le> N * S" by simp
  have l: "S \<le> k * S" using assms(2) by simp
  show "f + j + k * S \<in> {f..<f + N * S}" "f + j + k * S \<noteq> f + j" using u l assms(1) by auto
  show "1 < S \<Longrightarrow> f + j + k * S \<noteq> f + j + 1" using l by auto
  show "j + 1 < S \<Longrightarrow> f + j + k * S + 1 \<in> {f..<f + N * S}" using u by auto
  show "f + j + k * S + 1 \<noteq> f + j" "f + j + k * S + 1 \<noteq> f + j + 1" using l assms(1) by auto
qed

lemma fat_flush_ok:
  assumes ok: "bio_ok io view held" and m: "mount_ok pvp" and j: "j < vfs_FATsecs pvp"
    and blk: "blk = vfs_fatblk pvp + j"
    and at0: "lbuf_at bp0 blk 1"
    and at1: "\<And>b. bp1 = Some b \<Longrightarrow> lbuf_at b (blk + 1) 1 \<and> j + 1 < vfs_FATsecs pvp \<and> blk + 1 \<in> held d"
    and h0: "blk \<in> held d"
    and free: "fatblks pvp \<inter> held d \<subseteq> insert blk (if bp1 = None then {} else {blk + 1})"
  shows "\<exists>d'. fat_flush io pvp d bp0 bp1 blk = Some (d', pvp\<lparr>vfs_fmod := vfs_fmod pvp + 1\<rparr>)
    \<and> view d' = spread {..<vfs_FATs pvp} (vfs_FATsecs pvp) blk (lb_addr bp0) (map_option lb_addr bp1) (view d)
    \<and> held d' = held d - insert blk (if bp1 = None then {} else {blk + 1})"
proof -
  let ?S = "vfs_FATsecs pvp" and ?N = "vfs_FATs pvp" and ?X1 = "map_option lb_addr bp1"
  have bs: "vfs_BytesPerSec pvp = 512" and N: "1 \<le> ?N" using m by (simp_all add: mount_ok_def)
  have S1: "bp1 \<noteq> None \<Longrightarrow> j + 1 < ?S" using at1 by auto
  have fr: "\<forall>k\<in>{1..?N - 1}. blk + k * ?S \<notin> held d \<and> (bp1 \<noteq> None \<longrightarrow> blk + k * ?S + 1 \<notin> held d)"
  proof
    fix k assume k: "k \<in> {1..?N - 1}"
    note c = copy_in_table [OF j, of k ?N "vfs_fatblk pvp", folded blk]
    have kk: "1 \<le> k" "k < ?N" using k N by auto
    have "blk + k * ?S \<notin> held d"
    proof
      assume h: "blk + k * ?S \<in> held d"
      then have "blk + k * ?S \<in> insert blk (if bp1 = None then {} else {blk + 1})"
        using c(1) [OF kk] free by (auto simp: fatblks_def)
      then show False using c(2,3) [OF kk] S1 by (cases bp1) auto
    qed
    moreover have "blk + k * ?S + 1 \<notin> held d" if b: "bp1 \<noteq> None"
    proof
      assume h: "blk + k * ?S + 1 \<in> held d"
      then have "blk + k * ?S + 1 \<in> insert blk {blk + 1}"
        using c(4) [OF kk S1 [OF b]] free b by (auto simp: fatblks_def)
      then show False using c(5,6) [OF kk] by auto
    qed
    ultimately show "blk + k * ?S \<notin> held d \<and> (bp1 \<noteq> None \<longrightarrow> blk + k * ?S + 1 \<notin> held d)" by blast
  qed
  obtain d1 where d1: "updateotherfats io pvp d bp0 bp1 blk = Some d1" "held d1 = held d"
      "view d1 = spread {1..?N - 1} ?S blk (lb_addr bp0) ?X1 (view d)"
    using otherfats_ok [OF ok bs at0 _ fr, of "blk + 1"] at1 unfolding updateotherfats_def by fastforce
  define d2 where "d2 = fat_bwrite io pvp d1 bp0"
  have d2: "view d2 = (view d1)(blk := lb_addr bp0)" "held d2 = held d - {blk}"
    using fat_bwrite_ok [OF ok at0, of d1] h0 d1(2) by (simp_all add: d2_def)
  define d3 where "d3 = (case bp1 of None \<Rightarrow> d2 | Some b \<Rightarrow> fat_bwrite io pvp d2 b)"
  have d3: "view d3 = (case ?X1 of None \<Rightarrow> (view d1)(blk := lb_addr bp0)
        | Some X \<Rightarrow> ((view d1)(blk := lb_addr bp0))(blk + 1 := X))
      \<and> held d3 = held d - insert blk (if bp1 = None then {} else {blk + 1})"
  proof (cases bp1)
    case None
    then show ?thesis using d2 by (simp add: d3_def)
  next
    case (Some b)
    have "blk + 1 \<in> held d2" using at1 [OF Some] d2(2) by simp
    from fat_bwrite_ok [OF ok conjunct1 [OF at1 [OF Some]] this] show ?thesis
      using Some d2 by (auto simp: d3_def)
  qed
  have "view d3 = spread {..<?N} ?S blk (lb_addr bp0) ?X1 (view d)"
    unfolding conjunct1 [OF d3] d1(3) by (rule spread_home [OF _ N]) (use S1 j in auto)
  moreover have "fat_flush io pvp d bp0 bp1 blk = Some (d3, pvp\<lparr>vfs_fmod := vfs_fmod pvp + 1\<rparr>)"
    unfolding d3_def d2_def by (simp add: fat_flush_def Let_def d1(1))
  ultimately show ?thesis using conjunct2 [OF d3] by (intro exI [of _ d3] conjI)
qed

section \<open>What a spread block does to the bytes and the copies\<close>

text \<open>A block of the first table, seen from the block numbers of the spread.\<close>

lemma first_table_hit:
  assumes "i div 512 < S" and "j < (S::nat)"
  shows "(\<exists>k\<in>{..<N}. f + i div 512 = f + j + k * S) \<longleftrightarrow> 0 < N \<and> i div 512 = j"
proof
  assume "\<exists>k\<in>{..<N}. f + i div 512 = f + j + k * S"
  then obtain k where k: "k < N" "i div 512 = j + k * S" by auto
  have "k = 0"
  proof (rule ccontr)
    assume "k \<noteq> 0"
    then have "S \<le> k * S" by simp
    with k assms show False by linarith
  qed
  with k show "0 < N \<and> i div 512 = j" by simp
qed (auto intro!: bexI [of _ 0])

lemma fatb_spread:
  assumes N: "0 < N" and "i < S * 512" and "j < S" and "X1 \<noteq> None \<Longrightarrow> j + 1 < S" and S: "S = vfs_FATsecs pvp"
  shows "fatb pvp (spread {..<N} S (vfs_fatblk pvp + j) X0 X1 v) i =
    (if i div 512 = j then X0 ! (i mod 512)
     else case X1 of Some X \<Rightarrow> if i div 512 = j + 1 then X ! (i mod 512) else fatb pvp v i
       | None \<Rightarrow> fatb pvp v i)"
proof -
  have iS: "i div 512 < S" using assms(2) by (simp add: less_mult_imp_div_less)
  note h0 = first_table_hit [OF iS assms(3), of N "vfs_fatblk pvp"]
  have h1: "(\<exists>k\<in>{..<N}. vfs_fatblk pvp + i div 512 = vfs_fatblk pvp + j + k * S + 1) \<longleftrightarrow> i div 512 = j + 1"
    if "X1 \<noteq> None"
    using first_table_hit [OF iS assms(4) [OF that], of N "vfs_fatblk pvp"] N by (simp add: add.assoc add.commute [of _ 1])
  show ?thesis
    using h0 h1 N by (cases X1) (simp_all add: fatb_def spread_def)
qed

lemma table_hit:
  assumes "j' < S" and "j < (S::nat)"
  shows "f + k' * S + j' = f + j + k * S \<longleftrightarrow> k' = k \<and> j' = j"
proof
  assume "f + k' * S + j' = f + j + k * S"
  then have e: "k' * S + j' = k * S + j" by simp
  have "(k' * S + j') div S = k'" "(k * S + j) div S = k" using assms by simp_all
  then have "k' = k" using e by simp
  with e show "k' = k \<and> j' = j" by simp
qed simp

lemma synced_spread:
  assumes sy: "synced pvp v" and "j < vfs_FATsecs pvp" and "X1 \<noteq> None \<Longrightarrow> j + 1 < vfs_FATsecs pvp"
    and N: "0 < vfs_FATs pvp"
  shows "synced pvp (spread {..<vfs_FATs pvp} (vfs_FATsecs pvp) (vfs_fatblk pvp + j) X0 X1 v)"
  unfolding synced_def
proof (intro allI impI)
  fix k j' assume k: "k < vfs_FATs pvp" and j': "j' < vfs_FATsecs pvp"
  let ?S = "vfs_FATsecs pvp" and ?f = "vfs_fatblk pvp"
  have h0: "(\<exists>q\<in>{..<vfs_FATs pvp}. ?f + k * ?S + j' = ?f + j + q * ?S) \<longleftrightarrow> j' = j" if "k < vfs_FATs pvp" for k
    using table_hit [OF j' assms(2)] that by auto
  have h1: "(\<exists>q\<in>{..<vfs_FATs pvp}. ?f + k * ?S + j' = ?f + j + q * ?S + 1) \<longleftrightarrow> j' = j + 1"
    if "X1 \<noteq> None" "k < vfs_FATs pvp" for k
    using table_hit [OF j' assms(3) [OF that(1)], of ?f k] that(2) by (auto simp: add.assoc add.commute [of _ 1])
  have v: "v (?f + k * ?S + j') = v (?f + j')" using sy k j' by (simp add: synced_def)
  show "spread {..<vfs_FATs pvp} ?S (?f + j) X0 X1 v (?f + k * ?S + j')
      = spread {..<vfs_FATs pvp} ?S (?f + j) X0 X1 v (?f + j')"
    using h0 [OF k] h0 [OF N] h1 [OF _ k] h1 [OF _ N] v
    by (cases X1) (simp_all add: spread_def)
qed

lemma spread_outside:
  assumes "s \<notin> fatblks pvp" and "j < vfs_FATsecs pvp" and "X1 \<noteq> None \<Longrightarrow> j + 1 < vfs_FATsecs pvp"
  shows "spread {..<vfs_FATs pvp} (vfs_FATsecs pvp) (vfs_fatblk pvp + j) X0 X1 v s = v s"
proof -
  let ?S = "vfs_FATsecs pvp" and ?f = "vfs_fatblk pvp" and ?N = "vfs_FATs pvp"
  have in0: "?f + j' + k * ?S \<in> fatblks pvp" if "j' < ?S" "k < ?N" for k j'
  proof (cases k)
    case 0
    have "?S \<le> ?N * ?S" using that(2) 0 by simp
    then have "j' < ?N * ?S" using that(1) by linarith
    then show ?thesis using 0 by (simp add: fatblks_def)
  next
    case (Suc q)
    then show ?thesis using copy_in_table(1) [OF that(1) _ that(2), of ?f] by (simp add: fatblks_def)
  qed
  have "\<not> (\<exists>k\<in>{..<?N}. s = ?f + j + k * ?S)" using in0 [OF assms(2)] assms(1) by auto
  moreover have "X1 \<noteq> None \<Longrightarrow> \<not> (\<exists>k\<in>{..<?N}. s = ?f + j + k * ?S + 1)"
    using in0 [OF assms(3)] assms(1) by fastforce
  ultimately show ?thesis by (cases X1) (simp_all add: spread_def)
qed

section \<open>What cluster operations leave alone\<close>

text \<open>
  The cluster operations change four fields of the mount structure: the count and the search start of
  free clusters, the map, and the modification mark. Everything else of it stays.
\<close>

definition same_fs :: "dosfs_vfs \<Rightarrow> dosfs_vfs \<Rightarrow> bool" where
  "same_fs p q \<longleftrightarrow> q = p\<lparr>vfs_freeclustercount := vfs_freeclustercount q, vfs_lookhere := vfs_lookhere q,
     vfs_fmod := vfs_fmod q, vfs_inusemap := vfs_inusemap q\<rparr>"

lemma same_fs_refl [simp]: "same_fs p p"
  by (simp add: same_fs_def)

lemma same_fs_upd [simp]:
  "same_fs p (q\<lparr>vfs_freeclustercount := n\<rparr>) = same_fs p q" "same_fs p (q\<lparr>vfs_lookhere := n\<rparr>) = same_fs p q"
  "same_fs p (q\<lparr>vfs_fmod := k\<rparr>) = same_fs p q" "same_fs p (q\<lparr>vfs_inusemap := m\<rparr>) = same_fs p q"
  by (cases p; cases q; auto simp: same_fs_def)+

lemma same_fs_trans: "same_fs p q \<Longrightarrow> same_fs q r \<Longrightarrow> same_fs p r"
  by (cases p; cases q; cases r; simp add: same_fs_def)

lemma same_fs_geo:
  assumes "same_fs p q"
  shows "FAT12 q = FAT12 p" and "fatblks q = fatblks p" and "fat_at q = fat_at p" and "fat_off q = fat_off p"
    and "synced q = synced p" and "vfs_maxcluster q = vfs_maxcluster p" and "fat_norm q = fat_norm p"
proof -
  have q: "q = p\<lparr>vfs_freeclustercount := vfs_freeclustercount q, vfs_lookhere := vfs_lookhere q,
     vfs_fmod := vfs_fmod q, vfs_inusemap := vfs_inusemap q\<rparr>" (is "q = ?q")
    using assms by (simp add: same_fs_def)
  have b: "fatb ?q = fatb p" by (intro ext) (simp add: fatb_def)
  show "FAT12 q = FAT12 p" by (subst q) (simp add: FAT12_def)
  show "fatblks q = fatblks p" by (subst q) (simp add: fatblks_def)
  show "fat_at q = fat_at p" by (subst q, intro ext) (simp add: fat_at_def FAT12_def b)
  show "fat_off q = fat_off p" by (subst q, intro ext) (simp add: fat_off_def FAT12_def)
  show "synced q = synced p" by (subst q, intro ext) (simp add: synced_def)
  show "vfs_maxcluster q = vfs_maxcluster p" by (subst q) simp
  show "fat_norm q = fat_norm p" by (subst q, intro ext) (simp add: fat_norm_def FAT12_def)
qed

lemma same_fs_mount:
  assumes "same_fs p q" and "length (vfs_inusemap q) = length (vfs_inusemap p)" and "mount_ok p"
  shows "mount_ok q"
proof -
  have q: "q = p\<lparr>vfs_freeclustercount := vfs_freeclustercount q, vfs_lookhere := vfs_lookhere q,
     vfs_fmod := vfs_fmod q, vfs_inusemap := vfs_inusemap q\<rparr>" (is "q = ?q")
    using assms by (simp add: same_fs_def)
  have "mount_ok ?q"
    using assms(2,3) same_fs_geo(4) [OF assms(1)] by (subst (asm) q) (simp add: mount_ok_def fat_off_def FAT12_def)
  then show ?thesis using q by simp
qed

lemma same_fs_fields:
  assumes "same_fs p q"
  shows "vfs_bpcluster q = vfs_bpcluster p" and "vfs_SectPerClust q = vfs_SectPerClust p"
    and "vfs_cnshift q = vfs_cnshift p" and "vfs_crbomask q = vfs_crbomask p" and "vfs_depclust q = vfs_depclust p"
    and "vfs_rootdirblk q = vfs_rootdirblk p" and "vfs_fatblk q = vfs_fatblk p" and "vfs_FATs q = vfs_FATs p"
    and "vfs_FATsecs q = vfs_FATsecs p" and "vfs_firstcluster q = vfs_firstcluster p"
    and "vfs_rootdirsize q = vfs_rootdirsize p"
proof -
  obtain a b c m where q: "q = p\<lparr>vfs_freeclustercount := a, vfs_lookhere := b, vfs_fmod := c, vfs_inusemap := m\<rparr>"
    using assms unfolding same_fs_def by blast
  show "vfs_bpcluster q = vfs_bpcluster p" "vfs_SectPerClust q = vfs_SectPerClust p"
    "vfs_cnshift q = vfs_cnshift p" "vfs_crbomask q = vfs_crbomask p" "vfs_depclust q = vfs_depclust p"
    "vfs_rootdirblk q = vfs_rootdirblk p" "vfs_fatblk q = vfs_fatblk p" "vfs_FATs q = vfs_FATs p"
    "vfs_FATsecs q = vfs_FATsecs p" "vfs_firstcluster q = vfs_firstcluster p" "vfs_rootdirsize q = vfs_rootdirsize p"
    by (simp_all add: q)
qed

end
