(* ===== verification/FatEntry.thy ===== *)
theory FatEntry
  imports FatIO
begin

text \<open>
  \<open>fatentry\<close> refines the table: reading returns the entry, setting changes that entry alone, in every
  copy, and gives all buffers back. The errors are a failed read, which changes nothing, and the three
  argument checks.
\<close>

section \<open>Storing an entry, as a change of the view\<close>

text \<open>What a successful set of entry \<open>c\<close> to \<open>w\<close> does to the device.\<close>

definition fat_stored :: "dosfs_vfs \<Rightarrow> (nat \<Rightarrow> u8 list) \<Rightarrow> (nat \<Rightarrow> u8 list) \<Rightarrow> nat \<Rightarrow> nat \<Rightarrow> bool" where
  "fat_stored pvp v v' c w \<longleftrightarrow>
     (\<forall>c' \<le> vfs_maxcluster pvp. fat_at pvp v' c' = (if c' = c then fat_norm pvp w else fat_at pvp v c'))
     \<and> (\<forall>s. s \<notin> fatblks pvp \<longrightarrow> v' s = v s)
     \<and> (synced pvp v \<longrightarrow> synced pvp v')"

definition fat_put :: "dosfs_vfs \<Rightarrow> (nat \<Rightarrow> u8) \<Rightarrow> nat \<Rightarrow> nat \<Rightarrow> nat \<Rightarrow> u8" where
  "fat_put pvp f c w = (if FAT12 pvp then put12 f c (of_nat w) else put16 f c (of_nat w))"

lemma fat_at_put:
  assumes m: "mount_ok pvp" and b: "\<And>i. i < vfs_FATsecs pvp * 512 \<Longrightarrow> fatb pvp v' i = fat_put pvp (fatb pvp v) c w i"
    and c': "c' \<le> vfs_maxcluster pvp"
  shows "fat_at pvp v' c' = (if c' = c then fat_norm pvp w else fat_at pvp v c')"
proof -
  note o = mount_off [OF m c']
  have "fat_at pvp v' c' = (if FAT12 pvp then fat12.entry (fat_put pvp (fatb pvp v) c w) c'
      else fat16.entry (fat_put pvp (fatb pvp v) c w) c')"
    by (rule fat_at_cong) (use b o in auto)
  then show ?thesis
    by (cases "FAT12 pvp") (auto simp: fat_put_def fat12.entry_put fat16.entry_put fat_norm_def fat_at_def)
qed

text \<open>The two bytes of an entry change, within one block or across two.\<close>

lemma same_block:
  assumes "i div 512 = off div (512::nat)"
  shows "(i = off + k) = (i mod 512 = off mod 512 + k)" and "(i = off) = (i mod 512 = off mod 512)"
proof -
  have d: "i = off div 512 * 512 + i mod 512" "off = off div 512 * 512 + off mod 512"
    using div_mult_mod_eq [of i 512] div_mult_mod_eq [of off 512] unfolding assms by simp_all
  have g: "(a = b + k) = (x = y + k)" if "a = z + x" "b = z + y" for a b x y z k :: nat
    using that by auto
  show "(i = off + k) = (i mod 512 = off mod 512 + k)" by (rule g [OF d])
  show "(i = off) = (i mod 512 = off mod 512)" using g [OF d, of 0] by simp
qed

lemma next_block: "off mod 512 < 511 \<Longrightarrow> (off + 1) div 512 = off div (512::nat)"
    "off mod 512 = 511 \<Longrightarrow> (off + 1) div 512 = off div 512 + 1 \<and> (off + 1) mod 512 = 0"
  by (simp_all add: div_Suc mod_Suc)

lemma nth_two: "b < 512 \<Longrightarrow> length xs = 512 \<Longrightarrow> r < 511 \<Longrightarrow>
    xs[r := x, r + 1 := y] ! b = (if b = r + 1 then y else if b = r then x else xs ! b)"
  by (simp add: nth_list_update)

lemma two_bytes_one_block:
  assumes N: "0 < vfs_FATs pvp" and off: "off + 1 < vfs_FATsecs pvp * 512" "off mod 512 < 511"
    and len: "length (v (vfs_fatblk pvp + off div 512)) = 512" and i: "i < vfs_FATsecs pvp * 512"
  shows "fatb pvp (spread {..<vfs_FATs pvp} (vfs_FATsecs pvp) (vfs_fatblk pvp + off div 512)
      ((v (vfs_fatblk pvp + off div 512))[off mod 512 := x, off mod 512 + 1 := y]) None v) i
    = ((fatb pvp v)(off := x, off + 1 := y)) i"
proof -
  have j: "off div 512 < vfs_FATsecs pvp" using off(1) by (simp add: less_mult_imp_div_less)
  have lhs: "fatb pvp (spread {..<vfs_FATs pvp} (vfs_FATsecs pvp) (vfs_fatblk pvp + off div 512) X None v) i
      = (if i div 512 = off div 512 then X ! (i mod 512) else fatb pvp v i)" for X
    by (subst fatb_spread [OF N i j _ refl]) simp_all
  have b: "i mod 512 < 512" by simp
  show ?thesis
  proof (cases "i div 512 = off div 512")
    case True
    note e = same_block(1) [OF True, of 1] same_block(2) [OF True]
    show ?thesis
      unfolding lhs if_P [OF True] nth_two [OF b len off(2)] unfolding fun_upd_apply e fatb_def True ..
  next
    case False
    then have "i \<noteq> off" "i \<noteq> off + 1" using next_block(1) [OF off(2)] by metis+
    then show ?thesis unfolding lhs if_not_P [OF False] by (simp only: fun_upd_apply if_False)
  qed
qed

lemma two_bytes_two_blocks:
  assumes N: "0 < vfs_FATs pvp" and off: "off + 1 < vfs_FATsecs pvp * 512" "off mod 512 = 511"
    and len: "length (v (vfs_fatblk pvp + off div 512)) = 512" "length (v (vfs_fatblk pvp + off div 512 + 1)) = 512"
    and i: "i < vfs_FATsecs pvp * 512"
  shows "fatb pvp (spread {..<vfs_FATs pvp} (vfs_FATsecs pvp) (vfs_fatblk pvp + off div 512)
      ((v (vfs_fatblk pvp + off div 512))[511 := x]) (Some ((v (vfs_fatblk pvp + off div 512 + 1))[0 := y])) v) i
    = ((fatb pvp v)(off := x, off + 1 := y)) i"
proof -
  have j: "off div 512 < vfs_FATsecs pvp" using off(1) by (simp add: less_mult_imp_div_less)
  have j1: "off div 512 + 1 < vfs_FATsecs pvp"
    using next_block(2) [OF off(2)] off(1) less_mult_imp_div_less by fastforce
  have le: "(511::nat) < 512" and le0: "(0::nat) < 512" by simp_all
  note lhs = fatb_spread [OF N i j j1 refl, where ?X1.0 = "Some X" for X, unfolded option.case]
  have upd: "(xs[k := z]) ! b = (if b = k then z else xs ! b)" if "length xs = 512" "k < 512" for xs :: "u8 list" and k z b
    using that by (auto simp: nth_list_update)
  show ?thesis
  proof (cases "i div 512 = off div 512")
    case True
    have e: "i \<noteq> off + 1" "(i = off) = (i mod 512 = 511)"
      using True next_block(2) [OF off(2)] same_block(2) [OF True] off(2) by auto
    show ?thesis
      unfolding lhs if_P [OF True] upd [OF len(1) le]
      unfolding fun_upd_apply if_not_P [OF e(1)] e(2) fatb_def True ..
  next
    case False
    then have ne: "i \<noteq> off" by blast
    show ?thesis
    proof (cases "i div 512 = off div 512 + 1")
      case t: True
      have e: "(i = off + 1) = (i mod 512 = 0)"
        using same_block(2) [of i "off + 1"] t next_block(2) [OF off(2)] by simp
      show ?thesis
        unfolding lhs if_not_P [OF False] if_P [OF t]
        unfolding upd [OF len(2) le0] unfolding fun_upd_apply if_not_P [OF ne] e fatb_def t add.assoc ..
    next
      case f: False
      then have "i \<noteq> off + 1" using next_block(2) [OF off(2)] by metis
      with ne show ?thesis
        unfolding lhs if_not_P [OF False] if_not_P [OF f] by (simp only: fun_upd_apply if_False)
    qed
  qed
qed

section \<open>The steps of \<open>fatentry\<close>\<close>

lemma and_511: "(n::nat) AND 511 = n mod 512"
proof -
  have "(511::nat) = mask 9" by (simp add: mask_eq_exp_minus_1)
  then have "n AND 511 = take_bit 9 n" by (simp only: take_bit_eq_mask)
  then show ?thesis by (simp add: take_bit_eq_mod)
qed

lemma setfat12_one:
  assumes "length (lb_addr bp0) = 512" and "r + 1 < 512"
  shows "setfat12slot bp0 None oddc r w =
    (let p = tw_put12 oddc (lb_addr bp0 ! r) (lb_addr bp0 ! (r + 1)) (of_nat w)
     in Some (bp0\<lparr>lb_addr := (lb_addr bp0)[r := fst p, r + 1 := snd p]\<rparr>, None))"
  using assms by (simp add: setfat12slot_def lb_get_def lb_set_def Let_def)

lemma setfat12_two:
  assumes "length (lb_addr bp0) = 512" and "length (lb_addr bp1) = 512"
  shows "setfat12slot bp0 (Some bp1) oddc 511 w =
    (let p = tw_put12 oddc (lb_addr bp0 ! 511) (lb_addr bp1 ! 0) (of_nat w)
     in Some (bp0\<lparr>lb_addr := (lb_addr bp0)[511 := fst p]\<rparr>, Some (bp1\<lparr>lb_addr := (lb_addr bp1)[0 := snd p]\<rparr>)))"
  using assms by (simp add: setfat12slot_def lb_get_def lb_set_def Let_def)

text \<open>The outcome of a flush of one or two modified blocks.\<close>

lemma flush_stored:
  assumes ok: "bio_ok io view held" and m: "mount_ok pvp" and c: "c \<le> vfs_maxcluster pvp"
    and off: "off = fat_off pvp c" and blk: "blk = vfs_fatblk pvp + off div 512"
    and at0: "lbuf_at bp0 blk 1" and h0: "blk \<in> held d"
    and put: "fat_put pvp (fatb pvp (view d)) c w = (fatb pvp (view d))(off := x, off + 1 := y)"
    and free: "fatblks pvp \<inter> H = {}"
    and one: "off mod 512 < 511 \<Longrightarrow> bp1 = None \<and> held d = insert blk H
        \<and> lb_addr bp0 = (view d blk)[off mod 512 := x, off mod 512 + 1 := y]"
    and two: "off mod 512 = 511 \<Longrightarrow> (\<exists>b. bp1 = Some b \<and> lbuf_at b (blk + 1) 1 \<and> lb_addr b = (view d (blk + 1))[0 := y])
        \<and> held d = insert (blk + 1) (insert blk H) \<and> lb_addr bp0 = (view d blk)[511 := x]"
  shows "\<exists>d'. fat_flush io pvp d bp0 bp1 blk = Some (d', pvp\<lparr>vfs_fmod := vfs_fmod pvp + 1\<rparr>)
    \<and> fat_stored pvp (view d) (view d') c w \<and> held d' = H"
proof -
  let ?S = "vfs_FATsecs pvp" and ?X1 = "map_option lb_addr bp1"
  have N: "0 < vfs_FATs pvp" using m by (simp add: mount_ok_def)
  have o: "off + 1 < ?S * 512" using mount_off [OF m c] off by simp
  have j: "off div 512 < ?S" using o by (simp add: less_mult_imp_div_less)
  have len: "length (view d b) = 512" for b using ok by (simp add: bio_ok_def DEV_BSIZE_def)
  have split: "off mod 512 < 511 \<or> off mod 512 = 511"
    using mod_less_divisor [of 512 off] by linarith
  have j1: "off mod 512 = 511 \<Longrightarrow> off div 512 + 1 < ?S"
    using next_block(2) [of off] o less_mult_imp_div_less by fastforce
  have b1: "bp1 \<noteq> None \<Longrightarrow> off mod 512 = 511" using one split by auto
  have infat: "blk + q \<in> fatblks pvp" if "off div 512 + q < ?S" for q
  proof -
    have "?S \<le> vfs_FATs pvp * ?S" using N by simp
    then have "off div 512 + q < vfs_FATs pvp * ?S" using that by linarith
    then show ?thesis by (simp add: fatblks_def blk)
  qed
  have nH: "blk \<notin> H" using infat [of 0] j free by auto
  have nH1: "off mod 512 = 511 \<Longrightarrow> blk + 1 \<notin> H" using infat [of 1] j1 free by auto
  have held: "held d - insert blk (if bp1 = None then {} else {blk + 1}) = H"
    using split one two nH nH1 by auto
  have sub: "fatblks pvp \<inter> held d \<subseteq> insert blk (if bp1 = None then {} else {blk + 1})"
    using split one two free by auto
  have at1: "lbuf_at b (blk + 1) 1 \<and> off div 512 + 1 < ?S \<and> blk + 1 \<in> held d" if "bp1 = Some b" for b
    using that two b1 j1 by auto
  obtain d' where d': "fat_flush io pvp d bp0 bp1 blk = Some (d', pvp\<lparr>vfs_fmod := vfs_fmod pvp + 1\<rparr>)"
      "view d' = spread {..<vfs_FATs pvp} ?S blk (lb_addr bp0) ?X1 (view d)" "held d' = H"
    using fat_flush_ok [OF ok m j blk at0 at1 h0 sub] unfolding held by blast
  have x1: "?X1 \<noteq> None \<Longrightarrow> off div 512 + 1 < ?S" using b1 j1 by auto
  have bytes: "fatb pvp (view d') i = fat_put pvp (fatb pvp (view d)) c w i" if i: "i < ?S * 512" for i
    using split
  proof
    assume r: "off mod 512 < 511"
    show ?thesis using one [OF r] two_bytes_one_block [OF N o r _ i, of "view d"] len
      unfolding d'(2) put blk by simp
  next
    assume r: "off mod 512 = 511"
    show ?thesis using two [OF r] two_bytes_two_blocks [OF N o r _ _ i, of "view d"] len
      unfolding d'(2) put blk by auto
  qed
  have "fat_stored pvp (view d) (view d') c w"
    unfolding fat_stored_def
  proof (intro conjI allI impI)
    fix c' assume c': "c' \<le> vfs_maxcluster pvp"
    show "fat_at pvp (view d') c' = (if c' = c then fat_norm pvp w else fat_at pvp (view d) c')"
      by (rule fat_at_put [OF m _ c']) (rule bytes)
  next
    fix s assume "s \<notin> fatblks pvp"
    then show "view d' s = view d s" unfolding d'(2) blk by (rule spread_outside [OF _ j x1])
  next
    assume "synced pvp (view d)"
    then show "synced pvp (view d')" unfolding d'(2) blk by (rule synced_spread [OF _ j x1 N])
  qed
  with d' show ?thesis by blast
qed

section \<open>The outcome of an entry operation\<close>

text \<open>
  A completed operation on entry \<open>c\<close> from view \<open>v\<close>: the error is 0, the sectors held are \<open>H\<close>, the old
  value is returned when asked for, and the table changes when asked to.
\<close>

definition entry_done :: "('d \<Rightarrow> nat \<Rightarrow> u8 list) \<Rightarrow> ('d \<Rightarrow> nat set) \<Rightarrow> nat set \<Rightarrow> dosfs_vfs \<Rightarrow> (nat \<Rightarrow> u8 list)
    \<Rightarrow> nat \<Rightarrow> nat \<Rightarrow> nat \<Rightarrow> 'd fat_result \<Rightarrow> bool" where
  "entry_done view held H pvp v c fn w res \<longleftrightarrow> (\<exists>d' pvp'.
     res = Some (d', pvp', 0, if fn AND FAT_GET \<noteq> 0 then Some (fat_at pvp v c) else None)
     \<and> held d' = H
     \<and> (if fn AND FAT_SET \<noteq> 0 then pvp' = pvp\<lparr>vfs_fmod := vfs_fmod pvp + 1\<rparr> \<and> fat_stored pvp v (view d') c w
        else pvp' = pvp \<and> view d' = v))"

text \<open>A failed operation: the error is that of a buffer just read, nothing on the device changes, and nothing is returned.\<close>

definition entry_failed :: "'d bio \<Rightarrow> ('d \<Rightarrow> nat \<Rightarrow> u8 list) \<Rightarrow> ('d \<Rightarrow> nat set) \<Rightarrow> nat set \<Rightarrow> dosfs_vfs \<Rightarrow> (nat \<Rightarrow> u8 list)
    \<Rightarrow> nat set \<Rightarrow> 'd fat_result \<Rightarrow> bool" where
  "entry_failed io view held H pvp v leak res \<longleftrightarrow> (\<exists>d' err lb.
     res = Some (d', pvp, err, None) \<and> err \<noteq> 0 \<and> err = lgeterror io lb \<and> view d' = v \<and> held d' = H \<union> leak)"

lemma fat_at_12:
  assumes "FAT12 pvp"
  shows "fat_at pvp v c = unat (widen12 (tw_get12 (odd c)
    (tw_word (v (vfs_fatblk pvp + off12 c div 512) ! (off12 c mod 512))
             (v (vfs_fatblk pvp + (off12 c + 1) div 512) ! ((off12 c + 1) mod 512)))))"
  using assms by (simp add: fat_at_def fat12.entry_def get12_def fatb_def)

lemma fat_at_16:
  assumes "\<not> FAT12 pvp"
  shows "fat_at pvp v c = unat (tw_word (v (vfs_fatblk pvp + 2 * c div 512) ! (2 * c mod 512))
             (v (vfs_fatblk pvp + (2 * c + 1) div 512) ! ((2 * c + 1) mod 512)))"
  using assms by (simp add: fat_at_def fat16.entry_def get16_def fatb_def)

lemma next_in_block: "off mod 512 < 511 \<Longrightarrow> (off + 1) mod 512 = off mod (512::nat) + 1"
  by (simp add: mod_Suc)

lemma entry12_one:
  assumes ok: "bio_ok io view held" and m: "mount_ok pvp" and F: "FAT12 pvp" and c: "c \<le> vfs_maxcluster pvp"
    and blk: "blk = vfs_fatblk pvp + off12 c div 512" and r: "off12 c mod 512 < 511"
    and at0: "lbuf_at bp0 blk 1" and h: "held d = insert blk H" and free: "fatblks pvp \<inter> H = {}"
    and a0: "lb_addr bp0 = view d blk" and nb: "blk \<notin> H"
  shows "entry_done view held H pvp (view d) c fn w
    (fatentry12 io fn pvp d c blk (off12 c mod 512) bp0 None w)"
proof -
  let ?r = "off12 c mod 512" and ?X = "view d blk"
  let ?p = "tw_put12 (odd c) (?X ! ?r) (?X ! (?r + 1)) (of_nat w)"
  have len: "length ?X = 512" using ok by (simp add: bio_ok_def DEV_BSIZE_def)
  have g: "lb_get bp0 ?r = Some (?X ! ?r)" "lb_get bp0 (?r + 1) = Some (?X ! (?r + 1))"
    using len r by (simp_all add: lb_get_def a0)
  have old: "unat (widen12 (tw_get12 (odd c) (tw_word (?X ! ?r) (?X ! (?r + 1))))) = fat_at pvp (view d) c"
    unfolding fat_at_12 [OF F] next_in_block [OF r] next_block(1) [OF r] blk ..
  have put: "fat_put pvp (fatb pvp (view d)) c w = (fatb pvp (view d))(off12 c := fst ?p, off12 c + 1 := snd ?p)"
    using F by (simp only: fat_put_def put12_def Let_def fatb_def next_in_block [OF r] next_block(1) [OF r] blk if_True)
  let ?b = "bp0\<lparr>lb_addr := ?X[?r := fst ?p, ?r + 1 := snd ?p]\<rparr>"
  have at: "lbuf_at ?b blk 1" using at0 len by (simp add: lbuf_at_def DEV_BSIZE_def)
  have ro: "\<not> (off12 c mod 512 = 511)" using r by simp
  obtain d' where fl: "fat_flush io pvp d ?b None blk = Some (d', pvp\<lparr>vfs_fmod := vfs_fmod pvp + 1\<rparr>)"
      "fat_stored pvp (view d) (view d') c w" "held d' = H"
    using flush_stored [OF ok m c _ blk at _ put free, of None] F h ro by (auto simp: fat_off_def)
  have st: "setfat12slot bp0 None (odd c) ?r w = Some (?b, None)"
    using setfat12_one [of bp0 ?r "odd c" w] len r by (simp add: a0 Let_def)
  have rel: "view (lbrelse io d bp0) = view d" "held (lbrelse io d bp0) = H"
    using lbrelse1_ok [OF ok at0, of d] h nb by auto
  show ?thesis
    unfolding entry_done_def fatentry12_def
    using g old st fl rel by (simp add: rel_opt_def)
qed

lemma entry12_two:
  assumes ok: "bio_ok io view held" and m: "mount_ok pvp" and F: "FAT12 pvp" and c: "c \<le> vfs_maxcluster pvp"
    and blk: "blk = vfs_fatblk pvp + off12 c div 512" and r: "off12 c mod 512 = 511"
    and at0: "lbuf_at bp0 blk 1" and at1: "lbuf_at bp1 (blk + 1) 1"
    and h: "held d = insert (blk + 1) (insert blk H)" and free: "fatblks pvp \<inter> H = {}"
    and a0: "lb_addr bp0 = view d blk" and a1: "lb_addr bp1 = view d (blk + 1)"
    and nb: "blk \<notin> H" "blk + 1 \<notin> H"
  shows "entry_done view held H pvp (view d) c fn w
    (fatentry12 io fn pvp d c blk (off12 c mod 512) bp0 (Some bp1) w)"
proof -
  let ?X = "view d blk" and ?Y = "view d (blk + 1)"
  let ?p = "tw_put12 (odd c) (?X ! 511) (?Y ! 0) (of_nat w)"
  have len: "length ?X = 512" "length ?Y = 512" using ok by (simp_all add: bio_ok_def DEV_BSIZE_def)
  note nx = next_block(2) [OF r, THEN conjunct1] next_block(2) [OF r, THEN conjunct2]
  have g: "lb_get bp0 511 = Some (?X ! 511)" "lb_get bp1 0 = Some (?Y ! 0)"
    using len by (simp_all add: lb_get_def a0 a1)
  have old: "unat (widen12 (tw_get12 (odd c) (tw_word (?X ! 511) (?Y ! 0)))) = fat_at pvp (view d) c"
    unfolding fat_at_12 [OF F] nx r blk add.assoc ..
  have put: "fat_put pvp (fatb pvp (view d)) c w = (fatb pvp (view d))(off12 c := fst ?p, off12 c + 1 := snd ?p)"
    using F by (simp only: fat_put_def put12_def Let_def fatb_def nx r blk if_True add.assoc)
  let ?b = "bp0\<lparr>lb_addr := ?X[511 := fst ?p]\<rparr>" and ?c = "bp1\<lparr>lb_addr := ?Y[0 := snd ?p]\<rparr>"
  have at: "lbuf_at ?b blk 1" "lbuf_at ?c (blk + 1) 1"
    using at0 at1 len by (simp_all add: lbuf_at_def DEV_BSIZE_def)
  obtain d' where fl: "fat_flush io pvp d ?b (Some ?c) blk = Some (d', pvp\<lparr>vfs_fmod := vfs_fmod pvp + 1\<rparr>)"
      "fat_stored pvp (view d) (view d') c w" "held d' = H"
    using flush_stored [OF ok m c _ blk at(1) _ put free, of "Some ?c"] F h r at(2) by (auto simp: fat_off_def)
  have st: "setfat12slot bp0 (Some bp1) (odd c) 511 w = Some (?b, Some ?c)"
    using setfat12_two [of bp0 bp1 "odd c" w] len by (simp add: a0 a1 Let_def)
  have rel0: "view (lbrelse io d bp0) = view d" "held (lbrelse io d bp0) = insert (blk + 1) H"
    using lbrelse1_ok [OF ok at0, of d] h nb by auto
  have rel: "view (lbrelse io (lbrelse io d bp0) bp1) = view d" "held (lbrelse io (lbrelse io d bp0) bp1) = H"
    using lbrelse1_ok [OF ok at1, of "lbrelse io d bp0"] rel0 nb by auto
  show ?thesis
    unfolding entry_done_def fatentry12_def r
    using g old st fl rel by (simp add: rel_opt_def)
qed

lemma entry16:
  assumes ok: "bio_ok io view held" and m: "mount_ok pvp" and F: "\<not> FAT12 pvp" and c: "c \<le> vfs_maxcluster pvp"
    and blk: "blk = vfs_fatblk pvp + 2 * c div 512"
    and at0: "lbuf_at bp0 blk 1" and h: "held d = insert blk H" and free: "fatblks pvp \<inter> H = {}"
    and a0: "lb_addr bp0 = view d blk" and nb: "blk \<notin> H"
  shows "entry_done view held H pvp (view d) c fn w
    (fatentry16 io fn pvp d blk (2 * c mod 512) bp0 w)"
proof -
  let ?r = "2 * c mod 512" and ?X = "view d blk"
  have r: "?r < 511"
  proof -
    have "even ?r" by (simp add: dvd_mod)
    then show ?thesis using mod_less_divisor [of 512 "2 * c"] by (cases "?r = 511") auto
  qed
  let ?x = "tw_byte0 (of_nat w)" and ?y = "tw_byte1 (of_nat w)"
  have len: "length ?X = 512" using ok by (simp add: bio_ok_def DEV_BSIZE_def)
  have g: "lb_get bp0 ?r = Some (?X ! ?r)" "lb_get bp0 (?r + 1) = Some (?X ! (?r + 1))"
    using len r by (simp_all add: lb_get_def a0)
  have old: "unat (tw_word (?X ! ?r) (?X ! (?r + 1))) = fat_at pvp (view d) c"
    unfolding fat_at_16 [OF F] next_in_block [OF r] next_block(1) [OF r] blk ..
  have put: "fat_put pvp (fatb pvp (view d)) c w = (fatb pvp (view d))(2 * c := ?x, 2 * c + 1 := ?y)"
    using F by (simp only: fat_put_def put16_def if_False)
  let ?b = "bp0\<lparr>lb_addr := ?X[?r := ?x, ?r + 1 := ?y]\<rparr>"
  have at: "lbuf_at ?b blk 1" using at0 len by (simp add: lbuf_at_def DEV_BSIZE_def)
  have ro: "\<not> (2 * c mod 512 = 511)" using r by simp
  obtain d' where fl: "fat_flush io pvp d ?b None blk = Some (d', pvp\<lparr>vfs_fmod := vfs_fmod pvp + 1\<rparr>)"
      "fat_stored pvp (view d) (view d') c w" "held d' = H"
    using flush_stored [OF ok m c _ blk at _ put free, of None] F h ro by (auto simp: fat_off_def)
  have s0: "lb_set bp0 ?r ?x = Some (bp0\<lparr>lb_addr := ?X[?r := ?x]\<rparr>)"
    using len r by (simp add: lb_set_def a0)
  have s1: "lb_set (bp0\<lparr>lb_addr := ?X[?r := ?x]\<rparr>) (?r + 1) ?y = Some ?b"
    using len r by (simp add: lb_set_def a0)
  have rel: "view (lbrelse io d bp0) = view d" "held (lbrelse io d bp0) = H"
    using lbrelse1_ok [OF ok at0, of d] h nb by auto
  show ?thesis
    unfolding entry_done_def fatentry16_def
    using g old s0 s1 fl rel by (simp add: Let_def)
qed

section \<open>\<open>fatentry\<close> as a whole\<close>

definition fat_blk :: "dosfs_vfs \<Rightarrow> nat \<Rightarrow> nat" where
  "fat_blk pvp c = vfs_fatblk pvp + fat_off pvp c div 512"

text \<open>The block that stays locked when the second block of a spanning entry cannot be read.\<close>

definition entry_leak :: "dosfs_vfs \<Rightarrow> nat \<Rightarrow> nat set" where
  "entry_leak pvp c = (if FAT12 pvp \<and> fat_off pvp c mod 512 = 511 then {fat_blk pvp c} else {})"

lemma fat_blk_in:
  assumes m: "mount_ok pvp" and c: "c \<le> vfs_maxcluster pvp"
  shows "fat_blk pvp c \<in> fatblks pvp"
    and "fat_off pvp c mod 512 = 511 \<Longrightarrow> fat_blk pvp c + 1 \<in> fatblks pvp"
proof -
  let ?S = "vfs_FATsecs pvp"
  have "?S \<le> vfs_FATs pvp * ?S" using m by (simp add: mount_ok_def)
  then have le: "j < vfs_FATs pvp * ?S" if "j < ?S" for j using that by linarith
  note o = mount_off [OF m c]
  have "fat_off pvp c div 512 < ?S" using o by (simp add: less_mult_imp_div_less)
  then show "fat_blk pvp c \<in> fatblks pvp" by (simp add: fatblks_def fat_blk_def le)
  assume "fat_off pvp c mod 512 = 511"
  then have "fat_off pvp c div 512 + 1 < ?S"
    using next_block(2) o less_mult_imp_div_less by fastforce
  from le [OF this] show "fat_blk pvp c + 1 \<in> fatblks pvp" by (simp add: fatblks_def fat_blk_def)
qed

lemma off_no_wrap:
  assumes m: "mount_ok pvp" and c: "c \<le> vfs_maxcluster pvp" and w: "FAT12 pvp \<or> c < 32768"
  shows "fat_off pvp c < 65536"
proof (cases "FAT12 pvp")
  case True
  then have "c + c div 2 \<le> 4086 + 4086 div 2" using c unfolding FAT12_def by (intro add_mono div_le_mono) auto
  then show ?thesis using True by (simp add: fat_off_def off12_def)
next
  case False
  then show ?thesis using w by (simp add: fat_off_def)
qed

lemma fatentry_run:
  assumes ok: "bio_ok io view held" and m: "mount_ok pvp" and free: "fatblks pvp \<inter> held d = {}"
    and c: "CLUST_FIRST \<le> c" "c \<le> vfs_maxcluster pvp" and w: "FAT12 pvp \<or> c < 32768"
    and fn: "fn AND (FAT_SET OR FAT_GET) \<noteq> 0" "fn AND FAT_GET \<noteq> 0 \<longrightarrow> oldp"
  shows "entry_done view held (held d) pvp (view d) c fn v (fatentry io fn pvp d c oldp v)
    \<or> (\<exists>leak \<subseteq> entry_leak pvp c.
        entry_failed io view held (held d) pvp (view d) leak (fatentry io fn pvp d c oldp v))"
proof -
  have bs: "vfs_BytesPerSec pvp = 512" "vfs_bnshift pvp = 9" "vfs_brbomask pvp = 511"
    using m by (simp_all add: mount_ok_def)
  let ?blk = "fat_blk pvp c"
  have nb: "?blk \<notin> held d" using fat_blk_in(1) [OF m c(2)] free by blast
  obtain d1 bp0 where r0: "fat_bread io pvp d ?blk = Some (d1, bp0)" "view d1 = view d"
      "held d1 = insert ?blk (held d)" "lbuf_at bp0 ?blk 1" "lgeterror io bp0 = 0 \<longrightarrow> lb_addr bp0 = view d ?blk"
    using fat_bread_ok [OF ok bs(1) nb] by (elim exE conjE) (rule that)
  note ow = off_no_wrap [OF m c(2) w]
  have rel0: "view (lbrelse io d1 bp0) = view d" "held (lbrelse io d1 bp0) = held d"
    using lbrelse1_ok [OF ok r0(4), of d1] r0 nb by auto
  have args: "(fn AND (FAT_SET OR FAT_GET) = 0) = False" "(fn AND FAT_GET \<noteq> 0 \<and> \<not> oldp) = False"
      "(c < CLUST_FIRST \<or> vfs_maxcluster pvp < c) = False" using c fn by auto
  have fail0: "entry_failed io view held (held d) pvp (view d) {} (Some (lbrelse io d1 bp0, pvp, lgeterror io bp0, None))"
    if "lgeterror io bp0 \<noteq> 0"
    using that rel0 by (auto simp: entry_failed_def)
  show ?thesis
  proof (cases "FAT12 pvp")
    case F: True
    have o: "(c + c div 2) mod 65536 = off12 c" "fat_off pvp c = off12 c"
      using ow F by (simp_all add: fat_off_def off12_def)
    have blk: "off12 c div 2 ^ 9 + vfs_fatblk pvp = ?blk" by (simp add: fat_blk_def o)
    let ?go = "\<lambda>d bp1. fatentry12 io fn pvp d c ?blk (off12 c mod 512) bp0 bp1 v"
    have run: "fatentry io fn pvp d c oldp v =
      (if lgeterror io bp0 \<noteq> 0 then Some (lbrelse io d1 bp0, pvp, lgeterror io bp0, None)
       else if off12 c mod 512 = 511 then do {
         (d2, bp1) \<leftarrow> fat_bread io pvp d1 (?blk + 1);
         if lgeterror io bp1 \<noteq> 0 then Some (lbrelse io d2 bp1, pvp, lgeterror io bp1, None)
         else ?go d2 (Some bp1) }
       else ?go d1 None)"
      unfolding fatentry_def args if_False Let_def o bs and_511 drop_bit_eq_div blk if_P [OF F]
      by (simp add: r0(1))
    show ?thesis
    proof (cases "lgeterror io bp0 = 0")
      case False
      then show ?thesis using fail0 unfolding run by auto
    next
      case e0: True
      show ?thesis
      proof (cases "off12 c mod 512 = 511")
        case False
        then have r: "off12 c mod 512 < 511" using mod_less_divisor [of 512 "off12 c"] by linarith
        have "entry_done view held (held d) pvp (view d1) c fn v (?go d1 None)"
          by (rule entry12_one [OF ok m F c(2) _ r r0(4) r0(3) free _ nb])
             (use e0 r0 in \<open>simp_all add: fat_blk_def o\<close>)
        then show ?thesis unfolding run using e0 False r0(2) by simp
      next
        case r: True
        have nb1: "?blk + 1 \<notin> held d" using fat_blk_in(2) [OF m c(2)] o r free by auto
        then have "?blk + 1 \<notin> held d1" using r0(3) by simp
        from fat_bread_ok [OF ok bs(1) this]
        obtain d2 bp1 where r1: "fat_bread io pvp d1 (?blk + 1) = Some (d2, bp1)" "view d2 = view d"
            "held d2 = insert (?blk + 1) (insert ?blk (held d))" "lbuf_at bp1 (?blk + 1) 1"
            "lgeterror io bp1 = 0 \<longrightarrow> lb_addr bp1 = view d (?blk + 1)"
          using r0(2,3) by metis
        show ?thesis
        proof (cases "lgeterror io bp1 = 0")
          case True
          have "entry_done view held (held d) pvp (view d2) c fn v (?go d2 (Some bp1))"
            by (rule entry12_two [OF ok m F c(2) _ r r0(4) r1(4) r1(3) free _ _ nb nb1])
               (use e0 r0 r1 True in \<open>simp_all add: fat_blk_def o\<close>)
          then show ?thesis unfolding run using e0 r r1 True by simp
        next
          case False
          have "view (lbrelse io d2 bp1) = view d" "held (lbrelse io d2 bp1) = held d \<union> {?blk}"
            using lbrelse1_ok [OF ok r1(4), of d2] r1(2,3) nb1 by auto
          then have "entry_failed io view held (held d) pvp (view d) {?blk}
              (Some (lbrelse io d2 bp1, pvp, lgeterror io bp1, None))"
            using False by (auto simp: entry_failed_def)
          moreover have "{?blk} \<subseteq> entry_leak pvp c" using F r o by (simp add: entry_leak_def)
          ultimately show ?thesis unfolding run using e0 r r1(1) False by auto
        qed
      qed
    qed
  next
    case F: False
    have o: "c * 2 mod 65536 = 2 * c" "fat_off pvp c = 2 * c" using ow F by (simp_all add: fat_off_def)
    have blk: "2 * c div 2 ^ 9 + vfs_fatblk pvp = ?blk" by (simp add: fat_blk_def o)
    have run: "fatentry io fn pvp d c oldp v =
      (if lgeterror io bp0 \<noteq> 0 then Some (lbrelse io d1 bp0, pvp, lgeterror io bp0, None)
       else fatentry16 io fn pvp d1 ?blk (2 * c mod 512) bp0 v)"
      unfolding fatentry_def args if_False Let_def o bs and_511 drop_bit_eq_div blk if_not_P [OF F]
      by (simp add: r0(1))
    show ?thesis
    proof (cases "lgeterror io bp0 = 0")
      case False
      then show ?thesis using fail0 unfolding run by auto
    next
      case e0: True
      have "entry_done view held (held d) pvp (view d1) c fn v (fatentry16 io fn pvp d1 ?blk (2 * c mod 512) bp0 v)"
        by (rule entry16 [OF ok m F c(2) _ r0(4) r0(3) free _ nb])
           (use e0 r0 in \<open>simp_all add: fat_blk_def o\<close>)
      then show ?thesis unfolding run using e0 r0(2) by simp
    qed
  qed
qed

end
