(* ===== verification/FatMap.thy ===== *)
theory FatMap
  imports FatEntry
begin

text \<open>
  The map of clusters in use is a bit map with a search for the first clear bit: the interface of
  \<open>BitmapSpec\<close>, provided by the byte array of the mount structure. And cluster chains, as the lists
  of clusters a walk along a table visits.
\<close>

section \<open>The map of clusters\<close>

lemma inuse_tst_bit: "inuse_tst m cn \<longleftrightarrow> bit (m ! (cn div 8)) (cn mod 8)"
proof -
  have "(m ! (cn div 8)) AND push_bit (cn mod 8) 1 \<noteq> 0 \<longleftrightarrow> bit (m ! (cn div 8)) (cn mod 8)"
  proof
    assume h: "(m ! (cn div 8)) AND push_bit (cn mod 8) 1 \<noteq> 0"
    show "bit (m ! (cn div 8)) (cn mod 8)"
    proof (rule ccontr)
      assume "\<not> bit (m ! (cn div 8)) (cn mod 8)"
      then have "(m ! (cn div 8)) AND push_bit (cn mod 8) 1 = 0"
        by (intro bit_word_eqI) (auto simp: bit_simps)
      with h show False by contradiction
    qed
  next
    assume "bit (m ! (cn div 8)) (cn mod 8)"
    then show "(m ! (cn div 8)) AND push_bit (cn mod 8) 1 \<noteq> 0"
      by (rule and_mask_hit) (simp add: bit_simps)
  qed
  then show ?thesis by (simp add: inuse_tst_def)
qed

lemma cn_split: "(i::nat) = j \<longleftrightarrow> i div 8 = j div 8 \<and> i mod 8 = j mod 8"
  by (metis div_mult_mod_eq)

lemma inuse_len [simp]: "length (inuse_set m cn) = length m" "length (inuse_clr m cn) = length m"
  by (simp_all add: inuse_set_def inuse_clr_def)

lemma inuse_tst_set:
  assumes "i < inuse_cap m" and "j < inuse_cap m"
  shows "inuse_tst (inuse_set m i) j \<longleftrightarrow> j = i \<or> inuse_tst m j"
proof -
  have l: "i div 8 < length m" "j div 8 < length m"
    using assms by (simp_all add: inuse_cap_def less_mult_imp_div_less mult.commute)
  show ?thesis
    using l cn_split [of j i]
    by (cases "j div 8 = i div 8") (auto simp: inuse_tst_bit inuse_set_def bit_simps)
qed

lemma inuse_tst_clr:
  assumes "i < inuse_cap m" and "j < inuse_cap m"
  shows "inuse_tst (inuse_clr m i) j \<longleftrightarrow> j \<noteq> i \<and> inuse_tst m j"
proof -
  have l: "i div 8 < length m" "j div 8 < length m"
    using assms by (simp_all add: inuse_cap_def less_mult_imp_div_less mult.commute)
  show ?thesis
    using l cn_split [of j i]
    by (cases "j div 8 = i div 8") (auto simp: inuse_tst_bit inuse_clr_def bit_simps)
qed

lemma full_byte: "w = (0xff :: u8) \<longleftrightarrow> (\<forall>b<8. bit w b)"
proof -
  have m: "(0xff :: u8) = mask 8" by (simp add: mask_eq_exp_minus_1)
  show ?thesis
  proof
    assume "w = 0xff"
    then show "\<forall>b<8. bit w b" unfolding m by (simp add: bit_mask_iff)
  next
    assume "\<forall>b<8. bit w b"
    then show "w = 0xff" unfolding m by (intro bit_word_eqI) (simp add: bit_mask_iff)
  qed
qed

text \<open>The search by bytes finds the first clear bit from a byte boundary on.\<close>

lemma byte_bits: "cn mod 8 = (0::nat) \<Longrightarrow> cn \<le> j \<Longrightarrow> j < cn + 8 \<Longrightarrow> j div 8 = cn div 8 \<and> j mod 8 = j - cn"
proof -
  assume a: "cn mod 8 = 0" "cn \<le> j" "j < cn + 8"
  then obtain r where r: "j = cn + r" "r < 8" using le_Suc_ex by fastforce
  obtain q where q: "cn = 8 * q" using a(1) by auto
  show ?thesis using r by (simp add: q)
qed

lemma inuse_byte:
  assumes "cn mod 8 = 0"
  shows "m ! (cn div 8) = 0xff \<longleftrightarrow> (\<forall>j. cn \<le> j \<and> j < cn + 8 \<longrightarrow> inuse_tst m j)"
proof -
  have e: "inuse_tst m (cn + b) = bit (m ! (cn div 8)) b" if "b < 8" for b
    using byte_bits [OF assms, of "cn + b"] that by (simp add: inuse_tst_bit)
  show ?thesis unfolding full_byte
  proof
    assume h: "\<forall>b<8. bit (m ! (cn div 8)) b"
    show "\<forall>j. cn \<le> j \<and> j < cn + 8 \<longrightarrow> inuse_tst m j"
    proof (intro allI impI)
      fix j assume "cn \<le> j \<and> j < cn + 8"
      then obtain b where "j = cn + b" "b < 8" using le_Suc_ex by fastforce
      then show "inuse_tst m j" using h e by simp
    qed
  next
    assume h: "\<forall>j. cn \<le> j \<and> j < cn + 8 \<longrightarrow> inuse_tst m j"
    show "\<forall>b<8. bit (m ! (cn div 8)) b" using h e by simp
  qed
qed

lemma inuse_scan_first:
  assumes "cn mod 8 = 0"
  shows "case inuse_scan m mx cn of
      Some i \<Rightarrow> cn \<le> i \<and> i < 8 * (mx div 8 + 1) \<and> \<not> inuse_tst m i \<and> (\<forall>j. cn \<le> j \<and> j < i \<longrightarrow> inuse_tst m j)
    | None \<Rightarrow> \<forall>j. cn \<le> j \<and> j < 8 * (mx div 8 + 1) \<longrightarrow> inuse_tst m j"
  using assms
proof (induction m mx cn rule: inuse_scan.induct)
  case (1 m mx cn)
  obtain q where q: "cn = 8 * q" using "1.prems" by auto
  show ?case
  proof (cases "mx < cn")
    case True
    then have "mx div 8 < q" unfolding q by (simp add: less_mult_imp_div_less mult.commute)
    then have "8 * (mx div 8 + 1) \<le> cn" unfolding q by simp
    then have none: "\<forall>j. cn \<le> j \<and> j < 8 * (mx div 8 + 1) \<longrightarrow> inuse_tst m j"
      by (meson le_trans not_less)
    have "inuse_scan m mx cn = None" using True by (subst inuse_scan.simps) simp
    then show ?thesis using none by simp
  next
    case in_range: False
    then have top: "cn + 8 \<le> 8 * (mx div 8 + 1)" unfolding q by auto
    show ?thesis
    proof (cases "m ! (cn div 8) = 0xff")
      case True
      have s: "inuse_scan m mx cn = inuse_scan m mx (cn + 8)"
        using in_range True by (subst inuse_scan.simps) simp
      have all: "\<forall>j. cn \<le> j \<and> j < cn + 8 \<longrightarrow> inuse_tst m j"
        using True inuse_byte [OF "1.prems", of m] by simp
      have ih: "case inuse_scan m mx (cn + 8) of
          Some i \<Rightarrow> cn + 8 \<le> i \<and> i < 8 * (mx div 8 + 1) \<and> \<not> inuse_tst m i \<and> (\<forall>j. cn + 8 \<le> j \<and> j < i \<longrightarrow> inuse_tst m j)
        | None \<Rightarrow> \<forall>j. cn + 8 \<le> j \<and> j < 8 * (mx div 8 + 1) \<longrightarrow> inuse_tst m j"
        using "1.IH"(2) in_range True "1.prems" by simp
      show ?thesis
        using ih all unfolding s by (auto split: option.splits simp: not_less) (meson not_less)+
    next
      case False
      have e: "(cn OR 7) + 1 = cn + 8" unfolding or_seven q by simp
      obtain j0 where j0: "cn \<le> j0" "j0 < cn + 8" "\<not> inuse_tst m j0"
        using False inuse_byte [OF "1.prems", of m] by blast
      then have "find (\<lambda>c. \<not> inuse_tst m c) [cn..<cn + 8] \<noteq> None" by (auto simp: find_None_iff)
      then obtain i where f: "find (\<lambda>c. \<not> inuse_tst m c) [cn..<cn + 8] = Some i" by blast
      then obtain k where k: "k < 8" "\<not> inuse_tst m (cn + k)" "i = cn + k" "\<forall>j<k. inuse_tst m (cn + j)"
        by (auto simp: find_Some_iff)
      have s: "inuse_scan m mx cn = Some i"
        using in_range False
        by (subst inuse_scan.simps) (simp only: e f if_False if_True not_False_eq_True option.case)
      have "\<forall>j. cn \<le> j \<and> j < i \<longrightarrow> inuse_tst m j"
      proof (intro allI impI)
        fix j assume "cn \<le> j \<and> j < i"
        then obtain b where "j = cn + b" "b < k" using k(3) le_Suc_ex by fastforce
        then show "inuse_tst m j" using k(4) by simp
      qed
      then show ?thesis unfolding s using k top by simp
    qed
  qed
qed

definition inuse_ffc :: "u8 list \<Rightarrow> nat option" where
  "inuse_ffc m = (if m = [] then None else inuse_scan m (inuse_cap m - 1) 0)"

lemma cap_last: "m \<noteq> [] \<Longrightarrow> 8 * ((inuse_cap m - 1) div 8 + 1) = inuse_cap m"
  by (cases m) (simp_all add: inuse_cap_def)

interpretation inuse: bitmap_alloc inuse_cap inuse_tst inuse_set inuse_clr inuse_ffc
proof unfold_locales
  fix m i j
  show "inuse_cap (inuse_set m i) = inuse_cap m" "inuse_cap (inuse_clr m i) = inuse_cap m"
    by (simp_all add: inuse_cap_def)
  assume "i < inuse_cap m" "j < inuse_cap m"
  then show "inuse_tst (inuse_set m i) j \<longleftrightarrow> j = i \<or> inuse_tst m j"
    "inuse_tst (inuse_clr m i) j \<longleftrightarrow> j \<noteq> i \<and> inuse_tst m j"
    by (simp_all add: inuse_tst_set inuse_tst_clr)
next
  fix m i
  assume a: "inuse_ffc m = Some i"
  then have ne: "m \<noteq> []" by (auto simp: inuse_ffc_def)
  show "i < inuse_cap m \<and> \<not> inuse_tst m i \<and> (\<forall>j<i. inuse_tst m j)"
    using inuse_scan_first [where cn = 0 and m = m and mx = "inuse_cap m - 1"] a cap_last [OF ne] ne by (simp add: inuse_ffc_def)
next
  fix m
  assume a: "inuse_ffc m = None"
  show "\<forall>j<inuse_cap m. inuse_tst m j"
  proof (cases "m = []")
    case True
    then show ?thesis by (simp add: inuse_cap_def)
  next
    case False
    then show ?thesis
      using inuse_scan_first [where cn = 0 and m = m and mx = "inuse_cap m - 1"] a cap_last [OF False] by (simp add: inuse_ffc_def)
  qed
qed

lemma scan_is_ffc:
  assumes "length m = mx div 8 + 1"
  shows "inuse_scan m mx 0 = inuse_ffc m"
proof -
  have ne: "m \<noteq> []" and cap: "8 * (mx div 8 + 1) = inuse_cap m" using assms by (auto simp: inuse_cap_def)
  note a = inuse_scan_first [where cn = 0 and m = m and mx = mx, unfolded cap]
  show ?thesis
  proof (cases "inuse_ffc m")
    case None
    then have "\<forall>j<inuse_cap m. inuse_tst m j" by (rule inuse.ffc_None)
    then show ?thesis using a None by (auto split: option.splits)
  next
    case (Some i)
    note f = inuse.ffc_Some [OF Some]
    show ?thesis
    proof (cases "inuse_scan m mx 0")
      case None
      then show ?thesis using a f by auto
    next
      case s: (Some k)
      then have "\<not> inuse_tst m k" "\<forall>j<k. inuse_tst m j" using a by auto
      then have "k = i" using f by (metis linorder_neqE_nat)
      then show ?thesis using s Some by simp
    qed
  qed
qed

section \<open>Cluster chains\<close>

text \<open>
  \<open>chain e mx c xs\<close>: from \<open>c\<close> on, following \<open>e\<close>, the clusters visited before leaving the range of
  legal numbers are \<open>xs\<close>.
\<close>

fun chain :: "(nat \<Rightarrow> nat) \<Rightarrow> nat \<Rightarrow> nat \<Rightarrow> nat list \<Rightarrow> bool" where
  "chain e mx c [] \<longleftrightarrow> \<not> (CLUST_FIRST \<le> c \<and> c \<le> mx)"
| "chain e mx c (x # xs) \<longleftrightarrow> c = x \<and> CLUST_FIRST \<le> c \<and> c \<le> mx \<and> chain e mx (e c) xs"

lemma chain_range: "chain e mx c xs \<Longrightarrow> set xs \<subseteq> {CLUST_FIRST..mx}"
  by (induction xs arbitrary: c) auto

lemma chain_cong: "(\<And>x. x \<in> set xs \<Longrightarrow> e' x = e x) \<Longrightarrow> chain e' mx c xs = chain e mx c xs"
  by (induction xs arbitrary: c) auto

lemma chain_unique: "chain e mx c xs \<Longrightarrow> chain e mx c ys \<Longrightarrow> xs = ys"
proof (induction xs arbitrary: c ys)
  case Nil
  then show ?case by (cases ys) auto
next
  case (Cons x xs)
  then show ?case by (cases ys) auto
qed

lemma chain_tail: "chain e mx c (ys @ x # zs) \<Longrightarrow> chain e mx x (x # zs)"
  by (induction ys arbitrary: c) auto

text \<open>A walk that leaves the range visits no cluster twice.\<close>

lemma chain_distinct: "chain e mx c xs \<Longrightarrow> distinct xs"
proof (induction xs arbitrary: c)
  case (Cons x xs)
  have "x \<notin> set xs"
  proof
    assume "x \<in> set xs"
    then obtain ys zs where s: "xs = ys @ x # zs" by (meson split_list)
    have "chain e mx x (x # ys @ x # zs)" using Cons.prems s by auto
    moreover from this have "chain e mx x (x # zs)" using chain_tail [of e mx x "x # ys" x zs] by simp
    ultimately have "x # ys @ x # zs = x # zs" by (rule chain_unique)
    then show False by simp
  qed
  with Cons show ?case by auto
qed simp

end
