(* ===== verification/FatAlloc.thy ===== *)
theory FatAlloc
  imports FatMap
begin

text \<open>
  Allocation and release of clusters as operations on the set of free clusters. The invariant of a
  volume, \<open>vol_ok\<close>, ties together the table on the device, its copies, the map of clusters in use and
  the count of free clusters.
\<close>

section \<open>The invariant\<close>

definition free_set :: "dosfs_vfs \<Rightarrow> (nat \<Rightarrow> u8 list) \<Rightarrow> nat set" where
  "free_set pvp v = {c. CLUST_FIRST \<le> c \<and> c \<le> vfs_maxcluster pvp \<and> fat_at pvp v c = 0}"

definition map_ok :: "dosfs_vfs \<Rightarrow> (nat \<Rightarrow> u8 list) \<Rightarrow> bool" where
  "map_ok pvp v \<longleftrightarrow>
     inuse.used (vfs_inusemap pvp) = {..<inuse_cap (vfs_inusemap pvp)} - free_set pvp v
     \<and> vfs_freeclustercount pvp = int (card (free_set pvp v))"

text \<open>The clusters whose table offset fits the \<open>unsigned short\<close> of \<open>fatentry\<close>.\<close>

definition no_wrap :: "dosfs_vfs \<Rightarrow> bool" where
  "no_wrap pvp \<longleftrightarrow> FAT12 pvp \<or> vfs_maxcluster pvp < 32768"

definition vol_ok :: "dosfs_vfs \<Rightarrow> (nat \<Rightarrow> u8 list) \<Rightarrow> bool" where
  "vol_ok pvp v \<longleftrightarrow> mount_ok pvp \<and> no_wrap pvp \<and> synced pvp v \<and> map_ok pvp v"

lemma finite_free_set [simp]: "finite (free_set pvp v)"
  by (rule finite_subset [of _ "{..vfs_maxcluster pvp}"]) (auto simp: free_set_def)

lemma free_set_geo: "same_fs p q \<Longrightarrow> free_set q v = free_set p v"
  by (simp add: free_set_def same_fs_geo)

lemma no_wrap_geo: "same_fs p q \<Longrightarrow> no_wrap q = no_wrap p"
  by (simp add: no_wrap_def same_fs_geo)

lemma free_set_cap:
  assumes "mount_ok pvp" and "c \<le> vfs_maxcluster pvp"
  shows "c < inuse_cap (vfs_inusemap pvp)"
proof -
  have "c < 8 + 8 * (c div 8)" by (rule dividend_less_times_div) simp
  also have "\<dots> \<le> 8 + 8 * (vfs_maxcluster pvp div 8)"
    by (intro add_left_mono mult_le_mono2 div_le_mono assms(2))
  finally have "c < 8 * (vfs_maxcluster pvp div 8 + 1)" by simp
  then show ?thesis using assms(1) by (simp add: inuse_cap_def mount_ok_def)
qed

lemma fat_stored_free_set:
  assumes "fat_stored pvp v v' c w" and "CLUST_FIRST \<le> c" and "c \<le> vfs_maxcluster pvp"
  shows "free_set pvp v' = (if fat_norm pvp w = 0 then insert c (free_set pvp v) else free_set pvp v - {c})"
  using assms by (auto simp: free_set_def fat_stored_def split: if_splits)

lemma fat_norm_free [simp]: "fat_norm pvp DOSFSFREE = 0"
  by (simp add: fat_norm_def DOSFSFREE_def norm12_def widen12_def)

lemma fat_norm_eof: "fat_norm pvp CLUST_EOFE = 0xffff"
  by (simp add: fat_norm_def CLUST_EOFE_def norm12_def widen12_def)

section \<open>One entry operation on a volume\<close>

text \<open>What is known after \<open>fatentry\<close> on a volume: done or failed, as a case rule.\<close>

lemma fatentry_cases:
  assumes "bio_ok io view held" and "vol_ok pvp (view d)" and "fatblks pvp \<inter> held d = {}"
    and "CLUST_FIRST \<le> c" "c \<le> vfs_maxcluster pvp"
    and "fn AND FAT_SET \<noteq> 0" and "fn AND FAT_GET \<noteq> 0 \<longrightarrow> oldp"
  obtains (stored) d' where "fatentry io fn pvp d c oldp w = Some (d', pvp\<lparr>vfs_fmod := vfs_fmod pvp + 1\<rparr>, 0,
      if fn AND FAT_GET \<noteq> 0 then Some (fat_at pvp (view d) c) else None)"
      and "held d' = held d" and "fat_stored pvp (view d) (view d') c w"
  | (failed) d' err where "fatentry io fn pvp d c oldp w = Some (d', pvp, err, None)" and "err \<noteq> 0"
      and "view d' = view d" and "held d \<subseteq> held d'" and "held d' \<subseteq> held d \<union> entry_leak pvp c"
      and "\<exists>lb. err = lgeterror io lb"
proof -
  have m: "mount_ok pvp" and w: "FAT12 pvp \<or> c < 32768"
    using assms(2,5) by (auto simp: vol_ok_def no_wrap_def)
  have fn: "fn AND (FAT_SET OR FAT_GET) \<noteq> 0"
  proof
    assume z: "fn AND (FAT_SET OR FAT_GET) = 0"
    have "fn AND FAT_SET = fn AND (FAT_SET OR FAT_GET) AND FAT_SET"
      by (rule bit_eqI) (auto simp: bit_simps)
    with z assms(6) show False by (simp add: and.assoc [symmetric])
  qed
  from fatentry_run [OF assms(1) m assms(3-5) w fn assms(7), of w]
  show ?thesis
  proof
    assume "entry_done view held (held d) pvp (view d) c fn w (fatentry io fn pvp d c oldp w)"
    then obtain d' pvp' where r: "fatentry io fn pvp d c oldp w
        = Some (d', pvp', 0, if fn AND FAT_GET \<noteq> 0 then Some (fat_at pvp (view d) c) else None)"
      "held d' = held d" "if fn AND FAT_SET \<noteq> 0
        then pvp' = pvp\<lparr>vfs_fmod := vfs_fmod pvp + 1\<rparr> \<and> fat_stored pvp (view d) (view d') c w
        else pvp' = pvp \<and> view d' = view d"
      unfolding entry_done_def by (elim exE conjE) (rule that)
    note r3 = r(3) [unfolded if_P [OF assms(6)]]
    show ?thesis by (rule stored [of d']) (use r(1,2) r3 in simp_all)
  next
    assume "\<exists>leak \<subseteq> entry_leak pvp c.
        entry_failed io view held (held d) pvp (view d) leak (fatentry io fn pvp d c oldp w)"
    then obtain leak d' err lb where "leak \<subseteq> entry_leak pvp c"
        "fatentry io fn pvp d c oldp w = Some (d', pvp, err, None)" "err \<noteq> 0" "err = lgeterror io lb"
        "view d' = view d" "held d' = held d \<union> leak"
      unfolding entry_failed_def by (elim exE conjE) (rule that)
    then show ?thesis by (intro failed [of d' err]) auto
  qed
qed

text \<open>How the invariant follows a change of one entry together with the map and the count.\<close>

lemma vol_ok_free:
  assumes v: "vol_ok pvp v" and st: "fat_stored pvp v v' c DOSFSFREE" and c: "CLUST_FIRST \<le> c" "c \<le> vfs_maxcluster pvp"
    and used: "c \<notin> free_set pvp v" and sf: "same_fs pvp q"
    and map: "vfs_inusemap q = inuse_clr (vfs_inusemap pvp) c"
    and count: "vfs_freeclustercount q = vfs_freeclustercount pvp + 1"
  shows "vol_ok q v' \<and> free_set q v' = insert c (free_set pvp v)"
proof -
  have m: "mount_ok pvp" and mo: "map_ok pvp v" using v by (simp_all add: vol_ok_def)
  have cap: "c < inuse_cap (vfs_inusemap pvp)" by (rule free_set_cap [OF m c(2)])
  have fs: "free_set q v' = insert c (free_set pvp v)"
    using fat_stored_free_set [OF st c] free_set_geo [OF sf] by simp
  have "inuse.used (vfs_inusemap q) = {..<inuse_cap (vfs_inusemap q)} - free_set q v'"
    using mo by (auto simp: map map_ok_def inuse.used_cl [OF cap] inuse.cap_cl fs)
  moreover have "vfs_freeclustercount q = int (card (free_set q v'))"
    using mo used by (simp add: count fs map_ok_def)
  moreover have "mount_ok q" by (rule same_fs_mount [OF sf _ m]) (simp add: map)
  moreover have "synced q v'" using v st by (simp add: vol_ok_def fat_stored_def same_fs_geo [OF sf])
  moreover have "no_wrap q" using v by (simp add: vol_ok_def no_wrap_geo [OF sf])
  ultimately show ?thesis using fs by (simp add: vol_ok_def map_ok_def)
qed

lemma vol_ok_take:
  assumes v: "vol_ok pvp v" and st: "fat_stored pvp v v' c w" and w: "fat_norm pvp w \<noteq> 0"
    and free: "c \<in> free_set pvp v" and sf: "same_fs pvp q"
    and map: "vfs_inusemap q = inuse_set (vfs_inusemap pvp) c"
    and count: "vfs_freeclustercount q = vfs_freeclustercount pvp - 1"
  shows "vol_ok q v' \<and> free_set q v' = free_set pvp v - {c}"
proof -
  have m: "mount_ok pvp" and mo: "map_ok pvp v" using v by (simp_all add: vol_ok_def)
  have c: "CLUST_FIRST \<le> c" "c \<le> vfs_maxcluster pvp" using free by (simp_all add: free_set_def)
  have cap: "c < inuse_cap (vfs_inusemap pvp)" by (rule free_set_cap [OF m c(2)])
  have fs: "free_set q v' = free_set pvp v - {c}"
    using fat_stored_free_set [OF st c] free_set_geo [OF sf] w by simp
  have "inuse.used (vfs_inusemap q) = {..<inuse_cap (vfs_inusemap q)} - free_set q v'"
    using mo cap by (auto simp: map map_ok_def inuse.used_st [OF cap] inuse.cap_st fs)
  moreover have "vfs_freeclustercount q = int (card (free_set q v'))"
  proof -
    have "card (free_set pvp v) = Suc (card (free_set pvp v - {c}))" by (rule card.remove [OF finite_free_set free])
    then show ?thesis using mo by (simp add: count fs map_ok_def)
  qed
  moreover have "mount_ok q" by (rule same_fs_mount [OF sf _ m]) (simp add: map)
  moreover have "synced q v'" using v st by (simp add: vol_ok_def fat_stored_def same_fs_geo [OF sf])
  moreover have "no_wrap q" using v by (simp add: vol_ok_def no_wrap_geo [OF sf])
  ultimately show ?thesis using fs by (simp add: vol_ok_def map_ok_def)
qed

lemma vol_ok_link:
  assumes v: "vol_ok pvp v" and st: "fat_stored pvp v v' c w" and w: "fat_norm pvp w \<noteq> 0"
    and c: "CLUST_FIRST \<le> c" "c \<le> vfs_maxcluster pvp" and used: "c \<notin> free_set pvp v"
  shows "vol_ok (pvp\<lparr>vfs_fmod := k\<rparr>) v' \<and> free_set (pvp\<lparr>vfs_fmod := k\<rparr>) v' = free_set pvp v"
proof -
  have sf: "same_fs pvp (pvp\<lparr>vfs_fmod := k\<rparr>)" by simp
  have fs: "free_set (pvp\<lparr>vfs_fmod := k\<rparr>) v' = free_set pvp v"
    using fat_stored_free_set [OF st c] free_set_geo [OF sf] w used by simp
  have "mount_ok (pvp\<lparr>vfs_fmod := k\<rparr>)"
    by (rule same_fs_mount [OF sf]) (use v in \<open>simp_all add: vol_ok_def\<close>)
  then show ?thesis
    using v st fs by (simp add: vol_ok_def map_ok_def fat_stored_def same_fs_geo [OF sf] no_wrap_geo [OF sf])
qed

section \<open>The map finds the least free cluster\<close>

lemma scan_free:
  assumes v: "vol_ok pvp v"
  shows "inuse_scan (vfs_inusemap pvp) (vfs_maxcluster pvp) 0 =
    (if free_set pvp v = {} then None else Some (Min (free_set pvp v)))"
proof -
  let ?m = "vfs_inusemap pvp" and ?F = "free_set pvp v"
  have m: "mount_ok pvp" and used: "inuse.used ?m = {..<inuse_cap ?m} - ?F"
    using v by (simp_all add: vol_ok_def map_ok_def)
  have scan: "inuse_scan ?m (vfs_maxcluster pvp) 0 = inuse_ffc ?m"
    by (rule scan_is_ffc) (use m in \<open>simp add: mount_ok_def\<close>)
  have sub: "?F \<subseteq> {..<inuse_cap ?m}"
    using free_set_cap [OF m] by (auto simp: free_set_def)
  show ?thesis
  proof (cases "inuse_ffc ?m")
    case None
    then have "inuse.used ?m = {..<inuse_cap ?m}" by (simp add: inuse.ffc_total)
    then have "?F = {}" using used sub by blast
    then show ?thesis using None scan by simp
  next
    case (Some i)
    then have i: "i < inuse_cap ?m" "i \<notin> inuse.used ?m" using inuse.ffc_fresh by auto
    then have iF: "i \<in> ?F" using used by auto
    have "Min ?F = i"
    proof (rule Min_eqI [OF finite_free_set _ iF])
      fix j assume "j \<in> ?F"
      then show "i \<le> j" using inuse.ffc_least [OF Some, of j] used sub by auto
    qed
    then show ?thesis using Some scan iF by auto
  qed
qed

section \<open>Allocation, release, chains\<close>

lemma set_flags: "FAT_SET AND FAT_SET \<noteq> 0" "FAT_SET AND FAT_GET = 0"
    "(FAT_GET OR FAT_SET) AND FAT_SET \<noteq> 0" "(FAT_GET OR FAT_SET) AND FAT_GET \<noteq> 0"
  by (simp_all add: FAT_SET_def FAT_GET_def)

lemma clusteralloc_cases:
  assumes ok: "bio_ok io view held" and v: "vol_ok pvp (view d)" and fr: "fatblks pvp \<inter> held d = {}"
    and w: "fat_norm pvp w \<noteq> 0"
  obtains (full) "free_set pvp (view d) = {}" and "clusteralloc io pvp d w = Some (d, pvp, ENOSPC, None)"
  | (taken) d' pvp' c where "clusteralloc io pvp d w = Some (d', pvp', 0, Some c)"
      and "free_set pvp (view d) \<noteq> {}" and "c = Min (free_set pvp (view d))" and "c \<in> free_set pvp (view d)"
      and "held d' = held d" and "same_fs pvp pvp'" and "vol_ok pvp' (view d')"
      and "fat_stored pvp (view d) (view d') c w" and "free_set pvp' (view d') = free_set pvp (view d) - {c}"
  | (failed) d' err where "clusteralloc io pvp d w = Some (d', pvp, err, None)" and "err \<noteq> 0"
      and "free_set pvp (view d) \<noteq> {}" and "view d' = view d"
      and "held d' \<subseteq> held d \<union> entry_leak pvp (Min (free_set pvp (view d)))" and "\<exists>lb. err = lgeterror io lb"
proof (cases "free_set pvp (view d) = {}")
  case True
  then show ?thesis using scan_free [OF v] by (intro full) (simp_all add: clusteralloc_def)
next
  case False
  let ?c = "Min (free_set pvp (view d))"
  have cin: "?c \<in> free_set pvp (view d)" using False by simp
  then have c: "CLUST_FIRST \<le> ?c" "?c \<le> vfs_maxcluster pvp" by (simp_all add: free_set_def)
  have scan: "inuse_scan (vfs_inusemap pvp) (vfs_maxcluster pvp) 0 = Some ?c"
    using scan_free [OF v] False by simp
  have g: "FAT_SET AND FAT_GET \<noteq> 0 \<longrightarrow> False" using set_flags(2) by simp
  show ?thesis
  proof (rule fatentry_cases [OF ok v fr c set_flags(1) g, of w])
    fix d' assume r: "fatentry io FAT_SET pvp d ?c False w = Some (d', pvp\<lparr>vfs_fmod := vfs_fmod pvp + 1\<rparr>, 0,
        if FAT_SET AND FAT_GET \<noteq> 0 then Some (fat_at pvp (view d) ?c) else None)"
      and h: "held d' = held d" and st: "fat_stored pvp (view d) (view d') ?c w"
    let ?q = "pvp\<lparr>vfs_fmod := vfs_fmod pvp + 1, vfs_inusemap := inuse_set (vfs_inusemap pvp) ?c,
       vfs_freeclustercount := vfs_freeclustercount pvp - 1, vfs_fmod := vfs_fmod pvp + 1 + 1\<rparr>"
    have "clusteralloc io pvp d w = Some (d', ?q, 0, Some ?c)"
      unfolding clusteralloc_def scan by (simp add: r)
    moreover have "vol_ok ?q (view d') \<and> free_set ?q (view d') = free_set pvp (view d) - {?c}"
      by (rule vol_ok_take [OF v st w cin]) simp_all
    ultimately show thesis using False cin h st by (intro taken [of d' ?q ?c]) simp_all
  next
    fix d' err assume r: "fatentry io FAT_SET pvp d ?c False w = Some (d', pvp, err, None)" "err \<noteq> 0"
      "view d' = view d" "held d' \<subseteq> held d \<union> entry_leak pvp ?c" "\<exists>lb. err = lgeterror io lb"
    have "clusteralloc io pvp d w = Some (d', pvp, err, None)"
      unfolding clusteralloc_def scan using r(1,2) by simp
    then show thesis using r False by (intro failed)
  qed
qed

lemma clusterfree_cases:
  assumes ok: "bio_ok io view held" and v: "vol_ok pvp (view d)" and fr: "fatblks pvp \<inter> held d = {}"
    and c: "CLUST_FIRST \<le> c" "c \<le> vfs_maxcluster pvp" and used: "c \<notin> free_set pvp (view d)"
  obtains (freed) d' pvp' where "clusterfree io pvp d c = Some (d', pvp', 0)" and "held d' = held d"
      and "same_fs pvp pvp'" and "vol_ok pvp' (view d')" and "fat_stored pvp (view d) (view d') c DOSFSFREE"
      and "free_set pvp' (view d') = insert c (free_set pvp (view d))"
  | (failed) d' err where "clusterfree io pvp d c = Some (d', pvp, err)" and "err \<noteq> 0" and "view d' = view d"
      and "held d' \<subseteq> held d \<union> entry_leak pvp c" and "\<exists>lb. err = lgeterror io lb"
proof -
  have g: "FAT_SET AND FAT_GET \<noteq> 0 \<longrightarrow> False" using set_flags(2) by simp
  show ?thesis
  proof (rule fatentry_cases [OF ok v fr c set_flags(1) g, of DOSFSFREE])
    fix d' assume r: "fatentry io FAT_SET pvp d c False DOSFSFREE = Some (d', pvp\<lparr>vfs_fmod := vfs_fmod pvp + 1\<rparr>, 0,
        if FAT_SET AND FAT_GET \<noteq> 0 then Some (fat_at pvp (view d) c) else None)"
      and h: "held d' = held d" and st: "fat_stored pvp (view d) (view d') c DOSFSFREE"
    let ?q = "pvp\<lparr>vfs_fmod := vfs_fmod pvp + 1, vfs_freeclustercount := vfs_freeclustercount pvp + 1,
       vfs_inusemap := inuse_clr (vfs_inusemap pvp) c\<rparr>"
    have "clusterfree io pvp d c = Some (d', ?q, 0)" unfolding clusterfree_def by (simp add: r)
    moreover have "vol_ok ?q (view d') \<and> free_set ?q (view d') = insert c (free_set pvp (view d))"
      by (rule vol_ok_free [OF v st c used]) simp_all
    ultimately show thesis using h st by (intro freed [of d' ?q]) simp_all
  next
    fix d' err assume r: "fatentry io FAT_SET pvp d c False DOSFSFREE = Some (d', pvp, err, None)" "err \<noteq> 0"
      "view d' = view d" "held d' \<subseteq> held d \<union> entry_leak pvp c" "\<exists>lb. err = lgeterror io lb"
    have "clusterfree io pvp d c = Some (d', pvp, err)" unfolding clusterfree_def using r(1,2) by simp
    then show thesis using r by (intro failed)
  qed
qed

text \<open>One round of the loop of \<open>freeclusterchain\<close>.\<close>

lemma chain_step:
  assumes ok: "bio_ok io view held" and v: "vol_ok pvp (view d)" and fr: "fatblks pvp \<inter> held d = {}"
    and c: "CLUST_FIRST \<le> c" "c \<le> vfs_maxcluster pvp"
  obtains (freed) d' pvp' where "freeclusterchain io (Suc n) pvp d c
        = freeclusterchain io n pvp' d' (fat_at pvp (view d) c)"
      and "held d' = held d" and "same_fs pvp pvp'" and "length (vfs_inusemap pvp') = length (vfs_inusemap pvp)"
      and "fat_stored pvp (view d) (view d') c DOSFSFREE"
      and "c \<notin> free_set pvp (view d) \<Longrightarrow> vol_ok pvp' (view d')"
      and "free_set pvp' (view d') = insert c (free_set pvp (view d))"
  | (failed) d' err where "freeclusterchain io (Suc n) pvp d c = Some (d', pvp, err)" and "err \<noteq> 0"
      and "view d' = view d" and "held d' \<subseteq> held d \<union> entry_leak pvp c" and "\<exists>lb. err = lgeterror io lb"
proof -
  have g: "(FAT_GET OR FAT_SET) AND FAT_GET \<noteq> 0 \<longrightarrow> True" by simp
  show ?thesis
  proof (rule fatentry_cases [OF ok v fr c set_flags(3) g, of DOSFSFREE])
    fix d' assume r: "fatentry io (FAT_GET OR FAT_SET) pvp d c True DOSFSFREE
        = Some (d', pvp\<lparr>vfs_fmod := vfs_fmod pvp + 1\<rparr>, 0,
        if (FAT_GET OR FAT_SET) AND FAT_GET \<noteq> 0 then Some (fat_at pvp (view d) c) else None)"
      and h: "held d' = held d" and st: "fat_stored pvp (view d) (view d') c DOSFSFREE"
    let ?q = "pvp\<lparr>vfs_fmod := vfs_fmod pvp + 1, vfs_freeclustercount := vfs_freeclustercount pvp + 1,
       vfs_inusemap := inuse_clr (vfs_inusemap pvp) c, vfs_fmod := vfs_fmod pvp + 1 + 1\<rparr>"
    note r' = r [unfolded if_P [OF set_flags(4)]]
    have run: "freeclusterchain io (Suc n) pvp d c = freeclusterchain io n ?q d' (fat_at pvp (view d) c)"
      using c by (simp add: r')
    have vo: "c \<notin> free_set pvp (view d) \<Longrightarrow> vol_ok ?q (view d')"
      using vol_ok_free [OF v st c, of ?q] by simp
    have fs: "free_set ?q (view d') = insert c (free_set pvp (view d))"
      using fat_stored_free_set [OF st c] free_set_geo [of pvp ?q] by simp
    show thesis by (rule freed [OF run h _ _ st vo fs]) simp_all
  next
    fix d' err assume r: "fatentry io (FAT_GET OR FAT_SET) pvp d c True DOSFSFREE = Some (d', pvp, err, None)" "err \<noteq> 0"
      "view d' = view d" "held d' \<subseteq> held d \<union> entry_leak pvp c" "\<exists>lb. err = lgeterror io lb"
    have "freeclusterchain io (Suc n) pvp d c = Some (d', pvp, err)" using c r(1,2) by simp
    then show thesis using r by (intro failed)
  qed
qed

text \<open>Freeing an allocated chain, with the prefix that was freed when a read fails on the way.\<close>

lemma freechain_ok:
  assumes ok: "bio_ok io view held"
    and "vol_ok pvp (view d)" and "fatblks pvp \<inter> held d = {}"
    and "chain (fat_at pvp (view d)) (vfs_maxcluster pvp) c xs"
    and "set xs \<inter> free_set pvp (view d) = {}" and "length xs < fuel"
  shows "\<exists>d' pvp' err ys zs. freeclusterchain io fuel pvp d c = Some (d', pvp', err) \<and> xs = ys @ zs
    \<and> (err = 0 \<longrightarrow> zs = [] \<and> held d' = held d) \<and> (err \<noteq> 0 \<longrightarrow> (\<exists>lb. err = lgeterror io lb))
    \<and> same_fs pvp pvp' \<and> vol_ok pvp' (view d')
    \<and> free_set pvp' (view d') = free_set pvp (view d) \<union> set ys
    \<and> (\<forall>c' \<le> vfs_maxcluster pvp. c' \<notin> set ys \<longrightarrow> fat_at pvp (view d') c' = fat_at pvp (view d) c')
    \<and> (\<forall>s. s \<notin> fatblks pvp \<longrightarrow> view d' s = view d s)"
  using assms(2-)
proof (induction xs arbitrary: c d pvp fuel)
  case Nil
  then obtain n where f: "fuel = Suc n" by (cases fuel) auto
  have "freeclusterchain io fuel pvp d c = Some (d, pvp, 0)" unfolding f using Nil.prems(3) by auto
  then show ?case using Nil.prems by (intro exI conjI) (auto intro: exI [of _ "[]"])
next
  case (Cons x xs)
  then obtain n where f: "fuel = Suc n" "length xs < n" by (cases fuel) auto
  have x: "x = c" "CLUST_FIRST \<le> c" "c \<le> vfs_maxcluster pvp"
    and ch: "chain (fat_at pvp (view d)) (vfs_maxcluster pvp) (fat_at pvp (view d) c) xs"
    using Cons.prems(3) by auto
  have nin: "x \<notin> set xs" using chain_distinct [OF Cons.prems(3)] by simp
  have cu: "c \<notin> free_set pvp (view d)" using Cons.prems(4) x by auto
  show ?case
  proof (rule chain_step [OF ok Cons.prems(1,2) x(2,3), of n])
    fix d' pvp'
    assume run: "freeclusterchain io (Suc n) pvp d c = freeclusterchain io n pvp' d' (fat_at pvp (view d) c)"
      and h: "held d' = held d" and sf: "same_fs pvp pvp'"
      and st: "fat_stored pvp (view d) (view d') c DOSFSFREE"
      and vo: "c \<notin> free_set pvp (view d) \<Longrightarrow> vol_ok pvp' (view d')"
      and fs: "free_set pvp' (view d') = insert c (free_set pvp (view d))"
    note geo = same_fs_geo [OF sf]
    have same: "fat_at pvp (view d') c' = fat_at pvp (view d) c'" if "c' \<le> vfs_maxcluster pvp" "c' \<noteq> c" for c'
      using st that by (simp add: fat_stored_def)
    have rng: "set xs \<subseteq> {CLUST_FIRST..vfs_maxcluster pvp}" by (rule chain_range [OF ch])
    have same': "fat_at pvp (view d') y = fat_at pvp (view d) y" if "y \<in> set xs" for y
      by (rule same) (use that rng nin x in auto)
    have ch': "chain (fat_at pvp' (view d')) (vfs_maxcluster pvp') (fat_at pvp (view d) c) xs"
      unfolding geo using ch chain_cong [of xs "fat_at pvp (view d')" "fat_at pvp (view d)"] same' by blast
    have dis: "set xs \<inter> free_set pvp' (view d') = {}" using Cons.prems(4) nin x fs by auto
    have fr: "fatblks pvp' \<inter> held d' = {}" using Cons.prems(2) by (simp add: geo h)
    obtain e q err ys zs where ih: "freeclusterchain io n pvp' d' (fat_at pvp (view d) c) = Some (e, q, err)"
        "xs = ys @ zs" "err = 0 \<longrightarrow> zs = [] \<and> held e = held d'" "err \<noteq> 0 \<longrightarrow> (\<exists>lb. err = lgeterror io lb)"
        "same_fs pvp' q" "vol_ok q (view e)" "free_set q (view e) = free_set pvp' (view d') \<union> set ys"
        "\<forall>c' \<le> vfs_maxcluster pvp'. c' \<notin> set ys \<longrightarrow> fat_at pvp' (view e) c' = fat_at pvp' (view d') c'"
        "\<forall>s. s \<notin> fatblks pvp' \<longrightarrow> view e s = view d' s"
      using Cons.IH [OF vo [OF cu] fr ch' dis f(2)] by (elim exE conjE) (rule that)
    show ?thesis
    proof (intro exI conjI)
      show "freeclusterchain io fuel pvp d c = Some (e, q, err)" unfolding f run by (rule ih(1))
      show "x # xs = (x # ys) @ zs" using ih(2) by simp
      show "err = 0 \<longrightarrow> zs = [] \<and> held e = held d" using ih(3) h by simp
      show "same_fs pvp q" by (rule same_fs_trans [OF sf ih(5)])
      show "free_set q (view e) = free_set pvp (view d) \<union> set (x # ys)" using ih(7) fs x by auto
      show "\<forall>c' \<le> vfs_maxcluster pvp. c' \<notin> set (x # ys) \<longrightarrow> fat_at pvp (view e) c' = fat_at pvp (view d) c'"
        using ih(8) same x by (auto simp: geo)
      show "\<forall>s. s \<notin> fatblks pvp \<longrightarrow> view e s = view d s"
        using ih(9) st by (simp add: geo fat_stored_def)
    qed (use ih in auto)
  next
    fix d' err assume r: "freeclusterchain io (Suc n) pvp d c = Some (d', pvp, err)" "err \<noteq> 0" "view d' = view d"
      "\<exists>lb. err = lgeterror io lb"
    show ?thesis
    proof (intro exI conjI)
      show "freeclusterchain io fuel pvp d c = Some (d', pvp, err)" using r(1) f by simp
      show "x # xs = [] @ (x # xs)" by simp
      show "vol_ok pvp (view d')" using Cons.prems(1) r(3) by simp
    qed (use r in auto)
  qed
qed

text \<open>
  The loop of \<open>freeclusterchain\<close> always ends, whatever the table contains: every round but the last
  turns a used entry into a free one.
\<close>

definition busy :: "dosfs_vfs \<Rightarrow> (nat \<Rightarrow> u8 list) \<Rightarrow> nat set" where
  "busy pvp v = {CLUST_FIRST..vfs_maxcluster pvp} - free_set pvp v"

lemma freechain_ends:
  assumes ok: "bio_ok io view held"
    and "vol_ok pvp (view d)" and "fatblks pvp \<inter> held d = {}" and "card (busy pvp (view d)) + 1 < fuel"
  shows "\<exists>r. freeclusterchain io fuel pvp d c = Some r"
  using assms(2-)
proof (induction fuel arbitrary: pvp d c)
  case (Suc n)
  show ?case
  proof (cases "CLUST_FIRST \<le> c \<and> c \<le> vfs_maxcluster pvp")
    case False
    then show ?thesis by auto
  next
    case True
    then have c: "CLUST_FIRST \<le> c" "c \<le> vfs_maxcluster pvp" by simp_all
    show ?thesis
    proof (rule chain_step [OF ok Suc.prems(1,2) c, of n])
      fix d' pvp'
      assume run: "freeclusterchain io (Suc n) pvp d c = freeclusterchain io n pvp' d' (fat_at pvp (view d) c)"
        and h: "held d' = held d" and sf: "same_fs pvp pvp'"
        and vo: "c \<notin> free_set pvp (view d) \<Longrightarrow> vol_ok pvp' (view d')"
        and fs: "free_set pvp' (view d') = insert c (free_set pvp (view d))"
      show ?thesis
      proof (cases "c \<in> free_set pvp (view d)")
        case True
        then have z: "fat_at pvp (view d) c = 0" by (simp add: free_set_def)
        obtain k where k: "n = Suc k" using Suc.prems(3) by (cases n) auto
        have "freeclusterchain io n pvp' d' 0 = Some (d', pvp', 0)" unfolding k by (simp add: CLUST_FIRST_def)
        then show ?thesis unfolding run z by blast
      next
        case False
        have e: "busy pvp' (view d') = busy pvp (view d) - {c}"
          by (auto simp: busy_def fs same_fs_geo [OF sf])
        have "c \<in> busy pvp (view d)" using False c by (simp add: busy_def)
        then have "Suc (card (busy pvp' (view d'))) = card (busy pvp (view d))"
          unfolding e using card.remove [of "busy pvp (view d)" c] by (simp add: busy_def)
        then show ?thesis
          unfolding run using Suc.prems h
          by (intro Suc.IH vo [OF False]) (simp_all add: same_fs_geo [OF sf])
      qed
    qed auto
  qed
qed simp

lemma card_busy: "card (busy pvp v) \<le> vfs_maxcluster pvp - 1"
proof -
  have "card (busy pvp v) \<le> card {CLUST_FIRST..vfs_maxcluster pvp}"
    by (rule card_mono) (auto simp: busy_def)
  then show ?thesis by (simp add: CLUST_FIRST_def)
qed

section \<open>Sequences of cluster operations\<close>

text \<open>
  The operations on the clusters of a volume, with the set of clusters the files hold. A file gives
  clusters it holds: a single one, or a whole chain of them; it may relink a cluster it holds.
\<close>

inductive fs_step :: "'d bio \<Rightarrow> ('d \<Rightarrow> nat \<Rightarrow> u8 list) \<Rightarrow> 'd \<times> dosfs_vfs \<times> nat set \<Rightarrow> 'd \<times> dosfs_vfs \<times> nat set \<Rightarrow> bool" for io view where
  fs_alloc: "clusteralloc io pvp d w = Some (d', pvp', 0, Some c) \<Longrightarrow> fat_norm pvp w \<noteq> 0 \<Longrightarrow>
     fs_step io view (d, pvp, A) (d', pvp', insert c A)"
| fs_link: "c \<in> A \<Longrightarrow> fatentry io FAT_SET pvp d c False w = Some (d', pvp', 0, old) \<Longrightarrow> fat_norm pvp w \<noteq> 0 \<Longrightarrow>
     fs_step io view (d, pvp, A) (d', pvp', A)"
| fs_free: "c \<in> A \<Longrightarrow> clusterfree io pvp d c = Some (d', pvp', 0) \<Longrightarrow>
     fs_step io view (d, pvp, A) (d', pvp', A - {c})"
| fs_chain: "set xs \<subseteq> A \<Longrightarrow> chain (fat_at pvp (view d)) (vfs_maxcluster pvp) c xs \<Longrightarrow> length xs < fuel \<Longrightarrow>
     freeclusterchain io fuel pvp d c = Some (d', pvp', 0) \<Longrightarrow>
     fs_step io view (d, pvp, A) (d', pvp', A - set xs)"

inductive fs_reach :: "'d bio \<Rightarrow> ('d \<Rightarrow> nat \<Rightarrow> u8 list) \<Rightarrow> 'd \<times> dosfs_vfs \<times> nat set
    \<Rightarrow> 'd \<times> dosfs_vfs \<times> nat set \<Rightarrow> bool" for io view s where
  reach_start: "fs_reach io view s s"
| reach_step: "fs_reach io view s t \<Longrightarrow> fs_step io view t u \<Longrightarrow> fs_reach io view s u"

text \<open>What every sequence of operations keeps: clusters are either held by a file or free.\<close>

definition fs_inv :: "('d \<Rightarrow> nat \<Rightarrow> u8 list) \<Rightarrow> ('d \<Rightarrow> nat set) \<Rightarrow> 'd \<times> dosfs_vfs \<times> nat set \<Rightarrow> bool" where
  "fs_inv view held s \<longleftrightarrow> (case s of (d, pvp, A) \<Rightarrow>
     vol_ok pvp (view d) \<and> fatblks pvp \<inter> held d = {} \<and> A = busy pvp (view d))"

lemma busy_iff: "c \<in> busy pvp v \<longleftrightarrow> CLUST_FIRST \<le> c \<and> c \<le> vfs_maxcluster pvp \<and> c \<notin> free_set pvp v"
  by (auto simp: busy_def)

lemma fs_step_inv:
  assumes ok: "bio_ok io view held" and st: "fs_step io view s t" and inv: "fs_inv view held s"
  shows "fs_inv view held t"
  using st inv
proof cases
  case (fs_alloc pvp d w d' pvp' c A)
  from inv have v: "vol_ok pvp (view d)" "fatblks pvp \<inter> held d = {}" "A = busy pvp (view d)"
    unfolding fs_alloc(1) fs_inv_def by simp_all
  show ?thesis
  proof (cases rule: clusteralloc_cases [OF ok v(1,2) fs_alloc(4), case_names full taken failed])
    case full
    then show ?thesis using fs_alloc(3) by simp
  next
    case (taken e q k)
    then have eq: "e = d'" "q = pvp'" "k = c" using fs_alloc(3) by simp_all
    note t = taken [unfolded eq]
    have "c \<in> free_set pvp (view d)" by (rule t(4))
    then have "insert c A = busy pvp' (view d')"
      unfolding v(3) busy_def t(9) same_fs_geo [OF t(6)] by (auto simp: free_set_def)
    then show ?thesis unfolding fs_alloc(2) fs_inv_def using t v(2) by (simp add: same_fs_geo [OF t(6)])
  next
    case (failed e err)
    then show ?thesis using fs_alloc(3) by simp
  qed
next
  case (fs_link c A pvp d w d' pvp' old)
  from inv have v: "vol_ok pvp (view d)" "fatblks pvp \<inter> held d = {}" "A = busy pvp (view d)"
    unfolding fs_link(1) fs_inv_def by simp_all
  have c: "CLUST_FIRST \<le> c" "c \<le> vfs_maxcluster pvp" "c \<notin> free_set pvp (view d)"
    using fs_link(3) v(3) by (simp_all add: busy_iff)
  have g: "FAT_SET AND FAT_GET \<noteq> 0 \<longrightarrow> False" using set_flags(2) by simp
  show ?thesis
  proof (cases rule: fatentry_cases [OF ok v(1,2) c(1,2) set_flags(1) g, where w = w, case_names stored failed])
    case (stored e)
    then have eq: "e = d'" "pvp' = pvp\<lparr>vfs_fmod := vfs_fmod pvp + 1\<rparr>" using fs_link(4) by simp_all
    have sf: "same_fs pvp pvp'" by (simp add: eq(2))
    have "vol_ok pvp' (view d') \<and> free_set pvp' (view d') = free_set pvp (view d)"
      unfolding eq(2) by (rule vol_ok_link [OF v(1) stored(3) [unfolded eq(1)] fs_link(5) c])
    then show ?thesis unfolding fs_link(2) fs_inv_def
      using v stored(2) eq(1) by (simp add: same_fs_geo [OF sf] busy_def)
  next
    case (failed e err)
    then show ?thesis using fs_link(4) by simp
  qed
next
  case (fs_free c A pvp d d' pvp')
  from inv have v: "vol_ok pvp (view d)" "fatblks pvp \<inter> held d = {}" "A = busy pvp (view d)"
    unfolding fs_free(1) fs_inv_def by simp_all
  have c: "CLUST_FIRST \<le> c" "c \<le> vfs_maxcluster pvp" "c \<notin> free_set pvp (view d)"
    using fs_free(3) v(3) by (simp_all add: busy_iff)
  show ?thesis
  proof (cases rule: clusterfree_cases [OF ok v(1,2) c, case_names freed failed])
    case (freed e q)
    then have eq: "e = d'" "q = pvp'" using fs_free(4) by simp_all
    note t = freed [unfolded eq]
    have "A - {c} = busy pvp' (view d')" unfolding v(3) busy_def t(6) same_fs_geo [OF t(3)] by auto
    then show ?thesis unfolding fs_free(2) fs_inv_def using t v(2) by (simp add: same_fs_geo [OF t(3)])
  next
    case (failed e err)
    then show ?thesis using fs_free(4) by simp
  qed
next
  case (fs_chain xs A pvp d c fuel d' pvp')
  from inv have v: "vol_ok pvp (view d)" "fatblks pvp \<inter> held d = {}" "A = busy pvp (view d)"
    unfolding fs_chain(1) fs_inv_def by simp_all
  have dis: "set xs \<inter> free_set pvp (view d) = {}" using fs_chain(3) v(3) by (auto simp: busy_iff)
  obtain e q err ys zs where r: "freeclusterchain io fuel pvp d c = Some (e, q, err)" "xs = ys @ zs"
      "err = 0 \<longrightarrow> zs = [] \<and> held e = held d" "same_fs pvp q" "vol_ok q (view e)"
      "free_set q (view e) = free_set pvp (view d) \<union> set ys"
    using freechain_ok [OF ok v(1,2) fs_chain(4) dis fs_chain(5)] by (elim exE conjE) (rule that)
  have eq: "e = d'" "q = pvp'" "err = 0" using r(1) fs_chain(6) by simp_all
  have ys: "xs = ys" using r(2,3) eq(3) by simp
  have "A - set xs = busy pvp' (view d')"
    unfolding v(3) busy_def using r(4,6) eq ys by (auto simp: same_fs_geo)
  moreover have "fatblks pvp' \<inter> held d' = {}"
    using v(2) r(3) eq same_fs_geo(2) [OF r(4)] by simp
  ultimately show ?thesis unfolding fs_chain(2) fs_inv_def using r(5) eq by simp
qed

lemma fs_reach_inv:
  assumes "bio_ok io view held" and "fs_reach io view s t" and "fs_inv view held s"
  shows "fs_inv view held t"
  using assms(2,3) by induction (auto intro: fs_step_inv [OF assms(1)])

end
