(* ===== verification/FatWalk.thy ===== *)
theory FatWalk
  imports FatAlloc
begin

text \<open>
  Reading the table entry by entry with one block in hand: the scan that fills the map of clusters in
  use, and the walk of \<open>pcbmap\<close> along a file, with the two-slot cache of the file.
\<close>

section \<open>One block in hand\<close>

text \<open>An error number that some buffer reports.\<close>

definition dev_err :: "'d bio \<Rightarrow> nat \<Rightarrow> bool" where
  "dev_err io e \<longleftrightarrow> e \<noteq> 0 \<and> (\<exists>lb. e = lgeterror io lb)"

lemma dev_errI [simp]: "lgeterror io lb \<noteq> 0 \<Longrightarrow> dev_err io (lgeterror io lb)"
  by (auto simp: dev_err_def)

lemma dev_err_pos [dest]: "dev_err io e \<Longrightarrow> e \<noteq> 0"
  by (simp add: dev_err_def)

lemma no_dev_err: "\<forall>lb. lgeterror io lb = 0 \<Longrightarrow> \<not> dev_err io e"
  by (auto simp: dev_err_def)

definition in_hand :: "('d \<Rightarrow> nat \<Rightarrow> u8 list) \<Rightarrow> ('d \<Rightarrow> nat set) \<Rightarrow> nat set \<Rightarrow> (nat \<Rightarrow> u8 list)
    \<Rightarrow> 'd \<Rightarrow> lbuf option \<Rightarrow> nat \<Rightarrow> bool" where
  "in_hand view held H v d bp bn \<longleftrightarrow> view d = v \<and> (case bp of
     None \<Rightarrow> held d = H \<and> bn = 2 ^ 32 - 1
   | Some lb \<Rightarrow> lbuf_at lb bn 1 \<and> lb_addr lb = v bn \<and> held d = insert bn H \<and> bn \<notin> H)"

lemma rel_opt_ok:
  assumes ok: "bio_ok io view held" and h: "in_hand view held H v d bp bn"
  shows "view (rel_opt io bp d) = v \<and> held (rel_opt io bp d) = H"
proof (cases bp)
  case None
  then show ?thesis using h by (simp add: in_hand_def rel_opt_def)
next
  case (Some lb)
  then show ?thesis using h lbrelse1_ok [OF ok, of lb bn d] by (auto simp: in_hand_def rel_opt_def)
qed

lemma fat_load_ok:
  assumes ok: "bio_ok io view held" and bs: "vfs_BytesPerSec pvp = 512" and h: "in_hand view held H v d bp bn0"
    and bn: "bn \<notin> H" "bn \<noteq> 2 ^ 32 - 1"
  shows "(\<exists>d' e. fat_load io pvp d bp bn0 bn = Some (Inl (d', e)) \<and> dev_err io e \<and> view d' = v \<and> held d' = H)
    \<or> (\<exists>d' lb. fat_load io pvp d bp bn0 bn = Some (Inr (d', lb)) \<and> in_hand view held H v d' (Some lb) bn)"
proof (cases "bn = bn0")
  case True
  then obtain lb where "bp = Some lb" using h bn(2) by (cases bp) (auto simp: in_hand_def)
  then show ?thesis using True h by (simp add: fat_load_def)
next
  case False
  define d1 where "d1 = rel_opt io bp d"
  have d1: "view d1 = v" "held d1 = H" using rel_opt_ok [OF ok h] by (simp_all add: d1_def)
  have nh: "bn \<notin> held d1" using bn(1) d1(2) by simp
  obtain d2 lb where r: "fat_bread io pvp d1 bn = Some (d2, lb)" "view d2 = view d1"
      "held d2 = insert bn (held d1)" "lbuf_at lb bn 1" "lgeterror io lb = 0 \<longrightarrow> lb_addr lb = view d1 bn"
    using fat_bread_ok [OF ok bs nh] by (elim exE conjE) (rule that)
  show ?thesis
  proof (cases "lgeterror io lb = 0")
    case True
    then have "in_hand view held H v d2 (Some lb) bn" using r d1 bn(1) by (simp add: in_hand_def)
    then show ?thesis using r(1) True False by (simp add: fat_load_def Let_def flip: d1_def)
  next
    case e: False
    have "view (lbrelse io d2 lb) = v \<and> held (lbrelse io d2 lb) = H"
      using lbrelse1_ok [OF ok r(4), of d2] r(2,3) d1 bn(1) by auto
    then show ?thesis using r(1) e False by (simp add: fat_load_def Let_def flip: d1_def)
  qed
qed

text \<open>The two raw bytes of an entry.\<close>

definition raw_word :: "dosfs_vfs \<Rightarrow> (nat \<Rightarrow> u8 list) \<Rightarrow> nat \<Rightarrow> u16" where
  "raw_word pvp v off = tw_word (fatb pvp v off) (fatb pvp v (off + 1))"

lemma fat_at_raw: "fat_at pvp v c = (if FAT12 pvp then unat (widen12 (tw_get12 (odd c) (raw_word pvp v (off12 c))))
    else unat (raw_word pvp v (2 * c)))"
  by (simp add: fat_at_def fat12.entry_def fat16.entry_def get12_def get16_def raw_word_def)

lemma unat_zero: "unat (w :: 'a :: len word) = 0 \<longleftrightarrow> w = 0"
  by (simp add: unat_eq_0)

lemma hand_bytes:
  assumes h: "in_hand view held H v d (Some lb) (vfs_fatblk pvp + off div 512)"
    and len: "\<And>b. length (v b) = 512"
  shows "lb_get lb (off mod 512) = Some (fatb pvp v off)"
    and "off mod 512 < 511 \<Longrightarrow> lb_get lb (off mod 512 + 1) = Some (fatb pvp v (off + 1))"
proof -
  have a: "lb_addr lb = v (vfs_fatblk pvp + off div 512)" using h by (simp add: in_hand_def)
  show "lb_get lb (off mod 512) = Some (fatb pvp v off)" by (simp add: lb_get_def a len fatb_def)
  assume r: "off mod 512 < 511"
  show "lb_get lb (off mod 512 + 1) = Some (fatb pvp v (off + 1))"
    using r by (simp only: lb_get_def a len fatb_def next_in_block [OF r] next_block(1) [OF r]) simp
qed

text \<open>The block of an entry and the next one are free to be read.\<close>

lemma entry_block_free:
  assumes m: "mount_ok pvp" and c: "c \<le> vfs_maxcluster pvp" and fr: "fatblks pvp \<inter> H = {}"
  shows "fat_blk pvp c \<notin> H \<and> fat_blk pvp c \<noteq> 2 ^ 32 - 1"
    and "fat_off pvp c mod 512 = 511 \<Longrightarrow> fat_blk pvp c + 1 \<notin> H"
proof -
  have "fat_blk pvp c < 2 ^ 32 - 1"
  proof -
    have "fat_blk pvp c < vfs_fatblk pvp + vfs_FATs pvp * vfs_FATsecs pvp"
      using fat_blk_in(1) [OF m c] by (simp add: fatblks_def)
    also have "\<dots> \<le> 2 ^ 32 - 1" using m by (simp add: mount_ok_def)
    finally show ?thesis .
  qed
  then show "fat_blk pvp c \<notin> H \<and> fat_blk pvp c \<noteq> 2 ^ 32 - 1" using fat_blk_in(1) [OF m c] fr by auto
  show "fat_off pvp c mod 512 = 511 \<Longrightarrow> fat_blk pvp c + 1 \<notin> H" using fat_blk_in(2) [OF m c] fr by auto
qed

section \<open>One entry of the scan and one of the walk\<close>

lemma second_block:
  assumes ok: "bio_ok io view held" and bs: "vfs_BytesPerSec pvp = 512"
    and h: "in_hand view held H v d (Some lb) bn" and nb: "bn + 1 \<notin> H"
  obtains (err) d1 lb1 where "fat_bread io pvp d (bn + 1) = Some (d1, lb1)" and "lgeterror io lb1 \<noteq> 0"
      and "view (lbrelse io (lbrelse io d1 lb) lb1) = v" and "held (lbrelse io (lbrelse io d1 lb) lb1) = H"
  | (good) d1 lb1 where "fat_bread io pvp d (bn + 1) = Some (d1, lb1)" and "lgeterror io lb1 = 0"
      and "lb_addr lb1 = v (bn + 1)"
      and "in_hand view held H v (lbrelse io d1 lb1) (Some lb) bn"
      and "in_hand view held H v (lbrelse io d1 lb) (Some lb1) (bn + 1)"
proof -
  have hh: "view d = v" "held d = insert bn H" "bn \<notin> H" "lbuf_at lb bn 1" "lb_addr lb = v bn"
    using h by (simp_all add: in_hand_def)
  have nh: "bn + 1 \<notin> held d" using hh nb by simp
  obtain d1 lb1 where r: "fat_bread io pvp d (bn + 1) = Some (d1, lb1)" "view d1 = view d"
      "held d1 = insert (bn + 1) (held d)" "lbuf_at lb1 (bn + 1) 1" "lgeterror io lb1 = 0 \<longrightarrow> lb_addr lb1 = view d (bn + 1)"
    using fat_bread_ok [OF ok bs nh] by (elim exE conjE) (rule that)
  have a: "view (lbrelse io d1 lb) = v" "held (lbrelse io d1 lb) = insert (bn + 1) H"
    using lbrelse1_ok [OF ok hh(4), of d1] r hh by auto
  have b: "view (lbrelse io d1 lb1) = v" "held (lbrelse io d1 lb1) = insert bn H"
    using lbrelse1_ok [OF ok r(4), of d1] r hh nb by auto
  have c: "view (lbrelse io (lbrelse io d1 lb) lb1) = v" "held (lbrelse io (lbrelse io d1 lb) lb1) = H"
    using lbrelse1_ok [OF ok r(4), of "lbrelse io d1 lb"] a nb by auto
  show thesis
  proof (cases "lgeterror io lb1 = 0")
    case True
    then show ?thesis using r hh a b nb by (intro good [of d1 lb1]) (simp_all add: in_hand_def)
  next
    case False
    then show ?thesis using r c by (intro err [of d1 lb1])
  qed
qed

lemma entry_arith:
  fixes c :: nat
  assumes "mount_ok pvp"
  shows "drop_bit (vfs_bnshift pvp) (if FAT12 pvp then c + c div 2 else c * 2) + vfs_fatblk pvp = fat_blk pvp c"
    and "(if FAT12 pvp then c + c div 2 else c * 2) AND vfs_brbomask pvp = fat_off pvp c mod 512"
    and "vfs_BytesPerSec pvp - 1 = 511"
  using assms
  by (simp_all add: mount_ok_def fat_blk_def fat_off_def off12_def and_511 drop_bit_eq_div mult.commute)

lemma off16_mod: "2 * c mod 512 \<noteq> (511 :: nat)" "2 * c mod 512 < (511::nat)"
proof -
  have "even (2 * c mod 512)" by (simp add: dvd_mod)
  then show ne: "2 * c mod 512 \<noteq> 511" by (intro notI) simp
  show "2 * c mod 512 < 511" using ne mod_less_divisor [of 512 "2 * c"] by linarith
qed

lemma in_one_block: "\<not> (FAT12 pvp \<and> fat_off pvp c mod 512 = 511) \<Longrightarrow> fat_off pvp c mod 512 < 511"
proof -
  assume a: "\<not> (FAT12 pvp \<and> fat_off pvp c mod 512 = 511)"
  have l: "fat_off pvp c mod 512 < 512" by simp
  have "fat_off pvp c mod 512 \<noteq> 511"
  proof (cases "FAT12 pvp")
    case False
    then show ?thesis using off16_mod(1) [of c] by (simp add: fat_off_def)
  qed (use a in simp)
  with l show ?thesis by linarith
qed

lemma fill_word_ok:
  assumes ok: "bio_ok io view held" and m: "mount_ok pvp" and c: "c \<le> vfs_maxcluster pvp"
    and fr: "fatblks pvp \<inter> H = {}" and h: "in_hand view held H v d bp bn0"
  shows "(\<exists>d' e. fill_word io pvp d bp bn0 c = Some (Inl (d', e)) \<and> dev_err io e \<and> view d' = v \<and> held d' = H)
    \<or> (\<exists>d' lb blk w. fill_word io pvp d bp bn0 c = Some (Inr (d', lb, blk, w))
        \<and> in_hand view held H v d' (Some lb) blk \<and> (w = 0) = (fat_at pvp v c = 0))"
proof -
  have bs: "vfs_BytesPerSec pvp = 512" using m by (simp add: mount_ok_def)
  have len: "\<And>b. length (v b) = 512" using ok h by (auto simp: bio_ok_def in_hand_def DEV_BSIZE_def)
  note ar = entry_arith(1,2) [OF m, of c] entry_arith(3) [OF m]
  note nb = entry_block_free [OF m c fr]
  let ?o = "fat_off pvp c" and ?b = "fat_blk pvp c"
  have bo: "?b = vfs_fatblk pvp + ?o div 512" by (simp add: fat_blk_def)
  from fat_load_ok [OF ok bs h nb(1) [THEN conjunct1] nb(1) [THEN conjunct2]] show ?thesis
  proof (elim disjE exE conjE)
    fix d' e assume "fat_load io pvp d bp bn0 ?b = Some (Inl (d', e))" "dev_err io e" "view d' = v" "held d' = H"
    then show ?thesis by (simp add: fill_word_def ar Let_def)
  next
    fix d1 lb assume l: "fat_load io pvp d bp bn0 ?b = Some (Inr (d1, lb))"
      and h1: "in_hand view held H v d1 (Some lb) ?b"
    note hb = hand_bytes [OF h1 [unfolded bo] len]
    show ?thesis
    proof (cases "FAT12 pvp \<and> ?o mod 512 = 511")
      case False
      then have r: "?o mod 512 < 511"
        by (rule in_one_block)
      have w: "(if FAT12 pvp then tw_get12 (odd c) (raw_word pvp v ?o) else raw_word pvp v ?o) = 0
          \<longleftrightarrow> fat_at pvp v c = 0"
        by (simp add: fat_at_raw fat_off_def unat_zero widen12_0)
      have "fill_word io pvp d bp bn0 c = Some (Inr (d1, lb, ?b,
          if FAT12 pvp then tw_get12 (odd c) (raw_word pvp v ?o) else raw_word pvp v ?o))"
        unfolding fill_word_def Let_def ar l using False hb(1) hb(2) [OF r] by (simp add: raw_word_def)
      then show ?thesis using h1 w by (intro disjI2 exI conjI)
    next
      case True
      then have F: "FAT12 pvp" and r: "?o mod 512 = 511" by simp_all
      have n1: "fatb pvp v (?o + 1) = v (?b + 1) ! 0"
        using next_block(2) [OF r] by (simp add: fatb_def bo)
      show ?thesis
      proof (rule second_block [OF ok bs h1 nb(2) [OF r]])
        fix d2 lb2 assume "fat_bread io pvp d1 (?b + 1) = Some (d2, lb2)" "lgeterror io lb2 \<noteq> 0"
          "view (lbrelse io (lbrelse io d2 lb) lb2) = v" "held (lbrelse io (lbrelse io d2 lb) lb2) = H"
        then show ?thesis unfolding fill_word_def Let_def ar l using True hb(1) by simp
      next
        fix d2 lb2 assume q: "fat_bread io pvp d1 (?b + 1) = Some (d2, lb2)" "lgeterror io lb2 = 0"
          "lb_addr lb2 = v (?b + 1)" "in_hand view held H v (lbrelse io d2 lb) (Some lb2) (?b + 1)"
        have g: "lb_get lb2 0 = Some (fatb pvp v (?o + 1))" unfolding n1 by (simp add: lb_get_def q(3) len)
        have "fill_word io pvp d bp bn0 c
            = Some (Inr (lbrelse io d2 lb, lb2, ?b + 1, tw_get12 (odd c) (raw_word pvp v ?o)))"
          unfolding fill_word_def Let_def ar l using True hb(1) q(1,2) g by (simp add: raw_word_def)
        moreover have "(tw_get12 (odd c) (raw_word pvp v ?o) = 0) = (fat_at pvp v c = 0)"
          using F by (simp add: fat_at_raw fat_off_def unat_zero widen12_0)
        ultimately show ?thesis using q(4) by (intro disjI2 exI conjI)
      qed
    qed
  qed
qed

lemma pcb_next_ok:
  assumes ok: "bio_ok io view held" and m: "mount_ok pvp" and c: "c \<le> vfs_maxcluster pvp"
    and fr: "fatblks pvp \<inter> H = {}" and h: "in_hand view held H v d bp bn0"
  shows "(\<exists>d' e. pcb_next io pvp d bp bn0 c = Some (Inl (d', e)) \<and> dev_err io e \<and> view d' = v \<and> held d' = H)
    \<or> (\<exists>d' lb blk. pcb_next io pvp d bp bn0 c = Some (Inr (d', lb, blk, fat_at pvp v c))
        \<and> in_hand view held H v d' (Some lb) blk)"
proof -
  have bs: "vfs_BytesPerSec pvp = 512" using m by (simp add: mount_ok_def)
  have len: "\<And>b. length (v b) = 512" using ok h by (auto simp: bio_ok_def in_hand_def DEV_BSIZE_def)
  note ar = entry_arith(1,2) [OF m, of c] entry_arith(3) [OF m]
  note nb = entry_block_free [OF m c fr]
  let ?o = "fat_off pvp c" and ?b = "fat_blk pvp c"
  have bo: "?b = vfs_fatblk pvp + ?o div 512" by (simp add: fat_blk_def)
  from fat_load_ok [OF ok bs h nb(1) [THEN conjunct1] nb(1) [THEN conjunct2]] show ?thesis
  proof (elim disjE exE conjE)
    fix d' e assume "fat_load io pvp d bp bn0 ?b = Some (Inl (d', e))" "dev_err io e" "view d' = v" "held d' = H"
    then show ?thesis by (simp add: pcb_next_def ar Let_def)
  next
    fix d1 lb assume l: "fat_load io pvp d bp bn0 ?b = Some (Inr (d1, lb))"
      and h1: "in_hand view held H v d1 (Some lb) ?b"
    note hb = hand_bytes [OF h1 [unfolded bo] len]
    show ?thesis
    proof (cases "FAT12 pvp \<and> ?o mod 512 = 511")
      case False
      then have r: "?o mod 512 < 511"
        by (rule in_one_block)
      have "pcb_next io pvp d bp bn0 c = Some (Inr (d1, lb, ?b, fat_at pvp v c))"
        unfolding pcb_next_def Let_def ar l using False hb(1) hb(2) [OF r]
        by (simp add: fat_at_raw raw_word_def fat_off_def)
      then show ?thesis using h1 by blast
    next
      case True
      then have F: "FAT12 pvp" and r: "?o mod 512 = 511" by simp_all
      have n1: "fatb pvp v (?o + 1) = v (?b + 1) ! 0"
        using next_block(2) [OF r] by (simp add: fatb_def bo)
      show ?thesis
      proof (rule second_block [OF ok bs h1 nb(2) [OF r]])
        fix d2 lb2 assume "fat_bread io pvp d1 (?b + 1) = Some (d2, lb2)" "lgeterror io lb2 \<noteq> 0"
          "view (lbrelse io (lbrelse io d2 lb) lb2) = v" "held (lbrelse io (lbrelse io d2 lb) lb2) = H"
        then show ?thesis unfolding pcb_next_def Let_def ar l using True hb(1) by simp
      next
        fix d2 lb2 assume q: "fat_bread io pvp d1 (?b + 1) = Some (d2, lb2)" "lgeterror io lb2 = 0"
          "lb_addr lb2 = v (?b + 1)" "in_hand view held H v (lbrelse io d2 lb2) (Some lb) ?b"
        have g: "lb_get lb2 0 = Some (fatb pvp v (?o + 1))" unfolding n1 by (simp add: lb_get_def q(3) len)
        have e: "unat (widen12 (tw_get12 (odd c) (tw_word (fatb pvp v ?o) (fatb pvp v (?o + 1))))) = fat_at pvp v c"
          using F by (simp add: fat_at_raw raw_word_def fat_off_def)
        have "pcb_next io pvp d bp bn0 c = Some (Inr (lbrelse io d2 lb2, lb, ?b, fat_at pvp v c))"
          unfolding pcb_next_def Let_def ar l e [symmetric] using True hb(1) q(1,2) g by simp
        then show ?thesis using q(4) by blast
      qed
    qed
  qed
qed

section \<open>The scan\<close>

text \<open>What the scan of the clusters \<open>cns\<close> adds to the mount structure.\<close>

definition fill_result :: "(nat \<Rightarrow> nat) \<Rightarrow> nat list \<Rightarrow> dosfs_vfs \<Rightarrow> dosfs_vfs" where
  "fill_result e cns pvp = (let fs = filter (\<lambda>c. e c = 0) cns in
     pvp\<lparr>vfs_freeclustercount := vfs_freeclustercount pvp + int (length fs),
         vfs_inusemap := fold (\<lambda>c m. inuse_clr m c) fs (vfs_inusemap pvp),
         vfs_lookhere := (if vfs_lookhere pvp < 0 then (case fs of [] \<Rightarrow> vfs_lookhere pvp | c # _ \<Rightarrow> int c)
                          else vfs_lookhere pvp)\<rparr>)"

lemma fill_result_Nil: "fill_result e [] pvp = pvp"
  by (simp add: fill_result_def Let_def)

lemma fill_result_Cons: "fill_result e (c # cns) pvp = fill_result e cns
    (if e c = 0 then pvp\<lparr>vfs_freeclustercount := vfs_freeclustercount pvp + 1,
                vfs_inusemap := inuse_clr (vfs_inusemap pvp) c,
                vfs_lookhere := (if vfs_lookhere pvp < 0 then int c else vfs_lookhere pvp)\<rparr>
     else pvp)"
  by (cases pvp) (auto simp: fill_result_def Let_def split: list.splits)

lemma fill_same: "same_fs p (fill_result e cns q) = same_fs p q"
  by (simp add: fill_result_def Let_def)

lemma fold_clr_length: "length (fold (\<lambda>c m. inuse_clr m c) fs m) = length m"
  by (induction fs arbitrary: m) auto

lemma fill_loop_ok:
  assumes ok: "bio_ok io view held"
  shows "mount_ok pvp \<Longrightarrow> fatblks pvp \<inter> H = {} \<Longrightarrow> in_hand view held H v d bp bn0
    \<Longrightarrow> set cns \<subseteq> {..vfs_maxcluster pvp} \<Longrightarrow> bp \<noteq> None \<or> cns \<noteq> []
    \<Longrightarrow> \<exists>d' q e. fill_loop io cns pvp d bp bn0 = Some (d', q, e) \<and> view d' = v \<and> held d' = H
      \<and> same_fs pvp q \<and> (e = 0 \<longrightarrow> q = fill_result (fat_at pvp v) cns pvp) \<and> (e \<noteq> 0 \<longrightarrow> dev_err io e)"
proof (induction cns arbitrary: pvp d bp bn0)
  case Nil
  then obtain lb where bp: "bp = Some lb" by auto
  have "view (lbrelse io d lb) = v \<and> held (lbrelse io d lb) = H"
    using rel_opt_ok [OF ok Nil.prems(3)] by (simp add: bp rel_opt_def)
  then show ?case by (simp add: bp fill_result_Nil)
next
  case (Cons c cns)
  have c: "c \<le> vfs_maxcluster pvp" using Cons.prems(4) by simp
  from fill_word_ok [OF ok Cons.prems(1) c Cons.prems(2,3)] show ?case
  proof (elim disjE exE conjE)
    fix d' e assume "fill_word io pvp d bp bn0 c = Some (Inl (d', e))" "dev_err io e" "view d' = v" "held d' = H"
    then show ?thesis by auto
  next
    fix d1 lb blk w assume r: "fill_word io pvp d bp bn0 c = Some (Inr (d1, lb, blk, w))"
      and h: "in_hand view held H v d1 (Some lb) blk" and w: "(w = 0) = (fat_at pvp v c = 0)"
    define p where "p = (if w = 0 then pvp\<lparr>vfs_freeclustercount := vfs_freeclustercount pvp + 1,
                vfs_inusemap := inuse_clr (vfs_inusemap pvp) c,
                vfs_lookhere := (if vfs_lookhere pvp < 0 then int c else vfs_lookhere pvp)\<rparr>
             else pvp)"
    have sf: "same_fs pvp p" by (simp add: p_def)
    have m: "mount_ok p" by (rule same_fs_mount [OF sf _ Cons.prems(1)]) (simp add: p_def)
    note geo = same_fs_geo [OF sf]
    have ih: "\<exists>d' q e. fill_loop io cns p d1 (Some lb) blk = Some (d', q, e) \<and> view d' = v \<and> held d' = H
      \<and> same_fs p q \<and> (e = 0 \<longrightarrow> q = fill_result (fat_at p v) cns p) \<and> (e \<noteq> 0 \<longrightarrow> dev_err io e)"
      by (rule Cons.IH [OF m _ h]) (use Cons.prems in \<open>simp_all add: geo\<close>)
    have step: "fill_loop io (c # cns) pvp d bp bn0 = fill_loop io cns p d1 (Some lb) blk"
      unfolding p_def by (simp add: r)
    have fr: "fill_result (fat_at pvp v) (c # cns) pvp = fill_result (fat_at pvp v) cns p"
      unfolding fill_result_Cons p_def w ..
    show ?thesis
      using ih unfolding step fr geo
    proof (elim exE conjE, goal_cases)
      case (1 d' q e)
      show ?case by (intro exI conjI, rule 1(1)) (use 1 same_fs_trans [OF sf] in auto)
    qed
  qed
qed

lemma fillinusemap_ok:
  assumes ok: "bio_ok io view held" and m: "mount_ok pvp" and fr: "fatblks pvp \<inter> held d = {}"
    and two: "CLUST_FIRST \<le> vfs_maxcluster pvp"
  shows "\<exists>d' q e. fillinusemap io pvp d = Some (d', q, e) \<and> view d' = view d \<and> held d' = held d \<and> same_fs pvp q
    \<and> (e = 0 \<longrightarrow> mount_ok q \<and> map_ok q (view d)
        \<and> vfs_lookhere q = (if free_set pvp (view d) = {} then - 1 else int (Min (free_set pvp (view d)))))
    \<and> (e \<noteq> 0 \<longrightarrow> dev_err io e)"
proof -
  let ?n = "vfs_maxcluster pvp div 8 + 1" and ?v = "view d"
  let ?cns = "[CLUST_FIRST..<vfs_maxcluster pvp + 1]"
  define p where "p = pvp\<lparr>vfs_inusemap := replicate ?n 0xff @ drop ?n (vfs_inusemap pvp),
            vfs_freeclustercount := 0, vfs_lookhere := - 1\<rparr>"
  have l: "length (vfs_inusemap pvp) = ?n" using m by (simp add: mount_ok_def)
  have map: "vfs_inusemap p = replicate ?n 0xff" by (simp add: p_def l)
  have sf: "same_fs pvp p" by (simp add: p_def)
  have mp: "mount_ok p" by (rule same_fs_mount [OF sf _ m]) (simp add: map l del: replicate_Suc)
  note geo = same_fs_geo [OF sf]
  have h: "in_hand view held (held d) ?v d None (2 ^ 32 - 1)" by (simp add: in_hand_def)
  have run: "fillinusemap io pvp d = fill_loop io ?cns p d None (2 ^ 32 - 1)"
    by (simp add: fillinusemap_def p_def)
  obtain d' q e where r: "fill_loop io ?cns p d None (2 ^ 32 - 1) = Some (d', q, e)" "view d' = ?v" "held d' = held d"
      "same_fs p q" "e = 0 \<longrightarrow> q = fill_result (fat_at pvp ?v) ?cns p" "e \<noteq> 0 \<longrightarrow> dev_err io e"
  proof -
    have "fatblks p \<inter> held d = {}" "set ?cns \<subseteq> {..vfs_maxcluster p}" "None \<noteq> None \<or> ?cns \<noteq> []"
      using fr two by (auto simp: geo)
    from fill_loop_ok [OF ok mp this(1) h this(2,3)] show thesis
      unfolding geo by (elim exE conjE) (rule that)
  qed
  have fin: "mount_ok q \<and> map_ok q ?v
        \<and> vfs_lookhere q = (if free_set pvp ?v = {} then - 1 else int (Min (free_set pvp ?v)))" if e: "e = 0"
  proof -
    define fs where "fs = filter (\<lambda>c. fat_at pvp ?v c = 0) ?cns"
    have fs: "set fs = free_set pvp ?v" "sorted fs" "distinct fs"
      by (auto simp: fs_def free_set_def intro!: sorted_wrt_filter simp del: upt_Suc)
    have q: "vfs_freeclustercount q = int (length fs)" "vfs_inusemap q = fold (\<lambda>c m. inuse_clr m c) fs (replicate ?n 0xff)"
        "vfs_lookhere q = (case fs of [] \<Rightarrow> - 1 | c # _ \<Rightarrow> int c)"
      using r(5) e by (simp_all add: fill_result_def Let_def geo map fs_def p_def l del: replicate_Suc split: list.splits)
    have cap: "inuse_cap (replicate ?n 0xff) = 8 * ?n" by (simp add: inuse_cap_def)
    have full: "inuse.used (replicate ?n 0xff) = {..<8 * ?n}"
    proof -
      have "inuse_tst (replicate ?n 0xff) c" if "c < 8 * ?n" for c
      proof -
        have "c div 8 < ?n" using that by (simp add: less_mult_imp_div_less mult.commute)
        moreover have "bit (0xff :: u8) (c mod 8)" using iffD1 [OF full_byte refl] by simp
        ultimately show ?thesis by (simp only: inuse_tst_bit nth_replicate)
      qed
      then show ?thesis unfolding inuse.used_def cap by auto
    qed
    have sub: "\<forall>c\<in>set fs. c < inuse_cap (replicate ?n 0xff)"
      using free_set_cap [OF mp] unfolding fs(1) map geo by (auto simp: free_set_def)
    note fc = inuse.fold_cl [OF sub]
    have used: "inuse.used (vfs_inusemap q) = {..<inuse_cap (vfs_inusemap q)} - free_set q ?v"
      unfolding q(2) conjunct1 [OF fc] conjunct2 [OF fc] full cap fs(1)
      by (simp add: free_set_geo [OF same_fs_trans [OF sf r(4)]])
    have "length fs = card (free_set q ?v)"
      using distinct_card [OF fs(3)] fs(1) free_set_geo [OF same_fs_trans [OF sf r(4)]] by simp
    then have mo: "map_ok q ?v" using used q(1) by (simp add: map_ok_def)
    have mq: "mount_ok q" by (rule same_fs_mount [OF r(4) _ mp]) (simp add: q(2) map fold_clr_length del: replicate_Suc)
    have "vfs_lookhere q = (if free_set pvp ?v = {} then - 1 else int (Min (free_set pvp ?v)))"
    proof (cases fs)
      case Nil
      then show ?thesis using q(3) fs(1) by simp
    next
      case (Cons c cs)
      have "Min (set (c # cs)) = c" using fs(2) Cons by (intro Min_eqI) auto
      then show ?thesis using q(3) Cons fs(1) by auto
    qed
    with mo mq show ?thesis by blast
  qed
  show ?thesis
    unfolding run by (intro exI conjI, rule r(1)) (use r fin same_fs_trans [OF sf] in auto)
qed

end
