(* ===== verification/FatFile.thy ===== *)
theory FatFile
  imports FatWalk
begin

text \<open>
  A file as its list of clusters: the two-slot cache holds true facts about the list, \<open>pcbmap\<close> finds the
  cluster of every position of it, and \<open>extendfile\<close> appends to it.
\<close>

section \<open>The clusters of a file\<close>

definition file_at :: "dosfs_vfs \<Rightarrow> (nat \<Rightarrow> u8 list) \<Rightarrow> nat \<Rightarrow> nat list \<Rightarrow> bool" where
  "file_at pvp v s xs \<longleftrightarrow> xs \<noteq> [] \<and> chain (fat_at pvp v) (vfs_maxcluster pvp) s xs
     \<and> DOSFSEOF (fat_at pvp v (last xs)) \<and> length xs < 0xffff"

text \<open>A cache slot in use holds a position of the list, the last-cluster slot the last position.\<close>

definition fc_ok :: "denode \<Rightarrow> nat list \<Rightarrow> bool" where
  "fc_ok dep xs \<longleftrightarrow> length (de_fc dep) = FC_SIZE
     \<and> (\<forall>fc \<in> set (de_fc dep). fc_frcn fc \<noteq> FCE_EMPTY \<longrightarrow> fc_frcn fc < length xs \<and> fc_fsrcn fc = xs ! fc_frcn fc)
     \<and> (fc_frcn (de_fc dep ! FC_LASTFC) \<noteq> FCE_EMPTY \<longrightarrow> Suc (fc_frcn (de_fc dep ! FC_LASTFC)) = length xs)"

lemma chain_nth:
  assumes "chain e mx s xs" and "i < length xs"
  shows "xs ! i \<le> mx" and "CLUST_FIRST \<le> xs ! i" and "i = 0 \<Longrightarrow> xs ! i = s"
    and "Suc i < length xs \<Longrightarrow> xs ! Suc i = e (xs ! i)"
proof -
  have "xs ! i \<in> set xs" using assms(2) by simp
  then show "xs ! i \<le> mx" "CLUST_FIRST \<le> xs ! i" using chain_range [OF assms(1)] by auto
  show "i = 0 \<Longrightarrow> xs ! i = s" using assms by (cases xs) auto
  show "Suc i < length xs \<Longrightarrow> xs ! Suc i = e (xs ! i)"
    using assms
  proof (induction xs arbitrary: s i)
    case (Cons x xs)
    then have c: "chain e mx (e x) xs" by (metis chain.simps(2))
    show ?case
    proof (cases i)
      case 0
      then show ?thesis using c Cons.prems(1) by (cases xs) auto
    next
      case (Suc j)
      then show ?thesis using Cons.IH [OF _ c, of j] Cons.prems by simp
    qed
  qed simp
qed

lemma not_eof:
  assumes "mount_ok pvp" and "c \<le> vfs_maxcluster pvp"
  shows "\<not> DOSFSEOF c"
proof -
  have "c < 65520" using assms by (simp add: mount_ok_def)
  then show ?thesis using DOSFSEOF_16 [of c] by simp
qed

section \<open>The cache\<close>

lemma two_slots:
  assumes "length fcs = FC_SIZE"
  shows "\<exists>a b. fcs = [a, b]"
proof -
  have "length fcs = Suc (Suc 0)" using assms by (simp add: FC_SIZE_def)
  then show ?thesis by (auto simp: length_Suc_conv)
qed

lemma fc_lookup_ok:
  assumes ok: "fc_ok dep xs" and ne: "xs \<noteq> []" and s: "xs ! 0 = s"
    and r: "fc_lookup dep f (0, s) = (i, cn)"
  shows "i \<le> f \<and> i < length xs \<and> cn = xs ! i
    \<and> (\<forall>fc \<in> set (de_fc dep). fc_frcn fc \<noteq> FCE_EMPTY \<and> fc_frcn fc \<le> f \<longrightarrow> fc_frcn fc \<le> i)"
proof -
  obtain a b where ab: "de_fc dep = [a, b]" using two_slots ok unfolding fc_ok_def by blast
  have m: "map (\<lambda>i. de_fc dep ! i) [0..<FC_SIZE] = [a, b]"
    by (simp add: ab FC_SIZE_def numeral_2_eq_2)
  show ?thesis
    using ok r ne s unfolding fc_lookup_def m fc_ok_def
    by (auto simp: ab fc_closer_def split: if_splits)
qed

lemma fc_set_last:
  assumes ok: "fc_ok dep xs" and "xs \<noteq> []" and "length xs < 0xffff" and "last xs < 65536"
  shows "fc_ok (fc_setcache dep FC_LASTFC (length xs - 1) (last xs)) xs"
proof -
  obtain a b where ab: "de_fc dep = [a, b]" using two_slots ok unfolding fc_ok_def by blast
  have "length xs - 1 < length xs" "(length xs - 1) mod 65536 = length xs - 1" "last xs mod 65536 = last xs"
    using assms(2-4) by auto
  then show ?thesis
    using ok assms(2,3) by (simp add: fc_ok_def fc_setcache_def ab FC_LASTFC_def FC_SIZE_def last_conv_nth)
qed

lemma fc_set_map:
  assumes ok: "fc_ok dep xs" and "i < length xs" and "length xs < 0xffff" and "xs ! i < 65536"
  shows "fc_ok (fc_setcache dep FC_LASTMAP i (xs ! i)) xs"
proof -
  obtain a b where ab: "de_fc dep = [a, b]" using two_slots ok unfolding fc_ok_def by blast
  show ?thesis
    using ok assms(2-4) by (simp add: fc_ok_def fc_setcache_def ab FC_LASTMAP_def FC_LASTFC_def FC_SIZE_def)
qed

text \<open>Purging from position \<open>n\<close> on leaves a true cache for the file cut to \<open>n\<close> clusters.\<close>

lemma fc_purge_ok:
  assumes ok: "fc_ok dep xs" and "length xs < 0xffff"
  shows "fc_ok (fc_purge dep n) (take n xs)"
proof -
  obtain a b where ab: "de_fc dep = [a, b]" using two_slots ok unfolding fc_ok_def by blast
  show ?thesis
    using ok assms(2) by (auto simp: fc_ok_def fc_purge_def ab FC_LASTFC_def FC_SIZE_def FCE_EMPTY_def)
qed

section \<open>The walk\<close>

lemma pcb_loop_ok:
  assumes ok: "bio_ok io view held" and m: "mount_ok pvp" and fr: "fatblks pvp \<inter> H = {}"
    and fl: "file_at pvp v s xs"
  shows "i < length xs \<Longrightarrow> in_hand view held H v d bp bn0 \<Longrightarrow>
    (\<exists>d' e. pcb_loop io pvp n d bp bn0 i (xs ! i) prev = Some (Inl (d', e)) \<and> dev_err io e \<and> view d' = v \<and> held d' = H)
    \<or> (\<exists>d' bp' bn' cn. pcb_loop io pvp n d bp bn0 i (xs ! i) prev
          = Some (Inr (d', bp', min (i + n) (length xs), cn, if n = 0 then prev else Some (xs ! (min (i + n) (length xs) - 1))))
        \<and> in_hand view held H v d' bp' bn'
        \<and> (if i + n < length xs then cn = xs ! (i + n) else DOSFSEOF cn))"
proof (induction n arbitrary: i d bp bn0 prev)
  case 0
  then show ?case by auto
next
  case (Suc n)
  have ch: "chain (fat_at pvp v) (vfs_maxcluster pvp) s xs" using fl by (simp add: file_at_def)
  have c: "xs ! i \<le> vfs_maxcluster pvp" by (rule chain_nth(1) [OF ch Suc.prems(1)])
  note ne = not_eof [OF m c]
  from pcb_next_ok [OF ok m c fr Suc.prems(2)] show ?case
  proof (elim disjE exE conjE)
    fix d' e assume "pcb_next io pvp d bp bn0 (xs ! i) = Some (Inl (d', e))" "dev_err io e" "view d' = v" "held d' = H"
    then show ?thesis using ne by simp
  next
    fix d1 lb blk assume r: "pcb_next io pvp d bp bn0 (xs ! i) = Some (Inr (d1, lb, blk, fat_at pvp v (xs ! i)))"
      and h: "in_hand view held H v d1 (Some lb) blk"
    have step: "pcb_loop io pvp (Suc n) d bp bn0 i (xs ! i) prev
        = pcb_loop io pvp n d1 (Some lb) blk (i + 1) (fat_at pvp v (xs ! i)) (Some (xs ! i))"
      using ne r by simp
    show ?thesis
    proof (cases "Suc i < length xs")
      case True
      then have nx: "fat_at pvp v (xs ! i) = xs ! Suc i" using chain_nth(4) [OF ch Suc.prems(1)] by simp
      have pv: "(if n = 0 then Some (xs ! i) else Some (xs ! (min (i + Suc n) (length xs) - 1)))
          = Some (xs ! (min (i + Suc n) (length xs) - 1))" using True by (cases n) (auto simp: min_def)
      have sn: "(Suc n = 0) = False" by simp
      show ?thesis
        using Suc.IH [OF True h, where prev = "Some (xs ! i)"]
        unfolding step nx add_Suc_shift Suc_eq_plus1 [symmetric] pv sn if_False .
    next
      case False
      then have i: "i = length xs - 1" "Suc i = length xs" using Suc.prems(1) by auto
      have "xs ! i = last xs" using i(1) Suc.prems(1) by (subst last_conv_nth) auto
      then have eof: "DOSFSEOF (fat_at pvp v (xs ! i))" using fl by (simp add: file_at_def)
      have "pcb_loop io pvp n d1 (Some lb) blk (i + 1) (fat_at pvp v (xs ! i)) (Some (xs ! i))
          = Some (Inr (d1, Some lb, i + 1, fat_at pvp v (xs ! i), Some (xs ! i)))"
        by (cases n) (simp_all add: eof)
      moreover have "min (i + Suc n) (length xs) = i + 1" "xs ! (min (i + Suc n) (length xs) - 1) = xs ! i" using i by simp_all
      ultimately show ?thesis unfolding step using h eof i(2) by auto
    qed
  qed
qed

text \<open>What \<open>pcbmap\<close> returns for a file with clusters \<open>xs\<close>.\<close>

lemma pcbmap_cases:
  assumes ok: "bio_ok io view held" and m: "mount_ok pvp" and fr: "fatblks pvp \<inter> held d = {}"
    and fl: "file_at pvp (view d) (de_StartCluster dep) xs" and fc: "fc_ok dep xs"
    and want: "wb \<or> wc"
  obtains (err) d' e where "pcbmap io pvp d dep f wb wc = Some (d', dep, e, None, None)" and "dev_err io e"
      and "view d' = view d" and "held d' = held d"
  | (found) d' where "f < length xs"
      and "pcbmap io pvp d dep f wb wc = Some (d', fc_setcache dep FC_LASTMAP f (xs ! f), 0,
         if wb then Some (cntobn pvp (xs ! f)) else None, if wc then Some (xs ! f) else None)"
      and "view d' = view d" and "held d' = held d"
  | (eof) d' where "length xs \<le> f"
      and "pcbmap io pvp d dep f wb wc = Some (d', fc_setcache dep FC_LASTFC (length xs - 1) (last xs), E2BIG, None,
         if wc then Some (length xs) else None)"
      and "view d' = view d" and "held d' = held d"
proof -
  let ?s = "de_StartCluster dep" and ?v = "view d" and ?H = "held d"
  have ne: "xs \<noteq> []" and ch: "chain (fat_at pvp ?v) (vfs_maxcluster pvp) ?s xs" using fl by (simp_all add: file_at_def)
  have s0: "xs ! 0 = ?s" using chain_nth(3) [OF ch, of 0] ne by simp
  have "CLUST_FIRST \<le> ?s" using chain_nth(2) [OF ch, of 0] s0 ne by simp
  then have nr: "?s \<noteq> DOSFSROOT" by (simp add: CLUST_FIRST_def DOSFSROOT_def)
  obtain i cn where lk: "fc_lookup dep f (0, ?s) = (i, cn)" by (cases "fc_lookup dep f (0, ?s)")
  have i: "i \<le> f" "i < length xs" "cn = xs ! i" using fc_lookup_ok [OF fc ne s0 lk] by auto
  have h: "in_hand view held ?H ?v d None (2 ^ 32 - 1)" by (simp add: in_hand_def)
  have args: "\<not> (\<not> wb \<and> \<not> wc)" using want by blast
  have run: "pcbmap io pvp d dep f wb wc = do {
      r \<leftarrow> pcb_loop io pvp (f - i) d None (2 ^ 32 - 1) i (xs ! i) None;
      (case r of
        Inl (d, error) \<Rightarrow> Some (d, dep, error, None, None)
      | Inr (d, bp0, i, cn, prevcn) \<Rightarrow>
        if \<not> DOSFSEOF cn then Some (rel_opt io bp0 d, fc_setcache dep FC_LASTMAP i cn, 0,
            if wb then Some (cntobn pvp cn) else None, if wc then Some cn else None)
        else do { prevcn \<leftarrow> prevcn; Some (rel_opt io bp0 d, fc_setcache dep FC_LASTFC (usub32 i 1) prevcn, E2BIG, None,
            if wc then Some i else None) }) }"
    unfolding pcbmap_def Let_def if_not_P [OF args] if_not_P [OF nr] lk fst_conv snd_conv i(3) ..
  from pcb_loop_ok [OF ok m fr fl i(2) h, of "f - i" None] show thesis
  proof (elim disjE exE conjE)
    fix d' e assume "pcb_loop io pvp (f - i) d None (2 ^ 32 - 1) i (xs ! i) None = Some (Inl (d', e))"
      "dev_err io e" "view d' = ?v" "held d' = ?H"
    then show ?thesis by (intro err [of d' e]) (simp_all add: run)
  next
    fix d' bp' bn' c
    assume l: "pcb_loop io pvp (f - i) d None (2 ^ 32 - 1) i (xs ! i) None
          = Some (Inr (d', bp', min (i + (f - i)) (length xs), c,
              if f - i = 0 then None else Some (xs ! (min (i + (f - i)) (length xs) - 1))))"
      and h': "in_hand view held ?H ?v d' bp' bn'"
      and c: "if i + (f - i) < length xs then c = xs ! (i + (f - i)) else DOSFSEOF c"
    have fi: "i + (f - i) = f" using i(1) by simp
    note rel = rel_opt_ok [OF ok h']
    show ?thesis
    proof (cases "f < length xs")
      case True
      then have c': "c = xs ! f" using c fi by simp
      have "\<not> DOSFSEOF (xs ! f)" by (rule not_eof [OF m chain_nth(1) [OF ch True]])
      then show ?thesis using l True fi c' rel by (intro found [of "rel_opt io bp' d'"]) (simp_all add: run min_def)
    next
      case False
      then have z: "f - i \<noteq> 0" "length xs - 1 < length xs" "min f (length xs) = length xs" using i ne by auto
      have "DOSFSEOF c" using c fi False by simp
      moreover have "xs ! (length xs - 1) = last xs" using ne by (simp add: last_conv_nth)
      moreover have "usub32 (length xs) 1 = length xs - 1" using z(2) by simp
      ultimately show ?thesis
        using l False fi z rel by (intro eof [of "rel_opt io bp' d'"]) (simp_all add: run)
    qed
  qed
qed

section \<open>Appending a cluster\<close>

lemma chain_append:
  assumes "chain e mx s xs" and "xs \<noteq> []" and "CLUST_FIRST \<le> c" and "c \<le> mx" and "c \<notin> set xs"
    and "\<And>x. x \<in> set xs \<Longrightarrow> e' x = (if x = last xs then c else e x)" and "\<not> (CLUST_FIRST \<le> e' c \<and> e' c \<le> mx)"
  shows "chain e' mx s (xs @ [c])"
  using assms
proof (induction xs arbitrary: s)
  case (Cons x xs)
  have x: "s = x" "CLUST_FIRST \<le> x" "x \<le> mx" "chain e mx (e x) xs" using Cons.prems(1) by auto
  show ?case
  proof (cases "xs = []")
    case True
    have "e' x = c" using Cons.prems(6) [of x] True by simp
    then show ?thesis using x Cons.prems(3,4,7) True by simp
  next
    case False
    have nl: "x \<noteq> last xs" using chain_distinct [OF Cons.prems(1)] False by auto
    have "e' x = e x" using Cons.prems(6) [of x] False nl by simp
    moreover have "chain e' mx (e x) (xs @ [c])"
      by (rule Cons.IH [OF x(4) False]) (use Cons.prems(3-7) False in auto)
    ultimately show ?thesis using x by simp
  qed
qed simp

lemma file_append:
  assumes f: "file_at pvp v s xs" and st1: "fat_stored pvp v v1 c CLUST_EOFE" and st2: "fat_stored pvp v1 v2 (last xs) c"
    and c: "CLUST_FIRST \<le> c" "c \<le> vfs_maxcluster pvp" "c \<notin> set xs" "fat_norm pvp c = c"
    and m: "vfs_maxcluster pvp < 65520" and len: "length xs + 1 < 0xffff"
  shows "file_at pvp v2 s (xs @ [c])"
proof -
  have ne: "xs \<noteq> []" and ch: "chain (fat_at pvp v) (vfs_maxcluster pvp) s xs" using f by (simp_all add: file_at_def)
  have rng: "x \<le> vfs_maxcluster pvp" if "x \<in> set xs" for x using chain_range [OF ch] that by auto
  have nl: "c \<noteq> last xs" using c(3) ne by auto
  have ec: "fat_at pvp v2 c = 0xffff"
    using st1 st2 c nl by (simp add: fat_stored_def fat_norm_eof)
  have ex: "fat_at pvp v2 x = (if x = last xs then c else fat_at pvp v x)" if "x \<in> set xs" for x
    using st1 st2 rng [OF that] c that by (auto simp: fat_stored_def)
  have "chain (fat_at pvp v2) (vfs_maxcluster pvp) s (xs @ [c])"
    by (rule chain_append [OF ch ne c(1-3) ex]) (use ec m in auto)
  then show ?thesis using ec len DOSFSEOF_16 [of "0xffff"] by (simp add: file_at_def)
qed

lemma file_single:
  assumes st: "fat_stored pvp v v1 c CLUST_EOFE" and c: "CLUST_FIRST \<le> c" "c \<le> vfs_maxcluster pvp"
    and m: "vfs_maxcluster pvp < 65520"
  shows "file_at pvp v1 c [c]"
proof -
  have "fat_at pvp v1 c = 0xffff" using st c by (simp add: fat_stored_def fat_norm_eof)
  then show ?thesis using c m DOSFSEOF_16 [of "0xffff"] by (simp add: file_at_def)
qed

text \<open>The caches of a file that grows by one cluster.\<close>

lemma fc_append:
  assumes ok: "fc_ok dep xs" and "length xs + 1 < 0xffff" and "c < 65536"
  shows "fc_ok (fc_setcache dep FC_LASTFC (length xs) c) (xs @ [c])"
proof -
  obtain a b where ab: "de_fc dep = [a, b]" using two_slots ok unfolding fc_ok_def by blast
  show ?thesis
    using ok assms(2,3) by (auto simp: fc_ok_def fc_setcache_def ab FC_LASTFC_def FC_SIZE_def nth_append)
qed

text \<open>
  A link reads back as the number it was set to, except in a 12-bit table for the cluster numbers from
  4080 on, which are taken for the special values.
\<close>

lemma top_byte: "(of_nat c :: u16) AND 0x0ff0 = 0x0ff0 \<longleftrightarrow> c div 16 mod 256 = 255"
proof
  assume a: "(of_nat c :: u16) AND 0x0ff0 = 0x0ff0"
  have b: "bit (drop_bit 4 c) k" if "k < 8" for k
  proof -
    have "bit ((of_nat c :: u16) AND 0x0ff0) (k + 4)" unfolding a mask_bits(5) using that by simp
    then have "bit (of_nat c :: u16) (k + 4)" by (simp only: bit_and_iff)
    then show ?thesis by (simp add: bit_of_nat_iff bit_drop_bit_eq add.commute)
  qed
  have "take_bit 8 (drop_bit 4 c) = mask 8" by (rule bit_eqI) (use b in \<open>auto simp: bit_simps\<close>)
  then show "c div 16 mod 256 = 255" by (simp add: take_bit_eq_mod drop_bit_eq_div mask_eq_exp_minus_1)
next
  assume "c div 16 mod 256 = 255"
  then have t: "take_bit 8 (drop_bit 4 c) = mask 8" by (simp add: take_bit_eq_mod drop_bit_eq_div mask_eq_exp_minus_1)
  have b: "bit c (k + 4)" if "k < 8" for k
    using that arg_cong [OF t, of "\<lambda>x. bit x k"] by (simp add: bit_simps add.commute)
  show "(of_nat c :: u16) AND 0x0ff0 = 0x0ff0"
  proof (rule bit_word_eqI)
    fix n assume "n < LENGTH(16)"
    have "bit (of_nat c :: u16) n" if "4 \<le> n" "n < 12"
      using b [of "n - 4"] that by (simp add: bit_of_nat_iff)
    then show "bit ((of_nat c :: u16) AND 0x0ff0) n = bit (0x0ff0 :: u16) n"
      by (auto simp: bit_and_iff mask_bits simp del: bit_numeral_word_iff)
  qed
qed

lemma bit_12: "c < 4096 \<Longrightarrow> bit (of_nat c :: u16) n \<Longrightarrow> n < 12"
proof -
  assume c: "c < 4096" and b: "bit (of_nat c :: u16) n"
  have "take_bit 12 c = c" using c by (simp add: take_bit_nat_eq_self)
  moreover have "bit c n" using b by (simp add: bit_of_nat_iff)
  ultimately show "n < 12" by (metis bit_take_bit_iff)
qed

lemma low_bits:
  assumes "c < 4096"
  shows "(of_nat c :: u16) AND 0x0fff = of_nat c" and "(of_nat c :: u16) AND 0xf000 = 0"
proof -
  have b: "\<not> (bit (of_nat c :: u16) n \<and> 12 \<le> n)" for n using bit_12 [OF assms, of n] by auto
  show "(of_nat c :: u16) AND 0x0fff = of_nat c" "(of_nat c :: u16) AND 0xf000 = 0"
    by (rule bit_word_eqI; use b bit_12 [OF assms] in
        \<open>simp add: bit_and_iff mask_bits del: bit_numeral_word_iff; blast\<close>)+
qed

lemma link_norm:
  assumes "mount_ok pvp" and "c \<le> vfs_maxcluster pvp" and "FAT12 pvp \<longrightarrow> c < 4080"
  shows "fat_norm pvp c = c"
proof (cases "FAT12 pvp")
  case True
  then have c: "c < 4080" using assms(3) by simp
  have "c div 16 < 255" using c by (simp add: less_mult_imp_div_less)
  then have "(of_nat c :: u16) AND 0x0ff0 \<noteq> 0x0ff0" by (simp add: top_byte)
  then show ?thesis using True c low_bits(1) [of c] by (simp add: fat_norm_def norm12_def widen12_def unat_of_nat)
next
  case False
  have "c < 65536" using assms(1,2) by (simp add: mount_ok_def)
  then show ?thesis using False by (simp add: fat_norm_def unat_of_nat)
qed

lemma link_widened:
  assumes "FAT12 pvp" and "4080 \<le> c" and "c \<le> 4095"
  shows "fat_norm pvp c = c + 0xf000"
proof -
  have "c div 16 = 255" using assms(2,3) by auto
  then have t: "(of_nat c :: u16) AND 0x0ff0 = 0x0ff0" by (simp add: top_byte)
  have c: "c < 4096" using assms(3) by simp
  note l = low_bits [OF c]
  have "(of_nat c :: u16) OR 0xf000 = of_nat (c + 0xf000)"
    using disjunctive_add_eq_or [OF l(2)] by simp
  moreover have "unat (of_nat (c + 0xf000) :: u16) = c + 0xf000"
    using c by (simp only: unat_of_nat) simp
  ultimately show ?thesis using assms(1) by (simp only: fat_norm_def norm12_def widen12_def l(1) t if_True simp_thms)
qed

section \<open>Extending a file\<close>

text \<open>
  A file of the model: an empty one has start cluster 0 and an empty cache, any other a chain of clusters
  in use.
\<close>

definition file_ok :: "dosfs_vfs \<Rightarrow> (nat \<Rightarrow> u8 list) \<Rightarrow> denode \<Rightarrow> nat list \<Rightarrow> bool" where
  "file_ok pvp v dep xs \<longleftrightarrow> fc_ok dep xs \<and> set xs \<subseteq> busy pvp v
     \<and> (if xs = [] then de_StartCluster dep = 0 else file_at pvp v (de_StartCluster dep) xs)"

lemma same_fs_file:
  assumes "same_fs p q"
  shows "file_at q = file_at p" and "fat_stored q = fat_stored p" and "cntobn q = cntobn p"
    and "vfs_bpcluster q = vfs_bpcluster p"
proof -
  note geo = same_fs_geo [OF assms]
  show "file_at q = file_at p" "fat_stored q = fat_stored p"
    by (intro ext; simp add: file_at_def fat_stored_def geo)+
  have q: "q = p\<lparr>vfs_freeclustercount := vfs_freeclustercount q, vfs_lookhere := vfs_lookhere q,
     vfs_fmod := vfs_fmod q, vfs_inusemap := vfs_inusemap q\<rparr>"
    using assms by (simp add: same_fs_def)
  show "cntobn q = cntobn p" by (subst q, intro ext) (simp add: cntobn_def)
  show "vfs_bpcluster q = vfs_bpcluster p" by (subst q) simp
qed

lemma file_start: "file_at pvp v s xs \<Longrightarrow> CLUST_FIRST \<le> s"
  by (cases xs) (auto simp: file_at_def)

lemma file_ok_start: "file_ok pvp v dep xs \<Longrightarrow> (de_StartCluster dep = 0) = (xs = [])"
  using file_start [of pvp v "de_StartCluster dep" xs] by (auto simp: file_ok_def CLUST_FIRST_def split: if_splits)

lemma ext_last_ok:
  assumes ok: "bio_ok io view held" and m: "mount_ok pvp" and fr: "fatblks pvp \<inter> held d = {}"
    and good: "\<forall>lb. lgeterror io lb = 0" and fl: "file_ok pvp (view d) dep xs" and len: "length xs < 0xffff"
  obtains d' dep' where "ext_last io pvp d dep = Some (d', dep', None)" and "view d' = view d" and "held d' = held d"
    and "de_de dep' = de_de dep" and "file_ok pvp (view d') dep' xs"
    and "xs \<noteq> [] \<longrightarrow> fc_frcn (de_fc dep' ! FC_LASTFC) = length xs - 1 \<and> fc_fsrcn (de_fc dep' ! FC_LASTFC) = last xs"
    and "de_vroot dep' = de_vroot dep"
proof (cases "fc_frcn (de_fc dep ! FC_LASTFC) = FCE_EMPTY \<and> de_StartCluster dep \<noteq> 0")
  case False
  have fc: "fc_ok dep xs" using fl by (simp add: file_ok_def)
  obtain a b where ab: "de_fc dep = [a, b]" using two_slots fc unfolding fc_ok_def by blast
  have "fc_frcn (de_fc dep ! FC_LASTFC) = length xs - 1 \<and> fc_fsrcn (de_fc dep ! FC_LASTFC) = last xs" if "xs \<noteq> []"
  proof -
    have "fc_frcn b \<noteq> FCE_EMPTY" using False that file_ok_start [OF fl] by (simp add: ab FC_LASTFC_def)
    then have "Suc (fc_frcn b) = length xs" "fc_fsrcn b = xs ! fc_frcn b"
      using fc by (simp_all add: fc_ok_def ab FC_LASTFC_def)
    then show ?thesis using that by (simp add: ab FC_LASTFC_def last_conv_nth flip: \<open>Suc (fc_frcn b) = length xs\<close>)
  qed
  then show ?thesis using False fl by (intro that [of d dep]) (auto simp: ext_last_def)
next
  case True
  then have ne: "xs \<noteq> []" using file_ok_start [OF fl] by simp
  have fa: "file_at pvp (view d) (de_StartCluster dep) xs" and fc: "fc_ok dep xs" using fl ne by (simp_all add: file_ok_def)
  have want: "False \<or> True" by simp
  show ?thesis
  proof (cases rule: pcbmap_cases [OF ok m fr fa fc want, where f = "0xffff", case_names err found eof])
    case (err d' e)
    then show ?thesis using no_dev_err [OF good] by blast
  next
    case (found d')
    then show ?thesis using len by simp
  next
    case (eof d')
    let ?dep = "fc_setcache dep FC_LASTFC (length xs - 1) (last xs)"
    have lr: "last xs < 65536"
    proof -
      have "last xs \<in> set xs" using ne by simp
      then have "last xs \<le> vfs_maxcluster pvp" using fl by (auto simp: file_ok_def busy_def)
      then show ?thesis using m by (simp add: mount_ok_def)
    qed
    have fc': "fc_ok ?dep xs" by (rule fc_set_last [OF fc ne len lr])
    have "ext_last io pvp d dep = Some (d', ?dep, None)" using True eof(2) by (simp add: ext_last_def E2BIG_def)
    moreover have "file_ok pvp (view d') ?dep xs" using fl fc' eof(3) by (simp add: file_ok_def fc_setcache_def)
    moreover have "de_fc ?dep ! FC_LASTFC = \<lparr>fc_frcn = length xs - 1, fc_fsrcn = last xs\<rparr>"
    proof -
      obtain a b where "de_fc dep = [a, b]" using two_slots fc unfolding fc_ok_def by blast
      then show ?thesis using len lr by (simp add: fc_setcache_def FC_LASTFC_def)
    qed
    ultimately show ?thesis using eof by (intro that [of d' ?dep]) (simp_all add: fc_setcache_def)
  qed
qed

text \<open>Linking the cluster \<open>c\<close>, just taken, to the file.\<close>

lemma ext_chain_ok:
  assumes ok: "bio_ok io view held" and v: "vol_ok pvp (view d)" and fr: "fatblks pvp \<inter> held d = {}"
    and good: "\<forall>lb. lgeterror io lb = 0" and fc: "fc_ok dep xs"
    and fl: "if xs = [] then de_StartCluster dep = 0 else file_at pvp v0 (de_StartCluster dep) xs
        \<and> fc_frcn (de_fc dep ! FC_LASTFC) = length xs - 1 \<and> fc_fsrcn (de_fc dep ! FC_LASTFC) = last xs"
    and st: "fat_stored pvp v0 (view d) c CLUST_EOFE" and c: "CLUST_FIRST \<le> c" "c \<le> vfs_maxcluster pvp" "c \<notin> set xs"
    and n: "fat_norm pvp c = c" and used: "set xs \<inter> free_set pvp (view d) = {}" and len: "length xs + 1 < 0xffff"
  obtains d' pvp' dep' where "ext_chain io pvp d dep c = Some (d', pvp', dep', 0, length xs)" and "held d' = held d"
    and "same_fs pvp pvp'" and "vol_ok pvp' (view d')" and "free_set pvp' (view d') = free_set pvp (view d)"
    and "file_at pvp (view d') (de_StartCluster dep') (xs @ [c])" and "fc_ok dep' xs" and "de_vroot dep' = de_vroot dep"
    and "\<forall>x \<le> vfs_maxcluster pvp. x \<notin> set xs \<longrightarrow> fat_at pvp (view d') x = fat_at pvp (view d) x"
    and "\<forall>s. s \<notin> fatblks pvp \<longrightarrow> view d' s = view d s"
proof (cases "xs = []")
  case True
  let ?dep = "dep\<lparr>de_de := (de_de dep)\<lparr>deStartCluster := of_nat c\<rparr>\<rparr>"
  have m: "vfs_maxcluster pvp < 65520" using v by (simp add: vol_ok_def mount_ok_def)
  have s: "de_StartCluster ?dep = c" using c(2) m by (simp add: unat_of_nat)
  have "file_at pvp (view d) c [c]" by (rule file_single [OF st c(1,2) m])
  moreover have "ext_chain io pvp d dep c = Some (d, pvp, ?dep, 0, length xs)" using True fl by (simp add: ext_chain_def)
  ultimately show ?thesis using v fc s True by (intro that [of d pvp ?dep]) (simp_all add: fc_ok_def)
next
  case False
  then have fa: "file_at pvp v0 (de_StartCluster dep) xs" and lc: "fc_frcn (de_fc dep ! FC_LASTFC) = length xs - 1"
      "fc_fsrcn (de_fc dep ! FC_LASTFC) = last xs" using fl by simp_all
  have m: "vfs_maxcluster pvp < 65520" using v by (simp add: vol_ok_def mount_ok_def)
  have s0: "de_StartCluster dep \<noteq> 0" using file_start [OF fa] by (simp add: CLUST_FIRST_def)
  have l: "last xs \<in> set xs" using False by simp
  have "set xs \<subseteq> {CLUST_FIRST..vfs_maxcluster pvp}" using fa by (auto simp: file_at_def dest: chain_range)
  with l have lr: "CLUST_FIRST \<le> last xs" "last xs \<le> vfs_maxcluster pvp" by auto
  have lu: "last xs \<notin> free_set pvp (view d)" using l used by blast
  have nz: "fat_norm pvp c \<noteq> 0" using n c(1) by (simp add: CLUST_FIRST_def)
  have g: "FAT_SET AND FAT_GET \<noteq> 0 \<longrightarrow> False" using set_flags(2) by simp
  show ?thesis
  proof (cases rule: fatentry_cases [OF ok v fr lr set_flags(1) g, where w = c, case_names stored failed])
    case (stored e)
    let ?q = "pvp\<lparr>vfs_fmod := vfs_fmod pvp + 1\<rparr>"
    have "ext_chain io pvp d dep c = Some (e, ?q, dep, 0, length xs)"
      unfolding ext_chain_def if_not_P [OF s0] lc(2) stored(1) using False by (simp add: lc(1))
    moreover have "vol_ok ?q (view e) \<and> free_set ?q (view e) = free_set pvp (view d)"
      by (rule vol_ok_link [OF v stored(3) nz lr lu])
    moreover have "file_at pvp (view e) (de_StartCluster dep) (xs @ [c])"
      by (rule file_append [OF fa st stored(3) c n m len])
    moreover have "\<forall>x \<le> vfs_maxcluster pvp. x \<notin> set xs \<longrightarrow> fat_at pvp (view e) x = fat_at pvp (view d) x"
      using stored(3) l by (auto simp: fat_stored_def)
    moreover have "\<forall>s. s \<notin> fatblks pvp \<longrightarrow> view e s = view d s" using stored(3) by (simp add: fat_stored_def)
    ultimately show ?thesis using fc stored(2) by (intro that [of e ?q dep]) simp_all
  next
    case (failed e err)
    then show ?thesis using good by auto
  qed
qed

text \<open>The buffer of the new cluster, zeroed.\<close>

lemma ext_buf_ok:
  assumes ok: "bio_ok io view held" and bs: "bp = n * DEV_BSIZE" "n \<le> MAXCLUSTBLOCKS"
    and free: "{b..<b + n} \<inter> held d = {}"
  obtains d' lb where "lgetblk io d b bp = Some (d', lb)" and "view d' = view d" and "held d' = held d \<union> {b..<b + n}"
    and "lbuf_at (lclrbuf lb) b n" and "lb_addr (lclrbuf lb) = replicate bp 0"
proof -
  obtain d' lb where g: "lgetblk io d b bp = Some (d', lb)" "view d' = view d" "held d' = held d \<union> {b..<b + n}" "lbuf_at lb b n"
    using lgetblk_ok [OF ok bs(2) free] bs(1) by blast
  show ?thesis using g bs(1) lbuf_at_lclrbuf [OF g(4)]
    by (intro that [of d' lb]) (simp_all add: lclrbuf_def lbuf_at_def)
qed

end
