(* ===== verification/FatProps.thy ===== *)
theory FatProps
  imports FatEntry
begin

text \<open>
  The properties of \<open>fatentry\<close>: it refines the table of entries, setting and getting round trips, and
  the two ways it departs from what its comment promises.
\<close>

text \<open>A small file system for the witnesses: two 12-bit tables of two blocks, all entries free.\<close>

definition demo_fs :: dosfs_vfs where
  "demo_fs = \<lparr>vfs_SectPerClust = 2, vfs_BytesPerSec = 512, vfs_FATs = 2, vfs_FATsecs = 2,
     vfs_fatblk = 1, vfs_rootdirblk = 5, vfs_rootdirsize = 4, vfs_firstcluster = 9,
     vfs_nmbrofclusters = 399, vfs_maxcluster = 400, vfs_freeclustercount = 399, vfs_lookhere = 2,
     vfs_bnshift = 9, vfs_brbomask = 511, vfs_cnshift = 10, vfs_crbomask = 1023, vfs_bpcluster = 1024,
     vfs_depclust = 32, vfs_fmod = 0, vfs_waitonfat = False,
     vfs_inusemap = 3 # replicate 49 0 @ [0xfe]\<rparr>"

definition demo_dev :: ram where
  "demo_dev = \<lparr>r_data = (\<lambda>_. []), r_held = [], r_bad = []\<rparr>"

lemma demo_mount: "mount_ok demo_fs"
  by (simp add: mount_ok_def demo_fs_def fat_off_def FAT12_def off12_def)

lemma demo_max: "vfs_maxcluster demo_fs = 400"
  by (simp add: demo_fs_def)

lemma demo_12: "FAT12 demo_fs"
  by (simp add: demo_fs_def FAT12_def)

lemma demo_free: "fatblks demo_fs \<inter> ram_heldset demo_dev = {}"
  by (simp add: demo_dev_def ram_heldset_def)

text \<open>
  The error an access to the entry of cluster \<open>c\<close> must meet: that of the first block of the entry that cannot be
  read, 0 if all of them can. Only a 12-bit entry can lie in two blocks.
\<close>

definition fat_read_error :: "'d bio \<Rightarrow> dosfs_vfs \<Rightarrow> 'd \<Rightarrow> nat \<Rightarrow> nat" where
  "fat_read_error io pvp d c = (case fat_bread io pvp d (fat_blk pvp c) of
     None \<Rightarrow> 0
   | Some (d, lb) \<Rightarrow>
       if lgeterror io lb \<noteq> 0 then lgeterror io lb
       else if FAT12 pvp \<and> fat_off pvp c mod 512 = 511 then
         (case fat_bread io pvp d (fat_blk pvp c + 1) of None \<Rightarrow> 0 | Some (d, lb) \<Rightarrow> lgeterror io lb)
       else 0)"

lemma fatentry12_error: "fatentry12 io fn pvp d c blk off bp0 bp1 w = Some (d', pvp', err, old) \<Longrightarrow> err = 0"
  by (auto simp: fatentry12_def split: if_splits Option.bind_splits prod.splits)

lemma fatentry16_error: "fatentry16 io fn pvp d blk off bp0 w = Some (d', pvp', err, old) \<Longrightarrow> err = 0"
  by (auto simp: fatentry16_def Let_def split: if_splits Option.bind_splits prod.splits)

lemma fatentry_error:
  assumes m: "mount_ok pvp" and c: "CLUST_FIRST \<le> c" "c \<le> vfs_maxcluster pvp" and nw: "FAT12 pvp \<or> c < 32768"
    and fn: "fn AND (FAT_SET OR FAT_GET) \<noteq> 0" "fn AND FAT_GET \<noteq> 0 \<longrightarrow> oldp"
    and run: "fatentry io fn pvp d c oldp w = Some (d', pvp', err, old)"
  shows "err = fat_read_error io pvp d c"
proof -
  have bs: "vfs_BytesPerSec pvp = 512" "vfs_bnshift pvp = 9" "vfs_brbomask pvp = 511" using m by (simp_all add: mount_ok_def)
  have args: "(fn AND (FAT_SET OR FAT_GET) = 0) = False" "(fn AND FAT_GET \<noteq> 0 \<and> \<not> oldp) = False"
    "(c < CLUST_FIRST \<or> vfs_maxcluster pvp < c) = False" using c fn by auto
  note ow = off_no_wrap [OF m c(2) nw]
  have blk: "fat_off pvp c div 2 ^ 9 + vfs_fatblk pvp = fat_blk pvp c" by (simp add: fat_blk_def)
  show ?thesis
  proof (cases "FAT12 pvp")
    case True
    have o: "(c + c div 2) mod 65536 = fat_off pvp c" using ow True by (simp add: fat_off_def off12_def)
    show ?thesis using run True fatentry12_error
      unfolding fatentry_def args if_False Let_def o bs and_511 drop_bit_eq_div blk if_P [OF True] fat_read_error_def
      by (auto split: if_splits Option.bind_splits prod.splits)
  next
    case False
    have o: "c * 2 mod 65536 = fat_off pvp c" using ow False by (simp add: fat_off_def)
    show ?thesis using run False fatentry16_error
      unfolding fatentry_def args if_False Let_def o bs and_511 drop_bit_eq_div blk if_not_P [OF False] fat_read_error_def
      by (auto split: if_splits Option.bind_splits prod.splits)
  qed
qed

text \<open>C10: On a mounted file system no block of whose tables is locked, \<open>fatentry\<close> refuses exactly the clusters that
  are not in the file system, with EINVAL and without touching anything. For the others it returns, and it fails
  exactly when a block that holds the entry cannot be read, with the error of the first such block, the device as
  it was and nothing stored. Otherwise it does what it was asked: a get returns the entry, a set replaces that
  entry and no other, writes no block outside the tables, keeps all copies of the table equal if they were, and
  every buffer is given back. (Buffers can stay locked only in the case of \<open>fatentry_span_leak\<close>. 16-bit tables: clusters below
  32768; the others are the matter of \<open>fatentry_wraps\<close>.)\<close>

theorem fatentry_refines:
  assumes "bio_ok io view held" and "mount_ok pvp" and "fatblks pvp \<inter> held d = {}"
    and "FAT12 pvp \<or> c < 32768"
    and "fn AND (FAT_SET OR FAT_GET) \<noteq> 0" and "fn AND FAT_GET \<noteq> 0 \<longrightarrow> oldp"
  shows "if c < CLUST_FIRST \<or> vfs_maxcluster pvp < c then fatentry io fn pvp d c oldp w = Some (d, pvp, EINVAL, None)
    else \<exists>d' pvp' err old. fatentry io fn pvp d c oldp w = Some (d', pvp', err, old)
    \<and> err = fat_read_error io pvp d c
    \<and> (if err = 0 then
         held d' = held d
         \<and> old = (if fn AND FAT_GET \<noteq> 0 then Some (fat_at pvp (view d) c) else None)
         \<and> (if fn AND FAT_SET \<noteq> 0
            then pvp' = pvp\<lparr>vfs_fmod := vfs_fmod pvp + 1\<rparr>
              \<and> (\<forall>c' \<le> vfs_maxcluster pvp. fat_at pvp (view d') c' =
                   (if c' = c then fat_norm pvp w else fat_at pvp (view d) c'))
              \<and> (\<forall>s. s \<notin> fatblks pvp \<longrightarrow> view d' s = view d s)
              \<and> (synced pvp (view d) \<longrightarrow> synced pvp (view d'))
            else pvp' = pvp \<and> view d' = view d)
       else view d' = view d \<and> pvp' = pvp \<and> old = None
         \<and> held d \<subseteq> held d' \<and> held d' \<subseteq> held d \<union> entry_leak pvp c)"
proof (cases "c < CLUST_FIRST \<or> vfs_maxcluster pvp < c")
  case True
  have args: "(fn AND (FAT_SET OR FAT_GET) = 0) = False" "(fn AND FAT_GET \<noteq> 0 \<and> \<not> oldp) = False" using assms(5,6) by auto
  show ?thesis unfolding if_P [OF True] fatentry_def args if_False by (rule refl)
next
  case False
  then have c: "CLUST_FIRST \<le> c" "c \<le> vfs_maxcluster pvp" by simp_all
  note er = fatentry_error [OF assms(2) c assms(4-6)]
  from fatentry_run [OF assms(1,2,3) c assms(4-6), of w] show ?thesis
  proof (elim disjE)
    assume "entry_done view held (held d) pvp (view d) c fn w (fatentry io fn pvp d c oldp w)"
    then obtain d' pvp' where r: "fatentry io fn pvp d c oldp w
          = Some (d', pvp', 0, if fn AND FAT_GET \<noteq> 0 then Some (fat_at pvp (view d) c) else None)"
        "held d' = held d" "if fn AND FAT_SET \<noteq> 0
          then pvp' = pvp\<lparr>vfs_fmod := vfs_fmod pvp + 1\<rparr> \<and> fat_stored pvp (view d) (view d') c w
          else pvp' = pvp \<and> view d' = view d"
      unfolding entry_done_def by (elim exE conjE) (rule that)
    show ?thesis unfolding if_not_P [OF False]
      by (intro exI conjI, rule r(1), rule er [OF r(1)]) (use r(2,3) [unfolded fat_stored_def] in \<open>simp split del: if_split\<close>)
  next
    assume "\<exists>leak \<subseteq> entry_leak pvp c.
      entry_failed io view held (held d) pvp (view d) leak (fatentry io fn pvp d c oldp w)"
    then obtain leak d' err where r: "leak \<subseteq> entry_leak pvp c" "fatentry io fn pvp d c oldp w = Some (d', pvp, err, None)"
        "err \<noteq> 0" "view d' = view d" "held d' = held d \<union> leak"
      unfolding entry_failed_def by (elim exE conjE) (rule that)
    show ?thesis unfolding if_not_P [OF False]
      by (intro exI conjI, rule r(2), rule er [OF r(2)]) (use r in auto)
  qed
qed

text \<open>Entry 341 lies in two blocks. On a device without errors it is set; with a block that cannot be read it is not.\<close>

lemma good_err: "lgeterror good_io lb = 0"
  by (auto simp: lgeterror_def good_io_def first_error_0)

lemma good_read: "fat_read_error good_io pvp d c = 0"
  by (simp add: fat_read_error_def good_err split: option.split prod.split)

theorem fatentry_refines_witness:
  "\<exists>d' pvp' old. fatentry good_io FAT_SET demo_fs demo_dev 341 False 0x2a5 = Some (d', pvp', 0, old)
    \<and> ram_heldset d' = {} \<and> old = None
    \<and> (\<forall>c' \<le> 400. fat_at demo_fs (ram_view d') c' = (if c' = 341 then 0x2a5 else fat_at demo_fs (ram_view demo_dev) c'))"
proof -
  have f: "FAT_SET AND (FAT_SET OR FAT_GET) \<noteq> 0" "FAT_SET AND FAT_GET \<noteq> 0 \<longrightarrow> False" "FAT_SET AND FAT_SET \<noteq> 0"
    by (simp_all add: FAT_SET_def FAT_GET_def)
  have c: "\<not> (341 < CLUST_FIRST \<or> vfs_maxcluster demo_fs < 341)" by (simp add: CLUST_FIRST_def demo_fs_def)
  have h: "ram_heldset demo_dev = {}" by (simp add: ram_heldset_def demo_dev_def)
  have n: "fat_norm demo_fs 0x2a5 = 0x2a5" by (simp add: fat_norm_def demo_12 norm12_def widen12_def)
  have mx: "vfs_maxcluster demo_fs = 400" by (simp add: demo_fs_def)
  show ?thesis
    using fatentry_refines [OF good_io_ok demo_mount demo_free disjI1 [OF demo_12] f(1,2), of "341" "0x2a5"]
    unfolding if_not_P [OF c] good_read
  proof (elim exE conjE, goal_cases)
    case (1 d' pvp' err old)
    show ?case by (intro exI conjI, rule 1(1) [unfolded 1(2)]) (use 1(2,3) f h n mx in simp_all)
  qed
qed

text \<open>Round trip through the device: after a successful set of one entry, a successful get of any
  entry returns the new value for that cluster (its low 12 bits widened, or its low 16 bits) and the
  value from before for every other cluster.\<close>

theorem fatentry_set_get:
  assumes ok: "bio_ok io view held" and m: "mount_ok pvp" and free: "fatblks pvp \<inter> held d = {}"
    and c: "CLUST_FIRST \<le> c" "c \<le> vfs_maxcluster pvp" and c': "CLUST_FIRST \<le> c'" "c' \<le> vfs_maxcluster pvp"
    and nw: "FAT12 pvp \<or> c < 32768 \<and> c' < 32768"
    and set: "fatentry io FAT_SET pvp d c False w = Some (d1, pvp1, 0, old1)"
    and get: "fatentry io FAT_GET pvp1 d1 c' True w' = Some (d2, pvp2, 0, old2)"
  shows "old2 = Some (if c' = c then fat_norm pvp w else fat_at pvp (view d) c')"
proof -
  have f: "FAT_SET AND (FAT_SET OR FAT_GET) \<noteq> 0" "FAT_SET AND FAT_GET \<noteq> 0 \<longrightarrow> False" "FAT_SET AND FAT_SET \<noteq> 0"
      "FAT_GET AND (FAT_SET OR FAT_GET) \<noteq> 0" "FAT_GET AND FAT_GET \<noteq> 0"
    by (simp_all add: FAT_SET_def FAT_GET_def)
  have nw': "FAT12 pvp \<or> c < 32768" "FAT12 pvp \<or> c' < 32768" using nw by auto
  have s: "pvp1 = pvp\<lparr>vfs_fmod := vfs_fmod pvp + 1\<rparr>" "fat_stored pvp (view d) (view d1) c w" "held d1 = held d"
    using fatentry_run [OF ok m free c nw'(1) f(1,2), of w] f(3)
    by (auto simp: set entry_done_def entry_failed_def)
  have sf: "same_fs pvp pvp1" by (simp add: s(1))
  note same = same_fs_geo [OF sf]
  have m1: "mount_ok pvp1" by (rule same_fs_mount [OF sf _ m]) (simp add: s(1))
  have "old2 = Some (fat_at pvp1 (view d1) c')"
    using fatentry_run [OF ok, of pvp1 d1 c' FAT_GET True w'] m1 free c' nw'(2) f
    by (auto simp: get same s(3) entry_done_def entry_failed_def)
  then show ?thesis using s(2) c'(2) by (simp add: same fat_stored_def)
qed

text \<open>C11: Wrap-around: \<open>fatentry\<close> keeps the byte offset of an entry in an \<open>unsigned short\<close>, so on a
  16-bit table every operation on a cluster from 32768 on is carried out on the entry of the cluster
  32768 below it.\<close>

theorem fatentry_wraps:
  assumes "\<not> FAT12 pvp" and "32770 \<le> c" and "c \<le> vfs_maxcluster pvp"
  shows "fatentry io fn pvp d c oldp w = fatentry io fn pvp d (c - 32768) oldp w"
proof -
  define a where "a = c - 32768"
  have c: "c = a + 32768" "2 \<le> a" using assms(2) by (simp_all add: a_def)
  have "c * 2 = a * 2 + 65536" using c by simp
  then have "c * 2 mod 65536 = a * 2 mod 65536" by (simp only: mod_add_self2)
  moreover have "\<not> (c < CLUST_FIRST \<or> vfs_maxcluster pvp < c)" "\<not> (a < CLUST_FIRST \<or> vfs_maxcluster pvp < a)"
    using c assms(3) by (auto simp: CLUST_FIRST_def)
  ultimately show ?thesis
    unfolding a_def [symmetric] fatentry_def if_not_P [OF assms(1)] by (simp only: if_False)
qed

text \<open>When an entry spans two blocks and only the second cannot be read, the error return of
  \<open>fatentry\<close> releases the second buffer only: the first block of the table stays locked.\<close>

theorem fatentry_span_leak:
  assumes ok: "bio_ok io view held" and m: "mount_ok pvp" and free: "fatblks pvp \<inter> held d = {}"
    and c: "CLUST_FIRST \<le> c" "c \<le> vfs_maxcluster pvp" and F: "FAT12 pvp" and span: "off12 c mod 512 = 511"
    and fn: "fn AND (FAT_SET OR FAT_GET) \<noteq> 0" "fn AND FAT_GET \<noteq> 0 \<longrightarrow> oldp"
    and r0: "fat_bread io pvp d (fat_blk pvp c) = Some (d1, bp0)" "lgeterror io bp0 = 0"
    and r1: "fat_bread io pvp d1 (fat_blk pvp c + 1) = Some (d2, bp1)" "lgeterror io bp1 \<noteq> 0"
  shows "\<exists>d'. fatentry io fn pvp d c oldp w = Some (d', pvp, lgeterror io bp1, None)
    \<and> fat_blk pvp c \<in> held d' \<and> fat_blk pvp c \<notin> held d"
proof -
  have bs: "vfs_BytesPerSec pvp = 512" "vfs_bnshift pvp = 9" "vfs_brbomask pvp = 511"
    using m by (simp_all add: mount_ok_def)
  have off: "fat_off pvp c = off12 c" using F by (simp add: fat_off_def)
  have nb: "fat_blk pvp c \<notin> held d" "fat_blk pvp c + 1 \<notin> held d"
    using fat_blk_in [OF m c(2)] off span free by auto
  have h1: "held d1 = insert (fat_blk pvp c) (held d)"
    using fat_bread_ok [OF ok bs(1) nb(1)] r0(1) by auto
  then have "fat_blk pvp c + 1 \<notin> held d1" using nb(2) by simp
  from fat_bread_ok [OF ok bs(1) this] r1(1)
  have h2: "held d2 = insert (fat_blk pvp c + 1) (held d1)" "lbuf_at bp1 (fat_blk pvp c + 1) 1" by auto
  have hd: "fat_blk pvp c \<in> held (lbrelse io d2 bp1)"
    using lbrelse1_ok [OF ok h2(2), of d2] h1 h2(1) by simp
  have args: "(fn AND (FAT_SET OR FAT_GET) = 0) = False" "(fn AND FAT_GET \<noteq> 0 \<and> \<not> oldp) = False"
      "(c < CLUST_FIRST \<or> vfs_maxcluster pvp < c) = False" using c fn by auto
  have o: "(c + c div 2) mod 65536 = off12 c" using off_no_wrap [OF m c(2) disjI1 [OF F]] off by (simp add: off12_def)
  have blk: "off12 c div 2 ^ 9 + vfs_fatblk pvp = fat_blk pvp c" by (simp add: fat_blk_def off)
  have "fatentry io fn pvp d c oldp w = Some (lbrelse io d2 bp1, pvp, lgeterror io bp1, None)"
    unfolding fatentry_def args if_False Let_def o bs and_511 drop_bit_eq_div blk if_P [OF F] span
    using r0 r1 by simp
  with hd nb show ?thesis by blast
qed

text \<open>Witnesses of the three properties above, on the file system \<open>demo_fs\<close> and a 16-bit one.\<close>

definition demo_fs16 :: dosfs_vfs where
  "demo_fs16 = demo_fs\<lparr>vfs_maxcluster := 40000, vfs_FATsecs := 160\<rparr>"

lemma demo_dev_reads:
  assumes "b \<notin> set (r_bad d)"
  shows "\<exists>d' lb. fat_bread ram_io demo_fs d b = Some (d', lb) \<and> lgeterror ram_io lb = 0 \<and> r_bad d' = r_bad d
    \<and> r_held d' = b # r_held d"
  using assms
  by (simp add: fat_bread_def lbread_def lb_gather_def demo_fs_def DEV_BSIZE_def MAXCLUSTBLOCKS_def
      ram_io_def ram_read_def lgeterror_def)

lemma demo_dev_fails:
  assumes "b \<in> set (r_bad d)"
  shows "\<exists>d' lb. fat_bread ram_io demo_fs d b = Some (d', lb) \<and> lgeterror ram_io lb \<noteq> 0"
  using assms
  by (simp add: fat_bread_def lbread_def lb_gather_def demo_fs_def DEV_BSIZE_def MAXCLUSTBLOCKS_def
      ram_io_def ram_read_def lgeterror_def)

theorem fatentry_wraps_witness:
  "fatentry ram_io FAT_SET demo_fs16 demo_dev 32780 False 7 = fatentry ram_io FAT_SET demo_fs16 demo_dev 12 False 7"
  using fatentry_wraps [of demo_fs16 32780 ram_io FAT_SET demo_dev False 7]
  by (simp add: demo_fs16_def FAT12_def)

theorem fatentry_span_leak_witness:
  "\<exists>d' err. fatentry ram_io FAT_SET demo_fs (demo_dev\<lparr>r_bad := [2]\<rparr>) 341 False 7 = Some (d', demo_fs, err, None)
    \<and> 1 \<in> ram_heldset d'"
proof -
  let ?d = "demo_dev\<lparr>r_bad := [2]\<rparr>"
  have blk: "fat_blk demo_fs 341 = 1" using demo_12 by (simp add: fat_blk_def fat_off_def off12_def demo_fs_def)
  obtain d1 bp0 where r0: "fat_bread ram_io demo_fs ?d 1 = Some (d1, bp0)" "lgeterror ram_io bp0 = 0" "r_bad d1 = [2]"
    using demo_dev_reads [of 1 ?d] by auto
  obtain d2 bp1 where r1: "fat_bread ram_io demo_fs d1 2 = Some (d2, bp1)" "lgeterror ram_io bp1 \<noteq> 0"
    using demo_dev_fails [of 2 d1] r0(3) by auto
  have fr: "fatblks demo_fs \<inter> ram_heldset ?d = {}" by (simp add: ram_heldset_def demo_dev_def)
  have c: "CLUST_FIRST \<le> 341" "341 \<le> vfs_maxcluster demo_fs" by (simp_all add: CLUST_FIRST_def demo_max)
  have f: "FAT_SET AND (FAT_SET OR FAT_GET) \<noteq> 0" "FAT_SET AND FAT_GET \<noteq> 0 \<longrightarrow> False"
    by (simp_all add: FAT_SET_def FAT_GET_def)
  have sp: "off12 341 mod 512 = 511" by (simp add: off12_def)
  have r1': "fat_bread ram_io demo_fs d1 (fat_blk demo_fs 341 + 1) = Some (d2, bp1)"
    using r1(1) by (simp add: blk numeral_2_eq_2)
  note l = fatentry_span_leak [OF ram_io_ok demo_mount fr c demo_12 sp f r0(1,2) [folded blk] r1' r1(2), of 7]
  then show ?thesis unfolding blk by blast
qed

text \<open>A device without read errors never fails an entry operation.\<close>

lemma good_io_done:
  assumes "mount_ok pvp" and "fatblks pvp \<inter> ram_heldset d = {}"
    and "CLUST_FIRST \<le> c" and "c \<le> vfs_maxcluster pvp" and "FAT12 pvp \<or> c < 32768"
    and "fn AND (FAT_SET OR FAT_GET) \<noteq> 0" and "fn AND FAT_GET \<noteq> 0 \<longrightarrow> oldp"
  shows "entry_done ram_view ram_heldset (ram_heldset d) pvp (ram_view d) c fn w (fatentry good_io fn pvp d c oldp w)"
proof -
  have z: "lgeterror good_io lb = 0" for lb by (auto simp: lgeterror_def good_io_def first_error_0)
  show ?thesis
    using fatentry_run [OF good_io_ok assms, of w] by (auto simp: entry_failed_def z)
qed

theorem fatentry_set_get_witness:
  "\<exists>d1 pvp1 d2. fatentry good_io FAT_SET demo_fs demo_dev 341 False 0x2a5 = Some (d1, pvp1, 0, None)
    \<and> fatentry good_io FAT_GET pvp1 d1 341 True 0 = Some (d2, pvp1, 0, Some (fat_norm demo_fs 0x2a5))"
proof -
  have f: "FAT_SET AND (FAT_SET OR FAT_GET) \<noteq> 0" "FAT_SET AND FAT_GET = 0" "FAT_SET AND FAT_SET \<noteq> 0"
      "FAT_GET AND (FAT_SET OR FAT_GET) \<noteq> 0" "FAT_GET AND FAT_GET \<noteq> 0" "FAT_GET AND FAT_SET = 0"
    by (simp_all add: FAT_SET_def FAT_GET_def)
  have c: "CLUST_FIRST \<le> 341" "341 \<le> vfs_maxcluster demo_fs" by (simp_all add: CLUST_FIRST_def demo_max)
  obtain d1 where s: "fatentry good_io FAT_SET demo_fs demo_dev 341 False 0x2a5
        = Some (d1, demo_fs\<lparr>vfs_fmod := vfs_fmod demo_fs + 1\<rparr>, 0, None)" "ram_heldset d1 = ram_heldset demo_dev"
    using good_io_done [OF demo_mount demo_free c disjI1 [OF demo_12] f(1), of False "0x2a5"] f
    by (auto simp: entry_done_def)
  let ?p = "demo_fs\<lparr>vfs_fmod := vfs_fmod demo_fs + 1\<rparr>"
  have sf: "same_fs demo_fs ?p" by simp
  have m1: "mount_ok ?p" by (rule same_fs_mount [OF sf _ demo_mount]) simp
  note geo = same_fs_geo [OF sf]
  have fr: "fatblks ?p \<inter> ram_heldset d1 = {}" using demo_free s(2) by (simp add: geo)
  obtain d2 old where g: "fatentry good_io FAT_GET ?p d1 341 True 0 = Some (d2, ?p, 0, old)"
    using good_io_done [OF m1 fr c(1) _ _ f(4), of True 0] c(2) f demo_12
    by (auto simp: entry_done_def geo)
  have "old = Some (fat_norm demo_fs 0x2a5)"
    using fatentry_set_get [OF good_io_ok demo_mount demo_free c c disjI1 [OF demo_12] s(1) g] by simp
  with s(1) g show ?thesis by blast
qed

end
