(* ===== verification/VolProps.thy ===== *)
theory VolProps
  imports FatAlloc FatProps
begin

text \<open>
  The properties of cluster allocation: what each operation does to the set of free clusters of a
  volume, that freeing a chain ends, and that no sequence of operations hands out a cluster twice.
\<close>

section \<open>A volume for the witnesses\<close>

lemma demo_view: "ram_view demo_dev b ! i = 0" if "i < 512"
  using that by (simp add: ram_view_def demo_dev_def DEV_BSIZE_def)

lemma demo_fat: "fat_at demo_fs (ram_view demo_dev) c = 0"
  by (simp add: fat_at_12 [OF demo_12] demo_view tw_word_def tw_get12_def widen12_def)

lemma demo_free_set: "free_set demo_fs (ram_view demo_dev) = {2..400}"
  by (auto simp: free_set_def demo_fat CLUST_FIRST_def demo_max)

lemma demo_bits: "c < 408 \<Longrightarrow> inuse_tst (vfs_inusemap demo_fs) c \<longleftrightarrow> c < 2 \<or> 400 < c"
proof -
  assume c: "c < 408"
  define q r where "q = c div 8" and "r = c mod 8"
  have qr: "c = 8 * q + r" "r < 8" "q < 51" using c by (simp_all add: q_def r_def less_mult_imp_div_less)
  have m: "vfs_inusemap demo_fs = 3 # replicate 49 0 @ [0xfe]" by (simp add: demo_fs_def)
  have t: "inuse_tst (vfs_inusemap demo_fs) c = bit ((3 # replicate 49 0 @ [0xfe :: u8]) ! q) r"
    by (simp add: inuse_tst_bit m q_def r_def)
  have b: "(3 :: u8) = mask 2" "(0xfe :: u8) = push_bit 1 (mask 7)"
    by (simp_all add: mask_eq_exp_minus_1 push_bit_eq_mult)
  have "q = 0 \<or> q = Suc (q - 1) \<and> q - 1 < 49 \<or> q = 50" using qr(3) by linarith
  then consider (first) "q = 0" | (mid) k where "q = Suc k" "k < 49" | (last) "q = 50" by metis
  then show ?thesis
  proof cases
    case first
    then have "inuse_tst (vfs_inusemap demo_fs) c = bit (3 :: u8) r" unfolding t by simp
    then show ?thesis using first qr by (simp add: b(1) bit_mask_iff)
  next
    case (mid k)
    then have "inuse_tst (vfs_inusemap demo_fs) c = bit (0 :: u8) r" unfolding t by (simp add: nth_append)
    then show ?thesis using mid qr by simp
  next
    case last
    then have "inuse_tst (vfs_inusemap demo_fs) c = bit (0xfe :: u8) r" unfolding t by (simp add: nth_append)
    then show ?thesis using last qr by (simp only: b(2) bit_push_bit_iff bit_mask_iff) auto
  qed
qed

lemma demo_vol: "vol_ok demo_fs (ram_view demo_dev)"
proof -
  have cap: "inuse_cap (vfs_inusemap demo_fs) = 408" by (simp add: inuse_cap_def demo_fs_def)
  have "inuse.used (vfs_inusemap demo_fs) = {..<inuse_cap (vfs_inusemap demo_fs)} - free_set demo_fs (ram_view demo_dev)"
    unfolding inuse.used_def cap demo_free_set using demo_bits by auto
  moreover have "vfs_freeclustercount demo_fs = 399" by (simp add: demo_fs_def)
  ultimately have "map_ok demo_fs (ram_view demo_dev)" by (simp add: map_ok_def demo_free_set)
  moreover have "synced demo_fs (ram_view demo_dev)" by (simp add: synced_def ram_view_def demo_dev_def)
  ultimately show ?thesis using demo_mount demo_12 by (simp add: vol_ok_def no_wrap_def)
qed

section \<open>Properties\<close>

text \<open>On a consistent volume \<open>clusteralloc\<close> returns ENOSPC exactly when no cluster is free.
  Otherwise it takes the least free cluster: its entry becomes the fill value, every other entry
  keeps its value, the set of free clusters loses just that cluster, all buffers are given back and
  the volume is consistent again; or it reports the error of a failed read, leaves the device and the
  mount structure as they were, and hands out nothing.\<close>

theorem clusteralloc_least:
  assumes ok: "bio_ok io view held" and v: "vol_ok pvp (view d)" and fr: "fatblks pvp \<inter> held d = {}"
    and w: "fat_norm pvp w \<noteq> 0"
  shows "\<exists>d' pvp' err cn. clusteralloc io pvp d w = Some (d', pvp', err, cn)
    \<and> (free_set pvp (view d) = {} \<longrightarrow> d' = d \<and> pvp' = pvp \<and> err = ENOSPC \<and> cn = None)
    \<and> (free_set pvp (view d) \<noteq> {} \<and> err = 0 \<longrightarrow>
        cn = Some (Min (free_set pvp (view d)))
        \<and> free_set pvp' (view d') = free_set pvp (view d) - {Min (free_set pvp (view d))}
        \<and> (\<forall>c \<le> vfs_maxcluster pvp. fat_at pvp' (view d') c =
             (if Some c = cn then fat_norm pvp w else fat_at pvp (view d) c))
        \<and> held d' = held d \<and> vol_ok pvp' (view d'))
    \<and> (free_set pvp (view d) \<noteq> {} \<and> err \<noteq> 0 \<longrightarrow>
        (\<exists>lb. err = lgeterror io lb) \<and> view d' = view d \<and> pvp' = pvp \<and> cn = None)"
proof (cases rule: clusteralloc_cases [OF assms, case_names full taken failed])
  case full
  then show ?thesis by (simp add: ENOSPC_def)
next
  case (taken d' pvp' c)
  show ?thesis
    by (intro exI conjI, rule taken(1)) (use taken in \<open>auto simp: fat_stored_def same_fs_geo [OF taken(6)]\<close>)
next
  case (failed d' err)
  show ?thesis by (intro exI conjI, rule failed(1)) (use failed in auto)
qed

theorem clusteralloc_least_witness:
  "\<exists>d' pvp' err. clusteralloc good_io demo_fs demo_dev CLUST_EOFE = Some (d', pvp', err, if err = 0 then Some 2 else None)
    \<and> (err = 0 \<longrightarrow> vol_ok pvp' (ram_view d'))"
proof -
  have w: "fat_norm demo_fs CLUST_EOFE \<noteq> 0" by (simp add: fat_norm_eof)
  have m: "Min {2..400} = (2::nat)" by (rule Min_eqI) auto
  show ?thesis
    using clusteralloc_least [OF good_io_ok demo_vol demo_free w]
    unfolding demo_free_set m
  proof (elim exE conjE, goal_cases)
    case (1 d' pvp' err cn)
    have "cn = (if err = 0 then Some 2 else None)" using 1(3,4) by simp
    with 1(1) have "clusteralloc good_io demo_fs demo_dev CLUST_EOFE
      = Some (d', pvp', err, if err = 0 then Some 2 else None)" by simp
    moreover have "err = 0 \<longrightarrow> vol_ok pvp' (ram_view d')" using 1(3) by simp
    ultimately show ?case by (intro exI conjI)
  qed
qed

text \<open>\<open>clusterfree\<close> on a cluster in use frees it: the set of free clusters gains exactly it, no
  other entry changes, the volume stays consistent; or a failed read is reported and nothing changes.\<close>

theorem clusterfree_frees:
  assumes ok: "bio_ok io view held" and v: "vol_ok pvp (view d)" and fr: "fatblks pvp \<inter> held d = {}"
    and c: "c \<in> busy pvp (view d)"
  shows "\<exists>d' pvp' err. clusterfree io pvp d c = Some (d', pvp', err)
    \<and> (if err = 0 then free_set pvp' (view d') = insert c (free_set pvp (view d))
          \<and> (\<forall>c' \<le> vfs_maxcluster pvp. c' \<noteq> c \<longrightarrow> fat_at pvp' (view d') c' = fat_at pvp (view d) c')
          \<and> held d' = held d \<and> vol_ok pvp' (view d')
        else (\<exists>lb. err = lgeterror io lb) \<and> view d' = view d \<and> pvp' = pvp)"
proof -
  have c': "CLUST_FIRST \<le> c" "c \<le> vfs_maxcluster pvp" "c \<notin> free_set pvp (view d)"
    using c by (simp_all add: busy_iff)
  show ?thesis
  proof (cases rule: clusterfree_cases [OF ok v fr c', case_names freed failed])
    case (freed d' pvp')
    show ?thesis
      by (intro exI conjI, rule freed(1)) (use freed in \<open>auto simp: fat_stored_def same_fs_geo [OF freed(3)]\<close>)
  next
    case (failed d' err)
    show ?thesis by (intro exI conjI, rule failed(1)) (use failed in auto)
  qed
qed

text \<open>C13: Freeing a chain of allocated clusters with at least one unit of fuel more than its length
  frees exactly the clusters of the chain and gives every buffer back. When a read fails on the way, the
  error is reported and exactly a prefix of the chain has been freed; in both cases the volume is
  consistent and no entry outside the freed clusters has changed.\<close>

theorem freeclusterchain_frees:
  assumes "bio_ok io view held" and "vol_ok pvp (view d)" and "fatblks pvp \<inter> held d = {}"
    and "chain (fat_at pvp (view d)) (vfs_maxcluster pvp) c xs" and "set xs \<subseteq> busy pvp (view d)" and "length xs < fuel"
  shows "\<exists>d' pvp' err ys zs. freeclusterchain io fuel pvp d c = Some (d', pvp', err) \<and> xs = ys @ zs
    \<and> (err = 0 \<longrightarrow> ys = xs \<and> held d' = held d) \<and> (err \<noteq> 0 \<longrightarrow> (\<exists>lb. err = lgeterror io lb))
    \<and> vol_ok pvp' (view d') \<and> free_set pvp' (view d') = free_set pvp (view d) \<union> set ys
    \<and> (\<forall>c' \<le> vfs_maxcluster pvp. c' \<notin> set ys \<longrightarrow> fat_at pvp' (view d') c' = fat_at pvp (view d) c')"
proof -
  have dis: "set xs \<inter> free_set pvp (view d) = {}" using assms(5) by (auto simp: busy_iff)
  from freechain_ok [OF assms(1-4) dis assms(6)] show ?thesis
  proof (elim exE conjE, goal_cases)
    case (1 d' pvp' err ys zs)
    show ?case by (intro exI conjI, rule 1(1)) (use 1(2-) in \<open>auto simp: same_fs_geo\<close>)
  qed
qed

text \<open>C14: \<open>freeclusterchain\<close> ends for every start and every contents of the table, cyclic chains
  included: as many units of fuel as the volume has cluster numbers, plus one, always give a result.\<close>

theorem freeclusterchain_ends:
  assumes ok: "bio_ok io view held" and v: "vol_ok pvp (view d)" and fr: "fatblks pvp \<inter> held d = {}"
    and "vfs_maxcluster pvp < fuel" and "2 \<le> fuel"
  shows "\<exists>d' pvp' err. freeclusterchain io fuel pvp d c = Some (d', pvp', err)"
  using freechain_ends [OF ok v fr, of fuel c] card_busy [of pvp "view d"] assms(4,5) by fastforce

theorem freeclusterchain_ends_witness:
  "\<exists>d' pvp' err. freeclusterchain good_io 401 demo_fs demo_dev 7 = Some (d', pvp', err)"
  by (rule freeclusterchain_ends [OF good_io_ok demo_vol demo_free]) (simp_all add: demo_max)

text \<open>C12: Whatever sequence of allocations, relinkings, releases and chain releases runs on a volume
  whose clusters are all either held or free, that stays so: the volume is consistent, no table block
  is locked, the count of free clusters is the number of clusters not held, and an
  allocation never returns a cluster that is held.\<close>

theorem cluster_no_double_allocation:
  assumes ok: "bio_ok io view held" and run: "fs_reach io view (d0, pvp0, A0) (d, pvp, A)"
    and start: "vol_ok pvp0 (view d0)" "fatblks pvp0 \<inter> held d0 = {}" "A0 = busy pvp0 (view d0)"
  shows "vol_ok pvp (view d) \<and> fatblks pvp \<inter> held d = {}
    \<and> A \<union> free_set pvp (view d) = {CLUST_FIRST..vfs_maxcluster pvp} \<and> A \<inter> free_set pvp (view d) = {}
    \<and> vfs_freeclustercount pvp = int (card ({CLUST_FIRST..vfs_maxcluster pvp} - A))
    \<and> (\<forall>w d' pvp' c. fat_norm pvp w \<noteq> 0 \<longrightarrow> clusteralloc io pvp d w = Some (d', pvp', 0, Some c) \<longrightarrow> c \<notin> A)"
proof -
  have inv: "fs_inv view held (d, pvp, A)"
    by (rule fs_reach_inv [OF ok run]) (use start in \<open>simp add: fs_inv_def\<close>)
  then have v: "vol_ok pvp (view d)" "fatblks pvp \<inter> held d = {}" and A: "A = busy pvp (view d)"
    by (simp_all add: fs_inv_def)
  have u: "A \<union> free_set pvp (view d) = {CLUST_FIRST..vfs_maxcluster pvp}" "A \<inter> free_set pvp (view d) = {}"
    unfolding A busy_def by (auto simp: free_set_def)
  have "free_set pvp (view d) = {CLUST_FIRST..vfs_maxcluster pvp} - A" using u by blast
  then have n: "vfs_freeclustercount pvp = int (card ({CLUST_FIRST..vfs_maxcluster pvp} - A))"
    using v(1) by (simp add: vol_ok_def map_ok_def)
  have al: "c \<notin> A" if "fat_norm pvp w \<noteq> 0" "clusteralloc io pvp d w = Some (d', pvp', 0, Some c)" for w d' pvp' c
  proof (cases rule: clusteralloc_cases [OF ok v that(1), case_names full taken failed])
    case (taken e q k)
    then have "c \<in> free_set pvp (view d)" using that(2) by simp
    then show ?thesis using u(2) by blast
  qed (use that(2) in simp_all)
  show ?thesis using v u n al by blast
qed

text \<open>A run for the witnesses: allocate one cluster, then free it.\<close>

lemma demo_alloc:
  "\<exists>d' pvp'. clusteralloc good_io demo_fs demo_dev CLUST_EOFE = Some (d', pvp', 0, Some 2)
    \<and> vol_ok pvp' (ram_view d') \<and> fatblks pvp' \<inter> ram_heldset d' = {} \<and> busy pvp' (ram_view d') = {2}
    \<and> fat_at pvp' (ram_view d') 2 = 0xffff \<and> vfs_maxcluster pvp' = 400"
proof -
  have w: "fat_norm demo_fs CLUST_EOFE \<noteq> 0" by (simp add: fat_norm_eof)
  have m: "Min {2..400} = (2::nat)" by (rule Min_eqI) auto
  show ?thesis
  proof (cases rule: clusteralloc_cases [OF good_io_ok demo_vol demo_free w, case_names full taken failed])
    case full
    then show ?thesis by (simp add: demo_free_set)
  next
    case (taken d' pvp' c)
    note geo = same_fs_geo [OF taken(6)]
    have c: "c = 2" using taken(3) by (simp add: demo_free_set m)
    have "busy pvp' (ram_view d') = {2}" by (auto simp: busy_def geo taken(9) demo_free_set c demo_max CLUST_FIRST_def)
    moreover have "fat_at pvp' (ram_view d') 2 = 0xffff"
      using taken(8) by (simp add: c geo fat_stored_def demo_max fat_norm_eof)
    ultimately show ?thesis using taken(1,5,7) c demo_free
      by (intro exI [of _ d'] exI [of _ pvp'] conjI) (simp_all add: geo demo_max)
  next
    case (failed d' err)
    then show ?thesis by (auto simp: good_err)
  qed
qed

theorem clusterfree_frees_witness:
  "\<exists>d pvp d' pvp'. clusteralloc good_io demo_fs demo_dev CLUST_EOFE = Some (d, pvp, 0, Some 2)
    \<and> clusterfree good_io pvp d 2 = Some (d', pvp', 0) \<and> vol_ok pvp' (ram_view d')"
proof -
  obtain d pvp where a: "clusteralloc good_io demo_fs demo_dev CLUST_EOFE = Some (d, pvp, 0, Some 2)"
      "vol_ok pvp (ram_view d)" "fatblks pvp \<inter> ram_heldset d = {}" "busy pvp (ram_view d) = {2}"
    using demo_alloc by (elim exE conjE) (rule that)
  have "2 \<in> busy pvp (ram_view d)" using a(4) by simp
  from clusterfree_frees [OF good_io_ok a(2,3) this] show ?thesis
  proof (elim exE conjE, goal_cases)
    case (1 d' pvp' err)
    then have "err = 0" by (auto simp: good_err split: if_splits)
    with 1 a(1) show ?case by auto
  qed
qed

theorem freeclusterchain_frees_witness:
  "\<exists>d pvp d' pvp'. clusteralloc good_io demo_fs demo_dev CLUST_EOFE = Some (d, pvp, 0, Some 2)
    \<and> freeclusterchain good_io 2 pvp d 2 = Some (d', pvp', 0) \<and> 2 \<in> free_set pvp' (ram_view d')"
proof -
  obtain d pvp where a: "clusteralloc good_io demo_fs demo_dev CLUST_EOFE = Some (d, pvp, 0, Some 2)"
      "vol_ok pvp (ram_view d)" "fatblks pvp \<inter> ram_heldset d = {}" "busy pvp (ram_view d) = {2}"
      "fat_at pvp (ram_view d) 2 = 0xffff" "vfs_maxcluster pvp = 400"
    using demo_alloc by (elim exE conjE) (rule that)
  have ch: "chain (fat_at pvp (ram_view d)) (vfs_maxcluster pvp) 2 [2]" using a(5,6) by (simp add: CLUST_FIRST_def)
  have b: "set [2] \<subseteq> busy pvp (ram_view d)" "length [2::nat] < 2" using a(4) by simp_all
  from freeclusterchain_frees [OF good_io_ok a(2,3) ch b] show ?thesis
  proof (elim exE conjE, goal_cases)
    case (1 d' pvp' err ys zs)
    have "err = 0" using 1(4) by (auto simp: good_err)
    with 1 a(1) show ?case by auto
  qed
qed

theorem cluster_no_double_allocation_witness:
  "\<exists>d pvp. clusteralloc good_io demo_fs demo_dev CLUST_EOFE = Some (d, pvp, 0, Some 2)
    \<and> fs_reach good_io ram_view (demo_dev, demo_fs, {}) (d, pvp, {2}) \<and> vfs_freeclustercount pvp = 398"
proof -
  obtain d pvp where a: "clusteralloc good_io demo_fs demo_dev CLUST_EOFE = Some (d, pvp, 0, Some 2)"
      "vfs_maxcluster pvp = 400"
    using demo_alloc by (elim exE conjE) (rule that)
  have w: "fat_norm demo_fs CLUST_EOFE \<noteq> 0" by (simp add: fat_norm_eof)
  have r: "fs_reach good_io ram_view (demo_dev, demo_fs, {}) (d, pvp, insert 2 {})"
    by (rule reach_step [OF reach_start fs_alloc [OF a(1) w]])
  have e: "{} = busy demo_fs (ram_view demo_dev)" by (simp add: busy_def demo_free_set demo_max CLUST_FIRST_def)
  have "card ({CLUST_FIRST..vfs_maxcluster pvp} - {2}) = 398" by (simp add: a(2) CLUST_FIRST_def)
  then have "vfs_freeclustercount pvp = 398"
    using cluster_no_double_allocation [OF good_io_ok r demo_vol demo_free e] by simp
  with a(1) r show ?thesis by blast
qed

end
