(* ===== verification/FileProps.thy ===== *)
theory FileProps
  imports FatFile VolProps
begin

text \<open>
  The properties of the scan of the table at mount time, of the map from a file's positions to
  clusters with its cache, and of extending a file.
\<close>

section \<open>Properties\<close>

text \<open>C17: The scan at mount time makes the volume consistent: unless a read error is reported, the map of
  clusters in use and the count agree with the table, and the search hint is the least free cluster, or
  negative when there is none. It writes nothing and gives every buffer back.\<close>

theorem fillinusemap_establishes:
  assumes "bio_ok io view held" and "mount_ok pvp" and "fatblks pvp \<inter> held d = {}"
    and "no_wrap pvp" and "synced pvp (view d)" and "CLUST_FIRST \<le> vfs_maxcluster pvp"
  shows "\<exists>d' pvp' err. fillinusemap io pvp d = Some (d', pvp', err) \<and> view d' = view d \<and> held d' = held d
    \<and> (if err = 0 then vol_ok pvp' (view d')
          \<and> vfs_lookhere pvp' = (if free_set pvp (view d) = {} then - 1 else int (Min (free_set pvp (view d))))
        else dev_err io err)"
proof -
  have syn: "synced q (view d)" "no_wrap q" if "same_fs pvp q" for q
    using assms(4,5) by (simp_all add: synced_def no_wrap_def same_fs_geo [OF that])
  from fillinusemap_ok [OF assms(1-3,6)] show ?thesis
  proof (elim exE conjE, goal_cases)
    case (1 d' q e)
    show ?case by (intro exI conjI, rule 1(1)) (use 1 syn [OF 1(4)] in \<open>auto simp: vol_ok_def\<close>)
  qed
qed

theorem fillinusemap_establishes_witness:
  "\<exists>d' pvp'. fillinusemap good_io demo_fs demo_dev = Some (d', pvp', 0) \<and> vol_ok pvp' (ram_view d')
    \<and> vfs_lookhere pvp' = 2"
proof -
  have s: "no_wrap demo_fs" "synced demo_fs (ram_view demo_dev)" "CLUST_FIRST \<le> vfs_maxcluster demo_fs"
    using demo_vol by (simp_all add: vol_ok_def demo_max CLUST_FIRST_def)
  have m: "Min {2..400} = (2::nat)" by (rule Min_eqI) auto
  from fillinusemap_establishes [OF good_io_ok demo_mount demo_free s] show ?thesis
  proof (elim exE conjE, goal_cases)
    case (1 d' q e)
    have "e = 0" using 1(4) no_dev_err [of good_io] good_err by (auto split: if_splits)
    then show ?case using 1 by (auto simp: demo_free_set m)
  qed
qed

text \<open>C16: \<open>pcbmap\<close> on a file with clusters \<open>xs\<close> and a true cache returns the cluster (and its block) at the
  wanted position, or E2BIG and the number of clusters when the position is past the end, or reports a
  read error. Only the cache of the file changes, and it stays true.\<close>

theorem pcbmap_finds:
  assumes ok: "bio_ok io view held" and m: "mount_ok pvp" and fr: "fatblks pvp \<inter> held d = {}"
    and fl: "file_at pvp (view d) (de_StartCluster dep) xs" and fc: "fc_ok dep xs" and want: "wb \<or> wc"
  shows "\<exists>d' dep' err bn cn. pcbmap io pvp d dep f wb wc = Some (d', dep', err, bn, cn)
    \<and> view d' = view d \<and> held d' = held d \<and> fc_ok dep' xs \<and> dep'\<lparr>de_fc := de_fc dep\<rparr> = dep
    \<and> (dev_err io err \<and> bn = None \<and> cn = None
       \<or> f < length xs \<and> err = 0 \<and> bn = (if wb then Some (cntobn pvp (xs ! f)) else None)
          \<and> cn = (if wc then Some (xs ! f) else None)
       \<or> length xs \<le> f \<and> err = E2BIG \<and> bn = None \<and> cn = (if wc then Some (length xs) else None))"
proof -
  have ne: "xs \<noteq> []" and len: "length xs < 0xffff" using fl by (simp_all add: file_at_def)
  have rng: "x < 65536" if "x \<in> set xs" for x
    using fl m that by (auto simp: file_at_def mount_ok_def dest!: chain_range)
  show ?thesis
  proof (cases rule: pcbmap_cases [OF ok m fr fl fc want, where f = f, case_names err found eof])
    case (err d' e)
    show ?thesis by (intro exI conjI, rule err(1)) (use err fc in auto)
  next
    case (found d')
    have fc': "fc_ok (fc_setcache dep FC_LASTMAP f (xs ! f)) xs"
      by (rule fc_set_map [OF fc found(1) len]) (use rng found(1) in simp)
    show ?thesis
      by (intro exI conjI, rule found(2)) (use fc' found(1,3,4) in \<open>simp_all add: fc_setcache_def\<close>)
  next
    case (eof d')
    have fc': "fc_ok (fc_setcache dep FC_LASTFC (length xs - 1) (last xs)) xs"
      by (rule fc_set_last [OF fc ne len]) (use rng ne in simp)
    show ?thesis
      by (intro exI conjI, rule eof(2)) (use fc' eof(1,3,4) in \<open>simp_all add: fc_setcache_def\<close>)
  qed
qed

text \<open>An empty file of the witnesses, and one with the first cluster.\<close>

definition demo_file :: "u16 \<Rightarrow> denode" where
  "demo_file s = \<lparr>de_flag = 0, de_dirclust = 0, de_diroffset = 0, de_refcnt = 1,
     de_de = \<lparr>deName = [], deExtension = [], deAttributes = 0, deReserved = [], deTime = 0, deDate = 0,
       deStartCluster = s, deFileSize = 0\<rparr>,
     de_fc = [\<lparr>fc_frcn = FCE_EMPTY, fc_fsrcn = 0\<rparr>, \<lparr>fc_frcn = FCE_EMPTY, fc_fsrcn = 0\<rparr>],
     de_lastr = 0, de_frspace = 0, de_froffset = 0, de_frcluster = 0, de_vroot = False\<rparr>"

lemma demo_file_fc: "fc_ok (demo_file s) xs"
  by (simp add: fc_ok_def demo_file_def FC_SIZE_def FC_LASTFC_def)

theorem pcbmap_finds_witness:
  "\<exists>d pvp d' dep'. clusteralloc good_io demo_fs demo_dev CLUST_EOFE = Some (d, pvp, 0, Some 2)
    \<and> pcbmap good_io pvp d (demo_file 2) 5 False True = Some (d', dep', E2BIG, None, Some 1) \<and> fc_ok dep' [2]"
proof -
  obtain d pvp where a: "clusteralloc good_io demo_fs demo_dev CLUST_EOFE = Some (d, pvp, 0, Some 2)"
      "vol_ok pvp (ram_view d)" "fatblks pvp \<inter> ram_heldset d = {}"
      "fat_at pvp (ram_view d) 2 = 0xffff" "vfs_maxcluster pvp = 400"
    using demo_alloc by (elim exE conjE) (rule that)
  have s: "de_StartCluster (demo_file 2) = 2" by (simp add: demo_file_def)
  have fl: "file_at pvp (ram_view d) (de_StartCluster (demo_file 2)) [2]"
    using a(4,5) DOSFSEOF_16 [of "0xffff"] unfolding s by (simp add: file_at_def CLUST_FIRST_def)
  have m: "mount_ok pvp" using a(2) by (simp add: vol_ok_def)
  have w: "False \<or> True" by simp
  from pcbmap_finds [OF good_io_ok m a(3) fl demo_file_fc w, of 5] show ?thesis
  proof (elim exE conjE, goal_cases)
    case (1 d' dep' err bn cn)
    have "\<not> dev_err good_io err" by (rule no_dev_err) (simp add: good_err)
    then have "err = E2BIG \<and> bn = None \<and> cn = Some 1" using 1(6) by simp
    with 1(1,4) a(1) show ?case by auto
  qed
qed

lemma extendfile_ok:
  assumes ok: "bio_ok io view held" and v: "vol_ok pvp (view d)" and fr: "fatblks pvp \<inter> held d = {}"
    and good: "\<forall>lb. lgeterror io lb = 0" and fl: "file_ok pvp (view d) dep xs" and len: "length xs + 1 < 0xffff"
    and root: "\<not> de_vroot dep" and c: "c = Min (free_set pvp (view d))" and low: "free_set pvp (view d) \<noteq> {} \<and> FAT12 pvp \<longrightarrow> c < 4080"
    and buf: "free_set pvp (view d) \<noteq> {} \<and> wb \<longrightarrow> vfs_bpcluster pvp = n * DEV_BSIZE \<and> n \<le> MAXCLUSTBLOCKS
        \<and> {cntobn pvp c..<cntobn pvp c + n} \<inter> held d = {}"
  shows "\<exists>d' pvp' dep' err bp cn. extendfile io pvp d dep wb wc = Some (d', pvp', dep', err, bp, cn)
    \<and> vol_ok pvp' (view d') \<and> same_fs pvp pvp' \<and> de_vroot dep' = de_vroot dep
    \<and> (\<forall>s. s \<notin> fatblks pvp \<longrightarrow> view d' s = view d s)
    \<and> (if free_set pvp (view d) = {} then err = ENOSPC \<and> pvp' = pvp \<and> view d' = view d \<and> held d' = held d
          \<and> file_ok pvp' (view d') dep' xs \<and> bp = None \<and> cn = None
        else err = 0 \<and> file_ok pvp' (view d') dep' (xs @ [c]) \<and> cn = (if wc then Some c else None)
          \<and> free_set pvp' (view d') = free_set pvp (view d) - {c}
          \<and> (\<forall>x \<le> vfs_maxcluster pvp. x \<notin> set xs \<and> x \<noteq> c \<longrightarrow> fat_at pvp' (view d') x = fat_at pvp (view d) x)
          \<and> (if wb then \<exists>lb. bp = Some lb \<and> lbuf_at lb (cntobn pvp c) n \<and> lb_addr lb = replicate (vfs_bpcluster pvp) 0
                \<and> held d' = held d \<union> {cntobn pvp c..<cntobn pvp c + n}
              else bp = None \<and> held d' = held d))"
proof -
  have m: "mount_ok pvp" using v by (simp add: vol_ok_def)
  have len0: "length xs < 0xffff" using len by simp
  obtain d1 dep1 where e1: "ext_last io pvp d dep = Some (d1, dep1, None)" "view d1 = view d" "held d1 = held d"
      "de_de dep1 = de_de dep" "file_ok pvp (view d1) dep1 xs"
      "xs \<noteq> [] \<longrightarrow> fc_frcn (de_fc dep1 ! FC_LASTFC) = length xs - 1 \<and> fc_fsrcn (de_fc dep1 ! FC_LASTFC) = last xs"
      "de_vroot dep1 = de_vroot dep"
    by (rule ext_last_ok [OF ok m fr good fl len0])
  have v1: "vol_ok pvp (view d1)" "fatblks pvp \<inter> held d1 = {}" using v fr e1 by simp_all
  have w: "fat_norm pvp CLUST_EOFE \<noteq> 0" by (simp add: fat_norm_eof)
  note run = extendfile_def [of io pvp d dep wb wc, unfolded if_not_P [OF root] e1(1)]
  show ?thesis
  proof (cases rule: clusteralloc_cases [OF ok v1 w, case_names full taken failed])
    case full
    then have "extendfile io pvp d dep wb wc = Some (d1, pvp, dep1, ENOSPC, None, None)"
      by (simp add: run ENOSPC_def)
    then show ?thesis by (intro exI conjI, assumption) (use full v e1 in simp_all)
  next
    case (taken d2 pvp2 c')
    have cc: "c' = c" using taken(3) c e1(2) by simp
    note t = taken [unfolded cc]
    have cr: "CLUST_FIRST \<le> c" "c \<le> vfs_maxcluster pvp" using t(4) by (simp_all add: free_set_def)
    have disj: "set xs \<subseteq> busy pvp (view d)" using fl by (simp add: file_ok_def)
    then have cx: "c \<notin> set xs" using t(4) e1(2) by (auto simp: busy_iff)
    note geo = same_fs_geo [OF t(6)] same_fs_file [OF t(6)]
    have f2: "fatblks pvp2 \<inter> held d2 = {}" using v1(2) t(5) by (simp add: geo)
    have cn: "fat_norm pvp2 c = c" using link_norm [OF m cr(2)] low t(2) e1(2) by (simp add: geo)
    have st: "fat_stored pvp2 (view d1) (view d2) c CLUST_EOFE" using t(8) by (simp add: geo)
    have used: "set xs \<inter> free_set pvp2 (view d2) = {}" using disj t(9) e1(2) by (auto simp: busy_iff)
    have fc: "fc_ok dep1 xs" using e1(5) by (simp add: file_ok_def)
    have fa: "if xs = [] then de_StartCluster dep1 = 0 else file_at pvp2 (view d1) (de_StartCluster dep1) xs
        \<and> fc_frcn (de_fc dep1 ! FC_LASTFC) = length xs - 1 \<and> fc_fsrcn (de_fc dep1 ! FC_LASTFC) = last xs"
      using e1(5,6) by (simp add: file_ok_def geo)
    have cr2: "c \<le> vfs_maxcluster pvp2" using cr by (simp add: geo)
    obtain d3 pvp3 dep3 where e3: "ext_chain io pvp2 d2 dep1 c = Some (d3, pvp3, dep3, 0, length xs)" "held d3 = held d2"
        "same_fs pvp2 pvp3" "vol_ok pvp3 (view d3)" "free_set pvp3 (view d3) = free_set pvp2 (view d2)"
        "file_at pvp2 (view d3) (de_StartCluster dep3) (xs @ [c])" "fc_ok dep3 xs" "de_vroot dep3 = de_vroot dep1"
        "\<forall>x \<le> vfs_maxcluster pvp2. x \<notin> set xs \<longrightarrow> fat_at pvp2 (view d3) x = fat_at pvp2 (view d2) x"
        "\<forall>s. s \<notin> fatblks pvp2 \<longrightarrow> view d3 s = view d2 s"
      by (rule ext_chain_ok [OF ok t(7) f2 good fc fa st cr(1) cr2 cx cn used len])
    let ?dep = "fc_setcache dep3 FC_LASTFC (length xs) c"
    note geo3 = same_fs_geo [OF e3(3)] same_fs_file [OF e3(3)]
    have "c < 65536" using cr(2) m by (simp add: mount_ok_def)
    then have fc4: "fc_ok ?dep (xs @ [c])" by (rule fc_append [OF e3(7) len])
    have fs: "free_set pvp3 (view d3) = free_set pvp (view d) - {c}" using e3(5) t(9) e1(2) by simp
    have "set (xs @ [c]) \<subseteq> busy pvp3 (view d3)"
      using disj cr by (auto simp: busy_iff fs geo geo3)
    then have fin: "file_ok pvp3 (view d3) ?dep (xs @ [c])"
      using fc4 e3(6) by (simp add: file_ok_def geo3 fc_setcache_def)
    have oth: "\<forall>x \<le> vfs_maxcluster pvp. x \<notin> set xs \<and> x \<noteq> c \<longrightarrow> fat_at pvp3 (view d3) x = fat_at pvp (view d) x"
      using e3(9) t(8) e1(2) by (auto simp: geo geo3 fat_stored_def)
    have sf: "same_fs pvp pvp3" "de_vroot ?dep = de_vroot dep"
      using same_fs_trans [OF t(6) e3(3)] e3(8) e1(7) by (simp_all add: fc_setcache_def)
    have bits: "fatblks pvp3 = fatblks pvp" "held d3 = held d" using geo geo3 e3(2) t(5) e1(3) by simp_all
    have outs: "\<forall>s. s \<notin> fatblks pvp \<longrightarrow> view d3 s = view d s"
      using e3(10) t(8) e1(2) by (simp add: geo fat_stored_def)
    have pre: "extendfile io pvp d dep wb wc = do {
        (d, bp) \<leftarrow> (if wb then do { (d, bp) \<leftarrow> lgetblk io d3 (cntobn pvp c) (vfs_bpcluster pvp); Some (d, Some (lclrbuf bp)) }
           else Some (d3, None));
        Some (d, pvp3, ?dep, 0, bp, if wc then Some c else None) }"
      by (simp add: run t(1) e3(1) geo geo3)
    show ?thesis
    proof (cases wb)
      case False
      have "extendfile io pvp d dep wb wc = Some (d3, pvp3, ?dep, 0, None, if wc then Some c else None)"
        unfolding pre using False by simp
      then show ?thesis using False t(2) [unfolded e1(2)] e3(4) fin fs oth bits sf outs by simp
    next
      case True
      have b: "vfs_bpcluster pvp = n * DEV_BSIZE" "n \<le> MAXCLUSTBLOCKS" "{cntobn pvp c..<cntobn pvp c + n} \<inter> held d3 = {}"
        using buf True bits(2) t(2) e1(2) by auto
      obtain d4 lb where g: "lgetblk io d3 (cntobn pvp c) (vfs_bpcluster pvp) = Some (d4, lb)" "view d4 = view d3"
          "held d4 = held d3 \<union> {cntobn pvp c..<cntobn pvp c + n}" "lbuf_at (lclrbuf lb) (cntobn pvp c) n"
          "lb_addr (lclrbuf lb) = replicate (vfs_bpcluster pvp) 0"
        by (rule ext_buf_ok [OF ok b])
      have "extendfile io pvp d dep wb wc = Some (d4, pvp3, ?dep, 0, Some (lclrbuf lb), if wc then Some c else None)"
        unfolding pre using True g(1) by simp
      then show ?thesis using True t(2) [unfolded e1(2)] e3(4) fin fs oth bits sf outs g(2-) by simp
    qed
  next
    case (failed d2 err)
    then show ?thesis using good by auto
  qed
qed

text \<open>C15: Extending a file on a device without read errors: ENOSPC, with nothing changed but the file's
  cache, when no cluster is free. Otherwise the least free cluster is taken and appended to the file's
  list, no entry of another file and no sector outside the tables changes, the volume and the cache are consistent again, and a wanted
  buffer covers the new cluster and is all zeros. In a 12-bit table this holds for clusters below 4080.\<close>

theorem extendfile_appends:
  assumes ok: "bio_ok io view held" and v: "vol_ok pvp (view d)" and fr: "fatblks pvp \<inter> held d = {}"
    and good: "\<forall>lb. lgeterror io lb = 0" and fl: "file_ok pvp (view d) dep xs" and len: "length xs + 1 < 0xffff"
    and root: "\<not> de_vroot dep" and c: "c = Min (free_set pvp (view d))" and low: "free_set pvp (view d) \<noteq> {} \<and> FAT12 pvp \<longrightarrow> c < 4080"
    and buf: "free_set pvp (view d) \<noteq> {} \<and> wb \<longrightarrow> vfs_bpcluster pvp = n * DEV_BSIZE \<and> n \<le> MAXCLUSTBLOCKS
        \<and> {cntobn pvp c..<cntobn pvp c + n} \<inter> held d = {}"
  shows "\<exists>d' pvp' dep' err bp cn. extendfile io pvp d dep wb wc = Some (d', pvp', dep', err, bp, cn)
    \<and> vol_ok pvp' (view d') \<and> same_fs pvp pvp' \<and> de_vroot dep' = de_vroot dep
    \<and> (\<forall>s. s \<notin> fatblks pvp \<longrightarrow> view d' s = view d s)
    \<and> (if free_set pvp (view d) = {} then err = ENOSPC \<and> pvp' = pvp \<and> view d' = view d \<and> held d' = held d
          \<and> file_ok pvp' (view d') dep' xs \<and> bp = None \<and> cn = None
        else err = 0 \<and> file_ok pvp' (view d') dep' (xs @ [c]) \<and> cn = (if wc then Some c else None)
          \<and> free_set pvp' (view d') = free_set pvp (view d) - {c}
          \<and> (\<forall>x \<le> vfs_maxcluster pvp. x \<notin> set xs \<and> x \<noteq> c \<longrightarrow> fat_at pvp' (view d') x = fat_at pvp (view d) x)
          \<and> (if wb then \<exists>lb. bp = Some lb \<and> lbuf_at lb (cntobn pvp c) n \<and> lb_addr lb = replicate (vfs_bpcluster pvp) 0
                \<and> held d' = held d \<union> {cntobn pvp c..<cntobn pvp c + n}
              else bp = None \<and> held d' = held d))"
  by (rule extendfile_ok [OF assms])

theorem extendfile_appends_witness:
  "\<exists>d' pvp' dep' bp. extendfile good_io demo_fs demo_dev (demo_file 0) True True = Some (d', pvp', dep', 0, bp, Some 2)
    \<and> file_ok pvp' (ram_view d') dep' [2]"
proof -
  have m: "2 = Min {2..400::nat}" by (rule Min_eqI [symmetric]) auto
  have c: "2 = Min (free_set demo_fs (ram_view demo_dev))" unfolding demo_free_set by (rule m)
  have fl: "file_ok demo_fs (ram_view demo_dev) (demo_file 0) []"
    using demo_file_fc [of 0 "[]"] by (simp add: file_ok_def demo_file_def)
  have b: "free_set demo_fs (ram_view demo_dev) \<noteq> {} \<and> True \<longrightarrow> vfs_bpcluster demo_fs = 2 * DEV_BSIZE \<and> 2 \<le> MAXCLUSTBLOCKS
        \<and> {cntobn demo_fs 2..<cntobn demo_fs 2 + 2} \<inter> ram_heldset demo_dev = {}"
    by (simp add: demo_fs_def DEV_BSIZE_def MAXCLUSTBLOCKS_def ram_heldset_def demo_dev_def)
  have g: "\<forall>lb. lgeterror good_io lb = 0" by (simp add: good_err)
  have r: "length ([] :: nat list) + 1 < 0xffff" "\<not> de_vroot (demo_file 0)" "free_set demo_fs (ram_view demo_dev) \<noteq> {} \<and> FAT12 demo_fs \<longrightarrow> 2 < (4080::nat)"
    by (simp_all add: demo_file_def)
  from extendfile_appends [OF good_io_ok demo_vol demo_free g fl r(1,2) c r(3) b, of True] show ?thesis
  proof (elim exE conjE, goal_cases)
    case (1 d' pvp' dep' err bp cn)
    have ne: "free_set demo_fs (ram_view demo_dev) \<noteq> {}" by (simp add: demo_free_set)
    have "err = 0" "cn = Some 2" "file_ok pvp' (ram_view d') dep' [2]"
      using 1(6) unfolding if_not_P [OF ne] by simp_all
    with 1(1) show ?case by (intro exI conjI) simp_all
  qed
qed

text \<open>In a 12-bit table of more than 4080 clusters a link to one of the last clusters, from 4080 on, is
  lost: \<open>fatentry\<close> stores it and reads it back as a number past the last cluster, so that the chain
  ends there.\<close>

theorem high_link_lost:
  assumes ok: "bio_ok io view held" and m: "mount_ok pvp" and free: "fatblks pvp \<inter> held d = {}"
    and c: "CLUST_FIRST \<le> c" "c \<le> vfs_maxcluster pvp" and F: "FAT12 pvp" and n: "4080 \<le> n" "n \<le> vfs_maxcluster pvp"
    and set: "fatentry io FAT_SET pvp d c False n = Some (d1, pvp1, 0, old1)"
    and get: "fatentry io FAT_GET pvp1 d1 c True w = Some (d2, pvp2, 0, old2)"
  shows "old2 = Some (n + 0xf000) \<and> vfs_maxcluster pvp < n + 0xf000
    \<and> (chain (fat_at pvp1 (view d1)) (vfs_maxcluster pvp1) c xs \<longrightarrow> xs = [c])"
proof -
  have f: "FAT_SET AND (FAT_SET OR FAT_GET) \<noteq> 0" "FAT_SET AND FAT_GET \<noteq> 0 \<longrightarrow> False" "FAT_SET AND FAT_SET \<noteq> 0"
      "FAT_GET AND (FAT_SET OR FAT_GET) \<noteq> 0" "FAT_GET AND FAT_GET \<noteq> 0"
    by (simp_all add: FAT_SET_def FAT_GET_def)
  have mx: "vfs_maxcluster pvp \<le> 4086" using F by (simp add: FAT12_def)
  have nn: "fat_norm pvp n = n + 0xf000" by (rule link_widened [OF F n(1)]) (use n(2) mx in simp)
  have s: "pvp1 = pvp\<lparr>vfs_fmod := vfs_fmod pvp + 1\<rparr>" "fat_stored pvp (view d) (view d1) c n" "held d1 = held d"
    using fatentry_run [OF ok m free c disjI1 [OF F] f(1,2), of n] f(3)
    by (auto simp: set entry_done_def entry_failed_def)
  have sf: "same_fs pvp pvp1" by (simp add: s(1))
  note geo = same_fs_geo [OF sf]
  have m1: "mount_ok pvp1" by (rule same_fs_mount [OF sf _ m]) (simp add: s(1))
  have e: "fat_at pvp (view d1) c = n + 0xf000" using s(2) c(2) nn by (simp add: fat_stored_def)
  have "old2 = Some (fat_at pvp1 (view d1) c)"
    using fatentry_run [OF ok, of pvp1 d1 c FAT_GET True w] m1 free c F f
    by (auto simp: get geo s(3) entry_done_def entry_failed_def)
  moreover have "xs = [c]" if ch: "chain (fat_at pvp1 (view d1)) (vfs_maxcluster pvp1) c xs"
  proof -
    have "chain (fat_at pvp1 (view d1)) (vfs_maxcluster pvp1) c [c]" using c e mx n by (simp add: geo)
    from chain_unique [OF ch this] show ?thesis .
  qed
  ultimately show ?thesis using e mx n by (simp add: geo)
qed

definition demo_fs_big :: dosfs_vfs where
  "demo_fs_big = demo_fs\<lparr>vfs_maxcluster := 4086, vfs_FATsecs := 12, vfs_inusemap := replicate 511 0xff\<rparr>"

theorem high_link_lost_witness:
  "\<exists>d1 pvp1 d2. fatentry good_io FAT_SET demo_fs_big demo_dev 7 False 4081 = Some (d1, pvp1, 0, None)
    \<and> fatentry good_io FAT_GET pvp1 d1 7 True 0 = Some (d2, pvp1, 0, Some (4081 + 0xf000))"
proof -
  have f: "FAT_SET AND (FAT_SET OR FAT_GET) \<noteq> 0" "FAT_SET AND FAT_GET = 0" "FAT_SET AND FAT_SET \<noteq> 0"
      "FAT_GET AND (FAT_SET OR FAT_GET) \<noteq> 0" "FAT_GET AND FAT_GET \<noteq> 0" "FAT_GET AND FAT_SET = 0"
    by (simp_all add: FAT_SET_def FAT_GET_def)
  let ?f = demo_fs_big
  have m: "mount_ok ?f"
    by (simp add: mount_ok_def demo_fs_big_def demo_fs_def fat_off_def FAT12_def off12_def)
  have F: "FAT12 ?f" by (simp add: demo_fs_big_def FAT12_def)
  have fr: "fatblks ?f \<inter> ram_heldset demo_dev = {}" by (simp add: demo_dev_def ram_heldset_def)
  have mx: "vfs_maxcluster ?f = 4086" by (simp add: demo_fs_big_def)
  have c: "CLUST_FIRST \<le> 7" "7 \<le> vfs_maxcluster ?f" "4081 \<le> vfs_maxcluster ?f" by (simp_all add: CLUST_FIRST_def mx)
  obtain d1 where s: "fatentry good_io FAT_SET ?f demo_dev 7 False 4081
        = Some (d1, ?f\<lparr>vfs_fmod := vfs_fmod ?f + 1\<rparr>, 0, None)" "ram_heldset d1 = ram_heldset demo_dev"
    using good_io_done [OF m fr c(1,2) disjI1 [OF F] f(1), of False 4081] f
    by (auto simp: entry_done_def)
  let ?p = "?f\<lparr>vfs_fmod := vfs_fmod ?f + 1\<rparr>"
  have sf: "same_fs ?f ?p" by simp
  have m1: "mount_ok ?p" by (rule same_fs_mount [OF sf _ m]) simp
  note geo = same_fs_geo [OF sf]
  have fr1: "fatblks ?p \<inter> ram_heldset d1 = {}" using fr s(2) by (simp add: geo)
  obtain d2 old where g: "fatentry good_io FAT_GET ?p d1 7 True 0 = Some (d2, ?p, 0, old)"
    using good_io_done [OF m1 fr1 c(1) _ _ f(4), of True 0] c(2) f F
    by (auto simp: entry_done_def geo)
  have "old = Some (4081 + 0xf000)"
    using high_link_lost [OF good_io_ok m fr c(1,2) F _ c(3) s(1) g] by simp
  with s(1) g show ?thesis by blast
qed

section \<open>Filling a volume\<close>

text \<open>\<open>n\<close> extensions in a row, each of which has to succeed.\<close>

fun extend_times :: "'d bio \<Rightarrow> nat \<Rightarrow> dosfs_vfs \<Rightarrow> 'd \<Rightarrow> denode \<Rightarrow> ('d \<times> dosfs_vfs \<times> denode) option" where
  "extend_times io 0 pvp d dep = Some (d, pvp, dep)"
| "extend_times io (Suc n) pvp d dep = do {
     (d, pvp, dep, error, _, _) \<leftarrow> extendfile io pvp d dep False False;
     if error \<noteq> 0 then None else extend_times io n pvp d dep }"

lemma extend_times_ok:
  assumes ok: "bio_ok io view held" and good: "\<forall>lb. lgeterror io lb = 0"
  shows "vol_ok pvp (view d) \<Longrightarrow> fatblks pvp \<inter> held d = {} \<Longrightarrow> file_ok pvp (view d) dep xs \<Longrightarrow> \<not> de_vroot dep
    \<Longrightarrow> (FAT12 pvp \<longrightarrow> vfs_maxcluster pvp < 4080) \<Longrightarrow> n \<le> card (free_set pvp (view d)) \<Longrightarrow> length xs + n < 0xffff
    \<Longrightarrow> \<exists>d' pvp' dep' ys. extend_times io n pvp d dep = Some (d', pvp', dep') \<and> vol_ok pvp' (view d')
      \<and> file_ok pvp' (view d') dep' (xs @ ys) \<and> length ys = n \<and> set ys \<subseteq> free_set pvp (view d)
      \<and> free_set pvp' (view d') = free_set pvp (view d) - set ys \<and> held d' = held d \<and> same_fs pvp pvp' \<and> \<not> de_vroot dep'"
proof (induction n arbitrary: pvp d dep xs)
  case 0
  show ?case by (intro exI [of _ d] exI [of _ pvp] exI [of _ dep] exI [of _ "[]"] conjI) (use 0 in simp_all)
next
  case (Suc n)
  let ?F = "free_set pvp (view d)" let ?c = "Min ?F"
  have ne: "?F \<noteq> {}" using Suc.prems(6) by auto
  have cF: "?c \<in> ?F" using ne by simp
  then have low: "?F \<noteq> {} \<and> FAT12 pvp \<longrightarrow> ?c < 4080" using Suc.prems(5) by (auto simp: free_set_def)
  have len: "length xs + 1 < 0xffff" using Suc.prems(7) by simp
  have nb: "?F \<noteq> {} \<and> False \<longrightarrow> vfs_bpcluster pvp = 0 * DEV_BSIZE \<and> 0 \<le> MAXCLUSTBLOCKS
      \<and> {cntobn pvp ?c..<cntobn pvp ?c + 0} \<inter> held d = {}" by simp
  obtain d1 pvp1 dep1 where e: "extendfile io pvp d dep False False = Some (d1, pvp1, dep1, 0, None, None)"
      "vol_ok pvp1 (view d1)" "same_fs pvp pvp1" "de_vroot dep1 = de_vroot dep" "file_ok pvp1 (view d1) dep1 (xs @ [?c])"
      "free_set pvp1 (view d1) = ?F - {?c}" "held d1 = held d"
    using extendfile_ok [OF ok Suc.prems(1,2) good Suc.prems(3) len Suc.prems(4) refl low nb, of False] ne by auto
  note geo = same_fs_geo [OF e(3)]
  have "card (?F - {?c}) = card ?F - 1" using cF by simp
  then have n: "n \<le> card (free_set pvp1 (view d1))" using Suc.prems(6) e(6) by simp
  have p: "fatblks pvp1 \<inter> held d1 = {}" "\<not> de_vroot dep1" "FAT12 pvp1 \<longrightarrow> vfs_maxcluster pvp1 < 4080"
      "length (xs @ [?c]) + n < 0xffff"
    using Suc.prems e by (simp_all add: geo)
  obtain d' pvp' dep' ys where ih: "extend_times io n pvp1 d1 dep1 = Some (d', pvp', dep')" "vol_ok pvp' (view d')"
      "file_ok pvp' (view d') dep' ((xs @ [?c]) @ ys)" "length ys = n" "set ys \<subseteq> free_set pvp1 (view d1)"
      "free_set pvp' (view d') = free_set pvp1 (view d1) - set ys" "held d' = held d1" "same_fs pvp1 pvp'" "\<not> de_vroot dep'"
    using Suc.IH [OF e(2) p(1) e(5) p(2,3) n p(4)] by (elim exE conjE) (rule that)
  show ?case
    by (intro exI [of _ d'] exI [of _ pvp'] exI [of _ dep'] exI [of _ "?c # ys"] conjI)
      (use e ih cF same_fs_trans [OF e(3) ih(8)] in auto)
qed

text \<open>C18: A file can grow until the volume is full, and no further: on a device without read errors as many
  extensions as there are free clusters succeed, one after the other, and give the file all of them; the
  next one returns ENOSPC.\<close>

theorem extend_until_full:
  assumes ok: "bio_ok io view held" and good: "\<forall>lb. lgeterror io lb = 0"
    and v: "vol_ok pvp (view d)" and fr: "fatblks pvp \<inter> held d = {}" and fl: "file_ok pvp (view d) dep xs"
    and root: "\<not> de_vroot dep" and low: "FAT12 pvp \<longrightarrow> vfs_maxcluster pvp < 4080"
    and n: "int n = vfs_freeclustercount pvp" and len: "length xs + n + 1 < 0xffff"
  shows "\<exists>d' pvp' dep' ys. extend_times io n pvp d dep = Some (d', pvp', dep')
    \<and> file_ok pvp' (view d') dep' (xs @ ys) \<and> set ys = free_set pvp (view d) \<and> length ys = n
    \<and> vfs_freeclustercount pvp' = 0
    \<and> (\<exists>d'' dep''. extendfile io pvp' d' dep' wb wc = Some (d'', pvp', dep'', ENOSPC, None, None))"
proof -
  have c: "n = card (free_set pvp (view d))" using n v by (simp add: vol_ok_def map_ok_def)
  have l: "length xs + n < 0xffff" using len by simp
  obtain d' pvp' dep' ys where e: "extend_times io n pvp d dep = Some (d', pvp', dep')" "vol_ok pvp' (view d')"
      "file_ok pvp' (view d') dep' (xs @ ys)" "length ys = n" "set ys \<subseteq> free_set pvp (view d)"
      "free_set pvp' (view d') = free_set pvp (view d) - set ys" "held d' = held d" "same_fs pvp pvp'" "\<not> de_vroot dep'"
    using extend_times_ok [OF ok good v fr fl root low eq_refl [OF c] l] by (elim exE conjE) (rule that)
  have "distinct (xs @ ys)"
  proof (cases "xs @ ys = []")
    case False
    have "chain (fat_at pvp' (view d')) (vfs_maxcluster pvp') (de_StartCluster dep') (xs @ ys)"
      using e(3)[unfolded file_ok_def if_not_P [OF False]] by (simp add: file_at_def)
    then show ?thesis by (rule chain_distinct)
  qed simp
  then have "card (set ys) = n" using e(4) by (simp add: distinct_card)
  then have all: "set ys = free_set pvp (view d)" using e(5) c by (intro card_subset_eq) simp_all
  then have none: "free_set pvp' (view d') = {}" using e(6) by simp
  have zero: "vfs_freeclustercount pvp' = 0" using e(2) none by (simp add: vol_ok_def map_ok_def)
  have p: "fatblks pvp' \<inter> held d' = {}" "length (xs @ ys) + 1 < 0xffff"
    using fr e len by (simp_all add: same_fs_geo [OF e(8)])
  have nb: "free_set pvp' (view d') \<noteq> {} \<and> FAT12 pvp' \<longrightarrow> Min (free_set pvp' (view d')) < 4080"
    "free_set pvp' (view d') \<noteq> {} \<and> wb \<longrightarrow> vfs_bpcluster pvp' = 0 * DEV_BSIZE \<and> 0 \<le> MAXCLUSTBLOCKS
      \<and> {cntobn pvp' (Min (free_set pvp' (view d')))..<cntobn pvp' (Min (free_set pvp' (view d'))) + 0} \<inter> held d' = {}"
    using none by simp_all
  obtain d'' dep'' where "extendfile io pvp' d' dep' wb wc = Some (d'', pvp', dep'', ENOSPC, None, None)"
    using extendfile_ok [OF ok e(2) p(1) good e(3) p(2) e(9) refl nb, of wc] none by auto
  then show ?thesis using e all zero by blast
qed

theorem extend_until_full_witness:
  "\<exists>d' pvp' dep' ys. extend_times good_io 399 demo_fs demo_dev (demo_file 0) = Some (d', pvp', dep')
    \<and> file_ok pvp' (ram_view d') dep' ([] @ ys) \<and> set ys = {2..400}"
proof -
  have fl: "file_ok demo_fs (ram_view demo_dev) (demo_file 0) []"
    using demo_file_fc [of 0 "[]"] by (simp add: file_ok_def demo_file_def)
  have g: "\<forall>lb. lgeterror good_io lb = 0" by (simp add: good_err)
  have r: "\<not> de_vroot (demo_file 0)" "FAT12 demo_fs \<longrightarrow> vfs_maxcluster demo_fs < 4080"
    "int 399 = vfs_freeclustercount demo_fs" "length ([] :: nat list) + 399 + 1 < 0xffff"
    by (simp_all add: demo_file_def demo_fs_def)
  from extend_until_full [OF good_io_ok g demo_vol demo_free fl r] show ?thesis
    unfolding demo_free_set by blast
qed

end
