(* ===== verification/Mount.thy ===== *)
theory Mount
  imports FileProps
begin

text \<open>
  Mounting (\<open>mountdosfs\<close> of \<open>fs/dosfs/dosfs_vfsops.c\<close>): finding and checking the boot sector, the
  geometry of the file system computed from its parameter block, and the scan of the table. The
  model starts after the device has been opened and its cached blocks dropped, and ends before the root
  denode is made. A division by zero traps, which is \<open>None\<close>.
\<close>

section \<open>The boot sector\<close>

definition getushort :: "u8 list \<Rightarrow> nat \<Rightarrow> nat" where
  "getushort b i = unat (tw_word (b ! i) (b ! (i + 1)))"

definition getulong :: "u8 list \<Rightarrow> nat \<Rightarrow> nat" where
  "getulong b i = getushort b i + 65536 * getushort b (i + 2)"

definition BOOTSIG :: nat where "BOOTSIG = 0xaa55"
definition BOOTSZ :: nat where "BOOTSZ = 446"
definition FD_NUMPART :: nat where "FD_NUMPART = 4"

text \<open>Places in the boot sector (the parameter block starts at byte 11) and in a partition entry.\<close>

definition bsBootSectSig :: "u8 list \<Rightarrow> nat" where "bsBootSectSig b = getushort b 510"
definition bpbBytesPerSec :: "u8 list \<Rightarrow> nat" where "bpbBytesPerSec b = getushort b 11"
definition bpbSecPerClust :: "u8 list \<Rightarrow> nat" where "bpbSecPerClust b = unat (b ! 13)"
definition bpbResSectors :: "u8 list \<Rightarrow> nat" where "bpbResSectors b = getushort b 14"
definition bpbFATs :: "u8 list \<Rightarrow> nat" where "bpbFATs b = unat (b ! 16)"
definition bpbRootDirEnts :: "u8 list \<Rightarrow> nat" where "bpbRootDirEnts b = getushort b 17"
definition bpbSectors :: "u8 list \<Rightarrow> nat" where "bpbSectors b = getushort b 19"
definition bpbFATsecs :: "u8 list \<Rightarrow> nat" where "bpbFATsecs b = getushort b 22"
definition bpbHugeSectors :: "u8 list \<Rightarrow> nat" where "bpbHugeSectors b = getulong b 32"
definition ipart_relsect :: "u8 list \<Rightarrow> nat \<Rightarrow> int" where "ipart_relsect b i = slong (getulong b (BOOTSZ + 16 * i + 8))"
definition ipart_numsect :: "u8 list \<Rightarrow> nat \<Rightarrow> int" where "ipart_numsect b i = slong (getulong b (BOOTSZ + 16 * i + 12))"

lemmas bpb_defs = bsBootSectSig_def bpbBytesPerSec_def bpbSecPerClust_def bpbResSectors_def bpbFATs_def
  bpbRootDirEnts_def bpbSectors_def bpbFATsecs_def bpbHugeSectors_def

definition find_extdosfs :: "u8 list \<Rightarrow> int \<Rightarrow> int" where
  "find_extdosfs b dos_offset = (case find (\<lambda>i. 0 < ipart_numsect b i) [0..<FD_NUMPART] of
     Some i \<Rightarrow> ipart_relsect b i | None \<Rightarrow> dos_offset)"

definition mount_read :: "'d bio \<Rightarrow> 'd \<Rightarrow> nat \<Rightarrow> ('d \<times> nat + 'd \<times> lbuf) option" where
  "mount_read io d off = do {
     (d, bp0) \<leftarrow> lbread io d off 512;
     Some (if lgeterror io bp0 \<noteq> 0 then Inl (lbrelse io d bp0, lgeterror io bp0)
           else if bsBootSectSig (lb_addr bp0) \<noteq> BOOTSIG then Inl (lbrelse io d bp0, EINVAL)
           else Inr (d, bp0)) }"

definition jump_ok :: "u8 list \<Rightarrow> bool" where
  "jump_ok b \<longleftrightarrow> getushort b 0 AND 0x00ff \<in> {0xe9, 0xeb, 0x69}"

text \<open>The boot sector of the file system, in sector 0 or in the first partition in use, and where it is.\<close>

definition mount_boot :: "'d bio \<Rightarrow> 'd \<Rightarrow> ('d \<times> nat + 'd \<times> lbuf \<times> nat) option" where
  "mount_boot io d = do {
     r \<leftarrow> mount_read io d 0;
     r \<leftarrow> (case r of
        Inl (d, error) \<Rightarrow> Some (Inl (d, error))
      | Inr (d, bp0) \<Rightarrow>
          if lb_addr bp0 ! 0 = 0 then
            (let dos_offset = find_extdosfs (lb_addr bp0) 0 in
             if dos_offset \<le> 0 then Some (Inl (lbrelse io d bp0, EINVAL))
             else do {
               r \<leftarrow> mount_read io (lbrelse io d bp0) (nat dos_offset);
               Some (map_sum id (\<lambda>(d, bp0). (d, bp0, nat dos_offset)) r) })
          else Some (Inr (d, bp0, 0)));
     (case r of
        Inl (d, error) \<Rightarrow> Some (Inl (d, error))
      | Inr (d, bp0, off) \<Rightarrow>
          if jump_ok (lb_addr bp0) then Some (Inr (d, bp0, off))
          else Some (Inl (lbrelse io d bp0, EINVAL))) }"

section \<open>The geometry\<close>

text \<open>The shift for a power of two: the first set bit of \<open>bpc\<close> has to be the only one.\<close>

fun cnshift_scan :: "nat \<Rightarrow> nat \<Rightarrow> nat \<Rightarrow> nat \<Rightarrow> nat + nat" where
  "cnshift_scan 0 i b1 bpc = Inr 0"
| "cnshift_scan (Suc n) i b1 bpc =
     (if b1 AND bpc \<noteq> 0 then (if b1 XOR bpc \<noteq> 0 then Inl EINVAL else Inr i)
      else cnshift_scan n (i + 1) (push_bit 1 b1) bpc)"

definition mount_sectors :: "u8 list \<Rightarrow> nat" where
  "mount_sectors b = (if bpbSectors b = 0 then bpbHugeSectors b else bpbSectors b)"

text \<open>The mount structure, for a boot sector \<open>b\<close> found at block \<open>off\<close>.\<close>

definition mount_vfs :: "u8 list \<Rightarrow> nat \<Rightarrow> nat \<Rightarrow> dosfs_vfs" where
  "mount_vfs b off cnshift = (
     let fatblk = uadd32 (bpbResSectors b) off;
         rootdirblk = uadd32 fatblk (bpbFATs b * bpbFATsecs b);
         rootdirsize = bpbRootDirEnts b * 32 div bpbBytesPerSec b;
         firstcluster = uadd32 rootdirblk rootdirsize;
         nmbrofclusters = usub32 (uadd32 (mount_sectors b) off) firstcluster div bpbSecPerClust b;
         bpc = bpbSecPerClust b * bpbBytesPerSec b
     in \<lparr>vfs_SectPerClust = bpbSecPerClust b, vfs_BytesPerSec = bpbBytesPerSec b,
            vfs_FATs = bpbFATs b, vfs_FATsecs = bpbFATsecs b, vfs_fatblk = fatblk, vfs_rootdirblk = rootdirblk,
            vfs_rootdirsize = rootdirsize, vfs_firstcluster = firstcluster, vfs_nmbrofclusters = nmbrofclusters,
            vfs_maxcluster = uadd32 nmbrofclusters 1, vfs_freeclustercount = 0, vfs_lookhere = 0, vfs_bnshift = 9,
            vfs_brbomask = 0x01ff, vfs_cnshift = cnshift, vfs_crbomask = bpc - 1, vfs_bpcluster = bpc,
            vfs_depclust = bpc div 32, vfs_fmod = 0, vfs_waitonfat = False,
            vfs_inusemap = replicate (drop_bit 3 (uadd32 nmbrofclusters 1) + 1) 0\<rparr>)"

text \<open>
  Its size in sectors must not be 0; then come two divisions, by the bytes of a sector and by the sectors
  of a cluster; then the test of the bytes of a cluster.
\<close>

definition mount_geometry :: "u8 list \<Rightarrow> nat \<Rightarrow> (nat + dosfs_vfs) option" where
  "mount_geometry b off =
     (if mount_sectors b = 0 then Some (Inl EINVAL)
      else if bpbBytesPerSec b = 0 then None
      else if bpbSecPerClust b = 0 then None
      else if bpbSecPerClust b * bpbBytesPerSec b = 0 then Some (Inl EINVAL)
      else (case cnshift_scan 32 0 1 (bpbSecPerClust b * bpbBytesPerSec b) of
          Inl error \<Rightarrow> Some (Inl error)
        | Inr cnshift \<Rightarrow> Some (Inr (mount_vfs b off cnshift))))"

definition mountdosfs :: "'d bio \<Rightarrow> 'd \<Rightarrow> bool \<Rightarrow> ('d \<times> dosfs_vfs option \<times> nat) option" where
  "mountdosfs io d ronly = do {
     r \<leftarrow> mount_boot io d;
     (case r of
        Inl (d, error) \<Rightarrow> Some (d, None, error)
      | Inr (d, bp0, off) \<Rightarrow> do {
          g \<leftarrow> mount_geometry (lb_addr bp0) off;
          (case g of
             Inl error \<Rightarrow> Some (lbrelse io d bp0, None, error)
           | Inr pvp \<Rightarrow> do {
               (d, pvp, error) \<leftarrow> fillinusemap io pvp (lbrelse io d bp0);
               if error \<noteq> 0 then Some (d, None, error)
               else Some (d, Some (if ronly then pvp else pvp\<lparr>vfs_fmod := 1\<rparr>), 0) }) }) }"

section \<open>The shift\<close>

lemma cnshift_scan_ok:
  assumes "\<And>j. j < i \<Longrightarrow> \<not> bit bpc j" and "bpc < 2 ^ (i + n)" and "bpc \<noteq> 0"
  shows "cnshift_scan n i (2 ^ i) bpc = (if \<exists>k. bpc = 2 ^ k then Inr (THE k. bpc = 2 ^ k) else Inl EINVAL)"
  using assms
proof (induction n arbitrary: i)
  case 0
  have "bpc = 0"
  proof (rule bit_eqI)
    fix n
    show "bit bpc n = bit (0::nat) n"
    proof (cases "n < i")
      case True
      then show ?thesis using 0(1) by simp
    next
      case False
      have "take_bit i bpc = bpc" using 0(2) by (simp add: take_bit_nat_eq_self)
      then show ?thesis using False by (metis bit_0_eq bit_take_bit_iff bot_apply bot_bool_def)
    qed
  qed
  then show ?case using 0(3) by simp
next
  case (Suc n)
  have b: "2 ^ i AND bpc \<noteq> 0 \<longleftrightarrow> bit bpc i"
  proof -
    have "2 ^ i AND bpc = (if bit bpc i then 2 ^ i else 0)"
      by (rule bit_eqI) (auto simp: bit_simps)
    then show ?thesis by simp
  qed
  show ?case
  proof (cases "bit bpc i")
    case True
    have x: "(2 ^ i XOR bpc \<noteq> 0) = (bpc \<noteq> 2 ^ i)"
    proof -
      have "2 ^ i XOR bpc = 0 \<longleftrightarrow> bpc = 2 ^ i"
      proof
        assume "2 ^ i XOR bpc = 0"
        then have "(2 ^ i XOR bpc) XOR bpc = bpc" by simp
        then show "bpc = 2 ^ i" by (simp add: xor.assoc)
      qed simp
      then show ?thesis by simp
    qed
    have only: "k = i" if "bpc = 2 ^ k" for k using True unfolding that by (simp add: bit_exp_iff)
    show ?thesis
    proof (cases "bpc = 2 ^ i")
      case p: True
      have "(THE k. bpc = 2 ^ k) = i" using p only by (intro the_equality) simp_all
      moreover have "\<exists>k. bpc = 2 ^ k" using p by blast
      ultimately show ?thesis using p unfolding cnshift_scan.simps if_P [OF iffD2 [OF b True]] x by simp
    next
      case False
      then have "\<nexists>k. bpc = 2 ^ k" using only by blast
      then show ?thesis using False unfolding cnshift_scan.simps if_P [OF iffD2 [OF b True]] x by simp
    qed
  next
    case False
    have "\<And>j. j < Suc i \<Longrightarrow> \<not> bit bpc j" using Suc.prems(1) False less_Suc_eq by auto
    then have ih: "cnshift_scan n (Suc i) (2 ^ Suc i) bpc
        = (if \<exists>k. bpc = 2 ^ k then Inr (THE k. bpc = 2 ^ k) else Inl EINVAL)"
      by (rule Suc.IH) (use Suc.prems in simp_all)
    have p: "push_bit 1 (2 ^ i) = (2 :: nat) ^ Suc i" by (simp add: push_bit_eq_mult)
    have nb: "\<not> 2 ^ i AND bpc \<noteq> 0" using b False by blast
    show ?thesis unfolding cnshift_scan.simps if_not_P [OF nb] p using ih by simp
  qed
qed

lemma cnshift_err: "cnshift_scan n i b1 bpc = Inl e \<Longrightarrow> e = EINVAL"
  by (induction n i b1 bpc rule: cnshift_scan.induct) (auto split: if_splits)

declare cnshift_scan.simps [simp del]

lemma cnshift_32:
  assumes "bpc \<noteq> 0" and "bpc < 2 ^ 32" and "cnshift_scan 32 0 1 bpc = Inr k"
  shows "bpc = 2 ^ k"
proof -
  have "cnshift_scan 32 0 (2 ^ 0) bpc = (if \<exists>k. bpc = 2 ^ k then Inr (THE k. bpc = 2 ^ k) else Inl EINVAL)"
    by (rule cnshift_scan_ok) (use assms in simp_all)
  then have e: "\<exists>k. bpc = 2 ^ k" "k = (THE k. bpc = 2 ^ k)" using assms(3) by (auto split: if_splits)
  from e(1) obtain j where j: "bpc = 2 ^ j" by blast
  then have "(THE k. bpc = 2 ^ k) = j" by (intro the_equality) simp_all
  then show ?thesis using j e(2) by simp
qed

section \<open>The steps of mounting\<close>

text \<open>Where the boot sector is, and when it is accepted.\<close>

definition boot_off :: "(nat \<Rightarrow> u8 list) \<Rightarrow> nat" where
  "boot_off v = (if v 0 ! 0 = 0 then nat (find_extdosfs (v 0) 0) else 0)"

definition boot_ok :: "(nat \<Rightarrow> u8 list) \<Rightarrow> bool" where
  "boot_ok v \<longleftrightarrow> bsBootSectSig (v 0) = BOOTSIG
     \<and> (v 0 ! 0 = 0 \<longrightarrow> 0 < find_extdosfs (v 0) 0 \<and> bsBootSectSig (v (boot_off v)) = BOOTSIG)
     \<and> jump_ok (v (boot_off v))"

lemma mount_read_ok:
  assumes ok: "bio_ok io view held" and free: "off \<notin> held d"
  obtains (err) d' e where "mount_read io d off = Some (Inl (d', e))"
      and "dev_err io e \<or> e = EINVAL \<and> bsBootSectSig (view d off) \<noteq> BOOTSIG" and "view d' = view d" and "held d' = held d"
  | (good) d' bp where "mount_read io d off = Some (Inr (d', bp))" and "view d' = view d" and "held d' = insert off (held d)"
      and "lbuf_at bp off 1" and "lb_addr bp = view d off" and "bsBootSectSig (view d off) = BOOTSIG"
proof -
  obtain d' bp where r: "lbread io d off 512 = Some (d', bp)" "view d' = view d" "held d' = insert off (held d)"
      "lbuf_at bp off 1" "lgeterror io bp = 0 \<longrightarrow> lb_addr bp = view d off"
    using lbread_ok [OF ok, of 1 off d] free by (auto simp: MAXCLUSTBLOCKS_def DEV_BSIZE_def)
  have rel: "view (lbrelse io d' bp) = view d" "held (lbrelse io d' bp) = held d"
    using lbrelse1_ok [OF ok r(4), of d'] r(2,3) free by auto
  show thesis
  proof (cases "lgeterror io bp = 0 \<and> bsBootSectSig (lb_addr bp) = BOOTSIG")
    case True
    then show ?thesis using r by (intro good [of d' bp]) (simp_all add: mount_read_def)
  next
    case False
    let ?e = "if lgeterror io bp \<noteq> 0 then lgeterror io bp else EINVAL"
    have "mount_read io d off = Some (Inl (lbrelse io d' bp, ?e))" using False r(1) by (auto simp: mount_read_def)
    then show ?thesis using rel r(5) False by (intro err [of "lbrelse io d' bp" ?e]) auto
  qed
qed

lemma mount_boot_ok:
  assumes ok: "bio_ok io view held" and free: "held d = {}"
  obtains (err) d' e where "mount_boot io d = Some (Inl (d', e))" and "dev_err io e \<or> e = EINVAL \<and> \<not> boot_ok (view d)"
      and "view d' = view d" and "held d' = {}"
  | (good) d' bp where "mount_boot io d = Some (Inr (d', bp, boot_off (view d)))" and "view d' = view d"
      and "held d' = {boot_off (view d)}" and "lbuf_at bp (boot_off (view d)) 1" and "lb_addr bp = view d (boot_off (view d))"
      and "boot_ok (view d)"
proof -
  let ?v = "view d"
  have fin: "thesis" if m: "mount_boot io d = (if jump_ok (lb_addr bp) then Some (Inr (d', bp, off)) else Some (Inl (lbrelse io d' bp, EINVAL)))"
    and g: "view d' = ?v" "held d' = {off}" "lbuf_at bp off 1" "lb_addr bp = ?v off" and o: "off = boot_off ?v"
    and b: "jump_ok (?v off) \<Longrightarrow> boot_ok ?v" for d' bp off
  proof (cases "jump_ok (lb_addr bp)")
    case True
    then show ?thesis using m g b unfolding o by (intro good [of d' bp]) simp_all
  next
    case False
    then have "\<not> boot_ok ?v" using g(4) o by (simp add: boot_ok_def)
    moreover have "view (lbrelse io d' bp) = ?v" "held (lbrelse io d' bp) = {}" using lbrelse1_ok [OF ok g(3), of d'] g by auto
    ultimately show ?thesis using m False by (intro err [of "lbrelse io d' bp" EINVAL]) simp_all
  qed
  have f0: "0 \<notin> held d" using free by simp
  show ?thesis
  proof (cases rule: mount_read_ok [OF ok f0, case_names e0 g0])
    case (e0 d' e)
    then show ?thesis using free by (intro err [of d' e]) (auto simp: mount_boot_def boot_ok_def)
  next
    case (g0 d1 bp)
    have h1: "view (lbrelse io d1 bp) = ?v" "held (lbrelse io d1 bp) = {}"
      using lbrelse1_ok [OF ok g0(4), of d1] g0 free by auto
    show ?thesis
    proof (cases "?v 0 ! 0 = 0")
      case False
      then show ?thesis using g0 free by (intro fin [of bp d1 0]) (simp_all add: mount_boot_def boot_ok_def boot_off_def)
    next
      case z: True
      then have zz: "lb_addr bp ! 0 = 0" using g0(5) by simp
      let ?o = "find_extdosfs (?v 0) 0"
      show ?thesis
      proof (cases "?o \<le> 0")
        case True
        have "mount_boot io d = Some (Inl (lbrelse io d1 bp, EINVAL))" using zz True g0(1,5) by (simp add: mount_boot_def)
        moreover have "\<not> boot_ok ?v" using z True by (simp add: boot_ok_def)
        ultimately show ?thesis using h1 by (intro err [of "lbrelse io d1 bp" EINVAL]) simp_all
      next
        case False
        have o: "nat ?o = boot_off ?v" using z by (simp add: boot_off_def)
        have f1: "nat ?o \<notin> held (lbrelse io d1 bp)" using h1 by simp
        show ?thesis
        proof (cases rule: mount_read_ok [OF ok f1, case_names e1 g1])
          case (e1 d' e)
          then show ?thesis using h1 zz z False g0(1,5)
            by (intro err [of d' e]) (auto simp: mount_boot_def Let_def boot_ok_def boot_off_def)
        next
          case (g1 d' bp')
          then show ?thesis using h1 zz z False g0(1,5,6)
            by (intro fin [of bp' d' "nat ?o"]) (simp_all add: mount_boot_def Let_def boot_ok_def boot_off_def)
        qed
      qed
    qed
  qed
qed

lemma mount_geometry_err: "mount_geometry b off = Some (Inl e) \<Longrightarrow> e = EINVAL"
  by (auto simp: mount_geometry_def split: if_splits sum.splits dest!: cnshift_err)

lemma mount_geometry_vfs:
  assumes "mount_geometry b off = Some (Inr pvp)"
  shows "pvp = mount_vfs b off (vfs_cnshift pvp)" and "bpbSecPerClust b * bpbBytesPerSec b = 2 ^ vfs_cnshift pvp"
proof -
  have "bpbSecPerClust b < 256" "bpbBytesPerSec b < 65536"
    using unsigned_less [of "b ! 13", where ?'a = nat] unsigned_less [of "tw_word (b ! 11) (b ! (11 + 1))", where ?'a = nat]
    by (simp_all add: bpbSecPerClust_def bpbBytesPerSec_def getushort_def)
  then have "bpbSecPerClust b * bpbBytesPerSec b \<le> 255 * 65535" by (intro mult_le_mono) simp_all
  then have bpc: "bpbSecPerClust b * bpbBytesPerSec b < 2 ^ 32" by simp
  obtain k where k: "cnshift_scan 32 0 1 (bpbSecPerClust b * bpbBytesPerSec b) = Inr k" "pvp = mount_vfs b off k"
      "bpbSecPerClust b * bpbBytesPerSec b \<noteq> 0"
    using assms by (auto simp: mount_geometry_def split: if_splits sum.splits)
  have "vfs_cnshift pvp = k" by (simp add: k(2) mount_vfs_def Let_def)
  then show "pvp = mount_vfs b off (vfs_cnshift pvp)" "bpbSecPerClust b * bpbBytesPerSec b = 2 ^ vfs_cnshift pvp"
    using k(2) cnshift_32 [OF k(3) bpc k(1)] by simp_all
qed

lemma mount_vfs_fields:
  "vfs_bnshift (mount_vfs b off k) = 9" "vfs_brbomask (mount_vfs b off k) = 511"
  "vfs_inusemap (mount_vfs b off k) = replicate (vfs_maxcluster (mount_vfs b off k) div 8 + 1) 0"
  "vfs_bpcluster (mount_vfs b off k) = bpbSecPerClust b * bpbBytesPerSec b"
  "vfs_crbomask (mount_vfs b off k) = bpbSecPerClust b * bpbBytesPerSec b - 1"
  "vfs_depclust (mount_vfs b off k) = vfs_bpcluster (mount_vfs b off k) div 32"
  "vfs_fatblk (mount_vfs b off k) = uadd32 (bpbResSectors b) off"
  "vfs_rootdirblk (mount_vfs b off k)
     = uadd32 (vfs_fatblk (mount_vfs b off k)) (vfs_FATs (mount_vfs b off k) * vfs_FATsecs (mount_vfs b off k))"
  "vfs_firstcluster (mount_vfs b off k)
     = uadd32 (vfs_rootdirblk (mount_vfs b off k)) (vfs_rootdirsize (mount_vfs b off k))"
  "vfs_SectPerClust (mount_vfs b off k) = bpbSecPerClust b" "vfs_BytesPerSec (mount_vfs b off k) = bpbBytesPerSec b"
  "vfs_FATs (mount_vfs b off k) = bpbFATs b" "vfs_FATsecs (mount_vfs b off k) = bpbFATsecs b"
  "vfs_rootdirsize (mount_vfs b off k) = bpbRootDirEnts b * 32 div bpbBytesPerSec b"
  "vfs_maxcluster (mount_vfs b off k) = uadd32 (usub32 (uadd32 (mount_sectors b) off)
        (vfs_firstcluster (mount_vfs b off k)) div bpbSecPerClust b) 1"
  by (simp_all add: mount_vfs_def Let_def drop_bit_eq_div)

lemma mount_geometry_ok:
  assumes "mount_geometry b off = Some (Inr pvp)"
  shows "vfs_bnshift pvp = 9" and "vfs_brbomask pvp = 511"
    and "vfs_inusemap pvp = replicate (vfs_maxcluster pvp div 8 + 1) 0"
    and "vfs_bpcluster pvp = vfs_SectPerClust pvp * vfs_BytesPerSec pvp" and "vfs_bpcluster pvp = 2 ^ vfs_cnshift pvp"
    and "vfs_crbomask pvp = 2 ^ vfs_cnshift pvp - 1" and "vfs_depclust pvp = vfs_bpcluster pvp div 32"
    and "vfs_rootdirblk pvp = uadd32 (vfs_fatblk pvp) (vfs_FATs pvp * vfs_FATsecs pvp)"
    and "vfs_firstcluster pvp = uadd32 (vfs_rootdirblk pvp) (vfs_rootdirsize pvp)"
proof -
  obtain k where k: "pvp = mount_vfs b off k" "bpbSecPerClust b * bpbBytesPerSec b = 2 ^ vfs_cnshift pvp"
    using mount_geometry_vfs [OF assms] by blast
  show "vfs_bnshift pvp = 9" "vfs_brbomask pvp = 511"
    "vfs_inusemap pvp = replicate (vfs_maxcluster pvp div 8 + 1) 0"
    "vfs_bpcluster pvp = vfs_SectPerClust pvp * vfs_BytesPerSec pvp" "vfs_depclust pvp = vfs_bpcluster pvp div 32"
    "vfs_rootdirblk pvp = uadd32 (vfs_fatblk pvp) (vfs_FATs pvp * vfs_FATsecs pvp)"
    "vfs_firstcluster pvp = uadd32 (vfs_rootdirblk pvp) (vfs_rootdirsize pvp)"
    unfolding k(1) by (rule mount_vfs_fields | simp only: mount_vfs_fields(4,10,11))+
  show "vfs_bpcluster pvp = 2 ^ vfs_cnshift pvp" "vfs_crbomask pvp = 2 ^ vfs_cnshift pvp - 1"
    unfolding k(2) [symmetric] unfolding k(1) by (rule mount_vfs_fields)+
qed

section \<open>Properties\<close>

text \<open>
  What a file system that was made properly has: 512-byte sectors, a table large enough for all its
  clusters, agreeing copies of it.
\<close>

definition made_ok :: "dosfs_vfs \<Rightarrow> (nat \<Rightarrow> u8 list) \<Rightarrow> bool" where
  "made_ok pvp v \<longleftrightarrow> vfs_BytesPerSec pvp = 512 \<and> 1 \<le> vfs_FATs pvp \<and> fat_off pvp (vfs_maxcluster pvp) + 1 < vfs_FATsecs pvp * 512
     \<and> CLUST_FIRST \<le> vfs_maxcluster pvp \<and> vfs_maxcluster pvp < 65520 \<and> vfs_fatblk pvp + vfs_FATs pvp * vfs_FATsecs pvp < 2 ^ 32
     \<and> no_wrap pvp \<and> synced pvp v"

lemma vol_ok_fmod:
  assumes "vol_ok q v"
  shows "vol_ok (q\<lparr>vfs_fmod := k\<rparr>) v"
proof -
  have sf: "same_fs q (q\<lparr>vfs_fmod := k\<rparr>)" by simp
  have "mount_ok (q\<lparr>vfs_fmod := k\<rparr>)"
    by (rule same_fs_mount [OF sf]) (use assms in \<open>simp_all add: vol_ok_def\<close>)
  then show ?thesis
    using assms by (simp add: vol_ok_def map_ok_def free_set_geo [OF sf] no_wrap_geo [OF sf] same_fs_geo [OF sf])
qed

lemma made_ok_mount:
  assumes "mount_geometry b off = Some (Inr pvp)" and "made_ok pvp v"
  shows "mount_ok pvp"
  using assms(2) mount_geometry_ok(1-3) [OF assms(1)] by (simp add: made_ok_def mount_ok_def)

text \<open>C21: When the geometry can be computed and describes a file system that was made properly, mounting
  writes nothing and leaves no buffer locked. It fails exactly when it reports an error of the device, or
  EINVAL because the boot sector is not accepted or the geometry refused; otherwise it yields a consistent
  volume, whose cluster size is a power of two with the matching shift and mask, and whose root directory
  and clusters lie behind the tables.\<close>

theorem mountdosfs_establishes:
  assumes ok: "bio_ok io view held" and free: "held d = {}"
    and geo: "mount_geometry (view d (boot_off (view d))) (boot_off (view d)) = Some g"
    and made: "\<forall>pvp. g = Inr pvp \<longrightarrow> made_ok pvp (view d)"
  shows "\<exists>d' mnt err. mountdosfs io d ronly = Some (d', mnt, err) \<and> view d' = view d \<and> held d' = {}
    \<and> (mnt = None) = (err \<noteq> 0)
    \<and> (err \<noteq> 0 \<longrightarrow> dev_err io err \<or> err = EINVAL \<and> (\<not> boot_ok (view d) \<or> g = Inl EINVAL))
    \<and> (\<forall>pvp. mnt = Some pvp \<longrightarrow> boot_ok (view d) \<and> vol_ok pvp (view d') \<and> (\<not> ronly \<longrightarrow> vfs_fmod pvp = 1)
        \<and> vfs_bpcluster pvp = vfs_SectPerClust pvp * 512 \<and> vfs_bpcluster pvp = 2 ^ vfs_cnshift pvp
        \<and> vfs_crbomask pvp = 2 ^ vfs_cnshift pvp - 1 \<and> vfs_depclust pvp = vfs_bpcluster pvp div 32
        \<and> vfs_rootdirblk pvp = vfs_fatblk pvp + vfs_FATs pvp * vfs_FATsecs pvp
        \<and> vfs_firstcluster pvp = uadd32 (vfs_rootdirblk pvp) (vfs_rootdirsize pvp))"
proof (cases rule: mount_boot_ok [OF ok free, case_names err good])
  case (err e n)
  then show ?thesis by (auto simp: mountdosfs_def EINVAL_def)
next
  case (good d1 bp)
  let ?d = "lbrelse io d1 bp"
  have rel: "view ?d = view d" "held ?d = {}" using lbrelse1_ok [OF ok good(4), of d1] good by auto
  note run = mountdosfs_def [of io d ronly, unfolded good(1)]
  show ?thesis
  proof (cases g)
    case (Inl e)
    have "e = EINVAL"
      using geo Inl mount_geometry_err by simp
    then show ?thesis using geo Inl rel good(5) by (auto simp: run EINVAL_def)
  next
    case (Inr pvp)
    note gg = geo [unfolded Inr]
    note gs = mount_geometry_ok [OF gg]
    have mk: "made_ok pvp (view d)" using made Inr by simp
    have m: "mount_ok pvp" by (rule made_ok_mount [OF gg mk])
    have mk': "no_wrap pvp" "synced pvp (view d)" "CLUST_FIRST \<le> vfs_maxcluster pvp" "vfs_BytesPerSec pvp = 512"
      using mk by (simp_all add: made_ok_def)
    have fr: "fatblks pvp \<inter> held ?d = {}" using rel by simp
    obtain d2 q e where f: "fillinusemap io pvp ?d = Some (d2, q, e)" "view d2 = view ?d" "held d2 = held ?d" "same_fs pvp q"
        "e = 0 \<longrightarrow> mount_ok q \<and> map_ok q (view ?d)" "e \<noteq> 0 \<longrightarrow> dev_err io e"
      using fillinusemap_ok [OF ok m fr mk'(3)] by blast
    let ?q = "if ronly then q else q\<lparr>vfs_fmod := 1\<rparr>"
    have res: "mountdosfs io d ronly = (if e \<noteq> 0 then Some (d2, None, e) else Some (d2, Some ?q, 0))"
      using gg good(5) f(1) by (simp add: run)
    show ?thesis
    proof (cases "e = 0")
      case False
      then show ?thesis using res f(2,3,6) rel by simp
    next
      case True
      have sf: "same_fs pvp ?q" using f(4) by simp
      have "vol_ok q (view d2)"
        using f(2,5) True mk'(1,2) rel by (simp add: vol_ok_def same_fs_geo [OF f(4)] no_wrap_geo [OF f(4)])
      then have v: "vol_ok ?q (view d2)" using vol_ok_fmod by simp
      have root: "vfs_rootdirblk pvp = vfs_fatblk pvp + vfs_FATs pvp * vfs_FATsecs pvp"
        unfolding gs(8) using mk by (intro uadd32_small) (simp add: made_ok_def)
      have r0: "mountdosfs io d ronly = Some (d2, Some ?q, 0)" unfolding res using True by simp
      show ?thesis
        by (intro exI conjI, rule r0)
          (use v f(2,3) rel gs(4-7,9) root mk'(4) good(6) in \<open>simp_all add: same_fs_fields [OF sf]\<close>)
    qed
  qed
qed

text \<open>A floppy for the witnesses: one reserved sector, two tables of two sectors, 112 root entries, clusters of two sectors.\<close>

definition demo_boot :: "u8 list" where
  "demo_boot = [0xeb, 0x3c, 0x90] @ replicate 8 0x20 @ [0, 2, 2, 1, 0, 2, 112, 0, 0x2a, 3, 0xf9, 2, 0]
     @ replicate 486 0 @ [0x55, 0xaa]"

definition demo_disk :: ram where
  "demo_disk = \<lparr>r_data = (\<lambda>b. if b = 0 then demo_boot else []), r_held = [], r_bad = []\<rparr>"

lemma demo_disk_view: "ram_view demo_disk 0 = demo_boot" "b \<noteq> 0 \<Longrightarrow> ram_view demo_disk b = replicate 512 0"
  "ram_heldset demo_disk = {}"
  by (simp_all add: ram_view_def demo_disk_def demo_boot_def DEV_BSIZE_def ram_heldset_def del: replicate_Suc)

lemma demo_boot_fields:
  "bsBootSectSig demo_boot = BOOTSIG" "demo_boot ! 0 = 0xeb" "jump_ok demo_boot" "bpbBytesPerSec demo_boot = 512"
  "bpbSecPerClust demo_boot = 2" "bpbResSectors demo_boot = 1" "bpbFATs demo_boot = 2" "bpbRootDirEnts demo_boot = 112"
  "mount_sectors demo_boot = 810" "bpbFATsecs demo_boot = 2"
  by (simp_all add: bpb_defs mount_sectors_def getushort_def tw_word_def demo_boot_def BOOTSIG_def jump_ok_def nth_append push_bit_eq_mult)

lemma demo_boot_ok: "boot_off (ram_view demo_disk) = 0" "boot_ok (ram_view demo_disk)"
  by (simp_all add: boot_off_def boot_ok_def demo_disk_view demo_boot_fields)

lemma demo_disk_made:
  assumes "mount_geometry demo_boot 0 = Some (Inr pvp)"
  shows "made_ok pvp (ram_view demo_disk)"
proof -
  obtain k where p: "pvp = mount_vfs demo_boot 0 k" using mount_geometry_vfs(1) [OF assms] by blast
  have f: "vfs_fatblk pvp = 1" "vfs_FATs pvp = 2" "vfs_FATsecs pvp = 2" "vfs_BytesPerSec pvp = 512"
    "vfs_maxcluster pvp = 400"
    unfolding p by (simp_all only: mount_vfs_fields demo_boot_fields) (simp_all add: uadd32_def)
  have F: "FAT12 pvp" by (simp add: FAT12_def f)
  have "synced pvp (ram_view demo_disk)" by (simp add: synced_def f demo_disk_view(2))
  then show ?thesis using F by (simp add: made_ok_def f fat_off_def off12_def no_wrap_def CLUST_FIRST_def)
qed

theorem mountdosfs_establishes_witness:
  "\<exists>d' pvp. mountdosfs good_io demo_disk False = Some (d', Some pvp, 0) \<and> vol_ok pvp (ram_view d') \<and> ram_heldset d' = {}
    \<and> vfs_bpcluster pvp = 2 ^ vfs_cnshift pvp"
proof -
  have c: "cnshift_scan 32 0 1 1024 = Inr (THE k. (1024 :: nat) = 2 ^ k)"
  proof -
    have "(1024 :: nat) = 2 ^ 10" by simp
    then have ex: "\<exists>k. (1024 :: nat) = 2 ^ k" by blast
    have "cnshift_scan 32 0 (2 ^ 0) 1024 = (if \<exists>k. (1024::nat) = 2 ^ k then Inr (THE k. (1024::nat) = 2 ^ k) else Inl EINVAL)"
      by (rule cnshift_scan_ok) simp_all
    then show ?thesis using ex by simp
  qed
  obtain g where geo: "mount_geometry (ram_view demo_disk (boot_off (ram_view demo_disk))) (boot_off (ram_view demo_disk))
      = Some (Inr g)"
    using c by (simp add: demo_boot_ok demo_disk_view mount_geometry_def demo_boot_fields)
  then have "\<forall>pvp. Inr g = (Inr pvp :: nat + dosfs_vfs) \<longrightarrow> made_ok pvp (ram_view demo_disk)"
    using demo_disk_made by (simp add: demo_boot_ok demo_disk_view)
  from mountdosfs_establishes [OF good_io_ok demo_disk_view(3) geo this, of False] show ?thesis
  proof (elim exE conjE, goal_cases)
    case (1 d' mnt err)
    have "\<not> dev_err good_io err" by (rule no_dev_err) (simp add: good_err)
    then have e: "err = 0" using 1(5) demo_boot_ok(2) by auto
    then obtain pvp where "mnt = Some pvp" using 1(4) by auto
    with e 1 show ?case by auto
  qed
qed

text \<open>The test of the cluster size comes after the divisions: an accepted boot sector with zero bytes
  per sector, or zero sectors per cluster, and a size that is not zero, traps instead of being refused.\<close>

theorem mountdosfs_divides_by_zero:
  assumes ok: "bio_ok io view held" and free: "held d = {}" and good: "\<forall>lb. lgeterror io lb = 0"
    and boot: "boot_ok (view d)" and b: "b = view d (boot_off (view d))" and size: "mount_sectors b \<noteq> 0"
  shows "(bpbBytesPerSec b = 0 \<or> bpbSecPerClust b = 0) \<longrightarrow> mountdosfs io d ronly = None"
proof (cases rule: mount_boot_ok [OF ok free, case_names err good])
  case (err e n)
  then show ?thesis using no_dev_err [OF good] boot by blast
next
  case (good d1 bp)
  then show ?thesis using size by (auto simp: mountdosfs_def mount_geometry_def b)
qed

theorem mountdosfs_divides_by_zero_witness:
  "mountdosfs good_io (demo_disk\<lparr>r_data := (\<lambda>_. demo_boot[13 := 0])\<rparr>) True = None"
proof -
  let ?d = "demo_disk\<lparr>r_data := (\<lambda>_. demo_boot[13 := 0])\<rparr>"
  have v: "ram_view ?d b = demo_boot[13 := 0]" for b
    by (simp add: ram_view_def demo_boot_def DEV_BSIZE_def)
  have n: "demo_boot[13 := 0] ! i = (if i = 13 then 0 else demo_boot ! i)" for i
  proof -
    have "length demo_boot = 512" by (simp add: demo_boot_def)
    then show ?thesis by (cases "i = 13") simp_all
  qed
  have f: "bsBootSectSig (demo_boot[13 := 0]) = BOOTSIG" "jump_ok (demo_boot[13 := 0])" "mount_sectors (demo_boot[13 := 0]) \<noteq> 0"
    "bpbSecPerClust (demo_boot[13 := 0]) = 0" "demo_boot[13 := 0] ! 0 = 0xeb"
  proof -
    have "mount_sectors (demo_boot[13 := 0]) = mount_sectors demo_boot"
      by (simp add: mount_sectors_def bpb_defs getushort_def getulong_def n)
    then show "mount_sectors (demo_boot[13 := 0]) \<noteq> 0" using demo_boot_fields(9) by simp
    show "bsBootSectSig (demo_boot[13 := 0]) = BOOTSIG" "demo_boot[13 := 0] ! 0 = 0xeb" "jump_ok (demo_boot[13 := 0])"
      using demo_boot_fields(1-3) unfolding bsBootSectSig_def jump_ok_def getushort_def n by (simp_all del: One_nat_def)
    show "bpbSecPerClust (demo_boot[13 := 0]) = 0" unfolding bpbSecPerClust_def n by simp
  qed
  have b: "boot_ok (ram_view ?d)" by (simp add: boot_ok_def v f)
  have h: "ram_heldset ?d = {}" by (simp add: demo_disk_def ram_heldset_def)
  have g: "\<forall>lb. lgeterror good_io lb = 0" by (simp add: good_err)
  show ?thesis
    using mountdosfs_divides_by_zero [OF good_io_ok h g b refl, of True] f(3,4) by (simp add: v)
qed

end
