(* ===== verification/DirEntry.thy ===== *)
theory DirEntry
  imports Lbuf FatTable
begin

text \<open>
  Directory entries as bytes: \<open>struct direntry\<close> in memory order, entries as the slots of a cluster
  buffer, and what writing one slot of a buffer back does to the sectors of the device.
\<close>

section \<open>Records stored side by side\<close>

text \<open>
  The interface of a structure with a fixed image of \<open>n\<close> bytes. An array of such structures is read and
  written slot by slot; the laws of the slots are proved once here.
\<close>

definition put_bytes :: "nat \<Rightarrow> 'b list \<Rightarrow> 'b list \<Rightarrow> 'b list" where
  "put_bytes i ys bs = take i bs @ ys @ drop (i + length ys) bs"

lemma length_put_bytes: "i + length ys \<le> length bs \<Longrightarrow> length (put_bytes i ys bs) = length bs"
  by (simp add: put_bytes_def)

lemma nth_put_bytes:
  assumes "i + length ys \<le> length bs" and "j < length bs"
  shows "put_bytes i ys bs ! j = (if i \<le> j \<and> j < i + length ys then ys ! (j - i) else bs ! j)"
  using assms by (auto simp: put_bytes_def nth_append min_def)

lemma get_put_bytes: "i + length ys \<le> length bs \<Longrightarrow> length ys = n \<Longrightarrow> take n (drop i (put_bytes i ys bs)) = ys"
  by (simp add: put_bytes_def)

lemma get_put_other:
  assumes "i + length ys \<le> length bs" and "j + n \<le> length bs" and "j + n \<le> i \<or> i + length ys \<le> j"
  shows "take n (drop j (put_bytes i ys bs)) = take n (drop j bs)"
  using assms by (intro nth_equalityI) (auto simp: length_put_bytes nth_put_bytes)

lemma put_get_bytes: "i + n \<le> length bs \<Longrightarrow> put_bytes i (take n (drop i bs)) bs = bs"
  by (intro nth_equalityI) (auto simp: length_put_bytes nth_put_bytes)

locale slots =
  fixes enc :: "'r \<Rightarrow> 'b list"
    and dec :: "'b list \<Rightarrow> 'r"
    and wf :: "'r \<Rightarrow> bool"
    and size :: nat
  assumes length_enc: "wf r \<Longrightarrow> length (enc r) = size"
    and dec_enc: "wf r \<Longrightarrow> dec (enc r) = r"
    and wf_dec: "length bs = size \<Longrightarrow> wf (dec bs)"
    and enc_dec: "length bs = size \<Longrightarrow> enc (dec bs) = bs"
begin

definition slot :: "'b list \<Rightarrow> nat \<Rightarrow> 'r" where
  "slot bs k = dec (take size (drop (size * k) bs))"

definition put_slot :: "'b list \<Rightarrow> nat \<Rightarrow> 'r \<Rightarrow> 'b list" where
  "put_slot bs k r = put_bytes (size * k) (enc r) bs"

lemma slot_end: "size * k + size \<le> n \<longleftrightarrow> size * Suc k \<le> n"
  by (simp add: add.commute)

lemma length_put_slot: "wf r \<Longrightarrow> size * k + size \<le> length bs \<Longrightarrow> length (put_slot bs k r) = length bs"
  by (simp add: put_slot_def length_put_bytes length_enc)

lemma slot_put: "wf r \<Longrightarrow> size * k + size \<le> length bs \<Longrightarrow> slot (put_slot bs k r) k = r"
  by (simp add: slot_def put_slot_def get_put_bytes length_enc dec_enc)

lemma slot_put_other:
  assumes "wf r" and "size * k + size \<le> length bs" and "size * j + size \<le> length bs" and "j \<noteq> k"
  shows "slot (put_slot bs k r) j = slot bs j"
proof -
  have "size * j + size \<le> size * k \<or> size * k + size \<le> size * j"
  proof (cases "j < k")
    case True
    then have "size * Suc j \<le> size * k" by (intro mult_le_mono2) simp
    then show ?thesis by simp
  next
    case False
    then have "size * Suc k \<le> size * j" using assms(4) by (intro mult_le_mono2) simp
    then show ?thesis by simp
  qed
  then show ?thesis
    unfolding slot_def put_slot_def using assms by (subst get_put_other) (auto simp: length_enc)
qed

lemma put_slot_same: "size * k + size \<le> length bs \<Longrightarrow> put_slot bs k (slot bs k) = bs"
  by (simp add: slot_def put_slot_def enc_dec put_get_bytes)

lemma wf_slot: "size * k + size \<le> length bs \<Longrightarrow> wf (slot bs k)"
  by (simp add: slot_def wf_dec)

end

section \<open>The image of a directory entry\<close>

definition DIRENTSZ :: nat where "DIRENTSZ = 32"

definition lg_word :: "u8 \<Rightarrow> u8 \<Rightarrow> u8 \<Rightarrow> u8 \<Rightarrow> uint_t" where
  "lg_word b0 b1 b2 b3 = ucast (tw_word b0 b1) OR push_bit 16 (ucast (tw_word b2 b3))"

definition lg_low :: "uint_t \<Rightarrow> u16" where "lg_low w = ucast w"
definition lg_high :: "uint_t \<Rightarrow> u16" where "lg_high w = ucast (drop_bit 16 w)"

definition word_bytes :: "u16 \<Rightarrow> u8 list" where
  "word_bytes w = [tw_byte0 w, tw_byte1 w]"

definition direntry_bytes :: "direntry \<Rightarrow> u8 list" where
  "direntry_bytes e = deName e @ deExtension e @ [deAttributes e] @ deReserved e @ word_bytes (deTime e)
     @ word_bytes (deDate e) @ word_bytes (deStartCluster e) @ word_bytes (lg_low (deFileSize e)) @ word_bytes (lg_high (deFileSize e))"

definition direntry_of :: "u8 list \<Rightarrow> direntry" where
  "direntry_of b = \<lparr>deName = take 8 b, deExtension = take 3 (drop 8 b), deAttributes = b ! 11,
     deReserved = take 10 (drop 12 b), deTime = tw_word (b ! 22) (b ! 23), deDate = tw_word (b ! 24) (b ! 25),
     deStartCluster = tw_word (b ! 26) (b ! 27), deFileSize = lg_word (b ! 28) (b ! 29) (b ! 30) (b ! 31)\<rparr>"

definition direntry_wf :: "direntry \<Rightarrow> bool" where
  "direntry_wf e \<longleftrightarrow> length (deName e) = 8 \<and> length (deExtension e) = 3 \<and> length (deReserved e) = 10"

lemma lg_parts [simp]: "lg_word (tw_byte0 (lg_low w)) (tw_byte1 (lg_low w)) (tw_byte0 (lg_high w)) (tw_byte1 (lg_high w)) = w"
  by (rule bit_word_eqI) (auto simp: lg_word_def lg_low_def lg_high_def bit_simps)

lemma lg_low_word [simp]: "lg_low (lg_word a b c d) = tw_word a b"
  by (rule bit_word_eqI) (auto simp: lg_word_def lg_low_def bit_simps)

lemma lg_high_word [simp]: "lg_high (lg_word a b c d) = tw_word c d"
  by (rule bit_word_eqI) (auto simp: lg_word_def lg_high_def bit_simps dest: bit_imp_le_length)

lemma tw_bytes_word [simp]: "tw_byte0 (tw_word a b) = a" "tw_byte1 (tw_word a b) = b"
  by (rule bit_word_eqI; auto simp: tw_bits dest: bit_imp_le_length)+

lemma list_8: "length xs = 8 \<Longrightarrow> \<exists>a b c d e f g h. xs = [a, b, c, d, e, f, g, h]"
  by (auto simp: length_Suc_conv numeral_eq_Suc)

lemma list_3: "length xs = 3 \<Longrightarrow> \<exists>a b c. xs = [a, b, c]"
  by (auto simp: length_Suc_conv numeral_eq_Suc)

lemma list_10: "length xs = 10 \<Longrightarrow> \<exists>a b c d e f g h i j. xs = [a, b, c, d, e, f, g, h, i, j]"
  by (auto simp: length_Suc_conv numeral_eq_Suc)

lemma length_direntry_bytes: "direntry_wf e \<Longrightarrow> length (direntry_bytes e) = DIRENTSZ"
  by (simp add: direntry_bytes_def direntry_wf_def word_bytes_def DIRENTSZ_def)

lemma direntry_of_bytes:
  assumes "direntry_wf e"
  shows "direntry_of (direntry_bytes e) = e"
proof -
  obtain a b c d f g h i where n: "deName e = [a, b, c, d, f, g, h, i]"
    using assms list_8 [of "deName e"] by (auto simp: direntry_wf_def)
  obtain j k l where x: "deExtension e = [j, k, l]"
    using assms list_3 [of "deExtension e"] by (auto simp: direntry_wf_def)
  obtain r1 r2 r3 r4 r5 r6 r7 r8 r9 r10 where r: "deReserved e = [r1, r2, r3, r4, r5, r6, r7, r8, r9, r10]"
    using assms list_10 [of "deReserved e"] by (auto simp: direntry_wf_def)
  show ?thesis
    by (rule direntry.equality) (simp_all add: direntry_of_def direntry_bytes_def word_bytes_def n x r)
qed

lemma direntry_bytes_of:
  assumes "length b = DIRENTSZ"
  shows "direntry_bytes (direntry_of b) = b"
proof -
  have l: "length b = 32" using assms by (simp add: DIRENTSZ_def)
  have "take 8 b @ take 3 (drop 8 b) @ [b ! 11] @ take 10 (drop 12 b) @ drop 22 b = b"
  proof (rule nth_equalityI)
    fix i assume i: "i < length (take 8 b @ take 3 (drop 8 b) @ [b ! 11] @ take 10 (drop 12 b) @ drop 22 b)"
    then have "i < 8 \<or> i \<in> {8, 9, 10} \<or> i = 11 \<or> 12 \<le> i \<and> i < 22 \<or> 22 \<le> i \<and> i < 32" using l by auto
    then show "(take 8 b @ take 3 (drop 8 b) @ [b ! 11] @ take 10 (drop 12 b) @ drop 22 b) ! i = b ! i"
      using l by (auto simp: nth_append)
  qed (simp add: l)
  moreover have "drop 22 b = [b ! 22, b ! 23, b ! 24, b ! 25, b ! 26, b ! 27, b ! 28, b ! 29, b ! 30, b ! 31]"
  proof -
    obtain r1 r2 r3 r4 r5 r6 r7 r8 r9 r10 where r: "drop 22 b = [r1, r2, r3, r4, r5, r6, r7, r8, r9, r10]"
      using list_10 [of "drop 22 b"] l by auto
    have "b ! (22 + k) = [r1, r2, r3, r4, r5, r6, r7, r8, r9, r10] ! k" for k using nth_drop [of 22 b k] r l by simp
    note n = this
    show ?thesis unfolding r using n [of 0] n [of 1] n [of 2] n [of 3] n [of 4] n [of 5] n [of 6] n [of 7] n [of 8] n [of 9]
      by simp
  qed
  ultimately show ?thesis
    by (simp add: direntry_bytes_def direntry_of_def word_bytes_def)
qed

interpretation dirents: slots direntry_bytes direntry_of direntry_wf DIRENTSZ
  by unfold_locales (simp_all add: length_direntry_bytes direntry_of_bytes direntry_bytes_of,
      simp add: direntry_wf_def direntry_of_def DIRENTSZ_def)

section \<open>Entries on the device\<close>

lemma length_sectors:
  assumes "\<And>s. length (v s) = DEV_BSIZE"
  shows "length (concat (map v [b..<b + n])) = n * DEV_BSIZE"
  by (induction n) (simp_all add: assms)

lemma nth_sectors:
  assumes "\<And>s. length (v s) = DEV_BSIZE" and "i < n * DEV_BSIZE"
  shows "concat (map v [b..<b + n]) ! i = v (b + i div DEV_BSIZE) ! (i mod DEV_BSIZE)"
  using assms(2)
proof (induction n)
  case (Suc n)
  note len = length_sectors [of v b n, OF assms(1)]
  show ?case
  proof (cases "i < n * DEV_BSIZE")
    case True
    then show ?thesis using Suc.IH by (simp add: nth_append len)
  next
    case False
    then have "i div DEV_BSIZE = n" using Suc.prems by (intro div_nat_eqI) (simp_all add: mult.commute)
    moreover from this have "i mod DEV_BSIZE = i - n * DEV_BSIZE" by (simp add: modulo_nat_def mult.commute)
    ultimately show ?thesis using False by (simp add: nth_append len)
  qed
qed simp

text \<open>Entry \<open>k\<close> counted from sector \<open>b\<close> on: 16 to a sector, none across two.\<close>

definition sec_slot :: "(nat \<Rightarrow> u8 list) \<Rightarrow> nat \<Rightarrow> nat \<Rightarrow> direntry" where
  "sec_slot v b k = dirents.slot (v (b + k div 16)) (k mod 16)"

definition sec_put :: "(nat \<Rightarrow> u8 list) \<Rightarrow> nat \<Rightarrow> nat \<Rightarrow> direntry \<Rightarrow> nat \<Rightarrow> u8 list" where
  "sec_put v b k e = v(b + k div 16 := dirents.put_slot (v (b + k div 16)) (k mod 16) e)"

lemma slot_arith:
  assumes "i < 32"
  shows "(32 * k + i) div 512 = k div 16" and "(32 * k + i) mod 512 = 32 * (k mod 16) + (i :: nat)"
proof -
  have k: "k = 16 * (k div 16) + k mod 16" by simp
  have e: "32 * k + i = 512 * (k div 16) + (32 * (k mod 16) + i)" by (subst k) (simp only: distrib_left)
  have l: "32 * (k mod 16) + i < 512" using assms mod_less_divisor [of 16 k] by linarith
  show "(32 * k + i) div 512 = k div 16" "(32 * k + i) mod 512 = 32 * (k mod 16) + i"
    unfolding e using l by simp_all
qed

lemma slot_in: "(k :: nat) < 16 * n \<Longrightarrow> 32 * k + 32 \<le> n * 512"
  by simp

lemma cluster_slot:
  assumes len: "\<And>s. length (v s) = DEV_BSIZE" and k: "k < 16 * n"
  shows "dirents.slot (concat (map v [b..<b + n])) k = sec_slot v b k"
proof -
  have l: "length (concat (map v [b..<b + n])) = n * 512" using length_sectors [OF len] by (simp add: DEV_BSIZE_def)
  have "take 32 (drop (32 * k) (concat (map v [b..<b + n]))) = take 32 (drop (32 * (k mod 16)) (v (b + k div 16)))"
  proof (rule nth_equalityI)
    have "32 * (k mod 16) + 32 \<le> 512" using mod_less_divisor [of 16 k] by linarith
    then show "length (take 32 (drop (32 * k) (concat (map v [b..<b + n]))))
        = length (take 32 (drop (32 * (k mod 16)) (v (b + k div 16))))"
      using slot_in [OF k] l len by (simp add: DEV_BSIZE_def)
  next
    fix i assume "i < length (take 32 (drop (32 * k) (concat (map v [b..<b + n]))))"
    then have i: "i < 32" by simp
    have "32 * k + i < n * DEV_BSIZE" using slot_in [OF k] i by (simp add: DEV_BSIZE_def)
    note n = nth_sectors [OF len this, unfolded DEV_BSIZE_def slot_arith [OF i]]
    have "32 * (k mod 16) + 32 \<le> 512" using mod_less_divisor [of 16 k] by linarith
    then show "take 32 (drop (32 * k) (concat (map v [b..<b + n]))) ! i = take 32 (drop (32 * (k mod 16)) (v (b + k div 16))) ! i"
      using i n slot_in [OF k] l len by (simp add: DEV_BSIZE_def)
  qed
  then show ?thesis unfolding sec_slot_def dirents.slot_def by (simp add: DIRENTSZ_def)
qed

lemma cluster_put:
  assumes len: "\<And>s. length (v s) = DEV_BSIZE" and k: "k < 16 * n" and wf: "direntry_wf e"
  shows "stored v b n (dirents.put_slot (concat (map v [b..<b + n])) k e) = sec_put v b k e"
proof
  fix s
  let ?xs = "concat (map v [b..<b + n])" and ?ys = "direntry_bytes e"
  have l: "length ?xs = n * 512" using length_sectors [OF len] by (simp add: DEV_BSIZE_def)
  have ly: "length ?ys = 32" using length_direntry_bytes [OF wf] by (simp add: DIRENTSZ_def)
  have fit: "32 * k + length ?ys \<le> length ?xs" using slot_in [OF k] by (simp add: l ly)
  have fit': "32 * (k mod 16) + length ?ys \<le> length (v s)"
    using mod_less_divisor [of 16 k] len [of s] ly unfolding DEV_BSIZE_def by linarith
  have kn: "k div 16 < n" using k by (simp add: less_mult_imp_div_less mult.commute)
  show "stored v b n (dirents.put_slot ?xs k e) s = sec_put v b k e s"
  proof (cases "b \<le> s \<and> s < b + n")
    case False
    then show ?thesis using kn by (auto simp: stored_def sec_put_def)
  next
    case True
    define t where "t = s - b"
    have s: "s = b + t" and t: "t < n" using True by (auto simp: t_def)
    have m: "512 * t + 512 \<le> n * 512" using t by simp
    have "take 512 (drop (512 * t) (put_bytes (32 * k) ?ys ?xs))
        = (if t = k div 16 then put_bytes (32 * (k mod 16)) ?ys (v s) else v s)"
    proof (rule nth_equalityI)
      show "length (take 512 (drop (512 * t) (put_bytes (32 * k) ?ys ?xs)))
          = length (if t = k div 16 then put_bytes (32 * (k mod 16)) ?ys (v s) else v s)"
        using m len [of s] by (simp add: length_put_bytes [OF fit] length_put_bytes [OF fit'] l DEV_BSIZE_def)
    next
      fix i assume "i < length (take 512 (drop (512 * t) (put_bytes (32 * k) ?ys ?xs)))"
      then have i: "i < 512" by simp
      have i': "512 * t + i < length ?xs" using m i l by linarith
      then have lt: "512 * t + i < n * DEV_BSIZE" using l by (simp add: DEV_BSIZE_def)
      have x: "?xs ! (512 * t + i) = v s ! i"
        using nth_sectors [OF len lt] i by (simp add: DEV_BSIZE_def s)
      have g: "take 512 (drop (512 * t) (put_bytes (32 * k) ?ys ?xs)) ! i = put_bytes (32 * k) ?ys ?xs ! (512 * t + i)"
        using i i' by (simp add: length_put_bytes [OF fit])
      have in_iff: "32 * k \<le> 512 * t + i \<and> 512 * t + i < 32 * k + 32 \<longleftrightarrow>
          t = k div 16 \<and> 32 * (k mod 16) \<le> i \<and> i < 32 * (k mod 16) + 32"
      proof
        assume a: "32 * k \<le> 512 * t + i \<and> 512 * t + i < 32 * k + 32"
        define j where "j = 512 * t + i - 32 * k"
        have j: "512 * t + i = 32 * k + j" "j < 32" using a by (auto simp: j_def)
        have "(512 * t + i) div 512 = t" "(512 * t + i) mod 512 = i" using i by simp_all
        then show "t = k div 16 \<and> 32 * (k mod 16) \<le> i \<and> i < 32 * (k mod 16) + 32"
          using slot_arith [OF j(2), of k] j by simp
      next
        assume a: "t = k div 16 \<and> 32 * (k mod 16) \<le> i \<and> i < 32 * (k mod 16) + 32"
        have "k = 16 * t + k mod 16" using a by simp
        then have "32 * k = 512 * t + 32 * (k mod 16)" by linarith
        then show "32 * k \<le> 512 * t + i \<and> 512 * t + i < 32 * k + 32" using a by simp
      qed
      have off: "512 * t + i - 32 * k = i - 32 * (k mod 16)" if "t = k div 16" "32 * (k mod 16) \<le> i"
      proof -
        have "k = 16 * t + k mod 16" using that by simp
        then have "32 * k = 512 * t + 32 * (k mod 16)" by linarith
        then show ?thesis using that by simp
      qed
      have iv: "i < length (v s)" using i len [of s] by (simp add: DEV_BSIZE_def)
      show "take 512 (drop (512 * t) (put_bytes (32 * k) ?ys ?xs)) ! i
          = (if t = k div 16 then put_bytes (32 * (k mod 16)) ?ys (v s) else v s) ! i"
        unfolding g nth_put_bytes [OF fit i'] ly in_iff using off x nth_put_bytes [OF fit' iv] ly by auto
    qed
    then show ?thesis
      using True unfolding stored_def sec_put_def dirents.put_slot_def by (auto simp: DIRENTSZ_def DEV_BSIZE_def t_def)
  qed
qed

end
