(* ===== verification/Denode.thy ===== *)
theory Denode
  imports DirEntry Fat DosConv
begin

text \<open>
  In-core files: the directory entry of a file read and written back, and truncation, after
  \<open>fs/dosfs/dosfs_denode.c\<close> and the routines of \<open>fs/dosfs/dosfs_lookup.c\<close> that access one entry. The flag
  \<open>VFS_RDONLY\<close> of the mounted file system and the current time \<open>hrestime\<close> are arguments. A division by
  zero and an entry outside its buffer are \<open>None\<close>.
\<close>

definition DEUPD :: uint_t where "DEUPD = 0x0008"
definition DEMOD :: uint_t where "DEMOD = 0x0080"
definition FAT_GET_AND_SET :: nat where "FAT_GET_AND_SET = FAT_GET OR FAT_SET"

section \<open>One entry of a directory\<close>

text \<open>Entry \<open>k\<close> of the array of entries in a buffer.\<close>

definition dirent_get :: "lbuf \<Rightarrow> nat \<Rightarrow> direntry option" where
  "dirent_get lb k = (if DIRENTSZ * k + DIRENTSZ \<le> length (lb_addr lb)
     then Some (direntry_of (take DIRENTSZ (drop (DIRENTSZ * k) (lb_addr lb)))) else None)"

definition dirent_put :: "lbuf \<Rightarrow> nat \<Rightarrow> direntry \<Rightarrow> lbuf option" where
  "dirent_put lb k e = (if DIRENTSZ * k + DIRENTSZ \<le> length (lb_addr lb)
     then Some (lb\<lparr>lb_addr := put_bytes (DIRENTSZ * k) (direntry_bytes e) (lb_addr lb)\<rparr>) else None)"

text \<open>
  The block to read and the number of the entry in it. The root directory (cluster 0) is addressed by
  the number of the entry in the whole directory.
\<close>

definition de_slot :: "dosfs_vfs \<Rightarrow> nat \<Rightarrow> nat \<Rightarrow> (nat \<times> nat) option" where
  "de_slot pvp dirclust diroffset =
     (if dirclust = DOSFSROOT then
        let n = vfs_BytesPerSec pvp div DIRENTSZ
        in if n = 0 then None else Some (uadd32 (vfs_rootdirblk pvp) (diroffset div n), diroffset mod n)
      else Some (cntobn pvp dirclust, diroffset))"

definition readde :: "'d bio \<Rightarrow> dosfs_vfs \<Rightarrow> 'd \<Rightarrow> denode \<Rightarrow> ('d \<times> nat \<times> (lbuf \<times> nat) option) option" where
  "readde io pvp d dep = do {
     (bn, theoff) \<leftarrow> de_slot pvp (de_dirclust dep) (de_diroffset dep);
     (d, bp) \<leftarrow> lbread io d bn (vfs_bpcluster pvp);
     if lgeterror io bp \<noteq> 0 then Some (lbrelse io d bp, lgeterror io bp, None)
     else Some (d, 0, Some (bp, theoff)) }"

definition get_direntp :: "'d bio \<Rightarrow> dosfs_vfs \<Rightarrow> 'd \<Rightarrow> nat \<Rightarrow> nat \<Rightarrow> ('d \<times> nat \<times> direntry option) option" where
  "get_direntp io pvp d dirclust diroffset = do {
     (bn, theoff) \<leftarrow> de_slot pvp dirclust diroffset;
     (d, bp) \<leftarrow> lbread io d bn (vfs_bpcluster pvp);
     let error = lgeterror io bp;
     e \<leftarrow> (if error = 0 then do { e \<leftarrow> dirent_get bp theoff; Some (Some e) } else Some None);
     Some (lbrelse io d bp, error, e) }"

definition markdeleted :: "'d bio \<Rightarrow> dosfs_vfs \<Rightarrow> 'd \<Rightarrow> nat \<Rightarrow> nat \<Rightarrow> ('d \<times> nat) option" where
  "markdeleted io pvp d dirclust diroffset = do {
     (bn, offset) \<leftarrow> de_slot pvp dirclust diroffset;
     (d, bp) \<leftarrow> lbread io d bn (vfs_bpcluster pvp);
     if lgeterror io bp \<noteq> 0 then Some (lbrelse io d bp, lgeterror io bp)
     else do {
       bp \<leftarrow> lb_set bp (DIRENTSZ * offset) 0xe5;
       Some (lbdwrite io d bp, 0) } }"

section \<open>Writing a file's entry back\<close>

definition deupdat :: "'d bio \<Rightarrow> bool \<Rightarrow> dosfs_vfs \<Rightarrow> 'd \<Rightarrow> conv \<Rightarrow> denode \<Rightarrow> uint_t \<Rightarrow> bool
    \<Rightarrow> ('d \<times> conv \<times> denode \<times> nat) option" where
  "deupdat io ronly pvp d cv dep tp waitfor =
     (if de_flag dep AND (DEUPD OR DEMOD) = 0 \<or> ronly \<or> de_vroot dep then Some (d, cv, dep, 0)
      else do {
        (d, error, r) \<leftarrow> readde io pvp d dep;
        (case r of
           None \<Rightarrow> Some (d, cv, dep, error)
         | Some (bp, dirp) \<Rightarrow> do {
             let (cv, date, time) = unix2dostime cv tp;
             let dep = dep\<lparr>de_de := (de_de dep)\<lparr>deDate := ddi date, deTime := dti time\<rparr>,
                           de_flag := de_flag dep AND NOT (DEUPD OR DEMOD)\<rparr>;
             bp \<leftarrow> dirent_put bp dirp (de_de dep);
             if waitfor then (let (d, error) = lbwritewait io d bp in Some (d, cv, dep, error))
             else Some (lbdwrite io d bp, cv, dep, 0) }) })"

section \<open>Truncation\<close>

text \<open>The size of a directory is found by mapping a position no file has.\<close>

definition trunc_size :: "'d bio \<Rightarrow> dosfs_vfs \<Rightarrow> 'd \<Rightarrow> denode \<Rightarrow> ('d \<times> denode \<times> nat option) option" where
  "trunc_size io pvp d dep =
     (if de_Attributes dep AND ATTR_DIRECTORY \<noteq> 0 then do {
        (d, dep, error, _, eofentry) \<leftarrow> pcbmap io pvp d dep 0xffff False True;
        if error \<noteq> 0 \<and> error \<noteq> E2BIG then Some (d, dep, Some error)
        else do {
          eofentry \<leftarrow> eofentry;
          Some (d, dep\<lparr>de_de := (de_de dep)\<lparr>deFileSize := push_bit (vfs_cnshift pvp) (of_nat eofentry)\<rparr>\<rparr>, None) } }
      else Some (d, dep, None))"

text \<open>Zeroing \<open>n\<close> bytes of a buffer from \<open>i\<close>.\<close>

definition lb_zero :: "lbuf \<Rightarrow> nat \<Rightarrow> nat \<Rightarrow> lbuf option" where
  "lb_zero lb i n = (if i + n \<le> length (lb_addr lb)
     then Some (lb\<lparr>lb_addr := put_bytes i (replicate n 0) (lb_addr lb)\<rparr>) else None)"

definition trunc_tail :: "'d bio \<Rightarrow> dosfs_vfs \<Rightarrow> 'd \<Rightarrow> nat \<Rightarrow> nat \<Rightarrow> bool \<Rightarrow> ('d \<times> nat) option" where
  "trunc_tail io pvp d len eofentry sync =
     (let boff = len AND vfs_crbomask pvp in
      if boff \<noteq> 0 then do {
        (d, bp) \<leftarrow> lbread io d (cntobn pvp eofentry) (vfs_bpcluster pvp);
        if lgeterror io bp \<noteq> 0 then Some (lbrelse io d bp, lgeterror io bp)
        else do {
          bp \<leftarrow> lb_zero bp boff (usub32 (vfs_bpcluster pvp) boff);
          Some (if sync then lbwrite io d bp else lbdwrite io d bp, 0) } }
      else Some (d, 0))"

text \<open>
  The end of the shortened chain: its last cluster and, when the file becomes empty, the chain to free.
  The mark for \<open>no last cluster\<close> is \<open>(u_long) ~0\<close>.
\<close>

definition NO_CLUSTER :: nat where "NO_CLUSTER = 2 ^ 32 - 1"

definition trunc_point :: "'d bio \<Rightarrow> dosfs_vfs \<Rightarrow> 'd \<Rightarrow> denode \<Rightarrow> nat
    \<Rightarrow> ('d \<times> denode \<times> nat \<times> nat option \<times> nat option) option" where
  "trunc_point io pvp d dep len =
     (if len = 0 then
        Some (d, dep\<lparr>de_de := (de_de dep)\<lparr>deStartCluster := 0\<rparr>\<rparr>, 0, Some NO_CLUSTER, Some (de_StartCluster dep))
      else do {
        (d, dep, error, _, eofentry) \<leftarrow> pcbmap io pvp d dep (drop_bit (vfs_cnshift pvp) (len - 1)) False True;
        Some (d, dep, error, eofentry, None) })"

text \<open>Cutting the chain behind the last cluster, and freeing the rest.\<close>

definition trunc_cut :: "'d bio \<Rightarrow> dosfs_vfs \<Rightarrow> 'd \<Rightarrow> denode \<Rightarrow> nat \<Rightarrow> nat \<Rightarrow> nat option
    \<Rightarrow> ('d \<times> dosfs_vfs \<times> denode \<times> nat \<times> nat option) option" where
  "trunc_cut io pvp d dep len eofentry chaintofree =
     (if eofentry \<noteq> NO_CLUSTER then do {
        (d, pvp, error, old) \<leftarrow> fatentry io FAT_GET_AND_SET pvp d eofentry True CLUST_EOFE;
        Some (d, pvp, if error \<noteq> 0 then dep
                else fc_setcache dep FC_LASTFC (drop_bit (vfs_cnshift pvp) (len - 1)) eofentry,
              error, old) }
      else Some (d, pvp, dep, 0, chaintofree))"

definition trunc_free :: "'d bio \<Rightarrow> dosfs_vfs \<Rightarrow> 'd \<Rightarrow> nat \<Rightarrow> ('d \<times> dosfs_vfs) option" where
  "trunc_free io pvp d chaintofree =
     (if chaintofree \<noteq> 0 \<and> \<not> DOSFSEOF chaintofree then do {
        (d, pvp, _) \<leftarrow> freeclusterchain io (vfs_maxcluster pvp + 1) pvp d chaintofree;
        Some (d, pvp) }
      else Some (d, pvp))"

text \<open>From the purge of the cache on.\<close>

definition trunc_rest :: "'d bio \<Rightarrow> bool \<Rightarrow> uint_t \<Rightarrow> dosfs_vfs \<Rightarrow> 'd \<Rightarrow> conv \<Rightarrow> denode \<Rightarrow> nat \<Rightarrow> bool \<Rightarrow> nat \<Rightarrow> nat option
    \<Rightarrow> ('d \<times> dosfs_vfs \<times> conv \<times> denode \<times> nat) option" where
  "trunc_rest io ronly now pvp d cv dep len sync eofentry chaintofree = do {
     let dep = fc_purge dep (drop_bit (vfs_cnshift pvp) (uadd32 len (vfs_crbomask pvp)));
     (d, error) \<leftarrow> trunc_tail io pvp d len eofentry sync;
     if error \<noteq> 0 then Some (d, pvp, cv, dep, error)
     else do {
       let dep = dep\<lparr>de_de := (de_de dep)\<lparr>deFileSize := of_nat len\<rparr>, de_flag := de_flag dep OR DEUPD\<rparr>;
       (d, cv, dep, allerror) \<leftarrow> deupdat io ronly pvp d cv dep now True;
       (d, pvp, dep, error, chaintofree) \<leftarrow> trunc_cut io pvp d dep len eofentry chaintofree;
       if error \<noteq> 0 then Some (d, pvp, cv, dep, error)
       else do {
         chaintofree \<leftarrow> chaintofree;
         (d, pvp) \<leftarrow> trunc_free io pvp d chaintofree;
         Some (d, pvp, cv, dep, allerror) } } }"

definition detrunc :: "'d bio \<Rightarrow> bool \<Rightarrow> uint_t \<Rightarrow> dosfs_vfs \<Rightarrow> 'd \<Rightarrow> conv \<Rightarrow> denode \<Rightarrow> nat \<Rightarrow> bool
    \<Rightarrow> ('d \<times> dosfs_vfs \<times> conv \<times> denode \<times> nat) option" where
  "detrunc io ronly now pvp d cv dep len sync =
     (if de_vroot dep then Some (d, pvp, cv, dep, EINVAL)
      else do {
        (d, dep, stop) \<leftarrow> trunc_size io pvp d dep;
        (case stop of
           Some error \<Rightarrow> Some (d, pvp, cv, dep, error)
         | None \<Rightarrow>
             if de_FileSize dep \<le> len then do {
               (d, cv, dep, error) \<leftarrow> deupdat io ronly pvp d cv (dep\<lparr>de_flag := de_flag dep OR DEUPD\<rparr>) now True;
               Some (d, pvp, cv, dep, error) }
             else do {
               (d, dep, error, eofentry, chaintofree) \<leftarrow> trunc_point io pvp d dep len;
               if error \<noteq> 0 then Some (d, pvp, cv, dep, error)
               else do {
                 eofentry \<leftarrow> eofentry;
                 trunc_rest io ronly now pvp d cv dep len sync eofentry chaintofree } }) })"

end
