(* ===== verification/DosName.thy ===== *)
theory DosName
  imports DosTypes "HOL-Library.Monad_Syntax"
begin

text \<open>
  File names: the eight plus three characters of a directory entry and the C string of a UNIX name, after
  \<open>util/ccnv/sb.c\<close>. The code page tables are configured data (four arrays of 255 characters), which is a
  parameter of the model; they are indexed by the character less one. Reading outside a table, or past
  the end of a string, or the local variable \<open>c\<close> before it is set, is \<open>None\<close>.
\<close>

record ccnv =
  cc_tounix :: "u8 list"
  cc_fromunix :: "u8 list"
  cc_nocase_tounix :: "u8 list"
  cc_nocase_fromunix :: "u8 list"
  cc_no_ccnv :: bool

definition SLOT_EMPTY :: u8 where "SLOT_EMPTY = 0x00"
definition SLOT_E5 :: u8 where "SLOT_E5 = 0x05"
definition SLOT_DELETED :: u8 where "SLOT_DELETED = 0xe5"

abbreviation BLANK :: u8 where "BLANK \<equiv> 0x20"
abbreviation DOT :: u8 where "DOT \<equiv> 0x2e"

definition ctab :: "u8 list \<Rightarrow> u8 \<Rightarrow> u8 option" where
  "ctab t c = (if c = 0 \<or> length t < unat c then None else Some (t ! (unat c - 1)))"

section \<open>From the directory entry\<close>

text \<open>The number of characters up to the last that is not a blank, of \<open>n\<close> from place \<open>lo\<close>.\<close>

fun name_end :: "u8 list \<Rightarrow> nat \<Rightarrow> nat \<Rightarrow> nat" where
  "name_end dn lo 0 = 0"
| "name_end dn lo (Suc n) = (if dn ! (lo + n) \<noteq> BLANK then Suc n else name_end dn lo n)"

text \<open>The directory entry (whose first character may change), the C string, and its length.\<close>

definition dos2unixfn :: "ccnv \<Rightarrow> u8 list \<Rightarrow> (u8 list \<times> u8 list \<times> nat) option" where
  "dos2unixfn cc dn = do {
     let n = name_end dn 0 8;
     let e = name_end dn 8 3;
     let dn = (if dn ! 0 = SLOT_E5 then dn[0 := 0xe5] else dn);
     name \<leftarrow> those (map (ctab (cc_tounix cc)) (take n dn));
     (if 0 < e then do {
        ext \<leftarrow> those (map (ctab (cc_tounix cc)) (take e (drop 8 dn)));
        Some (dn, name @ [DOT] @ ext @ [0], n + 1 + e) }
      else Some (dn, name @ [0], n)) }"

section \<open>To the directory entry\<close>

text \<open>The characters refused: \<open>" \ / [ ] : * < > | + = ; ' ?\<close>.\<close>

definition name_invalid :: "u8 list" where
  "name_invalid = [0x22, 0x5c, 0x2f, 0x5b, 0x5d, 0x3a, 0x2a, 0x3c, 0x3e, 0x7c, 0x2b, 0x3d, 0x3b, 0x27, 0x3f]"

text \<open>Comparing the start of a C string with given characters, reading no further than needed.\<close>

fun un_prefix :: "u8 list \<Rightarrow> u8 list \<Rightarrow> bool option" where
  "un_prefix [] un = Some True"
| "un_prefix (p # ps) [] = None"
| "un_prefix (p # ps) (x # xs) = (if x = p then un_prefix ps xs else Some False)"

fun scan_name :: "nat \<Rightarrow> u8 list \<Rightarrow> nat \<Rightarrow> nat \<Rightarrow> bool option" where
  "scan_name 0 un i dotsfound = Some True"
| "scan_name (Suc n) [] i dotsfound = None"
| "scan_name (Suc n) (x # un) i dotsfound =
     (let invalfound = x \<in> set name_invalid \<or> x = DOT \<and> i = 0;
          dotsfound = (if x = DOT then dotsfound + 1 else dotsfound)
      in if 1 < dotsfound \<or> invalfound then Some False else scan_name n un (i + 1) dotsfound)"

text \<open>
  A copying loop of at most \<open>n\<close> rounds, from place \<open>i\<close> of \<open>dn\<close>: the rest of the string, the count of
  characters left, \<open>c\<close>, and the entry.
\<close>

fun copy_chars :: "u8 list \<Rightarrow> (u8 \<Rightarrow> bool) \<Rightarrow> nat \<Rightarrow> nat \<Rightarrow> u8 list \<Rightarrow> nat \<Rightarrow> u8 option \<Rightarrow> u8 list
    \<Rightarrow> (u8 list \<times> nat \<times> u8 option \<times> u8 list) option" where
  "copy_chars t stop 0 i un unlen c dn = Some (un, unlen, c, dn)"
| "copy_chars t stop (Suc n) i un 0 c dn = Some (un, 0, c, dn)"
| "copy_chars t stop (Suc n) i [] (Suc unlen) c dn = None"
| "copy_chars t stop (Suc n) i (x # un) (Suc unlen) c dn =
     (if stop x then Some (x # un, Suc unlen, Some x, dn)
      else do { y \<leftarrow> ctab t x; copy_chars t stop n (i + 1) un unlen (Some x) (dn[i := y]) })"

fun skip_chars :: "u8 list \<Rightarrow> nat \<Rightarrow> u8 option \<Rightarrow> (u8 list \<times> nat \<times> u8 option) option" where
  "skip_chars un 0 c = Some (un, 0, c)"
| "skip_chars [] (Suc unlen) c = None"
| "skip_chars (x # un) (Suc unlen) c =
     (if x = 0 \<or> x = DOT then Some (x # un, Suc unlen, Some x) else skip_chars un unlen (Some x))"

definition unix2dosfn :: "ccnv \<Rightarrow> u8 list \<Rightarrow> nat \<Rightarrow> (nat \<times> u8 list) option" where
  "unix2dosfn cc un unlen = do {
     let dn = replicate 11 BLANK;
     dot \<leftarrow> un_prefix [DOT, 0] un;
     dotdot \<leftarrow> un_prefix [DOT, DOT, 0] un;
     (if dot then Some (0, dn[0 := DOT])
      else if dotdot then Some (0, dn[0 := DOT, 1 := DOT])
      else do {
        valid \<leftarrow> scan_name unlen un 0 0;
        (if \<not> valid then Some (EINVAL, dn)
         else do {
           (un, unlen, c, dn) \<leftarrow> copy_chars (cc_fromunix cc) (\<lambda>c. c = 0 \<or> c = DOT) 8 0 un unlen None dn;
           let dn = (if dn ! 0 = SLOT_DELETED then dn[0 := SLOT_E5] else dn);
           (un, unlen, c) \<leftarrow> skip_chars un unlen c;
           last \<leftarrow> c;
           let (un, unlen) = (if last = DOT then (tl un, unlen - 1) else (un, unlen));
           (_, _, _, dn) \<leftarrow> copy_chars (cc_fromunix cc) (\<lambda>c. c = 0) 3 8 un unlen c dn;
           Some (0, dn) }) }) }"

section \<open>Converting a whole string\<close>

text \<open>The common part of \<open>ccnv_unix2dos\<close> and \<open>ccnv_dos2unix\<close>: the return value, and the string \<open>*from\<close>
  points to afterwards (without its terminator).\<close>

definition ccnv_conv :: "u8 list \<Rightarrow> u8 list \<Rightarrow> uint_t \<Rightarrow> (nat \<times> u8 list) option" where
  "ccnv_conv t from len =
     (if unat len \<le> length from then Some (E2BIG, from)
      else do { to \<leftarrow> those (map (ctab t) from); Some (0, to) })"

definition ccnv_unix2dos :: "ccnv \<Rightarrow> u8 list \<Rightarrow> uint_t \<Rightarrow> bool \<Rightarrow> (nat \<times> u8 list) option" where
  "ccnv_unix2dos cc from len dosnamespace =
     (if cc_no_ccnv cc \<and> \<not> dosnamespace then Some (0, from)
      else ccnv_conv (if dosnamespace then cc_fromunix cc else cc_nocase_fromunix cc) from len)"

definition ccnv_dos2unix :: "ccnv \<Rightarrow> u8 list \<Rightarrow> uint_t \<Rightarrow> bool \<Rightarrow> (nat \<times> u8 list) option" where
  "ccnv_dos2unix cc from len dosnamespace =
     (if cc_no_ccnv cc \<and> \<not> dosnamespace then Some (0, from)
      else ccnv_conv (if dosnamespace then cc_tounix cc else cc_nocase_tounix cc) from len)"

section \<open>The loops on a C string\<close>

definition cmap :: "u8 list \<Rightarrow> u8 \<Rightarrow> u8" where
  "cmap t c = t ! (unat c - 1)"

lemma ctab_ok: "length t = 255 \<Longrightarrow> c \<noteq> 0 \<Longrightarrow> ctab t c = Some (cmap t c)"
proof -
  assume a: "length t = 255" "c \<noteq> 0"
  have "unat c < 256" using unsigned_less [of c, where ?'a = nat] by simp
  then show ?thesis using a by (simp add: ctab_def cmap_def)
qed

lemma those_ctab: "length t = 255 \<Longrightarrow> 0 \<notin> set s \<Longrightarrow> those (map (ctab t) s) = Some (map (cmap t) s)"
  by (induction s) (auto simp: ctab_ok)

lemma scan_name_ok:
  "dots \<le> 1 \<Longrightarrow> scan_name (length s) (s @ rest) i dots = Some (set s \<inter> set name_invalid = {}
     \<and> (i = 0 \<longrightarrow> s = [] \<or> hd s \<noteq> DOT) \<and> dots + count_list s DOT \<le> 1)"
proof (induction s arbitrary: i dots)
  case (Cons x s)
  show ?case
  proof (cases "x = DOT")
    case True
    then show ?thesis using Cons by (auto simp: Let_def)
  next
    case False
    then show ?thesis using Cons by (auto simp: Let_def)
  qed
qed simp

text \<open>What a copying loop does on a string followed by its terminator.\<close>

definition run_len :: "(u8 \<Rightarrow> bool) \<Rightarrow> nat \<Rightarrow> u8 list \<Rightarrow> nat" where
  "run_len stop n s = min n (length (takeWhile (\<lambda>x. \<not> stop x) s))"

lemma run_len_simps: "run_len stop 0 s = 0" "run_len stop n [] = 0"
  "run_len stop (Suc n) (x # s) = (if stop x then 0 else Suc (run_len stop n s))"
  by (simp_all add: run_len_def)

lemma copy_chars_ok:
  assumes "length t = 255" and "stop 0"
  shows "i + n \<le> length dn \<Longrightarrow> 0 \<notin> set s \<Longrightarrow> \<exists>c'. copy_chars t stop n i (s @ [0]) (length s) c dn
    = Some (drop (run_len stop n s) s @ [0], length s - run_len stop n s, c',
        take i dn @ map (cmap t) (take (run_len stop n s) s) @ drop (i + run_len stop n s) dn)
    \<and> (c' = None \<longrightarrow> c = None \<and> (n = 0 \<or> s = [])) \<and> (\<forall>x. c' = Some x \<longrightarrow> \<not> stop x \<or> c = Some x \<or> (\<exists>zs. drop (run_len stop n s) s = x # zs))"
proof (induction n arbitrary: i s c dn)
  case 0
  then show ?case by (simp add: run_len_simps)
next
  case (Suc n)
  show ?case
  proof (cases s)
    case Nil
    then show ?thesis by (simp add: run_len_simps)
  next
    case (Cons x s')
    show ?thesis
    proof (cases "stop x")
      case True
      then show ?thesis by (simp add: Cons run_len_simps)
    next
      case False
      have x: "x \<noteq> 0" using Suc.prems(2) Cons by auto
      let ?dn = "dn[i := cmap t x]" and ?k = "run_len stop n s'"
      have "i + 1 + n \<le> length ?dn" "0 \<notin> set s'" using Suc.prems Cons by auto
      from Suc.IH [OF this, of "Some x"] obtain c' where ih: "copy_chars t stop n (i + 1) (s' @ [0]) (length s') (Some x) ?dn
          = Some (drop ?k s' @ [0], length s' - ?k, c', take (i + 1) ?dn @ map (cmap t) (take ?k s') @ drop (i + 1 + ?k) ?dn)"
        "c' \<noteq> None" "\<forall>y. c' = Some y \<longrightarrow> \<not> stop y \<or> Some x = Some y \<or> (\<exists>zs. drop ?k s' = y # zs)"
        by auto
      have d: "take (i + 1) ?dn = take i dn @ [cmap t x]" "drop (i + 1 + ?k) ?dn = drop (i + Suc ?k) dn"
        using Suc.prems(1) by (simp_all add: take_Suc_conv_app_nth)
      show ?thesis
        unfolding Cons using False ih x d
        by (simp add: ctab_ok [OF assms(1)] run_len_simps) (metis False)
    qed
  qed
qed

lemma skip_chars_ok:
  "0 \<notin> set s \<Longrightarrow> \<exists>c'. skip_chars (s @ [0]) (length s) c
    = Some (dropWhile (\<lambda>x. x \<noteq> DOT) s @ [0], length (dropWhile (\<lambda>x. x \<noteq> DOT) s), c')
    \<and> (DOT \<in> set s \<longrightarrow> c' = Some DOT) \<and> (DOT \<notin> set s \<longrightarrow> (if s = [] then c' = c else c' \<noteq> None \<and> c' \<noteq> Some DOT))"
proof (induction s arbitrary: c)
  case (Cons x s)
  show ?case
  proof (cases "x = DOT")
    case False
    then show ?thesis using Cons.IH [of "Some x"] Cons.prems by (cases "s = []") auto
  qed simp
qed simp

section \<open>Properties\<close>

text \<open>The eight plus three characters of a name, and which names are accepted.\<close>

definition pad :: "nat \<Rightarrow> u8 list \<Rightarrow> u8 list" where
  "pad n xs = take n xs @ replicate (n - length xs) BLANK"

definition name_base :: "u8 list \<Rightarrow> u8 list" where
  "name_base s = takeWhile (\<lambda>x. x \<noteq> DOT) s"

definition name_ext :: "u8 list \<Rightarrow> u8 list" where
  "name_ext s = drop 1 (dropWhile (\<lambda>x. x \<noteq> DOT) s)"

definition valid_name :: "u8 list \<Rightarrow> bool" where
  "valid_name s \<longleftrightarrow> s \<noteq> [] \<and> hd s \<noteq> DOT \<and> set s \<inter> set name_invalid = {} \<and> count_list s DOT \<le> 1"

definition slot_first :: "u8 list \<Rightarrow> u8 list" where
  "slot_first dn = (if dn ! 0 = SLOT_DELETED then dn[0 := SLOT_E5] else dn)"

lemma not_dots:
  assumes "s \<noteq> [DOT]" and "s \<noteq> [DOT, DOT]" and "0 \<notin> set s" and "s \<noteq> []"
  shows "un_prefix [DOT, 0] (s @ [0]) = Some False" and "un_prefix [DOT, DOT, 0] (s @ [0]) = Some False"
proof -
  obtain x xs where x: "s = x # xs" using assms(4) by (cases s) auto
  show "un_prefix [DOT, 0] (s @ [0]) = Some False" using assms by (cases xs) (auto simp: x)
  show "un_prefix [DOT, DOT, 0] (s @ [0]) = Some False"
  proof (cases xs)
    case (Cons y ys)
    then show ?thesis using assms by (cases ys) (auto simp: x)
  qed (use assms in \<open>simp add: x\<close>)
qed

lemma run_base:
  assumes "0 \<notin> set s"
  shows "takeWhile (\<lambda>x. \<not> (x = 0 \<or> x = DOT)) s = name_base s" "takeWhile (\<lambda>x. x \<noteq> 0) s = s"
proof -
  show "takeWhile (\<lambda>x. \<not> (x = 0 \<or> x = DOT)) s = name_base s"
    unfolding name_base_def using assms by (intro takeWhile_cong refl) auto
  show "takeWhile (\<lambda>x. x \<noteq> 0) s = s" using assms by (auto simp: takeWhile_eq_all_conv)
qed

text \<open>C23: \<open>unix2dosfn\<close> of a name other than dot and dot-dot, with its length: EINVAL exactly when it starts with
  a dot, has two dots or a refused character; otherwise the entry holds the first eight characters before
  the dot and the first three after it, each through the table and padded with blanks, with the mark of a
  deleted entry replaced in the first place.\<close>

theorem unix2dosfn_fields:
  assumes "length (cc_fromunix cc) = 255" and s: "0 \<notin> set s" "s \<noteq> []" "s \<noteq> [DOT]" "s \<noteq> [DOT, DOT]"
  shows "unix2dosfn cc (s @ [0]) (length s) = Some (if valid_name s
    then (0, slot_first (pad 8 (map (cmap (cc_fromunix cc)) (name_base s)))
             @ pad 3 (map (cmap (cc_fromunix cc)) (name_ext s)))
    else (EINVAL, replicate 11 BLANK))"
proof -
  let ?t = "cc_fromunix cc" and ?st = "\<lambda>c. c = 0 \<or> c = DOT" and ?b = "replicate 11 BLANK"
  have sc: "scan_name (length s) (s @ [0]) 0 0 = Some (valid_name s)"
    using scan_name_ok [of 0 s "[0]" 0] s(2) by (auto simp: valid_name_def)
  note nd = not_dots [OF s(3,4,1,2)]
  show ?thesis
  proof (cases "valid_name s")
    case False
    then show ?thesis by (simp add: unix2dosfn_def nd sc)
  next
    case True
    let ?k = "run_len ?st 8 s"
    have st0: "?st 0" by simp
    have b11: "0 + 8 \<le> length ?b" by simp
    obtain c1 where c1: "copy_chars ?t ?st 8 0 (s @ [0]) (length s) None ?b
        = Some (drop ?k s @ [0], length s - ?k, c1, take 0 ?b @ map (cmap ?t) (take ?k s) @ drop (0 + ?k) ?b)"
      "c1 = None \<longrightarrow> s = []" "\<forall>x. c1 = Some x \<longrightarrow> \<not> ?st x \<or> (\<exists>zs. drop ?k s = x # zs)"
      using copy_chars_ok [where stop = ?st and n = 8 and i = 0 and dn = ?b and s = s and c = None, OF assms(1) st0 b11 s(1)]
      by auto
    have k: "?k = min 8 (length (name_base s))" by (simp only: run_len_def run_base [OF s(1)])
    have kb: "take ?k s = take 8 (name_base s)"
    proof -
      have "take (length (name_base s)) s = name_base s" unfolding name_base_def by (rule takeWhile_eq_take [symmetric])
      then show ?thesis unfolding k by (metis min.commute take_take)
    qed
    let ?d1 = "pad 8 (map (cmap ?t) (name_base s)) @ replicate 3 BLANK"
    have d1: "take 0 ?b @ map (cmap ?t) (take ?k s) @ drop (0 + ?k) ?b = ?d1"
    proof -
      have "11 - ?k = (8 - length (name_base s)) + 3" unfolding k by auto
      then show ?thesis unfolding kb by (simp add: pad_def take_map replicate_add)
    qed
    have l8: "length (pad 8 (map (cmap ?t) (name_base s))) = 8" by (simp add: pad_def)
    define d2 where "d2 = slot_first (pad 8 (map (cmap ?t) (name_base s)))"
    have d2: "(if ?d1 ! 0 = SLOT_DELETED then ?d1[0 := SLOT_E5] else ?d1) = d2 @ replicate 3 BLANK" "length d2 = 8"
      using l8 by (auto simp: d2_def slot_first_def nth_append list_update_append)
    let ?r = "drop ?k s" and ?w = "dropWhile (\<lambda>x. x \<noteq> DOT) s"
    have r0: "0 \<notin> set ?r" using s(1) by (auto dest: in_set_dropD)
    have rw: "dropWhile (\<lambda>x. x \<noteq> DOT) ?r = ?w"
    proof -
      have "dropWhile (\<lambda>x. x \<noteq> DOT) s = dropWhile (\<lambda>x. x \<noteq> DOT) (take ?k s @ drop ?k s)" by simp
      also have "\<dots> = dropWhile (\<lambda>x. x \<noteq> DOT) (drop ?k s)"
        by (rule dropWhile_append2) (auto simp: kb name_base_def dest!: in_set_takeD set_takeWhileD)
      finally show ?thesis by simp
    qed
    obtain c2 where c2: "skip_chars (?r @ [0]) (length ?r) c1 = Some (?w @ [0], length ?w, c2)"
        "DOT \<in> set ?r \<longrightarrow> c2 = Some DOT" "DOT \<notin> set ?r \<longrightarrow> (if ?r = [] then c2 = c1 else c2 \<noteq> None \<and> c2 \<noteq> Some DOT)"
      using skip_chars_ok [OF r0, of c1] rw by auto
    have c2n: "c2 \<noteq> None" using c2(2,3) c1(2) s(2) by (cases "DOT \<in> set ?r"; cases "?r = []") auto
    have c2d: "c2 = Some DOT \<longleftrightarrow> ?w \<noteq> []"
    proof -
      have w: "?w \<noteq> [] \<longleftrightarrow> DOT \<in> set ?r" unfolding rw [symmetric] by (auto simp: dropWhile_eq_Nil_conv)
      have "c2 \<noteq> Some DOT" if n: "DOT \<notin> set ?r"
      proof (cases "?r = []")
        case True
        then have "c2 = c1" using c2(3) n by simp
        then show ?thesis using c1(3) True by auto
      qed (use c2(3) n in simp)
      then show ?thesis using w c2(2) by blast
    qed
    then obtain l where l: "c2 = Some l" "l = DOT \<longleftrightarrow> ?w \<noteq> []" using c2n by auto
    have e: "(if l = DOT then (tl (?w @ [0]), length ?w - 1) else (?w @ [0], length ?w)) = (name_ext s @ [0], length (name_ext s))"
    proof (cases "?w = []")
      case True
      then show ?thesis using l(2) unfolding name_ext_def True by simp
    next
      case False
      then obtain y ys where w: "?w = y # ys" by (cases ?w) auto
      show ?thesis using l(2) unfolding name_ext_def w by simp
    qed
    have e0: "0 \<notin> set (name_ext s)" using s(1) by (auto simp: name_ext_def dest!: in_set_dropD set_dropWhileD)
    let ?j = "run_len (\<lambda>c. c = 0) 3 (name_ext s)"
    have j: "?j = min 3 (length (name_ext s))" by (simp add: run_len_def run_base(2) [OF e0])
    obtain c3 where c3: "copy_chars ?t (\<lambda>c. c = 0) 3 8 (name_ext s @ [0]) (length (name_ext s)) c2 (d2 @ replicate 3 BLANK)
        = Some (drop ?j (name_ext s) @ [0], length (name_ext s) - ?j, c3,
            take 8 (d2 @ replicate 3 BLANK) @ map (cmap ?t) (take ?j (name_ext s)) @ drop (8 + ?j) (d2 @ replicate 3 BLANK))"
      using copy_chars_ok [where stop = "\<lambda>c. c = 0" and n = 3 and i = 8 and dn = "d2 @ replicate 3 BLANK" and s = "name_ext s"
          and c = c2, OF assms(1)] e0 d2(2) by auto
    have fin: "take 8 (d2 @ replicate 3 BLANK) @ map (cmap ?t) (take ?j (name_ext s)) @ drop (8 + ?j) (d2 @ replicate 3 BLANK)
        = d2 @ pad 3 (map (cmap ?t) (name_ext s))"
    proof -
      have "take ?j (name_ext s) = take 3 (name_ext s)" unfolding j by (metis min.commute take_all_iff take_take nle_le min_def)
      moreover have "3 - ?j = 3 - length (name_ext s)" unfolding j by simp
      ultimately show ?thesis using d2(2) by (simp add: pad_def take_map)
    qed
    have lr: "length s - ?k = length ?r" by simp
    have "unix2dosfn cc (s @ [0]) (length s) = Some (0, d2 @ pad 3 (map (cmap ?t) (name_ext s)))"
      unfolding unix2dosfn_def Let_def nd sc using True
      by (simp only: Option.bind.bind_lunit if_True if_False not_True_eq_False c1(1) [unfolded d1] prod.case lr c2(1) l(1) d2(1) e
          c3 [unfolded l(1) fin])
    then show ?thesis using True by (simp add: d2_def)
  qed
qed

text \<open>Tables for the witnesses: the letters folded as in code page 850, all else unchanged.\<close>

definition demo_ccnv :: ccnv where
  "demo_ccnv = (let up = map (\<lambda>i. if 97 \<le> i \<and> i \<le> 122 then of_nat (i - 32) else of_nat i) [1..<256];
       down = map (\<lambda>i. if 65 \<le> i \<and> i \<le> 90 then of_nat (i + 32) else of_nat i) [1..<256];
       same = map of_nat [1..<256]
     in \<lparr>cc_tounix = down, cc_fromunix = up, cc_nocase_tounix = same, cc_nocase_fromunix = same, cc_no_ccnv = True\<rparr>)"

lemma demo_ccnv_len: "length (cc_fromunix demo_ccnv) = 255" "length (cc_tounix demo_ccnv) = 255"
  by (simp_all add: demo_ccnv_def Let_def)

lemma demo_ccnv_map:
  "c \<noteq> 0 \<Longrightarrow> cmap (cc_fromunix demo_ccnv) c = (if 97 \<le> unat c \<and> unat c \<le> 122 then of_nat (unat c - 32) else c)"
  "c \<noteq> 0 \<Longrightarrow> cmap (cc_tounix demo_ccnv) c = (if 65 \<le> unat c \<and> unat c \<le> 90 then of_nat (unat c + 32) else c)"
proof -
  assume "c \<noteq> 0"
  then have "0 < unat c" by (simp add: unat_gt_0)
  moreover have "unat c < 256" using unsigned_less [of c, where ?'a = nat] by simp
  ultimately have "unat c - 1 < length [1..<256]" "[1..<256] ! (unat c - 1) = unat c" by auto
  then show "cmap (cc_fromunix demo_ccnv) c = (if 97 \<le> unat c \<and> unat c \<le> 122 then of_nat (unat c - 32) else c)"
    "cmap (cc_tounix demo_ccnv) c = (if 65 \<le> unat c \<and> unat c \<le> 90 then of_nat (unat c + 32) else c)"
    by (simp_all add: cmap_def demo_ccnv_def Let_def del: upt_Suc)
qed

theorem unix2dosfn_fields_witness:
  "unix2dosfn demo_ccnv ([0x61, DOT, 0x62] @ [0]) 3
     = Some (0, [0x41] @ replicate 7 BLANK @ [0x42, BLANK, BLANK])"
  using unix2dosfn_fields [OF demo_ccnv_len(1), of "[0x61, DOT, 0x62]"]
  by (simp add: numeral_3_eq_3 valid_name_def name_invalid_def name_base_def name_ext_def pad_def slot_first_def SLOT_DELETED_def
      demo_ccnv_map)

section \<open>The way back\<close>

lemma name_end_ok:
  assumes "n \<le> m" and "\<And>j. n \<le> j \<Longrightarrow> j < m \<Longrightarrow> dn ! (lo + j) = BLANK" and "0 < n \<longrightarrow> dn ! (lo + n - 1) \<noteq> BLANK"
  shows "name_end dn lo m = n"
  using assms
proof (induction m)
  case (Suc m)
  show ?case
  proof (cases "n = Suc m")
    case True
    then show ?thesis using Suc.prems(3) by simp
  next
    case False
    then have "n \<le> m" "dn ! (lo + m) = BLANK" using Suc.prems by auto
    then show ?thesis using Suc by simp
  qed
qed simp

lemma name_end_pad:
  assumes "length xs \<le> m" and "xs \<noteq> [] \<longrightarrow> last xs \<noteq> BLANK"
  shows "name_end (ys @ pad m xs @ zs) (length ys) m = length xs"
proof (rule name_end_ok [OF assms(1)])
  show "(ys @ pad m xs @ zs) ! (length ys + j) = BLANK" if "length xs \<le> j" "j < m" for j
    using that assms(1) diff_less_mono [OF that(2,1)] by (simp add: pad_def nth_append)
  show "0 < length xs \<longrightarrow> (ys @ pad m xs @ zs) ! (length ys + length xs - 1) \<noteq> BLANK"
  proof
    assume l: "0 < length xs"
    then have e: "length ys + length xs - 1 = length ys + (length xs - 1)" by linarith
    have "(ys @ pad m xs @ zs) ! (length ys + (length xs - 1)) = last xs"
      using l assms(1) by (simp add: pad_def nth_append last_conv_nth)
    then show "(ys @ pad m xs @ zs) ! (length ys + length xs - 1) \<noteq> BLANK" using assms(2) l e by auto
  qed
qed

lemma slot_first_pad:
  assumes "xs \<noteq> []" and "length xs \<le> 8"
  shows "slot_first (pad 8 xs) = pad 8 (if hd xs = SLOT_DELETED then SLOT_E5 # tl xs else xs)"
  using assms by (cases xs) (auto simp: slot_first_def pad_def)

text \<open>C22: An eight plus three name survives the way into a directory entry and back, each character folded
  through both tables: the blanks are stripped, the dot comes back, and a first character that looks like
  the mark of a deleted entry is restored. The characters must not be refused ones, nor map to the
  terminator; the last ones must not map to a blank, nor the first to the replacement mark.\<close>

theorem dos_name_roundtrip:
  assumes t: "length (cc_fromunix cc) = 255" "length (cc_tounix cc) = 255"
    and b: "base \<noteq> []" "length base \<le> 8" "length ext \<le> 3"
    and ch: "set (base @ ext) \<inter> ({0, DOT} \<union> set name_invalid) = {}"
    and up: "0 \<notin> cmap (cc_fromunix cc) ` set (base @ ext)" "cmap (cc_fromunix cc) (last base) \<noteq> BLANK"
      "ext \<noteq> [] \<longrightarrow> cmap (cc_fromunix cc) (last ext) \<noteq> BLANK" "cmap (cc_fromunix cc) (hd base) \<noteq> SLOT_E5"
    and s: "s = base @ (if ext = [] then [] else DOT # ext)"
  shows "\<exists>dn dn'. unix2dosfn cc (s @ [0]) (length s) = Some (0, dn) \<and> length dn = 11
    \<and> dos2unixfn cc dn = Some (dn', map (cmap (cc_tounix cc) \<circ> cmap (cc_fromunix cc)) base
        @ (if ext = [] then [] else DOT # map (cmap (cc_tounix cc) \<circ> cmap (cc_fromunix cc)) ext) @ [0], length s)"
proof -
  have nd: "DOT \<notin> set base" "DOT \<notin> set ext" "0 \<notin> set base" "0 \<notin> set ext" using ch by auto
  have di: "DOT \<notin> set name_invalid" by (simp add: name_invalid_def)
  have c0: "count_list base DOT = 0" "count_list ext DOT = 0" using nd by (simp_all add: count_list_0_iff)
  obtain x base' where x: "base = x # base'" using b(1) by (cases base) auto
  have vs: "valid_name s" using nd c0 ch di b(1) by (auto simp: valid_name_def s x)
  have tw: "takeWhile (\<lambda>x. x \<noteq> DOT) (base @ ys) = base @ takeWhile (\<lambda>x. x \<noteq> DOT) ys"
    "dropWhile (\<lambda>x. x \<noteq> DOT) (base @ ys) = dropWhile (\<lambda>x. x \<noteq> DOT) ys" for ys
    using nd(1) by (auto intro!: takeWhile_append2 dropWhile_append2)
  have be: "name_base s = base" "name_ext s = ext" by (simp_all add: name_base_def name_ext_def s tw)
  have sn: "0 \<notin> set s" "s \<noteq> []" "s \<noteq> [DOT]" "s \<noteq> [DOT, DOT]" using nd x by (auto simp: s)
  let ?B = "map (cmap (cc_fromunix cc)) base" and ?E = "map (cmap (cc_fromunix cc)) ext"
  let ?B' = "if hd ?B = SLOT_DELETED then SLOT_E5 # tl ?B else ?B"
  let ?dn = "pad 8 ?B' @ pad 3 ?E"
  have u: "unix2dosfn cc (s @ [0]) (length s) = Some (0, ?dn)"
    using unix2dosfn_fields [OF t(1) sn] vs slot_first_pad [of ?B] b by (simp add: be)
  have lb: "length ?B' = length base" by (simp add: x)
  have l8: "length (pad 8 ?B') = 8" "length (pad 3 ?E) = 3" by (simp_all add: pad_def)
  have lastB: "last ?B' \<noteq> BLANK" using up(2) by (auto simp: x last_map SLOT_E5_def)
  have n1: "name_end ?dn 0 8 = length base"
    using name_end_pad [of ?B' 8 "[]" "pad 3 ?E"] lb lastB b by simp
  have n2: "name_end ?dn 8 3 = length ext"
    using name_end_pad [of ?E 3 "pad 8 ?B'" "[]"] l8 up(3) b(3) by (simp add: last_map)
  have first: "(if ?dn ! 0 = SLOT_E5 then ?dn[0 := 0xe5] else ?dn) = pad 8 ?B @ pad 3 ?E"
    using up(4) by (auto simp: x pad_def SLOT_DELETED_def SLOT_E5_def)
  have tk: "take (length base) (pad 8 ?B @ pad 3 ?E) = ?B" "take (length ext) (drop 8 (pad 8 ?B @ pad 3 ?E)) = ?E"
    using b by (simp_all add: pad_def)
  have z: "0 \<notin> set ?B" "0 \<notin> set ?E" using up(1) by auto
  have d: "dos2unixfn cc ?dn = Some (pad 8 ?B @ pad 3 ?E, map (cmap (cc_tounix cc) \<circ> cmap (cc_fromunix cc)) base
      @ (if ext = [] then [] else DOT # map (cmap (cc_tounix cc) \<circ> cmap (cc_fromunix cc)) ext) @ [0], length s)"
    unfolding dos2unixfn_def Let_def n1 n2 first tk those_ctab [OF t(2) z(1)] those_ctab [OF t(2) z(2)] by (simp add: s)
  have "length ?dn = 11" by (simp only: length_append l8)
  with u d show ?thesis by blast
qed

theorem dos_name_roundtrip_witness:
  "\<exists>dn dn'. unix2dosfn demo_ccnv ([0x61, 0x42, DOT, 0x63] @ [0]) 4 = Some (0, dn)
    \<and> dos2unixfn demo_ccnv dn = Some (dn', [0x61, 0x62, DOT, 0x63, 0], 4)"
proof -
  have ch: "set ([0x61, 0x42] @ [0x63]) \<inter> ({0, DOT} \<union> set name_invalid) = {}" by (simp add: name_invalid_def)
  have up: "0 \<notin> cmap (cc_fromunix demo_ccnv) ` set ([0x61, 0x42] @ [0x63])"
    "cmap (cc_fromunix demo_ccnv) (last [0x61, 0x42]) \<noteq> BLANK"
    "[0x63 :: u8] \<noteq> [] \<longrightarrow> cmap (cc_fromunix demo_ccnv) (last [0x63]) \<noteq> BLANK"
    "cmap (cc_fromunix demo_ccnv) (hd [0x61, 0x42]) \<noteq> SLOT_E5"
    by (simp_all add: demo_ccnv_map SLOT_E5_def)
  have s: "[0x61, 0x42, DOT, 0x63] = [0x61, 0x42] @ (if [0x63 :: u8] = [] then [] else DOT # [0x63])" by simp
  have b: "[0x61, 0x42 :: u8] \<noteq> []" "length [0x61, 0x42 :: u8] \<le> 8" "length [0x63 :: u8] \<le> 3" by simp_all
  have l: "length [0x61, 0x42, DOT, 0x63] = 4" by simp
  have m: "cmap (cc_tounix demo_ccnv) (cmap (cc_fromunix demo_ccnv) 0x61) = 0x61"
    "cmap (cc_tounix demo_ccnv) (cmap (cc_fromunix demo_ccnv) 0x42) = 0x62"
    "cmap (cc_tounix demo_ccnv) (cmap (cc_fromunix demo_ccnv) 0x63) = 0x63"
    by (simp_all add: demo_ccnv_map)
  show ?thesis
    using dos_name_roundtrip [OF demo_ccnv_len b ch up s, unfolded l] by (auto simp: m)
qed

end
