(* ===== verification/Dir.thy ===== *)
theory Dir
  imports Denode DosName
begin

text \<open>
  Directories (\<open>fs/dosfs/dosfs_lookup.c\<close>): the search for a name and for a free slot, the creation and the
  removal of an entry, the test whether a directory is empty. A search runs over the clusters of the
  directory; its bound on rounds is an argument, since a chain that never ends, or a table that cannot be
  read, keeps the loops of the code running. The cache of names of the vnode layer is a parameter, as it is
  not part of this source tree. The denode of an entry found or made is the business of \<open>deget\<close>.
\<close>

definition ENOTDIR :: nat where "ENOTDIR = 20"

text \<open>The first byte of the name, and the eleven bytes \<open>bcmp\<close> compares.\<close>

definition name0 :: "direntry \<Rightarrow> u8" where
  "name0 e = deName e ! 0"

definition name11 :: "direntry \<Rightarrow> u8 list" where
  "name11 e = deName e @ deExtension e"

section \<open>Searching\<close>

text \<open>
  A free slot as the search remembers it: whether it looks for one no more (\<open>slotstatus\<close> is \<open>FOUND\<close>), and the
  offset and the cluster once set.
\<close>

type_synonym slot = "bool \<times> (nat \<times> nat) option"

datatype look = Look_more slot nat | Look_none slot | Look_found nat nat direntry

text \<open>Entry \<open>diroff\<close> of the cluster in the buffer, and the entries after it.\<close>

fun scan_cluster :: "lbuf \<Rightarrow> u8 list \<Rightarrow> nat \<Rightarrow> nat \<Rightarrow> nat \<Rightarrow> nat \<Rightarrow> slot \<Rightarrow> look option" where
  "scan_cluster bp nm cluster 0 diroff rootreloff slot = Some (Look_more slot rootreloff)"
| "scan_cluster bp nm cluster (Suc n) diroff rootreloff slot = do {
     dep \<leftarrow> dirent_get bp diroff;
     let off = (if cluster = DOSFSROOT then rootreloff else diroff);
     if name0 dep = SLOT_EMPTY \<or> name0 dep = SLOT_DELETED then
       (let slot = (if \<not> fst slot then (True, Some (off, cluster)) else slot)
        in if name0 dep = SLOT_EMPTY then Some (Look_none slot)
           else scan_cluster bp nm cluster n (diroff + 1) (rootreloff + 1) slot)
     else if deAttributes dep AND ATTR_VOLUME = 0 \<and> nm = name11 dep then Some (Look_found cluster off dep)
     else scan_cluster bp nm cluster n (diroff + 1) (rootreloff + 1) slot }"

text \<open>The entries of a cluster of the directory; a root directory smaller than a cluster has fewer.\<close>

definition dir_nentries :: "dosfs_vfs \<Rightarrow> denode \<Rightarrow> nat" where
  "dir_nentries pvp dp =
     (if de_StartCluster dp = DOSFSROOT \<and> vfs_rootdirsize pvp < vfs_SectPerClust pvp
      then vfs_rootdirsize pvp * vfs_BytesPerSec pvp div DIRENTSZ
      else vfs_depclust pvp)"

text \<open>The outer loop, from cluster \<open>frcn\<close> of the directory on. A search that fails yields an error number.\<close>

fun look_loop :: "'d bio \<Rightarrow> dosfs_vfs \<Rightarrow> nat \<Rightarrow> 'd \<Rightarrow> denode \<Rightarrow> u8 list \<Rightarrow> nat \<Rightarrow> nat \<Rightarrow> slot
    \<Rightarrow> ('d \<times> denode \<times> (nat + look)) option" where
  "look_loop io pvp 0 d dp nm frcn rootreloff slot = None"
| "look_loop io pvp (Suc n) d dp nm frcn rootreloff slot = do {
     (d, dp, error, bn, cluster) \<leftarrow> pcbmap io pvp d dp frcn True True;
     if error \<noteq> 0 then Some (d, dp, if error = E2BIG then Inr (Look_none slot) else Inl error)
     else do {
       bn \<leftarrow> bn;
       cluster \<leftarrow> cluster;
       (d, bp) \<leftarrow> lbread io d bn (vfs_bpcluster pvp);
       if lgeterror io bp \<noteq> 0 then Some (lbrelse io d bp, dp, Inl (lgeterror io bp))
       else do {
         r \<leftarrow> scan_cluster bp nm cluster (dir_nentries pvp dp) 0 rootreloff slot;
         (case r of
            Look_more slot rootreloff \<Rightarrow> look_loop io pvp n (lbrelse io d bp) dp nm (frcn + 1) rootreloff slot
          | _ \<Rightarrow> Some (lbrelse io d bp, dp, Inr r)) } } }"

text \<open>
  The result of a lookup: the directory itself, a denode the cache of names knows, an error, or the entry
  with its place, which \<open>deget\<close> is then called with. \<open>getfree\<close> is the flag \<open>GETFREESLOT\<close>.
\<close>

datatype 'v lookup = Is_self | Is_cached 'v | Is_error nat | Is_entry nat nat direntry

definition note_slot :: "bool \<Rightarrow> slot \<Rightarrow> denode \<Rightarrow> denode option" where
  "note_slot getfree slot dp =
     (if \<not> getfree then Some dp
      else if \<not> fst slot then Some (dp\<lparr>de_froffset := 0, de_frcluster := 0, de_frspace := 0\<rparr>)
      else do {
        (off, cluster) \<leftarrow> snd slot;
        Some (dp\<lparr>de_froffset := off, de_frcluster := cluster, de_frspace := 1\<rparr>) })"

definition dirlook_name :: "'d bio \<Rightarrow> dosfs_vfs \<Rightarrow> nat \<Rightarrow> 'd \<Rightarrow> denode \<Rightarrow> u8 list \<Rightarrow> bool
    \<Rightarrow> ('d \<times> denode \<times> 'v lookup) option" where
  "dirlook_name io pvp n d dp nm getfree = do {
     (d, dp, r) \<leftarrow> look_loop io pvp n d dp nm 0 0 (\<not> getfree, None);
     (case r of
        Inl error \<Rightarrow> Some (d, dp, Is_error error)
      | Inr (Look_found cluster off dep) \<Rightarrow> Some (d, dp, Is_entry cluster off dep)
      | Inr (Look_none slot) \<Rightarrow> do { dp \<leftarrow> note_slot getfree slot dp; Some (d, dp, Is_error ENOENT) }
      | Inr (Look_more slot reloff) \<Rightarrow> None) }"

definition dosfs_dirlook :: "'d bio \<Rightarrow> ccnv \<Rightarrow> (u8 list \<Rightarrow> 'v option) \<Rightarrow> dosfs_vfs \<Rightarrow> nat \<Rightarrow> 'd \<Rightarrow> denode \<Rightarrow> u8 list \<Rightarrow> bool
    \<Rightarrow> ('d \<times> denode \<times> 'v lookup) option" where
  "dosfs_dirlook io cc dnlc pvp n d dp name getfree =
     (if de_Attributes dp AND ATTR_DIRECTORY = 0 then Some (d, dp, Is_error ENOTDIR)
      else if 0 \<notin> set name then None
      else do {
        let nlen = length (takeWhile (\<lambda>c. c \<noteq> 0) name);
        if nlen = 0 \<or> nlen = 1 \<and> name ! 0 = DOT then Some (d, dp, Is_self)
        else do {
          (error, nm) \<leftarrow> unix2dosfn cc name nlen;
          if error \<noteq> 0 then Some (d, dp, Is_error error)
          else (case dnlc nm of
              Some vp \<Rightarrow> Some (d, dp, Is_cached vp)
            | None \<Rightarrow> dirlook_name io pvp n d dp nm getfree) } })"

section \<open>Creating an entry\<close>

text \<open>
  \<open>createde\<close> without the denode of the new entry (\<open>depp\<close> is null, as when renaming): the directory is
  \<open>ddep\<close>, the entry that of \<open>dep\<close>.
\<close>

definition create_extend :: "'d bio \<Rightarrow> dosfs_vfs \<Rightarrow> 'd \<Rightarrow> denode \<Rightarrow> denode \<Rightarrow> ('d \<times> dosfs_vfs \<times> denode \<times> nat) option" where
  "create_extend io pvp d dep ddep = do {
     (d, pvp, ddep, error, _, newcluster) \<leftarrow> extendfile io pvp d ddep False True;
     if error \<noteq> 0 then Some (d, pvp, ddep, error)
     else do {
       newcluster \<leftarrow> newcluster;
       (d, bp) \<leftarrow> lgetblk io d (cntobn pvp newcluster) (vfs_bpcluster pvp);
       bp \<leftarrow> dirent_put (lclrbuf bp) 0 (de_de dep);
       let (d, error) = lbwritewait io d bp;
       if error \<noteq> 0 then Some (d, pvp, ddep, error)
       else Some (d, pvp, ddep\<lparr>de_frcluster := newcluster, de_froffset := 0\<rparr>, 0) } }"

definition createde :: "'d bio \<Rightarrow> dosfs_vfs \<Rightarrow> 'd \<Rightarrow> denode \<Rightarrow> denode \<Rightarrow> ('d \<times> dosfs_vfs \<times> denode \<times> nat) option" where
  "createde io pvp d dep ddep =
     (if de_frspace ddep = 0 then create_extend io pvp d dep ddep
      else do {
        (bn, theoff) \<leftarrow> de_slot pvp (de_frcluster ddep) (de_froffset ddep);
        (d, bp) \<leftarrow> lbread io d bn (vfs_bpcluster pvp);
        if lgeterror io bp \<noteq> 0 then Some (lbrelse io d bp, pvp, ddep, lgeterror io bp)
        else do {
          bp \<leftarrow> dirent_put bp theoff (de_de dep);
          let (d, error) = lbwritewait io d bp;
          Some (d, pvp, ddep, error) } })"

section \<open>Removing an entry\<close>

text \<open>\<open>removede\<close> up to the release of the denode.\<close>

definition removede :: "'d bio \<Rightarrow> dosfs_vfs \<Rightarrow> 'd \<Rightarrow> denode \<Rightarrow> ('d \<times> denode \<times> nat) option" where
  "removede io pvp d dp = do {
     (d, error) \<leftarrow> markdeleted io pvp d (de_dirclust dp) (de_diroffset dp);
     Some (d, dp\<lparr>de_refcnt := de_refcnt dp - 1\<rparr>, error) }"

section \<open>Is a directory empty?\<close>

definition dot_name :: "u8 list" where "dot_name = DOT # replicate 10 BLANK"
definition dotdot_name :: "u8 list" where "dotdot_name = DOT # DOT # replicate 9 BLANK"

text \<open>One cluster: \<open>Some\<close> of the value to return, or \<open>None\<close> to go on.\<close>

fun empty_cluster :: "lbuf \<Rightarrow> nat \<Rightarrow> nat \<Rightarrow> nat option option" where
  "empty_cluster bp 0 dei = Some None"
| "empty_cluster bp (Suc n) dei = do {
     dentp \<leftarrow> dirent_get bp dei;
     if name0 dentp \<noteq> SLOT_DELETED then
       (if name0 dentp = SLOT_EMPTY then Some (Some 1)
        else if name11 dentp \<noteq> dot_name \<and> name11 dentp \<noteq> dotdot_name then Some (Some 0)
        else empty_cluster bp n (dei + 1))
     else empty_cluster bp n (dei + 1) }"

text \<open>
  The loop over the clusters. Of the errors of \<open>pcbmap\<close> only \<open>E2BIG\<close> is looked at; after another one \<open>bn\<close>
  keeps its value, \<open>None\<close> before it has one.
\<close>

fun empty_loop :: "'d bio \<Rightarrow> dosfs_vfs \<Rightarrow> nat \<Rightarrow> 'd \<Rightarrow> denode \<Rightarrow> nat \<Rightarrow> nat option \<Rightarrow> ('d \<times> denode \<times> nat) option" where
  "empty_loop io pvp 0 d dep cn bn = None"
| "empty_loop io pvp (Suc n) d dep cn bn = do {
     (d, dep, error, bn', _) \<leftarrow> pcbmap io pvp d dep cn True False;
     if error = E2BIG then Some (d, dep, 1)
     else do {
       let bn = (case bn' of Some b \<Rightarrow> Some b | None \<Rightarrow> bn);
       b \<leftarrow> bn;
       (d, bp) \<leftarrow> lbread io d b (vfs_bpcluster pvp);
       if lgeterror io bp \<noteq> 0 then Some (lbrelse io d bp, dep, lgeterror io bp)
       else do {
         r \<leftarrow> empty_cluster bp (vfs_depclust pvp) 0;
         (case r of
            Some res \<Rightarrow> Some (lbrelse io d bp, dep, res)
          | None \<Rightarrow> empty_loop io pvp n (lbrelse io d bp) dep ((cn + 1) mod 2 ^ 32) bn) } } }"

definition dosdirempty :: "'d bio \<Rightarrow> dosfs_vfs \<Rightarrow> nat \<Rightarrow> 'd \<Rightarrow> denode \<Rightarrow> ('d \<times> denode \<times> nat) option" where
  "dosdirempty io pvp n d dep = empty_loop io pvp n d dep 0 None"

end
