(* ===== verification/DenodeOps.thy ===== *)
theory DenodeOps
  imports Denode FatFile
begin

text \<open>
  What the operations on one directory entry do to the device, and the parts of a truncation: sizing,
  zeroing the tail of the last cluster, writing the entry, cutting the chain and freeing its rest.
\<close>

section \<open>The layout of the disk\<close>

text \<open>
  Tables, root directory and clusters follow each other, clusters are a power of two and fit a logical
  buffer, and no sector number wraps. The first four lines are what mounting establishes.
\<close>

definition geo_ok :: "dosfs_vfs \<Rightarrow> bool" where
  "geo_ok pvp \<longleftrightarrow> vfs_bpcluster pvp = vfs_SectPerClust pvp * DEV_BSIZE \<and> vfs_bpcluster pvp = 2 ^ vfs_cnshift pvp
     \<and> vfs_crbomask pvp = 2 ^ vfs_cnshift pvp - 1 \<and> vfs_depclust pvp = vfs_bpcluster pvp div DIRENTSZ
     \<and> vfs_rootdirblk pvp = vfs_fatblk pvp + vfs_FATs pvp * vfs_FATsecs pvp
     \<and> vfs_firstcluster pvp = vfs_rootdirblk pvp + vfs_rootdirsize pvp
     \<and> 1 \<le> vfs_SectPerClust pvp \<and> vfs_SectPerClust pvp \<le> MAXCLUSTBLOCKS
     \<and> vfs_firstcluster pvp + vfs_maxcluster pvp * vfs_SectPerClust pvp < 2 ^ 31"

abbreviation spc :: "dosfs_vfs \<Rightarrow> nat" where "spc \<equiv> vfs_SectPerClust"

definition clus_secs :: "dosfs_vfs \<Rightarrow> nat \<Rightarrow> nat set" where
  "clus_secs pvp c = {cntobn pvp c..<cntobn pvp c + spc pvp}"

lemma cntobn_geo:
  assumes "geo_ok pvp" and "CLUST_FIRST \<le> c" and "c \<le> vfs_maxcluster pvp"
  shows "cntobn pvp c = vfs_firstcluster pvp + (c - CLUST_FIRST) * spc pvp"
    and "cntobn pvp c + spc pvp < 2 ^ 32"
proof -
  have "(c - CLUST_FIRST) * spc pvp + spc pvp \<le> vfs_maxcluster pvp * spc pvp"
  proof -
    have "Suc (c - CLUST_FIRST) \<le> vfs_maxcluster pvp" using assms(2,3) by (simp add: CLUST_FIRST_def)
    then have "Suc (c - CLUST_FIRST) * spc pvp \<le> vfs_maxcluster pvp * spc pvp" by (rule mult_le_mono1)
    then show ?thesis by simp
  qed
  then have b: "vfs_firstcluster pvp + ((c - CLUST_FIRST) * spc pvp + spc pvp) < 2 ^ 31"
    using assms(1) by (simp add: geo_ok_def)
  then show e: "cntobn pvp c = vfs_firstcluster pvp + (c - CLUST_FIRST) * spc pvp"
    using assms(2) by (simp add: cntobn_def)
  show "cntobn pvp c + spc pvp < 2 ^ 32" unfolding e using b by simp
qed

lemma clus_data:
  assumes "geo_ok pvp" and "CLUST_FIRST \<le> c" and "c \<le> vfs_maxcluster pvp"
  shows "clus_secs pvp c \<inter> fatblks pvp = {}" and "s < vfs_firstcluster pvp \<Longrightarrow> s \<notin> clus_secs pvp c"
  using assms(1) cntobn_geo [OF assms] by (auto simp: clus_secs_def fatblks_def geo_ok_def)

lemma clus_disjoint:
  assumes g: "geo_ok pvp" and "CLUST_FIRST \<le> c" "c \<le> vfs_maxcluster pvp" "CLUST_FIRST \<le> c'" "c' \<le> vfs_maxcluster pvp" "c \<noteq> c'"
  shows "clus_secs pvp c \<inter> clus_secs pvp c' = {}"
proof -
  have "(a - CLUST_FIRST) * spc pvp + spc pvp \<le> (b - CLUST_FIRST) * spc pvp" if "a < b" "CLUST_FIRST \<le> a" for a b
  proof -
    have "Suc (a - CLUST_FIRST) \<le> b - CLUST_FIRST" using that by simp
    then have "Suc (a - CLUST_FIRST) * spc pvp \<le> (b - CLUST_FIRST) * spc pvp" by (rule mult_le_mono1)
    then show ?thesis by simp
  qed
  from this [of c c'] this [of c' c] show ?thesis
    using assms cntobn_geo [OF g assms(2,3)] cntobn_geo [OF g assms(4,5)]
    by (cases "c < c'") (auto simp: clus_secs_def)
qed

section \<open>Changes outside the tables\<close>

definition same_fat :: "dosfs_vfs \<Rightarrow> (nat \<Rightarrow> u8 list) \<Rightarrow> (nat \<Rightarrow> u8 list) \<Rightarrow> bool" where
  "same_fat pvp v v' \<longleftrightarrow> (\<forall>s \<in> fatblks pvp. v' s = v s)"

lemma same_fat_at:
  assumes m: "mount_ok pvp" and s: "same_fat pvp v v'" and c: "c \<le> vfs_maxcluster pvp"
  shows "fat_at pvp v' c = fat_at pvp v c"
proof -
  have b: "fatb pvp v' i = fatb pvp v i" if "i < vfs_FATsecs pvp * 512" for i
  proof -
    have "i div 512 < vfs_FATsecs pvp" using that by (simp add: less_mult_imp_div_less)
    moreover have "vfs_FATsecs pvp \<le> vfs_FATs pvp * vfs_FATsecs pvp" using m by (simp add: mount_ok_def)
    ultimately have "i div 512 < vfs_FATs pvp * vfs_FATsecs pvp" by (rule less_le_trans)
    then have "vfs_fatblk pvp + i div 512 \<in> fatblks pvp" by (simp add: fatblks_def)
    then show ?thesis using s by (simp add: fatb_def same_fat_def)
  qed
  note o = mount_off [OF m c]
  have "fat_at pvp v' c = (if FAT12 pvp then fat12.entry (fatb pvp v) c else fat16.entry (fatb pvp v) c)"
    by (rule fat_at_cong; rule b) (use o in simp_all)
  then show ?thesis by (simp add: fat_at_def)
qed

lemma same_fat_free:
  assumes "mount_ok pvp" and "same_fat pvp v v'"
  shows "free_set pvp v' = free_set pvp v" and "busy pvp v' = busy pvp v"
  using same_fat_at [OF assms] by (auto simp: free_set_def busy_def)

lemma same_fat_vol:
  assumes "vol_ok pvp v" and s: "same_fat pvp v v'"
  shows "vol_ok pvp v'"
proof -
  have m: "mount_ok pvp" using assms(1) by (simp add: vol_ok_def)
  have "v' (vfs_fatblk pvp + k * vfs_FATsecs pvp + j) = v (vfs_fatblk pvp + k * vfs_FATsecs pvp + j)"
    if "k < vfs_FATs pvp" "j < vfs_FATsecs pvp" for k j
  proof -
    have "k * vfs_FATsecs pvp + j < vfs_FATs pvp * vfs_FATsecs pvp"
      using that mult_le_mono1 [of "Suc k" "vfs_FATs pvp" "vfs_FATsecs pvp"] by simp
    then show ?thesis using s by (simp add: same_fat_def fatblks_def)
  qed
  note b = this
  have "synced pvp v'" unfolding synced_def
  proof (intro allI impI)
    fix k j assume kj: "k < vfs_FATs pvp" "j < vfs_FATsecs pvp"
    have "0 < vfs_FATs pvp" using kj by simp
    then show "v' (vfs_fatblk pvp + k * vfs_FATsecs pvp + j) = v' (vfs_fatblk pvp + j)"
      using b [OF kj] b [of 0 j] kj assms(1) by (simp add: vol_ok_def synced_def)
  qed
  then show ?thesis
    using assms(1) same_fat_free [OF m s] by (simp add: vol_ok_def map_ok_def)
qed

lemma same_fat_file_at:
  assumes m: "mount_ok pvp" and s: "same_fat pvp v v'" and f: "file_at pvp v c xs"
  shows "file_at pvp v' c xs"
proof -
  have "x \<le> vfs_maxcluster pvp" if "x \<in> set xs" for x using f that chain_range by (fastforce simp: file_at_def)
  then have e: "fat_at pvp v' x = fat_at pvp v x" if "x \<in> set xs" for x using same_fat_at [OF m s] that by blast
  show ?thesis using f chain_cong [of xs "fat_at pvp v'" "fat_at pvp v"] e by (auto simp: file_at_def)
qed

lemma same_fat_file:
  assumes m: "mount_ok pvp" and s: "same_fat pvp v v'" and f: "file_ok pvp v dep xs"
  shows "file_ok pvp v' dep xs"
  using f same_fat_free [OF m s] same_fat_file_at [OF m s] by (auto simp: file_ok_def)

section \<open>The place of an entry\<close>

definition slot_ok :: "dosfs_vfs \<Rightarrow> nat \<Rightarrow> nat \<Rightarrow> bool" where
  "slot_ok pvp dirclust diroffset \<longleftrightarrow>
     (if dirclust = DOSFSROOT then diroffset < 16 * vfs_rootdirsize pvp
      else CLUST_FIRST \<le> dirclust \<and> dirclust \<le> vfs_maxcluster pvp \<and> diroffset < 16 * spc pvp)"

definition slot_base :: "dosfs_vfs \<Rightarrow> nat \<Rightarrow> nat" where
  "slot_base pvp dirclust = (if dirclust = DOSFSROOT then vfs_rootdirblk pvp else cntobn pvp dirclust)"

definition entry_at :: "dosfs_vfs \<Rightarrow> (nat \<Rightarrow> u8 list) \<Rightarrow> nat \<Rightarrow> nat \<Rightarrow> direntry" where
  "entry_at pvp v dirclust diroffset = sec_slot v (slot_base pvp dirclust) diroffset"

definition entry_put :: "dosfs_vfs \<Rightarrow> (nat \<Rightarrow> u8 list) \<Rightarrow> nat \<Rightarrow> nat \<Rightarrow> direntry \<Rightarrow> nat \<Rightarrow> u8 list" where
  "entry_put pvp v dirclust diroffset e = sec_put v (slot_base pvp dirclust) diroffset e"

definition entry_sec :: "dosfs_vfs \<Rightarrow> nat \<Rightarrow> nat \<Rightarrow> nat" where
  "entry_sec pvp dirclust diroffset = slot_base pvp dirclust + diroffset div 16"

text \<open>The sectors read to get at the entry: a cluster, also in the root directory.\<close>

definition entry_blks :: "dosfs_vfs \<Rightarrow> nat \<Rightarrow> nat \<Rightarrow> nat set" where
  "entry_blks pvp dirclust diroffset =
     (let b = if dirclust = DOSFSROOT then entry_sec pvp dirclust diroffset else cntobn pvp dirclust
      in {b..<b + spc pvp})"

lemma entry_put_other: "s \<noteq> entry_sec pvp dc off \<Longrightarrow> entry_put pvp v dc off e s = v s"
  by (simp add: entry_put_def sec_put_def entry_sec_def)

lemma slot16: "DIRENTSZ * (k mod 16) + DIRENTSZ \<le> DEV_BSIZE"
  using mod_less_divisor [of 16 k] unfolding DIRENTSZ_def DEV_BSIZE_def by linarith

lemma entry_at_put:
  assumes "\<And>s. length (v s) = DEV_BSIZE" and "direntry_wf e"
  shows "entry_at pvp (entry_put pvp v dc off e) dc off = e"
  using slot16 [of off] dirents.slot_put [OF assms(2)] assms(1)
  by (simp add: entry_at_def entry_put_def sec_slot_def sec_put_def)

lemma entry_at_cong: "v' (entry_sec pvp dc off) = v (entry_sec pvp dc off) \<Longrightarrow> entry_at pvp v' dc off = entry_at pvp v dc off"
  by (simp add: entry_at_def entry_sec_def sec_slot_def)

lemma entry_at_wf:
  assumes "\<And>s. length (v s) = DEV_BSIZE"
  shows "direntry_wf (entry_at pvp v dc off)"
  using slot16 [of off] assms by (simp add: entry_at_def sec_slot_def dirents.wf_slot)

lemma entry_sec_data:
  assumes g: "geo_ok pvp" and s: "slot_ok pvp dc off"
  shows "entry_sec pvp dc off \<notin> fatblks pvp"
    and "dc \<noteq> DOSFSROOT \<Longrightarrow> entry_sec pvp dc off \<in> clus_secs pvp dc"
    and "dc = DOSFSROOT \<Longrightarrow> entry_sec pvp dc off < vfs_firstcluster pvp"
proof -
  show c: "entry_sec pvp dc off \<in> clus_secs pvp dc" if "dc \<noteq> DOSFSROOT"
    using s that by (auto simp: entry_sec_def clus_secs_def slot_base_def slot_ok_def less_mult_imp_div_less mult.commute)
  show r: "entry_sec pvp dc off < vfs_firstcluster pvp" if "dc = DOSFSROOT"
    using s g that by (auto simp: entry_sec_def slot_base_def slot_ok_def geo_ok_def less_mult_imp_div_less mult.commute)
  show "entry_sec pvp dc off \<notin> fatblks pvp"
  proof (cases "dc = DOSFSROOT")
    case True
    then show ?thesis using g by (simp add: entry_sec_def slot_base_def geo_ok_def fatblks_def)
  next
    case False
    then show ?thesis using c [OF False] clus_data(1) [OF g, of dc] s by (auto simp: slot_ok_def)
  qed
qed

lemma entry_put_fat:
  assumes "geo_ok pvp" and "slot_ok pvp dc off"
  shows "same_fat pvp v (entry_put pvp v dc off e)"
proof -
  have "s \<noteq> entry_sec pvp dc off" if "s \<in> fatblks pvp" for s using entry_sec_data(1) [OF assms] that by blast
  then show ?thesis by (simp add: same_fat_def entry_put_other)
qed

text \<open>What \<open>de_slot\<close> computes.\<close>

lemma de_slot_ok:
  assumes m: "mount_ok pvp" and g: "geo_ok pvp" and s: "slot_ok pvp dc off"
  obtains b k where "de_slot pvp dc off = Some (b, k)" and "entry_blks pvp dc off = {b..<b + spc pvp}" and "k < 16 * spc pvp"
    and "\<forall>v. sec_slot v b k = entry_at pvp v dc off" and "\<forall>v e. sec_put v b k e = entry_put pvp v dc off e"
proof (cases "dc = DOSFSROOT")
  case True
  let ?b = "vfs_rootdirblk pvp + off div 16" and ?k = "off mod 16"
  have "off div 16 < vfs_rootdirsize pvp" using s True by (simp add: slot_ok_def less_mult_imp_div_less mult.commute)
  then have l: "?b < 2 ^ 32" using g by (simp add: geo_ok_def)
  have n: "vfs_BytesPerSec pvp div DIRENTSZ = 16" using m by (simp add: mount_ok_def DIRENTSZ_def)
  have "de_slot pvp dc off = Some (?b, ?k)" using True l n by (simp add: de_slot_def)
  moreover have "?k < 16 * spc pvp"
  proof -
    have "1 \<le> spc pvp" using g by (simp add: geo_ok_def)
    then show ?thesis using mod_less_divisor [of 16 off] by linarith
  qed
  moreover have "?k div 16 = 0" "?k mod 16 = ?k" by simp_all
  ultimately show ?thesis using True
    by (intro that [of ?b ?k])
      (simp_all add: entry_blks_def entry_sec_def slot_base_def entry_at_def entry_put_def sec_slot_def sec_put_def Let_def)
next
  case False
  then show ?thesis using s
    by (intro that [of "cntobn pvp dc" off])
      (simp_all add: de_slot_def entry_blks_def slot_ok_def slot_base_def entry_at_def entry_put_def Let_def)
qed

section \<open>Reading and writing one entry\<close>

lemma view_length: "bio_ok io view held \<Longrightarrow> length (view d s) = DEV_BSIZE"
  by (simp add: bio_ok_def)

lemma dirent_get_slot: "DIRENTSZ * k + DIRENTSZ \<le> length (lb_addr lb) \<Longrightarrow> dirent_get lb k = Some (dirents.slot (lb_addr lb) k)"
  by (simp add: dirent_get_def dirents.slot_def)

lemma dirent_put_slot: "DIRENTSZ * k + DIRENTSZ \<le> length (lb_addr lb) \<Longrightarrow>
    dirent_put lb k e = Some (lb\<lparr>lb_addr := dirents.put_slot (lb_addr lb) k e\<rparr>)"
  by (simp add: dirent_put_def dirents.put_slot_def)

text \<open>The read they all begin with.\<close>

lemma entry_read:
  assumes ok: "bio_ok io view held" and m: "mount_ok pvp" and g: "geo_ok pvp" and s: "slot_ok pvp dc off"
    and fr: "entry_blks pvp dc off \<inter> held d = {}"
  obtains b k d1 lb where "de_slot pvp dc off = Some (b, k)" and "lbread io d b (vfs_bpcluster pvp) = Some (d1, lb)"
    and "lbuf_at lb b (spc pvp)" and "{b..<b + spc pvp} \<subseteq> held d1" and "{b..<b + spc pvp} \<inter> held d = {}"
    and "view d1 = view d" and "held d1 = held d \<union> {b..<b + spc pvp}"
    and "view (lbrelse io d1 lb) = view d" and "held (lbrelse io d1 lb) = held d"
    and "DIRENTSZ * k + DIRENTSZ \<le> length (lb_addr lb)"
    and "lgeterror io lb = 0 \<longrightarrow> dirent_get lb k = Some (entry_at pvp (view d) dc off)"
    and "lgeterror io lb = 0 \<longrightarrow> (\<forall>e. direntry_wf e \<longrightarrow> length (dirents.put_slot (lb_addr lb) k e) = spc pvp * DEV_BSIZE
        \<and> stored (view d) b (spc pvp) (dirents.put_slot (lb_addr lb) k e) = entry_put pvp (view d) dc off e)"
proof -
  obtain b k where sl: "de_slot pvp dc off = Some (b, k)" "entry_blks pvp dc off = {b..<b + spc pvp}" "k < 16 * spc pvp"
      "\<forall>v. sec_slot v b k = entry_at pvp v dc off" "\<forall>v e. sec_put v b k e = entry_put pvp v dc off e"
    by (rule de_slot_ok [OF m g s])
  have n: "spc pvp \<le> MAXCLUSTBLOCKS" and bp: "vfs_bpcluster pvp = spc pvp * DEV_BSIZE" using g by (simp_all add: geo_ok_def)
  have fr': "{b..<b + spc pvp} \<inter> held d = {}" using fr sl(2) by simp
  obtain d1 lb where r: "lbread io d b (vfs_bpcluster pvp) = Some (d1, lb)" "view d1 = view d"
      "held d1 = held d \<union> {b..<b + spc pvp}" "lbuf_at lb b (spc pvp)"
      "lgeterror io lb = 0 \<longrightarrow> lb_addr lb = concat (map (view d) [b..<b + spc pvp])"
    using lbread_ok [OF ok n fr', folded bp] by (elim exE conjE) (rule that)
  have h: "{b..<b + spc pvp} \<subseteq> held d1" using r(3) by blast
  have rel: "view (lbrelse io d1 lb) = view d" "held (lbrelse io d1 lb) = held d"
    using lbrelse_ok [OF ok r(4) h] r(2,3) fr' by auto
  have l: "length (lb_addr lb) = spc pvp * DEV_BSIZE" using r(4) by (simp add: lbuf_at_def)
  have fit: "DIRENTSZ * k + DIRENTSZ \<le> length (lb_addr lb)"
    using slot_in [OF sl(3)] unfolding l DIRENTSZ_def DEV_BSIZE_def by simp
  note len = view_length [OF ok]
  have get: "lgeterror io lb = 0 \<longrightarrow> dirent_get lb k = Some (entry_at pvp (view d) dc off)"
    using dirent_get_slot [OF fit] cluster_slot [where v = "view d" and b = b, OF len sl(3)] r(5) sl(4) by simp
  have put: "lgeterror io lb = 0 \<longrightarrow> (\<forall>e. direntry_wf e \<longrightarrow> length (dirents.put_slot (lb_addr lb) k e) = spc pvp * DEV_BSIZE
        \<and> stored (view d) b (spc pvp) (dirents.put_slot (lb_addr lb) k e) = entry_put pvp (view d) dc off e)"
  proof (intro impI allI conjI)
    fix e assume z: "lgeterror io lb = 0" and wf: "direntry_wf e"
    show "length (dirents.put_slot (lb_addr lb) k e) = spc pvp * DEV_BSIZE" using dirents.length_put_slot [OF wf fit] l by simp
    show "stored (view d) b (spc pvp) (dirents.put_slot (lb_addr lb) k e) = entry_put pvp (view d) dc off e"
      using cluster_put [where v = "view d" and b = b, OF len sl(3) wf] r(5) z sl(5) by simp
  qed
  show ?thesis by (rule that [OF sl(1) r(1,4) h fr' r(2,3) rel fit get put])
qed

lemma get_direntp_ok:
  assumes "bio_ok io view held" and "mount_ok pvp" and "geo_ok pvp" and "slot_ok pvp dc off"
    and "entry_blks pvp dc off \<inter> held d = {}"
  obtains d' e where "get_direntp io pvp d dc off = Some (d', e, if e = 0 then Some (entry_at pvp (view d) dc off) else None)"
    and "view d' = view d" and "held d' = held d" and "e \<noteq> 0 \<longrightarrow> dev_err io e"
proof -
  obtain b k d1 lb where r: "de_slot pvp dc off = Some (b, k)" "lbread io d b (vfs_bpcluster pvp) = Some (d1, lb)"
      "view (lbrelse io d1 lb) = view d" "held (lbrelse io d1 lb) = held d"
      "lgeterror io lb = 0 \<longrightarrow> dirent_get lb k = Some (entry_at pvp (view d) dc off)"
    by (rule entry_read [OF assms])
  show ?thesis
    by (rule that [of "lbrelse io d1 lb" "lgeterror io lb"]) (use r in \<open>auto simp: get_direntp_def\<close>)
qed

text \<open>Marking an entry deleted changes the first byte of its name.\<close>

definition deleted :: "direntry \<Rightarrow> direntry" where
  "deleted e = e\<lparr>deName := 0xe5 # tl (deName e)\<rparr>"

lemma deleted_bytes:
  assumes "length b = DIRENTSZ"
  shows "direntry_bytes (deleted (direntry_of b)) = 0xe5 # tl b" and "direntry_wf (deleted (direntry_of b))"
proof -
  have wf: "direntry_wf (direntry_of b)" by (rule dirents.wf_dec [OF assms])
  then have n: "deName (direntry_of b) \<noteq> []" by (auto simp: direntry_wf_def)
  have "direntry_bytes (deleted (direntry_of b)) = 0xe5 # tl (direntry_bytes (direntry_of b))"
    using n by (cases "deName (direntry_of b)") (simp_all add: deleted_def direntry_bytes_def)
  then show "direntry_bytes (deleted (direntry_of b)) = 0xe5 # tl b" by (simp add: direntry_bytes_of [OF assms])
  show "direntry_wf (deleted (direntry_of b))"
    using wf n by (cases "deName (direntry_of b)") (simp_all add: deleted_def direntry_wf_def)
qed

lemma set_first_byte:
  assumes "DIRENTSZ * k + DIRENTSZ \<le> length xs"
  shows "xs[DIRENTSZ * k := 0xe5] = dirents.put_slot xs k (deleted (dirents.slot xs k))"
proof -
  let ?i = "DIRENTSZ * k"
  let ?b = "take DIRENTSZ (drop ?i xs)"
  have l: "length ?b = DIRENTSZ" using assms by simp
  then have "?b \<noteq> []" by (auto simp: DIRENTSZ_def)
  have e: "direntry_bytes (deleted (dirents.slot xs k)) = 0xe5 # tl ?b"
    using deleted_bytes(1) [OF l] by (simp add: dirents.slot_def)
  have l': "length (0xe5 # tl ?b) = DIRENTSZ" using l by (simp add: DIRENTSZ_def)
  have fit: "?i + length (0xe5 # tl ?b) \<le> length xs" using assms l' by simp
  have "xs[?i := 0xe5] = put_bytes ?i (0xe5 # tl ?b) xs"
  proof (rule nth_equalityI)
    fix j assume "j < length (xs[?i := 0xe5])"
    then have j: "j < length xs" by simp
    show "xs[?i := 0xe5] ! j = put_bytes ?i (0xe5 # tl ?b) xs ! j"
      unfolding nth_put_bytes [OF fit j] l' using j assms
      by (auto simp: nth_list_update nth_Cons' nth_tl DIRENTSZ_def)
  qed (simp add: length_put_bytes [OF fit])
  then show ?thesis unfolding dirents.put_slot_def e .
qed

lemma markdeleted_ok:
  assumes ok: "bio_ok io view held" and "mount_ok pvp" and "geo_ok pvp" and "slot_ok pvp dc off"
    and "entry_blks pvp dc off \<inter> held d = {}"
  obtains (err) d' e where "markdeleted io pvp d dc off = Some (d', e)" and "dev_err io e" and "view d' = view d" and "held d' = held d"
  | (written) d' where "markdeleted io pvp d dc off = Some (d', 0)"
      and "view d' = entry_put pvp (view d) dc off (deleted (entry_at pvp (view d) dc off))" and "held d' = held d"
proof -
  obtain b k d1 lb where r: "de_slot pvp dc off = Some (b, k)" "lbread io d b (vfs_bpcluster pvp) = Some (d1, lb)"
      "lbuf_at lb b (spc pvp)" "{b..<b + spc pvp} \<subseteq> held d1" "{b..<b + spc pvp} \<inter> held d = {}"
      "view d1 = view d" "held d1 = held d \<union> {b..<b + spc pvp}"
      "view (lbrelse io d1 lb) = view d" "held (lbrelse io d1 lb) = held d"
      "DIRENTSZ * k + DIRENTSZ \<le> length (lb_addr lb)"
      "lgeterror io lb = 0 \<longrightarrow> dirent_get lb k = Some (entry_at pvp (view d) dc off)"
      "lgeterror io lb = 0 \<longrightarrow> (\<forall>e. direntry_wf e \<longrightarrow> length (dirents.put_slot (lb_addr lb) k e) = spc pvp * DEV_BSIZE
        \<and> stored (view d) b (spc pvp) (dirents.put_slot (lb_addr lb) k e) = entry_put pvp (view d) dc off e)"
    by (rule entry_read [OF assms])
  show ?thesis
  proof (cases "lgeterror io lb = 0")
    case False
    show ?thesis
      by (rule err [of "lbrelse io d1 lb" "lgeterror io lb"]) (use r False in \<open>simp_all add: markdeleted_def\<close>)
  next
    case True
    have sl: "dirents.slot (lb_addr lb) k = entry_at pvp (view d) dc off" using r(10,11) True dirent_get_slot by simp
    let ?e = "deleted (entry_at pvp (view d) dc off)" and ?lb = "lb\<lparr>lb_addr := (lb_addr lb)[DIRENTSZ * k := 0xe5]\<rparr>"
    have "length (take DIRENTSZ (drop (DIRENTSZ * k) (lb_addr lb))) = DIRENTSZ" using r(10) by simp
    then have wf: "direntry_wf ?e" using deleted_bytes(2) sl by (metis dirents.slot_def)
    have a: "(lb_addr lb)[DIRENTSZ * k := 0xe5] = dirents.put_slot (lb_addr lb) k ?e" using set_first_byte [OF r(10)] sl by simp
    have st: "length (dirents.put_slot (lb_addr lb) k ?e) = spc pvp * DEV_BSIZE"
        "stored (view d) b (spc pvp) (dirents.put_slot (lb_addr lb) k ?e) = entry_put pvp (view d) dc off ?e"
      using r(12) True wf by simp_all
    have at: "lbuf_at ?lb b (spc pvp)" using lbuf_at_addr [OF r(3) st(1)] a by simp
    note w = lb_write_ok(5,6) [OF ok at r(4)]
    have "DIRENTSZ * k < length (lb_addr lb)" using r(10) by (simp add: DIRENTSZ_def)
    then have "markdeleted io pvp d dc off = Some (lbdwrite io d1 ?lb, 0)"
      using r(1,2) True by (simp add: markdeleted_def lb_set_def)
    moreover have "view (lbdwrite io d1 ?lb) = entry_put pvp (view d) dc off ?e" using w(1) st(2) a r(6) by simp
    moreover have "held (lbdwrite io d1 ?lb) = held d" using w(2) r(5,7) by auto
    ultimately show ?thesis by (rule written)
  qed
qed

text \<open>The entry as \<open>deupdat\<close> writes it: with the new time, and no pending change in memory.\<close>

definition stamped :: "conv \<Rightarrow> uint_t \<Rightarrow> denode \<Rightarrow> denode" where
  "stamped cv tp dep = (case unix2dostime cv tp of (_, date, time) \<Rightarrow>
     dep\<lparr>de_de := (de_de dep)\<lparr>deDate := ddi date, deTime := dti time\<rparr>, de_flag := de_flag dep AND NOT (DEUPD OR DEMOD)\<rparr>)"

lemma stamped_fields [simp]:
  "de_dirclust (stamped cv tp dep) = de_dirclust dep" "de_diroffset (stamped cv tp dep) = de_diroffset dep"
  "de_fc (stamped cv tp dep) = de_fc dep" "de_vroot (stamped cv tp dep) = de_vroot dep"
  "deStartCluster (de_de (stamped cv tp dep)) = deStartCluster (de_de dep)"
  "deFileSize (de_de (stamped cv tp dep)) = deFileSize (de_de dep)"
  "deAttributes (de_de (stamped cv tp dep)) = deAttributes (de_de dep)"
  "deName (de_de (stamped cv tp dep)) = deName (de_de dep)"
  "direntry_wf (de_de (stamped cv tp dep)) = direntry_wf (de_de dep)"
  by (simp_all add: stamped_def direntry_wf_def split: prod.splits)

lemma deupdat_ok:
  assumes ok: "bio_ok io view held" and "mount_ok pvp" and "geo_ok pvp"
    and "slot_ok pvp (de_dirclust dep) (de_diroffset dep)"
    and "entry_blks pvp (de_dirclust dep) (de_diroffset dep) \<inter> held d = {}"
    and wf: "direntry_wf (de_de dep)" and up: "de_flag dep AND (DEUPD OR DEMOD) \<noteq> 0" "\<not> ronly" "\<not> de_vroot dep"
  obtains (err) d' e where "deupdat io ronly pvp d cv dep tp wait = Some (d', cv, dep, e)" and "dev_err io e"
      and "view d' = view d" and "held d' = held d"
  | (written) d' e where "deupdat io ronly pvp d cv dep tp wait = Some (d', fst (unix2dostime cv tp), stamped cv tp dep, e)"
      and "view d' = entry_put pvp (view d) (de_dirclust dep) (de_diroffset dep) (de_de (stamped cv tp dep))"
      and "held d' = held d" and "\<not> wait \<longrightarrow> e = 0"
proof -
  let ?dc = "de_dirclust dep" and ?off = "de_diroffset dep"
  obtain b k d1 lb where r: "de_slot pvp ?dc ?off = Some (b, k)" "lbread io d b (vfs_bpcluster pvp) = Some (d1, lb)"
      "lbuf_at lb b (spc pvp)" "{b..<b + spc pvp} \<subseteq> held d1" "{b..<b + spc pvp} \<inter> held d = {}"
      "view d1 = view d" "held d1 = held d \<union> {b..<b + spc pvp}"
      "view (lbrelse io d1 lb) = view d" "held (lbrelse io d1 lb) = held d"
      "DIRENTSZ * k + DIRENTSZ \<le> length (lb_addr lb)"
      "lgeterror io lb = 0 \<longrightarrow> (\<forall>e. direntry_wf e \<longrightarrow> length (dirents.put_slot (lb_addr lb) k e) = spc pvp * DEV_BSIZE
        \<and> stored (view d) b (spc pvp) (dirents.put_slot (lb_addr lb) k e) = entry_put pvp (view d) ?dc ?off e)"
    by (rule entry_read [OF assms(1-5)])
  have go: "\<not> (de_flag dep AND (DEUPD OR DEMOD) = 0 \<or> ronly \<or> de_vroot dep)" using up by simp
  show ?thesis
  proof (cases "lgeterror io lb = 0")
    case False
    show ?thesis
      by (rule err [of "lbrelse io d1 lb" "lgeterror io lb"])
        (use r False in \<open>simp_all add: deupdat_def if_not_P [OF go] readde_def\<close>)
  next
    case True
    let ?e = "de_de (stamped cv tp dep)"
    let ?lb = "lb\<lparr>lb_addr := dirents.put_slot (lb_addr lb) k ?e\<rparr>"
    have st: "length (dirents.put_slot (lb_addr lb) k ?e) = spc pvp * DEV_BSIZE"
        "stored (view d) b (spc pvp) (dirents.put_slot (lb_addr lb) k ?e) = entry_put pvp (view d) ?dc ?off ?e"
      using r(11) True wf by simp_all
    have at: "lbuf_at ?lb b (spc pvp)" by (rule lbuf_at_addr [OF r(3) st(1)])
    note w = lb_write_ok [OF ok at r(4)]
    have h: "held d1 - {b..<b + spc pvp} = held d" using r(5,7) by auto
    obtain st' dt tm where u: "unix2dostime cv tp = (st', dt, tm)" by (cases "unix2dostime cv tp") auto
    have run: "deupdat io ronly pvp d cv dep tp wait = (if wait then (let (d, error) = lbwritewait io d1 ?lb in
          Some (d, st', stamped cv tp dep, error)) else Some (lbdwrite io d1 ?lb, st', stamped cv tp dep, 0))"
      using r(1,2) True dirent_put_slot [OF r(10)]
      by (simp add: deupdat_def if_not_P [OF go] readde_def u stamped_def)
    have fst: "fst (lbwritewait io d1 ?lb) = lbwrite io d1 ?lb"
      unfolding lbwritewait_first Let_def fst_conv lbwrite_def ..
    show ?thesis
    proof (cases wait)
      case True
      show ?thesis
        by (rule written [of "lbwrite io d1 ?lb" "snd (lbwritewait io d1 ?lb)"])
          (use True run fst w(1,2) st(2) h r(6) in \<open>simp_all add: u case_prod_beta Let_def\<close>)
    next
      case False
      show ?thesis
        by (rule written [of "lbdwrite io d1 ?lb" 0]) (use False run w(5,6) st(2) h r(6) in \<open>simp_all add: u\<close>)
    qed
  qed
qed

end
