(* ===== verification/DirSearch.thy ===== *)
theory DirSearch
  imports Dir DenodeOps
begin

text \<open>
  A directory as the list of its entries, and the searches of \<open>Dir\<close> as searches of that list.
\<close>

section \<open>The list of entries\<close>

type_synonym entry = "nat \<times> nat \<times> direntry"

definition clus_entries :: "dosfs_vfs \<Rightarrow> (nat \<Rightarrow> u8 list) \<Rightarrow> nat \<Rightarrow> entry list" where
  "clus_entries pvp v c = map (\<lambda>k. (c, k, entry_at pvp v c k)) [0..<vfs_depclust pvp]"

definition dir_list :: "dosfs_vfs \<Rightarrow> (nat \<Rightarrow> u8 list) \<Rightarrow> nat list \<Rightarrow> entry list" where
  "dir_list pvp v xs = concat (map (clus_entries pvp v) xs)"

definition name_matches :: "u8 list \<Rightarrow> direntry \<Rightarrow> bool" where
  "name_matches nm e \<longleftrightarrow> name0 e \<noteq> SLOT_EMPTY \<and> name0 e \<noteq> SLOT_DELETED \<and> deAttributes e AND ATTR_VOLUME = 0 \<and> nm = name11 e"

text \<open>The search stops at a match or at an entry never used; the first free slot is deleted or never used.\<close>

definition dir_stop :: "u8 list \<Rightarrow> entry list \<Rightarrow> entry option" where
  "dir_stop nm es = find (\<lambda>(c, k, e). name0 e = SLOT_EMPTY \<or> name_matches nm e) es"

definition dir_lookup :: "u8 list \<Rightarrow> entry list \<Rightarrow> entry option" where
  "dir_lookup nm es = (case dir_stop nm es of
     Some (c, k, e) \<Rightarrow> if name_matches nm e then Some (c, k, e) else None | None \<Rightarrow> None)"

definition dir_free :: "entry list \<Rightarrow> entry option" where
  "dir_free es = find (\<lambda>(c, k, e). name0 e = SLOT_EMPTY \<or> name0 e = SLOT_DELETED) es"

definition slot_after :: "entry list \<Rightarrow> slot \<Rightarrow> slot" where
  "slot_after es slot = (if fst slot then slot
     else case dir_free es of None \<Rightarrow> slot | Some (c, k, e) \<Rightarrow> (True, Some (k, c)))"

definition look_result :: "u8 list \<Rightarrow> entry list \<Rightarrow> nat \<Rightarrow> slot \<Rightarrow> look" where
  "look_result nm es reloff slot = (case dir_stop nm es of
     None \<Rightarrow> Look_more (slot_after es slot) (reloff + length es)
   | Some (c, k, e) \<Rightarrow> if name_matches nm e then Look_found c k e else Look_none (slot_after es slot))"

lemma find_append: "find P (xs @ ys) = (case find P xs of None \<Rightarrow> find P ys | Some x \<Rightarrow> Some x)"
  by (induction xs) auto

lemma look_result_Nil: "look_result nm [] reloff slot = Look_more slot reloff"
  by (simp add: look_result_def dir_stop_def slot_after_def dir_free_def)

lemma look_result_append:
  "look_result nm (es @ fs) reloff slot = (case look_result nm es reloff slot of
     Look_more slot reloff \<Rightarrow> look_result nm fs reloff slot
   | Look_none s \<Rightarrow> Look_none s | Look_found c k e \<Rightarrow> Look_found c k e)"
proof (cases "dir_stop nm es")
  case None
  then have "dir_stop nm (es @ fs) = dir_stop nm fs" by (simp add: dir_stop_def find_append)
  moreover have "slot_after (es @ fs) slot = slot_after fs (slot_after es slot)"
    by (auto simp: slot_after_def dir_free_def find_append split: option.splits)
  ultimately show ?thesis using None by (auto simp: look_result_def add.assoc split: option.split)
next
  case (Some x)
  then have s: "dir_stop nm (es @ fs) = Some x" by (simp add: dir_stop_def find_append)
  obtain c k e where x: "x = (c, k, e)" by (cases x)
  show ?thesis
  proof (cases "name_matches nm e")
    case True
    then show ?thesis using s Some x by (simp add: look_result_def)
  next
    case False
    from Some x obtain i where i: "i < length es" "es ! i = (c, k, e)" and p: "name0 e = SLOT_EMPTY \<or> name_matches nm e"
      unfolding dir_stop_def find_Some_iff by auto
    then have "name0 e = SLOT_EMPTY" "(c, k, e) \<in> set es" using False nth_mem [OF i(1)] by auto
    then have "dir_free es \<noteq> None" unfolding dir_free_def find_None_iff by auto
    then have "slot_after (es @ fs) slot = slot_after es slot"
      by (auto simp: slot_after_def dir_free_def find_append)
    then show ?thesis using s Some x False by (simp add: look_result_def)
  qed
qed

lemma look_result_one:
  "look_result nm [(c, k, e)] reloff slot =
     (if name0 e = SLOT_EMPTY then Look_none (if fst slot then slot else (True, Some (k, c)))
      else if name_matches nm e then Look_found c k e
      else Look_more (if \<not> fst slot \<and> name0 e = SLOT_DELETED then (True, Some (k, c)) else slot) (Suc reloff))"
  by (auto simp: look_result_def dir_stop_def name_matches_def slot_after_def dir_free_def)

section \<open>One cluster\<close>

lemma scan_cluster_ok:
  assumes c: "c \<noteq> DOSFSROOT" and get: "\<And>k. k < m \<Longrightarrow> dirent_get bp k = Some (f k)"
  shows "i + n \<le> m \<Longrightarrow> scan_cluster bp nm c n i reloff slot = Some (look_result nm (map (\<lambda>k. (c, k, f k)) [i..<i + n]) reloff slot)"
proof (induction n arbitrary: i reloff slot)
  case 0
  then show ?case by (simp add: look_result_Nil)
next
  case (Suc n)
  have g: "dirent_get bp i = Some (f i)" using get [of i] Suc.prems by simp
  define T where "T = map (\<lambda>k. (c, k, f k)) [i + 1..<i + Suc n]"
  have ih: "scan_cluster bp nm c n (i + 1) (reloff + 1) sl = Some (look_result nm T (reloff + 1) sl)" for sl
    using Suc.IH [of "i + 1" "reloff + 1" sl] Suc.prems by (simp add: T_def)
  have "[i..<i + Suc n] = i # [i + 1..<i + Suc n]" using upt_conv_Cons [of i "i + Suc n"] by (simp del: upt_Suc)
  then have up: "map (\<lambda>k. (c, k, f k)) [i..<i + Suc n] = [(c, i, f i)] @ T" by (simp add: T_def del: upt_Suc)
  show ?case unfolding up look_result_append look_result_one using c g ih
    by (cases "name0 (f i) = SLOT_EMPTY"; cases "name0 (f i) = SLOT_DELETED"; cases "fst slot")
      (auto simp: Let_def name_matches_def)
qed

text \<open>Reading a cluster of the directory.\<close>

lemma geo_depclust: "geo_ok pvp \<Longrightarrow> vfs_depclust pvp = 16 * spc pvp"
  by (simp add: geo_ok_def DEV_BSIZE_def DIRENTSZ_def)

lemma dirclus_read:
  assumes ok: "bio_ok io view held" and g: "geo_ok pvp" and c: "CLUST_FIRST \<le> c" "c \<le> vfs_maxcluster pvp"
    and fr: "clus_secs pvp c \<inter> held d = {}"
  obtains d1 lb where "lbread io d (cntobn pvp c) (vfs_bpcluster pvp) = Some (d1, lb)"
    and "view (lbrelse io d1 lb) = view d" and "held (lbrelse io d1 lb) = held d"
    and "lgeterror io lb = 0 \<longrightarrow> (\<forall>k < vfs_depclust pvp. dirent_get lb k = Some (entry_at pvp (view d) c k))"
proof -
  let ?b = "cntobn pvp c" and ?n = "spc pvp"
  have n: "?n \<le> MAXCLUSTBLOCKS" and bp: "vfs_bpcluster pvp = ?n * DEV_BSIZE" using g by (simp_all add: geo_ok_def)
  have fr': "{?b..<?b + ?n} \<inter> held d = {}" using fr by (simp add: clus_secs_def)
  obtain d1 lb where r: "lbread io d ?b (vfs_bpcluster pvp) = Some (d1, lb)" "view d1 = view d"
      "held d1 = held d \<union> {?b..<?b + ?n}" "lbuf_at lb ?b ?n"
      "lgeterror io lb = 0 \<longrightarrow> lb_addr lb = concat (map (view d) [?b..<?b + ?n])"
    using lbread_ok [OF ok n fr', folded bp] by (elim exE conjE) (rule that)
  have h: "{?b..<?b + ?n} \<subseteq> held d1" using r(3) by blast
  have rel: "view (lbrelse io d1 lb) = view d" "held (lbrelse io d1 lb) = held d"
    using lbrelse_ok [OF ok r(4) h] r(2,3) fr' by auto
  have l: "length (lb_addr lb) = ?n * DEV_BSIZE" using r(4) by (simp add: lbuf_at_def)
  note len = view_length [OF ok]
  have nz: "c \<noteq> DOSFSROOT" using c(1) by (simp add: CLUST_FIRST_def DOSFSROOT_def)
  have "dirent_get lb k = Some (entry_at pvp (view d) c k)" if z: "lgeterror io lb = 0" and k: "k < vfs_depclust pvp" for k
  proof -
    have k': "k < 16 * ?n" using k geo_depclust [OF g] by simp
    have "DIRENTSZ * k + DIRENTSZ \<le> length (lb_addr lb)"
      using slot_in [OF k'] unfolding l DIRENTSZ_def DEV_BSIZE_def by simp
    then show ?thesis
      using dirent_get_slot cluster_slot [where v = "view d" and b = ?b, OF len k'] r(5) z nz
      by (simp add: entry_at_def slot_base_def)
  qed
  then show ?thesis by (intro that [OF r(1) rel]) blast
qed

section \<open>The whole directory\<close>

text \<open>Only the cache of the table in the denode changes.\<close>

definition same_but_fc :: "denode \<Rightarrow> denode \<Rightarrow> bool" where
  "same_but_fc p q \<longleftrightarrow> q = p\<lparr>de_fc := de_fc q\<rparr>"

lemma same_but_fc_simps [simp]: "same_but_fc p p" "same_but_fc p (fc_setcache q i a b) = same_but_fc p q"
  by (cases p; cases q; auto simp: same_but_fc_def fc_setcache_def)+

lemma same_but_fc_trans: "same_but_fc p q \<Longrightarrow> same_but_fc q r \<Longrightarrow> same_but_fc p r"
  by (cases p; cases q; cases r; simp add: same_but_fc_def)

lemma same_but_fc_de: "same_but_fc p q \<Longrightarrow> de_de q = de_de p"
  unfolding same_but_fc_def by (metis denode.select_convs(5) denode.update_convs(6) denode.surjective)

lemma dir_list_drop:
  assumes "f < length xs"
  shows "dir_list pvp v (drop f xs) = clus_entries pvp v (xs ! f) @ dir_list pvp v (drop (Suc f) xs)"
  using Cons_nth_drop_Suc [OF assms, symmetric] by (simp add: dir_list_def)

text \<open>The outcome when no device error is met: the loop turns \<open>Look_more\<close> at the end into \<open>Look_none\<close>.\<close>

definition look_end :: "look \<Rightarrow> look" where
  "look_end r = (case r of Look_more slot reloff \<Rightarrow> Look_none slot | _ \<Rightarrow> r)"

lemma fc_step:
  assumes "file_ok pvp v dp xs" and "mount_ok pvp" and "f < length xs" and "length xs < 0xffff"
  shows "file_ok pvp v (fc_setcache dp FC_LASTMAP f (xs ! f)) xs"
proof -
  have "xs ! f \<in> set xs" using assms(3) by simp
  then have "xs ! f \<le> vfs_maxcluster pvp" using assms(1) by (auto simp: file_ok_def busy_def)
  then have "xs ! f < 65536" using assms(2) by (simp add: mount_ok_def)
  then show ?thesis
    using assms fc_set_map [of dp xs f] by (simp add: file_ok_def) (simp add: fc_setcache_def)
qed

lemma fc_last_step:
  assumes "file_ok pvp v dp xs" and "mount_ok pvp" and "xs \<noteq> []" and "length xs < 0xffff"
  shows "file_ok pvp v (fc_setcache dp FC_LASTFC (length xs - 1) (last xs)) xs"
proof -
  have "last xs \<in> set xs" using assms(3) by simp
  then have "last xs \<le> vfs_maxcluster pvp" using assms(1) by (auto simp: file_ok_def busy_def)
  then have "last xs < 65536" using assms(2) by (simp add: mount_ok_def)
  then show ?thesis
    using assms fc_set_last [of dp xs] by (simp add: file_ok_def) (simp add: fc_setcache_def)
qed

lemma look_loop_ok:
  assumes ok: "bio_ok io view held" and m: "mount_ok pvp" and g: "geo_ok pvp" and noe: "\<forall>lb. lgeterror io lb \<noteq> E2BIG"
    and ne: "xs \<noteq> []"
  shows "file_ok pvp (view d) dp xs \<Longrightarrow> held d = {} \<Longrightarrow> f \<le> length xs \<Longrightarrow> length xs - f < n \<Longrightarrow>
    \<exists>d' dp' r. look_loop io pvp n d dp nm f reloff slot = Some (d', dp', r) \<and> view d' = view d \<and> held d' = {}
      \<and> file_ok pvp (view d) dp' xs \<and> same_but_fc dp dp'
      \<and> (case r of Inl e \<Rightarrow> dev_err io e
          | Inr l \<Rightarrow> l = look_end (look_result nm (dir_list pvp (view d) (drop f xs)) reloff slot))"
proof (induction n arbitrary: d dp f reloff slot)
  case 0
  then show ?case by simp
next
  case (Suc n)
  have fr: "fatblks pvp \<inter> held d = {}" using Suc.prems(2) by simp
  have fa: "file_at pvp (view d) (de_StartCluster dp) xs" and fc: "fc_ok dp xs" using Suc.prems(1) ne by (simp_all add: file_ok_def)
  have lx: "length xs < 0xffff" using fa by (simp add: file_at_def)
  have want: "True \<or> True" by simp
  have s0: "de_StartCluster dp \<noteq> DOSFSROOT" using file_start [OF fa] by (simp add: CLUST_FIRST_def DOSFSROOT_def)
  show ?case
  proof (cases rule: pcbmap_cases [OF ok m fr fa fc want, where f = f, case_names err found eof])
    case (err d' e)
    have "e \<noteq> E2BIG" "e \<noteq> 0" using err(2) noe dev_err_pos by (auto simp: dev_err_def)
    then have "look_loop io pvp (Suc n) d dp nm f reloff slot = Some (d', dp, Inl e)" using err(1) by simp
    then show ?thesis using err Suc.prems by auto
  next
    case (eof d')
    let ?dp = "fc_setcache dp FC_LASTFC (length xs - 1) (last xs)"
    have f: "f = length xs" using eof(1) Suc.prems(3) by simp
    have "look_loop io pvp (Suc n) d dp nm f reloff slot = Some (d', ?dp, Inr (Look_none slot))"
      using eof(2) by (simp add: E2BIG_def)
    moreover have "file_ok pvp (view d) ?dp xs" by (rule fc_last_step [OF Suc.prems(1) m ne lx])
    moreover have "look_end (look_result nm (dir_list pvp (view d) (drop f xs)) reloff slot) = Look_none slot"
      by (simp add: f dir_list_def look_result_Nil look_end_def)
    ultimately show ?thesis using eof(3,4) Suc.prems(2) by auto
  next
    case (found d0)
    let ?c = "xs ! f" and ?dp = "fc_setcache dp FC_LASTMAP f (xs ! f)"
    have cin: "?c \<in> set xs" using found(1) by simp
    have c: "CLUST_FIRST \<le> ?c" "?c \<le> vfs_maxcluster pvp" using cin Suc.prems(1) by (auto simp: file_ok_def busy_def)
    have nz: "?c \<noteq> DOSFSROOT" using c(1) by (simp add: CLUST_FIRST_def DOSFSROOT_def)
    have fl: "file_ok pvp (view d) ?dp xs" by (rule fc_step [OF Suc.prems(1) m found(1) lx])
    have fr0: "clus_secs pvp ?c \<inter> held d0 = {}" using found(4) Suc.prems(2) by simp
    obtain d1 lb where r: "lbread io d0 (cntobn pvp ?c) (vfs_bpcluster pvp) = Some (d1, lb)"
        "view (lbrelse io d1 lb) = view d0" "held (lbrelse io d1 lb) = held d0"
        "lgeterror io lb = 0 \<longrightarrow> (\<forall>k < vfs_depclust pvp. dirent_get lb k = Some (entry_at pvp (view d0) ?c k))"
      by (rule dirclus_read [OF ok g c fr0])
    let ?d2 = "lbrelse io d1 lb"
    have h2: "held ?d2 = {}" "view ?d2 = view d" using r found(3,4) Suc.prems(2) by simp_all
    have ents: "dir_nentries pvp ?dp = vfs_depclust pvp" using s0 by (simp add: dir_nentries_def fc_setcache_def)
    show ?thesis
    proof (cases "lgeterror io lb = 0")
      case False
      have "look_loop io pvp (Suc n) d dp nm f reloff slot = Some (?d2, ?dp, Inl (lgeterror io lb))"
        using found(2) r(1) False by simp
      then show ?thesis using h2 fl False by auto
    next
      case True
      let ?es = "clus_entries pvp (view d) ?c" and ?rest = "dir_list pvp (view d) (drop (Suc f) xs)"
      have get: "\<And>k. k < vfs_depclust pvp \<Longrightarrow> dirent_get lb k = Some (entry_at pvp (view d) ?c k)"
        using r(4) True found(3) by simp
      have sc: "scan_cluster lb nm ?c (vfs_depclust pvp) 0 reloff slot = Some (look_result nm ?es reloff slot)"
        using scan_cluster_ok [where i = 0 and n = "vfs_depclust pvp" and nm = nm and reloff = reloff and slot = slot, OF nz get] by (simp add: clus_entries_def)
      have dl: "dir_list pvp (view d) (drop f xs) = ?es @ ?rest" by (rule dir_list_drop [OF found(1)])
      have run: "look_loop io pvp (Suc n) d dp nm f reloff slot = (case look_result nm ?es reloff slot of
            Look_more slot reloff \<Rightarrow> look_loop io pvp n ?d2 ?dp nm (f + 1) reloff slot
          | _ \<Rightarrow> Some (?d2, ?dp, Inr (look_result nm ?es reloff slot)))"
        using found(2) r(1) True sc ents by simp
      show ?thesis
      proof (cases "look_result nm ?es reloff slot")
        case (Look_more sl rel)
        have fl2: "file_ok pvp (view ?d2) ?dp xs" using fl h2(2) by simp
        have k: "f + 1 \<le> length xs" "length xs - (f + 1) < n" using found(1) Suc.prems(4) by simp_all
        obtain d' dp' r' where ih: "look_loop io pvp n ?d2 ?dp nm (f + 1) rel sl = Some (d', dp', r')" "view d' = view ?d2" "held d' = {}"
            "file_ok pvp (view ?d2) dp' xs" "same_but_fc ?dp dp'"
            "case r' of Inl e \<Rightarrow> dev_err io e | Inr l \<Rightarrow> l = look_end (look_result nm (dir_list pvp (view ?d2) (drop (f + 1) xs)) rel sl)"
          using Suc.IH [where reloff = rel and slot = sl, OF fl2 h2(1) k] by (elim exE conjE) (rule that)
        have sb: "same_but_fc dp dp'" using ih(5) same_but_fc_trans [of dp ?dp dp'] by simp
        have run': "look_loop io pvp (Suc n) d dp nm f reloff slot = Some (d', dp', r')"
          unfolding run Look_more using ih(1) by simp
        have eq: "look_result nm (dir_list pvp (view ?d2) (drop (f + 1) xs)) rel sl
            = look_result nm (dir_list pvp (view d) (drop f xs)) reloff slot"
          by (simp add: dl look_result_append Look_more h2(2))
        show ?thesis
          by (intro exI conjI, rule run') (use ih(2-4) h2(2) sb in simp_all, rule ih(6) [unfolded eq])
      next
        case (Look_none sl)
        have "look_loop io pvp (Suc n) d dp nm f reloff slot = Some (?d2, ?dp, Inr (Look_none sl))"
          unfolding run Look_none by simp
        then show ?thesis using h2 fl Look_none by (auto simp: dl look_result_append look_end_def)
      next
        case (Look_found c k e)
        have "look_loop io pvp (Suc n) d dp nm f reloff slot = Some (?d2, ?dp, Inr (Look_found c k e))"
          unfolding run Look_found by simp
        then show ?thesis using h2 fl Look_found by (auto simp: dl look_result_append look_end_def)
      qed
    qed
  qed
qed

end
