(* ===== verification/DirMap.thy ===== *)
theory DirMap
  imports DirSearch
begin

text \<open>
  A directory as a finite map from names to entries. The list of entries refines it when nothing follows the
  first entry never used and no name occurs twice; filling a free slot is an update of the map, marking an
  entry deleted removes its name.
\<close>

section \<open>The invariant of a directory\<close>

definition live :: "direntry \<Rightarrow> bool" where
  "live e \<longleftrightarrow> name0 e \<noteq> SLOT_EMPTY \<and> name0 e \<noteq> SLOT_DELETED \<and> deAttributes e AND ATTR_VOLUME = 0"

abbreviation ent :: "entry \<Rightarrow> direntry" where "ent x \<equiv> snd (snd x)"
abbreviation key :: "entry \<Rightarrow> nat \<times> nat" where "key x \<equiv> (fst x, fst (snd x))"

definition lnames :: "entry list \<Rightarrow> u8 list list" where
  "lnames es = map (\<lambda>x. name11 (ent x)) (filter (\<lambda>x. live (ent x)) es)"

abbreviation used_before :: "entry \<Rightarrow> entry \<Rightarrow> bool" where
  "used_before x y \<equiv> name0 (ent x) = SLOT_EMPTY \<longrightarrow> name0 (ent y) = SLOT_EMPTY"

definition dir_ok :: "entry list \<Rightarrow> bool" where
  "dir_ok es \<longleftrightarrow> sorted_wrt used_before es \<and> distinct (lnames es) \<and> distinct (map key es)"

lemma lnames_simps [simp]:
  "lnames [] = []" "lnames (x # es) = (if live (ent x) then name11 (ent x) # lnames es else lnames es)"
  "lnames (es @ fs) = lnames es @ lnames fs"
  by (simp_all add: lnames_def)

definition dmap :: "entry list \<Rightarrow> u8 list \<Rightarrow> entry option" where
  "dmap es = (\<lambda>nm. dir_lookup nm es)"

lemma name_matches_live: "name_matches nm e \<longleftrightarrow> live e \<and> nm = name11 e"
  by (auto simp: name_matches_def live_def)

lemma find_none: "(\<And>x. x \<in> set xs \<Longrightarrow> \<not> P x) \<Longrightarrow> find P xs = None"
  by (auto simp: find_None_iff)

lemma lookup_find:
  "dir_ok es \<Longrightarrow> dir_lookup nm es = find (\<lambda>x. name_matches nm (ent x)) es"
proof (induction es)
  case Nil
  then show ?case by (simp add: dir_lookup_def dir_stop_def)
next
  case (Cons x es)
  obtain c k e where x: "x = (c, k, e)" by (cases x)
  have ok: "dir_ok es" using Cons.prems by (auto simp: dir_ok_def split: if_splits)
  show ?case
  proof (cases "name0 e = SLOT_EMPTY")
    case True
    then have n: "\<not> name_matches nm e" by (simp add: name_matches_def)
    have "find (\<lambda>x. name_matches nm (ent x)) es = None"
      using Cons.prems True x by (intro find_none) (auto simp: dir_ok_def name_matches_def)
    then show ?thesis using True n x by (simp add: dir_lookup_def dir_stop_def)
  next
    case False
    then show ?thesis using Cons.IH [OF ok] x by (auto simp: dir_lookup_def dir_stop_def)
  qed
qed

lemma dmap_find: "dir_ok es \<Longrightarrow> dmap es nm = find (\<lambda>x. name_matches nm (ent x)) es"
  by (simp add: dmap_def lookup_find)

text \<open>The map holds exactly the live entries.\<close>

lemma find_unique:
  assumes "distinct (map f (filter P es))"
  shows "find (\<lambda>x. P x \<and> n = f x) es = Some x \<longleftrightarrow> x \<in> set es \<and> P x \<and> f x = n"
  using assms
proof (induction es)
  case (Cons a es)
  then have ih: "find (\<lambda>x. P x \<and> n = f x) es = Some x \<longleftrightarrow> x \<in> set es \<and> P x \<and> f x = n"
    by (simp split: if_splits)
  show ?case
  proof (cases "P a \<and> n = f a")
    case True
    then have n: "n = f a" and p: "P a" by blast+
    have "f a \<notin> f ` {y \<in> set es. P y}" using Cons.prems p by simp
    then have x: "f x = f a \<longrightarrow> x \<notin> {y \<in> set es. P y}" using imageI [of x "{y \<in> set es. P y}" f] by (auto simp del: image_eqI)
    have i: "x \<in> set (a # es) \<and> P x \<and> f x = f a \<longleftrightarrow> a = x"
    proof (cases "x = a")
      case True
      show ?thesis unfolding True using p by simp
    next
      case False
      then show ?thesis using x by auto
    qed
    have "find (\<lambda>x. P x \<and> f a = f x) (a # es) = Some a" using p by simp
    then show ?thesis unfolding n i by (simp only: option.inject)
  next
    case False
    then show ?thesis using ih by auto
  qed
qed simp

lemma dmap_Some:
  assumes "dir_ok es"
  shows "dmap es nm = Some x \<longleftrightarrow> x \<in> set es \<and> live (ent x) \<and> name11 (ent x) = nm"
  using assms find_unique [of "\<lambda>x. name11 (ent x)" "\<lambda>x. live (ent x)" es nm x]
  by (simp add: dmap_find name_matches_live dir_ok_def lnames_def)

lemma dmap_None:
  assumes "dir_ok es"
  shows "dmap es nm = None \<longleftrightarrow> nm \<notin> set (lnames es)"
  unfolding dmap_find [OF assms] find_None_iff name_matches_live lnames_def by force

lemma find_no_name: "nm \<notin> set (lnames es) \<Longrightarrow> find (\<lambda>x. name_matches nm (ent x)) es = None"
  unfolding find_None_iff name_matches_live lnames_def by force

lemma dir_free_find: "dir_free es = find (\<lambda>x. name0 (ent x) = SLOT_EMPTY \<or> name0 (ent x) = SLOT_DELETED) es"
  unfolding dir_free_def by (simp add: case_prod_unfold)

section \<open>Filling a free slot, freeing a slot\<close>

definition upd_entry :: "nat \<Rightarrow> nat \<Rightarrow> direntry \<Rightarrow> entry list \<Rightarrow> entry list" where
  "upd_entry c k e es = map (\<lambda>x. if key x = (c, k) then (c, k, e) else x) es"

lemma upd_concat: "upd_entry c k e (concat ess) = concat (map (upd_entry c k e) ess)"
  unfolding upd_entry_def by (rule map_concat)

lemma upd_split:
  assumes "distinct (map key (pre @ (c, k, e0) # post))"
  shows "upd_entry c k e (pre @ (c, k, e0) # post) = pre @ (c, k, e) # post"
proof -
  have "map (\<lambda>x. if key x = (c, k) then (c, k, e) else x) zs = zs" if "(c, k) \<notin> key ` set zs" for zs
    using that by (intro map_idI) force
  moreover have "(c, k) \<notin> key ` set pre" "(c, k) \<notin> key ` set post" using assms by auto
  ultimately show ?thesis by (simp add: upd_entry_def)
qed

lemma dir_ok_fill:
  assumes ok: "dir_ok (pre @ (c, k, e0) # post)" and l0: "\<not> live e0" and pre: "\<forall>x \<in> set pre. name0 (ent x) \<noteq> SLOT_EMPTY"
    and l: "live e" and fresh: "dmap (pre @ (c, k, e0) # post) (name11 e) = None"
  shows "dir_ok (pre @ (c, k, e) # post)"
    and "dmap (pre @ (c, k, e) # post) = (dmap (pre @ (c, k, e0) # post))(name11 e \<mapsto> (c, k, e))"
proof -
  have n: "name11 e \<notin> set (lnames pre)" "name11 e \<notin> set (lnames post)"
    using fresh l0 unfolding dmap_None [OF ok] by simp_all
  have "name0 e \<noteq> SLOT_EMPTY" using l by (simp add: live_def)
  then show ok': "dir_ok (pre @ (c, k, e) # post)"
    using ok l0 l pre n by (simp add: dir_ok_def sorted_wrt_append)
  show "dmap (pre @ (c, k, e) # post) = (dmap (pre @ (c, k, e0) # post))(name11 e \<mapsto> (c, k, e))"
  proof
    fix nm
    show "dmap (pre @ (c, k, e) # post) nm = ((dmap (pre @ (c, k, e0) # post))(name11 e \<mapsto> (c, k, e))) nm"
    proof (cases "nm = name11 e")
      case True
      then show ?thesis using l by (simp add: dmap_Some [OF ok'])
    next
      case False
      then show ?thesis using l0 unfolding dmap_find [OF ok'] fun_upd_apply if_not_P [OF False] dmap_find [OF ok]
        by (simp add: find_append name_matches_live split: option.split)
    qed
  qed
qed

lemma dir_ok_free:
  assumes ok: "dir_ok (pre @ (c, k, e0) # post)" and l0: "live e0" and l: "name0 e = SLOT_DELETED"
  shows "dir_ok (pre @ (c, k, e) # post)"
    and "dmap (pre @ (c, k, e) # post) = (dmap (pre @ (c, k, e0) # post))(name11 e0 := None)"
proof -
  have n: "name11 e0 \<notin> set (lnames pre)" "name11 e0 \<notin> set (lnames post)"
    using ok l0 by (auto simp: dir_ok_def)
  have d: "\<not> live e" "name0 e \<noteq> SLOT_EMPTY" using l by (simp_all add: live_def SLOT_DELETED_def SLOT_EMPTY_def)
  have "name0 e0 \<noteq> SLOT_EMPTY" using l0 by (simp add: live_def)
  then show ok': "dir_ok (pre @ (c, k, e) # post)"
    using ok l0 d by (simp add: dir_ok_def sorted_wrt_append)
  show "dmap (pre @ (c, k, e) # post) = (dmap (pre @ (c, k, e0) # post))(name11 e0 := None)"
  proof
    fix nm
    show "dmap (pre @ (c, k, e) # post) nm = ((dmap (pre @ (c, k, e0) # post))(name11 e0 := None)) nm"
    proof (cases "nm = name11 e0")
      case True
      have "dmap (pre @ (c, k, e) # post) nm = None" unfolding dmap_None [OF ok'] using n d True by simp
      then show ?thesis using True by simp
    next
      case False
      then show ?thesis using d unfolding dmap_find [OF ok'] fun_upd_apply if_not_P [OF False] dmap_find [OF ok]
        by (simp add: find_append name_matches_live split: option.split)
    qed
  qed
qed

text \<open>Appending a cluster that holds one entry and is otherwise never used, to a directory with no free slot.\<close>

lemma dir_ok_grow:
  assumes ok: "dir_ok es" and full: "dir_free es = None" and l: "live e" and fresh: "dmap es (name11 e) = None"
    and c: "c \<notin> fst ` set es" and ks: "distinct ks" "k \<notin> set ks" and z: "\<forall>j \<in> set ks. name0 (f j) = SLOT_EMPTY"
  shows "dir_ok (es @ (c, k, e) # map (\<lambda>j. (c, j, f j)) ks)"
    and "dmap (es @ (c, k, e) # map (\<lambda>j. (c, j, f j)) ks) = (dmap es)(name11 e \<mapsto> (c, k, e))"
proof -
  let ?t = "map (\<lambda>j. (c, j, f j)) ks"
  have nf: "name0 (ent x) \<noteq> SLOT_EMPTY" if "x \<in> set es" for x
    using full that unfolding dir_free_find find_None_iff by blast
  have n: "name11 e \<notin> set (lnames es)" using fresh unfolding dmap_None [OF ok] .
  have dead: "\<not> live (f j)" if "j \<in> set ks" for j using z that by (simp add: live_def)
  have t: "lnames ?t = []" using dead by (auto simp: lnames_def filter_empty_conv)
  have "name0 e \<noteq> SLOT_EMPTY" using l by (simp add: live_def)
  moreover have "sorted_wrt used_before ?t" using z by (induction ks) auto
  moreover have "distinct (map key ?t)" "(c, k) \<notin> set (map key ?t)" using ks by (auto simp: distinct_map inj_on_def)
  moreover have "set (map key es) \<inter> set (map key ((c, k, e) # ?t)) = {}" using c by force
  ultimately show ok': "dir_ok (es @ (c, k, e) # ?t)"
    using ok l nf n t by (simp add: dir_ok_def sorted_wrt_append)
  show "dmap (es @ (c, k, e) # ?t) = (dmap es)(name11 e \<mapsto> (c, k, e))"
  proof
    fix nm
    have "find (\<lambda>x. name_matches nm (ent x)) ?t = None" by (rule find_no_name) (simp add: t)
    moreover have "find (\<lambda>x. name_matches (name11 e) (ent x)) es = None" by (rule find_no_name [OF n])
    ultimately show "dmap (es @ (c, k, e) # ?t) nm = ((dmap es)(name11 e \<mapsto> (c, k, e))) nm"
      unfolding dmap_find [OF ok'] fun_upd_apply dmap_find [OF ok] find_append
      using l by (cases "nm = name11 e") (simp_all add: name_matches_live split: option.split)
  qed
qed

section \<open>Entries written to the device\<close>

lemma dir_list_keys:
  assumes "distinct xs"
  shows "distinct (map key (dir_list pvp v xs))"
  using assms
proof (induction xs)
  case (Cons c xs)
  have "distinct (map key (clus_entries pvp v c))" by (simp add: clus_entries_def comp_def distinct_map inj_on_def)
  moreover have "key ` set (clus_entries pvp v c) \<inter> key ` set (dir_list pvp v xs) = {}"
    using Cons.prems by (auto simp: clus_entries_def dir_list_def)
  ultimately show ?case using Cons by (simp add: dir_list_def)
qed (simp add: dir_list_def)

lemma dir_list_cong:
  assumes g: "geo_ok pvp" and same: "\<forall>c \<in> set xs. CLUST_FIRST \<le> c \<and> c \<le> vfs_maxcluster pvp \<and> (\<forall>s \<in> clus_secs pvp c. v' s = v s)"
  shows "dir_list pvp v' xs = dir_list pvp v xs"
proof -
  have "clus_entries pvp v' c = clus_entries pvp v c" if c: "c \<in> set xs" for c
  proof -
    have r: "CLUST_FIRST \<le> c" "c \<le> vfs_maxcluster pvp" "\<forall>s \<in> clus_secs pvp c. v' s = v s" using same c by auto
    then have nz: "c \<noteq> DOSFSROOT" by (auto simp: CLUST_FIRST_def DOSFSROOT_def)
    have "entry_at pvp v' c k = entry_at pvp v c k" if k: "k < vfs_depclust pvp" for k
    proof (rule entry_at_cong)
      have "slot_ok pvp c k" using r k geo_depclust [OF g] nz by (simp add: slot_ok_def)
      then show "v' (entry_sec pvp c k) = v (entry_sec pvp c k)" using entry_sec_data(2) [OF g _ nz] r(3) by blast
    qed
    then show ?thesis by (simp add: clus_entries_def)
  qed
  then show ?thesis by (simp add: dir_list_def cong: map_cong)
qed

text \<open>Two entries of one sector.\<close>

lemma sec_slot_put:
  assumes len: "\<And>s. length (v s) = DEV_BSIZE" and wf: "direntry_wf e" and "j \<noteq> k"
  shows "sec_slot (sec_put v b k e) b j = sec_slot v b j"
proof (cases "j div 16 = k div 16")
  case False
  then show ?thesis by (simp add: sec_slot_def sec_put_def)
next
  case True
  have "j = 16 * (j div 16) + j mod 16" "k = 16 * (k div 16) + k mod 16" by simp_all
  then have "j mod 16 \<noteq> k mod 16" using True assms(3) by (metis (no_types))
  then show ?thesis
    using True slot16 [of j] slot16 [of k] dirents.slot_put_other [OF wf, of "k mod 16" "v (b + k div 16)" "j mod 16"] len
    by (simp add: sec_slot_def sec_put_def)
qed

lemma dir_list_put:
  assumes g: "geo_ok pvp" and len: "\<And>s. length (v s) = DEV_BSIZE" and wf: "direntry_wf e"
    and rng: "set xs \<subseteq> {CLUST_FIRST..vfs_maxcluster pvp}" and s: "CLUST_FIRST \<le> c" "c \<le> vfs_maxcluster pvp" "k < vfs_depclust pvp"
  shows "dir_list pvp (entry_put pvp v c k e) xs = upd_entry c k e (dir_list pvp v xs)"
proof -
  have nz: "c \<noteq> DOSFSROOT" using s(1) by (simp add: CLUST_FIRST_def DOSFSROOT_def)
  have sl: "slot_ok pvp c k" using s geo_depclust [OF g] nz by (simp add: slot_ok_def)
  have e: "entry_at pvp (entry_put pvp v c k e) c' k' = (if c' = c \<and> k' = k then e else entry_at pvp v c' k')"
    if c': "c' \<in> set xs" and k': "k' < vfs_depclust pvp" for c' k'
  proof -
    have r: "CLUST_FIRST \<le> c'" "c' \<le> vfs_maxcluster pvp" using c' rng by auto
    then have nz': "c' \<noteq> DOSFSROOT" by (simp add: CLUST_FIRST_def DOSFSROOT_def)
    show ?thesis
    proof (cases "c' = c")
      case True
      then show ?thesis
        using entry_at_put [where v = v, OF len wf] sec_slot_put [where v = v, OF len wf, of k' k]
        by (auto simp: entry_at_def entry_put_def)
    next
      case False
      have "slot_ok pvp c' k'" using r k' geo_depclust [OF g] nz' by (simp add: slot_ok_def)
      then have "entry_sec pvp c' k' \<in> clus_secs pvp c'" using entry_sec_data(2) [OF g _ nz'] by blast
      moreover have "entry_sec pvp c k \<in> clus_secs pvp c" by (rule entry_sec_data(2) [OF g sl nz])
      ultimately have "entry_sec pvp c' k' \<noteq> entry_sec pvp c k" using clus_disjoint [OF g r s(1,2) False] by auto
      then have "entry_at pvp (entry_put pvp v c k e) c' k' = entry_at pvp v c' k'"
        by (intro entry_at_cong) (rule entry_put_other)
      then show ?thesis using False by simp
    qed
  qed
  have "clus_entries pvp (entry_put pvp v c k e) c' = upd_entry c k e (clus_entries pvp v c')" if c': "c' \<in> set xs" for c'
  proof -
    have "(c', k', entry_at pvp (entry_put pvp v c k e) c' k') = (let x = (c', k', entry_at pvp v c' k') in if key x = (c, k) then (c, k, e) else x)"
      if "k' \<in> set [0..<vfs_depclust pvp]" for k'
    proof -
      have k': "k' < vfs_depclust pvp" using that by simp
      show ?thesis unfolding e [OF c' k'] by (simp add: Let_def)
    qed
    then show ?thesis unfolding clus_entries_def upd_entry_def map_map comp_def Let_def by (rule map_cong [OF refl])
  qed
  then have "map (clus_entries pvp (entry_put pvp v c k e)) xs = map (upd_entry c k e) (map (clus_entries pvp v) xs)"
    by simp
  then show ?thesis unfolding dir_list_def by (simp only: upd_concat)
qed

end
