(* ===== verification/Truncate.thy ===== *)
theory Truncate
  imports DenodeOps
begin

text \<open>
  The parts of \<open>detrunc\<close>: what each does to the list of clusters of the file, to its bytes, and to the
  volume. A file is cut behind cluster \<open>n\<close>, the number of clusters the new length needs.
\<close>

section \<open>Bytes of a file\<close>

definition clus_bytes :: "dosfs_vfs \<Rightarrow> (nat \<Rightarrow> u8 list) \<Rightarrow> nat \<Rightarrow> u8 list" where
  "clus_bytes pvp v c = concat (map v [cntobn pvp c..<cntobn pvp c + spc pvp])"

definition file_bytes :: "dosfs_vfs \<Rightarrow> (nat \<Rightarrow> u8 list) \<Rightarrow> nat list \<Rightarrow> u8 list" where
  "file_bytes pvp v xs = concat (map (clus_bytes pvp v) xs)"

definition nclus :: "dosfs_vfs \<Rightarrow> nat \<Rightarrow> nat" where
  "nclus pvp len = (len + vfs_bpcluster pvp - 1) div vfs_bpcluster pvp"

lemma geo_bpc:
  assumes "geo_ok pvp"
  shows "0 < vfs_bpcluster pvp" and "vfs_bpcluster pvp \<le> 32768" and "vfs_bpcluster pvp = spc pvp * DEV_BSIZE"
    and "2 ^ vfs_cnshift pvp = vfs_bpcluster pvp" and "vfs_crbomask pvp = vfs_bpcluster pvp - 1"
    and "drop_bit (vfs_cnshift pvp) k = k div vfs_bpcluster pvp" and "k AND vfs_crbomask pvp = k mod vfs_bpcluster pvp"
proof -
  have s: "spc pvp \<le> 64" "1 \<le> spc pvp" and b: "vfs_bpcluster pvp = spc pvp * 512"
    using assms by (simp_all add: geo_ok_def MAXCLUSTBLOCKS_def DEV_BSIZE_def)
  show "0 < vfs_bpcluster pvp" "vfs_bpcluster pvp \<le> 32768" using s unfolding b by simp_all
  have p: "vfs_bpcluster pvp = 2 ^ vfs_cnshift pvp" "vfs_crbomask pvp = 2 ^ vfs_cnshift pvp - 1"
    and "vfs_bpcluster pvp = spc pvp * DEV_BSIZE"
    using assms unfolding geo_ok_def by blast+
  then show "vfs_bpcluster pvp = spc pvp * DEV_BSIZE" "2 ^ vfs_cnshift pvp = vfs_bpcluster pvp"
    "vfs_crbomask pvp = vfs_bpcluster pvp - 1" by simp_all
  show "drop_bit (vfs_cnshift pvp) k = k div vfs_bpcluster pvp" unfolding p by (simp add: drop_bit_eq_div)
  have "k AND (2 ^ vfs_cnshift pvp - 1) = take_bit (vfs_cnshift pvp) k"
    by (simp add: take_bit_eq_mask mask_eq_exp_minus_1)
  then show "k AND vfs_crbomask pvp = k mod vfs_bpcluster pvp" unfolding p by (simp add: take_bit_eq_mod)
qed

lemma length_clus_bytes:
  assumes "geo_ok pvp" and "\<And>s. length (v s) = DEV_BSIZE"
  shows "length (clus_bytes pvp v c) = vfs_bpcluster pvp"
  using length_sectors [of v, OF assms(2)] by (simp add: clus_bytes_def geo_bpc(3) [OF assms(1)])

lemma length_file_bytes:
  assumes "geo_ok pvp" and "\<And>s. length (v s) = DEV_BSIZE"
  shows "length (file_bytes pvp v xs) = length xs * vfs_bpcluster pvp"
  by (induction xs) (simp_all add: file_bytes_def length_clus_bytes [of pvp v, OF assms])

lemma clus_bytes_cong: "(\<And>s. s \<in> clus_secs pvp c \<Longrightarrow> v' s = v s) \<Longrightarrow> clus_bytes pvp v' c = clus_bytes pvp v c"
  unfolding clus_bytes_def clus_secs_def by (rule arg_cong [of _ _ concat], rule map_cong) auto

lemma nclus_pos:
  assumes "geo_ok pvp" and "0 < len"
  shows "nclus pvp len = Suc ((len - 1) div vfs_bpcluster pvp)"
proof -
  have e: "len + vfs_bpcluster pvp - 1 = (len - 1) + vfs_bpcluster pvp" using assms(2) by simp
  have "vfs_bpcluster pvp \<noteq> 0" using geo_bpc(1) [OF assms(1)] by simp
  then have "((len - 1) + vfs_bpcluster pvp) div vfs_bpcluster pvp = (len - 1) div vfs_bpcluster pvp + 1"
    by (rule div_add_self2)
  then show ?thesis unfolding nclus_def e by simp
qed

lemma nclus_0: "geo_ok pvp \<Longrightarrow> nclus pvp 0 = 0"
  using geo_bpc(1) [of pvp] by (simp add: nclus_def)

lemma nclus_le:
  assumes "geo_ok pvp" and "len \<le> n * vfs_bpcluster pvp"
  shows "nclus pvp len \<le> n"
proof (cases "len = 0")
  case False
  have "(len - 1) div vfs_bpcluster pvp < n"
    using assms(2) False geo_bpc(1) [OF assms(1)] by (simp add: less_mult_imp_div_less)
  then show ?thesis using False by (simp add: nclus_pos [OF assms(1)])
qed (simp add: nclus_0 [OF assms(1)])

section \<open>Cutting a chain\<close>

lemma chain_cut:
  assumes "chain e mx s xs" and "0 < n" and "n \<le> length xs"
    and "\<And>x. x \<in> set (take n xs) \<Longrightarrow> x \<noteq> xs ! (n - 1) \<Longrightarrow> e' x = e x" and "\<not> (CLUST_FIRST \<le> e' (xs ! (n - 1)) \<and> e' (xs ! (n - 1)) \<le> mx)"
  shows "chain e' mx s (take n xs)"
  using assms
proof (induction xs arbitrary: s n)
  case (Cons x xs)
  obtain m where n: "n = Suc m" using Cons.prems(2) by (cases n) auto
  have x: "x = s" "CLUST_FIRST \<le> s" "s \<le> mx" "chain e mx (e s) xs" using Cons.prems(1) by auto
  have nin: "x \<notin> set xs" using chain_distinct [OF Cons.prems(1)] by simp
  show ?case
  proof (cases m)
    case 0
    then show ?thesis using x Cons.prems(5) n by simp
  next
    case (Suc k)
    have m: "0 < m" "m \<le> length xs" using Suc Cons.prems(3) n by simp_all
    have l: "(x # xs) ! (n - 1) = xs ! (m - 1)" using n Suc by simp
    have "xs ! (m - 1) \<in> set xs" using m by simp
    then have "e' x = e x" using Cons.prems(4) [of x] nin l n by auto
    moreover have "chain e' mx (e s) (take m xs)"
      by (rule Cons.IH [OF x(4) m]) (use Cons.prems(4,5) l n in auto)
    ultimately show ?thesis using x n by simp
  qed
qed simp

lemma chain_rest:
  assumes "chain e mx s xs" and "n < length xs"
  shows "chain e mx (e (xs ! n)) (drop (Suc n) xs)"
  using assms
proof (induction xs arbitrary: s n)
  case (Cons x xs)
  then show ?case by (cases n) auto
qed simp

lemma set_take_drop: "distinct xs \<Longrightarrow> set (take n xs) \<inter> set (drop n xs) = {}"
  by (metis append_take_drop_id distinct_append)

section \<open>The steps\<close>

text \<open>Changes to a denode that leave its place and its kind.\<close>

definition same_place :: "denode \<Rightarrow> denode \<Rightarrow> bool" where
  "same_place p q \<longleftrightarrow> de_dirclust q = de_dirclust p \<and> de_diroffset q = de_diroffset p \<and> de_vroot q = de_vroot p
     \<and> de_Attributes q = de_Attributes p \<and> direntry_wf (de_de q) = direntry_wf (de_de p)
     \<and> deName (de_de q) = deName (de_de p)"

lemma same_place_trans: "same_place p q \<Longrightarrow> same_place q r \<Longrightarrow> same_place p r"
  by (simp add: same_place_def)

lemma same_place_fc [simp]: "same_place dep (fc_setcache dep' i a b) = same_place dep dep'"
    "same_place dep (fc_purge dep' n) = same_place dep dep'" "same_place dep (stamped cv tp dep') = same_place dep dep'"
    "same_place dep dep"
  by (simp_all add: same_place_def fc_setcache_def fc_purge_def)

lemma fc_de [simp]: "de_de (fc_setcache dep i a b) = de_de dep" "de_de (fc_purge dep n) = de_de dep"
    "de_flag (fc_setcache dep i a b) = de_flag dep" "de_flag (fc_purge dep n) = de_flag dep"
    "de_vroot (fc_setcache dep i a b) = de_vroot dep" "de_vroot (fc_purge dep n) = de_vroot dep"
    "de_dirclust (fc_setcache dep i a b) = de_dirclust dep" "de_dirclust (fc_purge dep n) = de_dirclust dep"
    "de_diroffset (fc_setcache dep i a b) = de_diroffset dep" "de_diroffset (fc_purge dep n) = de_diroffset dep"
  by (simp_all add: fc_setcache_def fc_purge_def)

lemma fc_ok_de: "de_fc dep' = de_fc dep \<Longrightarrow> fc_ok dep' xs = fc_ok dep xs"
  by (simp add: fc_ok_def)

lemma file_cluster:
  assumes "file_ok pvp v dep xs" and "x \<in> set xs"
  shows "CLUST_FIRST \<le> x" and "x \<le> vfs_maxcluster pvp" and "x \<notin> free_set pvp v"
  using assms by (auto simp: file_ok_def busy_def)

lemma file_clus16:
  assumes "mount_ok pvp" and "file_ok pvp v dep xs" and "x \<in> set xs"
  shows "x < 65536"
  using file_cluster(2) [OF assms(2,3)] assms(1) by (simp add: mount_ok_def)

lemma mod_pred:
  assumes "0 < len" and "0 < (b :: nat)"
  shows "Suc ((len - 1) mod b) = (if len mod b = 0 then b else len mod b)"
proof -
  obtain k where k: "len = Suc k" using assms(1) by (cases len) auto
  show ?thesis using mod_Suc [of k b] mod_less_divisor [OF assms(2), of k] by (auto simp: k split: if_splits)
qed

text \<open>The size of a directory is that of its clusters.\<close>

definition trunc_len :: "dosfs_vfs \<Rightarrow> denode \<Rightarrow> nat list \<Rightarrow> nat" where
  "trunc_len pvp dep xs = (if de_Attributes dep AND ATTR_DIRECTORY \<noteq> 0 then length xs * vfs_bpcluster pvp else de_FileSize dep)"

lemma trunc_size_ok:
  assumes ok: "bio_ok io view held" and m: "mount_ok pvp" and fr: "fatblks pvp \<inter> held d = {}" and g: "geo_ok pvp"
    and fl: "file_ok pvp (view d) dep xs" and len: "length xs < 0xffff" and ne: "xs \<noteq> []"
    and noe: "\<forall>lb. lgeterror io lb \<noteq> E2BIG"
  obtains (err) d' e where "trunc_size io pvp d dep = Some (d', dep, Some e)" and "dev_err io e" and "view d' = view d" and "held d' = held d"
  | (sized) d' dep' where "trunc_size io pvp d dep = Some (d', dep', None)" and "view d' = view d" and "held d' = held d"
      and "file_ok pvp (view d) dep' xs" and "same_place dep dep'" and "de_flag dep' = de_flag dep"
      and "deStartCluster (de_de dep') = deStartCluster (de_de dep)" and "de_FileSize dep' = trunc_len pvp dep xs"
proof (cases "de_Attributes dep AND ATTR_DIRECTORY \<noteq> 0")
  case False
  then show ?thesis using fl by (intro sized [of d dep]) (simp_all add: trunc_size_def trunc_len_def)
next
  case True
  have fa: "file_at pvp (view d) (de_StartCluster dep) xs" and fc: "fc_ok dep xs" using fl ne by (simp_all add: file_ok_def)
  have want: "False \<or> True" by simp
  show ?thesis
  proof (cases rule: pcbmap_cases [OF ok m fr fa fc want, where f = "0xffff", case_names e f eof])
    case (e d' er)
    have "er \<noteq> E2BIG" using e(2) noe by (auto simp: dev_err_def)
    then show ?thesis using e True dev_err_pos [OF e(2)] by (intro err [of d' er]) (simp_all add: trunc_size_def)
  next
    case (f d')
    then show ?thesis using len by simp
  next
    case (eof d')
    let ?n = "length xs * vfs_bpcluster pvp"
    let ?dep = "(fc_setcache dep FC_LASTFC (length xs - 1) (last xs))
       \<lparr>de_de := (de_de dep)\<lparr>deFileSize := push_bit (vfs_cnshift pvp) (of_nat (length xs))\<rparr>\<rparr>"
    have lr: "last xs < 65536" using file_clus16 [OF m fl, of "last xs"] ne by simp
    have "fc_ok (fc_setcache dep FC_LASTFC (length xs - 1) (last xs)) xs" by (rule fc_set_last [OF fc ne len lr])
    then have fc': "fc_ok ?dep xs" by (simp add: fc_ok_def)
    have "length xs * vfs_bpcluster pvp \<le> 65535 * 32768" using len geo_bpc(2) [OF g] by (intro mult_le_mono) simp_all
    then have "?n < 2 ^ 32" by simp
    moreover have "push_bit (vfs_cnshift pvp) (of_nat (length xs) :: uint_t) = of_nat ?n"
      by (simp add: push_bit_eq_mult flip: geo_bpc(4) [OF g])
    ultimately have sz: "de_FileSize ?dep = ?n" by (simp add: unat_of_nat del: of_nat_mult)
    have "trunc_size io pvp d dep = Some (d', ?dep, None)"
      using True eof(2) by (simp add: trunc_size_def E2BIG_def)
    then show ?thesis
      by (rule sized) (use eof fl fc' True sz in \<open>simp_all add: file_ok_def same_place_def trunc_len_def direntry_wf_def fc_setcache_def\<close>)
  qed
qed

text \<open>The last cluster that stays.\<close>

lemma trunc_point_ok:
  assumes ok: "bio_ok io view held" and m: "mount_ok pvp" and fr: "fatblks pvp \<inter> held d = {}" and g: "geo_ok pvp"
    and fl: "file_ok pvp (view d) dep xs" and ne: "xs \<noteq> []"
    and len: "0 < len" "len \<le> length xs * vfs_bpcluster pvp"
  obtains (err) d' e where "trunc_point io pvp d dep len = Some (d', dep, e, None, None)" and "dev_err io e"
      and "view d' = view d" and "held d' = held d"
  | (found) d' dep' where "trunc_point io pvp d dep len = Some (d', dep', 0, Some (xs ! (nclus pvp len - 1)), None)"
      and "view d' = view d" and "held d' = held d" and "fc_ok dep' xs" and "same_place dep dep'"
      and "de_flag dep' = de_flag dep" and "de_de dep' = de_de dep"
proof -
  let ?f = "(len - 1) div vfs_bpcluster pvp"
  have fa: "file_at pvp (view d) (de_StartCluster dep) xs" and fc: "fc_ok dep xs" using fl ne by (simp_all add: file_ok_def)
  have want: "False \<or> True" by simp
  have n: "nclus pvp len - Suc 0 = (len - Suc 0) div vfs_bpcluster pvp" by (simp add: nclus_pos [OF g len(1)])
  have lt: "?f < length xs" using nclus_le [OF g len(2)] by (simp add: nclus_pos [OF g len(1)])
  have run: "trunc_point io pvp d dep len = do {
      (d, dep, error, _, eofentry) \<leftarrow> pcbmap io pvp d dep ?f False True;
      Some (d, dep, error, eofentry, None) }"
    using len(1) by (simp add: trunc_point_def geo_bpc(6) [OF g])
  show ?thesis
  proof (cases rule: pcbmap_cases [OF ok m fr fa fc want, where f = ?f, case_names e f eof])
    case (e d' er)
    then show ?thesis by (intro err [of d' er]) (simp_all add: run)
  next
    case (f d')
    have "xs ! ?f < 65536" using file_clus16 [OF m fl] f(1) by simp
    moreover have "length xs < 0xffff" using fa by (simp add: file_at_def)
    ultimately have "fc_ok (fc_setcache dep FC_LASTMAP ?f (xs ! ?f)) xs" using fc_set_map [OF fc f(1)] by simp
    then show ?thesis
      by (intro found [of d' "fc_setcache dep FC_LASTMAP ?f (xs ! ?f)"]) (use f in \<open>simp_all add: run flip: n\<close>)
  next
    case (eof d')
    then show ?thesis using lt by simp
  qed
qed

text \<open>The tail of the last cluster.\<close>

definition tail_zeroed :: "dosfs_vfs \<Rightarrow> nat \<Rightarrow> nat \<Rightarrow> (nat \<Rightarrow> u8 list) \<Rightarrow> (nat \<Rightarrow> u8 list) \<Rightarrow> bool" where
  "tail_zeroed pvp len c v v' \<longleftrightarrow> (let r = Suc ((len - 1) mod vfs_bpcluster pvp) in
     clus_bytes pvp v' c = take r (clus_bytes pvp v c) @ replicate (vfs_bpcluster pvp - r) 0)
     \<and> (\<forall>s. s \<notin> clus_secs pvp c \<longrightarrow> v' s = v s)"

lemma trunc_tail_ok:
  assumes ok: "bio_ok io view held" and g: "geo_ok pvp" and c: "CLUST_FIRST \<le> c" "c \<le> vfs_maxcluster pvp"
    and fr: "clus_secs pvp c \<inter> held d = {}" and len: "0 < len"
  obtains (err) d' e where "trunc_tail io pvp d len c sync = Some (d', e)" and "dev_err io e" and "view d' = view d" and "held d' = held d"
  | (zeroed) d' where "trunc_tail io pvp d len c sync = Some (d', 0)" and "tail_zeroed pvp len c (view d) (view d')" and "held d' = held d"
proof -
  let ?b = "cntobn pvp c" and ?n = "spc pvp" and ?bpc = "vfs_bpcluster pvp"
  note bpc = geo_bpc [OF g]
  note vlen = view_length [OF ok]
  have lc: "length (clus_bytes pvp (view e) c) = ?bpc" for e by (rule length_clus_bytes [OF g vlen])
  show ?thesis
  proof (cases "len mod ?bpc = 0")
    case True
    have r: "Suc ((len - 1) mod ?bpc) = ?bpc" using mod_pred [OF len bpc(1)] True by simp
    have z: "trunc_tail io pvp d len c sync = Some (d, 0)" using True by (simp add: trunc_tail_def bpc(7))
    have "tail_zeroed pvp len c (view d) (view d)" unfolding tail_zeroed_def r Let_def using lc by simp
    then show ?thesis by (rule zeroed [OF z]) simp
  next
    case False
    let ?o = "len mod ?bpc"
    have r: "Suc ((len - 1) mod ?bpc) = ?o" using mod_pred [OF len bpc(1)] False by simp
    have o: "?o < ?bpc" using bpc(1) by simp
    have n: "?n \<le> MAXCLUSTBLOCKS" using g by (simp add: geo_ok_def)
    have fr': "{?b..<?b + ?n} \<inter> held d = {}" using fr by (simp add: clus_secs_def)
    obtain d1 lb where rd: "lbread io d ?b ?bpc = Some (d1, lb)" "view d1 = view d"
        "held d1 = held d \<union> {?b..<?b + ?n}" "lbuf_at lb ?b ?n"
        "lgeterror io lb = 0 \<longrightarrow> lb_addr lb = clus_bytes pvp (view d) c"
      using lbread_ok [OF ok n fr', folded bpc(3) clus_bytes_def] by (elim exE conjE) (rule that)
    have h: "{?b..<?b + ?n} \<subseteq> held d1" using rd(3) by blast
    have ll: "length (lb_addr lb) = ?bpc" using rd(4) bpc(3) by (simp add: lbuf_at_def)
    have hd': "held d1 - {?b..<?b + ?n} = held d" using rd(3) fr' by auto
    show ?thesis
    proof (cases "lgeterror io lb = 0")
      case bad: False
      show ?thesis
        by (rule err [of "lbrelse io d1 lb" "lgeterror io lb"])
          (use rd bad False lbrelse_ok [OF ok rd(4) h] hd' in \<open>simp_all add: trunc_tail_def bpc(7)\<close>)
    next
      case good: True
      let ?xs = "put_bytes ?o (replicate (?bpc - ?o) 0) (lb_addr lb)"
      let ?lb = "lb\<lparr>lb_addr := ?xs\<rparr>"
      have fit: "?o + (?bpc - ?o) \<le> length (lb_addr lb)" using ll o by simp
      have "length ?xs = length (lb_addr lb)" by (rule length_put_bytes) (use fit in simp)
      then have lx: "length ?xs = ?n * DEV_BSIZE" by (rule trans [OF _ trans [OF ll bpc(3)]])
      have xs: "?xs = take ?o (lb_addr lb) @ replicate (?bpc - ?o) 0" using ll o by (simp add: put_bytes_def)
      have at: "lbuf_at ?lb ?b ?n" by (rule lbuf_at_addr [OF rd(4) lx])
      let ?d2 = "if sync then lbwrite io d1 ?lb else lbdwrite io d1 ?lb"
      have w: "view ?d2 = stored (view d1) ?b ?n ?xs" "held ?d2 = held d1 - {?b..<?b + ?n}"
        using lb_write_ok [OF ok at h] by simp_all
      have us: "usub32 ?bpc ?o = ?bpc - ?o" using o by simp
      have run: "trunc_tail io pvp d len c sync = Some (?d2, 0)"
        using False rd(1) good fit us by (simp add: trunc_tail_def bpc(7) lb_zero_def Let_def)
      have cb: "clus_bytes pvp (view ?d2) c = ?xs" unfolding clus_bytes_def w(1) by (rule stored_concat [OF lx])
      have "tail_zeroed pvp len c (view d) (view ?d2)"
        unfolding tail_zeroed_def r Let_def
      proof
        show "clus_bytes pvp (view ?d2) c = take ?o (clus_bytes pvp (view d) c) @ replicate (?bpc - ?o) 0"
          by (rule trans [OF cb]) (use xs rd(5) good in simp)
        show "\<forall>s. s \<notin> clus_secs pvp c \<longrightarrow> view ?d2 s = view d s"
          unfolding w(1) rd(2) stored_def clus_secs_def by simp
      qed
      then show ?thesis by (rule zeroed [OF run]) (simp add: w(2) hd')
    qed
  qed
qed

text \<open>Cutting the chain behind the last cluster.\<close>

lemma trunc_cut_ok:
  assumes ok: "bio_ok io view held" and v: "vol_ok pvp (view d)" and fr: "fatblks pvp \<inter> held d = {}" and g: "geo_ok pvp"
    and good: "\<forall>lb. lgeterror io lb = 0"
    and fa: "file_at pvp (view d) (de_StartCluster dep) xs" and bs: "set xs \<subseteq> busy pvp (view d)"
    and fc: "fc_ok dep (take (nclus pvp len) xs)" and len: "0 < len" and n: "nclus pvp len \<le> length xs"
  obtains d' pvp' dep' c where "trunc_cut io pvp d dep len (xs ! (nclus pvp len - 1)) None = Some (d', pvp', dep', 0, Some c)"
    and "held d' = held d" and "same_fs pvp pvp'" and "vol_ok pvp' (view d')" and "free_set pvp' (view d') = free_set pvp (view d)"
    and "\<forall>s. s \<notin> fatblks pvp \<longrightarrow> view d' s = view d s"
    and "file_at pvp (view d') (de_StartCluster dep) (take (nclus pvp len) xs)" and "fc_ok dep' (take (nclus pvp len) xs)"
    and "same_place dep dep'" and "de_de dep' = de_de dep" and "de_flag dep' = de_flag dep"
    and "chain (fat_at pvp (view d')) (vfs_maxcluster pvp) c (drop (nclus pvp len) xs)"
    and "drop (nclus pvp len) xs = [] \<longrightarrow> DOSFSEOF c"
proof -
  let ?n = "nclus pvp len"
  let ?c = "xs ! (?n - 1)" and ?ys = "take ?n xs"
  have m: "mount_ok pvp" using v by (simp add: vol_ok_def)
  have n0: "0 < ?n" by (simp add: nclus_pos [OF g len])
  have k: "?n - 1 < length xs" using n n0 by simp
  have ch: "chain (fat_at pvp (view d)) (vfs_maxcluster pvp) (de_StartCluster dep) xs" and lx: "length xs < 0xffff"
    and eofx: "DOSFSEOF (fat_at pvp (view d) (last xs))" using fa by (simp_all add: file_at_def)
  have c: "CLUST_FIRST \<le> ?c" "?c \<le> vfs_maxcluster pvp" using chain_nth [OF ch k] by simp_all
  have cu: "?c \<notin> free_set pvp (view d)" using nth_mem [OF k] bs by (auto simp: busy_def)
  have c16: "?c < 65536" using c(2) m by (simp add: mount_ok_def)
  then have nn: "?c \<noteq> NO_CLUSTER" by (simp add: NO_CLUSTER_def)
  have yne: "?ys \<noteq> []" using n0 k by auto
  have lyl: "length ?ys - 1 = (len - 1) div vfs_bpcluster pvp" using n by (simp add: nclus_pos [OF g len] min_def)
  have lst: "last ?ys = ?c" using n n0 yne by (simp add: last_conv_nth min_def)
  have fl: "FAT_GET_AND_SET AND FAT_SET \<noteq> 0" "FAT_GET_AND_SET AND FAT_GET \<noteq> 0 \<longrightarrow> True" "FAT_GET_AND_SET AND FAT_GET \<noteq> 0"
    using set_flags by (simp_all add: FAT_GET_AND_SET_def)
  show ?thesis
  proof (cases rule: fatentry_cases [OF ok v fr c fl(1,2), where w = CLUST_EOFE, case_names stored failed])
    case (failed e err)
    then show ?thesis using good by auto
  next
    case (stored e)
    let ?q = "pvp\<lparr>vfs_fmod := vfs_fmod pvp + 1\<rparr>" and ?e = "fat_at pvp (view d)" and ?e' = "fat_at pvp (view e)"
    let ?dep = "fc_setcache dep FC_LASTFC ((len - 1) div vfs_bpcluster pvp) ?c"
    have nz: "fat_norm pvp CLUST_EOFE \<noteq> 0" by (simp add: fat_norm_eof)
    have at: "?e' x = (if x = ?c then 0xffff else ?e x)" if "x \<le> vfs_maxcluster pvp" for x
      using stored(3) that by (simp add: fat_stored_def fat_norm_eof)
    have rng: "x \<le> vfs_maxcluster pvp" if "x \<in> set xs" for x using chain_range [OF ch] that by auto
    have out: "\<not> (CLUST_FIRST \<le> ?e' ?c \<and> ?e' ?c \<le> vfs_maxcluster pvp)" using at [OF c(2)] m by (simp add: mount_ok_def)
    have cut: "chain ?e' (vfs_maxcluster pvp) (de_StartCluster dep) ?ys"
    proof (rule chain_cut [where e' = ?e', OF ch n0 n _ out])
      fix x assume "x \<in> set ?ys" "x \<noteq> ?c"
      then show "?e' x = ?e x" using at rng by (auto dest: in_set_takeD)
    qed
    have "DOSFSEOF (?e' (last ?ys))" unfolding lst using at [OF c(2)] by (simp add: DOSFSEOF_def)
    then have fa': "file_at pvp (view e) (de_StartCluster dep) ?ys" using cut yne lx by (simp add: file_at_def)
    have fc': "fc_ok ?dep ?ys"
      using fc_set_last [OF fc yne] lx c16 by (simp only: lst lyl) simp
    have dn: "drop ?n xs = drop (Suc (?n - 1)) xs" using n0 by simp
    have rest: "chain ?e (vfs_maxcluster pvp) (?e ?c) (drop ?n xs)" unfolding dn by (rule chain_rest [OF ch k])
    have "?c \<in> set ?ys" using lst last_in_set [OF yne] by simp
    then have cd: "?c \<notin> set (drop ?n xs)" using set_take_drop [OF chain_distinct [OF ch], of ?n] by blast
    have same: "?e' x = ?e x" if "x \<in> set (drop ?n xs)" for x
    proof -
      have "x \<in> set xs" by (rule in_set_dropD [OF that])
      then show ?thesis using at [OF rng] cd that by auto
    qed
    have rest': "chain ?e' (vfs_maxcluster pvp) (?e ?c) (drop ?n xs)" using rest chain_cong [OF same] by simp
    have fin: "drop ?n xs = [] \<longrightarrow> DOSFSEOF (?e ?c)"
    proof
      assume "drop ?n xs = []"
      then have "?ys = xs" by simp
      then show "DOSFSEOF (?e ?c)" using eofx lst by simp
    qed
    have run: "trunc_cut io pvp d dep len ?c None = Some (e, ?q, ?dep, 0, Some (?e ?c))"
      using nn stored(1) fl(3) by (simp add: trunc_cut_def geo_bpc(6) [OF g])
    have vq: "vol_ok ?q (view e)" "free_set ?q (view e) = free_set pvp (view d)"
      using vol_ok_link [OF v stored(3) nz c cu] by simp_all
    have vs: "\<forall>s. s \<notin> fatblks pvp \<longrightarrow> view e s = view d s" using stored(3) by (simp add: fat_stored_def)
    show ?thesis
      by (rule that [OF run stored(2) _ vq vs fa' fc' _ _ _ rest' fin]) simp_all
  qed
qed

text \<open>Freeing what was cut off.\<close>

lemma trunc_free_ok:
  assumes ok: "bio_ok io view held" and v: "vol_ok pvp (view d)" and fr: "fatblks pvp \<inter> held d = {}"
    and good: "\<forall>lb. lgeterror io lb = 0"
    and ch: "chain (fat_at pvp (view d)) (vfs_maxcluster pvp) c ys" and e: "ys = [] \<longrightarrow> DOSFSEOF c"
    and bs: "set ys \<subseteq> busy pvp (view d)"
  obtains d' pvp' where "trunc_free io pvp d c = Some (d', pvp')" and "held d' = held d" and "same_fs pvp pvp'"
    and "vol_ok pvp' (view d')" and "free_set pvp' (view d') = free_set pvp (view d) \<union> set ys"
    and "\<forall>x \<le> vfs_maxcluster pvp. x \<notin> set ys \<longrightarrow> fat_at pvp (view d') x = fat_at pvp (view d) x"
    and "\<forall>s. s \<notin> fatblks pvp \<longrightarrow> view d' s = view d s"
proof (cases "ys = []")
  case True
  then show ?thesis using e v by (intro that [of d pvp]) (simp_all add: trunc_free_def)
next
  case False
  then obtain z zs where ys: "ys = z # zs" by (cases ys) auto
  have m: "mount_ok pvp" using v by (simp add: vol_ok_def)
  have c: "CLUST_FIRST \<le> c" "c \<le> vfs_maxcluster pvp" using ch by (simp_all add: ys)
  have go: "c \<noteq> 0 \<and> \<not> DOSFSEOF c" using c not_eof [OF m c(2)] by (simp add: CLUST_FIRST_def)
  have "card (set ys) \<le> card (busy pvp (view d))" using bs by (intro card_mono) (auto simp: busy_def)
  also have "\<dots> \<le> vfs_maxcluster pvp - 1" by (rule card_busy)
  finally have lf: "length ys < vfs_maxcluster pvp + 1"
    using distinct_card [OF chain_distinct [OF ch]] by simp
  have dis: "set ys \<inter> free_set pvp (view d) = {}" using bs by (auto simp: busy_def)
  obtain d' pvp' err us zs where r: "freeclusterchain io (vfs_maxcluster pvp + 1) pvp d c = Some (d', pvp', err)" "ys = us @ zs"
      "err = 0 \<longrightarrow> zs = [] \<and> held d' = held d" "err \<noteq> 0 \<longrightarrow> (\<exists>lb. err = lgeterror io lb)"
      "same_fs pvp pvp'" "vol_ok pvp' (view d')" "free_set pvp' (view d') = free_set pvp (view d) \<union> set us"
      "\<forall>c' \<le> vfs_maxcluster pvp. c' \<notin> set us \<longrightarrow> fat_at pvp (view d') c' = fat_at pvp (view d) c'"
      "\<forall>s. s \<notin> fatblks pvp \<longrightarrow> view d' s = view d s"
    using freechain_ok [OF ok v fr ch dis lf] by (elim exE conjE) (rule that)
  have "err = 0" using r(4) good by auto
  then have u: "ys = us" "held d' = held d" using r(2,3) by simp_all
  show ?thesis
    by (rule that [OF _ u(2) r(5,6)]) (use r u go in \<open>simp_all add: trunc_free_def\<close>)
qed

end
