(* ===== verification/TruncProps.thy ===== *)
theory TruncProps
  imports Truncate FileProps
begin

text \<open>
  Truncation as a whole: \<open>detrunc\<close> refines taking a prefix, of the bytes of the file and of its list of
  clusters.
\<close>

section \<open>The bytes that stay\<close>

lemma split_at_cut:
  assumes "0 < n" and "n \<le> length xs"
  shows "take n xs = take (n - 1) xs @ [xs ! (n - 1)]" and "xs = take (n - 1) xs @ xs ! (n - 1) # drop n xs"
proof -
  obtain k where k: "n = Suc k" using assms(1) by (cases n) auto
  show "take n xs = take (n - 1) xs @ [xs ! (n - 1)]" using assms(2) k by (simp add: take_Suc_conv_app_nth)
  then show "xs = take (n - 1) xs @ xs ! (n - 1) # drop n xs" by (metis append_take_drop_id append.assoc append_Cons append_Nil)
qed

lemma file_bytes_append: "file_bytes pvp v (xs @ ys) = file_bytes pvp v xs @ file_bytes pvp v ys"
  by (simp add: file_bytes_def)

lemma file_bytes_cong: "(\<And>x s. x \<in> set xs \<Longrightarrow> s \<in> clus_secs pvp x \<Longrightarrow> v' s = v s) \<Longrightarrow> file_bytes pvp v' xs = file_bytes pvp v xs"
  unfolding file_bytes_def by (rule arg_cong [of _ _ concat], rule map_cong) (auto intro: clus_bytes_cong)

lemma trunc_bytes:
  assumes g: "geo_ok pvp" and vl: "\<And>s. length (v s) = DEV_BSIZE" and len: "0 < len" "nclus pvp len \<le> length xs"
    and d: "distinct xs" and rng: "set xs \<subseteq> {CLUST_FIRST..vfs_maxcluster pvp}"
    and z: "tail_zeroed pvp len (xs ! (nclus pvp len - 1)) v v1"
    and same: "\<And>x s. x \<in> set (take (nclus pvp len) xs) \<Longrightarrow> s \<in> clus_secs pvp x \<Longrightarrow> v2 s = v1 s"
  shows "file_bytes pvp v2 (take (nclus pvp len) xs)
    = take len (file_bytes pvp v xs) @ replicate (nclus pvp len * vfs_bpcluster pvp - len) 0"
proof -
  let ?n = "nclus pvp len" and ?b = "vfs_bpcluster pvp"
  let ?c = "xs ! (?n - 1)" and ?us = "take (?n - 1) xs" and ?r = "Suc ((len - 1) mod ?b)"
  have n0: "0 < ?n" by (simp add: nclus_pos [OF g len(1)])
  note sp = split_at_cut [OF n0 len(2)]
  have len_eq: "len = (?n - 1) * ?b + ?r"
    using div_mult_mod_eq [of "len - 1" ?b] len(1) by (simp add: nclus_pos [OF g len(1)])
  have rb: "?r \<le> ?b" using geo_bpc(1) [OF g] by (simp add: Suc_leI)
  have "?n - 1 < length xs" using n0 len(2) by simp
  then have cin: "?c \<in> set xs" by simp
  have nin: "?c \<notin> set ?us"
  proof -
    have "distinct (?us @ ?c # drop ?n xs)" using d sp(2) by simp
    then show ?thesis by simp
  qed
  have cr: "CLUST_FIRST \<le> ?c" "?c \<le> vfs_maxcluster pvp" using cin rng by auto
  have "v2 s = v s" if x: "x \<in> set ?us" and s: "s \<in> clus_secs pvp x" for x s
  proof -
    have xs: "x \<in> set xs" by (rule in_set_takeD [OF x])
    have "x \<noteq> ?c" using x nin by blast
    moreover have "CLUST_FIRST \<le> x" "x \<le> vfs_maxcluster pvp" using rng xs by auto
    ultimately have "clus_secs pvp x \<inter> clus_secs pvp ?c = {}" using clus_disjoint [OF g _ _ cr] by blast
    then have "v1 s = v s" using z s by (auto simp: tail_zeroed_def)
    moreover have "x \<in> set (take ?n xs)" by (subst sp(1)) (use x in simp)
    ultimately show ?thesis using same s by simp
  qed
  then have us: "file_bytes pvp v2 ?us = file_bytes pvp v ?us" by (rule file_bytes_cong)
  have "?c \<in> set (take ?n xs)" by (subst sp(1)) simp
  then have "clus_bytes pvp v2 ?c = clus_bytes pvp v1 ?c" by (intro clus_bytes_cong same)
  then have c: "clus_bytes pvp v2 ?c = take ?r (clus_bytes pvp v ?c) @ replicate (?b - ?r) 0"
    using z unfolding tail_zeroed_def Let_def by simp
  have lu: "length (file_bytes pvp v ?us) = (?n - 1) * ?b"
    using length_file_bytes [of pvp v ?us, OF g vl] len(2) by simp
  have lc: "length (clus_bytes pvp v ?c) = ?b" by (rule length_clus_bytes [OF g vl])
  have fx: "file_bytes pvp v xs = file_bytes pvp v ?us @ clus_bytes pvp v ?c @ file_bytes pvp v (drop ?n xs)"
    by (subst sp(2)) (simp add: file_bytes_append, simp add: file_bytes_def)
  have tk: "take len (file_bytes pvp v xs) = file_bytes pvp v ?us @ take ?r (clus_bytes pvp v ?c)"
  proof -
    have "take len (file_bytes pvp v xs) = take ((?n - 1) * ?b + ?r) (file_bytes pvp v xs)" using len_eq by simp
    also have "\<dots> = file_bytes pvp v ?us @ take ?r (clus_bytes pvp v ?c)" unfolding fx using lu lc rb by simp
    finally show ?thesis .
  qed
  have "?n * ?b - len = ?b - ?r"
  proof -
    have "?n * ?b = (?n - 1) * ?b + ?b" using n0 by (cases ?n) simp_all
    then show ?thesis using len_eq by linarith
  qed
  then show ?thesis unfolding tk sp(1) file_bytes_append us using c by (simp add: file_bytes_def)
qed

section \<open>The whole\<close>

lemma purge_count:
  assumes g: "geo_ok pvp" and "len \<le> n * vfs_bpcluster pvp" and "n < 0xffff"
  shows "drop_bit (vfs_cnshift pvp) (uadd32 len (vfs_crbomask pvp)) = nclus pvp len"
proof -
  note b = geo_bpc [OF g]
  have "n * vfs_bpcluster pvp \<le> 65535 * 32768" using assms(3) b(2) by (intro mult_le_mono) simp_all
  then have "len + vfs_crbomask pvp < 2 ^ 32" using assms(2) b(2,5) by simp
  moreover have "len + vfs_crbomask pvp = len + vfs_bpcluster pvp - 1" using b(1,5) by simp
  ultimately show ?thesis by (simp add: b(6) nclus_def)
qed

text \<open>From the purge of the cache on, with no read errors. \<open>v\<close> is the view, \<open>s\<close> the old start cluster.\<close>

definition truncated :: "('d \<Rightarrow> nat \<Rightarrow> u8 list) \<Rightarrow> ('d \<Rightarrow> nat set) \<Rightarrow> dosfs_vfs \<Rightarrow> 'd \<Rightarrow> denode \<Rightarrow> nat list \<Rightarrow> nat
    \<Rightarrow> 'd \<Rightarrow> dosfs_vfs \<Rightarrow> denode \<Rightarrow> bool" where
  "truncated view held pvp d dep xs len d' pvp' dep' \<longleftrightarrow>
     held d' = held d \<and> same_fs pvp pvp' \<and> vol_ok pvp' (view d') \<and> same_place dep dep'
     \<and> file_ok pvp' (view d') dep' (take (nclus pvp len) xs) \<and> de_FileSize dep' = len
     \<and> entry_at pvp (view d') (de_dirclust dep) (de_diroffset dep) = de_de dep'
     \<and> free_set pvp' (view d') = free_set pvp (view d) \<union> set (drop (nclus pvp len) xs)
     \<and> file_bytes pvp (view d') (take (nclus pvp len) xs)
         = take len (file_bytes pvp (view d) xs) @ replicate (nclus pvp len * vfs_bpcluster pvp - len) 0
     \<and> (\<forall>s. s \<notin> fatblks pvp \<and> s \<noteq> entry_sec pvp (de_dirclust dep) (de_diroffset dep)
           \<and> (\<forall>x \<in> set (take (nclus pvp len) xs). s \<notin> clus_secs pvp x) \<longrightarrow> view d' s = view d s)"

lemma entry_not_in_file:
  assumes g: "geo_ok pvp" and sl: "slot_ok pvp dc off" and x: "CLUST_FIRST \<le> x" "x \<le> vfs_maxcluster pvp" and ne: "x \<noteq> dc"
  shows "entry_sec pvp dc off \<notin> clus_secs pvp x"
proof (cases "dc = DOSFSROOT")
  case True
  then show ?thesis using entry_sec_data(3) [OF g sl] clus_data(2) [OF g x] by blast
next
  case False
  then have "CLUST_FIRST \<le> dc" "dc \<le> vfs_maxcluster pvp" using sl by (simp_all add: slot_ok_def)
  then show ?thesis using entry_sec_data(2) [OF g sl False] clus_disjoint [OF g x, of dc] ne by blast
qed

text \<open>The tail and the chain, for an empty and for a non-empty rest.\<close>

lemma tail_step:
  assumes ok: "bio_ok io view held" and g: "geo_ok pvp" and free: "held d = {}" and good: "\<forall>lb. lgeterror io lb = 0"
    and c: "0 < len \<longrightarrow> CLUST_FIRST \<le> c \<and> c \<le> vfs_maxcluster pvp"
  obtains d' where "trunc_tail io pvp d len c sync = Some (d', 0)" and "held d' = {}"
    and "len = 0 \<longrightarrow> view d' = view d" and "0 < len \<longrightarrow> tail_zeroed pvp len c (view d) (view d')"
    and "same_fat pvp (view d) (view d')"
proof (cases "len = 0")
  case True
  then show ?thesis using free by (intro that [of d]) (simp_all add: trunc_tail_def same_fat_def)
next
  case False
  then have len: "0 < len" and c': "CLUST_FIRST \<le> c" "c \<le> vfs_maxcluster pvp" using c by simp_all
  have fr: "clus_secs pvp c \<inter> held d = {}" using free by simp
  show ?thesis
  proof (cases rule: trunc_tail_ok [OF ok g c' fr len, where sync = sync, case_names err zeroed])
    case (err d' e)
    then show ?thesis using no_dev_err [OF good] by blast
  next
    case (zeroed d')
    have "same_fat pvp (view d) (view d')" unfolding same_fat_def
    proof
      fix s assume "s \<in> fatblks pvp"
      then have "s \<notin> clus_secs pvp c" using clus_data(1) [OF g c'] by blast
      then show "view d' s = view d s" using zeroed(2) by (simp add: tail_zeroed_def)
    qed
    then show ?thesis using zeroed False free by (intro that [of d']) simp_all
  qed
qed

lemma cut_step:
  assumes ok: "bio_ok io view held" and v: "vol_ok pvp (view d)" and free: "held d = {}" and g: "geo_ok pvp"
    and good: "\<forall>lb. lgeterror io lb = 0" and fa: "file_at pvp (view d) s xs" and bs: "set xs \<subseteq> busy pvp (view d)"
    and fc: "fc_ok dep (take (nclus pvp len) xs)" and n: "nclus pvp len \<le> length xs"
    and st: "if len = 0 then c = NO_CLUSTER \<and> ch = Some s \<and> de_StartCluster dep = 0
        else c = xs ! (nclus pvp len - 1) \<and> ch = None \<and> de_StartCluster dep = s"
  obtains d' pvp' dep' e where "trunc_cut io pvp d dep len c ch = Some (d', pvp', dep', 0, Some e)"
    and "held d' = {}" and "same_fs pvp pvp'" and "vol_ok pvp' (view d')" and "free_set pvp' (view d') = free_set pvp (view d)"
    and "\<forall>s. s \<notin> fatblks pvp \<longrightarrow> view d' s = view d s"
    and "file_ok pvp' (view d') dep' (take (nclus pvp len) xs)"
    and "same_place dep dep'" and "de_de dep' = de_de dep"
    and "chain (fat_at pvp (view d')) (vfs_maxcluster pvp) e (drop (nclus pvp len) xs)"
    and "drop (nclus pvp len) xs = [] \<longrightarrow> DOSFSEOF e"
proof (cases "len = 0")
  case True
  have "chain (fat_at pvp (view d)) (vfs_maxcluster pvp) s xs" "xs \<noteq> []" using fa by (simp_all add: file_at_def)
  then show ?thesis using True st v free fc nclus_0 [OF g]
    by (intro that [of d pvp dep s]) (simp_all add: trunc_cut_def file_ok_def)
next
  case False
  then have len: "0 < len" and c: "c = xs ! (nclus pvp len - 1)" "ch = None" "de_StartCluster dep = s" using st by simp_all
  have fr: "fatblks pvp \<inter> held d = {}" using free by simp
  have fa': "file_at pvp (view d) (de_StartCluster dep) xs" using fa c(3) by simp
  obtain d' pvp' dep' e where r: "trunc_cut io pvp d dep len c ch = Some (d', pvp', dep', 0, Some e)"
    "held d' = held d" "same_fs pvp pvp'" "vol_ok pvp' (view d')" "free_set pvp' (view d') = free_set pvp (view d)"
    "\<forall>s. s \<notin> fatblks pvp \<longrightarrow> view d' s = view d s"
    "file_at pvp (view d') (de_StartCluster dep) (take (nclus pvp len) xs)" "fc_ok dep' (take (nclus pvp len) xs)"
    "same_place dep dep'" "de_de dep' = de_de dep" "de_flag dep' = de_flag dep"
    "chain (fat_at pvp (view d')) (vfs_maxcluster pvp) e (drop (nclus pvp len) xs)"
    "drop (nclus pvp len) xs = [] \<longrightarrow> DOSFSEOF e"
    unfolding c(1,2) by (rule trunc_cut_ok [OF ok v fr g good fa' bs fc len n])
  have ne: "take (nclus pvp len) xs \<noteq> []" using r(7) by (simp add: file_at_def)
  have "set (take (nclus pvp len) xs) \<subseteq> busy pvp' (view d')"
    using bs set_take_subset [of "nclus pvp len" xs] r(5) same_fs_geo [OF r(3)] by (auto simp: busy_def)
  then have "file_ok pvp' (view d') dep' (take (nclus pvp len) xs)"
    using r(7,8,10) ne by (simp add: file_ok_def same_fs_file(1) [OF r(3)])
  then show ?thesis using r free by (intro that [of d' pvp' dep' e]) simp_all
qed

lemma free_step:
  assumes ok: "bio_ok io view held" and v: "vol_ok pvp (view d)" and free: "held d = {}" and good: "\<forall>lb. lgeterror io lb = 0"
    and ch: "chain (fat_at pvp (view d)) (vfs_maxcluster pvp) c ys" and e: "ys = [] \<longrightarrow> DOSFSEOF c"
    and bs: "set ys \<subseteq> busy pvp (view d)" and fl: "file_ok pvp (view d) dep zs" and dis: "set zs \<inter> set ys = {}"
  obtains d' pvp' where "trunc_free io pvp d c = Some (d', pvp')" and "held d' = {}" and "same_fs pvp pvp'"
    and "vol_ok pvp' (view d')" and "free_set pvp' (view d') = free_set pvp (view d) \<union> set ys"
    and "file_ok pvp' (view d') dep zs" and "\<forall>s. s \<notin> fatblks pvp \<longrightarrow> view d' s = view d s"
proof -
  have fr: "fatblks pvp \<inter> held d = {}" using free by simp
  obtain d' pvp' where r: "trunc_free io pvp d c = Some (d', pvp')" "held d' = held d" "same_fs pvp pvp'"
    "vol_ok pvp' (view d')" "free_set pvp' (view d') = free_set pvp (view d) \<union> set ys"
    "\<forall>x \<le> vfs_maxcluster pvp. x \<notin> set ys \<longrightarrow> fat_at pvp (view d') x = fat_at pvp (view d) x"
    "\<forall>s. s \<notin> fatblks pvp \<longrightarrow> view d' s = view d s"
    by (rule trunc_free_ok [OF ok v fr good ch e bs])
  have zb: "set zs \<subseteq> busy pvp (view d)" using fl by (simp add: file_ok_def)
  have same: "fat_at pvp (view d') x = fat_at pvp (view d) x" if "x \<in> set zs" for x
  proof -
    have "x \<le> vfs_maxcluster pvp" using that zb by (auto simp: busy_def)
    moreover have "x \<notin> set ys" using that dis by blast
    ultimately show ?thesis using r(6) by blast
  qed
  have "set zs \<subseteq> busy pvp' (view d')" using zb dis r(5) same_fs_geo [OF r(3)] by (auto simp: busy_def)
  moreover have "file_at pvp' (view d') t zs" if "file_at pvp (view d) t zs" for t
    using that chain_cong [of zs "fat_at pvp (view d')" "fat_at pvp (view d)", OF same] same
    by (auto simp: file_at_def same_fs_geo [OF r(3)])
  ultimately have "file_ok pvp' (view d') dep zs" using fl by (auto simp: file_ok_def)
  then show ?thesis using r free by (intro that [of d' pvp']) simp_all
qed

lemma trunc_rest_ok:
  assumes ok: "bio_ok io view held" and good: "\<forall>lb. lgeterror io lb = 0" and v: "vol_ok pvp (view d)" and g: "geo_ok pvp"
    and free: "held d = {}" and fa: "file_at pvp (view d) s xs" and bs: "set xs \<subseteq> busy pvp (view d)" and fc: "fc_ok dep xs"
    and sl: "slot_ok pvp (de_dirclust dep) (de_diroffset dep)" and dc: "de_dirclust dep \<notin> set xs"
    and wf: "direntry_wf (de_de dep)" and up: "\<not> ronly" "\<not> de_vroot dep" and len: "len \<le> length xs * vfs_bpcluster pvp"
    and st: "if len = 0 then c = NO_CLUSTER \<and> ch = Some s \<and> de_StartCluster dep = 0
        else c = xs ! (nclus pvp len - 1) \<and> ch = None \<and> de_StartCluster dep = s"
  shows "\<exists>d' pvp' cv' dep' e. trunc_rest io ronly now pvp d cv dep len sync c ch = Some (d', pvp', cv', dep', e)
    \<and> truncated view held pvp d dep xs len d' pvp' dep'"
proof -
  let ?n = "nclus pvp len"
  let ?dep1 = "fc_purge dep ?n"
  let ?dep2 = "?dep1\<lparr>de_de := (de_de dep)\<lparr>deFileSize := of_nat len\<rparr>, de_flag := de_flag dep OR DEUPD\<rparr>"
  let ?dc = "de_dirclust dep" and ?off = "de_diroffset dep"
  have m: "mount_ok pvp" using v by (simp add: vol_ok_def)
  have chx: "chain (fat_at pvp (view d)) (vfs_maxcluster pvp) s xs" and lx: "length xs < 0xffff" using fa by (simp_all add: file_at_def)
  have n: "?n \<le> length xs" by (rule nclus_le [OF g len])
  have rng: "set xs \<subseteq> {CLUST_FIRST..vfs_maxcluster pvp}" by (rule chain_range [OF chx])
  have dx: "distinct xs" by (rule chain_distinct [OF chx])
  have cr: "0 < len \<longrightarrow> CLUST_FIRST \<le> c \<and> c \<le> vfs_maxcluster pvp"
  proof
    assume l: "0 < len"
    then have "c = xs ! (?n - 1)" "?n - 1 < length xs" using st n by (simp_all add: nclus_pos [OF g])
    then have "c \<in> set xs" by simp
    then show "CLUST_FIRST \<le> c \<and> c \<le> vfs_maxcluster pvp" using rng by auto
  qed
  have pc: "drop_bit (vfs_cnshift pvp) (uadd32 len (vfs_crbomask pvp)) = ?n" by (rule purge_count [OF g len lx])
  have fc1: "fc_ok ?dep1 (take ?n xs)" by (rule fc_purge_ok [OF fc lx])
  obtain d1 where t: "trunc_tail io pvp d len c sync = Some (d1, 0)" "held d1 = {}" "len = 0 \<longrightarrow> view d1 = view d"
      "0 < len \<longrightarrow> tail_zeroed pvp len c (view d) (view d1)" "same_fat pvp (view d) (view d1)"
    by (rule tail_step [OF ok g free good cr])
  have fld: "de_dirclust ?dep2 = ?dc" "de_diroffset ?dep2 = ?off" "de_vroot ?dep2 = de_vroot dep"
      "direntry_wf (de_de ?dep2) = direntry_wf (de_de dep)"
    by (simp_all add: fc_purge_def direntry_wf_def)
  have flag: "de_flag ?dep2 AND (DEUPD OR DEMOD) \<noteq> 0"
  proof -
    have "bit (de_flag ?dep2) 3" "bit (DEUPD OR DEMOD) 3" by (simp_all add: bit_or_iff DEUPD_def)
    then show ?thesis by (rule and_mask_hit)
  qed
  have sl2: "slot_ok pvp (de_dirclust ?dep2) (de_diroffset ?dep2)" unfolding fld by (rule sl)
  have fr2: "entry_blks pvp (de_dirclust ?dep2) (de_diroffset ?dep2) \<inter> held d1 = {}" using t(2) by simp
  have wf2: "direntry_wf (de_de ?dep2)" unfolding fld by (rule wf)
  have vr2: "\<not> de_vroot ?dep2" unfolding fld by (rule up(2))
  obtain d2 al where u: "deupdat io ronly pvp d1 cv ?dep2 now True = Some (d2, fst (unix2dostime cv now), stamped cv now ?dep2, al)"
      "view d2 = entry_put pvp (view d1) ?dc ?off (de_de (stamped cv now ?dep2))" "held d2 = {}"
  proof (cases rule: deupdat_ok [OF ok m g sl2 fr2 wf2 flag up(1) vr2, where wait = True and cv = cv and tp = now, case_names err written])
    case (err d' e)
    then show ?thesis using no_dev_err [OF good] by blast
  next
    case (written d' e)
    then show ?thesis using t(2) by (intro that [of d' e]) (simp_all add: fld)
  qed
  let ?dep3 = "stamped cv now ?dep2"
  have sf2: "same_fat pvp (view d) (view d2)"
    using t(5) entry_put_fat [OF g sl, of "view d1"] unfolding u(2) same_fat_def by simp
  have v2: "vol_ok pvp (view d2)" by (rule same_fat_vol [OF v sf2])
  have fa2: "file_at pvp (view d2) s xs" by (rule same_fat_file_at [OF m sf2 fa])
  have bs2: "set xs \<subseteq> busy pvp (view d2)" using bs by (simp add: same_fat_free [OF m sf2])
  have fc3: "fc_ok ?dep3 (take ?n xs)" using fc1 by (simp add: fc_ok_def)
  have st3: "if len = 0 then c = NO_CLUSTER \<and> ch = Some s \<and> de_StartCluster ?dep3 = 0
        else c = xs ! (nclus pvp len - 1) \<and> ch = None \<and> de_StartCluster ?dep3 = s" using st by simp
  obtain d3 q3 dep4 e where k: "trunc_cut io pvp d2 ?dep3 len c ch = Some (d3, q3, dep4, 0, Some e)" "held d3 = {}" "same_fs pvp q3"
    "vol_ok q3 (view d3)" "free_set q3 (view d3) = free_set pvp (view d2)" "\<forall>s. s \<notin> fatblks pvp \<longrightarrow> view d3 s = view d2 s"
    "file_ok q3 (view d3) dep4 (take ?n xs)" "same_place ?dep3 dep4" "de_de dep4 = de_de ?dep3"
    "chain (fat_at pvp (view d3)) (vfs_maxcluster pvp) e (drop ?n xs)" "drop ?n xs = [] \<longrightarrow> DOSFSEOF e"
    by (rule cut_step [OF ok v2 u(3) g good fa2 bs2 fc3 n st3])
  note geo3 = same_fs_geo [OF k(3)]
  have ch3: "chain (fat_at q3 (view d3)) (vfs_maxcluster q3) e (drop ?n xs)" using k(10) by (simp add: geo3)
  have bs3: "set (drop ?n xs) \<subseteq> busy q3 (view d3)"
    using bs2 set_drop_subset [of ?n xs] k(5) by (auto simp: busy_def geo3)
  obtain d4 q4 where w: "trunc_free io q3 d3 e = Some (d4, q4)" "held d4 = {}" "same_fs q3 q4" "vol_ok q4 (view d4)"
    "free_set q4 (view d4) = free_set q3 (view d3) \<union> set (drop ?n xs)" "file_ok q4 (view d4) dep4 (take ?n xs)"
    "\<forall>s. s \<notin> fatblks q3 \<longrightarrow> view d4 s = view d3 s"
    by (rule free_step [OF ok k(4,2) good ch3 k(11) bs3 k(7) set_take_drop [OF dx]])
  have run: "trunc_rest io ronly now pvp d cv dep len sync c ch = Some (d4, q4, fst (unix2dostime cv now), dep4, al)"
    by (simp add: trunc_rest_def pc t(1) u(1) k(1) w(1) Let_def)
  have out: "view d4 s = view d2 s" if "s \<notin> fatblks pvp" for s using w(7) k(6) that by (simp add: geo3)
  have d2s: "view d2 s = view d1 s" if "s \<noteq> entry_sec pvp ?dc ?off" for s unfolding u(2) by (rule entry_put_other [OF that])
  have sz: "de_FileSize dep4 = len"
  proof -
    have "length xs * vfs_bpcluster pvp \<le> 65535 * 32768" using lx geo_bpc(2) [OF g] by (intro mult_le_mono) simp_all
    then have "len < 2 ^ 32" using len by simp
    then show ?thesis by (simp add: k(9) unat_of_nat)
  qed
  have ent: "entry_at pvp (view d4) ?dc ?off = de_de dep4"
  proof -
    have "entry_at pvp (view d4) ?dc ?off = entry_at pvp (view d2) ?dc ?off"
      by (rule entry_at_cong, rule out, rule entry_sec_data(1) [OF g sl])
    also have "\<dots> = de_de ?dep3"
      unfolding u(2) by (rule entry_at_put) (use view_length [OF ok] wf2 in simp_all)
    finally show ?thesis by (simp add: k(9))
  qed
  have rest: "view d4 s = view d s" if a: "s \<notin> fatblks pvp" "s \<noteq> entry_sec pvp ?dc ?off"
      "\<forall>x \<in> set (take ?n xs). s \<notin> clus_secs pvp x" for s
  proof (cases "len = 0")
    case True
    then show ?thesis using out [OF a(1)] d2s [OF a(2)] t(3) by simp
  next
    case False
    then have p: "0 < ?n" by (simp add: nclus_pos [OF g])
    have "c \<in> set (take ?n xs)" using st False by (subst split_at_cut(1) [OF p n]) simp
    then show ?thesis using out [OF a(1)] d2s [OF a(2)] t(4) a(3) False by (simp add: tail_zeroed_def)
  qed
  have bytes: "file_bytes pvp (view d4) (take ?n xs) = take len (file_bytes pvp (view d) xs) @ replicate (?n * vfs_bpcluster pvp - len) 0"
  proof (cases "len = 0")
    case True
    then show ?thesis using nclus_0 [OF g] by (simp add: file_bytes_def)
  next
    case False
    then have l: "0 < len" by simp
    have z: "tail_zeroed pvp len (xs ! (?n - 1)) (view d) (view d1)" using t(4) l st by simp
    show ?thesis
    proof (rule trunc_bytes [OF g view_length [OF ok] l n dx rng z])
      fix x s assume x: "x \<in> set (take ?n xs)" and s: "s \<in> clus_secs pvp x"
      have xx: "x \<in> set xs" by (rule in_set_takeD [OF x])
      then have xr: "CLUST_FIRST \<le> x" "x \<le> vfs_maxcluster pvp" using rng by auto
      have "x \<noteq> ?dc" using xx dc by blast
      then have "entry_sec pvp ?dc ?off \<notin> clus_secs pvp x" by (rule entry_not_in_file [OF g sl xr])
      then have "s \<noteq> entry_sec pvp ?dc ?off" using s by blast
      moreover have "s \<notin> fatblks pvp" using clus_data(1) [OF g xr] s by blast
      ultimately show "view d4 s = view d1 s" using out d2s by simp
    qed
  qed
  have "same_place dep ?dep2" by (simp add: same_place_def direntry_wf_def)
  then have "same_place dep ?dep3" by (simp only: same_place_fc)
  then have sp: "same_place dep dep4" using k(8) by (rule same_place_trans)
  have "truncated view held pvp d dep xs len d4 q4 dep4"
    unfolding truncated_def
  proof (intro conjI)
    show "held d4 = held d" by (simp only: w(2) free)
    show "same_fs pvp q4" by (rule same_fs_trans [OF k(3) w(3)])
    show "free_set q4 (view d4) = free_set pvp (view d) \<union> set (drop ?n xs)"
      by (simp add: w(5) k(5) same_fat_free [OF m sf2])
  qed (use w(4,6) sp sz ent bytes rest in auto)
  with run show ?thesis by blast
qed

section \<open>Property\<close>

text \<open>C24: Truncation is taking a prefix. On a device without read errors, cutting a file (or a
  subdirectory, whose size is that of its clusters) to a smaller length keeps just the clusters the length
  needs and frees all the others; the bytes of the file are the old ones up to the length, and zero from
  there to the end of the last cluster; the directory entry on the disk is that of the file in memory, with
  the new length; the volume stays consistent, no buffer stays locked, and no sector changes but those of
  the tables, of the entry and of the clusters that stay. (Nothing is said of the number returned: it can be that of a failed write.)\<close>

theorem detrunc_shortens:
  assumes ok: "bio_ok io view held" and good: "\<forall>lb. lgeterror io lb = 0" and v: "vol_ok pvp (view d)" and g: "geo_ok pvp"
    and free: "held d = {}" and fl: "file_ok pvp (view d) dep xs"
    and sl: "slot_ok pvp (de_dirclust dep) (de_diroffset dep)" and dc: "de_dirclust dep \<notin> set xs"
    and wf: "direntry_wf (de_de dep)" and up: "\<not> ronly" "\<not> de_vroot dep"
    and size: "trunc_len pvp dep xs \<le> length xs * vfs_bpcluster pvp" and len: "len < trunc_len pvp dep xs"
  shows "\<exists>d' pvp' cv' dep' e. detrunc io ronly now pvp d cv dep len sync = Some (d', pvp', cv', dep', e)
    \<and> held d' = {} \<and> vol_ok pvp' (view d') \<and> file_ok pvp' (view d') dep' (take (nclus pvp len) xs) \<and> de_FileSize dep' = len
    \<and> free_set pvp' (view d') = free_set pvp (view d) \<union> set (drop (nclus pvp len) xs)
    \<and> file_bytes pvp (view d') (take (nclus pvp len) xs)
        = take len (file_bytes pvp (view d) xs) @ replicate (nclus pvp len * vfs_bpcluster pvp - len) 0
    \<and> entry_at pvp (view d') (de_dirclust dep) (de_diroffset dep) = de_de dep'
    \<and> (\<forall>s. s \<notin> fatblks pvp \<and> s \<noteq> entry_sec pvp (de_dirclust dep) (de_diroffset dep)
          \<and> (\<forall>x \<in> set (take (nclus pvp len) xs). s \<notin> clus_secs pvp x) \<longrightarrow> view d' s = view d s)"
proof -
  have m: "mount_ok pvp" using v by (simp add: vol_ok_def)
  have fr: "fatblks pvp \<inter> held d = {}" using free by simp
  have lx: "len < length xs * vfs_bpcluster pvp" using size len by simp
  then have ne: "xs \<noteq> []" by auto
  have xl: "length xs < 0xffff" using fl ne by (simp add: file_ok_def file_at_def)
  have noe: "\<forall>lb. lgeterror io lb \<noteq> E2BIG" using good by (simp add: E2BIG_def)
  obtain d1 dep1 where s: "trunc_size io pvp d dep = Some (d1, dep1, None)" "view d1 = view d" "held d1 = {}"
      "file_ok pvp (view d) dep1 xs" "same_place dep dep1" "deStartCluster (de_de dep1) = deStartCluster (de_de dep)"
      "de_FileSize dep1 = trunc_len pvp dep xs"
  proof (cases rule: trunc_size_ok [OF ok m fr g fl xl ne noe, case_names err sized])
    case (err d' e)
    then show ?thesis using no_dev_err [OF good] by blast
  next
    case (sized d' dep')
    then show ?thesis using free by (intro that [of d' dep']) simp_all
  qed
  have pl: "de_dirclust dep1 = de_dirclust dep" "de_diroffset dep1 = de_diroffset dep" "de_vroot dep1 = de_vroot dep"
      "direntry_wf (de_de dep1)" using s(5) wf by (simp_all add: same_place_def)
  have fa: "file_at pvp (view d1) (de_StartCluster dep) xs" and bs: "set xs \<subseteq> busy pvp (view d1)"
    using s(2,4,6) ne by (simp_all add: file_ok_def)
  have fr1: "fatblks pvp \<inter> held d1 = {}" using s(3) by simp
  have fl1: "file_ok pvp (view d1) dep1 xs" using s(2,4) by simp
  obtain d2 dep2 c ch where p: "trunc_point io pvp d1 dep1 len = Some (d2, dep2, 0, Some c, ch)" "view d2 = view d" "held d2 = {}"
      "fc_ok dep2 xs" "same_place dep dep2"
      "if len = 0 then c = NO_CLUSTER \<and> ch = Some (de_StartCluster dep) \<and> de_StartCluster dep2 = 0
        else c = xs ! (nclus pvp len - 1) \<and> ch = None \<and> de_StartCluster dep2 = de_StartCluster dep"
  proof (cases "len = 0")
    case True
    have "fc_ok (dep1\<lparr>de_de := (de_de dep1)\<lparr>deStartCluster := 0\<rparr>\<rparr>) xs" using s(4) by (simp add: file_ok_def fc_ok_def)
    moreover have "same_place dep1 (dep1\<lparr>de_de := (de_de dep1)\<lparr>deStartCluster := 0\<rparr>\<rparr>)"
      by (simp add: same_place_def direntry_wf_def)
    with s(5) have "same_place dep (dep1\<lparr>de_de := (de_de dep1)\<lparr>deStartCluster := 0\<rparr>\<rparr>)" by (rule same_place_trans)
    ultimately show ?thesis using True s
      by (intro that [of d1 "dep1\<lparr>de_de := (de_de dep1)\<lparr>deStartCluster := 0\<rparr>\<rparr>" NO_CLUSTER "Some (de_StartCluster dep)"])
        (simp_all add: trunc_point_def)
  next
    case False
    have l0: "0 < len" and ll: "len \<le> length xs * vfs_bpcluster pvp" using False lx by simp_all
    show ?thesis
    proof (cases rule: trunc_point_ok [OF ok m fr1 g fl1 ne l0 ll, case_names err found])
      case (err d' e)
      then show ?thesis using no_dev_err [OF good] by blast
    next
      case (found d' dep')
      then show ?thesis using s False
        by (intro that [of d' dep' "xs ! (nclus pvp len - 1)" None]) (auto intro: same_place_trans)
    qed
  qed
  have pl2: "de_dirclust dep2 = de_dirclust dep" "de_diroffset dep2 = de_diroffset dep" "de_vroot dep2 = de_vroot dep"
      "direntry_wf (de_de dep2)" using p(5) wf by (simp_all add: same_place_def)
  have "\<exists>d' pvp' cv' dep' e. trunc_rest io ronly now pvp d2 cv dep2 len sync c ch = Some (d', pvp', cv', dep', e)
    \<and> truncated view held pvp d2 dep2 xs len d' pvp' dep'"
    by (rule trunc_rest_ok [OF ok good _ g p(3) _ _ p(4) _ _ pl2(4) up(1) _ _ p(6)])
      (use v p(2) s(2) fa bs sl dc up(2) lx pl2 in simp_all)
  then obtain d' pvp' cv' dep' e where r: "trunc_rest io ronly now pvp d2 cv dep2 len sync c ch = Some (d', pvp', cv', dep', e)"
      "truncated view held pvp d2 dep2 xs len d' pvp' dep'" by (elim exE conjE) (rule that)
  have big: "\<not> de_FileSize dep1 \<le> len" using len s(7) by simp
  have run: "detrunc io ronly now pvp d cv dep len sync = Some (d', pvp', cv', dep', e)"
    by (simp add: detrunc_def up(2) s(1) p(1) r(1) if_not_P [OF big])
  show ?thesis
    by (intro exI conjI, rule run) (use r(2) p(2,3) pl2 in \<open>auto simp: truncated_def\<close>)
qed

text \<open>A file of one cluster and 1000 bytes, its entry the first of the root directory.\<close>

lemma geo_ok_geo: "same_fs p q \<Longrightarrow> geo_ok q = geo_ok p"
  unfolding same_fs_def by (erule ssubst) (simp add: geo_ok_def)

lemma demo_geo: "geo_ok demo_fs"
  by (simp add: geo_ok_def demo_fs_def DEV_BSIZE_def DIRENTSZ_def MAXCLUSTBLOCKS_def)

definition demo_open :: denode where
  "demo_open = (demo_file 2)\<lparr>de_de := \<lparr>deName = replicate 8 0x41, deExtension = replicate 3 0x42, deAttributes = 0,
     deReserved = replicate 10 0, deTime = 0, deDate = 33, deStartCluster = 2, deFileSize = 1000\<rparr>\<rparr>"

lemma demo_one_file:
  obtains d pvp where "vol_ok pvp (ram_view d)" and "geo_ok pvp" and "ram_heldset d = {}"
    and "file_ok pvp (ram_view d) demo_open [2]" and "same_fs demo_fs pvp"
    and "free_set pvp (ram_view d) = {3..400}" and "\<forall>s. s \<notin> fatblks demo_fs \<longrightarrow> ram_view d s = ram_view demo_dev s"
proof -
  have m: "2 = Min {2..400::nat}" by (rule Min_eqI [symmetric]) auto
  have c: "2 = Min (free_set demo_fs (ram_view demo_dev))" unfolding demo_free_set by (rule m)
  have fl: "file_ok demo_fs (ram_view demo_dev) (demo_file 0) []"
    using demo_file_fc [of 0 "[]"] by (simp add: file_ok_def demo_file_def)
  have g: "\<forall>lb. lgeterror good_io lb = 0" by (simp add: good_err)
  have r: "length ([] :: nat list) + 1 < 0xffff" "\<not> de_vroot (demo_file 0)" "free_set demo_fs (ram_view demo_dev) \<noteq> {} \<and> FAT12 demo_fs \<longrightarrow> 2 < (4080::nat)"
    "free_set demo_fs (ram_view demo_dev) \<noteq> {} \<and> False \<longrightarrow> vfs_bpcluster demo_fs = 0 * DEV_BSIZE \<and> 0 \<le> MAXCLUSTBLOCKS
        \<and> {cntobn demo_fs 2..<cntobn demo_fs 2 + 0} \<inter> ram_heldset demo_dev = {}"
    by (simp_all add: demo_file_def)
  have ne: "free_set demo_fs (ram_view demo_dev) \<noteq> {}" by (simp add: demo_free_set)
  obtain d pvp dep where e: "vol_ok pvp (ram_view d)" "same_fs demo_fs pvp" "file_ok pvp (ram_view d) dep ([] @ [2])"
      "ram_heldset d = ram_heldset demo_dev" "free_set pvp (ram_view d) = free_set demo_fs (ram_view demo_dev) - {2}"
      "\<forall>s. s \<notin> fatblks demo_fs \<longrightarrow> ram_view d s = ram_view demo_dev s"
    using extendfile_ok [OF good_io_ok demo_vol demo_free g fl r(1,2) c r(3,4), of False] unfolding if_P [OF ne] if_not_P [OF ne] if_False by (elim exE conjE) (rule that; assumption)
  have s: "de_StartCluster demo_open = 2" by (simp add: demo_open_def)
  have "file_at pvp (ram_view d) (de_StartCluster dep) [2]" and b: "set [2] \<subseteq> busy pvp (ram_view d)"
    using e(3) by (simp_all add: file_ok_def)
  then have "file_at pvp (ram_view d) 2 [2]" by (auto simp: file_at_def)
  moreover have "fc_ok demo_open [2]" using demo_file_fc [of 2 "[2]"] by (simp add: demo_open_def fc_ok_def)
  ultimately have fl: "file_ok pvp (ram_view d) demo_open [2]" using b s by (simp add: file_ok_def)
  have h: "ram_heldset d = {}" using e(4) by (simp add: ram_heldset_def demo_dev_def)
  have fs: "free_set pvp (ram_view d) = {3..400}"
    unfolding e(5) demo_free_set by (intro set_eqI, simp only: Diff_iff atLeastAtMost_iff singleton_iff) arith
  have gp: "geo_ok pvp" using geo_ok_geo [OF e(2)] demo_geo by simp
  show ?thesis by (rule that [OF e(1) gp h fl e(2) fs e(6)])
qed

lemma demo_open_ok:
  assumes "same_fs demo_fs pvp"
  shows "slot_ok pvp (de_dirclust demo_open) (de_diroffset demo_open)" and "de_dirclust demo_open \<notin> set [2]"
    and "direntry_wf (de_de demo_open)" and "\<not> de_vroot demo_open"
    and "trunc_len pvp demo_open [2] \<le> length [2::nat] * vfs_bpcluster pvp" and "10 < trunc_len pvp demo_open [2]"
  using same_fs_file(4) [OF assms]
  by (simp_all add: slot_ok_def demo_open_def demo_file_def direntry_wf_def trunc_len_def ATTR_DIRECTORY_def demo_fs_def DOSFSROOT_def
      same_fs_fields [OF assms])

theorem detrunc_shortens_witness:
  "\<exists>d pvp d' pvp' cv' dep' e. detrunc good_io False 0 pvp d conv_init demo_open 10 False = Some (d', pvp', cv', dep', e)
    \<and> file_ok pvp' (ram_view d') dep' [2] \<and> de_FileSize dep' = 10"
proof -
  obtain d pvp where e: "vol_ok pvp (ram_view d)" "geo_ok pvp" "ram_heldset d = {}"
      "file_ok pvp (ram_view d) demo_open [2]" "same_fs demo_fs pvp" by (rule demo_one_file)
  note o = demo_open_ok [OF e(5)]
  have g: "\<forall>lb. lgeterror good_io lb = 0" by (simp add: good_err)
  have n: "nclus pvp 10 = 1" using same_fs_file(4) [OF e(5)] by (simp add: nclus_def demo_fs_def)
  have nr: "\<not> False" by simp
  from detrunc_shortens [OF good_io_ok g e(1-4) o(1-3) nr o(4-6), of 0 conv_init False] show ?thesis
    unfolding n by (elim exE conjE, intro exI conjI) simp_all
qed

end
