(* ===== verification/DirOps.thy ===== *)
theory DirOps
  imports DirMap TruncProps
begin

text \<open>
  What the operations on a directory do to the device and to its list of entries: the new entry in a free
  slot, the new entry in a new cluster, the removal of an entry, the test for emptiness.
\<close>

section \<open>Volumes that agree on the layout\<close>

lemma same_fs_dir:
  assumes "same_fs p q"
  shows "clus_secs q = clus_secs p" and "entry_at q = entry_at p" and "dir_list q = dir_list p" and "slot_ok q = slot_ok p"
proof -
  note s = same_fs_fields [OF assms] same_fs_geo [OF assms] same_fs_file [OF assms]
  show c: "clus_secs q = clus_secs p" by (intro ext) (simp add: clus_secs_def s)
  show e: "entry_at q = entry_at p" by (intro ext) (simp add: entry_at_def slot_base_def s)
  have "clus_entries q = clus_entries p" by (intro ext) (simp add: clus_entries_def e s)
  then show "dir_list q = dir_list p" by (intro ext) (simp add: dir_list_def)
  show "slot_ok q = slot_ok p" by (intro ext) (simp add: slot_ok_def s)
qed

lemma file_ok_de:
  "file_ok pvp v (dp\<lparr>de_frcluster := a, de_froffset := b\<rparr>) xs = file_ok pvp v dp xs"
  by (simp add: file_ok_def fc_ok_def)

section \<open>A new entry in a free slot\<close>

lemma createde_slot_ok:
  assumes ok: "bio_ok io view held" and m: "mount_ok pvp" and g: "geo_ok pvp"
    and s: "slot_ok pvp (de_frcluster ddep) (de_froffset ddep)"
    and fr: "entry_blks pvp (de_frcluster ddep) (de_froffset ddep) \<inter> held d = {}"
    and wf: "direntry_wf (de_de dep)" and sp: "de_frspace ddep \<noteq> 0"
  obtains (err) d' e where "createde io pvp d dep ddep = Some (d', pvp, ddep, e)" and "dev_err io e"
      and "view d' = view d" and "held d' = held d"
  | (written) d' e where "createde io pvp d dep ddep = Some (d', pvp, ddep, e)"
      and "view d' = entry_put pvp (view d) (de_frcluster ddep) (de_froffset ddep) (de_de dep)" and "held d' = held d"
proof -
  let ?e = "de_de dep"
  obtain b k d1 lb where r: "de_slot pvp (de_frcluster ddep) (de_froffset ddep) = Some (b, k)"
      "lbread io d b (vfs_bpcluster pvp) = Some (d1, lb)"
      "lbuf_at lb b (spc pvp)" "{b..<b + spc pvp} \<subseteq> held d1" "{b..<b + spc pvp} \<inter> held d = {}"
      "view d1 = view d" "held d1 = held d \<union> {b..<b + spc pvp}"
      "view (lbrelse io d1 lb) = view d" "held (lbrelse io d1 lb) = held d"
      "DIRENTSZ * k + DIRENTSZ \<le> length (lb_addr lb)"
      "lgeterror io lb = 0 \<longrightarrow> (\<forall>e. direntry_wf e \<longrightarrow> length (dirents.put_slot (lb_addr lb) k e) = spc pvp * DEV_BSIZE
        \<and> stored (view d) b (spc pvp) (dirents.put_slot (lb_addr lb) k e)
          = entry_put pvp (view d) (de_frcluster ddep) (de_froffset ddep) e)"
    by (rule entry_read [OF ok m g s fr])
  show ?thesis
  proof (cases "lgeterror io lb = 0")
    case False
    show ?thesis
      by (rule err [of "lbrelse io d1 lb" "lgeterror io lb"]) (use r False sp in \<open>simp_all add: createde_def\<close>)
  next
    case True
    let ?lb = "lb\<lparr>lb_addr := dirents.put_slot (lb_addr lb) k ?e\<rparr>"
    have st: "length (dirents.put_slot (lb_addr lb) k ?e) = spc pvp * DEV_BSIZE"
        "stored (view d) b (spc pvp) (dirents.put_slot (lb_addr lb) k ?e)
          = entry_put pvp (view d) (de_frcluster ddep) (de_froffset ddep) ?e"
      using r(11) True wf by simp_all
    have at: "lbuf_at ?lb b (spc pvp)" by (rule lbuf_at_addr [OF r(3) st(1)])
    note w = lb_write_ok [OF ok at r(4)]
    have h: "held d1 - {b..<b + spc pvp} = held d" using r(5,7) by auto
    have fst: "fst (lbwritewait io d1 ?lb) = lbwrite io d1 ?lb"
      unfolding lbwritewait_first Let_def fst_conv lbwrite_def ..
    have run: "createde io pvp d dep ddep = Some (lbwrite io d1 ?lb, pvp, ddep, snd (lbwritewait io d1 ?lb))"
      using r(1,2) True dirent_put_slot [OF r(10)] sp fst by (simp add: createde_def case_prod_beta Let_def)
    show ?thesis by (rule written [OF run]) (use w(1,2) st(2) h r(6) in simp_all)
  qed
qed

section \<open>A new entry in a new cluster\<close>

definition blank_entry :: direntry where "blank_entry = direntry_of (replicate DIRENTSZ 0)"

lemma blank_name0: "name0 blank_entry = SLOT_EMPTY"
  by (simp add: blank_entry_def name0_def direntry_of_def DIRENTSZ_def SLOT_EMPTY_def)

lemma zero_slot: "DIRENTSZ * k + DIRENTSZ \<le> n \<Longrightarrow> dirents.slot (replicate n 0) k = blank_entry"
  by (simp add: dirents.slot_def blank_entry_def min_def)

lemma new_cluster_entries:
  assumes g: "geo_ok pvp" and len: "\<And>s. length (v s) = DEV_BSIZE" and wf: "direntry_wf e"
    and c: "CLUST_FIRST \<le> c" and pos: "0 < spc pvp"
    and v': "v' = stored v (cntobn pvp c) (spc pvp) (dirents.put_slot (replicate (spc pvp * DEV_BSIZE) 0) 0 e)"
  shows "clus_entries pvp v' c = (c, 0, e) # map (\<lambda>j. (c, j, blank_entry)) [1..<vfs_depclust pvp]"
proof -
  let ?b = "cntobn pvp c" and ?n = "spc pvp"
  let ?z = "replicate (?n * DEV_BSIZE) (0 :: u8)"
  have fit: "DIRENTSZ * k + DIRENTSZ \<le> length ?z" if "k < 16 * ?n" for k
    using slot_in [OF that] by (simp add: DIRENTSZ_def DEV_BSIZE_def)
  have l: "length (dirents.put_slot ?z 0 e) = ?n * DEV_BSIZE"
    using dirents.length_put_slot [OF wf fit [of 0]] pos by simp
  have len': "length (v' s) = DEV_BSIZE" for s
    using slot_in [of "16 * (s - ?b)" ?n] len l unfolding v' stored_def by (auto simp: DEV_BSIZE_def)
  have nz: "c \<noteq> DOSFSROOT" using c by (simp add: CLUST_FIRST_def DOSFSROOT_def)
  have e: "entry_at pvp v' c k = (if k = 0 then e else blank_entry)" if k: "k < 16 * ?n" for k
  proof -
    have f0: "DIRENTSZ * 0 + DIRENTSZ \<le> length ?z" using fit [of 0] pos by simp
    have "entry_at pvp v' c k = dirents.slot (dirents.put_slot ?z 0 e) k"
      using cluster_slot [where v = v' and b = ?b, OF len' k, symmetric] stored_concat [OF l, of v ?b] nz
      by (simp add: entry_at_def slot_base_def v')
    also have "\<dots> = (if k = 0 then e else dirents.slot ?z k)"
      using dirents.slot_put [OF wf f0] dirents.slot_put_other [OF wf f0 fit [OF k]] by simp
    also have "\<dots> = (if k = 0 then e else blank_entry)" using zero_slot fit [OF k] by simp
    finally show ?thesis .
  qed
  have d: "vfs_depclust pvp = 16 * ?n" by (rule geo_depclust [OF g])
  have "[0..<vfs_depclust pvp] = 0 # [1..<vfs_depclust pvp]" using pos d by (simp add: upt_conv_Cons)
  then show ?thesis using e pos unfolding clus_entries_def by (simp add: d)
qed

lemma createde_grow_ok:
  assumes ok: "bio_ok io view held" and good: "\<forall>lb. lgeterror io lb = 0" and v: "vol_ok pvp (view d)" and g: "geo_ok pvp"
    and free: "held d = {}" and fl: "file_ok pvp (view d) ddep xs" and len: "length xs + 1 < 0xffff" and root: "\<not> de_vroot ddep"
    and low: "free_set pvp (view d) \<noteq> {} \<and> FAT12 pvp \<longrightarrow> Min (free_set pvp (view d)) < 4080"
    and wf: "direntry_wf (de_de dep)" and sp: "de_frspace ddep = 0"
  obtains (full) d' ddep' where "createde io pvp d dep ddep = Some (d', pvp, ddep', ENOSPC)" and "free_set pvp (view d) = {}"
      and "view d' = view d" and "held d' = {}" and "file_ok pvp (view d) ddep' xs"
  | (grown) d' pvp' ddep' e c where "createde io pvp d dep ddep = Some (d', pvp', ddep', e)" and "free_set pvp (view d) \<noteq> {}"
      and "c = Min (free_set pvp (view d))" and "held d' = {}" and "same_fs pvp pvp'" and "vol_ok pvp' (view d')"
      and "file_ok pvp' (view d') ddep' (xs @ [c])" and "free_set pvp' (view d') = free_set pvp (view d) - {c}"
      and "dir_list pvp (view d') (xs @ [c]) = dir_list pvp (view d) xs
        @ (c, 0, de_de dep) # map (\<lambda>j. (c, j, blank_entry)) [1..<vfs_depclust pvp]"
      and "\<forall>s. s \<notin> fatblks pvp \<union> clus_secs pvp c \<longrightarrow> view d' s = view d s"
      and "e = 0 \<longrightarrow> de_frcluster ddep' = c \<and> de_froffset ddep' = 0"
proof -
  let ?c = "Min (free_set pvp (view d))" and ?e = "de_de dep"
  have m: "mount_ok pvp" using v by (simp add: vol_ok_def)
  have fr: "fatblks pvp \<inter> held d = {}" using free by simp
  have nb: "free_set pvp (view d) \<noteq> {} \<and> False \<longrightarrow> vfs_bpcluster pvp = 0 * DEV_BSIZE \<and> 0 \<le> MAXCLUSTBLOCKS
        \<and> {cntobn pvp ?c..<cntobn pvp ?c + 0} \<inter> held d = {}" by simp
  note ext = extendfile_ok [OF ok v fr good fl len root refl low nb, where wc = True]
  show ?thesis
  proof (cases "free_set pvp (view d) = {}")
    case True
    from ext obtain d1 ddep1 where x: "extendfile io pvp d ddep False True = Some (d1, pvp, ddep1, ENOSPC, None, None)"
        "view d1 = view d" "held d1 = held d" "file_ok pvp (view d1) ddep1 xs"
      unfolding if_P [OF True] by auto
    have "createde io pvp d dep ddep = Some (d1, pvp, ddep1, ENOSPC)"
      using x(1) sp by (simp add: createde_def create_extend_def ENOSPC_def)
    then show ?thesis by (rule full) (use x(2-) True free in simp_all)
  next
    case False
    from ext obtain d1 pvp1 ddep1 err bp cn where x0: "extendfile io pvp d ddep False True = Some (d1, pvp1, ddep1, err, bp, cn)"
        "err = 0" "cn = (if True then Some ?c else None)"
      and x1: "vol_ok pvp1 (view d1)" "same_fs pvp pvp1" "\<forall>s. s \<notin> fatblks pvp \<longrightarrow> view d1 s = view d s"
      and y: "file_ok pvp1 (view d1) ddep1 (xs @ [?c])"
        "free_set pvp1 (view d1) = free_set pvp (view d) - {?c}" "held d1 = held d"
      unfolding if_not_P [OF False] if_False by (elim exE conjE) (rule that; assumption)
    have x: "extendfile io pvp d ddep False True = Some (d1, pvp1, ddep1, 0, bp, Some ?c)"
        "vol_ok pvp1 (view d1)" "same_fs pvp pvp1" "\<forall>s. s \<notin> fatblks pvp \<longrightarrow> view d1 s = view d s"
      using x0 x1 by simp_all
    have yh: "held d1 = {}" using y(3) free by simp
    have cin: "?c \<in> free_set pvp (view d)" using False by simp
    then have cr: "CLUST_FIRST \<le> ?c" "?c \<le> vfs_maxcluster pvp" by (simp_all add: free_set_def)
    have cx: "?c \<notin> set xs" using fl cin by (auto simp: file_ok_def busy_iff)
    have rng: "set xs \<subseteq> {CLUST_FIRST..vfs_maxcluster pvp}" using fl by (auto simp: file_ok_def busy_iff)
    note s = same_fs_fields [OF x(3)] same_fs_geo [OF x(3)] same_fs_file [OF x(3)]
    have bs: "vfs_bpcluster pvp = spc pvp * DEV_BSIZE" "spc pvp \<le> MAXCLUSTBLOCKS" "0 < spc pvp" using g by (simp_all add: geo_ok_def)
    let ?b = "cntobn pvp ?c" and ?n = "spc pvp"
    have fr1: "{?b..<?b + ?n} \<inter> held d1 = {}" using yh by simp
    obtain d2 lb where l: "lgetblk io d1 ?b (vfs_bpcluster pvp) = Some (d2, lb)" "view d2 = view d1"
        "held d2 = held d1 \<union> {?b..<?b + ?n}" "lbuf_at (lclrbuf lb) ?b ?n"
        "lb_addr (lclrbuf lb) = replicate (vfs_bpcluster pvp) 0"
      by (rule ext_buf_ok [OF ok bs(1,2) fr1])
    let ?xs = "dirents.put_slot (replicate (?n * DEV_BSIZE) 0) 0 ?e"
    let ?lb = "(lclrbuf lb)\<lparr>lb_addr := ?xs\<rparr>"
    have f0: "DIRENTSZ * 0 + DIRENTSZ \<le> length (replicate (?n * DEV_BSIZE) (0::u8))"
      using slot_in [of 0 ?n] bs(3) by (simp add: DIRENTSZ_def DEV_BSIZE_def)
    have lx: "length ?xs = ?n * DEV_BSIZE" using dirents.length_put_slot [OF wf f0] by simp
    have f0': "DIRENTSZ * 0 + DIRENTSZ \<le> length (lb_addr (lclrbuf lb))" using f0 l(5) bs(1) by simp
    have pt: "dirent_put (lclrbuf lb) 0 ?e = Some ?lb" using dirent_put_slot [OF f0'] l(5) bs(1) by simp
    have at: "lbuf_at ?lb ?b ?n" by (rule lbuf_at_addr [OF l(4) lx])
    have h: "{?b..<?b + ?n} \<subseteq> held d2" using l(3) by blast
    note w = lb_write_ok(1,2) [OF ok at h]
    let ?d = "lbwrite io d2 ?lb" and ?err = "snd (lbwritewait io d2 ?lb)"
    have fst: "fst (lbwritewait io d2 ?lb) = ?d" unfolding lbwritewait_first Let_def fst_conv lbwrite_def ..
    let ?dd = "if ?err = 0 then ddep1\<lparr>de_frcluster := ?c, de_froffset := 0\<rparr> else ddep1"
    have run: "createde io pvp d dep ddep = Some (?d, pvp1, ?dd, ?err)"
      using x(1) l(1) pt fst sp by (simp add: createde_def create_extend_def s case_prod_beta Let_def)
    have vd: "view ?d = stored (view d1) ?b ?n ?xs" using w(1) l(2) by simp
    have out: "view ?d t = view d1 t" if "t \<notin> clus_secs pvp ?c" for t using that unfolding vd by (auto simp: stored_def clus_secs_def)
    have "same_fat pvp1 (view d1) (view ?d)"
      using out clus_data(1) [OF g cr] by (auto simp: same_fat_def s)
    note sf = this
    have m1: "mount_ok pvp1" using x(2) by (simp add: vol_ok_def)
    have fk: "file_ok pvp1 (view ?d) ?dd (xs @ [?c])" using same_fat_file [OF m1 sf y(1)] by (simp add: file_ok_de)
    have keep: "dir_list pvp (view ?d) xs = dir_list pvp (view d) xs"
    proof (rule dir_list_cong [OF g], intro ballI conjI)
      fix x t assume xx: "x \<in> set xs" and t: "t \<in> clus_secs pvp x"
      have r: "CLUST_FIRST \<le> x" "x \<le> vfs_maxcluster pvp" using xx rng by auto
      have "x \<noteq> ?c" using xx cx by blast
      then have "t \<notin> clus_secs pvp ?c" using clus_disjoint [OF g r cr] t by auto
      moreover have "t \<notin> fatblks pvp" using clus_data(1) [OF g r] t by blast
      ultimately show "view ?d t = view d t" using out x(4) by simp
    qed (use rng in auto)
    have "clus_entries pvp (view ?d) ?c = (?c, 0, ?e) # map (\<lambda>j. (?c, j, blank_entry)) [1..<vfs_depclust pvp]"
      by (rule new_cluster_entries [where v = "view d1", OF g view_length [OF ok] wf cr(1) bs(3) vd])
    then have dl: "dir_list pvp (view ?d) (xs @ [?c]) = dir_list pvp (view d) xs
        @ (?c, 0, ?e) # map (\<lambda>j. (?c, j, blank_entry)) [1..<vfs_depclust pvp]"
      using keep by (simp add: dir_list_def)
    have hd: "held ?d = {}" using w(2) l(3) yh by auto
    show ?thesis
    proof (rule grown [OF run False refl hd x(3) same_fat_vol [OF x(2) sf] fk _ dl])
      show "free_set pvp1 (view ?d) = free_set pvp (view d) - {?c}" using same_fat_free(1) [OF m1 sf] y(2) by simp
      show "\<forall>s. s \<notin> fatblks pvp \<union> clus_secs pvp ?c \<longrightarrow> view ?d s = view d s" using out x(4) by simp
    qed simp
  qed
qed

end
