(* ===== verification/DirProps.thy ===== *)
theory DirProps
  imports DirOps
begin

text \<open>
  The properties of directories: what a search finds, creating and removing an entry as updates of the map
  from names to entries, a created name found again, and the test whether a directory is empty.
\<close>

section \<open>Searching\<close>

definition free_noted :: "entry list \<Rightarrow> denode \<Rightarrow> bool" where
  "free_noted es dp = (case dir_free es of
     None \<Rightarrow> de_frspace dp = 0
   | Some (c, k, e) \<Rightarrow> de_frspace dp = 1 \<and> de_froffset dp = k \<and> de_frcluster dp = c)"

lemma look_end_result:
  "look_end (look_result nm es rel slot) = (case dir_lookup nm es of
     Some (c, k, e) \<Rightarrow> Look_found c k e | None \<Rightarrow> Look_none (slot_after es slot))"
  by (auto simp: look_end_def look_result_def dir_lookup_def split: option.split)

lemma dirlook_name_ok:
  assumes ok: "bio_ok io view held" and m: "mount_ok pvp" and g: "geo_ok pvp" and noe: "\<forall>lb. lgeterror io lb \<noteq> E2BIG"
    and ne: "xs \<noteq> []" and fl: "file_ok pvp (view d) dp xs" and free: "held d = {}" and n: "length xs < n"
  obtains (err) d' dp' e where "dirlook_name io pvp n d dp nm getfree = Some (d', dp', Is_error e :: 'v lookup)" and "dev_err io e"
      and "view d' = view d" and "held d' = {}" and "file_ok pvp (view d) dp' xs" and "same_but_fc dp dp'"
  | (found) d' dp' c k e where "dirlook_name io pvp n d dp nm getfree = Some (d', dp', Is_entry c k e :: 'v lookup)"
      and "dir_lookup nm (dir_list pvp (view d) xs) = Some (c, k, e)"
      and "view d' = view d" and "held d' = {}" and "file_ok pvp (view d) dp' xs" and "same_but_fc dp dp'"
  | (absent) d' dp' where "dirlook_name io pvp n d dp nm getfree = Some (d', dp', Is_error ENOENT :: 'v lookup)"
      and "dir_lookup nm (dir_list pvp (view d) xs) = None"
      and "view d' = view d" and "held d' = {}" and "file_ok pvp (view d) dp' xs" and "de_vroot dp' = de_vroot dp"
      and "if getfree then free_noted (dir_list pvp (view d) xs) dp' else same_but_fc dp dp'"
proof -
  let ?es = "dir_list pvp (view d) xs"
  have k: "0 \<le> length xs" "length xs - 0 < n" using n by simp_all
  obtain d' dp' r where l: "look_loop io pvp n d dp nm 0 0 (\<not> getfree, None) = Some (d', dp', r)" "view d' = view d" "held d' = {}"
      "file_ok pvp (view d) dp' xs" "same_but_fc dp dp'"
      "case r of Inl e \<Rightarrow> dev_err io e
        | Inr l \<Rightarrow> l = look_end (look_result nm (dir_list pvp (view d) (drop 0 xs)) 0 (\<not> getfree, None))"
    using look_loop_ok [OF ok m g noe ne fl free k, where nm = nm and reloff = 0 and slot = "(\<not> getfree, None)"]
    by (elim exE conjE) (rule that)
  have vr: "de_vroot dp' = de_vroot dp" using l(5) unfolding same_but_fc_def by (metis denode.select_convs(11) denode.update_convs(6) denode.surjective)
  show ?thesis
  proof (cases r)
    case (Inl e)
    then have "dirlook_name io pvp n d dp nm getfree = Some (d', dp', Is_error e)" using l(1) by (simp add: dirlook_name_def)
    then show ?thesis by (rule err) (use l Inl in simp_all)
  next
    case (Inr lk)
    have lk: "lk = (case dir_lookup nm ?es of Some (c, k, e) \<Rightarrow> Look_found c k e | None \<Rightarrow> Look_none (slot_after ?es (\<not> getfree, None)))"
      using l(6) unfolding Inr sum.case drop_0 look_end_result .
    show ?thesis
    proof (cases "dir_lookup nm ?es")
      case (Some x)
      obtain c k e where x: "x = (c, k, e)" by (cases x)
      have "lk = Look_found c k e" unfolding lk Some x by simp
      then have "dirlook_name io pvp n d dp nm getfree = Some (d', dp', Is_entry c k e)"
        using l(1) Inr by (simp add: dirlook_name_def)
      then show ?thesis by (rule found) (use l Some x in simp_all)
    next
      case None
      have lk': "lk = Look_none (slot_after ?es (\<not> getfree, None))" unfolding lk None by simp
      obtain dq where nt: "note_slot getfree (slot_after ?es (\<not> getfree, None)) dp' = Some dq" "file_ok pvp (view d) dq xs"
          "de_vroot dq = de_vroot dp'" "if getfree then free_noted ?es dq else dq = dp'"
      proof (cases getfree)
        case False
        then show ?thesis using l(4) by (intro that [of dp']) (simp_all add: note_slot_def)
      next
        case True
        show ?thesis
        proof (cases "dir_free ?es")
          case None
          then show ?thesis using True l(4)
            by (intro that [of "dp'\<lparr>de_froffset := 0, de_frcluster := 0, de_frspace := 0\<rparr>"])
              (simp_all add: note_slot_def slot_after_def free_noted_def file_ok_def fc_ok_def)
        next
          case (Some y)
          obtain c k e where y: "y = (c, k, e)" by (cases y)
          show ?thesis using True l(4) Some
            by (intro that [of "dp'\<lparr>de_froffset := k, de_frcluster := c, de_frspace := 1\<rparr>"])
              (simp_all add: y note_slot_def slot_after_def free_noted_def file_ok_def fc_ok_def)
        qed
      qed
      have run: "dirlook_name io pvp n d dp nm getfree = Some (d', dq, Is_error ENOENT)"
        using l(1) Inr lk' nt(1) by (simp add: dirlook_name_def)
      have nf: "if getfree then free_noted ?es dq else same_but_fc dp dq" using nt(4) l(5) by (cases getfree) simp_all
      show ?thesis by (rule absent [OF run None l(2,3) nt(2) _ nf]) (simp add: nt(3) vr)
    qed
  qed
qed

text \<open>C31: Searching a directory (a subdirectory, its clusters \<open>xs\<close>) for a name that is neither empty nor
  \<open>.\<close> and is not in the cache of names. The search ends. It returns the error of a failed read, or the entry
  that the list of the entries of all clusters has for the converted name, with its cluster and its number, or
  \<open>ENOENT\<close> when the list has none; for a creation it then notes the first free slot of the list in the
  directory, or that there is none. An entry never used ends the list. Nothing on the device changes, no
  buffer stays locked, and the directory changes only in its cache of the table and in the noted slot.\<close>

theorem dirlook_searches:
  assumes "bio_ok io view held" and "mount_ok pvp" and "geo_ok pvp" and "\<forall>lb. lgeterror io lb \<noteq> E2BIG"
    and "xs \<noteq> []" and "file_ok pvp (view d) dp xs" and "held d = {}" and "length xs < n"
    and dir: "de_Attributes dp AND ATTR_DIRECTORY \<noteq> 0" and nul: "0 \<in> set name"
    and nlen: "nlen = length (takeWhile (\<lambda>c. c \<noteq> 0) name)" "nlen \<noteq> 0" "\<not> (nlen = 1 \<and> name ! 0 = DOT)"
    and conv: "unix2dosfn cc name nlen = Some (0, nm)" and miss: "(dnlc :: u8 list \<Rightarrow> 'v option) nm = None"
  shows "\<exists>d' dp' r. dosfs_dirlook io cc dnlc pvp n d dp name getfree = Some (d', dp', r)
    \<and> view d' = view d \<and> held d' = {} \<and> file_ok pvp (view d) dp' xs
    \<and> ((\<exists>e. r = Is_error e \<and> dev_err io e \<and> same_but_fc dp dp')
      \<or> (\<exists>c k e. r = Is_entry c k e \<and> dir_lookup nm (dir_list pvp (view d) xs) = Some (c, k, e) \<and> same_but_fc dp dp')
      \<or> (r = Is_error ENOENT \<and> dir_lookup nm (dir_list pvp (view d) xs) = None
          \<and> (if getfree then free_noted (dir_list pvp (view d) xs) dp' else same_but_fc dp dp')))"
proof -
  have run: "dosfs_dirlook io cc dnlc pvp n d dp name getfree = dirlook_name io pvp n d dp nm getfree"
    using dir nul nlen conv miss unfolding dosfs_dirlook_def nlen(1) [symmetric] Let_def by auto
  show ?thesis
  proof (cases rule: dirlook_name_ok [OF assms(1-8), where 'v = 'v and nm = nm and getfree = getfree, case_names err found absent])
    case (err d' dp' e)
    show ?thesis unfolding run by (intro exI conjI, rule err(1)) (use err in auto)
  next
    case (found d' dp' c k e)
    show ?thesis unfolding run by (intro exI conjI, rule found(1)) (use found in auto)
  next
    case (absent d' dp')
    show ?thesis unfolding run by (intro exI conjI, rule absent(1)) (use absent in simp_all)
  qed
qed

section \<open>Creating\<close>

text \<open>A free slot of the list, and where it is.\<close>

lemma dir_free_split:
  assumes "dir_free es = Some (c, k, e0)"
  obtains pre post where "es = pre @ (c, k, e0) # post" and "\<forall>x \<in> set pre. name0 (ent x) \<noteq> SLOT_EMPTY" and "\<not> live e0"
proof -
  from assms obtain i where i: "i < length es" "(c, k, e0) = es ! i" "name0 (ent (es ! i)) = SLOT_EMPTY \<or> name0 (ent (es ! i)) = SLOT_DELETED"
      "\<forall>j < i. \<not> (name0 (ent (es ! j)) = SLOT_EMPTY \<or> name0 (ent (es ! j)) = SLOT_DELETED)"
    unfolding dir_free_find find_Some_iff by (elim exE conjE) (rule that)
  have "es = take i es @ (c, k, e0) # drop (Suc i) es" using id_take_nth_drop [OF i(1)] unfolding i(2) .
  moreover have "\<forall>x \<in> set (take i es). name0 (ent x) \<noteq> SLOT_EMPTY"
  proof
    fix x assume "x \<in> set (take i es)"
    then obtain j where "j < i" "es ! j = x" unfolding in_set_conv_nth using i(1) by auto
    then show "name0 (ent x) \<noteq> SLOT_EMPTY" using i(4) by blast
  qed
  moreover have "\<not> live e0" using i(3) unfolding i(2) [symmetric] by (auto simp: live_def)
  ultimately show ?thesis by (rule that)
qed

lemma dir_list_mem:
  "(c, k, e) \<in> set (dir_list pvp v xs) \<longleftrightarrow> c \<in> set xs \<and> k < vfs_depclust pvp \<and> e = entry_at pvp v c k"
  by (auto simp: dir_list_def clus_entries_def image_iff)

lemma createde_ok:
  assumes ok: "bio_ok io view held" and good: "\<forall>lb. lgeterror io lb = 0" and v: "vol_ok pvp (view d)" and g: "geo_ok pvp"
    and free: "held d = {}" and ne: "xs \<noteq> []" and fl: "file_ok pvp (view d) ddep xs" and len: "length xs + 1 < 0xffff"
    and root: "\<not> de_vroot ddep"
    and low: "free_set pvp (view d) \<noteq> {} \<and> FAT12 pvp \<longrightarrow> Min (free_set pvp (view d)) < 4080"
    and wf: "direntry_wf (de_de dep)" and lv: "live (de_de dep)"
    and dir: "dir_ok (dir_list pvp (view d) xs)" and noted: "free_noted (dir_list pvp (view d) xs) ddep"
    and fresh: "dmap (dir_list pvp (view d) xs) (name11 (de_de dep)) = None"
  obtains (full) d' ddep' where "createde io pvp d dep ddep = Some (d', pvp, ddep', ENOSPC)"
      and "dir_free (dir_list pvp (view d) xs) = None" and "free_set pvp (view d) = {}"
      and "view d' = view d" and "held d' = {}" and "file_ok pvp (view d) ddep' xs"
  | (made) d' pvp' ddep' e ys c k where "createde io pvp d dep ddep = Some (d', pvp', ddep', e)"
      and "held d' = {}" and "same_fs pvp pvp'" and "vol_ok pvp' (view d')" and "file_ok pvp' (view d') ddep' ys"
      and "if dir_free (dir_list pvp (view d) xs) = None
          then ys = xs @ [Min (free_set pvp (view d))] \<and> free_set pvp' (view d') = free_set pvp (view d) - {last ys}
          else ys = xs \<and> free_set pvp' (view d') = free_set pvp (view d)"
      and "dir_ok (dir_list pvp' (view d') ys)"
      and "dmap (dir_list pvp' (view d') ys) = (dmap (dir_list pvp (view d) xs))(name11 (de_de dep) \<mapsto> (c, k, de_de dep))"
      and "dir_free (dir_list pvp (view d) xs) = None \<longrightarrow> free_set pvp (view d) \<noteq> {}"
proof (cases "dir_free (dir_list pvp (view d) xs)")
  case None
  let ?es = "dir_list pvp (view d) xs"
  have sp: "de_frspace ddep = 0" using noted None by (simp add: free_noted_def)
  show ?thesis
  proof (cases rule: createde_grow_ok [OF ok good v g free fl len root low wf sp, case_names full grown])
    case (full d' ddep')
    show ?thesis by (rule full(1)[THEN that(1)]) (use full None in simp_all)
  next
    case (grown d' pvp' ddep' e c)
    note s = same_fs_dir [OF grown(5)]
    have "c \<in> free_set pvp (view d)" using grown(2,3) by simp
    then have "c \<notin> set xs" using fl by (auto simp: file_ok_def busy_iff)
    then have cn: "c \<notin> fst ` set ?es" by (auto simp: dir_list_def clus_entries_def)
    have ks: "distinct [1..<vfs_depclust pvp]" "0 \<notin> set [1..<vfs_depclust pvp]" by simp_all
    have z: "\<forall>j \<in> set [1..<vfs_depclust pvp]. name0 blank_entry = SLOT_EMPTY" by (simp add: blank_name0)
    note gr = dir_ok_grow [OF dir None lv fresh cn ks z, folded grown(9)]
    show ?thesis
      by (rule that(2) [OF grown(1,4,5,6,7), of c 0]) (use gr None grown(2,3,8) in \<open>simp_all add: s\<close>)
  qed
next
  case (Some x)
  let ?es = "dir_list pvp (view d) xs"
  have m: "mount_ok pvp" using v by (simp add: vol_ok_def)
  obtain c k e0 where x: "x = (c, k, e0)" by (cases x)
  obtain pre post where sp: "?es = pre @ (c, k, e0) # post" "\<forall>x \<in> set pre. name0 (ent x) \<noteq> SLOT_EMPTY" "\<not> live e0"
    by (rule dir_free_split [OF Some [unfolded x]])
  have fs: "de_frspace ddep \<noteq> 0" "de_frcluster ddep = c" "de_froffset ddep = k" using noted Some x by (simp_all add: free_noted_def)
  have ck: "c \<in> set xs" "k < vfs_depclust pvp" using sp(1) dir_list_mem [of c k e0 pvp "view d" xs] by simp_all
  have rng: "set xs \<subseteq> {CLUST_FIRST..vfs_maxcluster pvp}" using fl by (auto simp: file_ok_def busy_iff)
  then have cr: "CLUST_FIRST \<le> c" "c \<le> vfs_maxcluster pvp" using ck(1) by auto
  have nz: "c \<noteq> DOSFSROOT" using cr(1) by (simp add: CLUST_FIRST_def DOSFSROOT_def)
  have sl: "slot_ok pvp (de_frcluster ddep) (de_froffset ddep)" using ck(2) cr nz geo_depclust [OF g] fs by (simp add: slot_ok_def)
  have fr: "entry_blks pvp (de_frcluster ddep) (de_froffset ddep) \<inter> held d = {}" using free by simp
  show ?thesis
  proof (cases rule: createde_slot_ok [OF ok m g sl fr wf fs(1), case_names err written])
    case (err d' e)
    then show ?thesis using no_dev_err [OF good] by blast
  next
    case (written d' e)
    have vd: "view d' = entry_put pvp (view d) c k (de_de dep)" using written(2) fs by simp
    have sf: "same_fat pvp (view d) (view d')" unfolding vd by (rule entry_put_fat [OF g]) (use sl fs in simp)
    have "dir_list pvp (view d') xs = upd_entry c k (de_de dep) ?es"
      unfolding vd by (rule dir_list_put [OF g view_length [OF ok] wf rng cr ck(2)])
    also have "\<dots> = pre @ (c, k, de_de dep) # post" using dir unfolding sp(1) dir_ok_def by (intro upd_split) simp
    finally have dl: "dir_list pvp (view d') xs = pre @ (c, k, de_de dep) # post" .
    note fill = dir_ok_fill [OF dir [unfolded sp(1)] sp(3,2) lv fresh [unfolded sp(1)], folded dl, folded sp(1)]
    show ?thesis
      by (rule that(2) [OF written(1) _ same_fs_refl same_fat_vol [OF v sf] same_fat_file [OF m sf fl], of c k])
        (use fill written(3) free Some same_fat_free [OF m sf] in simp_all)
  qed
qed

text \<open>C32: Creating an entry, on a device without read errors. Seen as a map from names to entries, a directory with no entry of the new name
  and with its first free slot noted by the search becomes the same map with the new name added: the entry
  goes to the noted slot or, when no slot is free, to the first slot of the least free cluster, which is
  zeroed and appended to the directory. Without a free slot and a free cluster the result is \<open>ENOSPC\<close> and
  the device stays as it was. The directory stays well formed (no name twice, nothing after the first entry
  never used), the volume stays consistent, no buffer stays locked. (Nothing is said of the number
  returned when the entry was made: it can be that of a failed write.) In a 12-bit table this holds for clusters below 4080.\<close>

theorem createde_inserts:
  assumes "bio_ok io view held" and "\<forall>lb. lgeterror io lb = 0" and "vol_ok pvp (view d)" and "geo_ok pvp"
    and "held d = {}" and "xs \<noteq> []" and "file_ok pvp (view d) ddep xs" and "length xs + 1 < 0xffff" and "\<not> de_vroot ddep"
    and "free_set pvp (view d) \<noteq> {} \<and> FAT12 pvp \<longrightarrow> Min (free_set pvp (view d)) < 4080"
    and "direntry_wf (de_de dep)" and "live (de_de dep)"
    and "dir_ok (dir_list pvp (view d) xs)" and "free_noted (dir_list pvp (view d) xs) ddep"
    and "dmap (dir_list pvp (view d) xs) (name11 (de_de dep)) = None"
  shows "\<exists>d' pvp' ddep' e ys. createde io pvp d dep ddep = Some (d', pvp', ddep', e)
    \<and> held d' = {} \<and> vol_ok pvp' (view d') \<and> file_ok pvp' (view d') ddep' ys \<and> dir_ok (dir_list pvp' (view d') ys)
    \<and> (if dir_free (dir_list pvp (view d) xs) = None \<and> free_set pvp (view d) = {}
       then e = ENOSPC \<and> pvp' = pvp \<and> ys = xs \<and> view d' = view d
       else (if dir_free (dir_list pvp (view d) xs) = None
             then ys = xs @ [Min (free_set pvp (view d))] \<and> free_set pvp' (view d') = free_set pvp (view d) - {last ys}
             else ys = xs \<and> free_set pvp' (view d') = free_set pvp (view d))
         \<and> (\<exists>c k. dmap (dir_list pvp' (view d') ys)
               = (dmap (dir_list pvp (view d) xs))(name11 (de_de dep) \<mapsto> (c, k, de_de dep))))"
proof (cases rule: createde_ok [OF assms, case_names full made])
  case (full d' ddep')
  show ?thesis
    by (intro exI conjI, rule full(1)) (use full assms(3,13) in simp_all)
next
  case (made d' pvp' ddep' e ys c k)
  have "\<not> (dir_free (dir_list pvp (view d) xs) = None \<and> free_set pvp (view d) = {})"
  proof
    assume a: "dir_free (dir_list pvp (view d) xs) = None \<and> free_set pvp (view d) = {}"
    have "free_set pvp (view d) \<noteq> {}" using made(9) a by simp
    then show False using a by simp
  qed
  note n = this
  show ?thesis unfolding if_not_P [OF n]
    by (intro exI conjI, rule made(1)) (use made in blast)+
qed

section \<open>Removing\<close>

lemma deleted_name0: "name0 (deleted e) = SLOT_DELETED"
  by (simp add: name0_def deleted_def SLOT_DELETED_def)

text \<open>C33: Removing the entry of a file. Unless the cluster of the entry cannot be read, in which case the
  device stays as it was and the error is returned, the directory becomes the same map of names without the
  name of the removed entry; it stays well formed and the volume consistent. In both cases the count of
  links of the file in memory goes down by one and no buffer stays locked.\<close>

theorem removede_removes:
  assumes ok: "bio_ok io view held" and v: "vol_ok pvp (view d)" and g: "geo_ok pvp"
    and free: "held d = {}" and fl: "file_ok pvp (view d) ddep xs" and dir: "dir_ok (dir_list pvp (view d) xs)"
    and mem: "(de_dirclust dp, de_diroffset dp, e0) \<in> set (dir_list pvp (view d) xs)" and lv: "live e0"
  shows "\<exists>d' dp' e. removede io pvp d dp = Some (d', dp', e)
    \<and> held d' = {} \<and> vol_ok pvp (view d') \<and> file_ok pvp (view d') ddep xs \<and> dp' = dp\<lparr>de_refcnt := de_refcnt dp - 1\<rparr>
    \<and> (if e = 0 then dir_ok (dir_list pvp (view d') xs)
          \<and> dmap (dir_list pvp (view d') xs) = (dmap (dir_list pvp (view d) xs))(name11 e0 := None)
       else dev_err io e \<and> view d' = view d)"
proof -
  let ?c = "de_dirclust dp" and ?k = "de_diroffset dp" and ?es = "dir_list pvp (view d) xs"
  have m: "mount_ok pvp" using v by (simp add: vol_ok_def)
  have ck: "?c \<in> set xs" "?k < vfs_depclust pvp" "e0 = entry_at pvp (view d) ?c ?k" using mem by (simp_all add: dir_list_mem)
  have rng: "set xs \<subseteq> {CLUST_FIRST..vfs_maxcluster pvp}" using fl by (auto simp: file_ok_def busy_iff)
  then have cr: "CLUST_FIRST \<le> ?c" "?c \<le> vfs_maxcluster pvp" using ck(1) by auto
  have nz: "?c \<noteq> DOSFSROOT" using cr(1) by (simp add: CLUST_FIRST_def DOSFSROOT_def)
  have sl: "slot_ok pvp ?c ?k" using ck(2) cr nz geo_depclust [OF g] by (simp add: slot_ok_def)
  have fr: "entry_blks pvp ?c ?k \<inter> held d = {}" using free by simp
  show ?thesis
  proof (cases rule: markdeleted_ok [OF ok m g sl fr, case_names err written])
    case (err d' e)
    then have "removede io pvp d dp = Some (d', dp\<lparr>de_refcnt := de_refcnt dp - 1\<rparr>, e)" by (simp add: removede_def)
    moreover have "e \<noteq> 0" using err(2) by (simp add: dev_err_def)
    ultimately show ?thesis using err v fl free by auto
  next
    case (written d')
    let ?e = "deleted e0"
    have vd: "view d' = entry_put pvp (view d) ?c ?k ?e" using written(2) ck(3) by simp
    have sf: "same_fat pvp (view d) (view d')" unfolding vd by (rule entry_put_fat [OF g sl])
    have w0: "direntry_wf e0" unfolding ck(3) by (rule entry_at_wf [where v = "view d", OF view_length [OF ok]])
    have wf: "direntry_wf ?e" using w0 by (cases "deName e0") (simp_all add: deleted_def direntry_wf_def)
    obtain pre post where sp: "?es = pre @ (?c, ?k, e0) # post" using mem by (meson split_list)
    have "dir_list pvp (view d') xs = upd_entry ?c ?k ?e ?es"
      unfolding vd by (rule dir_list_put [OF g view_length [OF ok] wf rng cr ck(2)])
    also have "\<dots> = pre @ (?c, ?k, ?e) # post" using dir unfolding sp dir_ok_def by (intro upd_split) simp
    finally have dl: "dir_list pvp (view d') xs = pre @ (?c, ?k, ?e) # post" .
    note fr = dir_ok_free [OF dir [unfolded sp] lv deleted_name0 [of e0], folded dl, folded sp]
    have "removede io pvp d dp = Some (d', dp\<lparr>de_refcnt := de_refcnt dp - 1\<rparr>, 0)" using written(1) by (simp add: removede_def)
    note run = this
    show ?thesis
      by (intro exI conjI, rule run) (use fr written(3) free same_fat_vol [OF v sf] same_fat_file [OF m sf fl] in simp_all)
  qed
qed

section \<open>A created name is found\<close>

text \<open>C34: Search, create, search again, on a device without read errors. The search for a creation finds the
  name or notes a free slot; the entry then created, unless neither a slot nor a cluster is free, is what the
  next search for its name returns, with exactly the bytes given, whatever slot or cluster it went to.\<close>

theorem create_then_lookup:
  assumes ok: "bio_ok io view held" and good: "\<forall>lb. lgeterror io lb = 0" and v: "vol_ok pvp (view d)" and g: "geo_ok pvp"
    and free: "held d = {}" and ne: "xs \<noteq> []" and fl: "file_ok pvp (view d) ddep xs" and len: "length xs + 1 < 0xffff"
    and root: "\<not> de_vroot ddep"
    and low: "free_set pvp (view d) \<noteq> {} \<and> FAT12 pvp \<longrightarrow> Min (free_set pvp (view d)) < 4080"
    and wf: "direntry_wf (de_de dep)" and lv: "live (de_de dep)"
    and dir: "dir_ok (dir_list pvp (view d) xs)" and n: "length xs + 1 < n"
  shows "\<exists>d1 ddep1 r. dirlook_name io pvp n d ddep (name11 (de_de dep)) True = Some (d1, ddep1, r :: 'v lookup)
    \<and> (if dmap (dir_list pvp (view d) xs) (name11 (de_de dep)) \<noteq> None then r \<noteq> Is_error ENOENT
       else r = Is_error ENOENT
         \<and> (\<exists>d2 pvp2 ddep2 e. createde io pvp d1 dep ddep1 = Some (d2, pvp2, ddep2, e)
              \<and> (e = ENOSPC \<and> free_set pvp (view d) = {} \<and> dir_free (dir_list pvp (view d) xs) = None
                 \<or> (\<exists>d3 ddep3 c k. dirlook_name io pvp2 n d2 ddep2 (name11 (de_de dep)) False
                        = Some (d3, ddep3, Is_entry c k (de_de dep) :: 'v lookup)))))"
proof -
  let ?es = "dir_list pvp (view d) xs" and ?nm = "name11 (de_de dep)"
  have m: "mount_ok pvp" using v by (simp add: vol_ok_def)
  have noe: "\<forall>lb. lgeterror io lb \<noteq> E2BIG" using good by (simp add: E2BIG_def)
  have n1: "length xs < n" using n by simp
  show ?thesis
  proof (cases rule: dirlook_name_ok [OF ok m g noe ne fl free n1, where 'v = 'v and nm = ?nm and getfree = True, case_names err found absent])
    case (err d' dp' e)
    then show ?thesis using no_dev_err [OF good] by blast
  next
    case (found d' dp' c k e)
    then show ?thesis by (simp add: dmap_def)
  next
    case (absent d1 dd)
    have z: "dmap ?es ?nm = None" using absent(2) by (simp add: dmap_def)
    then have no: "\<not> dmap ?es ?nm \<noteq> None" by blast
    have nd: "free_noted (dir_list pvp (view d1) xs) dd" using absent(3,7) by simp
    have h: "vol_ok pvp (view d1)" "file_ok pvp (view d1) dd xs" "\<not> de_vroot dd" "dir_ok (dir_list pvp (view d1) xs)"
        "dmap (dir_list pvp (view d1) xs) ?nm = None"
        "free_set pvp (view d1) \<noteq> {} \<and> FAT12 pvp \<longrightarrow> Min (free_set pvp (view d1)) < 4080"
      using v absent root dir z low by simp_all
    have "\<exists>d2 pvp2 ddep2 e. createde io pvp d1 dep dd = Some (d2, pvp2, ddep2, e)
              \<and> (e = ENOSPC \<and> free_set pvp (view d) = {} \<and> dir_free ?es = None
                 \<or> (\<exists>d3 ddep3 c k. dirlook_name io pvp2 n d2 ddep2 ?nm False = Some (d3, ddep3, Is_entry c k (de_de dep) :: 'v lookup)))"
    proof (cases rule: createde_ok [OF ok good h(1) g absent(4) ne h(2) len h(3,6) wf lv h(4) nd h(5), case_names full made])
      case (full d2 ddep2)
      show ?thesis by (intro exI conjI, rule full(1)) (use full absent(3) in simp)
    next
      case (made d2 pvp2 ddep2 e ys c k)
      have m2: "mount_ok pvp2" using made(4) by (simp add: vol_ok_def)
      have g2: "geo_ok pvp2" using geo_ok_geo [OF made(3)] g by simp
      have ys: "ys \<noteq> []" "length ys < n" using made(6) ne n by (auto split: if_splits)
      have lk: "dir_lookup ?nm (dir_list pvp2 (view d2) ys) = Some (c, k, de_de dep)" using fun_cong [OF made(8), of ?nm] by (simp add: dmap_def)
      have "\<exists>d3 ddep3 c k. dirlook_name io pvp2 n d2 ddep2 ?nm False = Some (d3, ddep3, Is_entry c k (de_de dep) :: 'v lookup)"
      proof (cases rule: dirlook_name_ok [OF ok m2 g2 noe ys(1) made(5,2) ys(2), where 'v = 'v and nm = ?nm and getfree = False,
            case_names err found absent])
        case (err d' dp' e)
        then show ?thesis using no_dev_err [OF good] by blast
      next
        case (found d' dp' c' k' e')
        then show ?thesis using lk by auto
      next
        case (absent d' dp')
        then show ?thesis using lk by simp
      qed
      note lk = this
      show ?thesis by (intro exI conjI, rule made(1), rule disjI2, rule lk)
    qed
    note rest = this
    show ?thesis unfolding if_not_P [OF no] 
      by (rule exI [of _ d1], rule exI [of _ dd], rule exI [of _ "Is_error ENOENT"], rule conjI [OF absent(1) conjI [OF refl rest]])
  qed
qed

section \<open>Is the directory empty?\<close>

definition only_dots :: "entry list \<Rightarrow> bool" where
  "only_dots es \<longleftrightarrow> (\<forall>x \<in> set (takeWhile (\<lambda>x. name0 (ent x) \<noteq> SLOT_EMPTY) es).
     name0 (ent x) = SLOT_DELETED \<or> name11 (ent x) = dot_name \<or> name11 (ent x) = dotdot_name)"

definition empty_verdict :: "entry list \<Rightarrow> nat option" where
  "empty_verdict es = (if \<not> only_dots es then Some 0
     else if \<exists>x \<in> set es. name0 (ent x) = SLOT_EMPTY then Some 1 else None)"

lemma only_dots_simps:
  "only_dots []"
  "only_dots (x # es) \<longleftrightarrow> name0 (ent x) = SLOT_EMPTY
     \<or> (name0 (ent x) = SLOT_DELETED \<or> name11 (ent x) = dot_name \<or> name11 (ent x) = dotdot_name) \<and> only_dots es"
  unfolding only_dots_def by (simp, cases "name0 (ent x) = SLOT_EMPTY") (simp_all only: takeWhile.simps not_True_eq_False
    if_False if_True not_False_eq_True list.set ball_simps simp_thms)

lemma empty_verdict_simps:
  "empty_verdict [] = None"
  "empty_verdict (x # es) = (if name0 (ent x) = SLOT_EMPTY then Some 1
     else if name0 (ent x) \<noteq> SLOT_DELETED \<and> name11 (ent x) \<noteq> dot_name \<and> name11 (ent x) \<noteq> dotdot_name then Some 0
     else empty_verdict es)"
  by (simp_all add: empty_verdict_def only_dots_simps)

lemma empty_verdict_append:
  "empty_verdict (es @ fs) = (case empty_verdict es of Some r \<Rightarrow> Some r | None \<Rightarrow> empty_verdict fs)"
  by (induction es) (simp_all add: empty_verdict_simps)

lemma empty_cluster_ok:
  assumes get: "\<And>k. k < m \<Longrightarrow> dirent_get bp k = Some (f k)"
  shows "i + n \<le> m \<Longrightarrow> empty_cluster bp n i = Some (empty_verdict (map (\<lambda>k. (c, k, f k)) [i..<i + n]))"
proof (induction n arbitrary: i)
  case 0
  then show ?case by (simp add: empty_verdict_simps)
next
  case (Suc n)
  have g: "dirent_get bp i = Some (f i)" using get [of i] Suc.prems by simp
  have ih: "empty_cluster bp n (i + 1) = Some (empty_verdict (map (\<lambda>k. (c, k, f k)) [i + 1..<i + Suc n]))"
    using Suc.IH [of "i + 1"] Suc.prems by simp
  have "[i..<i + Suc n] = i # [i + 1..<i + Suc n]" using upt_conv_Cons [of i "i + Suc n"] by (simp del: upt_Suc)
  then have up: "map (\<lambda>k. (c, k, f k)) [i..<i + Suc n] = (c, i, f i) # map (\<lambda>k. (c, k, f k)) [i + 1..<i + Suc n]"
    by (simp del: upt_Suc)
  show ?case unfolding up empty_verdict_simps using g ih by (auto simp: SLOT_EMPTY_def SLOT_DELETED_def)
qed

lemma empty_loop_ok:
  assumes ok: "bio_ok io view held" and m: "mount_ok pvp" and g: "geo_ok pvp" and good: "\<forall>lb. lgeterror io lb = 0"
    and ne: "xs \<noteq> []"
  shows "file_ok pvp (view d) dp xs \<Longrightarrow> held d = {} \<Longrightarrow> f \<le> length xs \<Longrightarrow> length xs - f < n \<Longrightarrow>
    \<exists>d' dp'. empty_loop io pvp n d dp f bn
        = Some (d', dp', case empty_verdict (dir_list pvp (view d) (drop f xs)) of Some r \<Rightarrow> r | None \<Rightarrow> 1)
      \<and> view d' = view d \<and> held d' = {} \<and> file_ok pvp (view d) dp' xs \<and> same_but_fc dp dp'"
proof (induction n arbitrary: d dp f bn)
  case 0
  then show ?case by simp
next
  case (Suc n)
  have fr: "fatblks pvp \<inter> held d = {}" using Suc.prems(2) by simp
  have fa: "file_at pvp (view d) (de_StartCluster dp) xs" and fc: "fc_ok dp xs" using Suc.prems(1) ne by (simp_all add: file_ok_def)
  have lx: "length xs < 0xffff" using fa by (simp add: file_at_def)
  have want: "True \<or> False" by simp
  show ?case
  proof (cases rule: pcbmap_cases [OF ok m fr fa fc want, where f = f, case_names err found eof])
    case (err d' e)
    then show ?thesis using no_dev_err [OF good] by blast
  next
    case (eof d')
    let ?dp = "fc_setcache dp FC_LASTFC (length xs - 1) (last xs)"
    have f: "f = length xs" using eof(1) Suc.prems(3) by simp
    have "empty_loop io pvp (Suc n) d dp f bn = Some (d', ?dp, 1)" using eof(2) by simp
    moreover have "file_ok pvp (view d) ?dp xs" by (rule fc_last_step [OF Suc.prems(1) m ne lx])
    ultimately show ?thesis using eof(3,4) Suc.prems(2) by (simp add: f dir_list_def empty_verdict_simps)
  next
    case (found d0)
    let ?c = "xs ! f" and ?dp = "fc_setcache dp FC_LASTMAP f (xs ! f)"
    have cin: "?c \<in> set xs" using found(1) by simp
    have c: "CLUST_FIRST \<le> ?c" "?c \<le> vfs_maxcluster pvp" using cin Suc.prems(1) by (auto simp: file_ok_def busy_def)
    have fl: "file_ok pvp (view d) ?dp xs" by (rule fc_step [OF Suc.prems(1) m found(1) lx])
    have fr0: "clus_secs pvp ?c \<inter> held d0 = {}" using found(4) Suc.prems(2) by simp
    obtain d1 lb where r: "lbread io d0 (cntobn pvp ?c) (vfs_bpcluster pvp) = Some (d1, lb)"
        "view (lbrelse io d1 lb) = view d0" "held (lbrelse io d1 lb) = held d0"
        "lgeterror io lb = 0 \<longrightarrow> (\<forall>k < vfs_depclust pvp. dirent_get lb k = Some (entry_at pvp (view d0) ?c k))"
      by (rule dirclus_read [OF ok g c fr0])
    let ?d2 = "lbrelse io d1 lb"
    have h2: "held ?d2 = {}" "view ?d2 = view d" using r found(3,4) Suc.prems(2) by simp_all
    let ?es = "clus_entries pvp (view d) ?c" and ?rest = "dir_list pvp (view d) (drop (Suc f) xs)"
    have get: "\<And>k. k < vfs_depclust pvp \<Longrightarrow> dirent_get lb k = Some (entry_at pvp (view d) ?c k)"
      using r(4) good found(3) by simp
    have sc: "empty_cluster lb (vfs_depclust pvp) 0 = Some (empty_verdict ?es)"
      using empty_cluster_ok [where i = 0 and n = "vfs_depclust pvp" and c = ?c, OF get] by (simp add: clus_entries_def)
    have dl: "dir_list pvp (view d) (drop f xs) = ?es @ ?rest" by (rule dir_list_drop [OF found(1)])
    have nw: "(f + 1) mod 2 ^ 32 = f + 1" using found(1) lx by simp
    have run: "empty_loop io pvp (Suc n) d dp f bn = (case empty_verdict ?es of Some res \<Rightarrow> Some (?d2, ?dp, res)
        | None \<Rightarrow> empty_loop io pvp n ?d2 ?dp (f + 1) (Some (cntobn pvp ?c)))"
      using found(2) r(1) good sc nw by (simp add: E2BIG_def Let_def split: option.split)
    show ?thesis
    proof (cases "empty_verdict ?es")
      case (Some res)
      have "empty_loop io pvp (Suc n) d dp f bn = Some (?d2, ?dp, res)" unfolding run Some by simp
      then show ?thesis using h2 fl by (simp add: dl empty_verdict_append Some)
    next
      case None
      have fl2: "file_ok pvp (view ?d2) ?dp xs" using fl h2(2) by simp
      have k: "f + 1 \<le> length xs" "length xs - (f + 1) < n" using found(1) Suc.prems(4) by simp_all
      have "empty_loop io pvp (Suc n) d dp f bn = empty_loop io pvp n ?d2 ?dp (f + 1) (Some (cntobn pvp ?c))"
        unfolding run None by simp
      note run' = this
      have v: "(case empty_verdict (dir_list pvp (view d) (drop f xs)) of Some r \<Rightarrow> r | None \<Rightarrow> 1)
          = (case empty_verdict (dir_list pvp (view ?d2) (drop (f + 1) xs)) of Some r \<Rightarrow> r | None \<Rightarrow> 1)"
        by (simp add: dl empty_verdict_append None h2(2))
      obtain d' dp' where ih: "empty_loop io pvp n ?d2 ?dp (f + 1) (Some (cntobn pvp ?c)) = Some (d', dp',
            case empty_verdict (dir_list pvp (view ?d2) (drop (f + 1) xs)) of Some r \<Rightarrow> r | None \<Rightarrow> 1)"
          "view d' = view ?d2" "held d' = {}" "file_ok pvp (view ?d2) dp' xs" "same_but_fc ?dp dp'"
        using Suc.IH [OF fl2 h2(1) k, of "Some (cntobn pvp ?c)"] by (elim exE conjE) (rule that)
      have sb: "same_but_fc dp dp'" using ih(5) same_but_fc_trans [of dp ?dp dp'] by simp
      show ?thesis unfolding run' v by (intro exI conjI, rule ih(1)) (use ih(2-4) h2(2) sb in simp_all)
    qed
  qed
qed

text \<open>C35: The test before a directory is removed. On a device without read errors it ends and is 1 exactly
  when every entry before the first one never used is deleted, \<open>.\<close> or \<open>..\<close>, and 0 otherwise; nothing on the
  device changes, no buffer stays locked, and the directory changes only in its cache of the table.\<close>

theorem dosdirempty_decides:
  assumes ok: "bio_ok io view held" and m: "mount_ok pvp" and g: "geo_ok pvp" and good: "\<forall>lb. lgeterror io lb = 0"
    and ne: "xs \<noteq> []" and fl: "file_ok pvp (view d) dp xs" and free: "held d = {}" and n: "length xs < n"
  shows "\<exists>d' dp'. dosdirempty io pvp n d dp = Some (d', dp', if only_dots (dir_list pvp (view d) xs) then 1 else 0)
    \<and> view d' = view d \<and> held d' = {} \<and> file_ok pvp (view d) dp' xs \<and> same_but_fc dp dp'"
proof -
  have k: "0 \<le> length xs" "length xs - 0 < n" using n by simp_all
  have e: "(case empty_verdict (dir_list pvp (view d) (drop 0 xs)) of Some r \<Rightarrow> r | None \<Rightarrow> 1)
      = (if only_dots (dir_list pvp (view d) xs) then 1 else 0 :: nat)"
    by (simp add: empty_verdict_def)
  show ?thesis
    using empty_loop_ok [OF ok m g good ne fl free k, of None] unfolding e dosdirempty_def .
qed

text \<open>The first cluster is mapped without reading the table.\<close>

lemma pcbmap_first:
  assumes m: "mount_ok pvp" and ne: "xs \<noteq> []" and fl: "file_ok pvp v dp xs"
  shows "pcbmap io pvp d dp 0 True False = Some (d, fc_setcache dp FC_LASTMAP 0 (hd xs), 0, Some (cntobn pvp (hd xs)), None)"
proof -
  let ?s = "de_StartCluster dp"
  have fa: "file_at pvp v ?s xs" and fc: "fc_ok dp xs" using fl ne by (simp_all add: file_ok_def)
  have ch: "chain (fat_at pvp v) (vfs_maxcluster pvp) ?s xs" using fa by (simp add: file_at_def)
  have l: "0 < length xs" using ne by simp
  have h: "xs ! 0 = hd xs" using ne by (simp add: hd_conv_nth)
  have s0: "xs ! 0 = ?s" using chain_nth(3) [OF ch l] by simp
  have nr: "?s \<noteq> DOSFSROOT" using file_start [OF fa] by (simp add: CLUST_FIRST_def DOSFSROOT_def)
  obtain i cn where lk: "fc_lookup dp 0 (0, ?s) = (i, cn)" by (cases "fc_lookup dp 0 (0, ?s)")
  have i: "i = 0" "cn = hd xs" using fc_lookup_ok [OF fc ne s0 lk] h by auto
  have "\<not> DOSFSEOF (hd xs)" using not_eof [OF m chain_nth(1) [OF ch l]] h by simp
  then show ?thesis unfolding pcbmap_def Let_def by (simp add: nr lk i rel_opt_def)
qed

text \<open>A directory that cannot be read counts as empty: when the read of its first cluster fails, the
  error number is the result, and the callers take every number but 0 for \<open>empty\<close>, whatever entries the
  directory has.\<close>

theorem dosdirempty_unreadable:
  assumes m: "mount_ok pvp" and ne: "xs \<noteq> []" and fl: "file_ok pvp v dp xs" and n: "0 < n"
    and bad: "lbread io d (cntobn pvp (hd xs)) (vfs_bpcluster pvp) = Some (d1, lb)" "lgeterror io lb \<noteq> 0"
  shows "\<exists>dp' r. dosdirempty io pvp n d dp = Some (lbrelse io d1 lb, dp', r) \<and> r = lgeterror io lb \<and> r \<noteq> 0"
proof -
  obtain k where k: "n = Suc k" using n gr0_conv_Suc by blast
  show ?thesis
    unfolding dosdirempty_def k empty_loop.simps pcbmap_first [OF m ne fl] using bad by (simp add: E2BIG_def Let_def)
qed

section \<open>The end of the root directory\<close>

text \<open>The root directory has no end of its own for a search that finds it full: the position one past
  its last cluster is not past the end for \<open>pcbmap\<close>, which compares with \<open>>\<close>, and is mapped to the first
  sector of the first data cluster. That cluster, the contents of some file, is then searched as part of
  the root directory.\<close>

theorem root_search_overruns:
  assumes g: "geo_ok pvp" and dir: "de_Attributes dp AND ATTR_DIRECTORY \<noteq> 0" and root: "de_StartCluster dp = DOSFSROOT"
    and size: "vfs_rootdirsize pvp = q * spc pvp"
  shows "pcbmap io pvp d dp q True True = Some (d, dp, 0, Some (cntobn pvp CLUST_FIRST), Some DOSFSROOT)"
proof -
  have l: "vfs_rootdirblk pvp + q * spc pvp < 2 ^ 31" and f: "vfs_firstcluster pvp = vfs_rootdirblk pvp + q * spc pvp"
    using g size by (simp_all add: geo_ok_def)
  have u: "umul32 q (spc pvp) = q * spc pvp" using l by simp
  have s: "slong (q * spc pvp) = int (q * spc pvp)" by (rule slong_small) (use l in simp)
  have a: "uadd32 (vfs_rootdirblk pvp) (q * spc pvp) = vfs_firstcluster pvp" using l f by simp
  have c: "cntobn pvp CLUST_FIRST = vfs_firstcluster pvp" using l f by (simp add: cntobn_def)
  show ?thesis using dir root by (simp add: pcbmap_def u s a c size)
qed

theorem root_search_overruns_witness:
  "pcbmap good_io demo_fs demo_dev (demo_file 0\<lparr>de_de := (de_de (demo_file 0))\<lparr>deAttributes := ATTR_DIRECTORY\<rparr>\<rparr>) 2 True True
     = Some (demo_dev, demo_file 0\<lparr>de_de := (de_de (demo_file 0))\<lparr>deAttributes := ATTR_DIRECTORY\<rparr>\<rparr>, 0,
         Some (cntobn demo_fs CLUST_FIRST), Some DOSFSROOT)"
  by (rule root_search_overruns [OF demo_geo])
    (simp_all add: demo_file_def ATTR_DIRECTORY_def DOSFSROOT_def demo_fs_def)

section \<open>Witnesses\<close>

text \<open>A directory of one cluster, never used, and a directory with one entry.\<close>

definition demo_dir :: denode where
  "demo_dir = demo_open\<lparr>de_de := (de_de demo_open)\<lparr>deAttributes := ATTR_DIRECTORY\<rparr>,
     de_frspace := 1, de_froffset := 0, de_frcluster := 2\<rparr>"

lemma demo_new_entry: "direntry_wf (de_de demo_open)" "live (de_de demo_open)"
  by (simp_all add: demo_open_def direntry_wf_def live_def name0_def SLOT_EMPTY_def SLOT_DELETED_def)

lemma blank_dead: "\<not> live blank_entry"
  by (simp add: live_def blank_name0)

lemma demo_empty_dir:
  obtains d pvp where "vol_ok pvp (ram_view d)" and "geo_ok pvp" and "ram_heldset d = {}" and "file_ok pvp (ram_view d) demo_dir [2]"
    and "\<not> de_vroot demo_dir" and "free_set pvp (ram_view d) \<noteq> {} \<and> FAT12 pvp \<longrightarrow> Min (free_set pvp (ram_view d)) < 4080"
    and "dir_list pvp (ram_view d) [2] = map (\<lambda>k. (2, k, blank_entry)) [0..<32]" and "same_fs demo_fs pvp"
proof -
  obtain d pvp where e: "vol_ok pvp (ram_view d)" "geo_ok pvp" "ram_heldset d = {}" "file_ok pvp (ram_view d) demo_open [2]"
      "same_fs demo_fs pvp" "free_set pvp (ram_view d) = {3..400}"
      "\<forall>s. s \<notin> fatblks demo_fs \<longrightarrow> ram_view d s = ram_view demo_dev s" by (rule demo_one_file)
  have fl: "file_ok pvp (ram_view d) demo_dir [2]" using e(4) by (simp add: demo_dir_def file_ok_def fc_ok_def)
  have vr: "\<not> de_vroot demo_dir" by (simp add: demo_dir_def demo_open_def demo_file_def)
  have "Min {3..400::nat} = 3" by (rule Min_eqI) auto
  then have mn: "Min (free_set pvp (ram_view d)) < 4080" unfolding e(6) by simp
  have "entry_at demo_fs (ram_view d) 2 k = blank_entry" if "k < 32" for k
  proof -
    have "cntobn demo_fs 2 + k div 16 \<notin> fatblks demo_fs" by (simp add: cntobn_def CLUST_FIRST_def demo_fs_def fatblks_def)
    then have "ram_view d (cntobn demo_fs 2 + k div 16) = replicate 512 0" using e(7) by (simp add: ram_view_def demo_dev_def DEV_BSIZE_def)
    then show ?thesis using zero_slot [of "k mod 16" 512] slot16 [of k]
      by (simp add: entry_at_def slot_base_def sec_slot_def DOSFSROOT_def DEV_BSIZE_def)
  qed
  then have "dir_list demo_fs (ram_view d) [2] = map (\<lambda>k. (2, k, blank_entry)) [0..<32]"
    by (simp add: dir_list_def clus_entries_def demo_fs_def del: upt_rec_numeral)
  then have dl: "dir_list pvp (ram_view d) [2] = map (\<lambda>k. (2, k, blank_entry)) [0..<32]"
    by (simp only: same_fs_dir(3) [OF e(5)])
  show ?thesis by (rule that [OF e(1-3) fl vr _ dl e(5)]) (use mn in simp)
qed

lemma sorted_blank: "\<forall>x \<in> set es. name0 (ent x) = SLOT_EMPTY \<Longrightarrow> sorted_wrt used_before es"
  by (induction es) simp_all

lemma blank_dir:
  assumes es: "es = map (\<lambda>k. (c, k, blank_entry)) [0..<Suc n]"
  shows "dir_ok es" and "dmap es nm = None" and "dir_free es = Some (c, 0, blank_entry)" and "only_dots es"
proof -
  have n: "lnames es = []" by (simp add: es lnames_def filter_empty_conv blank_dead)
  have "sorted_wrt used_before es" by (rule sorted_blank) (simp add: es blank_name0)
  moreover have "distinct (map key es)" by (auto simp: es distinct_map inj_on_def)
  ultimately show ok: "dir_ok es" by (simp add: dir_ok_def n)
  show "dmap es nm = None" by (simp add: dmap_None [OF ok] n)
  have h: "es = (c, 0, blank_entry) # map (\<lambda>k. (c, k, blank_entry)) [Suc 0..<Suc n]" unfolding es by (simp add: upt_conv_Cons del: upt_Suc)
  show "dir_free es = Some (c, 0, blank_entry)" unfolding h dir_free_find by (simp add: blank_name0 del: upt_Suc)
  show "only_dots es" unfolding h by (simp add: only_dots_simps blank_name0 del: upt_Suc)
qed

lemma demo_good: "\<forall>lb. lgeterror good_io lb = 0" "\<forall>lb. lgeterror good_io lb \<noteq> E2BIG"
  by (simp_all add: good_err E2BIG_def)

theorem dirlook_searches_witness:
  "\<exists>d pvp d' dp'. dosfs_dirlook good_io demo_ccnv (\<lambda>_. None :: nat option) pvp 2 d demo_dir [DOT, DOT, 0] True
     = Some (d', dp', Is_error ENOENT) \<and> de_frcluster dp' = 2"
proof -
  obtain d pvp where e: "vol_ok pvp (ram_view d)" "geo_ok pvp" "ram_heldset d = {}" "file_ok pvp (ram_view d) demo_dir [2]"
      "dir_list pvp (ram_view d) [2] = map (\<lambda>k. (2, k, blank_entry)) [0..<32]" by (rule demo_empty_dir) (rule that)
  have m: "mount_ok pvp" using e(1) by (simp add: vol_ok_def)
  have es: "dir_list pvp (ram_view d) [2] = map (\<lambda>k. (2, k, blank_entry)) [0..<Suc 31]" using e(5) by simp
  note b = blank_dir(2,3) [OF es]
  have a: "[2::nat] \<noteq> []" "length [2::nat] < 2" "de_Attributes demo_dir AND ATTR_DIRECTORY \<noteq> 0" "0 \<in> set [DOT, DOT, 0]"
      "(2::nat) = length (takeWhile (\<lambda>c. c \<noteq> 0) [DOT, DOT, 0])" "(2::nat) \<noteq> 0" "\<not> (2 = (1::nat) \<and> [DOT, DOT, 0] ! 0 = DOT)"
    by (simp_all add: demo_dir_def ATTR_DIRECTORY_def)
  have u: "unix2dosfn demo_ccnv [DOT, DOT, 0] 2 = Some (0, dotdot_name)"
  proof -
    have "replicate 11 BLANK = BLANK # BLANK # replicate 9 BLANK" by (simp add: numeral_eq_Suc)
    then show ?thesis by (simp add: unix2dosfn_def dotdot_name_def)
  qed
  have mi: "(\<lambda>_. None :: nat option) dotdot_name = None" by simp
  from dirlook_searches [OF good_io_ok m e(2) demo_good(2) a(1) e(4,3) a(2-7) u mi, of True] b demo_good(1)
  show ?thesis by (auto simp: dmap_def free_noted_def dev_err_def)
qed

theorem createde_inserts_witness:
  "\<exists>d pvp d' pvp' ddep' e ys c k. createde good_io pvp d demo_open demo_dir = Some (d', pvp', ddep', e)
    \<and> dmap (dir_list pvp' (ram_view d') ys) (name11 (de_de demo_open)) = Some (c, k, de_de demo_open)"
proof -
  obtain d pvp where e: "vol_ok pvp (ram_view d)" "geo_ok pvp" "ram_heldset d = {}" "file_ok pvp (ram_view d) demo_dir [2]"
      "\<not> de_vroot demo_dir" "free_set pvp (ram_view d) \<noteq> {} \<and> FAT12 pvp \<longrightarrow> Min (free_set pvp (ram_view d)) < 4080"
      "dir_list pvp (ram_view d) [2] = map (\<lambda>k. (2, k, blank_entry)) [0..<32]" by (rule demo_empty_dir) (rule that)
  have es: "dir_list pvp (ram_view d) [2] = map (\<lambda>k. (2, k, blank_entry)) [0..<Suc 31]" using e(7) by simp
  note b = blank_dir [OF es]
  have a: "[2::nat] \<noteq> []" "length [2::nat] + 1 < 0xffff" by simp_all
  have nt: "free_noted (dir_list pvp (ram_view d) [2]) demo_dir" using b(3) by (simp add: free_noted_def demo_dir_def)
  have nf: "\<not> (dir_free (dir_list pvp (ram_view d) [2]) = None \<and> free_set pvp (ram_view d) = {})" using b(3) by simp
  obtain d' pvp' ddep' e ys c k where r: "createde good_io pvp d demo_open demo_dir = Some (d', pvp', ddep', e)"
      "dmap (dir_list pvp' (ram_view d') ys)
        = (dmap (dir_list pvp (ram_view d) [2]))(name11 (de_de demo_open) \<mapsto> (c, k, de_de demo_open))"
    using createde_inserts [OF good_io_ok demo_good(1) e(1-3) a(1) e(4) a(2) e(5,6) demo_new_entry b(1) nt b(2)]
    unfolding if_not_P [OF nf] by (elim exE conjE) (rule that)
  have "dmap (dir_list pvp' (ram_view d') ys) (name11 (de_de demo_open)) = Some (c, k, de_de demo_open)" unfolding r(2) by simp
  with r(1) show ?thesis by (intro exI conjI)
qed

theorem create_then_lookup_witness:
  "\<exists>d pvp d1 ddep1 d2 pvp2 ddep2 e. dirlook_name good_io pvp 3 d demo_dir (name11 (de_de demo_open)) True
       = Some (d1, ddep1, Is_error ENOENT :: nat lookup)
    \<and> createde good_io pvp d1 demo_open ddep1 = Some (d2, pvp2, ddep2, e)
    \<and> (\<exists>d3 ddep3 c k. dirlook_name good_io pvp2 3 d2 ddep2 (name11 (de_de demo_open)) False
          = Some (d3, ddep3, Is_entry c k (de_de demo_open) :: nat lookup))"
proof -
  obtain d pvp where e: "vol_ok pvp (ram_view d)" "geo_ok pvp" "ram_heldset d = {}" "file_ok pvp (ram_view d) demo_dir [2]"
      "\<not> de_vroot demo_dir" "free_set pvp (ram_view d) \<noteq> {} \<and> FAT12 pvp \<longrightarrow> Min (free_set pvp (ram_view d)) < 4080"
      "dir_list pvp (ram_view d) [2] = map (\<lambda>k. (2, k, blank_entry)) [0..<32]" by (rule demo_empty_dir) (rule that)
  have es: "dir_list pvp (ram_view d) [2] = map (\<lambda>k. (2, k, blank_entry)) [0..<Suc 31]" using e(7) by simp
  note b = blank_dir [OF es]
  have a: "[2::nat] \<noteq> []" "length [2::nat] + 1 < 0xffff" "length [2::nat] + 1 < 3" by simp_all
  have no: "\<not> dmap (dir_list pvp (ram_view d) [2]) (name11 (de_de demo_open)) \<noteq> None" using b(2) by simp
  from create_then_lookup [OF good_io_ok demo_good(1) e(1-3) a(1) e(4) a(2) e(5,6) demo_new_entry b(1) a(3), where 'v = nat]
  obtain d1 ddep1 r d2 pvp2 ddep2 e where r: "dirlook_name good_io pvp 3 d demo_dir (name11 (de_de demo_open)) True = Some (d1, ddep1, r :: nat lookup)"
      "r = Is_error ENOENT" "createde good_io pvp d1 demo_open ddep1 = Some (d2, pvp2, ddep2, e)"
      "e = ENOSPC \<and> free_set pvp (ram_view d) = {} \<and> dir_free (dir_list pvp (ram_view d) [2]) = None
       \<or> (\<exists>d3 ddep3 c k. dirlook_name good_io pvp2 3 d2 ddep2 (name11 (de_de demo_open)) False
          = Some (d3, ddep3, Is_entry c k (de_de demo_open) :: nat lookup))"
    unfolding if_not_P [OF no] by (elim exE conjE) (rule that)
  have l: "\<exists>d3 ddep3 c k. dirlook_name good_io pvp2 3 d2 ddep2 (name11 (de_de demo_open)) False
      = Some (d3, ddep3, Is_entry c k (de_de demo_open) :: nat lookup)" using r(4) b(3) by simp
  show ?thesis
    by (rule exI [of _ d], rule exI [of _ pvp], rule exI [of _ d1], rule exI [of _ ddep1], rule exI [of _ d2], rule exI [of _ pvp2],
        rule exI [of _ ddep2], rule exI [of _ e], rule conjI [OF r(1) [unfolded r(2)] conjI [OF r(3) l]])
qed

theorem dosdirempty_decides_witness:
  "\<exists>d pvp d' dp'. dosdirempty good_io pvp 2 d demo_dir = Some (d', dp', 1)"
proof -
  obtain d pvp where e: "vol_ok pvp (ram_view d)" "geo_ok pvp" "ram_heldset d = {}" "file_ok pvp (ram_view d) demo_dir [2]"
      "dir_list pvp (ram_view d) [2] = map (\<lambda>k. (2, k, blank_entry)) [0..<32]" by (rule demo_empty_dir) (rule that)
  have m: "mount_ok pvp" using e(1) by (simp add: vol_ok_def)
  have es: "dir_list pvp (ram_view d) [2] = map (\<lambda>k. (2, k, blank_entry)) [0..<Suc 31]" using e(5) by simp
  have a: "[2::nat] \<noteq> []" "length [2::nat] < 2" by simp_all
  from dosdirempty_decides [OF good_io_ok m e(2) demo_good(1) a(1) e(4,3) a(2)] blank_dir(4) [OF es] show ?thesis by auto
qed

lemma demo_one_entry:
  obtains d pvp dd c k where "vol_ok pvp (ram_view d)" and "geo_ok pvp" and "ram_heldset d = {}" and "file_ok pvp (ram_view d) dd [2]"
    and "dir_ok (dir_list pvp (ram_view d) [2])" and "(c, k, de_de demo_open) \<in> set (dir_list pvp (ram_view d) [2])"
proof -
  obtain d pvp where e: "vol_ok pvp (ram_view d)" "geo_ok pvp" "ram_heldset d = {}" "file_ok pvp (ram_view d) demo_dir [2]"
      "\<not> de_vroot demo_dir" "free_set pvp (ram_view d) \<noteq> {} \<and> FAT12 pvp \<longrightarrow> Min (free_set pvp (ram_view d)) < 4080"
      "dir_list pvp (ram_view d) [2] = map (\<lambda>k. (2, k, blank_entry)) [0..<32]" by (rule demo_empty_dir) (rule that)
  have es: "dir_list pvp (ram_view d) [2] = map (\<lambda>k. (2, k, blank_entry)) [0..<Suc 31]" using e(7) by simp
  note b = blank_dir [OF es]
  have a: "[2::nat] \<noteq> []" "length [2::nat] + 1 < 0xffff" by simp_all
  have nt: "free_noted (dir_list pvp (ram_view d) [2]) demo_dir" using b(3) by (simp add: free_noted_def demo_dir_def)
  show ?thesis
  proof (cases rule: createde_ok [OF good_io_ok demo_good(1) e(1-3) a(1) e(4) a(2) e(5,6) demo_new_entry b(1) nt b(2), case_names full made])
    case (full d' ddep')
    then show ?thesis using b(3) by simp
  next
    case (made d' pvp' ddep' x ys c k)
    have ys: "ys = [2]" using made(6) b(3) by simp
    have "dmap (dir_list pvp' (ram_view d') [2]) (name11 (de_de demo_open)) = Some (c, k, de_de demo_open)"
      using made(8) unfolding ys by simp
    then have "(c, k, de_de demo_open) \<in> set (dir_list pvp' (ram_view d') [2])"
      unfolding dmap_Some [OF made(7) [unfolded ys]] by blast
    moreover have "geo_ok pvp'" using geo_ok_geo [OF made(3)] e(2) by simp
    ultimately show ?thesis using made(2,4,5,7) unfolding ys by (intro that)
  qed
qed

theorem removede_removes_witness:
  "\<exists>d pvp dp d' dp'. removede good_io pvp d dp = Some (d', dp', 0) \<and> de_refcnt dp' = 0
    \<and> dmap (dir_list pvp (ram_view d') [2]) (name11 (de_de demo_open)) = None"
proof -
  obtain d pvp dd c k where e: "vol_ok pvp (ram_view d)" "geo_ok pvp" "ram_heldset d = {}" "file_ok pvp (ram_view d) dd [2]"
    "dir_ok (dir_list pvp (ram_view d) [2])" "(c, k, de_de demo_open) \<in> set (dir_list pvp (ram_view d) [2])"
    by (rule demo_one_entry)
  let ?dp = "demo_open\<lparr>de_dirclust := c, de_diroffset := k\<rparr>"
  have mem: "(de_dirclust ?dp, de_diroffset ?dp, de_de demo_open) \<in> set (dir_list pvp (ram_view d) [2])" using e(6) by simp
  obtain d' dp' x where r: "removede good_io pvp d ?dp = Some (d', dp', x)" "dp' = ?dp\<lparr>de_refcnt := de_refcnt ?dp - 1\<rparr>"
      "if x = 0 then dir_ok (dir_list pvp (ram_view d') [2]) \<and> dmap (dir_list pvp (ram_view d') [2])
          = (dmap (dir_list pvp (ram_view d) [2]))(name11 (de_de demo_open) := None)
       else dev_err good_io x \<and> ram_view d' = ram_view d"
    using removede_removes [OF good_io_ok e(1-5) mem demo_new_entry(2)] by (elim exE conjE) (rule that)
  have x: "x = 0" using r(3) no_dev_err [OF demo_good(1)] by (auto split: if_splits)
  have "dmap (dir_list pvp (ram_view d') [2]) (name11 (de_de demo_open)) = None" using r(3) x by simp
  moreover have "de_refcnt dp' = 0" using r(2) by (simp add: demo_open_def demo_file_def)
  ultimately show ?thesis using r(1) x by blast
qed

theorem dosdirempty_unreadable_witness:
  "\<exists>d' dp'. dosdirempty ram_io demo_fs 1 (demo_dev\<lparr>r_bad := [9]\<rparr>) demo_dir = Some (d', dp', EIO)"
proof -
  obtain d pvp where e: "vol_ok pvp (ram_view d)" "file_ok pvp (ram_view d) demo_dir [2]" "same_fs demo_fs pvp"
    by (rule demo_empty_dir) (rule that)
  have fl: "file_ok demo_fs (ram_view d) demo_dir [2]"
    using e(2) by (simp add: file_ok_def same_fs_file(1) [OF e(3)] busy_def free_set_def same_fs_geo [OF e(3)])
  have a: "[2::nat] \<noteq> []" "0 < (1::nat)" by simp_all
  have "\<exists>d1 lb. lbread ram_io (demo_dev\<lparr>r_bad := [9]\<rparr>) 9 (2 * DEV_BSIZE) = Some (d1, lb) \<and> lgeterror ram_io lb = EIO"
  proof -
    have "[0..<2 * DEV_BSIZE div DEV_BSIZE] = [0, 1]" by (simp add: DEV_BSIZE_def numeral_2_eq_2)
    then show ?thesis
      by (simp add: lbread_def lb_gather_def MAXCLUSTBLOCKS_def lgeterror_def ram_io_def ram_read_def EIO_def Let_def)
  qed
  then obtain d1 lb where b: "lbread ram_io (demo_dev\<lparr>r_bad := [9]\<rparr>) (cntobn demo_fs (hd [2])) (vfs_bpcluster demo_fs) = Some (d1, lb)"
      "lgeterror ram_io lb = EIO" by (auto simp: demo_fs_def cntobn_def CLUST_FIRST_def DEV_BSIZE_def)
  have z: "lgeterror ram_io lb \<noteq> 0" using b(2) by (simp add: EIO_def)
  from dosdirempty_unreadable [OF demo_mount a(1) fl a(2) b(1) z] show ?thesis using b(2) by auto
qed

end
