(* ===== verification/LinkList.thy ===== *)
theory LinkList
  imports LinkRing
begin

text \<open>
  Doubly linked lists that end in a null pointer, with a pointer to the first and one to the last node,
  the counterpart of \<open>LinkRing\<close>. The locale \<open>linked_list\<close> is the interface of a node with two such links; removal
  of any node and insertion at either end are proved to be the list operations.
\<close>

definition last_of :: "nat list \<Rightarrow> nat option" where
  "last_of xs = (if xs = [] then None else Some (last xs))"

lemma last_of_simps [simp]: "last_of [] = None" "last_of (xs @ [x]) = Some x" "last_of [x] = Some x"
  by (simp_all add: last_of_def)

lemma last_of_None [simp]: "last_of xs = None \<longleftrightarrow> xs = []"
  by (simp add: last_of_def)

lemma last_of_append: "last_of (xs @ ys) = (if ys = [] then last_of xs else last_of ys)"
  by (simp add: last_of_def)

lemma last_of_Cons: "xs \<noteq> [] \<Longrightarrow> last_of (x # xs) = last_of xs"
  by (simp add: last_of_def)

text \<open>A pointer, or another one if it is null.\<close>

definition or_else :: "nat option \<Rightarrow> nat option \<Rightarrow> nat option" where
  "or_else a b = (case a of None \<Rightarrow> b | Some x \<Rightarrow> Some x)"

lemma or_else_simps [simp]: "or_else None b = b" "or_else (Some x) b = Some x" "or_else a None = a"
  by (simp_all add: or_else_def split: option.split)

locale linked_list =
  fixes nx pv :: "'n \<Rightarrow> nat option"
    and snx spv :: "nat option \<Rightarrow> 'n \<Rightarrow> 'n"
    and pay :: "'n \<Rightarrow> 'p"
  assumes nx_snx [simp]: "nx (snx i n) = i"
    and pv_spv [simp]: "pv (spv i n) = i"
    and nx_spv [simp]: "nx (spv i n) = nx n"
    and pv_snx [simp]: "pv (snx i n) = pv n"
    and pay_snx [simp]: "pay (snx i n) = pay n"
    and pay_spv [simp]: "pay (spv i n) = pay n"
begin

text \<open>\<open>lseg ns p xs q\<close>: the nodes \<open>xs\<close> follow one another, with \<open>p\<close> before the first and \<open>q\<close> after the last.\<close>

fun lseg :: "'n list \<Rightarrow> nat option \<Rightarrow> nat list \<Rightarrow> nat option \<Rightarrow> bool" where
  "lseg ns p [] q = True"
| "lseg ns p (x # xs) q \<longleftrightarrow> pv (ns ! x) = p \<and> nx (ns ! x) = or_else (head_of xs) q \<and> lseg ns (Some x) xs q"

definition list_at :: "'n list \<Rightarrow> nat option \<Rightarrow> nat option \<Rightarrow> nat list \<Rightarrow> bool" where
  "list_at ns h t xs \<longleftrightarrow> distinct xs \<and> set xs \<subseteq> {..<length ns} \<and> lseg ns None xs None \<and> h = head_of xs \<and> t = last_of xs"

definition list_del :: "nat option \<Rightarrow> nat option \<Rightarrow> 'n list \<Rightarrow> nat \<Rightarrow> nat option \<times> nat option \<times> 'n list" where
  "list_del h t ns c =
    (let (h, ns) = (case pv (ns ! c) of Some b \<Rightarrow> (h, upd ns b (snx (nx (ns ! c)))) | None \<Rightarrow> (nx (ns ! c), ns));
         (t, ns) = (case nx (ns ! c) of Some f \<Rightarrow> (t, upd ns f (spv (pv (ns ! c)))) | None \<Rightarrow> (pv (ns ! c), ns));
         ns = upd ns c (snx None);
         ns = upd ns c (spv None)
     in (h, t, ns))"

definition list_push :: "nat option \<Rightarrow> nat option \<Rightarrow> 'n list \<Rightarrow> nat \<Rightarrow> nat option \<times> nat option \<times> 'n list" where
  "list_push h t ns c =
    (let ns = upd ns c (snx h);
         ns = upd ns c (spv None)
     in case h of None \<Rightarrow> (Some c, Some c, ns) | Some f \<Rightarrow> (Some c, t, upd ns f (spv (Some c))))"

definition list_app :: "nat option \<Rightarrow> nat option \<Rightarrow> 'n list \<Rightarrow> nat \<Rightarrow> nat option \<times> nat option \<times> 'n list" where
  "list_app h t ns c =
    (let ns = upd ns c (snx None);
         ns = upd ns c (spv t)
     in case t of None \<Rightarrow> (Some c, Some c, ns) | Some l \<Rightarrow> (h, Some c, upd ns l (snx (Some c))))"

lemma lseg_append: "lseg ns p (xs @ ys) q \<longleftrightarrow> lseg ns p xs (or_else (head_of ys) q) \<and> lseg ns (or_else (last_of xs) p) ys q"
proof (induction xs arbitrary: p)
  case (Cons x xs)
  then show ?case by (cases xs; cases ys) (auto simp: last_of_def)
qed simp

text \<open>Relinking: the links inside a segment stay, the outer ones may change.\<close>

lemma lseg_relink:
  assumes "lseg ns p xs q" and "distinct xs"
    and "\<And>a. a \<in> set (butlast xs) \<Longrightarrow> nx (ms ! a) = nx (ns ! a)" and "\<And>a. a \<in> set (tl xs) \<Longrightarrow> pv (ms ! a) = pv (ns ! a)"
    and "xs \<noteq> [] \<Longrightarrow> pv (ms ! hd xs) = p' \<and> nx (ms ! last xs) = q'"
  shows "lseg ms p' xs q'"
  using assms
proof (induction xs arbitrary: p p')
  case (Cons x xs)
  show ?case
  proof (cases xs)
    case Nil
    then show ?thesis using Cons.prems by simp
  next
    case (Cons y ys)
    have "lseg ms (Some x) xs q'"
    proof (rule Cons.IH)
      show "lseg ns (Some x) xs q" "distinct xs" using Cons.prems by simp_all
      show "pv (ms ! hd xs) = Some x \<and> nx (ms ! last xs) = q'" if "xs \<noteq> []"
        using Cons.prems Cons by auto
    qed (use Cons.prems Cons in \<open>auto dest: list.set_sel(2)\<close>)
    then show ?thesis using Cons.prems Cons by auto
  qed
qed simp

lemma lseg_last: "lseg ns p xs q \<Longrightarrow> xs \<noteq> [] \<Longrightarrow> nx (ns ! last xs) = q"
  by (induction xs arbitrary: p) (auto split: if_splits)

lemma lseg_frame:
  assumes "lseg ns p xs q" and "\<And>a. a \<in> set xs \<Longrightarrow> nx (ms ! a) = nx (ns ! a) \<and> pv (ms ! a) = pv (ns ! a)"
  shows "lseg ms p xs q"
  using assms by (induction xs arbitrary: p) auto

lemma list_frame:
  assumes "list_at ns h t xs" and "length ms = length ns"
    and "\<And>a. a \<in> set xs \<Longrightarrow> nx (ms ! a) = nx (ns ! a) \<and> pv (ms ! a) = pv (ns ! a)"
  shows "list_at ms h t xs"
  using assms lseg_frame [of ns None xs None ms] by (simp add: list_at_def)

lemma list_op_pay:
  "map pay (snd (snd (list_del h t ns c))) = map pay ns"
  "map pay (snd (snd (list_push h t ns c))) = map pay ns"
  "map pay (snd (snd (list_app h t ns c))) = map pay ns"
  by (rule nth_equalityI; auto simp: list_del_def list_push_def list_app_def Let_def nth_upd split: option.split)+

lemma list_op_length [simp]:
  "length (snd (snd (list_del h t ns c))) = length ns"
  "length (snd (snd (list_push h t ns c))) = length ns"
  "length (snd (snd (list_app h t ns c))) = length ns"
  using list_op_pay [THEN arg_cong, of length] by simp_all

lemma list_del_list:
  assumes l: "list_at ns h t (ys @ c # zs)"
  shows "\<exists>ms h' t'. list_del h t ns c = (h', t', ms) \<and> list_at ms h' t' (ys @ zs) \<and> nx (ms ! c) = None \<and> pv (ms ! c) = None
    \<and> (\<forall>a < length ns. a \<notin> set (ys @ c # zs) \<longrightarrow> ms ! a = ns ! a)"
proof -
  have s: "lseg ns None ys (Some c)" "pv (ns ! c) = last_of ys" "nx (ns ! c) = head_of zs" "lseg ns (Some c) zs None"
    using l by (simp_all add: list_at_def lseg_append)
  have d: "distinct ys" "distinct zs" "c \<notin> set ys" "c \<notin> set zs" "set ys \<inter> set zs = {}" "c < length ns"
      "set ys \<subseteq> {..<length ns}" "set zs \<subseteq> {..<length ns}" and h: "h = head_of (ys @ c # zs)" "t = last_of (ys @ c # zs)"
    using l by (auto simp: list_at_def)
  let ?r = "list_del h t ns c"
  let ?ms = "snd (snd ?r)"
  have lz: "last ys < length ns" "last ys \<noteq> c" "last ys \<notin> set zs" if "ys \<noteq> []"
    using d last_in_set [OF that] by auto
  have hz: "hd zs < length ns" "hd zs \<noteq> c" "hd zs \<notin> set ys" if "zs \<noteq> []"
    using d hd_in_set [OF that] by auto
  define n1 where "n1 = (if ys = [] then ns else upd ns (last ys) (snx (head_of zs)))"
  define n2 where "n2 = (if zs = [] then n1 else upd n1 (hd zs) (spv (last_of ys)))"
  have l1: "length n1 = length ns" "length n2 = length ns" by (simp_all add: n1_def n2_def)
  have c1: "n1 ! c = ns ! c" using d(6) lz(2) by (cases "ys = []") (auto simp: n1_def nth_upd)
  have "(case pv (ns ! c) of Some b \<Rightarrow> (h, upd ns b (snx (nx (ns ! c)))) | None \<Rightarrow> (nx (ns ! c), ns))
      = (case last_of ys of Some b \<Rightarrow> h | None \<Rightarrow> head_of zs, n1)"
    unfolding s(2,3) n1_def by (cases "ys = []") (simp_all add: last_of_def)
  moreover have "(case nx (n1 ! c) of Some f \<Rightarrow> (t, upd n1 f (spv (pv (n1 ! c)))) | None \<Rightarrow> (pv (n1 ! c), n1))
      = (case head_of zs of Some f \<Rightarrow> t | None \<Rightarrow> last_of ys, n2)"
    unfolding c1 s(2,3) n2_def by (cases zs) simp_all
  ultimately have r: "?r = (case last_of ys of Some b \<Rightarrow> h | None \<Rightarrow> head_of zs, case head_of zs of Some f \<Rightarrow> t | None \<Rightarrow> last_of ys,
      upd (upd n2 c (snx None)) c (spv None))"
    by (simp add: list_del_def Let_def)
  then have ms: "?ms = upd (upd n2 c (snx None)) c (spv None)" by simp
  have nx: "nx (?ms ! a) = (if a = c then None else if ys \<noteq> [] \<and> a = last ys then head_of zs else nx (ns ! a))" if "a < length ns" for a
    unfolding ms using that l1 by (cases "ys = []"; cases "zs = []") (simp_all add: nth_upd n2_def n1_def)
  have pv: "pv (?ms ! a) = (if a = c then None else if zs \<noteq> [] \<and> a = hd zs then last_of ys else pv (ns ! a))" if "a < length ns" for a
    unfolding ms using that l1 by (cases "ys = []"; cases "zs = []") (simp_all add: nth_upd n2_def n1_def)
  have other: "?ms ! a = ns ! a" if "a < length ns" "a \<notin> set (ys @ c # zs)" for a
  proof -
    have "ys \<noteq> [] \<Longrightarrow> a \<noteq> last ys" "zs \<noteq> [] \<Longrightarrow> a \<noteq> hd zs" "a \<noteq> c" using that(2) by auto
    then show ?thesis unfolding ms using that(1) l1 by (cases "ys = []"; cases "zs = []") (simp_all add: nth_upd n2_def n1_def)
  qed
  have y: "lseg ?ms None ys (head_of zs)"
  proof (rule lseg_relink [OF s(1) d(1)])
    fix a assume a: "a \<in> set (butlast ys)"
    then have "a \<in> set ys" "a \<noteq> last ys" using d(1) by (cases ys rule: rev_cases; auto)+
    then show "nx (?ms ! a) = nx (ns ! a)" using nx [of a] d by auto
  next
    fix a assume "a \<in> set (tl ys)"
    then have "a \<in> set ys" by (cases ys) auto
    then have "a \<noteq> c" "a < length ns" "\<not> (zs \<noteq> [] \<and> a = hd zs)" using d hz(3) by blast+
    then show "pv (?ms ! a) = pv (ns ! a)" using pv [of a] by (cases "zs = []") simp_all
  next
    assume ne: "ys \<noteq> []"
    then show "pv (?ms ! hd ys) = None \<and> nx (?ms ! last ys) = head_of zs"
      using nx [of "last ys"] pv [of "hd ys"] lz d hz(3) s(1) hd_in_set [OF ne] by (cases ys) auto
  qed
  have z: "lseg ?ms (last_of ys) zs None"
  proof (rule lseg_relink [OF s(4) d(2)])
    fix a assume "a \<in> set (butlast zs)"
    then have "a \<in> set zs" by (rule in_set_butlastD)
    then have "a \<noteq> c" "a < length ns" "\<not> (ys \<noteq> [] \<and> a = last ys)" using d lz(3) by blast+
    then show "nx (?ms ! a) = nx (ns ! a)" using nx [of a] by (cases "ys = []") simp_all
  next
    fix a assume a: "a \<in> set (tl zs)"
    then have "a \<in> set zs" "a \<noteq> hd zs" using d(2) by (cases zs; auto)+
    then show "pv (?ms ! a) = pv (ns ! a)" using pv [of a] d by auto
  next
    assume ne: "zs \<noteq> []"
    have "nx (ns ! last zs) = None" by (rule lseg_last [OF s(4) ne])
    have "last zs \<noteq> c" "last zs < length ns" "\<not> (ys \<noteq> [] \<and> last zs = last ys)"
      using d lz(3) last_in_set [OF ne] by (blast, blast, metis)
    then have "nx (?ms ! last zs) = None" using nx [of "last zs"] \<open>nx (ns ! last zs) = None\<close> by (cases "ys = []") simp_all
    then show "pv (?ms ! hd zs) = last_of ys \<and> nx (?ms ! last zs) = None"
      using pv [of "hd zs"] hz(1,2) ne by simp
  qed
  have r12: "fst ?r = (case last_of ys of Some b \<Rightarrow> h | None \<Rightarrow> head_of zs)"
      "fst (snd ?r) = (case head_of zs of Some f \<Rightarrow> t | None \<Rightarrow> last_of ys)" unfolding r by simp_all
  have h': "fst ?r = head_of (ys @ zs)" using r12(1) h(1) by (cases ys) (simp_all add: last_of_def)
  have t': "fst (snd ?r) = last_of (ys @ zs)" using r12(2) h(2) by (cases zs) (simp_all add: last_of_def)
  have "list_at ?ms (fst ?r) (fst (snd ?r)) (ys @ zs)"
    using y z d h' t' by (auto simp: list_at_def lseg_append)
  then show ?thesis using other nx [of c] pv [of c] d(6) by (intro exI [of _ ?ms] exI [of _ "fst ?r"] exI [of _ "fst (snd ?r)"]) simp
qed

lemma list_push_list:
  assumes l: "list_at ns h t xs" and c: "c < length ns" "c \<notin> set xs"
  shows "\<exists>ms h' t'. list_push h t ns c = (h', t', ms) \<and> list_at ms h' t' (c # xs)
    \<and> (\<forall>a < length ns. a \<notin> set xs \<and> a \<noteq> c \<longrightarrow> ms ! a = ns ! a)"
proof (cases xs)
  case Nil
  then show ?thesis using l c by (simp add: list_at_def list_push_def nth_upd)
next
  case (Cons f ys)
  let ?ms = "upd (upd (upd ns c (snx (Some f))) c (spv None)) f (spv (Some c))"
  have f: "f < length ns" "f \<noteq> c" and h: "h = Some f" "t = last_of xs" and d: "distinct xs" using l c Cons by (auto simp: list_at_def)
  have run: "list_push h t ns c = (Some c, t, ?ms)" by (simp add: list_push_def h Let_def)
  have sg: "lseg ns None xs None" using l by (simp add: list_at_def)
  have nxs: "nx (?ms ! a) = nx (ns ! a)" if "a \<in> set xs" for a using that l c f by (auto simp: list_at_def nth_upd)
  have "lseg ?ms (Some c) xs None"
  proof (rule lseg_relink [OF sg d])
    fix a assume "a \<in> set (butlast xs)"
    then show "nx (?ms ! a) = nx (ns ! a)" by (intro nxs) (rule in_set_butlastD)
  next
    fix a assume a: "a \<in> set (tl xs)"
    then have "a \<in> set xs" "a \<noteq> f" using d Cons by auto
    then show "pv (?ms ! a) = pv (ns ! a)" using l c by (auto simp: list_at_def nth_upd)
  next
    assume ne: "xs \<noteq> []"
    have "nx (?ms ! last xs) = None" using nxs [OF last_in_set [OF ne]] lseg_last [OF sg ne] by simp
    then show "pv (?ms ! hd xs) = Some c \<and> nx (?ms ! last xs) = None" using Cons f c by (simp add: nth_upd)
  qed
  then have "list_at ?ms (Some c) t (c # xs)" using l c f h Cons by (auto simp: list_at_def nth_upd last_of_Cons)
  then show ?thesis using run Cons by (auto simp: nth_upd)
qed

lemma list_app_list:
  assumes l: "list_at ns h t xs" and c: "c < length ns" "c \<notin> set xs"
  shows "\<exists>ms h' t'. list_app h t ns c = (h', t', ms) \<and> list_at ms h' t' (xs @ [c])
    \<and> (\<forall>a < length ns. a \<notin> set xs \<and> a \<noteq> c \<longrightarrow> ms ! a = ns ! a)"
proof (cases xs rule: rev_cases)
  case Nil
  then show ?thesis using l c by (simp add: list_at_def list_app_def nth_upd)
next
  case (snoc ys e)
  let ?ms = "upd (upd (upd ns c (snx None)) c (spv (Some e))) e (snx (Some c))"
  have e: "e < length ns" "e \<noteq> c" and t: "t = Some e" "h = head_of xs" and d: "distinct xs" using l c snoc by (auto simp: list_at_def)
  have run: "list_app h t ns c = (h, Some c, ?ms)" by (simp add: list_app_def t Let_def)
  have s: "lseg ns None xs None" using l by (simp add: list_at_def)
  have "lseg ?ms None xs (Some c)"
  proof (rule lseg_relink [OF s d])
    fix a assume a: "a \<in> set (butlast xs)"
    then have "a \<in> set xs" "a \<noteq> e" using d snoc by auto
    then show "nx (?ms ! a) = nx (ns ! a)" using l c by (auto simp: list_at_def nth_upd)
  next
    fix a assume "a \<in> set (tl xs)"
    then have "a \<in> set xs" by (cases xs) auto
    then show "pv (?ms ! a) = pv (ns ! a)" using l c by (auto simp: list_at_def nth_upd)
  next
    assume ne: "xs \<noteq> []"
    have "hd xs \<in> set xs" by (rule hd_in_set [OF ne])
    then have "pv (?ms ! hd xs) = pv (ns ! hd xs)" using l c by (auto simp: list_at_def nth_upd)
    moreover have "pv (ns ! hd xs) = None" using s ne by (cases xs) auto
    ultimately show "pv (?ms ! hd xs) = None \<and> nx (?ms ! last xs) = Some c" using snoc e c by (simp add: nth_upd)
  qed
  moreover have "head_of (xs @ [c]) = h" using head_of_append [of xs "[c]"] snoc t(2) by simp
  ultimately have "list_at ?ms h (Some c) (xs @ [c])"
    using l c e snoc by (auto simp: list_at_def lseg_append nth_upd last_of_def)
  then show ?thesis using run snoc by (auto simp: nth_upd)
qed

end

end
