(* ===== verification/Dcache.thy ===== *)
theory Dcache
  imports Denode LinkList
begin

text \<open>
  The table of in-core files (\<open>fs/dosfs/dosfs_denode.c\<close>): the hash chains denodes are found by, the free list
  they are recycled from, \<open>deget\<close>, the release of the last reference and the move to another chain. The table
  is an array; the 512 heads of the chains, which share the layout of the two chain pointers, follow
  the denodes in it, so a chain pointer is an index. The free list ends in null pointers.

  A sleep lock is held or not. Where the code would sleep the operation stops with \<open>Asleep\<close>, and a second
  definition has the rest, so that other operations can be put between. The hold \<open>VN_HOLD\<close> takes on a vnode and
  the purge of the cache of names, which may put denodes back, belong to the vnode layer and are arguments, and so is
  the flag \<open>dosfs_shared\<close>, which nothing in the module sets to anything but 0.
\<close>

definition DEHSZ :: nat where "DEHSZ = 512"
definition DEREF :: uint_t where "DEREF = 0x0100"
definition ENFILE :: nat where "ENFILE = 23"

record cnode =
  de_forw :: nat
  de_back :: nat
  de_freef :: "nat option"
  de_freeb :: "nat option"
  de_dev :: nat
  v_vfsp :: "nat option"
  v_count :: int
  v_dir :: bool
  de_locked :: bool
  de_node :: denode

record dcache =
  dc_nodes :: "cnode list"
  dfreeh :: "nat option"
  dfreet :: "nat option"
  ndenode :: nat

definition DEHASH :: "nat \<Rightarrow> nat \<Rightarrow> nat" where
  "DEHASH dev deno = uadd32 (uadd32 dev deno) (drop_bit 16 deno) AND (DEHSZ - 1)"

definition ISADIR :: "denode \<Rightarrow> bool" where
  "ISADIR dp \<longleftrightarrow> de_Attributes dp AND ATTR_DIRECTORY \<noteq> 0"

text \<open>The head of a chain, as an index.\<close>

definition dehead :: "dcache \<Rightarrow> nat \<Rightarrow> nat" where
  "dehead c h = ndenode c + h"

section \<open>Hash chains\<close>

definition dehash :: "cnode list \<Rightarrow> nat \<Rightarrow> nat \<Rightarrow> cnode list" where
  "dehash ns dp deh =
     (let ns = upd ns (de_forw (ns ! deh)) (de_back_update (\<lambda>_. dp));
          ns = upd ns dp (de_forw_update (\<lambda>_. de_forw (ns ! deh)));
          ns = upd ns deh (de_forw_update (\<lambda>_. dp))
      in upd ns dp (de_back_update (\<lambda>_. deh)))"

definition deunhash :: "cnode list \<Rightarrow> nat \<Rightarrow> cnode list" where
  "deunhash ns dp =
     (let ns = upd ns (de_back (ns ! dp)) (de_forw_update (\<lambda>_. de_forw (ns ! dp)));
          ns = upd ns (de_forw (ns ! dp)) (de_back_update (\<lambda>_. de_back (ns ! dp)));
          ns = upd ns dp (de_back_update (\<lambda>_. dp))
      in upd ns dp (de_forw_update (\<lambda>_. dp)))"

section \<open>The free list\<close>

text \<open>Taking a denode off wherever it is, taking the first one, putting one at the front or at the end.\<close>

definition free_unlink :: "dcache \<Rightarrow> nat \<Rightarrow> dcache" where
  "free_unlink c i =
     (let ns = dc_nodes c;
          (h, ns) = (case de_freeb (ns ! i) of
             Some b \<Rightarrow> (dfreeh c, upd ns b (de_freef_update (\<lambda>_. de_freef (ns ! i))))
           | None \<Rightarrow> (de_freef (ns ! i), ns));
          (t, ns) = (case de_freef (ns ! i) of
             Some f \<Rightarrow> (dfreet c, upd ns f (de_freeb_update (\<lambda>_. de_freeb (ns ! i))))
           | None \<Rightarrow> (de_freeb (ns ! i), ns));
          ns = upd ns i (de_freef_update (\<lambda>_. None));
          ns = upd ns i (de_freeb_update (\<lambda>_. None))
      in c\<lparr>dc_nodes := ns, dfreeh := h, dfreet := t\<rparr>)"

definition free_pop :: "dcache \<Rightarrow> nat \<Rightarrow> dcache" where
  "free_pop c i =
     (let ns = dc_nodes c;
          h = de_freef (ns ! i);
          (t, ns) = (case h of Some f \<Rightarrow> (dfreet c, upd ns f (de_freeb_update (\<lambda>_. None))) | None \<Rightarrow> (None, ns));
          ns = upd ns i (de_freef_update (\<lambda>_. None));
          ns = upd ns i (de_freeb_update (\<lambda>_. None))
      in c\<lparr>dc_nodes := ns, dfreeh := h, dfreet := t\<rparr>)"

definition free_front :: "dcache \<Rightarrow> nat \<Rightarrow> dcache" where
  "free_front c i =
     (let ns = upd (dc_nodes c) i (de_freef_update (\<lambda>_. dfreeh c));
          ns = upd ns i (de_freeb_update (\<lambda>_. None))
      in case dfreeh c of
           None \<Rightarrow> c\<lparr>dc_nodes := ns, dfreeh := Some i, dfreet := Some i\<rparr>
         | Some f \<Rightarrow> c\<lparr>dc_nodes := upd ns f (de_freeb_update (\<lambda>_. Some i)), dfreeh := Some i\<rparr>)"

definition free_end :: "dcache \<Rightarrow> nat \<Rightarrow> dcache option" where
  "free_end c i =
     (let ns = upd (dc_nodes c) i (de_freef_update (\<lambda>_. None));
          ns = upd ns i (de_freeb_update (\<lambda>_. dfreet c))
      in do {
        l \<leftarrow> dfreet c;
        Some (c\<lparr>dc_nodes := upd ns l (de_freef_update (\<lambda>_. Some i)), dfreet := Some i\<rparr>) })"

section \<open>Loading\<close>

definition zero_node :: cnode where
  "zero_node = \<lparr>de_forw = 0, de_back = 0, de_freef = None, de_freeb = None, de_dev = 0, v_vfsp = None, v_count = 0, v_dir = False,
     de_locked = False, de_node = \<lparr>de_flag = 0, de_dirclust = 0, de_diroffset = 0, de_refcnt = 0,
       de_de = direntry_of (replicate DIRENTSZ 0), de_fc = replicate FC_SIZE \<lparr>fc_frcn = 0, fc_fsrcn = 0\<rparr>,
       de_lastr = 0, de_frspace = 0, de_froffset = 0, de_frcluster = 0, de_vroot = False\<rparr>\<rparr>"

text \<open>The loop over the denodes, with \<open>i\<close> of them left from \<open>dp\<close> on; it yields the last one.\<close>

fun doinit_loop :: "nat \<Rightarrow> nat \<Rightarrow> cnode list \<Rightarrow> cnode list \<times> nat" where
  "doinit_loop i dp ns =
     (let ns = upd ns dp (de_forw_update (\<lambda>_. dp));
          ns = upd ns dp (de_back_update (\<lambda>_. dp))
      in if i \<le> 1 then (ns, dp)
         else (let ns = upd ns dp (de_freef_update (\<lambda>_. Some (dp + 1)));
                   ns = upd ns (dp + 1) (de_freeb_update (\<lambda>_. Some dp))
               in doinit_loop (i - 1) (dp + 1) ns))"

definition dosfs_doinit :: "nat \<Rightarrow> dcache option" where
  "dosfs_doinit n =
     (if n = 0 then None
      else let heads = map (\<lambda>h. zero_node\<lparr>de_forw := n + h, de_back := n + h\<rparr>) [0..<DEHSZ];
               ns = upd (replicate n zero_node @ heads) 0 (de_freeb_update (\<lambda>_. None));
               (ns, dp) = doinit_loop n 0 ns;
               ns = upd ns dp (de_freef_update (\<lambda>_. None))
           in Some \<lparr>dc_nodes = ns, dfreeh = Some 0, dfreet = Some dp, ndenode = n\<rparr>)"

section \<open>Getting a denode\<close>

text \<open>The file asked for: device, file system, and the place of its entry or, for a directory, its first cluster.\<close>

record dkey =
  k_dev :: nat
  k_vfsp :: nat
  k_isadir :: bool
  k_dirclust :: nat
  k_diroffset :: nat
  k_startclust :: nat

definition deget_head :: "dcache \<Rightarrow> dkey \<Rightarrow> nat" where
  "deget_head c k = dehead c (if k_isadir k then DEHASH (k_dev k) (k_startclust k)
     else DEHASH (k_dev k) (uadd32 (k_dirclust k) (k_diroffset k)))"

definition deget_match :: "dkey \<Rightarrow> cnode \<Rightarrow> bool" where
  "deget_match k n \<longleftrightarrow> k_dev k = de_dev n \<and> 0 < de_refcnt (de_node n) \<and> v_vfsp n = Some (k_vfsp k)
     \<and> (if ISADIR (de_node n) then de_StartCluster (de_node n) = k_startclust k \<and> k_isadir k
        else \<not> k_isadir k \<and> k_dirclust k = de_dirclust (de_node n) \<and> k_diroffset k = de_diroffset (de_node n))"

text \<open>The walk along the chain; one round more than there are denodes is enough for a chain that is a ring.\<close>

fun deget_scan :: "nat \<Rightarrow> cnode list \<Rightarrow> dkey \<Rightarrow> nat \<Rightarrow> nat \<Rightarrow> nat option option" where
  "deget_scan 0 ns k deh ldep = None"
| "deget_scan (Suc n) ns k deh ldep =
     (if ldep = deh then Some None
      else if deget_match k (ns ! ldep) then Some (Some ldep)
      else deget_scan n ns k deh (de_forw (ns ! ldep)))"

datatype got = Got nat | Asleep nat | Failed nat | Lock_again

definition set_node :: "dcache \<Rightarrow> nat \<Rightarrow> (cnode \<Rightarrow> cnode) \<Rightarrow> dcache" where
  "set_node c i f = c\<lparr>dc_nodes := upd (dc_nodes c) i f\<rparr>"

text \<open>A denode that is in the table: what comes before its lock, and what comes after.\<close>

definition deget_found :: "dcache \<Rightarrow> nat \<Rightarrow> dcache" where
  "deget_found c i =
     (let n = de_node (dc_nodes c ! i);
          c = (if de_flag n AND DEREF = 0 then free_unlink c i else c)
      in set_node c i (de_node_update (\<lambda>n. n\<lparr>de_flag := de_flag n OR DEREF\<rparr>)))"

definition deget_wake :: "(int \<Rightarrow> int) \<Rightarrow> dcache \<Rightarrow> nat \<Rightarrow> dcache" where
  "deget_wake hold c i = set_node c i (\<lambda>n. n\<lparr>de_locked := True, v_count := hold (v_count n)\<rparr>)"

text \<open>A denode from the free list, initialised for the file.\<close>

definition deget_fill :: "dkey \<Rightarrow> direntry option \<Rightarrow> cnode \<Rightarrow> cnode option" where
  "deget_fill k direntp n = do {
     let dp = de_node n;
     dp \<leftarrow> (if k_startclust k = DOSFSROOT \<and> k_isadir k
            then Some (dp\<lparr>de_de := (de_de dp)\<lparr>deAttributes := ATTR_DIRECTORY, deStartCluster := of_nat DOSFSROOT,
                           deFileSize := 0, deTime := 0, deDate := push_bit 5 1 OR 1\<rparr>\<rparr>)
            else do { e \<leftarrow> direntp; Some (dp\<lparr>de_de := e\<rparr>) });
     Some (n\<lparr>v_dir := de_Attributes dp AND ATTR_DIRECTORY \<noteq> 0, v_count := 1, v_vfsp := Some (k_vfsp k),
             de_node := dp\<lparr>de_vroot := False, de_refcnt := 1, de_dirclust := k_dirclust k, de_diroffset := k_diroffset k\<rparr>\<rparr>) }"

definition deget_take :: "dkey \<Rightarrow> direntry option \<Rightarrow> dcache \<Rightarrow> nat \<Rightarrow> dcache option" where
  "deget_take k direntp c i = do {
     let c = free_pop c i;
     let c = c\<lparr>dc_nodes := deunhash (dc_nodes c) i\<rparr>;
     let c = set_node c i (\<lambda>n. n\<lparr>de_dev := k_dev k, de_locked := True,
               de_node := fc_purge ((de_node n)\<lparr>de_flag := DEREF\<rparr>) 0\<rparr>);
     let c = c\<lparr>dc_nodes := dehash (dc_nodes c) i (deget_head c k)\<rparr>;
     n \<leftarrow> deget_fill k direntp (dc_nodes c ! i);
     Some (set_node c i (\<lambda>_. n)) }"

text \<open>One round of \<open>deget\<close> from the label \<open>loop\<close> on, and the rounds. \<open>purge\<close> is the purge of the cache of names.\<close>

definition deget_free :: "dcache \<Rightarrow> nat option" where
  "deget_free c = (case dfreeh c of None \<Rightarrow> None | Some i \<Rightarrow> if de_locked (dc_nodes c ! i) then None else Some i)"

function deget_loop :: "'d bio \<Rightarrow> (int \<Rightarrow> int) \<Rightarrow> ('d \<times> dcache \<Rightarrow> 'd \<times> dcache) \<Rightarrow> dosfs_vfs \<Rightarrow> dkey \<Rightarrow> direntry option
    \<Rightarrow> nat \<Rightarrow> 'd \<Rightarrow> dcache \<Rightarrow> ('d \<times> dcache \<times> got) option" where
  "deget_loop io hold purge pvp k direntp count d c = do {
     let deh = deget_head c k;
     r \<leftarrow> deget_scan (ndenode c + 1) (dc_nodes c) k deh (de_forw (dc_nodes c ! deh));
     (case r of
        Some i \<Rightarrow>
          let c = deget_found c i
          in if de_locked (dc_nodes c ! i) then Some (d, c, Asleep i) else Some (d, deget_wake hold c i, Got i)
      | None \<Rightarrow>
          if direntp = None \<and> (k_startclust k \<noteq> DOSFSROOT \<or> \<not> k_isadir k) then do {
            (d, error, e) \<leftarrow> get_direntp io pvp d (k_dirclust k) (k_diroffset k);
            (case e of
               None \<Rightarrow> Some (d, c, Failed ENOENT)
             | Some e \<Rightarrow> if deName e ! 0 = 0xe5 \<or> deName e ! 0 = 0 then Some (d, c, Failed ENOENT)
                         else Some (d, c, Lock_again)) }
          else let count = count + 1
               in (case deget_free c of
                     None \<Rightarrow>
                       let (d, c) = purge (d, c)
                       in if dfreeh c = None \<or> 5 < count then Some (d, c, Failed ENFILE)
                          else deget_loop io hold purge pvp k direntp count d c
                   | Some i \<Rightarrow> do { c \<leftarrow> deget_take k direntp c i; Some (d, c, Got i) })) }"
  by pat_completeness auto

termination by (relation "measure (\<lambda>(io, hold, purge, pvp, k, direntp, count, d, c). 6 - count)") auto

definition deget :: "'d bio \<Rightarrow> (int \<Rightarrow> int) \<Rightarrow> ('d \<times> dcache \<Rightarrow> 'd \<times> dcache) \<Rightarrow> dosfs_vfs \<Rightarrow> dkey \<Rightarrow> direntry option
    \<Rightarrow> 'd \<Rightarrow> dcache \<Rightarrow> ('d \<times> dcache \<times> got) option" where
  "deget io hold purge pvp k direntp d c = deget_loop io hold purge pvp k direntp 0 d c"

section \<open>Releasing a denode\<close>

text \<open>
  The release in three steps. The first gives up one of several references, or the last one; the second,
  under the lock of the table, puts the denode on the free list unless somebody waits for its lock
  (\<open>blkd\<close>); the third, after the table lock is released, truncates a removed file or writes the entry back,
  and gives the lock of the denode up. \<open>DE_LOCK\<close> of a lock that is held is \<open>None\<close>.
\<close>

definition inact_count :: "dcache \<Rightarrow> nat \<Rightarrow> (dcache \<times> bool) option" where
  "inact_count c i =
     (let n = dc_nodes c ! i in
      if de_locked n then None
      else if v_count n \<noteq> 1 then Some (set_node c i (\<lambda>n. n\<lparr>v_count := v_count n - 1\<rparr>), False)
      else Some (set_node c i (\<lambda>n. n\<lparr>v_count := 0, de_locked := True\<rparr>), True))"

definition inact_free :: "bool \<Rightarrow> dcache \<Rightarrow> nat \<Rightarrow> (dcache \<times> bool) option" where
  "inact_free blkd c i =
     (if blkd then Some (set_node c i (\<lambda>n. n\<lparr>de_locked := False\<rparr>), False)
      else if de_refcnt (de_node (dc_nodes c ! i)) \<le> 0 \<or> dfreeh c = None
      then Some (free_front (c\<lparr>dc_nodes := deunhash (dc_nodes c) i\<rparr>) i, True)
      else do { c \<leftarrow> free_end c i; Some (c, True) })"

text \<open>The generation number of a shared file system, in two reserved bytes of the entry.\<close>

definition next_gen :: "direntry \<Rightarrow> direntry" where
  "next_gen e = e\<lparr>deReserved := word_bytes (tw_word (deReserved e ! 0) (deReserved e ! 1) + 1) @ drop 2 (deReserved e)\<rparr>"

definition inact_finish :: "'d bio \<Rightarrow> bool \<Rightarrow> bool \<Rightarrow> uint_t \<Rightarrow> dosfs_vfs \<Rightarrow> 'd \<Rightarrow> conv \<Rightarrow> dcache \<Rightarrow> nat
    \<Rightarrow> ('d \<times> dosfs_vfs \<times> conv \<times> dcache) option" where
  "inact_finish io ronly shared now pvp d cv c i = do {
     let dep = de_node (dc_nodes c ! i);
     (d, pvp, cv, dep) \<leftarrow>
       (if de_refcnt dep \<le> 0 then do {
          let dep = (if shared then dep\<lparr>de_de := next_gen (de_de dep)\<rparr> else dep);
          let dep = dep\<lparr>de_de := (de_de dep)\<lparr>deName := (deName (de_de dep))[0 := 0xe5]\<rparr>\<rparr>;
          (d, pvp, cv, dep, error) \<leftarrow> detrunc io ronly now pvp d cv dep 0 False;
          Some (d, pvp, cv, dep) }
        else if de_flag dep AND (DEUPD OR DEMOD) \<noteq> 0 then do {
          (d, cv, dep, error) \<leftarrow> deupdat io ronly pvp d cv dep now False;
          Some (d, pvp, cv, dep) }
        else Some (d, pvp, cv, dep));
     Some (d, pvp, cv, set_node c i (\<lambda>n. n\<lparr>de_node := dep\<lparr>de_flag := 0\<rparr>, de_locked := False\<rparr>)) }"

definition dosfs_inactive :: "'d bio \<Rightarrow> bool \<Rightarrow> bool \<Rightarrow> uint_t \<Rightarrow> bool \<Rightarrow> dosfs_vfs \<Rightarrow> 'd \<Rightarrow> conv \<Rightarrow> dcache \<Rightarrow> nat
    \<Rightarrow> ('d \<times> dosfs_vfs \<times> conv \<times> dcache) option" where
  "dosfs_inactive io ronly shared now blkd pvp d cv c i = do {
     (c, lst) \<leftarrow> inact_count c i;
     if \<not> lst then Some (d, pvp, cv, c)
     else do {
       (c, freed) \<leftarrow> inact_free blkd c i;
       if \<not> freed then Some (d, pvp, cv, c) else inact_finish io ronly shared now pvp d cv c i } }"

section \<open>Moving a renamed file\<close>

definition reinsert :: "nat \<Rightarrow> dcache \<Rightarrow> nat \<Rightarrow> dcache" where
  "reinsert dev c i =
     (let dp = de_node (dc_nodes c ! i) in
      if de_Attributes dp AND ATTR_DIRECTORY = 0 then
        let ns = deunhash (dc_nodes c) i
        in c\<lparr>dc_nodes := dehash ns i (dehead c (DEHASH dev (uadd32 (de_dirclust dp) (de_diroffset dp))))\<rparr>
      else c)"

end
