(* ===== verification/DcacheLinks.thy ===== *)
theory DcacheLinks
  imports Dcache
begin

text \<open>
  The table of denodes seen as lists: the chains are rings through their heads, the free list is a list, and
  every operation on the links is an operation on these lists that leaves the rest of the denodes alone.
\<close>

interpretation chains: linked_ring de_forw de_back "\<lambda>i. de_forw_update (\<lambda>_. i)" "\<lambda>i. de_back_update (\<lambda>_. i)"
  "\<lambda>n. n\<lparr>de_forw := 0, de_back := 0\<rparr>"
  by unfold_locales simp_all

interpretation frees: linked_list de_freef de_freeb "\<lambda>i. de_freef_update (\<lambda>_. i)" "\<lambda>i. de_freeb_update (\<lambda>_. i)"
  "\<lambda>n. n\<lparr>de_freef := None, de_freeb := None\<rparr>"
  by unfold_locales simp_all

text \<open>A denode without its links.\<close>

definition core :: "cnode \<Rightarrow> cnode" where
  "core n = n\<lparr>de_forw := 0, de_back := 0, de_freef := None, de_freeb := None\<rparr>"

lemma core_fields [simp]:
  "de_dev (core n) = de_dev n" "v_vfsp (core n) = v_vfsp n" "v_count (core n) = v_count n" "v_dir (core n) = v_dir n"
  "de_locked (core n) = de_locked n" "de_node (core n) = de_node n"
  by (simp_all add: core_def)

lemma core_links [simp]:
  "core (de_forw_update f n) = core n" "core (de_back_update f n) = core n"
  "core (de_freef_update g n) = core n" "core (de_freeb_update g n) = core n"
  by (simp_all add: core_def)

definition core_at :: "dcache \<Rightarrow> nat \<Rightarrow> cnode" where
  "core_at c i = core (dc_nodes c ! i)"

section \<open>The table as lists\<close>

definition hashed :: "(nat \<Rightarrow> nat list) \<Rightarrow> nat \<Rightarrow> bool" where
  "hashed H i \<longleftrightarrow> (\<exists>h < DEHSZ. i \<in> set (H h))"

definition chains_at :: "cnode list \<Rightarrow> nat \<Rightarrow> (nat \<Rightarrow> nat list) \<Rightarrow> bool" where
  "chains_at ns n H \<longleftrightarrow> length ns = n + DEHSZ
     \<and> (\<forall>h < DEHSZ. chains.ring_at ns ((n + h) # H h) \<and> set (H h) \<subseteq> {..<n})
     \<and> (\<forall>h < DEHSZ. \<forall>h' < DEHSZ. h \<noteq> h' \<longrightarrow> set (H h) \<inter> set (H h') = {})
     \<and> (\<forall>i < n. \<not> hashed H i \<longrightarrow> chains.ring_at ns [i])"

definition cache_at :: "dcache \<Rightarrow> (nat \<Rightarrow> nat list) \<Rightarrow> nat list \<Rightarrow> bool" where
  "cache_at c H F \<longleftrightarrow> chains_at (dc_nodes c) (ndenode c) H
     \<and> frees.list_at (dc_nodes c) (dfreeh c) (dfreet c) F \<and> set F \<subseteq> {..<ndenode c}"

lemma chains_frame:
  fixes ns ms :: "cnode list"
  assumes "chains_at ns n H" and "length ms = length ns" and "\<And>a. a < length ns \<Longrightarrow> de_forw (ms ! a) = de_forw (ns ! a) \<and> de_back (ms ! a) = de_back (ns ! a)"
  shows "chains_at ms n H"
proof -
  have r: "chains.ring_at ms xs" if "chains.ring_at ns xs" for xs
  proof (rule chains.ring_frame [OF that assms(2)])
    fix a assume "a \<in> set xs"
    then have "a < length ns" using that by (auto simp: chains.ring_at_def)
    then show "de_forw (ms ! a) = de_forw (ns ! a) \<and> de_back (ms ! a) = de_back (ns ! a)" by (rule assms(3))
  qed
  show ?thesis using assms(1,2) r by (auto simp: chains_at_def)
qed

lemma frees_frame:
  fixes ns ms :: "cnode list"
  assumes "frees.list_at ns h t F" and "length ms = length ns"
    and "\<And>a. a < length ns \<Longrightarrow> de_freef (ms ! a) = de_freef (ns ! a) \<and> de_freeb (ms ! a) = de_freeb (ns ! a)"
  shows "frees.list_at ms h t F"
proof (rule frees.list_frame [OF assms(1,2)])
  fix a assume "a \<in> set F"
  then have "a < length ns" using assms(1) by (auto simp: frees.list_at_def)
  then show "de_freef (ms ! a) = de_freef (ns ! a) \<and> de_freeb (ms ! a) = de_freeb (ns ! a)" by (rule assms(3))
qed

text \<open>A list operation that keeps the payload keeps the other links and the core.\<close>

lemma pay_chains:
  fixes ns ms :: "cnode list"
  assumes "map (\<lambda>n. n\<lparr>de_freef := None, de_freeb := None\<rparr>) ms = map (\<lambda>n. n\<lparr>de_freef := None, de_freeb := None\<rparr>) ns"
    and "a < length ns"
  shows "de_forw (ms ! a) = de_forw (ns ! a) \<and> de_back (ms ! a) = de_back (ns ! a)" and "core (ms ! a) = core (ns ! a)"
proof -
  have l: "length ms = length ns" using arg_cong [OF assms(1), of length] by simp
  have e: "(ms ! a)\<lparr>de_freef := None, de_freeb := None\<rparr> = (ns ! a)\<lparr>de_freef := None, de_freeb := None\<rparr>"
    using arg_cong [OF assms(1), of "\<lambda>xs. xs ! a"] assms(2) l by simp
  show "de_forw (ms ! a) = de_forw (ns ! a) \<and> de_back (ms ! a) = de_back (ns ! a)"
    using arg_cong [OF e, of de_forw] arg_cong [OF e, of de_back] by simp
  show "core (ms ! a) = core (ns ! a)" using arg_cong [OF e, of core] by simp
qed

lemma pay_frees:
  fixes ns ms :: "cnode list"
  assumes "map (\<lambda>n. n\<lparr>de_forw := 0, de_back := 0\<rparr>) ms = map (\<lambda>n. n\<lparr>de_forw := 0, de_back := 0\<rparr>) ns" and "a < length ns"
  shows "de_freef (ms ! a) = de_freef (ns ! a) \<and> de_freeb (ms ! a) = de_freeb (ns ! a)" and "core (ms ! a) = core (ns ! a)"
proof -
  have l: "length ms = length ns" using arg_cong [OF assms(1), of length] by simp
  have e: "(ms ! a)\<lparr>de_forw := 0, de_back := 0\<rparr> = (ns ! a)\<lparr>de_forw := 0, de_back := 0\<rparr>"
    using arg_cong [OF assms(1), of "\<lambda>xs. xs ! a"] assms(2) l by simp
  show "de_freef (ms ! a) = de_freef (ns ! a) \<and> de_freeb (ms ! a) = de_freeb (ns ! a)"
    using arg_cong [OF e, of de_freef] arg_cong [OF e, of de_freeb] by simp
  show "core (ms ! a) = core (ns ! a)" using arg_cong [OF e, of core] by simp
qed

section \<open>The free list\<close>

text \<open>The operations on the free list are those of the locale.\<close>

lemma free_unlink_list:
  "free_unlink c i = (case frees.list_del (dfreeh c) (dfreet c) (dc_nodes c) i of (h, t, ns) \<Rightarrow> c\<lparr>dc_nodes := ns, dfreeh := h, dfreet := t\<rparr>)"
  by (simp add: free_unlink_def frees.list_del_def Let_def split: prod.split)

lemma free_pop_list:
  assumes "de_freeb (dc_nodes c ! i) = None"
  shows "free_pop c i = free_unlink c i"
  using assms by (simp add: free_pop_def free_unlink_def Let_def split: option.split)

lemma free_front_list:
  "free_front c i = (case frees.list_push (dfreeh c) (dfreet c) (dc_nodes c) i of (h, t, ns) \<Rightarrow> c\<lparr>dc_nodes := ns, dfreeh := h, dfreet := t\<rparr>)"
  by (simp add: free_front_def frees.list_push_def Let_def split: option.split)

lemma free_end_list:
  assumes "dfreet c = Some l"
  shows "free_end c i = Some (case frees.list_app (dfreeh c) (dfreet c) (dc_nodes c) i of (h, t, ns) \<Rightarrow> c\<lparr>dc_nodes := ns, dfreeh := h, dfreet := t\<rparr>)"
  using assms by (simp add: free_end_def frees.list_app_def Let_def)

text \<open>What a change of the free list keeps.\<close>

definition same_core :: "dcache \<Rightarrow> dcache \<Rightarrow> bool" where
  "same_core c c' \<longleftrightarrow> ndenode c' = ndenode c \<and> length (dc_nodes c') = length (dc_nodes c)
     \<and> (\<forall>a < length (dc_nodes c). core_at c' a = core_at c a)"

lemma same_core_refl: "same_core c c"
  by (simp add: same_core_def)

lemma same_core_trans: "same_core a b \<Longrightarrow> same_core b c \<Longrightarrow> same_core a c"
  by (simp add: same_core_def)

lemma free_op_ok:
  assumes at: "chains_at (dc_nodes c) (ndenode c) H"
    and pay: "map (\<lambda>n. n\<lparr>de_freef := None, de_freeb := None\<rparr>) ms = map (\<lambda>n. n\<lparr>de_freef := None, de_freeb := None\<rparr>) (dc_nodes c)"
    and fl: "frees.list_at ms h t F" and sub: "set F \<subseteq> {..<ndenode c}"
  shows "cache_at (c\<lparr>dc_nodes := ms, dfreeh := h, dfreet := t\<rparr>) H F" and "same_core c (c\<lparr>dc_nodes := ms, dfreeh := h, dfreet := t\<rparr>)"
proof -
  have l: "length ms = length (dc_nodes c)" using arg_cong [OF pay, of length] by simp
  show "cache_at (c\<lparr>dc_nodes := ms, dfreeh := h, dfreet := t\<rparr>) H F"
    using chains_frame [OF at l pay_chains(1) [OF pay]] fl sub by (simp add: cache_at_def)
  show "same_core c (c\<lparr>dc_nodes := ms, dfreeh := h, dfreet := t\<rparr>)"
    using l pay_chains(2) [OF pay] by (simp add: same_core_def core_at_def)
qed

lemma free_unlink_ok:
  assumes at: "cache_at c H (ys @ i # zs)"
  shows "cache_at (free_unlink c i) H (ys @ zs)" and "same_core c (free_unlink c i)"
proof -
  have l: "frees.list_at (dc_nodes c) (dfreeh c) (dfreet c) (ys @ i # zs)" and ch: "chains_at (dc_nodes c) (ndenode c) H"
    and sub: "set (ys @ zs) \<subseteq> {..<ndenode c}" using at by (auto simp: cache_at_def)
  obtain ms h t where r: "frees.list_del (dfreeh c) (dfreet c) (dc_nodes c) i = (h, t, ms)" "frees.list_at ms h t (ys @ zs)"
    using frees.list_del_list [OF l] by blast
  have p: "map (\<lambda>n. n\<lparr>de_freef := None, de_freeb := None\<rparr>) ms = map (\<lambda>n. n\<lparr>de_freef := None, de_freeb := None\<rparr>) (dc_nodes c)"
    using frees.list_op_pay(1) [of "dfreeh c" "dfreet c" "dc_nodes c" i] r(1) by simp
  show "cache_at (free_unlink c i) H (ys @ zs)" "same_core c (free_unlink c i)"
    using free_op_ok [OF ch p r(2) sub] by (simp_all add: free_unlink_list r(1))
qed

lemma free_front_ok:
  assumes at: "cache_at c H F" and i: "i < ndenode c" "i \<notin> set F"
  shows "cache_at (free_front c i) H (i # F)" and "same_core c (free_front c i)"
proof -
  have l: "frees.list_at (dc_nodes c) (dfreeh c) (dfreet c) F" and ch: "chains_at (dc_nodes c) (ndenode c) H"
    and sub: "set (i # F) \<subseteq> {..<ndenode c}" using at i by (auto simp: cache_at_def)
  have il: "i < length (dc_nodes c)" using ch i by (simp add: chains_at_def)
  obtain ms h t where r: "frees.list_push (dfreeh c) (dfreet c) (dc_nodes c) i = (h, t, ms)" "frees.list_at ms h t (i # F)"
    using frees.list_push_list [OF l il i(2)] by blast
  have p: "map (\<lambda>n. n\<lparr>de_freef := None, de_freeb := None\<rparr>) ms = map (\<lambda>n. n\<lparr>de_freef := None, de_freeb := None\<rparr>) (dc_nodes c)"
    using frees.list_op_pay(2) [of "dfreeh c" "dfreet c" "dc_nodes c" i] r(1) by simp
  show "cache_at (free_front c i) H (i # F)" "same_core c (free_front c i)"
    using free_op_ok [OF ch p r(2) sub] by (simp_all add: free_front_list r(1))
qed

lemma free_end_ok:
  assumes at: "cache_at c H F" and ne: "F \<noteq> []" and i: "i < ndenode c" "i \<notin> set F"
  obtains c' where "free_end c i = Some c'" and "cache_at c' H (F @ [i])" and "same_core c c'"
proof -
  have l: "frees.list_at (dc_nodes c) (dfreeh c) (dfreet c) F" and ch: "chains_at (dc_nodes c) (ndenode c) H"
    and sub: "set (F @ [i]) \<subseteq> {..<ndenode c}" using at i by (auto simp: cache_at_def)
  have il: "i < length (dc_nodes c)" using ch i by (simp add: chains_at_def)
  obtain x where x: "dfreet c = Some x" using l ne by (simp add: frees.list_at_def last_of_def)
  obtain ms h t where r: "frees.list_app (dfreeh c) (dfreet c) (dc_nodes c) i = (h, t, ms)" "frees.list_at ms h t (F @ [i])"
    using frees.list_app_list [OF l il i(2)] by blast
  have p: "map (\<lambda>n. n\<lparr>de_freef := None, de_freeb := None\<rparr>) ms = map (\<lambda>n. n\<lparr>de_freef := None, de_freeb := None\<rparr>) (dc_nodes c)"
    using frees.list_op_pay(3) [of "dfreeh c" "dfreet c" "dc_nodes c" i] r(1) by simp
  show ?thesis using free_op_ok [OF ch p r(2) sub] free_end_list [OF x, of i] r(1) by (intro that) simp_all
qed

lemma free_head:
  assumes "cache_at c H F"
  shows "dfreeh c = head_of F" and "F \<noteq> [] \<Longrightarrow> de_freeb (dc_nodes c ! hd F) = None"
proof -
  show "dfreeh c = head_of F" using assms by (simp add: cache_at_def frees.list_at_def)
  show "F \<noteq> [] \<Longrightarrow> de_freeb (dc_nodes c ! hd F) = None"
    using assms by (cases F) (simp_all add: cache_at_def frees.list_at_def)
qed

lemma free_pop_ok:
  assumes at: "cache_at c H (i # F)"
  shows "cache_at (free_pop c i) H F" and "same_core c (free_pop c i)"
proof -
  have "free_pop c i = free_unlink c i" using free_pop_list free_head(2) [OF at] by simp
  then show "cache_at (free_pop c i) H F" "same_core c (free_pop c i)" using free_unlink_ok [where ys = "[]"] at by simp_all
qed

section \<open>The chains\<close>

lemma deunhash_ring:
  assumes "i < length ns" and "de_forw (ns ! i) \<noteq> i" and "de_back (ns ! i) \<noteq> i"
    and "de_forw (ns ! i) < length ns" and "de_back (ns ! i) < length ns"
  shows "deunhash ns i = snd (chains.ring_del p ns i)"
  by (rule nth_equalityI) (use assms in \<open>auto simp: deunhash_def chains.ring_del_def Let_def nth_upd\<close>)

lemma deunhash_self:
  assumes "i < length ns" and "de_forw (ns ! i) = i" and "de_back (ns ! i) = i"
  shows "deunhash ns i = ns"
proof (rule nth_equalityI)
  fix a assume "a < length (deunhash ns i)"
  then have a: "a < length ns" by (simp add: deunhash_def Let_def)
  show "deunhash ns i ! a = ns ! a" using a assms by (cases "ns ! i") (auto simp: deunhash_def Let_def nth_upd)
qed (simp add: deunhash_def Let_def)

lemma dehash_ring:
  assumes "i < length ns" and "deh < length ns" and "i \<noteq> deh" and "de_forw (ns ! deh) < length ns" and "de_forw (ns ! deh) \<noteq> i"
    and "de_back (ns ! de_forw (ns ! deh)) = deh"
  shows "dehash ns i deh = snd (chains.ring_add (Some (de_forw (ns ! deh))) ns i)"
  by (rule nth_equalityI) (use assms in \<open>auto simp: dehash_def chains.ring_add_def Let_def nth_upd\<close>)

definition unhash :: "(nat \<Rightarrow> nat list) \<Rightarrow> nat \<Rightarrow> nat \<Rightarrow> nat list" where
  "unhash H i = (\<lambda>h. filter (\<lambda>x. x \<noteq> i) (H h))"

lemma hashed_unhash [simp]: "hashed (unhash H i) j \<longleftrightarrow> hashed H j \<and> j \<noteq> i"
  by (auto simp: hashed_def unhash_def)

lemma unhash_same: "\<not> hashed H i \<Longrightarrow> h < DEHSZ \<Longrightarrow> unhash H i h = H h"
  by (auto simp: hashed_def unhash_def intro!: filter_True)

lemma hashed_upd: "h < DEHSZ \<Longrightarrow> hashed (H(h := i # H h)) j \<longleftrightarrow> j = i \<or> hashed H j"
  by (auto simp: hashed_def)

text \<open>What changes on the chains keep.\<close>

definition chain_only :: "cnode list \<Rightarrow> cnode list \<Rightarrow> bool" where
  "chain_only ns ms \<longleftrightarrow> map (\<lambda>n. n\<lparr>de_forw := 0, de_back := 0\<rparr>) ms = map (\<lambda>n. n\<lparr>de_forw := 0, de_back := 0\<rparr>) ns"

lemma chains_apart:
  assumes at: "chains_at ns n H" and h: "h < DEHSZ" "h' < DEHSZ" "h' \<noteq> h" and a: "a \<in> set ((n + h') # H h')"
  shows "a \<noteq> n + h" and "a \<notin> set (H h)"
proof -
  have s: "set (H h) \<subseteq> {..<n}" "set (H h') \<subseteq> {..<n}" and d: "set (H h') \<inter> set (H h) = {}" using at h by (simp_all add: chains_at_def)
  show "a \<noteq> n + h" using a s(2) h(3) by auto
  show "a \<notin> set (H h)" using a s(1) d h(3) by auto
qed

lemma chains_unhash:
  assumes at: "chains_at ns n H" and i: "i < n"
  shows "chains_at (deunhash ns i) n (unhash H i)" and "chain_only ns (deunhash ns i)"
proof -
  have len: "length ns = n + DEHSZ" using at by (simp add: chains_at_def)
  have "chains_at (deunhash ns i) n (unhash H i) \<and> chain_only ns (deunhash ns i)"
  proof (cases "hashed H i")
    case False
    then have r: "chains.ring_at ns [i]" using at i by (simp add: chains_at_def)
    then have e: "deunhash ns i = ns" using i len by (intro deunhash_self) (simp_all add: chains.ring_at_def)
    have "chains.ring_at ns [j]" if "j < n" "\<not> hashed (unhash H i) j" for j
      using that r at by (cases "j = i") (simp_all add: chains_at_def)
    then have "chains_at ns n (unhash H i)" using at unhash_same [OF False] unfolding chains_at_def by simp
    then show ?thesis unfolding e by (simp add: chain_only_def)
  next
    case True
    then obtain h where h: "h < DEHSZ" "i \<in> set (H h)" by (auto simp: hashed_def)
    obtain ys zs where yz: "H h = ys @ i # zs" using h(2) by (meson split_list)
    have "chains.ring_at ns ((n + h) # H h)" using at h(1) by (simp add: chains_at_def)
    then have ring: "chains.ring_at ns (((n + h) # ys) @ i # zs)" by (simp add: yz)
    have d: "distinct (((n + h) # ys) @ i # zs)" "set (((n + h) # ys) @ i # zs) \<subseteq> {..<length ns}"
      using ring by (auto simp: chains.ring_at_def)
    obtain w ws where w: "zs @ (n + h) # ys = w # ws" by (cases "zs @ (n + h) # ys") auto
    have rot: "chains.ring_at ns (i # w # ws)" using chains.ring_rotate_append [OF ring] w by simp
    have nb: "de_forw (ns ! i) = w" "de_back (ns ! i) = last (w # ws)" by (rule chains.ring_neighbours [OF rot])+
    have wi: "w \<in> set (w # ws)" "last (w # ws) \<in> set (w # ws)" by simp_all
    have sub: "set (w # ws) \<subseteq> {..<length ns}" "i \<notin> set (w # ws)" "i < length ns" using rot by (auto simp: chains.ring_at_def)
    have dr: "deunhash ns i = snd (chains.ring_del (head_of (((n + h) # ys) @ i # zs)) ns i)"
      using nb sub wi by (intro deunhash_ring) auto
    obtain ms where ms: "deunhash ns i = ms" "chains.ring_at ms (((n + h) # ys) @ zs)" "de_forw (ms ! i) = i" "de_back (ms ! i) = i"
        "\<forall>a < length ns. a \<notin> set (((n + h) # ys) @ i # zs) \<longrightarrow> ms ! a = ns ! a"
      using chains.ring_del_ring [OF ring] dr by auto
    have co: "chain_only ns ms"
      using chains.ring_del_pay [of "head_of (((n + h) # ys) @ i # zs)" ns i] ms(1) dr by (simp add: chain_only_def)
    have lm: "length ms = length ns" using arg_cong [OF co [unfolded chain_only_def], of length] by simp
    have out: "ms ! a = ns ! a" if "a < length ns" "a \<noteq> n + h" "a \<notin> set (H h)" for a using ms(5) that yz by simp
    have uh: "unhash H i h = ys @ zs"
    proof -
      have "i \<notin> set ys" "i \<notin> set zs" using d(1) by auto
      then have "filter (\<lambda>x. x \<noteq> i) ys = ys" "filter (\<lambda>x. x \<noteq> i) zs = zs" by (auto intro!: filter_True)
      then show ?thesis by (simp add: unhash_def yz)
    qed
    have oth: "unhash H i h' = H h'" if "h' < DEHSZ" "h' \<noteq> h" for h'
    proof -
      have "i \<notin> set (H h')" using chains_apart(2) [OF at that(1) h(1), of i] that(2) h(2) by auto
      then show ?thesis by (auto simp: unhash_def intro!: filter_True)
    qed
    have rings: "chains.ring_at ms ((n + h') # unhash H i h')" if h': "h' < DEHSZ" for h'
    proof (cases "h' = h")
      case True
      then show ?thesis using ms(2) uh by simp
    next
      case False
      have r0: "chains.ring_at ns ((n + h') # H h')" using at h' by (simp add: chains_at_def)
      have "chains.ring_at ms ((n + h') # H h')"
      proof (rule chains.ring_frame [OF r0 lm])
        fix a assume a: "a \<in> set ((n + h') # H h')"
        note chains_apart [OF at h(1) h' False a]
        moreover have "a < length ns" using a r0 by (auto simp: chains.ring_at_def)
        ultimately show "de_forw (ms ! a) = de_forw (ns ! a) \<and> de_back (ms ! a) = de_back (ns ! a)" using out by simp
      qed
      then show ?thesis using oth [OF h' False] by simp
    qed
    have single: "chains.ring_at ms [j]" if "j < n" "\<not> hashed (unhash H i) j" for j
    proof (cases "j = i")
      case True
      then show ?thesis using ms(3,4) sub(3) lm by (simp add: chains.ring_at_def)
    next
      case False
      then have nh: "\<not> hashed H j" using that(2) by simp
      then have "chains.ring_at ns [j]" using at that(1) by (simp add: chains_at_def)
      moreover have "ms ! j = ns ! j" using out [of j] that(1) nh h(1) len by (auto simp: hashed_def)
      ultimately show ?thesis using lm by (simp add: chains.ring_at_def)
    qed
    have "set (unhash H i h') \<subseteq> set (H h')" for h' by (auto simp: unhash_def)
    then have "chains_at ms n (unhash H i)"
      using at rings single lm unfolding chains_at_def by (intro conjI allI impI) (blast | simp)+
    then show ?thesis using co ms(1) by simp
  qed
  then show "chains_at (deunhash ns i) n (unhash H i)" "chain_only ns (deunhash ns i)" by simp_all
qed

lemma chains_hash:
  assumes at: "chains_at ns n H" and i: "i < n" "\<not> hashed H i" and h: "h < DEHSZ"
  shows "chains_at (dehash ns i (n + h)) n (H(h := i # H h))" and "chain_only ns (dehash ns i (n + h))"
proof -
  have len: "length ns = n + DEHSZ" using at by (simp add: chains_at_def)
  let ?xs = "H h @ [n + h]" and ?H = "H(h := i # H h)"
  have r0: "chains.ring_at ns ((n + h) # H h)" using at h by (simp add: chains_at_def)
  have ring: "chains.ring_at ns ?xs" by (rule chains.ring_rotate [OF r0])
  have sub: "set (H h) \<subseteq> {..<n}" using at h by (simp add: chains_at_def)
  have ix: "i \<notin> set ?xs" "i < length ns" using i h len by (auto simp: hashed_def)
  have hd: "hd ?xs = de_forw (ns ! (n + h))" "hd ?xs \<in> set ?xs"
  proof -
    show "hd ?xs = de_forw (ns ! (n + h))" using r0 by (cases "H h") (simp_all add: chains.ring_at_def)
    show "hd ?xs \<in> set ?xs" by (rule hd_in_set) simp
  qed
  have bk: "de_back (ns ! hd ?xs) = n + h" using chains.ring_blink_hd [OF ring] by simp
  have hx: "hd ?xs < length ns" "hd ?xs \<noteq> i" using hd(2) ix ring by (auto simp: chains.ring_at_def)
  have dr: "dehash ns i (n + h) = snd (chains.ring_add (head_of ?xs) ns i)"
  proof -
    have "head_of ?xs = Some (de_forw (ns ! (n + h)))" using hd(1) by (simp add: head_of_Some)
    then show ?thesis using dehash_ring [of i ns "n + h"] ix h len hd hx bk i by simp
  qed
  obtain ms where ms: "dehash ns i (n + h) = ms" "chains.ring_at ms (?xs @ [i])"
      "\<forall>a < length ns. a \<notin> set ?xs \<and> a \<noteq> i \<longrightarrow> ms ! a = ns ! a"
    using chains.ring_add_ring [OF ring ix] dr by auto
  have co: "chain_only ns ms" using chains.ring_add_pay [of "head_of ?xs" ns i] ms(1) dr by (simp add: chain_only_def)
  have lm: "length ms = length ns" using arg_cong [OF co [unfolded chain_only_def], of length] by simp
  have new: "chains.ring_at ms ((n + h) # i # H h)" using chains.ring_rotate_append [of ms "H h" "[n + h, i]"] ms(2) by simp
  have rings: "chains.ring_at ms ((n + h') # ?H h')" if h': "h' < DEHSZ" for h'
  proof (cases "h' = h")
    case True
    then show ?thesis using new by simp
  next
    case False
    have r0: "chains.ring_at ns ((n + h') # H h')" using at h' by (simp add: chains_at_def)
    have "chains.ring_at ms ((n + h') # H h')"
    proof (rule chains.ring_frame [OF r0 lm])
      fix a assume a: "a \<in> set ((n + h') # H h')"
      note chains_apart [OF at h h' False a]
      moreover have "a \<noteq> i" using a h' i by (auto simp: hashed_def)
      moreover have "a < length ns" using a r0 by (auto simp: chains.ring_at_def)
      ultimately show "de_forw (ms ! a) = de_forw (ns ! a) \<and> de_back (ms ! a) = de_back (ns ! a)" using ms(3) by simp
    qed
    then show ?thesis using False by simp
  qed
  have single: "chains.ring_at ms [j]" if "j < n" "\<not> hashed ?H j" for j
  proof -
    have nh: "\<not> hashed H j" "j \<noteq> i" using that(2) hashed_upd [OF h] by auto
    then have "chains.ring_at ns [j]" using at that(1) by (simp add: chains_at_def)
    moreover have "ms ! j = ns ! j" using ms(3) that(1) nh h len by (auto simp: hashed_def)
    ultimately show ?thesis using lm by (simp add: chains.ring_at_def)
  qed
  have subs: "set (?H h') \<subseteq> {..<n}" if "h' < DEHSZ" for h' using at that i by (auto simp: chains_at_def)
  have disj: "set (?H a) \<inter> set (?H b) = {}" if "a < DEHSZ" "b < DEHSZ" "a \<noteq> b" for a b
    using at that i by (auto simp: chains_at_def hashed_def)
  have "chains_at ms n ?H"
    unfolding chains_at_def
  proof (intro conjI allI impI)
    show "length ms = n + DEHSZ" using lm len by simp
  qed (rule rings subs disj single; assumption)+
  then show "chains_at (dehash ns i (n + h)) n ?H" "chain_only ns (dehash ns i (n + h))" using ms(1) co by simp_all
qed

text \<open>The same for the table.\<close>

lemma chain_only_cache:
  assumes at: "cache_at c H F" and ch: "chains_at ms (ndenode c) H'" and co: "chain_only (dc_nodes c) ms"
  shows "cache_at (c\<lparr>dc_nodes := ms\<rparr>) H' F" and "same_core c (c\<lparr>dc_nodes := ms\<rparr>)"
proof -
  have l: "length ms = length (dc_nodes c)" using arg_cong [OF co [unfolded chain_only_def], of length] by simp
  note p = pay_frees [OF co [unfolded chain_only_def]]
  show "cache_at (c\<lparr>dc_nodes := ms\<rparr>) H' F"
    using at ch frees_frame [of "dc_nodes c" _ _ F ms, OF _ l p(1)] by (simp add: cache_at_def)
  show "same_core c (c\<lparr>dc_nodes := ms\<rparr>)" using l p(2) by (simp add: same_core_def core_at_def)
qed

lemma unhash_ok:
  assumes at: "cache_at c H F" and i: "i < ndenode c"
  shows "cache_at (c\<lparr>dc_nodes := deunhash (dc_nodes c) i\<rparr>) (unhash H i) F" and "same_core c (c\<lparr>dc_nodes := deunhash (dc_nodes c) i\<rparr>)"
proof -
  have ch: "chains_at (dc_nodes c) (ndenode c) H" using at by (simp add: cache_at_def)
  note u = chains_unhash [OF ch i]
  show "cache_at (c\<lparr>dc_nodes := deunhash (dc_nodes c) i\<rparr>) (unhash H i) F" "same_core c (c\<lparr>dc_nodes := deunhash (dc_nodes c) i\<rparr>)"
    by (rule chain_only_cache [OF at u])+
qed

lemma hash_ok:
  assumes at: "cache_at c H F" and i: "i < ndenode c" "\<not> hashed H i" and h: "h < DEHSZ"
  shows "cache_at (c\<lparr>dc_nodes := dehash (dc_nodes c) i (dehead c h)\<rparr>) (H(h := i # H h)) F"
    and "same_core c (c\<lparr>dc_nodes := dehash (dc_nodes c) i (dehead c h)\<rparr>)"
proof -
  have ch: "chains_at (dc_nodes c) (ndenode c) H" using at by (simp add: cache_at_def)
  note u = chains_hash [OF ch i h]
  show "cache_at (c\<lparr>dc_nodes := dehash (dc_nodes c) i (dehead c h)\<rparr>) (H(h := i # H h)) F"
    "same_core c (c\<lparr>dc_nodes := dehash (dc_nodes c) i (dehead c h)\<rparr>)"
    unfolding dehead_def by (rule chain_only_cache [OF at u])+
qed

text \<open>Changes of a denode that are not to its links.\<close>

lemma set_node_ok:
  assumes at: "cache_at c H F" and i: "i < ndenode c" and f: "\<And>n. de_forw (f n) = de_forw n" "\<And>n. de_back (f n) = de_back n"
    "\<And>n. de_freef (f n) = de_freef n" "\<And>n. de_freeb (f n) = de_freeb n"
  shows "cache_at (set_node c i f) H F" and "dc_nodes (set_node c i f) ! i = f (dc_nodes c ! i)"
    and "j < length (dc_nodes c) \<Longrightarrow> j \<noteq> i \<Longrightarrow> dc_nodes (set_node c i f) ! j = dc_nodes c ! j"
    and "ndenode (set_node c i f) = ndenode c" and "length (dc_nodes (set_node c i f)) = length (dc_nodes c)"
proof -
  have l: "i < length (dc_nodes c)" using at i by (simp add: cache_at_def chains_at_def)
  have e: "upd (dc_nodes c) i f ! a = (if a = i then f (dc_nodes c ! a) else dc_nodes c ! a)" if "a < length (dc_nodes c)" for a
    using that by (simp add: nth_upd)
  show "cache_at (set_node c i f) H F"
    using at chains_frame [of "dc_nodes c" "ndenode c" H "upd (dc_nodes c) i f"]
      frees_frame [of "dc_nodes c" "dfreeh c" "dfreet c" F "upd (dc_nodes c) i f"] e f
    by (simp add: cache_at_def set_node_def)
  show "dc_nodes (set_node c i f) ! i = f (dc_nodes c ! i)" using e [OF l] by (simp add: set_node_def)
  show "j < length (dc_nodes c) \<Longrightarrow> j \<noteq> i \<Longrightarrow> dc_nodes (set_node c i f) ! j = dc_nodes c ! j" using e by (simp add: set_node_def)
qed (simp_all add: set_node_def)

section \<open>The walk along a chain\<close>

lemma deget_scan_ok:
  assumes r: "chains.ring_at ns (deh # xs)"
  shows "drop m xs = ys \<Longrightarrow> m \<le> length xs \<Longrightarrow> length ys < n \<Longrightarrow>
    deget_scan n ns k deh (if ys = [] then deh else hd ys) = Some (find (\<lambda>i. deget_match k (ns ! i)) ys)"
proof (induction n arbitrary: m ys)
  case 0
  then show ?case by simp
next
  case (Suc n)
  show ?case
  proof (cases ys)
    case Nil
    then show ?thesis by simp
  next
    case (Cons y zs)
    have m: "m < length xs" and y: "y = xs ! m" and zs: "zs = drop (Suc m) xs"
    proof -
      show m: "m < length xs" using Suc.prems(1) Cons by (metis drop_all list.distinct(1) not_le)
      have "drop m xs = xs ! m # drop (Suc m) xs" by (rule Cons_nth_drop_Suc [OF m, symmetric])
      then show "y = xs ! m" "zs = drop (Suc m) xs" using Suc.prems(1) Cons by simp_all
    qed
    have "deh \<notin> set xs" using r by (simp add: chains.ring_at_def)
    moreover have "y \<in> set xs" using y m by simp
    ultimately have yd: "y \<noteq> deh" by blast
    have fw: "de_forw (ns ! y) = (if zs = [] then deh else hd zs)"
    proof -
      have "xs = take m xs @ y # zs" using id_take_nth_drop [OF m] y zs by simp
      then have "chains.ring_at ns ((deh # take m xs) @ y # zs)" using r by simp
      then have "chains.ring_at ns (y # zs @ deh # take m xs)" using chains.ring_rotate_append by fastforce
      then show ?thesis using chains.ring_neighbours(1) by (cases zs) fastforce+
    qed
    have "deget_scan n ns k deh (if zs = [] then deh else hd zs) = Some (find (\<lambda>i. deget_match k (ns ! i)) zs)"
      using Suc.IH [of "Suc m" zs] zs m Suc.prems(3) Cons by simp
    then show ?thesis using yd fw by (simp add: Cons)
  qed
qed

lemma deget_walk:
  assumes at: "cache_at c H F" and h: "h < DEHSZ"
  shows "deget_scan (ndenode c + 1) (dc_nodes c) k (dehead c h) (de_forw (dc_nodes c ! dehead c h))
    = Some (find (\<lambda>i. deget_match k (dc_nodes c ! i)) (H h))"
proof -
  have r: "chains.ring_at (dc_nodes c) (dehead c h # H h)" and sub: "set (H h) \<subseteq> {..<ndenode c}"
    using at h by (simp_all add: cache_at_def chains_at_def dehead_def)
  have fw: "de_forw (dc_nodes c ! dehead c h) = (if H h = [] then dehead c h else hd (H h))"
    using r by (cases "H h") (simp_all add: chains.ring_at_def)
  have "distinct (H h)" using r by (simp add: chains.ring_at_def)
  then have "length (H h) \<le> ndenode c" using sub card_mono [of "{..<ndenode c}" "set (H h)"] by (simp add: distinct_card)
  then show ?thesis unfolding fw by (intro deget_scan_ok [OF r, of 0]) simp_all
qed

end
