(* ===== verification/DcacheInv.thy ===== *)
theory DcacheInv
  imports DcacheLinks DenodeOps
begin

text \<open>
  What the operations of the table of denodes keep, also between the steps of a release: the denodes on the free list are those nobody holds or
  waits for, every denode of a file that exists is in the chain its identity hashes to, and no two
  denodes stand for the same file.
\<close>

section \<open>The identity of a file\<close>

type_synonym ident = "nat \<times> nat option \<times> (nat + nat \<times> nat)"

definition ident :: "cnode \<Rightarrow> ident" where
  "ident n = (de_dev n, v_vfsp n, if ISADIR (de_node n) then Inl (de_StartCluster (de_node n))
     else Inr (de_dirclust (de_node n), de_diroffset (de_node n)))"

definition kident :: "dkey \<Rightarrow> ident" where
  "kident k = (k_dev k, Some (k_vfsp k), if k_isadir k then Inl (k_startclust k) else Inr (k_dirclust k, k_diroffset k))"

definition valid :: "cnode \<Rightarrow> bool" where
  "valid n \<longleftrightarrow> 0 < de_refcnt (de_node n) \<and> v_vfsp n \<noteq> None"

definition bucket :: "ident \<Rightarrow> nat" where
  "bucket a = (case snd (snd a) of Inl s \<Rightarrow> DEHASH (fst a) s | Inr (p, q) \<Rightarrow> DEHASH (fst a) (uadd32 p q))"

lemma match_ident: "deget_match k n \<longleftrightarrow> valid n \<and> ident n = kident k"
  by (auto simp: deget_match_def valid_def ident_def kident_def)

lemma head_bucket: "deget_head c k = dehead c (bucket (kident k))"
  by (simp add: deget_head_def bucket_def kident_def)

lemma bucket_file: "\<not> ISADIR (de_node n) \<Longrightarrow> bucket (ident n) = DEHASH (de_dev n) (uadd32 (de_dirclust (de_node n)) (de_diroffset (de_node n)))"
  by (simp add: bucket_def ident_def)

lemma DEHASH_less [simp]: "DEHASH a b < DEHSZ"
proof -
  have "x AND 511 < (512 :: nat)" for x
    using take_bit_nat_less_exp [of 9 x] by (simp add: take_bit_eq_mask mask_eq_exp_minus_1)
  then show ?thesis by (simp add: DEHASH_def DEHSZ_def)
qed

lemma bucket_less [simp]: "bucket a < DEHSZ"
  by (simp add: bucket_def split: sum.split prod.split)

lemma ident_core [simp]: "ident (core n) = ident n" "valid (core n) = valid n"
  by (simp_all add: ident_def valid_def)

section \<open>The invariant\<close>

text \<open>
  A denode by itself: \<open>free\<close> tells whether it is on the free list, \<open>waits\<close> whether somebody waits for its lock
  in \<open>deget\<close>.
\<close>

definition node_ok :: "bool \<Rightarrow> bool \<Rightarrow> cnode \<Rightarrow> bool" where
  "node_ok free waits n \<longleftrightarrow> 0 \<le> v_count n \<and> (free \<longleftrightarrow> de_flag (de_node n) AND DEREF = 0)
     \<and> (free \<longrightarrow> v_count n = 0 \<and> \<not> de_locked n \<and> \<not> waits) \<and> (\<not> free \<longrightarrow> 0 < v_count n \<or> waits)"

lemma node_ok_core [simp]: "node_ok free waits (core n) = node_ok free waits n"
  by (simp add: node_ok_def)

definition cores_ok :: "(nat \<Rightarrow> cnode) \<Rightarrow> nat \<Rightarrow> nat list \<Rightarrow> (nat \<Rightarrow> nat list) \<Rightarrow> nat list \<Rightarrow> bool" where
  "cores_ok f n W H F \<longleftrightarrow>
     (\<forall>i < n. node_ok (i \<in> set F) (i \<in> set W) (f i))
     \<and> (\<forall>h < DEHSZ. \<forall>i \<in> set (H h). valid (f i) \<longrightarrow> bucket (ident (f i)) = h)
     \<and> (\<forall>i < n. i \<notin> set F \<and> valid (f i) \<longrightarrow> hashed H i)
     \<and> (\<forall>i < n. \<forall>j < n. hashed H i \<and> hashed H j \<and> valid (f i) \<and> valid (f j) \<and> ident (f i) = ident (f j) \<longrightarrow> i = j)"

text \<open>
  A release takes three steps, and other processes go on between them. A denode in \<open>P\<close> has lost its last
  reference and is not yet on the free list; one in \<open>R\<close> is on the free list and still has the lock and the flag of the
  denode that was held. The rest of the invariant is that of the table in which these denodes look the way they did
  before the release and the way they will after it.
\<close>

definition bare :: "nat set \<Rightarrow> nat set \<Rightarrow> nat \<Rightarrow> cnode \<Rightarrow> cnode" where
  "bare P R i n = (if i \<in> P then n\<lparr>v_count := 1, de_locked := False\<rparr>
     else if i \<in> R then n\<lparr>de_locked := False, de_node := (de_node n)\<lparr>de_flag := 0\<rparr>\<rparr> else n)"

definition rel_ok :: "nat set \<Rightarrow> nat set \<Rightarrow> nat list \<Rightarrow> nat \<Rightarrow> cnode \<Rightarrow> bool" where
  "rel_ok P R F i n \<longleftrightarrow> (i \<in> P \<longrightarrow> de_locked n \<and> v_count n = 0 \<and> i \<notin> R)
     \<and> (i \<in> R \<longrightarrow> de_locked n \<and> de_flag (de_node n) AND DEREF \<noteq> 0 \<and> i \<in> set F)"

definition consistent :: "dcache \<Rightarrow> nat list \<Rightarrow> nat set \<Rightarrow> nat set \<Rightarrow> (nat \<Rightarrow> nat list) \<Rightarrow> nat list \<Rightarrow> bool" where
  "consistent c W P R H F \<longleftrightarrow> cache_at c H F \<and> cores_ok (\<lambda>i. bare P R i (core_at c i)) (ndenode c) W H F
     \<and> P \<union> R \<subseteq> {..<ndenode c} \<and> (\<forall>i < ndenode c. rel_ok P R F i (core_at c i))"

text \<open>The table with no release under way.\<close>

abbreviation coherent :: "dcache \<Rightarrow> nat list \<Rightarrow> (nat \<Rightarrow> nat list) \<Rightarrow> nat list \<Rightarrow> bool" where
  "coherent c W H F \<equiv> consistent c W {} {} H F"

lemma bare_simps [simp]:
  "i \<notin> P \<Longrightarrow> i \<notin> R \<Longrightarrow> bare P R i n = n" "valid (bare P R i n) = valid n" "ident (bare P R i n) = ident n"
  "bare P R i (core n) = core (bare P R i n)"
  by (simp_all add: bare_def valid_def ident_def ISADIR_def core_def)

lemma rel_ok_simps [simp]: "i \<notin> P \<Longrightarrow> i \<notin> R \<Longrightarrow> rel_ok P R F i n" "rel_ok P R F i (core n) = rel_ok P R F i n"
  by (simp_all add: rel_ok_def)

lemma coherent_iff: "coherent c W H F \<longleftrightarrow> cache_at c H F \<and> cores_ok (core_at c) (ndenode c) W H F"
  by (simp add: consistent_def)

lemma cores_ok_cong:
  assumes "cores_ok f n W H F" and "\<And>i. i < n \<Longrightarrow> g i = f i" and "\<And>h. h < DEHSZ \<Longrightarrow> set (H h) \<subseteq> {..<n}"
  shows "cores_ok g n W H F"
proof -
  have m: "g i = f i" if "h < DEHSZ" "i \<in> set (H h)" for h i using assms(2) assms(3) [OF that(1)] that(2) by blast
  show ?thesis using assms(1) unfolding cores_ok_def by (simp add: assms(2) m)
qed

lemma cache_bounds:
  assumes "cache_at c H F"
  shows "h < DEHSZ \<Longrightarrow> set (H h) \<subseteq> {..<ndenode c}" and "length (dc_nodes c) = ndenode c + DEHSZ" and "set F \<subseteq> {..<ndenode c}"
    and "distinct F" and "hashed H i \<Longrightarrow> i < ndenode c"
  using assms by (auto simp: cache_at_def chains_at_def frees.list_at_def hashed_def)

lemma cores_same_core:
  assumes "cores_ok (core_at c) (ndenode c) W H F" and "same_core c c'" and "cache_at c' H F"
  shows "cores_ok (core_at c') (ndenode c') W H F"
proof -
  have n: "ndenode c' = ndenode c" using assms(2) by (simp add: same_core_def)
  show ?thesis unfolding n
  proof (rule cores_ok_cong [OF assms(1)])
    fix i assume "i < ndenode c"
    then show "core_at c' i = core_at c i" using assms(2) cache_bounds(2) [OF assms(3)] by (simp add: same_core_def)
  qed (use cache_bounds(1) [OF assms(3)] n in simp)
qed

text \<open>The parts of the invariant, as rules.\<close>

lemma consistentD:
  assumes "consistent c W P R H F"
  shows "cache_at c H F" and "i < ndenode c \<Longrightarrow> node_ok (i \<in> set F) (i \<in> set W) (bare P R i (dc_nodes c ! i))"
    and "h < DEHSZ \<Longrightarrow> i \<in> set (H h) \<Longrightarrow> valid (dc_nodes c ! i) \<Longrightarrow> bucket (ident (dc_nodes c ! i)) = h"
    and "i < ndenode c \<Longrightarrow> i \<notin> set F \<Longrightarrow> valid (dc_nodes c ! i) \<Longrightarrow> hashed H i"
    and "hashed H i \<Longrightarrow> hashed H j \<Longrightarrow> valid (dc_nodes c ! i) \<Longrightarrow> valid (dc_nodes c ! j) \<Longrightarrow>
      ident (dc_nodes c ! i) = ident (dc_nodes c ! j) \<Longrightarrow> i = j"
    and "i < ndenode c \<Longrightarrow> rel_ok P R F i (dc_nodes c ! i)" and "i \<in> P \<or> i \<in> R \<Longrightarrow> i < ndenode c"
proof -
  have k: "cores_ok (\<lambda>i. bare P R i (core_at c i)) (ndenode c) W H F" and at: "cache_at c H F" using assms by (simp_all add: consistent_def)
  show "cache_at c H F" by (rule at)
  show "i < ndenode c \<Longrightarrow> node_ok (i \<in> set F) (i \<in> set W) (bare P R i (dc_nodes c ! i))"
    using k by (simp add: cores_ok_def core_at_def)
  show "h < DEHSZ \<Longrightarrow> i \<in> set (H h) \<Longrightarrow> valid (dc_nodes c ! i) \<Longrightarrow> bucket (ident (dc_nodes c ! i)) = h"
    using k by (simp add: cores_ok_def core_at_def)
  show "i < ndenode c \<Longrightarrow> i \<notin> set F \<Longrightarrow> valid (dc_nodes c ! i) \<Longrightarrow> hashed H i"
    using k by (simp add: cores_ok_def core_at_def)
  show "hashed H i \<Longrightarrow> hashed H j \<Longrightarrow> valid (dc_nodes c ! i) \<Longrightarrow> valid (dc_nodes c ! j) \<Longrightarrow>
      ident (dc_nodes c ! i) = ident (dc_nodes c ! j) \<Longrightarrow> i = j"
    using k cache_bounds(5) [OF at] by (simp add: cores_ok_def core_at_def)
  show "i < ndenode c \<Longrightarrow> rel_ok P R F i (dc_nodes c ! i)" "i \<in> P \<or> i \<in> R \<Longrightarrow> i < ndenode c"
    using assms by (auto simp: consistent_def core_at_def)
qed

lemma coherentD:
  assumes "coherent c W H F"
  shows "cache_at c H F" and "i < ndenode c \<Longrightarrow> node_ok (i \<in> set F) (i \<in> set W) (dc_nodes c ! i)"
    and "h < DEHSZ \<Longrightarrow> i \<in> set (H h) \<Longrightarrow> valid (dc_nodes c ! i) \<Longrightarrow> bucket (ident (dc_nodes c ! i)) = h"
    and "i < ndenode c \<Longrightarrow> i \<notin> set F \<Longrightarrow> valid (dc_nodes c ! i) \<Longrightarrow> hashed H i"
    and "hashed H i \<Longrightarrow> hashed H j \<Longrightarrow> valid (dc_nodes c ! i) \<Longrightarrow> valid (dc_nodes c ! j) \<Longrightarrow>
      ident (dc_nodes c ! i) = ident (dc_nodes c ! j) \<Longrightarrow> i = j"
  using consistentD [OF assms] by auto

text \<open>What the lock and the references of a denode say of its release.\<close>

lemma rest_node:
  assumes co: "consistent c W P R H F" and i: "i < ndenode c"
  shows "\<not> de_locked (dc_nodes c ! i) \<Longrightarrow> i \<notin> P \<and> i \<notin> R"
    and "0 < v_count (dc_nodes c ! i) \<or> i \<in> set W \<Longrightarrow> i \<notin> set F \<and> i \<notin> R"
    and "0 < v_count (dc_nodes c ! i) \<Longrightarrow> i \<notin> P"
    and "i \<in> P \<Longrightarrow> i \<notin> set F \<and> i \<notin> R" and "i \<in> set F \<Longrightarrow> i \<notin> R \<Longrightarrow> \<not> de_locked (dc_nodes c ! i)"
  using consistentD(2,6) [OF co i] by (auto simp: node_ok_def rel_ok_def bare_def split: if_splits)

text \<open>A change of one denode and of its place in the lists.\<close>

definition only_node :: "nat \<Rightarrow> dcache \<Rightarrow> dcache \<Rightarrow> bool" where
  "only_node i c c' \<longleftrightarrow> ndenode c' = ndenode c \<and> (\<forall>j < ndenode c. j \<noteq> i \<longrightarrow> core_at c' j = core_at c j)"

definition only_lists :: "nat \<Rightarrow> (nat \<Rightarrow> nat list) \<Rightarrow> (nat \<Rightarrow> nat list) \<Rightarrow> bool" where
  "only_lists i H H' \<longleftrightarrow> (\<forall>h < DEHSZ. set (H' h) - {i} = set (H h) - {i})"

lemma only_lists_refl [simp]: "only_lists i H H"
  by (simp add: only_lists_def)

lemma only_lists_unhash [simp]: "only_lists i H (unhash H i)"
  by (auto simp: only_lists_def unhash_def)

lemma only_lists_hash [simp]: "only_lists i H' (H(h := i # H h)) \<longleftrightarrow> only_lists i H' H"
  by (auto simp: only_lists_def)

lemma only_hashed: "only_lists i H H' \<Longrightarrow> j \<noteq> i \<Longrightarrow> hashed H' j \<longleftrightarrow> hashed H j"
  by (auto simp: only_lists_def hashed_def)

lemma only_node_refl [simp]: "only_node i c c"
  by (simp add: only_node_def)

lemma only_node_trans: "only_node i a b \<Longrightarrow> only_node i b c \<Longrightarrow> only_node i a c"
  by (simp add: only_node_def)

lemma same_core_only: "same_core c c' \<Longrightarrow> cache_at c H F \<Longrightarrow> only_node i c c'"
  using cache_bounds(2) by (simp add: same_core_def only_node_def)

lemma consistent_node:
  assumes co: "consistent c W P R H F" and i: "i < ndenode c" and at: "cache_at c' H' F'" and on: "only_node i c c'" and ol: "only_lists i H H'"
    and fr: "set F' - {i} = set F - {i}" and wt: "set W' - {i} = set W - {i}"
    and pr: "P' - {i} = P - {i}" "R' - {i} = R - {i}"
    and ok: "node_ok (i \<in> set F') (i \<in> set W') (bare P' R' i (dc_nodes c' ! i))" and rl: "rel_ok P' R' F' i (dc_nodes c' ! i)"
    and b: "\<And>h. h < DEHSZ \<Longrightarrow> i \<in> set (H' h) \<Longrightarrow> valid (dc_nodes c' ! i) \<Longrightarrow> bucket (ident (dc_nodes c' ! i)) = h"
    and hs: "i \<notin> set F' \<Longrightarrow> valid (dc_nodes c' ! i) \<Longrightarrow> hashed H' i"
    and un: "\<And>j. hashed H' i \<Longrightarrow> valid (dc_nodes c' ! i) \<Longrightarrow> hashed H j \<Longrightarrow> valid (dc_nodes c ! j) \<Longrightarrow> j \<noteq> i \<Longrightarrow>
      ident (dc_nodes c ! j) \<noteq> ident (dc_nodes c' ! i)"
  shows "consistent c' W' P' R' H' F'"
proof -
  let ?n = "ndenode c"
  have n: "ndenode c' = ?n" using on by (simp add: only_node_def)
  note bd = cache_bounds [OF consistentD(1) [OF co]]
  have e: "core_at c' j = core_at c j" if "j < ?n" "j \<noteq> i" for j using on that by (simp add: only_node_def)
  have vi: "valid (dc_nodes c' ! j) = valid (dc_nodes c ! j)" "ident (dc_nodes c' ! j) = ident (dc_nodes c ! j)" if "j < ?n" "j \<noteq> i" for j
    using arg_cong [OF e [OF that], of valid] arg_cong [OF e [OF that], of ident] by (simp_all add: core_at_def)
  have m: "j \<in> set F' \<longleftrightarrow> j \<in> set F" "j \<in> set W' \<longleftrightarrow> j \<in> set W" "j \<in> P' \<longleftrightarrow> j \<in> P" "j \<in> R' \<longleftrightarrow> j \<in> R" if "j \<noteq> i" for j
    using fr wt pr that by blast+
  have be: "bare P' R' j n = bare P R j n" "rel_ok P' R' F' j n = rel_ok P R F j n" if "j \<noteq> i" for j n
    using m [OF that] by (simp_all add: bare_def rel_ok_def)
  have nodes: "node_ok (j \<in> set F') (j \<in> set W') (bare P' R' j (core_at c' j))" if j: "j < ?n" for j
  proof (cases "j = i")
    case True
    then show ?thesis using ok by (simp add: core_at_def)
  next
    case False
    have "node_ok (j \<in> set F) (j \<in> set W) (bare P R j (core_at c j))" using consistentD(2) [OF co j] by (simp add: core_at_def)
    then show ?thesis using False by (simp add: e [OF j False] m be)
  qed
  have rels: "rel_ok P' R' F' j (core_at c' j)" if j: "j < ?n" for j
  proof (cases "j = i")
    case True
    then show ?thesis using rl by (simp add: core_at_def)
  next
    case False
    have "rel_ok P R F j (core_at c j)" using consistentD(6) [OF co j] by (simp add: core_at_def)
    then show ?thesis by (simp add: e [OF j False] be [OF False])
  qed
  have bd': "P' \<union> R' \<subseteq> {..<?n}"
  proof
    fix j assume "j \<in> P' \<union> R'"
    then show "j \<in> {..<?n}" using m [of j] i consistentD(7) [OF co, of j] by (cases "j = i") auto
  qed
  have bk: "bucket (ident (core_at c' j)) = h" if h: "h < DEHSZ" "j \<in> set (H' h)" "valid (core_at c' j)" for h j
  proof (cases "j = i")
    case True
    then show ?thesis using b [OF h(1)] h by (simp add: core_at_def)
  next
    case False
    then have j: "j \<in> set (H h)" "j < ?n" using ol h(1,2) bd(1) by (auto simp: only_lists_def)
    then show ?thesis using consistentD(3) [OF co h(1) j(1)] h(3) vi [OF j(2) False] by (simp add: core_at_def)
  qed
  have hh: "hashed H' j" if j: "j < ?n" "j \<notin> set F'" "valid (core_at c' j)" for j
  proof (cases "j = i")
    case True
    then show ?thesis using hs j by (simp add: core_at_def)
  next
    case False
    then show ?thesis using consistentD(4) [OF co j(1)] j m vi [OF j(1) False] only_hashed [OF ol False] by (simp add: core_at_def)
  qed
  have uq: "j = l" if j: "j < ?n" "l < ?n" "hashed H' j" "hashed H' l" "valid (core_at c' j)" "valid (core_at c' l)"
      "ident (core_at c' j) = ident (core_at c' l)" for j l
  proof (cases "j = i")
    case True
    show ?thesis
    proof (rule ccontr)
      assume "j \<noteq> l"
      then have l: "l \<noteq> i" using True by simp
      show False using un [of l] j l True only_hashed [OF ol l] vi [OF j(2) l] by (simp add: core_at_def)
    qed
  next
    case False
    note vj = vi [OF j(1) False] only_hashed [OF ol False]
    show ?thesis
    proof (cases "l = i")
      case True
      then show ?thesis using un [of j] j False vj by (simp add: core_at_def)
    next
      case lf: False
      then show ?thesis using consistentD(5) [OF co, of j l] j vj vi [OF j(2) lf] only_hashed [OF ol lf] by (simp add: core_at_def)
    qed
  qed
  have "cores_ok (\<lambda>i. bare P' R' i (core_at c' i)) (ndenode c') W' H' F'"
    unfolding cores_ok_def n bare_simps(2,3) using nodes bk hh uq by blast
  then show ?thesis using at bd' rels n by (simp add: consistent_def)
qed

end
