(* ===== verification/DcacheOps.thy ===== *)
theory DcacheOps
  imports DcacheInv
begin

text \<open>
  Each step of \<open>deget\<close> and \<open>dosfs_inactive\<close> keeps the invariant, with the change it makes to the free list, the
  chains and the one denode it is about.
\<close>

section \<open>Reading a denode without its links\<close>

lemma core_update [simp]:
  "core (de_dev_update g n) = de_dev_update g (core n)" "core (v_vfsp_update g2 n) = v_vfsp_update g2 (core n)"
  "core (v_count_update g3 n) = v_count_update g3 (core n)" "core (v_dir_update g4 n) = v_dir_update g4 (core n)"
  "core (de_locked_update g4 n) = de_locked_update g4 (core n)" "core (de_node_update g5 n) = de_node_update g5 (core n)"
  by (simp_all add: core_def)

lemma at_core:
  "ident (dc_nodes c ! i) = ident (core_at c i)" "valid (dc_nodes c ! i) = valid (core_at c i)"
  "node_ok a b (dc_nodes c ! i) = node_ok a b (core_at c i)" "v_count (dc_nodes c ! i) = v_count (core_at c i)"
  "de_locked (dc_nodes c ! i) = de_locked (core_at c i)" "de_node (dc_nodes c ! i) = de_node (core_at c i)"
  "de_dev (dc_nodes c ! i) = de_dev (core_at c i)" "v_vfsp (dc_nodes c ! i) = v_vfsp (core_at c i)"
  "node_ok a b (bare P R i (dc_nodes c ! i)) = node_ok a b (bare P R i (core_at c i))"
  "rel_ok P R F i (dc_nodes c ! i) = rel_ok P R F i (core_at c i)"
  by (simp_all add: core_at_def)

lemma set_node_core:
  assumes at: "cache_at c H F" and i: "i < ndenode c" and f: "\<And>n. de_forw (f n) = de_forw n" "\<And>n. de_back (f n) = de_back n"
    "\<And>n. de_freef (f n) = de_freef n" "\<And>n. de_freeb (f n) = de_freeb n"
  shows "cache_at (set_node c i f) H F" and "core_at (set_node c i f) i = core (f (dc_nodes c ! i))" and "only_node i c (set_node c i f)"
proof -
  note s = set_node_ok [of c H F i f, OF at i f]
  show "cache_at (set_node c i f) H F" by (rule s(1))
  show "core_at (set_node c i f) i = core (f (dc_nodes c ! i))" using s(2) by (simp add: core_at_def)
  show "only_node i c (set_node c i f)" using s(3,4) cache_bounds(2) [OF at] by (simp add: only_node_def core_at_def)
qed

text \<open>A change that is not to the links.\<close>

definition payload :: "(cnode \<Rightarrow> cnode) \<Rightarrow> bool" where
  "payload f \<longleftrightarrow> (\<forall>n. de_forw (f n) = de_forw n \<and> de_back (f n) = de_back n \<and> de_freef (f n) = de_freef n \<and> de_freeb (f n) = de_freeb n
     \<and> core (f n) = f (core n))"

lemma set_node_step:
  assumes at: "cache_at c H F" and i: "i < ndenode c" and f: "payload f"
  shows "cache_at (set_node c i f) H F" and "core_at (set_node c i f) i = f (core_at c i)" and "only_node i c (set_node c i f)"
    and "ndenode (set_node c i f) = ndenode c"
proof -
  note s = set_node_core [of c H F i f, OF at i]
  show "cache_at (set_node c i f) H F" "only_node i c (set_node c i f)" using s(1,3) f by (simp_all add: payload_def)
  have "core_at (set_node c i f) i = core (f (dc_nodes c ! i))" using s(2) f by (simp add: payload_def)
  then show "core_at (set_node c i f) i = f (core_at c i)" using f by (simp add: payload_def core_at_def)
qed (simp add: set_node_def)

lemma same_core_at: "same_core c c' \<Longrightarrow> cache_at c H F \<Longrightarrow> i < ndenode c \<Longrightarrow> core_at c' i = core_at c i \<and> ndenode c' = ndenode c"
  using cache_bounds(2) [of c H F] by (simp add: same_core_def)

lemma DEREF_set [simp]: "(x OR DEREF) AND DEREF \<noteq> 0" "DEREF \<noteq> 0" "DEREF AND NOT (DEUPD OR DEMOD) = DEREF"
proof -
  have "(x OR DEREF) AND DEREF = DEREF" by (rule bit_eqI) (auto simp: bit_and_iff bit_or_iff)
  then show "(x OR DEREF) AND DEREF \<noteq> 0" by (simp add: DEREF_def)
qed (simp_all add: DEREF_def DEUPD_def DEMOD_def)

section \<open>A denode that is found\<close>

definition found_node :: "cnode \<Rightarrow> cnode" where
  "found_node n = de_node_update (\<lambda>m. m\<lparr>de_flag := de_flag m OR DEREF\<rparr>) n"

lemma deget_found_step:
  assumes co: "consistent c W P R H F" and i: "i < ndenode c" and r: "i \<notin> R"
  shows "cache_at (deget_found c i) H (remove1 i F)" and "only_node i c (deget_found c i)"
    and "core_at (deget_found c i) i = found_node (core_at c i)" and "ndenode (deget_found c i) = ndenode c"
proof -
  note at = consistentD(1) [OF co]
  define c1 where "c1 = (if de_flag (de_node (dc_nodes c ! i)) AND DEREF = 0 then free_unlink c i else c)"
  have fr: "i \<in> set F \<longleftrightarrow> de_flag (de_node (dc_nodes c ! i)) AND DEREF = 0"
    using consistentD(2) [OF co i] r by (simp add: node_ok_def bare_def split: if_splits)
  have c1: "cache_at c1 H (remove1 i F) \<and> same_core c c1"
  proof (cases "i \<in> set F")
    case True
    then obtain ys zs where F: "F = ys @ i # zs" "i \<notin> set ys" by (meson split_list_first)
    then have "remove1 i F = ys @ zs" by (simp add: remove1_append)
    then show ?thesis using free_unlink_ok [of c H ys i zs] at F True fr by (simp add: c1_def)
  next
    case False
    then show ?thesis using at fr same_core_refl by (simp add: c1_def remove1_idem)
  qed
  note k = same_core_at [OF conjunct2 [OF c1] at i]
  have n: "deget_found c i = set_node c1 i (de_node_update (\<lambda>m. m\<lparr>de_flag := de_flag m OR DEREF\<rparr>))"
    unfolding deget_found_def Let_def c1_def ..
  have i1: "i < ndenode c1" using i k by simp
  note s = set_node_core [of c1 H "remove1 i F" i "de_node_update (\<lambda>m. m\<lparr>de_flag := de_flag m OR DEREF\<rparr>)", folded n, OF conjunct1 [OF c1] i1]
  show "cache_at (deget_found c i) H (remove1 i F)" by (rule s(1)) simp_all
  have "only_node i c1 (deget_found c i)" by (rule s(3)) simp_all
  then show "only_node i c (deget_found c i)" using only_node_trans same_core_only [OF conjunct2 [OF c1] at] by blast
  then show "ndenode (deget_found c i) = ndenode c" by (simp add: only_node_def)
  have "core_at (deget_found c i) i = core (found_node (dc_nodes c1 ! i))" unfolding found_node_def by (rule s(2)) simp_all
  then show "core_at (deget_found c i) i = found_node (core_at c i)"
    using k by (simp add: found_node_def core_at_def)
qed

text \<open>A change that keeps the identity and the chains.\<close>

lemma consistent_keep:
  assumes co: "consistent c W P R H F" and i: "i < ndenode c" and at: "cache_at c' H F'" and on: "only_node i c c'"
    and fr: "set F' - {i} = set F - {i}" and wt: "set W' - {i} = set W - {i}" and pr: "P' - {i} = P - {i}" "R' - {i} = R - {i}"
    and ok: "node_ok (i \<in> set F') (i \<in> set W') (bare P' R' i (core_at c' i))" and rl: "rel_ok P' R' F' i (core_at c' i)"
    and id: "valid (core_at c' i) \<Longrightarrow> valid (core_at c i) \<and> ident (core_at c' i) = ident (core_at c i)"
    and hs: "i \<notin> set F' \<Longrightarrow> valid (core_at c' i) \<Longrightarrow> hashed H i"
  shows "consistent c' W' P' R' H F'"
proof (rule consistent_node [OF co i at on only_lists_refl fr wt pr])
  show "node_ok (i \<in> set F') (i \<in> set W') (bare P' R' i (dc_nodes c' ! i))" "rel_ok P' R' F' i (dc_nodes c' ! i)"
    using ok rl by (simp_all add: core_at_def)
next
  fix h assume "h < DEHSZ" "i \<in> set (H h)" "valid (dc_nodes c' ! i)"
  then show "bucket (ident (dc_nodes c' ! i)) = h" using consistentD(3) [OF co, of h i] id by (simp add: at_core)
next
  fix j assume "hashed H i" "valid (dc_nodes c' ! i)" "hashed H j" "valid (dc_nodes c ! j)" "j \<noteq> i"
  then show "ident (dc_nodes c ! j) \<noteq> ident (dc_nodes c' ! i)" using consistentD(5) [OF co, of j i] id by (auto simp: at_core)
qed (use hs in \<open>simp add: at_core\<close>)

text \<open>A denode no release is under way of, before and after.\<close>

lemma consistent_rest:
  assumes co: "consistent c W P R H F" and i: "i < ndenode c" "i \<notin> P" "i \<notin> R" and at: "cache_at c' H F'" and on: "only_node i c c'"
    and fr: "set F' - {i} = set F - {i}" and wt: "set W' - {i} = set W - {i}"
    and ok: "node_ok (i \<in> set F') (i \<in> set W') (core_at c' i)"
    and id: "valid (core_at c' i) \<Longrightarrow> valid (core_at c i) \<and> ident (core_at c' i) = ident (core_at c i)"
    and hs: "i \<notin> set F' \<Longrightarrow> valid (core_at c' i) \<Longrightarrow> hashed H i"
  shows "consistent c' W' P R H F'"
  by (rule consistent_keep [OF co i(1) at on fr wt refl refl _ _ id hs]) (simp_all add: ok i)

text \<open>The denode is locked: the caller waits for it, and nothing else has changed.\<close>

lemma deget_asleep_ok:
  assumes co: "consistent c W P R H F" and i: "i < ndenode c" "hashed H i" "i \<notin> R" and lk: "de_locked (dc_nodes c ! i)"
  shows "consistent (deget_found c i) (i # W) P R H F"
proof -
  note st = deget_found_step [OF co i(1,3)]
  have nf: "i \<notin> set F" using rest_node(5) [OF co i(1)] lk i(3) by blast
  have r: "remove1 i F = F" using nf by (simp add: remove1_idem)
  have id: "ident (core_at (deget_found c i) i) = ident (core_at c i)" "valid (core_at (deget_found c i) i) = valid (core_at c i)"
    unfolding st(3) by (simp_all add: found_node_def ident_def valid_def ISADIR_def)
  show ?thesis
  proof (rule consistent_keep [OF co i(1) st(1,2) _ _ refl refl, unfolded r])
    show "node_ok (i \<in> set F) (i \<in> set (i # W)) (bare P R i (core_at (deget_found c i) i))"
      using consistentD(2) [OF co i(1)] nf i(3) unfolding at_core st(3)
      by (cases "i \<in> P") (simp_all add: found_node_def node_ok_def bare_def)
    show "rel_ok P R F i (core_at (deget_found c i) i)"
      using consistentD(6) [OF co i(1)] i(3) unfolding st(3) by (simp add: at_core rel_ok_def found_node_def)
  qed (use i id in auto)
qed

lemma deget_wake_ok:
  assumes co: "consistent c W P R H F" and i: "i < ndenode c" "i \<notin> P" "i \<notin> R" "i \<notin> set F" "valid (core_at c i) \<longrightarrow> hashed H i"
    and hold: "\<And>x. hold x = x + 1" and w: "set W' - {i} = set W - {i}"
  shows "consistent (deget_wake hold c i) W' P R H F" and "only_node i c (deget_wake hold c i)"
    and "core_at (deget_wake hold c i) i = (core_at c i)\<lparr>de_locked := True, v_count := v_count (core_at c i) + 1\<rparr>"
proof -
  note at = consistentD(1) [OF co]
  have pf: "payload (\<lambda>n. n\<lparr>de_locked := True, v_count := hold (v_count n)\<rparr>)" by (simp add: payload_def)
  note s = set_node_step [OF at i(1) pf, folded deget_wake_def]
  show "only_node i c (deget_wake hold c i)" by (rule s(3))
  show n: "core_at (deget_wake hold c i) i = (core_at c i)\<lparr>de_locked := True, v_count := v_count (core_at c i) + 1\<rparr>"
    using s(2) by (simp add: hold)
  have id: "ident (core_at (deget_wake hold c i) i) = ident (core_at c i)" "valid (core_at (deget_wake hold c i) i) = valid (core_at c i)"
    unfolding n by (simp_all add: ident_def valid_def)
  show "consistent (deget_wake hold c i) W' P R H F"
  proof (rule consistent_rest [OF co i(1-3) s(1,3)])
    show "node_ok (i \<in> set F) (i \<in> set W') (core_at (deget_wake hold c i) i)"
      using consistentD(2) [OF co i(1)] i unfolding n by (simp add: at_core node_ok_def)
  qed (use i id w in auto)
qed

text \<open>A denode found with its lock free, on the free list or not.\<close>

definition got_node :: "cnode \<Rightarrow> cnode" where
  "got_node n = (found_node n)\<lparr>de_locked := True, v_count := v_count n + 1\<rparr>"

lemma deget_got_ok:
  assumes co: "consistent c W P R H F" and i: "i < ndenode c" "hashed H i" "i \<notin> P" "i \<notin> R" and hold: "\<And>x. hold x = x + 1"
  defines "c' \<equiv> deget_wake hold (deget_found c i) i"
  shows "consistent c' W P R H (remove1 i F)" and "only_node i c c'" and "core_at c' i = got_node (core_at c i)"
proof -
  note st = deget_found_step [OF co i(1,4)]
  have d: "distinct F" using cache_bounds(4) [OF consistentD(1) [OF co]] .
  have i': "i < ndenode (deget_found c i)" using i st(4) by simp
  have pf: "payload (\<lambda>n. n\<lparr>de_locked := True, v_count := hold (v_count n)\<rparr>)" by (simp add: payload_def)
  note s = set_node_step [OF st(1) i' pf, folded deget_wake_def, folded c'_def]
  show on: "only_node i c c'" by (rule only_node_trans [OF st(2) s(3)])
  show n: "core_at c' i = got_node (core_at c i)" using s(2) unfolding st(3) by (simp add: hold got_node_def found_node_def)
  have id: "ident (core_at c' i) = ident (core_at c i)" "valid (core_at c' i) = valid (core_at c i)"
    unfolding n by (simp_all add: got_node_def found_node_def ident_def valid_def ISADIR_def)
  show "consistent c' W P R H (remove1 i F)"
  proof (rule consistent_rest [OF co i(1,3,4) s(1) on])
    show "node_ok (i \<in> set (remove1 i F)) (i \<in> set W) (core_at c' i)"
      using consistentD(2) [OF co i(1)] i d unfolding n by (auto simp: at_core node_ok_def got_node_def found_node_def)
  qed (use i id d in auto)
qed

section \<open>A denode from the free list\<close>

text \<open>The entry given is that of the file asked for; for the root directory none is needed.\<close>

definition entry_for :: "dkey \<Rightarrow> direntry option \<Rightarrow> bool" where
  "entry_for k direntp \<longleftrightarrow> k_startclust k = DOSFSROOT \<and> k_isadir k
     \<or> (\<exists>e. direntp = Some e \<and> (deAttributes e AND ATTR_DIRECTORY \<noteq> 0 \<longleftrightarrow> k_isadir k) \<and> (k_isadir k \<longrightarrow> unat (deStartCluster e) = k_startclust k))"

text \<open>The entry of a file, with the root directory made up.\<close>

definition the_entry :: "dkey \<Rightarrow> direntry option \<Rightarrow> direntry \<Rightarrow> direntry" where
  "the_entry k direntp e0 = (if k_startclust k = DOSFSROOT \<and> k_isadir k
     then e0\<lparr>deAttributes := ATTR_DIRECTORY, deStartCluster := of_nat DOSFSROOT, deFileSize := 0, deTime := 0, deDate := push_bit 5 1 OR 1\<rparr>
     else the direntp)"

definition taken_node :: "dkey \<Rightarrow> direntry option \<Rightarrow> cnode \<Rightarrow> cnode" where
  "taken_node k direntp n =
     (let e = the_entry k direntp (de_de (de_node n))
      in n\<lparr>de_dev := k_dev k, de_locked := True, v_dir := deAttributes e AND ATTR_DIRECTORY \<noteq> 0, v_count := 1, v_vfsp := Some (k_vfsp k),
           de_node := (fc_purge (de_node n) 0)\<lparr>de_flag := DEREF, de_de := e, de_vroot := False, de_refcnt := 1,
             de_dirclust := k_dirclust k, de_diroffset := k_diroffset k\<rparr>\<rparr>)"

lemma deget_fill_node:
  assumes "entry_for k direntp"
  shows "deget_fill k direntp (n\<lparr>de_dev := k_dev k, de_locked := True, de_node := fc_purge ((de_node n)\<lparr>de_flag := DEREF\<rparr>) 0\<rparr>)
    = Some (taken_node k direntp n)"
  using assms by (auto simp: deget_fill_def taken_node_def entry_for_def the_entry_def fc_purge_def Let_def)

lemma taken_fields:
  assumes "entry_for k direntp"
  shows "ident (taken_node k direntp n) = kident k" and "valid (taken_node k direntp n)" and "node_ok False w (taken_node k direntp n)"
    and "v_count (taken_node k direntp n) = 1" and "de_locked (taken_node k direntp n)"
  using assms by (auto simp: taken_node_def Let_def ident_def kident_def valid_def node_ok_def ISADIR_def entry_for_def the_entry_def
    ATTR_DIRECTORY_def DOSFSROOT_def)

lemma taken_core: "core (taken_node k direntp n) = taken_node k direntp (core n)"
  by (simp add: taken_node_def Let_def)

lemma deget_take_ok:
  assumes co: "consistent c W P R H (i # F)" and ir: "i \<notin> R" and e: "entry_for k direntp" and new: "\<And>j. hashed H j \<Longrightarrow> \<not> deget_match k (dc_nodes c ! j)"
  defines "H' \<equiv> (unhash H i)(bucket (kident k) := i # unhash H i (bucket (kident k)))"
  obtains c' where "deget_take k direntp c i = Some c'" and "consistent c' W P R H' F" and "only_node i c c'"
    and "core_at c' i = taken_node k direntp (core_at c i)"
proof -
  note at = consistentD(1) [OF co]
  have d: "distinct (i # F)" "set (i # F) \<subseteq> {..<ndenode c}" using cache_bounds(3,4) [OF at] by blast+
  then have i: "i < ndenode c" "i \<notin> set F" by auto
  have ip: "i \<notin> P" using rest_node(4) [OF co i(1)] by auto
  define b where "b = bucket (kident k)"
  define c1 where "c1 = free_pop c i"
  define c2 where "c2 = c1\<lparr>dc_nodes := deunhash (dc_nodes c1) i\<rparr>"
  define f :: "cnode \<Rightarrow> cnode" where "f = (\<lambda>n. n\<lparr>de_dev := k_dev k, de_locked := True, de_node := fc_purge ((de_node n)\<lparr>de_flag := DEREF\<rparr>) 0\<rparr>)"
  define c3 where "c3 = set_node c2 i f"
  define c4 where "c4 = c3\<lparr>dc_nodes := dehash (dc_nodes c3) i (dehead c3 b)\<rparr>"
  have a1: "cache_at c1 H F" "same_core c c1" unfolding c1_def by (rule free_pop_ok [OF at])+
  note k1 = same_core_at [OF a1(2) at i(1)]
  have i1: "i < ndenode c1" using k1 i by simp
  have a2: "cache_at c2 (unhash H i) F" "same_core c1 c2" unfolding c2_def by (rule unhash_ok [OF a1(1) i1])+
  note k2 = same_core_at [OF a2(2) a1(1) i1]
  have i2: "i < ndenode c2" using k2 i1 by simp
  note s = set_node_core [of c2 "unhash H i" F i f, OF a2(1) i2, folded c3_def]
  have a3: "cache_at c3 (unhash H i) F" by (rule s(1)) (simp_all add: f_def)
  have o3: "only_node i c2 c3" by (rule s(3)) (simp_all add: f_def)
  have "core_at c3 i = core (f (dc_nodes c2 ! i))" by (rule s(2)) (simp_all add: f_def)
  moreover have "core (f n) = f (core n)" for n by (simp add: f_def)
  ultimately have "core_at c3 i = f (core_at c2 i)" by (simp add: core_at_def)
  then have k3: "core_at c3 i = f (core_at c i)" using k1 k2 by simp
  have i3: "i < ndenode c3" using o3 i2 by (simp add: only_node_def)
  have nh: "\<not> hashed (unhash H i) i" by simp
  have a4: "cache_at c4 H' F" "same_core c3 c4"
    unfolding c4_def H'_def b_def by (rule hash_ok [OF a3 i3 nh bucket_less])+
  note k4 = same_core_at [OF a4(2) a3 i3]
  have i4: "i < ndenode c4" using k4 i3 by simp
  define pre :: "cnode \<Rightarrow> cnode" where "pre = (\<lambda>n. n\<lparr>de_dev := de_dev (core_at c i), de_locked := de_locked (core_at c i), de_node := de_node (core_at c i)\<rparr>)"
  define g where "g = (\<lambda>n. taken_node k direntp (pre n))"
  have q: "dc_nodes c4 ! i = f (pre (dc_nodes c4 ! i))"
  proof -
    have "core (dc_nodes c4 ! i) = f (core_at c i)" using k4 k3 by (simp add: core_at_def)
    from arg_cong [OF this, of de_dev] arg_cong [OF this, of de_locked] arg_cong [OF this, of de_node]
    show ?thesis by (simp add: f_def pre_def)
  qed
  have "deget_fill k direntp (f (pre (dc_nodes c4 ! i))) = Some (g (dc_nodes c4 ! i))"
    unfolding f_def g_def by (rule deget_fill_node [OF e])
  then have fl: "deget_fill k direntp (dc_nodes c4 ! i) = Some (g (dc_nodes c4 ! i))" using q by simp
  define c5 where "c5 = set_node c4 i g"
  have eq: "set_node c4 i (\<lambda>_. g (dc_nodes c4 ! i)) = c5" by (simp add: c5_def set_node_def upd_def)
  have run: "deget_take k direntp c i = Some c5"
    using fl eq unfolding deget_take_def c4_def c3_def c2_def c1_def f_def b_def head_bucket by (simp add: Let_def)
  note s = set_node_core [of c4 H' F i g, OF a4(1) i4, folded c5_def]
  have gl: "de_forw (g n) = de_forw n" "de_back (g n) = de_back n" "de_freef (g n) = de_freef n" "de_freeb (g n) = de_freeb n" for n
    by (simp_all add: g_def pre_def taken_node_def Let_def)
  have a5: "cache_at c5 H' F" by (rule s(1) [OF gl])
  have o5: "only_node i c c5"
    using only_node_trans [OF only_node_trans [OF only_node_trans [OF only_node_trans
      [OF same_core_only [OF a1(2) at] same_core_only [OF a2(2) a1(1)]] o3] same_core_only [OF a4(2) a3]] s(3) [OF gl]] .
  have "core_at c5 i = core (g (dc_nodes c4 ! i))" by (rule s(2) [OF gl])
  also have "\<dots> = g (core_at c4 i)" by (simp add: g_def taken_core pre_def core_at_def)
  also have "\<dots> = taken_node k direntp (core_at c i)" using k4 k3 by (simp add: g_def pre_def f_def)
  finally have k5: "core_at c5 i = taken_node k direntp (core_at c i)" .
  note tk = taken_fields [OF e, where n = "core_at c i"]
  have "consistent c5 W P R H' F"
  proof (rule consistent_node [OF co i(1) a5 o5 _ _ _ refl refl])
    show "only_lists i H H'" by (simp add: H'_def)
    show "set F - {i} = set (i # F) - {i}" by auto
    show "node_ok (i \<in> set F) (i \<in> set W) (bare P R i (dc_nodes c5 ! i))" using tk(3) i(2) ip ir by (simp add: at_core k5)
    show "rel_ok P R F i (dc_nodes c5 ! i)" using ip ir by simp
  next
    fix h assume "h < DEHSZ" "i \<in> set (H' h)" "valid (dc_nodes c5 ! i)"
    then show "bucket (ident (dc_nodes c5 ! i)) = h" using tk(1) by (auto simp: at_core k5 H'_def unhash_def split: if_splits)
  next
    show "hashed H' i" unfolding H'_def hashed_def by (rule exI [of _ "bucket (kident k)"]) simp
  next
    fix j assume "hashed H j" "valid (dc_nodes c ! j)"
    then show "ident (dc_nodes c ! j) \<noteq> ident (dc_nodes c5 ! i)" using new [of j] tk(1) by (simp add: match_ident at_core k5)
  qed simp
  then show ?thesis by (rule that [OF run _ o5 k5])
qed

section \<open>Releasing a denode\<close>

lemma inact_free_step:
  assumes at: "cache_at c H F" and i: "i < ndenode c" "i \<notin> set F"
  obtains c' H' F' where "inact_free False c i = Some (c', True)" and "cache_at c' H' F'" and "same_core c c'" and "only_lists i H H'"
    and "set F' = insert i (set F)" and "H' = H \<or> H' = unhash H i" and "de_refcnt (de_node (dc_nodes c ! i)) \<le> 0 \<longrightarrow> H' = unhash H i \<and> F' = i # F"
    and "0 < de_refcnt (de_node (dc_nodes c ! i)) \<longrightarrow> F' = F @ [i] \<and> (F \<noteq> [] \<longrightarrow> H' = H)" and "F = [] \<longrightarrow> H' = unhash H i"
proof (cases "de_refcnt (de_node (dc_nodes c ! i)) \<le> 0 \<or> dfreeh c = None")
  case True
  define c1 where "c1 = c\<lparr>dc_nodes := deunhash (dc_nodes c) i\<rparr>"
  have a1: "cache_at c1 (unhash H i) F" "same_core c c1" unfolding c1_def by (rule unhash_ok [OF at i(1)])+
  have i1: "i < ndenode c1" using i by (simp add: c1_def)
  note a2 = free_front_ok [OF a1(1) i1 i(2)]
  show ?thesis
  proof (rule that)
    show "inact_free False c i = Some (free_front c1 i, True)" using True by (simp add: inact_free_def c1_def)
    show "cache_at (free_front c1 i) (unhash H i) (i # F)" by (rule a2(1))
    show "same_core c (free_front c1 i)" by (rule same_core_trans [OF a1(2) a2(2)])
    show "0 < de_refcnt (de_node (dc_nodes c ! i)) \<longrightarrow> i # F = F @ [i] \<and> (F \<noteq> [] \<longrightarrow> unhash H i = H)"
      using True free_head(1) [OF at] by auto
  qed simp_all
next
  case False
  then have "F \<noteq> []" using free_head(1) [OF at] by auto
  then obtain c' where c': "free_end c i = Some c'" "cache_at c' H (F @ [i])" "same_core c c'" using free_end_ok [OF at _ i] by blast
  show ?thesis
  proof (rule that [OF _ c'(2,3)])
    show "inact_free False c i = Some (c', True)" using False c'(1) by (auto simp: inact_free_def)
  qed (use False \<open>F \<noteq> []\<close> in auto)
qed

lemma deupdat_keeps:
  assumes "deupdat io ronly pvp d cv dep tp w = Some (d', cv', dep', e)"
  shows "\<exists>date time flag. dep' = dep\<lparr>de_de := (de_de dep)\<lparr>deDate := date, deTime := time\<rparr>, de_flag := flag\<rparr>"
proof -
  have same: "\<exists>date time flag. dep = dep\<lparr>de_de := (de_de dep)\<lparr>deDate := date, deTime := time\<rparr>, de_flag := flag\<rparr>"
    by (rule exI [of _ "deDate (de_de dep)"], rule exI [of _ "deTime (de_de dep)"], rule exI [of _ "de_flag dep"]) simp
  show ?thesis
    using assms same unfolding deupdat_def
    by (auto simp: Let_def split: if_splits option.splits Option.bind_splits prod.splits)
qed

lemma pcbmap_refcnt:
  assumes "pcbmap io pvp d dep fc a b = Some (d', dep', r)"
  shows "de_refcnt dep' = de_refcnt dep"
  using assms unfolding pcbmap_def
  by (auto simp: Let_def fc_setcache_def split: if_splits sum.splits Option.bind_splits prod.splits)

lemma trunc_cut_refcnt:
  assumes "trunc_cut io pvp d dep len b ch = Some (d', pvp', dep', r)"
  shows "de_refcnt dep' = de_refcnt dep"
  using assms unfolding trunc_cut_def
  by (auto simp: Let_def fc_setcache_def split: if_splits Option.bind_splits prod.splits)

lemma trunc_rest_refcnt:
  assumes "trunc_rest io ronly now pvp d cv dep len sync b ch = Some (d', pvp', cv', dep', e)"
  shows "de_refcnt dep' = de_refcnt dep"
  using assms unfolding trunc_rest_def
  by (auto simp: Let_def fc_purge_def dest!: trunc_cut_refcnt deupdat_keeps split: if_splits Option.bind_splits prod.splits)

lemma trunc_size_refcnt:
  assumes "trunc_size io pvp d dep = Some (d', dep', r)"
  shows "de_refcnt dep' = de_refcnt dep"
  using assms unfolding trunc_size_def
  by (auto dest!: pcbmap_refcnt split: if_splits Option.bind_splits prod.splits)

lemma trunc_point_refcnt:
  assumes "trunc_point io pvp d dep len = Some (d', dep', r)"
  shows "de_refcnt dep' = de_refcnt dep"
  using assms unfolding trunc_point_def
  by (auto dest!: pcbmap_refcnt split: if_splits Option.bind_splits prod.splits)

lemma detrunc_refcnt:
  assumes "detrunc io ronly now pvp d cv dep len sync = Some (d', pvp', cv', dep', e)"
  shows "de_refcnt dep' = de_refcnt dep"
  using assms unfolding detrunc_def
  by (auto simp: Let_def dest!: trunc_rest_refcnt trunc_size_refcnt trunc_point_refcnt deupdat_keeps
    split: if_splits option.splits Option.bind_splits prod.splits)

text \<open>What the last step writes into the denode.\<close>

definition same_file :: "denode \<Rightarrow> denode \<Rightarrow> bool" where
  "same_file p q \<longleftrightarrow> de_refcnt q = de_refcnt p \<and> (0 < de_refcnt p \<longrightarrow> de_dirclust q = de_dirclust p \<and> de_diroffset q = de_diroffset p
     \<and> de_de q\<lparr>deDate := 0, deTime := 0\<rparr> = de_de p\<lparr>deDate := 0, deTime := 0\<rparr>)"

lemma same_file_ident:
  assumes "same_file (de_node n) p"
  shows "valid (n\<lparr>de_node := p\<lparr>de_flag := f\<rparr>, de_locked := l\<rparr>) = valid n"
    and "valid n \<Longrightarrow> ident (n\<lparr>de_node := p\<lparr>de_flag := f\<rparr>, de_locked := l\<rparr>) = ident n"
proof -
  show "valid (n\<lparr>de_node := p\<lparr>de_flag := f\<rparr>, de_locked := l\<rparr>) = valid n" using assms by (simp add: valid_def same_file_def)
  assume "valid n"
  then have e: "de_dirclust p = de_dirclust (de_node n)" "de_diroffset p = de_diroffset (de_node n)"
    "de_de p\<lparr>deDate := 0, deTime := 0\<rparr> = de_de (de_node n)\<lparr>deDate := 0, deTime := 0\<rparr>" using assms by (simp_all add: same_file_def valid_def)
  have "deAttributes (de_de p) = deAttributes (de_de (de_node n))" "deStartCluster (de_de p) = deStartCluster (de_de (de_node n))"
    using arg_cong [OF e(3), of deAttributes] arg_cong [OF e(3), of deStartCluster] by simp_all
  then show "ident (n\<lparr>de_node := p\<lparr>de_flag := f\<rparr>, de_locked := l\<rparr>) = ident n" using e(1,2) by (simp add: ident_def ISADIR_def)
qed

lemma inact_finish_node:
  assumes run: "inact_finish io ronly shared now pvp d cv c i = Some (d', pvp', cv', c')"
  obtains p where "c' = set_node c i (\<lambda>n. n\<lparr>de_node := p\<lparr>de_flag := 0\<rparr>, de_locked := False\<rparr>)" and "same_file (de_node (dc_nodes c ! i)) p"
proof -
  let ?dep = "de_node (dc_nodes c ! i)"
  have "\<exists>p. c' = set_node c i (\<lambda>n. n\<lparr>de_node := p\<lparr>de_flag := 0\<rparr>, de_locked := False\<rparr>) \<and> same_file ?dep p"
    using run unfolding inact_finish_def
    by (auto simp: Let_def same_file_def dest!: detrunc_refcnt deupdat_keeps split: if_splits Option.bind_splits prod.splits)
  then show ?thesis using that by blast
qed

section \<open>The release, step by step\<close>

text \<open>One of several references is given up.\<close>

lemma inact_count_ok:
  assumes co: "consistent c W P R H F" and i: "i < ndenode c" and n: "0 < v_count (core_at c i)" and lk: "\<not> de_locked (core_at c i)"
    and m: "v_count (core_at c i) \<noteq> 1"
  obtains c' where "inact_count c i = Some (c', False)" and "consistent c' W P R H F" and "only_node i c c'"
    and "core_at c' i = (core_at c i)\<lparr>v_count := v_count (core_at c i) - 1\<rparr>"
proof -
  define f :: "cnode \<Rightarrow> cnode" where "f = (\<lambda>n. n\<lparr>v_count := v_count n - 1\<rparr>)"
  note at = consistentD(1) [OF co]
  have r: "i \<notin> P" "i \<notin> R" "i \<notin> set F" using rest_node [OF co i] n lk by (simp_all add: at_core)
  have pf: "payload f" by (simp add: payload_def f_def)
  let ?c = "set_node c i f"
  note s = set_node_step [OF at i pf]
  have k: "core_at ?c i = (core_at c i)\<lparr>v_count := v_count (core_at c i) - 1\<rparr>" using s(2) by (simp add: f_def)
  have id: "ident (core_at ?c i) = ident (core_at c i)" "valid (core_at ?c i) = valid (core_at c i)"
    unfolding k by (simp_all add: ident_def valid_def)
  have "consistent ?c W P R H F"
  proof (rule consistent_rest [OF co i r(1,2) s(1,3)])
    show "node_ok (i \<in> set F) (i \<in> set W) (core_at ?c i)"
      using consistentD(2) [OF co i] r n m unfolding k by (simp add: at_core node_ok_def)
    show "i \<notin> set F \<Longrightarrow> valid (core_at ?c i) \<Longrightarrow> hashed H i" using consistentD(4) [OF co i] id by (simp add: at_core)
  qed (use id in simp_all)
  moreover have "inact_count c i = Some (?c, False)" using lk m by (simp add: inact_count_def Let_def at_core f_def)
  ultimately show ?thesis using that s(3) k by blast
qed

text \<open>The last reference is given up.\<close>

lemma inact_last_ok:
  assumes co: "consistent c W P R H F" and i: "i < ndenode c" and n: "v_count (core_at c i) = 1" and lk: "\<not> de_locked (core_at c i)"
  obtains c' where "inact_count c i = Some (c', True)" and "consistent c' W (insert i P) R H F" and "only_node i c c'"
    and "core_at c' i = (core_at c i)\<lparr>v_count := 0, de_locked := True\<rparr>"
proof -
  define f :: "cnode \<Rightarrow> cnode" where "f = (\<lambda>n. n\<lparr>v_count := 0, de_locked := True\<rparr>)"
  note at = consistentD(1) [OF co]
  have r: "i \<notin> P" "i \<notin> R" "i \<notin> set F" using rest_node [OF co i] n lk by (simp_all add: at_core)
  have pf: "payload f" by (simp add: payload_def f_def)
  let ?c = "set_node c i f"
  note s = set_node_step [OF at i pf]
  have k: "core_at ?c i = (core_at c i)\<lparr>v_count := 0, de_locked := True\<rparr>" using s(2) by (simp add: f_def)
  have id: "ident (core_at ?c i) = ident (core_at c i)" "valid (core_at ?c i) = valid (core_at c i)"
    unfolding k by (simp_all add: ident_def valid_def)
  have "consistent ?c W (insert i P) R H F"
  proof (rule consistent_keep [OF co i s(1,3) refl refl _ refl])
    show "node_ok (i \<in> set F) (i \<in> set W) (bare (insert i P) R i (core_at ?c i))"
      using consistentD(2) [OF co i] r n unfolding k by (simp add: at_core node_ok_def bare_def)
    show "rel_ok (insert i P) R F i (core_at ?c i)" using r unfolding k by (simp add: rel_ok_def)
    show "i \<notin> set F \<Longrightarrow> valid (core_at ?c i) \<Longrightarrow> hashed H i" using consistentD(4) [OF co i] id by (simp add: at_core)
  qed (use id in auto)
  moreover have "inact_count c i = Some (?c, True)" using lk n by (simp add: inact_count_def Let_def at_core f_def)
  ultimately show ?thesis using that s(3) k by blast
qed

text \<open>Somebody waits for the denode: it is left to him.\<close>

lemma inact_blkd_ok:
  assumes co: "consistent c W P R H F" and i: "i \<in> P" "i \<in> set W"
  obtains c' where "inact_free True c i = Some (c', False)" and "consistent c' W (P - {i}) R H F" and "only_node i c c'"
    and "core_at c' i = (core_at c i)\<lparr>de_locked := False\<rparr>"
proof -
  define f :: "cnode \<Rightarrow> cnode" where "f = (\<lambda>n. n\<lparr>de_locked := False\<rparr>)"
  have n: "i < ndenode c" using consistentD(7) [OF co] i by blast
  note at = consistentD(1) [OF co]
  have r: "i \<notin> R" "i \<notin> set F" using rest_node(4) [OF co n] i by simp_all
  have z: "v_count (core_at c i) = 0" using consistentD(6) [OF co n] i by (simp add: at_core rel_ok_def)
  have pf: "payload f" by (simp add: payload_def f_def)
  let ?c = "set_node c i f"
  note s = set_node_step [OF at n pf]
  have k: "core_at ?c i = (core_at c i)\<lparr>de_locked := False\<rparr>" using s(2) by (simp add: f_def)
  have id: "ident (core_at ?c i) = ident (core_at c i)" "valid (core_at ?c i) = valid (core_at c i)"
    unfolding k by (simp_all add: ident_def valid_def)
  have "consistent ?c W (P - {i}) R H F"
  proof (rule consistent_keep [OF co n s(1,3) refl refl _ refl])
    show "node_ok (i \<in> set F) (i \<in> set W) (bare (P - {i}) R i (core_at ?c i))"
      using consistentD(2) [OF co n] r i z unfolding k by (simp add: at_core node_ok_def bare_def)
    show "rel_ok (P - {i}) R F i (core_at ?c i)" using r by simp
    show "i \<notin> set F \<Longrightarrow> valid (core_at ?c i) \<Longrightarrow> hashed H i" using consistentD(4) [OF co n] id by (simp add: at_core)
  qed (use id in auto)
  moreover have "inact_free True c i = Some (?c, False)" by (simp add: inact_free_def f_def)
  ultimately show ?thesis using that s(3) k by blast
qed

text \<open>Nobody waits for it: it is put on the free list, and taken out of its chain if its file is gone or the list was
  empty.\<close>

lemma inact_put_ok:
  assumes co: "consistent c W P R H F" and i: "i \<in> P" "i \<notin> set W"
  obtains c' H' F' where "inact_free False c i = Some (c', True)" and "consistent c' W (P - {i}) (insert i R) H' F'"
    and "only_node i c c'" and "core_at c' i = core_at c i" and "only_lists i H H'"
    and "de_refcnt (de_node (core_at c i)) \<le> 0 \<longrightarrow> H' = unhash H i \<and> F' = i # F"
    and "0 < de_refcnt (de_node (core_at c i)) \<longrightarrow> F' = F @ [i] \<and> (F \<noteq> [] \<longrightarrow> H' = H)" and "F = [] \<longrightarrow> H' = unhash H i"
proof -
  have n: "i < ndenode c" using consistentD(7) [OF co] i by blast
  note at = consistentD(1) [OF co]
  have r: "i \<notin> R" "i \<notin> set F" using rest_node(4) [OF co n] i by simp_all
  have z: "v_count (core_at c i) = 0" "de_locked (core_at c i)" using consistentD(6) [OF co n] i by (simp_all add: at_core rel_ok_def)
  have fl: "de_flag (de_node (core_at c i)) AND DEREF \<noteq> 0"
    using consistentD(2) [OF co n] r i by (simp add: at_core node_ok_def bare_def)
  obtain c2 H' F' where s: "inact_free False c i = Some (c2, True)" "cache_at c2 H' F'" "same_core c c2" "only_lists i H H'"
      "set F' = insert i (set F)" "H' = H \<or> H' = unhash H i" "de_refcnt (de_node (core_at c i)) \<le> 0 \<longrightarrow> H' = unhash H i \<and> F' = i # F"
      "0 < de_refcnt (de_node (core_at c i)) \<longrightarrow> F' = F @ [i] \<and> (F \<noteq> [] \<longrightarrow> H' = H)" "F = [] \<longrightarrow> H' = unhash H i"
    by (rule inact_free_step [OF at n r(2), unfolded at_core]) (rule that; assumption)
  have k: "core_at c2 i = core_at c i" using same_core_at [OF s(3) at n] by blast
  have on: "only_node i c c2" by (rule same_core_only [OF s(3) at])
  have sub: "set (H' h) \<subseteq> set (H h)" if "h < DEHSZ" for h
    using s(6) by (auto simp: unhash_def)
  have "consistent c2 W (P - {i}) (insert i R) H' F'"
  proof (rule consistent_node [OF co n s(2) on s(4)])
    show "set F' - {i} = set F - {i}" using s(5) by auto
    show "node_ok (i \<in> set F') (i \<in> set W) (bare (P - {i}) (insert i R) i (dc_nodes c2 ! i))"
      using s(5) i z by (simp add: bare_def at_core k node_ok_def)
    show "rel_ok (P - {i}) (insert i R) F' i (dc_nodes c2 ! i)" using s(5) z fl by (simp add: rel_ok_def at_core k)
  next
    fix h assume h: "h < DEHSZ" "i \<in> set (H' h)" "valid (dc_nodes c2 ! i)"
    then have "i \<in> set (H h)" using sub by blast
    then show "bucket (ident (dc_nodes c2 ! i)) = h" using consistentD(3) [OF co h(1), of i] h(3) by (simp add: at_core k)
  next
    fix j assume j: "hashed H' i" "valid (dc_nodes c2 ! i)" "hashed H j" "valid (dc_nodes c ! j)" "j \<noteq> i"
    have "hashed H i" using j(1) sub by (auto simp: hashed_def)
    then show "ident (dc_nodes c ! j) \<noteq> ident (dc_nodes c2 ! i)" using consistentD(5) [OF co j(3), of i] j by (auto simp: at_core k)
  qed (use s(5) in auto)
  then show ?thesis using that s(1,4,7-9) on k by blast
qed

text \<open>The end of the release: the entry is written back, and the denode is like any other on the free list.\<close>

lemma inact_finish_ok:
  assumes co: "consistent c W P R H F" and i: "i \<in> R"
    and run: "inact_finish io ronly shared now pvp d cv c i = Some (d', pvp', cv', c')"
  obtains p where "consistent c' W P (R - {i}) H F" and "only_node i c c'" and "same_file (de_node (core_at c i)) p"
    and "core_at c' i = (core_at c i)\<lparr>de_node := p\<lparr>de_flag := 0\<rparr>, de_locked := False\<rparr>"
proof -
  have n: "i < ndenode c" using consistentD(7) [OF co] i by blast
  note at = consistentD(1) [OF co]
  have r: "i \<in> set F" "i \<notin> P" using consistentD(6) [OF co n] i by (auto simp: rel_ok_def)
  have ok: "v_count (core_at c i) = 0" "i \<notin> set W"
    using consistentD(2) [OF co n] r i by (simp_all add: at_core node_ok_def bare_def)
  obtain p where p: "c' = set_node c i (\<lambda>n. n\<lparr>de_node := p\<lparr>de_flag := 0\<rparr>, de_locked := False\<rparr>)" "same_file (de_node (core_at c i)) p"
    by (rule inact_finish_node [OF run, unfolded at_core])
  have pg: "payload (\<lambda>n. n\<lparr>de_node := p\<lparr>de_flag := 0\<rparr>, de_locked := False\<rparr>)" by (simp add: payload_def)
  note s = set_node_step [OF at n pg, folded p(1)]
  note sf = same_file_ident [OF p(2), where f = 0 and l = False, folded s(2)]
  have "consistent c' W P (R - {i}) H F"
  proof (rule consistent_keep [OF co n s(1,3) refl refl refl])
    show "node_ok (i \<in> set F) (i \<in> set W) (bare P (R - {i}) i (core_at c' i))" using r ok unfolding s(2) by (simp add: node_ok_def)
    show "rel_ok P (R - {i}) F i (core_at c' i)" using r by simp
  qed (use sf r in auto)
  then show ?thesis using that s(2,3) p(2) by blast
qed

end
