(* ===== verification/DcacheProps.thy ===== *)
theory DcacheProps
  imports DcacheOps
begin

text \<open>
  The table of denodes as a whole: loading it, getting denodes, and releasing them with the three steps taken at once.
\<close>

section \<open>Loading\<close>

definition doinit_node :: "nat \<Rightarrow> nat \<Rightarrow> nat \<Rightarrow> cnode \<Rightarrow> cnode" where
  "doinit_node dp n a x = x\<lparr>de_forw := if dp \<le> a \<and> a < n then a else de_forw x, de_back := if dp \<le> a \<and> a < n then a else de_back x,
     de_freef := if dp \<le> a \<and> a < n - 1 then Some (a + 1) else de_freef x,
     de_freeb := if dp < a \<and> a < n then Some (a - 1) else de_freeb x\<rparr>"

declare doinit_loop.simps [simp del]

lemma doinit_loop_nth:
  "n = dp + Suc k \<Longrightarrow> n \<le> length ns \<Longrightarrow> \<exists>ms. doinit_loop (Suc k) dp ns = (ms, n - 1) \<and> length ms = length ns
    \<and> (\<forall>a < length ns. ms ! a = doinit_node dp n a (ns ! a))"
proof (induction k arbitrary: dp ns)
  case 0
  then show ?case by (subst doinit_loop.simps) (auto simp: Let_def nth_upd doinit_node_def)
next
  case (Suc k)
  define n1 where "n1 = upd (upd ns dp (de_forw_update (\<lambda>_. dp))) dp (de_back_update (\<lambda>_. dp))"
  define n2 where "n2 = upd (upd n1 dp (de_freef_update (\<lambda>_. Some (dp + 1)))) (dp + 1) (de_freeb_update (\<lambda>_. Some dp))"
  have l: "length n2 = length ns" by (simp add: n2_def n1_def)
  have run: "doinit_loop (Suc (Suc k)) dp ns = doinit_loop (Suc k) (dp + 1) n2"
    by (subst doinit_loop.simps) (simp add: Let_def n1_def n2_def)
  have "n = (dp + 1) + Suc k" "n \<le> length n2" using Suc.prems l by simp_all
  from Suc.IH [OF this] obtain ms where ms: "doinit_loop (Suc k) (dp + 1) n2 = (ms, n - 1)" "length ms = length n2"
    "\<And>a. a < length n2 \<Longrightarrow> ms ! a = doinit_node (dp + 1) n a (n2 ! a)" by blast
  have "ms ! a = doinit_node dp n a (ns ! a)" if a: "a < length ns" for a
  proof -
    have "n2 ! a = (ns ! a)\<lparr>de_forw := if a = dp then dp else de_forw (ns ! a), de_back := if a = dp then dp else de_back (ns ! a),
        de_freef := if a = dp then Some (dp + 1) else de_freef (ns ! a), de_freeb := if a = dp + 1 then Some dp else de_freeb (ns ! a)\<rparr>"
      using a Suc.prems by (simp add: n2_def n1_def nth_upd)
    then show ?thesis using ms(3) [of a] a l Suc.prems by (auto simp: doinit_node_def)
  qed
  then show ?case using run ms(1,2) l by simp
qed

lemma lseg_upt:
  assumes "\<And>a. a < n \<Longrightarrow> de_freef (ns ! a) = (if a < n - 1 then Some (a + 1) else None)"
    and "\<And>a. a < n \<Longrightarrow> de_freeb (ns ! a) = (if 0 < a then Some (a - 1) else None)"
  shows "m + d = n \<Longrightarrow> frees.lseg ns (if 0 < m then Some (m - 1) else None) [m..<n] None"
proof (induction d arbitrary: m)
  case (Suc d)
  then have m: "m < n" by simp
  have ih: "frees.lseg ns (Some m) [Suc m..<n] None" using Suc.IH [of "Suc m"] Suc.prems by simp
  have "head_of [Suc m..<n] = (if m < n - 1 then Some (m + 1) else None)" using m by (auto simp: head_of_Some)
  then show ?case using ih assms [OF m] m by (simp add: upt_conv_Cons del: upt_Suc)
qed simp

lemma dosfs_doinit_ok:
  assumes n: "0 < n"
  obtains c where "dosfs_doinit n = Some c" and "ndenode c = n" and "coherent c [] (\<lambda>_. []) [0..<n]"
proof -
  define heads where "heads = map (\<lambda>h. zero_node\<lparr>de_forw := n + h, de_back := n + h\<rparr>) [0..<DEHSZ]"
  define n0 where "n0 = upd (replicate n zero_node @ heads) 0 (de_freeb_update (\<lambda>_. None))"
  have l0: "length n0 = n + DEHSZ" by (simp add: n0_def heads_def)
  have x0: "n0 ! a = (if a < n then zero_node else zero_node\<lparr>de_forw := a, de_back := a\<rparr>)" if "a < n + DEHSZ" for a
    using that by (auto simp: n0_def heads_def nth_upd nth_append zero_node_def)
  obtain k where k: "n = Suc k" using n by (cases n) auto
  have "n = 0 + Suc k" "n \<le> length n0" using k l0 by simp_all
  from doinit_loop_nth [OF this] obtain ms where ms: "doinit_loop n 0 n0 = (ms, n - 1)" "length ms = length n0"
    "\<And>a. a < length n0 \<Longrightarrow> ms ! a = doinit_node 0 n a (n0 ! a)" using k by auto
  define n1 where "n1 = upd ms (n - 1) (de_freef_update (\<lambda>_. None))"
  define c where "c = \<lparr>dc_nodes = n1, dfreeh = Some 0, dfreet = Some (n - 1), ndenode = n\<rparr>"
  have run: "dosfs_doinit n = Some c" using n ms(1) by (simp add: dosfs_doinit_def c_def n1_def n0_def heads_def Let_def)
  have l1: "length n1 = n + DEHSZ" using ms(2) l0 by (simp add: n1_def)
  have low: "n1 ! a = zero_node\<lparr>de_forw := a, de_back := a, de_freef := if a < n - 1 then Some (a + 1) else None,
      de_freeb := if 0 < a then Some (a - 1) else None\<rparr>" if "a < n" for a
    using that ms l0 x0 [of a] by (auto simp: n1_def nth_upd doinit_node_def zero_node_def)
  have self: "de_forw (n1 ! a) = a \<and> de_back (n1 ! a) = a" if a: "a < n + DEHSZ" for a
  proof (cases "a < n")
    case False
    then show ?thesis using a n ms(2,3) l0 x0 [OF a] by (simp add: n1_def nth_upd doinit_node_def)
  qed (simp add: low)
  have rg: "chains.ring_at n1 [a]" if "a < n + DEHSZ" for a using self [OF that] that l1 by (simp add: chains.ring_at_def)
  have ch: "chains_at n1 n (\<lambda>_. [])" using rg l1 by (simp add: chains_at_def)
  have "frees.lseg n1 (if 0 < (0 :: nat) then Some (0 - 1) else None) [0..<n] None" by (rule lseg_upt) (simp_all add: low)
  moreover have "head_of [0..<n] = Some 0" using n by (simp add: head_of_Some)
  ultimately have fr: "frees.list_at n1 (Some 0) (Some (n - 1)) [0..<n]"
    using n l1 by (auto simp: frees.list_at_def last_of_def)
  have at: "cache_at c (\<lambda>_. []) [0..<n]" using ch fr by (auto simp: cache_at_def c_def)
  have "cores_ok (core_at c) n [] (\<lambda>_. []) [0..<n]"
    using low by (auto simp: cores_ok_def core_at_def c_def node_ok_def zero_node_def hashed_def)
  then have "coherent c [] (\<lambda>_. []) [0..<n]" using at by (simp add: coherent_iff c_def)
  then show ?thesis using that run by (simp add: c_def)
qed

section \<open>Finding\<close>

lemma hashed_bucket: "j \<in> set (H (bucket a)) \<Longrightarrow> hashed H j"
  unfolding hashed_def by (rule exI [of _ "bucket a"]) simp

text \<open>The table as a map from files to denodes.\<close>

definition tmap :: "dcache \<Rightarrow> (nat \<Rightarrow> nat list) \<Rightarrow> ident \<Rightarrow> nat option" where
  "tmap c H a = find (\<lambda>i. valid (dc_nodes c ! i) \<and> ident (dc_nodes c ! i) = a) (H (bucket a))"

lemma tmap_Some:
  assumes co: "consistent c W P R H F"
  shows "tmap c H a = Some i \<longleftrightarrow> hashed H i \<and> valid (dc_nodes c ! i) \<and> ident (dc_nodes c ! i) = a"
proof
  assume "tmap c H a = Some i"
  then show "hashed H i \<and> valid (dc_nodes c ! i) \<and> ident (dc_nodes c ! i) = a"
    using hashed_bucket [of i H a] by (auto simp: tmap_def find_Some_iff)
next
  assume a: "hashed H i \<and> valid (dc_nodes c ! i) \<and> ident (dc_nodes c ! i) = a"
  then obtain h where h: "h < DEHSZ" "i \<in> set (H h)" by (auto simp: hashed_def)
  then have ih: "i \<in> set (H (bucket a))" using consistentD(3) [OF co h] a by simp
  obtain j where j: "tmap c H a = Some j"
    using a ih by (cases "tmap c H a") (auto simp: find_None_iff tmap_def)
  then have jm: "valid (dc_nodes c ! j)" "ident (dc_nodes c ! j) = a" "j \<in> set (H (bucket a))" by (auto simp: tmap_def find_Some_iff)
  have "j = i" by (rule consistentD(5) [OF co hashed_bucket [where H = H and a = a, OF jm(3)]]) (use a jm in simp_all)
  then show "tmap c H a = Some i" using j by simp
qed

lemma tmap_None:
  assumes co: "consistent c W P R H F"
  shows "tmap c H a = None \<longleftrightarrow> (\<forall>i. hashed H i \<longrightarrow> valid (dc_nodes c ! i) \<longrightarrow> ident (dc_nodes c ! i) \<noteq> a)"
  using tmap_Some [OF co, of a] by (metis not_None_eq)

lemma deget_scan_tmap:
  assumes co: "consistent c W P R H F"
  shows "deget_scan (ndenode c + 1) (dc_nodes c) k (deget_head c k) (de_forw (dc_nodes c ! deget_head c k)) = Some (tmap c H (kident k))"
  unfolding head_bucket tmap_def match_ident [symmetric] by (rule deget_walk [OF consistentD(1) [OF co] bucket_less])

text \<open>What a change of one denode does to the map.\<close>

lemma tmap_same:
  assumes co: "consistent c W P R H F" and co': "consistent c' W' P' R' H' F'" and on: "only_node i c c'" and ol: "only_lists i H H'"
    and id: "hashed H i \<and> valid (core_at c i) \<longleftrightarrow> hashed H' i \<and> valid (core_at c' i)"
      "valid (core_at c' i) \<Longrightarrow> ident (core_at c' i) = ident (core_at c i)"
  shows "tmap c' H' = tmap c H"
proof
  fix a
  have "tmap c' H' a = Some j \<longleftrightarrow> tmap c H a = Some j" for j
  proof (cases "j = i")
    case True
    then show ?thesis using id by (auto simp: tmap_Some [OF co] tmap_Some [OF co'] at_core)
  next
    case False
    have "core_at c' j = core_at c j" if "hashed H j"
      using on False cache_bounds(5) [OF consistentD(1) [OF co] that] by (simp add: only_node_def)
    then show ?thesis using only_hashed [OF ol False] by (auto simp: tmap_Some [OF co] tmap_Some [OF co'] at_core)
  qed
  then show "tmap c' H' a = tmap c H a" by (metis option.exhaust)
qed

lemma tmap_change:
  assumes co: "consistent c W P R H F" and co': "consistent c' W' P' R' H' F'" and on: "only_node i c c'" and ol: "only_lists i H H'"
  shows "tmap c' H' a = (if hashed H' i \<and> valid (core_at c' i) \<and> ident (core_at c' i) = a then Some i
    else if tmap c H a = Some i then None else tmap c H a)"
proof (cases "hashed H' i \<and> valid (core_at c' i) \<and> ident (core_at c' i) = a")
  case True
  then show ?thesis using tmap_Some [OF co', of a i] by (simp add: at_core)
next
  case ni: False
  have n: "tmap c' H' a \<noteq> Some i" using ni tmap_Some [OF co', of a i] by (simp add: at_core)
  have e: "tmap c' H' a = Some j \<longleftrightarrow> tmap c H a = Some j" if False: "j \<noteq> i" for j
  proof -
    have "core_at c' j = core_at c j" if "hashed H j"
      using on False cache_bounds(5) [OF consistentD(1) [OF co] that] by (simp add: only_node_def)
    then show ?thesis using only_hashed [OF ol False] by (auto simp: tmap_Some [OF co] tmap_Some [OF co'] at_core)
  qed
  have "tmap c' H' a = (if tmap c H a = Some i then None else tmap c H a)"
  proof (cases "tmap c H a")
    case None
    then have "tmap c' H' a \<noteq> Some j" for j using n e [of j] by (cases "j = i") simp_all
    then have "tmap c' H' a = None" by (metis option.exhaust)
    then show ?thesis using None by simp
  next
    case (Some j)
    then have "tmap c' H' a \<noteq> Some l" if "l \<noteq> j" for l using n e [of l] that by (cases "l = i") simp_all
    then show ?thesis using Some n e [of j] by (cases "j = i") (simp_all, metis not_None_eq)
  qed
  then show ?thesis unfolding if_not_P [OF ni] .
qed

section \<open>Getting a denode\<close>

declare deget_loop.simps [simp del]

lemma deget_loop_hit:
  assumes co: "consistent c W P R H F" and t: "tmap c H (kident k) = Some i"
  shows "deget_loop io hold purge pvp k direntp n d c =
    (if de_locked (dc_nodes c ! i) then Some (d, deget_found c i, Asleep i) else Some (d, deget_wake hold (deget_found c i) i, Got i))"
proof -
  have i: "i < ndenode c" using t tmap_Some [OF co] cache_bounds(5) [OF consistentD(1) [OF co]] by blast
  have "de_locked (dc_nodes (deget_found c i) ! i) = de_locked (dc_nodes c ! i)"
  proof (cases "i \<in> R")
    case True
    then have "de_flag (de_node (dc_nodes c ! i)) AND DEREF \<noteq> 0" using consistentD(6) [OF co i] by (simp add: rel_ok_def)
    then show ?thesis using i cache_bounds(2) [OF consistentD(1) [OF co]] by (simp add: deget_found_def set_node_def nth_upd)
  next
    case False
    then show ?thesis using deget_found_step(3) [OF co i] by (simp add: at_core found_node_def)
  qed
  then show ?thesis using deget_scan_tmap [OF co, of k] by (subst deget_loop.simps) (simp add: Let_def t)
qed

text \<open>The head of the free list is taken, unless its release is still under way.\<close>

lemma deget_free_head:
  assumes co: "consistent c W P R H F"
  shows "deget_free c = (case F of [] \<Rightarrow> None | i # _ \<Rightarrow> if i \<in> R then None else Some i)"
proof (cases F)
  case Nil
  then show ?thesis using free_head(1) [OF consistentD(1) [OF co]] by (simp add: deget_free_def)
next
  case (Cons i G)
  have "i < ndenode c" using cache_bounds(3) [OF consistentD(1) [OF co]] Cons by simp
  then have "de_locked (dc_nodes c ! i) \<longleftrightarrow> i \<in> R"
    using rest_node(5) [OF co] consistentD(6) [OF co, of i] Cons by (auto simp: rel_ok_def)
  then show ?thesis using free_head(1) [OF consistentD(1) [OF co]] Cons by (simp add: deget_free_def)
qed

lemma deget_loop_miss:
  assumes co: "consistent c W P R H F" and t: "tmap c H (kident k) = None" and e: "entry_for k direntp"
  shows "deget_loop io hold purge pvp k direntp n d c =
    (case deget_free c of Some i \<Rightarrow> do { c \<leftarrow> deget_take k direntp c i; Some (d, c, Got i) }
     | None \<Rightarrow> let (d, c) = purge (d, c) in if dfreeh c = None \<or> 5 < n + 1 then Some (d, c, Failed ENFILE)
             else deget_loop io hold purge pvp k direntp (n + 1) d c)"
proof -
  have nd: "\<not> (direntp = None \<and> (k_startclust k \<noteq> DOSFSROOT \<or> \<not> k_isadir k))" using e by (auto simp: entry_for_def)
  show ?thesis
    by (subst deget_loop.simps) (simp only: Let_def deget_scan_tmap [OF co] t option.case Option.bind.bind_lunit if_not_P [OF nd])
qed

text \<open>The node a file is in is one of the table; what the invariant says of it.\<close>

lemma tmap_node:
  assumes co: "consistent c W P R H F" and t: "tmap c H a = Some i"
  shows "i < ndenode c" and "hashed H i" and "valid (core_at c i)" and "ident (core_at c i) = a"
  using t tmap_Some [OF co] cache_bounds(5) [OF consistentD(1) [OF co]] by (auto simp: at_core)

lemma deget_hit:
  assumes co: "consistent c W P R H F" and t: "tmap c H (kident k) = Some i" and hold: "\<And>x. hold x = x + 1"
  obtains (under_way) "i \<in> R" and "deget_loop io hold purge pvp k direntp n d c = Some (d, deget_found c i, Asleep i)"
  | (locked) c' where "i \<notin> R" and "de_locked (core_at c i)" and "deget_loop io hold purge pvp k direntp n d c = Some (d, c', Asleep i)"
      and "consistent c' (i # W) P R H F" and "only_node i c c'" and "core_at c' i = found_node (core_at c i)" and "tmap c' H = tmap c H"
  | (got) c' where "\<not> de_locked (core_at c i)" and "deget_loop io hold purge pvp k direntp n d c = Some (d, c', Got i)"
      and "consistent c' W P R H (remove1 i F)" and "only_node i c c'" and "core_at c' i = got_node (core_at c i)" and "tmap c' H = tmap c H"
proof (cases "de_locked (core_at c i)")
  case True
  note i = tmap_node [OF co t]
  have run: "deget_loop io hold purge pvp k direntp n d c = Some (d, deget_found c i, Asleep i)"
    using deget_loop_hit [OF co t, of io hold purge pvp direntp n d] True by (simp add: at_core)
  show ?thesis
  proof (cases "i \<in> R")
    case False
    note st = deget_found_step [OF co i(1) False]
    have co': "consistent (deget_found c i) (i # W) P R H F"
      by (rule deget_asleep_ok [OF co i(1,2) False]) (use True in \<open>simp add: at_core\<close>)
    have id: "ident (core_at (deget_found c i) i) = ident (core_at c i)" "valid (core_at (deget_found c i) i) = valid (core_at c i)"
      unfolding st(3) by (simp_all add: found_node_def ident_def valid_def ISADIR_def)
    have "tmap (deget_found c i) H = tmap c H" by (rule tmap_same [OF co co' st(2) only_lists_refl]) (simp_all add: id)
    then show ?thesis using locked run False True co' st by blast
  qed (use run under_way in blast)
next
  case False
  note i = tmap_node [OF co t]
  have r: "i \<notin> P" "i \<notin> R" using rest_node(1) [OF co i(1)] False by (simp_all add: at_core)
  note st = deget_got_ok [OF co i(1,2) r hold]
  have id: "ident (got_node (core_at c i)) = ident (core_at c i)" "valid (got_node (core_at c i)) = valid (core_at c i)"
    by (simp_all add: got_node_def found_node_def ident_def valid_def ISADIR_def)
  have "tmap (deget_wake hold (deget_found c i) i) H = tmap c H"
    by (rule tmap_same [OF co st(1,2) only_lists_refl]) (simp_all add: st(3) id)
  moreover have "deget_loop io hold purge pvp k direntp n d c = Some (d, deget_wake hold (deget_found c i) i, Got i)"
    using deget_loop_hit [OF co t, of io hold purge pvp direntp n d] False by (simp add: at_core)
  ultimately show ?thesis using got False st by blast
qed

lemma empty_not: "i \<notin> {}"
  by simp

lemma deget_miss:
  assumes co: "consistent c W P R H (i # F)" and r: "i \<notin> R" and t: "tmap c H (kident k) = None" and e: "entry_for k direntp"
  obtains c' H' where "deget_loop io hold purge pvp k direntp n d c = Some (d, c', Got i)" and "consistent c' W P R H' F"
    and "only_node i c c'" and "core_at c' i = taken_node k direntp (core_at c i)"
    and "tmap c' H' = (\<lambda>a. if a = kident k then Some i else if tmap c H a = Some i then None else tmap c H a)"
proof -
  have new: "\<not> deget_match k (dc_nodes c ! j)" if "hashed H j" for j
    using t that tmap_None [OF co] by (auto simp: match_ident)
  define H' where "H' = (unhash H i)(bucket (kident k) := i # unhash H i (bucket (kident k)))"
  obtain c' where c': "deget_take k direntp c i = Some c'" "consistent c' W P R H' F" "only_node i c c'"
    "core_at c' i = taken_node k direntp (core_at c i)"
    unfolding H'_def by (rule deget_take_ok [OF co r e new])
  note tk = taken_fields [OF e, where n = "core_at c i"]
  have ol: "only_lists i H H'" by (simp add: H'_def)
  have hi: "hashed H' i" unfolding H'_def hashed_def by (rule exI [of _ "bucket (kident k)"]) simp
  have tm: "tmap c' H' = (\<lambda>a. if a = kident k then Some i else if tmap c H a = Some i then None else tmap c H a)"
  proof (rule ext)
    fix a show "tmap c' H' a = (if a = kident k then Some i else if tmap c H a = Some i then None else tmap c H a)"
      using tmap_change [OF co c'(2,3) ol, of a] hi tk(1,2) by (auto simp: c'(4))
  qed
  have "deget_loop io hold purge pvp k direntp n d c = Some (d, c', Got i)"
    using deget_loop_miss [OF co t e, of io hold purge pvp n d] deget_free_head [OF co] r c'(1) by simp
  then show ?thesis by (rule that [OF _ c'(2-4) tm])
qed

section \<open>Releasing a denode\<close>

lemma release_shared:
  assumes co: "coherent c W H F" and i: "i < ndenode c" and v: "1 < v_count (core_at c i)" and lk: "\<not> de_locked (core_at c i)"
  obtains c' where "dosfs_inactive io ronly shared now blkd pvp d cv c i = Some (d, pvp, cv, c')" and "coherent c' W H F" and "only_node i c c'"
    and "core_at c' i = (core_at c i)\<lparr>v_count := v_count (core_at c i) - 1\<rparr>" and "tmap c' H = tmap c H"
proof -
  have v0: "0 < v_count (core_at c i)" "v_count (core_at c i) \<noteq> 1" using v by simp_all
  obtain c' where c': "inact_count c i = Some (c', False)" "coherent c' W H F" "only_node i c c'"
    "core_at c' i = (core_at c i)\<lparr>v_count := v_count (core_at c i) - 1\<rparr>"
    by (rule inact_count_ok [OF co i v0(1) lk v0(2)])
  have tm: "tmap c' H = tmap c H" by (rule tmap_same [OF co c'(2,3) only_lists_refl]) (simp_all add: c'(4) ident_def valid_def)
  have "dosfs_inactive io ronly shared now blkd pvp d cv c i = Some (d, pvp, cv, c')" using c'(1) by (simp add: dosfs_inactive_def)
  then show ?thesis by (rule that [OF _ c'(2-4) tm])
qed

lemma release_waited:
  assumes co: "coherent c W H F" and i: "i < ndenode c" and v: "v_count (core_at c i) = 1" and lk: "\<not> de_locked (core_at c i)"
    and w: "i \<in> set W"
  obtains c' where "dosfs_inactive io ronly shared now True pvp d cv c i = Some (d, pvp, cv, c')" and "coherent c' W H F" and "only_node i c c'"
    and "core_at c' i = (core_at c i)\<lparr>v_count := 0\<rparr>" and "tmap c' H = tmap c H"
proof -
  obtain c1 where c1: "inact_count c i = Some (c1, True)" "consistent c1 W {i} {} H F" "only_node i c c1"
    "core_at c1 i = (core_at c i)\<lparr>v_count := 0, de_locked := True\<rparr>"
    by (rule inact_last_ok [OF co i v lk])
  obtain c' where c': "inact_free True c1 i = Some (c', False)" "consistent c' W ({i} - {i}) {} H F" "only_node i c1 c'"
    "core_at c' i = (core_at c1 i)\<lparr>de_locked := False\<rparr>"
    by (rule inact_blkd_ok [OF c1(2) _ w]) simp
  have co': "coherent c' W H F" using c'(2) by simp
  have on: "only_node i c c'" by (rule only_node_trans [OF c1(3) c'(3)])
  have k: "core_at c' i = (core_at c i)\<lparr>v_count := 0\<rparr>" unfolding c'(4) c1(4) using lk by (cases "core_at c i") simp
  have tm: "tmap c' H = tmap c H" by (rule tmap_same [OF co co' on only_lists_refl]) (simp_all add: k ident_def valid_def)
  have "dosfs_inactive io ronly shared now True pvp d cv c i = Some (d, pvp, cv, c')" by (simp add: dosfs_inactive_def c'(1) c1(1))
  then show ?thesis by (rule that [OF _ co' on k tm])
qed

lemma release_last:
  assumes co: "coherent c W H F" and i: "i < ndenode c" and v: "v_count (core_at c i) = 1" and lk: "\<not> de_locked (core_at c i)"
    and w: "i \<notin> set W" and run: "dosfs_inactive io ronly shared now False pvp d cv c i = Some (d', pvp', cv', c')"
  obtains p H' F' where "coherent c' W H' F'" and "only_node i c c'"
    and "core_at c' i = (core_at c i)\<lparr>v_count := 0, de_node := p\<lparr>de_flag := 0\<rparr>\<rparr>" and "same_file (de_node (core_at c i)) p"
    and "F' = (if 0 < de_refcnt (de_node (core_at c i)) then F @ [i] else i # F)"
    and "F \<noteq> [] \<or> \<not> valid (core_at c i) \<longrightarrow> tmap c' H' = tmap c H"
    and "F = [] \<longrightarrow> tmap c' H' = (\<lambda>a. if tmap c H a = Some i then None else tmap c H a)"
proof -
  obtain c1 where c1: "inact_count c i = Some (c1, True)" "consistent c1 W {i} {} H F" "only_node i c c1"
    "core_at c1 i = (core_at c i)\<lparr>v_count := 0, de_locked := True\<rparr>"
    by (rule inact_last_ok [OF co i v lk])
  have n1: "de_node (core_at c1 i) = de_node (core_at c i)" by (simp add: c1(4))
  obtain c2 H' F' where c2: "inact_free False c1 i = Some (c2, True)" "consistent c2 W ({i} - {i}) {i} H' F'" "only_node i c1 c2"
    "core_at c2 i = core_at c1 i" "only_lists i H H'" "de_refcnt (de_node (core_at c i)) \<le> 0 \<longrightarrow> H' = unhash H i \<and> F' = i # F"
    "0 < de_refcnt (de_node (core_at c i)) \<longrightarrow> F' = F @ [i] \<and> (F \<noteq> [] \<longrightarrow> H' = H)" "F = [] \<longrightarrow> H' = unhash H i"
    by (rule inact_put_ok [OF c1(2) _ w, unfolded n1]) simp
  have fin: "inact_finish io ronly shared now pvp d cv c2 i = Some (d', pvp', cv', c')"
    using run by (simp add: dosfs_inactive_def c1(1) c2(1))
  have co2: "consistent c2 W {} {i} H' F'" using c2(2) by simp
  obtain p where p: "consistent c' W {} ({i} - {i}) H' F'" "only_node i c2 c'" "same_file (de_node (core_at c2 i)) p"
    "core_at c' i = (core_at c2 i)\<lparr>de_node := p\<lparr>de_flag := 0\<rparr>, de_locked := False\<rparr>"
    by (rule inact_finish_ok [OF co2 _ fin]) simp
  have co': "coherent c' W H' F'" using p(1) by simp
  have on: "only_node i c c'" by (rule only_node_trans [OF only_node_trans [OF c1(3) c2(3)] p(2)])
  have sf: "same_file (de_node ((core_at c i)\<lparr>v_count := 0\<rparr>)) p" using p(3) c2(4) n1 by simp
  have k: "core_at c' i = ((core_at c i)\<lparr>v_count := 0\<rparr>)\<lparr>de_node := p\<lparr>de_flag := 0\<rparr>, de_locked := False\<rparr>"
    unfolding p(4) c2(4) c1(4) by (cases "core_at c i") simp
  then have k': "core_at c' i = (core_at c i)\<lparr>v_count := 0, de_node := p\<lparr>de_flag := 0\<rparr>\<rparr>" using lk by (cases "core_at c i") simp
  have c0: "valid ((core_at c i)\<lparr>v_count := 0\<rparr>) = valid (core_at c i)" "ident ((core_at c i)\<lparr>v_count := 0\<rparr>) = ident (core_at c i)"
    by (simp_all add: valid_def ident_def)
  have va: "valid (core_at c' i) = valid (core_at c i)" unfolding k same_file_ident(1) [OF sf] by (rule c0(1))
  have id: "ident (core_at c' i) = ident (core_at c i)" if "valid (core_at c' i)"
    unfolding k using same_file_ident(2) [OF sf] c0 va that by simp
  have keep: "tmap c' H' = tmap c H" if a: "F \<noteq> [] \<or> \<not> valid (core_at c i)"
  proof (rule tmap_same [OF co co' on c2(5) _ id])
    have "valid (core_at c i) \<Longrightarrow> 0 < de_refcnt (de_node (core_at c i))" by (simp add: valid_def)
    then show "(hashed H i \<and> valid (core_at c i)) = (hashed H' i \<and> valid (core_at c' i))" using a c2(7) va by auto
  qed
  have gone: "tmap c' H' = (\<lambda>a. if tmap c H a = Some i then None else tmap c H a)" if "F = []"
  proof
    fix a show "tmap c' H' a = (if tmap c H a = Some i then None else tmap c H a)"
      using tmap_change [OF co co' on c2(5), of a] c2(8) that by simp
  qed
  have "F' = (if 0 < de_refcnt (de_node (core_at c i)) then F @ [i] else i # F)" using c2(6,7) by auto
  then show ?thesis using sf keep gone by (intro that [OF co' on k']) simp_all
qed

end
