(* ===== verification/CacheReach.thy ===== *)
theory CacheReach
  imports DcacheProps
begin

text \<open>
  The states of the table. The processes of the kernel take turns between the places where an operation takes or gives
  up the lock of the table or sleeps: \<open>deget\<close> goes round by round, with whatever other processes (and the purge of the
  cache of names) do between two rounds, and a release takes its three steps one by one. Besides the table a state has the
  denodes waited for in \<open>deget\<close> (once for each process), those whose last reference was given up, and those put on
  the free list by a release that has not ended. Every step keeps the table consistent.
\<close>

section \<open>A round of deget\<close>

text \<open>From the label \<open>loop\<close> to the return, or to the purge of the cache of names, before which the lock of the table is given
  up. It is \<open>deget_loop\<close> with its count at the last round and a purge that does nothing: when no denode is free it leaves the
  table alone and yields ENFILE.\<close>

definition deget_round :: "'d bio \<Rightarrow> (int \<Rightarrow> int) \<Rightarrow> dosfs_vfs \<Rightarrow> dkey \<Rightarrow> direntry option \<Rightarrow> 'd \<Rightarrow> dcache \<Rightarrow> ('d \<times> dcache \<times> got) option" where
  "deget_round io hold pvp k direntp d c = deget_loop io hold (\<lambda>s. s) pvp k direntp 5 d c"

text \<open>\<open>deget\<close> is a round, and when that found no free denode a purge and, if a denode came back, another round.\<close>

lemma deget_loop_rounds:
  "deget_loop io hold purge pvp k direntp n d c = (case deget_round io hold pvp k direntp d c of
     None \<Rightarrow> None
   | Some (d1, c1, g) \<Rightarrow>
       if g = Failed ENFILE then
         let (d2, c2) = purge (d, c)
         in if dfreeh c2 = None \<or> 5 < n + 1 then Some (d2, c2, Failed ENFILE) else deget_loop io hold purge pvp k direntp (n + 1) d2 c2
       else Some (d1, c1, g))"
proof -
  have ne: "ENOENT \<noteq> ENFILE" by (simp add: ENOENT_def ENFILE_def)
  note l = deget_loop.simps [of io hold purge pvp k direntp n d c] deget_loop.simps [of io hold "\<lambda>s. s" pvp k direntp 5 d c]
  let ?scan = "deget_scan (ndenode c + 1) (dc_nodes c) k (deget_head c k) (de_forw (dc_nodes c ! deget_head c k))"
  let ?nd = "direntp = None \<and> (k_startclust k \<noteq> DOSFSROOT \<or> \<not> k_isadir k)"
  show ?thesis
  proof (cases ?scan)
    case None
    then show ?thesis unfolding deget_round_def l by (simp only: Let_def Option.bind.bind_lzero option.case)
  next
    case r: (Some r)
    show ?thesis
    proof (cases r)
      case (Some i)
      then show ?thesis unfolding deget_round_def l
        by (simp only: Let_def r Option.bind.bind_lunit option.case split: if_split) simp
    next
      case None
      show ?thesis
      proof (cases ?nd)
        case True
        then show ?thesis unfolding deget_round_def l
          by (simp only: Let_def r None Option.bind.bind_lunit option.case if_P [OF True])
            (simp add: ne split: Option.bind_split option.split prod.split)
      next
        case False
        then show ?thesis unfolding deget_round_def l
          by (simp only: Let_def r None Option.bind.bind_lunit option.case if_not_P [OF False])
            (simp add: split: Option.bind_split option.split prod.split)
      qed
    qed
  qed
qed

section \<open>The steps\<close>

text \<open>What the operations on a file that is held and locked may do to its denode.\<close>

definition used_as :: "denode \<Rightarrow> denode \<Rightarrow> bool" where
  "used_as p q \<longleftrightarrow> de_refcnt q \<le> de_refcnt p \<and> de_flag q AND DEREF = de_flag p AND DEREF
     \<and> (0 < de_refcnt q \<longrightarrow> ISADIR q = ISADIR p
        \<and> (if ISADIR p then de_StartCluster q = de_StartCluster p else de_dirclust q = de_dirclust p \<and> de_diroffset q = de_diroffset p))"

definition waiters :: "got \<Rightarrow> nat list \<Rightarrow> nat list" where
  "waiters g W = (case g of Asleep i \<Rightarrow> i # W | _ \<Rightarrow> W)"

definition set_place :: "nat \<Rightarrow> nat \<Rightarrow> cnode \<Rightarrow> cnode" where
  "set_place p q n = n\<lparr>de_node := (de_node n)\<lparr>de_dirclust := p, de_diroffset := q\<rparr>\<rparr>"

type_synonym cache_state = "dcache \<times> nat list \<times> nat set \<times> nat set"

text \<open>
  A round of \<open>deget\<close> is a step unless it comes to wait for a denode between the second and the third step of its release
  (\<open>release_overtaken\<close> shows what the code does then). It includes the filling of a denode that was taken, which the
  code does with the lock of the denode and not of the table.
\<close>

inductive cache_step :: "'d bio \<Rightarrow> (int \<Rightarrow> int) \<Rightarrow> cache_state \<Rightarrow> cache_state \<Rightarrow> bool" for io hold where
  get: "entry_for k direntp \<or> direntp = None \<Longrightarrow> deget_round io hold pvp k direntp d c = Some (d', c', g) \<Longrightarrow>
    \<forall>i \<in> R. g \<noteq> Asleep i \<Longrightarrow> cache_step io hold (c, W, P, R) (c', waiters g W, P, R)"
| wake: "i \<in> set W \<Longrightarrow> i < ndenode c \<Longrightarrow> \<not> de_locked (dc_nodes c ! i) \<Longrightarrow>
    cache_step io hold (c, W, P, R) (deget_wake hold c i, remove1 i W, P, R)"
| unlock: "i < ndenode c \<Longrightarrow> 0 < v_count (dc_nodes c ! i) \<Longrightarrow> de_locked (dc_nodes c ! i) \<Longrightarrow>
    cache_step io hold (c, W, P, R) (set_node c i (de_locked_update (\<lambda>_. False)), W, P, R)"
| relock: "i < ndenode c \<Longrightarrow> 0 < v_count (dc_nodes c ! i) \<Longrightarrow> \<not> de_locked (dc_nodes c ! i) \<Longrightarrow>
    cache_step io hold (c, W, P, R) (set_node c i (de_locked_update (\<lambda>_. True)), W, P, R)"
| work: "i < ndenode c \<Longrightarrow> 0 < v_count (dc_nodes c ! i) \<Longrightarrow> de_locked (dc_nodes c ! i) \<Longrightarrow> used_as (de_node (dc_nodes c ! i)) p \<Longrightarrow>
    cache_step io hold (c, W, P, R) (set_node c i (de_node_update (\<lambda>_. p)), W, P, R)"
| move: "i < ndenode c \<Longrightarrow> 0 < v_count (dc_nodes c ! i) \<Longrightarrow> de_locked (dc_nodes c ! i) \<Longrightarrow> \<not> ISADIR (de_node (dc_nodes c ! i)) \<Longrightarrow>
    \<forall>j < ndenode c. j \<noteq> i \<and> valid (dc_nodes c ! j) \<longrightarrow> ident (dc_nodes c ! j) \<noteq> ident (set_place p q (dc_nodes c ! i)) \<Longrightarrow>
    cache_step io hold (c, W, P, R) (reinsert (de_dev (dc_nodes c ! i)) (set_node c i (set_place p q)) i, W, P, R)"
| drop_ref: "i < ndenode c \<Longrightarrow> 0 < v_count (dc_nodes c ! i) \<Longrightarrow> inact_count c i = Some (c', False) \<Longrightarrow>
    cache_step io hold (c, W, P, R) (c', W, P, R)"
| last_ref: "i < ndenode c \<Longrightarrow> 0 < v_count (dc_nodes c ! i) \<Longrightarrow> inact_count c i = Some (c', True) \<Longrightarrow>
    cache_step io hold (c, W, P, R) (c', W, insert i P, R)"
| put: "i \<in> P \<Longrightarrow> inact_free (i \<in> set W) c i = Some (c', freed) \<Longrightarrow>
    cache_step io hold (c, W, P, R) (c', W, P - {i}, if freed then insert i R else R)"
| finish: "i \<in> R \<Longrightarrow> inact_finish io ronly shared now pvp d cv c i = Some (d', pvp', cv', c') \<Longrightarrow>
    cache_step io hold (c, W, P, R) (c', W, P, R - {i})"

inductive_cases cache_stepE: "cache_step io hold (c, W, P, R) (c', W', P', R')"

inductive cache_reach :: "'d bio \<Rightarrow> (int \<Rightarrow> int) \<Rightarrow> nat \<Rightarrow> dcache \<Rightarrow> nat list \<Rightarrow> nat set \<Rightarrow> nat set \<Rightarrow> bool"
  for io hold n where
  load: "dosfs_doinit n = Some c \<Longrightarrow> cache_reach io hold n c [] {} {}"
| step: "cache_reach io hold n c W P R \<Longrightarrow> cache_step io hold (c, W, P, R) (c', W', P', R') \<Longrightarrow> cache_reach io hold n c' W' P' R'"

section \<open>Every step keeps the table consistent\<close>

lemma round_consistent:
  assumes hold: "\<And>x. hold x = x + 1" and e: "entry_for k direntp \<or> direntp = None" and co: "consistent c W P R H F"
    and run: "deget_round io hold pvp k direntp d c = Some (d', c', g)" and g: "\<forall>i \<in> R. g \<noteq> Asleep i"
  shows "\<exists>H' F'. consistent c' (waiters g W) P R H' F'"
proof (cases "tmap c H (kident k)")
  case (Some i)
  show ?thesis
  proof (cases rule: deget_hit [OF co Some hold, of io "\<lambda>s. s" pvp direntp 5 d, case_names under_way locked got])
    case under_way
    then show ?thesis using run g by (auto simp: deget_round_def)
  next
    case (locked c'')
    then have "c' = c''" "waiters g W = i # W" using run by (auto simp: deget_round_def waiters_def)
    then show ?thesis using locked(4) by auto
  next
    case (got c'')
    then have "c' = c''" "waiters g W = W" using run by (auto simp: deget_round_def waiters_def)
    then show ?thesis using got(3) by auto
  qed
next
  case None
  show ?thesis
  proof (cases "entry_for k direntp")
    case True
    have miss: "c' = c \<and> waiters g W = W" if "deget_free c = None"
      using run deget_loop_miss [OF co None True, of io hold "\<lambda>s. s" pvp 5 d] that by (auto simp: deget_round_def waiters_def)
    show ?thesis
    proof (cases F)
      case Nil
      then show ?thesis using miss deget_free_head [OF co] co by auto
    next
      case (Cons i G)
      show ?thesis
      proof (cases "i \<in> R")
        case True
        then show ?thesis using miss deget_free_head [OF co] co Cons by auto
      next
        case False
        obtain c'' H' where m: "deget_loop io hold (\<lambda>s. s) pvp k direntp 5 d c = Some (d, c'', Got i)" "consistent c'' W P R H' G"
          by (rule deget_miss [OF co [unfolded Cons] False None True])
        then have "c' = c''" "waiters g W = W" using run by (auto simp: deget_round_def waiters_def)
        then show ?thesis using m(2) by auto
      qed
    qed
  next
    case False
    then have nd: "direntp = None \<and> (k_startclust k \<noteq> DOSFSROOT \<or> \<not> k_isadir k)" using e by (auto simp: entry_for_def)
    have "do {
          (d, error, e) \<leftarrow> get_direntp io pvp d (k_dirclust k) (k_diroffset k);
          (case e of
             None \<Rightarrow> Some (d, c, Failed ENOENT)
           | Some e \<Rightarrow> if deName e ! 0 = 0xe5 \<or> deName e ! 0 = 0 then Some (d, c, Failed ENOENT)
                       else Some (d, c, Lock_again)) } = Some (d', c', g)"
      using run unfolding deget_round_def by (subst (asm) deget_loop.simps)
        (simp only: Let_def deget_scan_tmap [OF co] None option.case Option.bind.bind_lunit if_P [OF nd])
    then have "c' = c \<and> waiters g W = W"
      by (auto simp: waiters_def split: Option.bind_splits prod.splits option.splits if_splits)
    then show ?thesis using co by auto
  qed
qed

text \<open>A denode that is referenced or waited for is off the free list, and in its chain if its file exists.\<close>

lemma held_ok:
  assumes co: "consistent c W P R H F" and i: "i < ndenode c" "0 < v_count (dc_nodes c ! i) \<or> i \<in> set W"
  shows "i \<notin> set F" and "valid (core_at c i) \<Longrightarrow> hashed H i"
proof -
  show nf: "i \<notin> set F" using rest_node(2) [OF co i] by blast
  show "valid (core_at c i) \<Longrightarrow> hashed H i" using consistentD(4) [OF co i(1) nf] by (simp add: at_core)
qed

lemma held_rest:
  assumes co: "consistent c W P R H F" and i: "i < ndenode c" "0 < v_count (dc_nodes c ! i)"
  shows "i \<notin> P" and "i \<notin> R"
  using rest_node(2,3) [OF co i(1)] i(2) by blast+

lemma wake_consistent:
  assumes co: "consistent c W P R H F" and i: "i \<in> set W" "i < ndenode c" "\<not> de_locked (dc_nodes c ! i)" and hold: "\<And>x. hold x = x + 1"
  shows "consistent (deget_wake hold c i) (remove1 i W) P R H F"
proof -
  note h = held_ok [OF co i(2)] and r = rest_node(1) [OF co i(2,3)]
  have "set (remove1 i W) - {i} = set W - {i}" by (simp add: set_eq_iff) (metis in_set_remove1 notin_set_remove1)
  then show ?thesis using h r i by (intro deget_wake_ok(1) [OF co i(2) _ _ _ _ hold]) auto
qed

lemma lock_consistent:
  assumes co: "consistent c W P R H F" and i: "i < ndenode c" "0 < v_count (dc_nodes c ! i)"
  shows "consistent (set_node c i (de_locked_update (\<lambda>_. b))) W P R H F"
proof -
  note h = held_ok [OF co i(1) disjI1 [OF i(2)]] and r = held_rest [OF co i]
  have pf: "payload (de_locked_update (\<lambda>_. b))" by (simp add: payload_def)
  note s = set_node_step [OF consistentD(1) [OF co] i(1) pf]
  show ?thesis
  proof (rule consistent_rest [OF co i(1) r s(1,3)])
    show "node_ok (i \<in> set F) (i \<in> set W) (core_at (set_node c i (de_locked_update (\<lambda>_. b))) i)"
      using consistentD(2) [OF co i(1)] h(1) r unfolding s(2) by (simp add: at_core node_ok_def)
  qed (use h in \<open>simp_all add: s(2) valid_def ident_def\<close>)
qed

lemma work_consistent:
  assumes co: "consistent c W P R H F" and i: "i < ndenode c" "0 < v_count (dc_nodes c ! i)" and u: "used_as (de_node (dc_nodes c ! i)) p"
  shows "consistent (set_node c i (de_node_update (\<lambda>_. p))) W P R H F"
proof -
  note h = held_ok [OF co i(1) disjI1 [OF i(2)]] and r = held_rest [OF co i]
  have pf: "payload (de_node_update (\<lambda>_. p))" by (simp add: payload_def)
  note s = set_node_step [OF consistentD(1) [OF co] i(1) pf]
  have id: "valid (core_at c i) \<and> ident ((core_at c i)\<lparr>de_node := p\<rparr>) = ident (core_at c i)" if "valid ((core_at c i)\<lparr>de_node := p\<rparr>)"
    using that u by (auto simp: used_as_def valid_def ident_def at_core)
  show ?thesis
  proof (rule consistent_rest [OF co i(1) r s(1,3)])
    show "node_ok (i \<in> set F) (i \<in> set W) (core_at (set_node c i (de_node_update (\<lambda>_. p))) i)"
      using consistentD(2) [OF co i(1)] h(1) u r unfolding s(2) by (auto simp: at_core node_ok_def used_as_def)
  qed (use h id in \<open>auto simp: s(2)\<close>)
qed

lemma move_consistent:
  assumes co: "consistent c W P R H F" and i: "i < ndenode c" "0 < v_count (dc_nodes c ! i)" and f: "\<not> ISADIR (de_node (dc_nodes c ! i))"
    and new: "\<forall>j < ndenode c. j \<noteq> i \<and> valid (dc_nodes c ! j) \<longrightarrow> ident (dc_nodes c ! j) \<noteq> ident (set_place p q (dc_nodes c ! i))"
  shows "\<exists>H'. consistent (reinsert (de_dev (dc_nodes c ! i)) (set_node c i (set_place p q)) i) W P R H' F"
proof -
  note r = held_rest [OF co i]
  have pf: "payload (set_place p q)" by (simp add: payload_def set_place_def)
  define c1 where "c1 = set_node c i (set_place p q)"
  note s = set_node_step [OF consistentD(1) [OF co] i(1) pf, folded c1_def]
  have i1: "i < ndenode c1" using s(4) i by simp
  have dir: "\<not> ISADIR (de_node (core_at c1 i))" using f by (simp add: s(2) at_core set_place_def ISADIR_def)
  define c2 where "c2 = c1\<lparr>dc_nodes := deunhash (dc_nodes c1) i\<rparr>"
  have a2: "cache_at c2 (unhash H i) F" "same_core c1 c2" unfolding c2_def by (rule unhash_ok [OF s(1) i1])+
  note k2 = same_core_at [OF a2(2) s(1) i1]
  have i2: "i < ndenode c2" using k2 i1 by simp
  define b where "b = bucket (ident (core_at c1 i))"
  define c3 where "c3 = c2\<lparr>dc_nodes := dehash (dc_nodes c2) i (dehead c2 b)\<rparr>"
  define H' where "H' = (unhash H i)(b := i # unhash H i b)"
  have bl: "b < DEHSZ" by (simp add: b_def)
  have a3: "cache_at c3 H' F" "same_core c2 c3" unfolding c3_def H'_def by (rule hash_ok [OF a2(1) i2 _ bl]; simp)+
  note k3 = same_core_at [OF a3(2) a2(1) i2]
  have on: "only_node i c c3"
    by (rule only_node_trans [OF only_node_trans [OF s(3) same_core_only [OF a2(2) s(1)]] same_core_only [OF a3(2) a2(1)]])
  have k: "core_at c3 i = set_place p q (core_at c i)" using k3 k2 s(2) by simp
  have id: "ident (core_at c3 i) = ident (set_place p q (dc_nodes c ! i))"
    unfolding k by (simp add: core_at_def set_place_def ident_def)
  have "b = DEHASH (de_dev (dc_nodes c ! i)) (uadd32 (de_dirclust (de_node (dc_nodes c1 ! i))) (de_diroffset (de_node (dc_nodes c1 ! i))))"
    unfolding b_def bucket_file [OF dir] by (simp add: at_core s(2) set_place_def)
  then have "reinsert (de_dev (dc_nodes c ! i)) c1 i = c3"
    using dir by (simp add: reinsert_def c3_def c2_def Let_def dehead_def at_core ISADIR_def)
  moreover have "consistent c3 W P R H' F"
  proof (rule consistent_node [OF co i(1) a3(1) on _ refl refl refl refl])
    show "only_lists i H H'" by (simp add: H'_def)
    show "node_ok (i \<in> set F) (i \<in> set W) (bare P R i (dc_nodes c3 ! i))"
      using consistentD(2) [OF co i(1)] r by (simp add: at_core k node_ok_def set_place_def)
    show "rel_ok P R F i (dc_nodes c3 ! i)" using r by simp
  next
    fix h assume "h < DEHSZ" "i \<in> set (H' h)" "valid (dc_nodes c3 ! i)"
    then show "bucket (ident (dc_nodes c3 ! i)) = h"
      using k k2 s(2) by (auto simp: at_core H'_def unhash_def b_def split: if_splits)
  next
    show "hashed H' i" unfolding H'_def hashed_def using bl by (intro exI [of _ b]) simp
  next
    fix j assume "hashed H j" "valid (dc_nodes c ! j)" "j \<noteq> i"
    then show "ident (dc_nodes c ! j) \<noteq> ident (dc_nodes c3 ! i)"
      using new cache_bounds(5) [OF consistentD(1) [OF co], of j] id by (simp add: at_core(1) [of c3])
  qed
  ultimately show ?thesis unfolding c1_def by auto
qed

text \<open>The steps of a release.\<close>

lemma count_consistent:
  assumes co: "consistent c W P R H F" and i: "i < ndenode c" "0 < v_count (dc_nodes c ! i)" and run: "inact_count c i = Some (c', lst)"
  shows "consistent c' W (if lst then insert i P else P) R H F"
proof -
  have lk: "\<not> de_locked (core_at c i)" using run by (auto simp: inact_count_def Let_def at_core split: if_splits)
  have v: "0 < v_count (core_at c i)" using i(2) by (simp add: at_core)
  show ?thesis
  proof (cases "v_count (core_at c i) = 1")
    case True
    show ?thesis by (rule inact_last_ok [OF co i(1) True lk]) (use run in auto)
  next
    case False
    show ?thesis by (rule inact_count_ok [OF co i(1) v lk False]) (use run in auto)
  qed
qed

lemma put_consistent:
  assumes co: "consistent c W P R H F" and i: "i \<in> P" and run: "inact_free (i \<in> set W) c i = Some (c', freed)"
  shows "\<exists>H' F'. consistent c' W (P - {i}) (if freed then insert i R else R) H' F'"
proof (cases "i \<in> set W")
  case True
  show ?thesis by (rule inact_blkd_ok [OF co i True]) (use run True in auto)
next
  case False
  show ?thesis by (rule inact_put_ok [OF co i False]) (use run False in auto)
qed

lemma step_consistent:
  assumes st: "cache_step io hold (c, W, P, R) (c', W', P', R')" and co: "consistent c W P R H F" and hold: "\<And>x. hold x = x + 1"
  shows "\<exists>H' F'. consistent c' W' P' R' H' F'"
  using st
proof (cases rule: cache_stepE [consumes 1, case_names get wake unlock relock work move drop_ref last_ref put finish])
  case (get k direntp pvp d d' g)
  have "\<exists>H' F'. consistent c' (waiters g W) P R H' F'" by (rule round_consistent [OF hold _ co]) (use get in auto)
  then show ?thesis using get by simp
next
  case (drop_ref i)
  then show ?thesis using count_consistent [OF co, of i c' False] by auto
next
  case (last_ref i)
  then show ?thesis using count_consistent [OF co, of i c' True] by auto
next
  case (put i freed)
  then show ?thesis using put_consistent [OF co, of i c' freed] by auto
next
  case (finish i ronly shared now pvp d cv d' pvp' cv')
  then show ?thesis by (auto elim!: inact_finish_ok [OF co])
qed (use wake_consistent [OF co _ _ _ hold] lock_consistent [OF co] work_consistent [OF co] move_consistent [OF co] in blast)+

lemma reach_consistent:
  assumes "cache_reach io hold n c W P R" and "0 < n" and "\<And>x. hold x = x + 1"
  shows "\<exists>H F. consistent c W P R H F"
  using assms(1)
proof (induction rule: cache_reach.induct)
  case (load c)
  then show ?case using dosfs_doinit_ok [OF assms(2)] by (metis option.inject)
next
  case (step c W P R c' W' P' R')
  then show ?case using step_consistent [OF step.hyps(2) _ assms(3)] by blast
qed

end
