(* ===== verification/CacheProps.thy ===== *)
theory CacheProps
  imports CacheReach FatProps
begin

text \<open>The properties of the table of denodes: of single operations, of a release followed by a \<open>deget\<close>, and of every state that
  processes which get, use and release denodes reach together.\<close>

section \<open>One operation\<close>

text \<open>C25: \<open>deget\<close> on a coherent table refines a lookup in the map from files to denodes. A file that is in the
  map gets its denode, with one more reference and off the free list, or, when the denode is locked, waits for it; a file
  that is not takes the head of the free list, which from then on stands for this file and no longer for the one
  it held. No other denode changes, and the table stays coherent.\<close>

theorem deget_refines:
  assumes co: "coherent c W H F" and e: "entry_for k direntp" and hold: "\<forall>x. hold x = x + 1"
    and ne: "F \<noteq> [] \<or> tmap c H (kident k) \<noteq> None"
  shows "\<exists>c' H' g. case tmap c H (kident k) of
      Some i \<Rightarrow> deget io hold purge pvp k direntp d c = Some (d, c', if de_locked (core_at c i) then Asleep i else Got i)
        \<and> only_node i c c' \<and> tmap c' H = tmap c H
        \<and> (if de_locked (core_at c i) then coherent c' (i # W) H F \<and> core_at c' i = found_node (core_at c i)
           else coherent c' W H (remove1 i F) \<and> core_at c' i = got_node (core_at c i))
    | None \<Rightarrow> deget io hold purge pvp k direntp d c = Some (d, c', Got (hd F))
        \<and> only_node (hd F) c c' \<and> coherent c' W H' (tl F) \<and> core_at c' (hd F) = taken_node k direntp (core_at c (hd F))
        \<and> tmap c' H' = (\<lambda>a. if a = kident k then Some (hd F) else if tmap c H a = Some (hd F) then None else tmap c H a)"
proof (cases "tmap c H (kident k)")
  case None
  then obtain i G where F: "F = i # G" using ne by (cases F) auto
  obtain c' H' where "deget_loop io hold purge pvp k direntp 0 d c = Some (d, c', Got i)" "coherent c' W H' G"
    "only_node i c c'" "core_at c' i = taken_node k direntp (core_at c i)"
    "tmap c' H' = (\<lambda>a. if a = kident k then Some i else if tmap c H a = Some i then None else tmap c H a)"
    by (rule deget_miss [OF co [unfolded F] empty_not None e])
  then show ?thesis unfolding deget_def None option.case F list.sel by blast
next
  case (Some i)
  have h: "hold x = x + 1" for x using hold by simp
  show ?thesis
  proof (cases rule: deget_hit [OF co Some h, of io purge pvp direntp 0 d, case_names under_way locked got])
    case (locked c')
    then show ?thesis unfolding deget_def Some option.case if_P [OF locked(2)] by blast
  next
    case (got c')
    then show ?thesis unfolding deget_def Some option.case if_not_P [OF got(1)] by blast
  qed simp
qed

text \<open>C26: The release of a denode. With other references only the count goes down; the last one puts the denode at the
  end of the free list if the file still exists and at the front if it was removed, unless somebody waits
  for it in \<open>deget\<close>. The map from files to denodes stays the same (unless the free list was empty), so the
  file is found again, and of its entry only date and time may have changed.\<close>

theorem dosfs_inactive_refines:
  assumes co: "coherent c W H F" and i: "i < ndenode c" "0 < v_count (core_at c i)" "\<not> de_locked (core_at c i)"
    and run: "dosfs_inactive io ronly shared now (i \<in> set W) pvp d cv c i = Some (d', pvp', cv', c')"
  shows "\<exists>H' F'. coherent c' W H' F' \<and> only_node i c c' \<and> v_count (core_at c' i) = v_count (core_at c i) - 1
    \<and> (F \<noteq> [] \<or> \<not> valid (core_at c i) \<longrightarrow> tmap c' H' = tmap c H)
    \<and> same_file (de_node (core_at c i)) (de_node (core_at c' i))
    \<and> F' = (if v_count (core_at c i) \<noteq> 1 \<or> i \<in> set W then F
            else if 0 < de_refcnt (de_node (core_at c i)) then F @ [i] else i # F)"
proof (cases "v_count (core_at c i) = 1")
  case False
  then have v: "1 < v_count (core_at c i)" using i(2) by simp
  have "same_file (de_node (core_at c i)) (de_node (core_at c i))" by (simp add: same_file_def)
  moreover obtain c1 where c1: "dosfs_inactive io ronly shared now (i \<in> set W) pvp d cv c i = Some (d, pvp, cv, c1)" "coherent c1 W H F"
    "only_node i c c1" "core_at c1 i = (core_at c i)\<lparr>v_count := v_count (core_at c i) - 1\<rparr>" "tmap c1 H = tmap c H"
    by (rule release_shared [OF co i(1) v i(3)])
  moreover have "c' = c1" using c1(1) run by simp
  ultimately show ?thesis using False by (intro exI [of _ H] exI [of _ F]) simp
next
  case one: True
  show ?thesis
  proof (cases "i \<in> set W")
    case True
    have "same_file (de_node (core_at c i)) (de_node (core_at c i))" by (simp add: same_file_def)
    moreover obtain c1 where c1: "dosfs_inactive io ronly shared now True pvp d cv c i = Some (d, pvp, cv, c1)" "coherent c1 W H F"
      "only_node i c c1" "core_at c1 i = (core_at c i)\<lparr>v_count := 0\<rparr>" "tmap c1 H = tmap c H"
      by (rule release_waited [OF co i(1) one i(3) True])
    moreover have "c' = c1" using c1(1) run True by simp
    ultimately show ?thesis using True one by (intro exI [of _ H] exI [of _ F]) simp
  next
    case False
    have run': "dosfs_inactive io ronly shared now False pvp d cv c i = Some (d', pvp', cv', c')" using run False by simp
    obtain p H' F' where c1: "coherent c' W H' F'" "only_node i c c'"
      "core_at c' i = (core_at c i)\<lparr>v_count := 0, de_node := p\<lparr>de_flag := 0\<rparr>\<rparr>" "same_file (de_node (core_at c i)) p"
      "F' = (if 0 < de_refcnt (de_node (core_at c i)) then F @ [i] else i # F)"
      "F \<noteq> [] \<or> \<not> valid (core_at c i) \<longrightarrow> tmap c' H' = tmap c H"
      by (rule release_last [OF co i(1) one i(3) False run'])
    have "same_file (de_node (core_at c i)) (p\<lparr>de_flag := 0\<rparr>)" using c1(4) by (simp add: same_file_def)
    then show ?thesis using c1 one False by (intro exI [of _ H'] exI [of _ F']) simp
  qed
qed

text \<open>C29: With no free denode \<open>deget\<close> purges the cache of names, which may put denodes back, and looks again: it returns
  ENFILE exactly when nothing came back, and otherwise the denode of the file or the first free one.\<close>

theorem deget_purges:
  assumes co: "coherent c W H []" and t: "tmap c H (kident k) = None" and e: "entry_for k direntp" and hold: "\<forall>x. hold x = x + 1"
    and p: "purge (d, c) = (d1, c1)" "coherent c1 W H1 F1"
  shows "\<exists>c'. deget io hold purge pvp k direntp d c = Some (d1, c',
      case tmap c1 H1 (kident k) of
        Some i \<Rightarrow> if F1 = [] then Failed ENFILE else if de_locked (core_at c1 i) then Asleep i else Got i
      | None \<Rightarrow> if F1 = [] then Failed ENFILE else Got (hd F1)) \<and> (F1 = [] \<longrightarrow> c' = c1)"
proof -
  have run: "deget io hold purge pvp k direntp d c =
      (if F1 = [] then Some (d1, c1, Failed ENFILE) else deget_loop io hold purge pvp k direntp 1 d1 c1)"
    using free_head(1) [OF coherentD(1) [OF p(2)]] p(1) deget_free_head [OF co]
    unfolding deget_def deget_loop_miss [OF co t e] by simp
  have h: "hold x = x + 1" for x using hold by simp
  show ?thesis
  proof (cases F1)
    case Nil
    then show ?thesis using run by (simp split: option.split)
  next
    case (Cons j G)
    show ?thesis
    proof (cases "tmap c1 H1 (kident k)")
      case None
      obtain c' H' where "deget_loop io hold purge pvp k direntp 1 d1 c1 = Some (d1, c', Got j)"
        by (rule deget_miss [OF p(2) [unfolded Cons] empty_not None e])
      then show ?thesis using run Cons None by simp
    next
      case (Some i)
      show ?thesis
      proof (cases rule: deget_hit [OF p(2) Some h, of io purge pvp direntp 1 d1, case_names under_way locked got])
        case (locked c')
        then show ?thesis using run Cons Some by simp
      next
        case (got c')
        then show ?thesis using run Cons Some by simp
      qed simp
    qed
  qed
qed

section \<open>Releasing and getting again\<close>

text \<open>C28: A file whose last reference is given up and that is then asked for again gets its denode back, with one reference
  and off the free list, and the map from files to denodes is what it was before the release. If other denodes were
  free, the denode has stayed in its chain, and its entry is the same but for date and time. If none was free, the
  release takes the denode of a file that exists out of its chain too, so that the file is no longer found; being the
  only free one the denode is then recycled for the same file, and made anew from the entry \<open>deget\<close> is given.\<close>

theorem release_then_get:
  assumes co: "coherent c W H F" and t: "tmap c H (kident k) = Some i" and v: "v_count (core_at c i) = 1" "\<not> de_locked (core_at c i)"
    and w: "i \<notin> set W" and e: "F = [] \<longrightarrow> entry_for k direntp" and hold: "\<forall>x. hold x = x + 1"
    and run: "dosfs_inactive io ronly shared now False pvp d cv c i = Some (d', pvp', cv', c')"
  shows "\<exists>c'' H''. deget io hold purge pvp' k direntp d' c' = Some (d', c'', Got i) \<and> coherent c'' W H'' F
    \<and> tmap c'' H'' = tmap c H \<and> v_count (core_at c'' i) = 1
    \<and> (if F \<noteq> [] then same_file (de_node (core_at c i)) (de_node (core_at c'' i)) else core_at c'' i = taken_node k direntp (core_at c' i))"
proof -
  note i = tmap_node [OF co t]
  have h: "hold x = x + 1" for x using hold by simp
  have rf: "0 < de_refcnt (de_node (core_at c i))" using i(3) by (simp add: valid_def)
  have nf: "i \<notin> set F" using coherentD(2) [OF co i(1)] v by (auto simp: at_core node_ok_def)
  obtain p H' F' where c1: "coherent c' W H' F'" "only_node i c c'"
    "core_at c' i = (core_at c i)\<lparr>v_count := 0, de_node := p\<lparr>de_flag := 0\<rparr>\<rparr>" "same_file (de_node (core_at c i)) p"
    "F' = (if 0 < de_refcnt (de_node (core_at c i)) then F @ [i] else i # F)"
    "F \<noteq> [] \<or> \<not> valid (core_at c i) \<longrightarrow> tmap c' H' = tmap c H"
    "F = [] \<longrightarrow> tmap c' H' = (\<lambda>a. if tmap c H a = Some i then None else tmap c H a)"
    by (rule release_last [OF co i(1) v w run])
  show ?thesis
  proof (cases "F = []")
    case True
    have at: "coherent c' W H' [i]" using c1(1,5) True rf by simp
    have tm: "tmap c' H' = (\<lambda>a. if tmap c H a = Some i then None else tmap c H a)" using c1(7) True by blast
    have t0: "tmap c' H' (kident k) = None" by (simp add: tm t)
    have ek: "entry_for k direntp" using e True by blast
    obtain c'' H'' where g: "deget_loop io hold purge pvp' k direntp 0 d' c' = Some (d', c'', Got i)" "coherent c'' W H'' []"
      "core_at c'' i = taken_node k direntp (core_at c' i)"
      "tmap c'' H'' = (\<lambda>a. if a = kident k then Some i else if tmap c' H' a = Some i then None else tmap c' H' a)"
      by (rule deget_miss [OF at empty_not t0 ek])
    have one: "tmap c H a = Some i \<longleftrightarrow> a = kident k" for a using t tmap_node(4) [OF co] by metis
    have "tmap c'' H'' = tmap c H" unfolding g(4) tm by (rule ext) (simp add: one t)
    moreover have "v_count (core_at c'' i) = 1" unfolding g(3) by (rule taken_fields(4) [OF ek])
    ultimately show ?thesis using g(1-3) True unfolding deget_def by auto
  next
    case False
    have t1: "tmap c' H' = tmap c H" and F': "F' = F @ [i]" using c1(5,6) False rf by simp_all
    have t2: "tmap c' H' (kident k) = Some i" using t t1 by simp
    have rm: "remove1 i F' = F" using nf by (simp add: F' remove1_append)
    show ?thesis
    proof (cases rule: deget_hit [OF c1(1) t2 h, of io purge pvp' direntp 0 d', case_names under_way locked got])
      case (locked c'')
      then show ?thesis using v(2) by (simp add: c1(3))
    next
      case (got c'')
      have "same_file (de_node (core_at c i)) (de_node (core_at c'' i))"
        unfolding got(5) using c1(4) by (simp add: got_node_def found_node_def c1(3) same_file_def)
      moreover have "v_count (core_at c'' i) = 1" unfolding got(5) by (simp add: got_node_def c1(3))
      ultimately show ?thesis using got(2,3,6) t1 False unfolding deget_def rm by auto
    qed simp
  qed
qed

section \<open>Every state\<close>

text \<open>C27: In every state reached from loading, with the rounds of \<open>deget\<close> and the three steps of a release of any number of
  processes, and their waking, locking, using and moving of denodes, in any order, but for one: no \<open>deget\<close>
  comes to wait for a denode between the second and the third step of its release. Then a denode that is referenced
  or waited for is never on the free list, so it is never recycled; it is the one the table finds for its file while
  the file exists; and no two of them stand for the same file. When no release is under way the table is coherent.
  (\<open>release_overtaken\<close> shows that the excluded order breaks this. The round that recycles a denode includes filling it in,
  which the code does when the lock of the table is given up; a lookup by name holds the lock of the directory then.)\<close>

theorem cache_reach_safe:
  assumes r: "cache_reach io hold n c W P R" and n: "0 < n" and hold: "\<forall>x. hold x = x + 1"
  shows "\<exists>H F. consistent c W P R H F \<and> (P = {} \<and> R = {} \<longrightarrow> coherent c W H F)
    \<and> (\<forall>i < ndenode c. 0 < v_count (dc_nodes c ! i) \<or> i \<in> set W \<longrightarrow>
         i \<notin> set F \<and> (valid (dc_nodes c ! i) \<longrightarrow> tmap c H (ident (dc_nodes c ! i)) = Some i))
    \<and> (\<forall>i < ndenode c. \<forall>j < ndenode c. (0 < v_count (dc_nodes c ! i) \<or> i \<in> set W) \<and> (0 < v_count (dc_nodes c ! j) \<or> j \<in> set W)
        \<and> valid (dc_nodes c ! i) \<and> valid (dc_nodes c ! j) \<and> ident (dc_nodes c ! i) = ident (dc_nodes c ! j) \<longrightarrow> i = j)"
proof -
  have h: "hold x = x + 1" for x using hold by simp
  obtain H F where co: "consistent c W P R H F" using reach_consistent [OF r n h] by blast
  let ?held = "\<lambda>i. 0 < v_count (dc_nodes c ! i) \<or> i \<in> set W"
  have held: "i \<notin> set F \<and> (valid (dc_nodes c ! i) \<longrightarrow> tmap c H (ident (dc_nodes c ! i)) = Some i)"
    if "i < ndenode c" "?held i" for i
    using held_ok [OF co that] tmap_Some [OF co] by (simp add: at_core(2))
  have uniq: "i = j" if "i < ndenode c" "j < ndenode c" "?held i" "?held j"
    "valid (dc_nodes c ! i)" "valid (dc_nodes c ! j)" "ident (dc_nodes c ! i) = ident (dc_nodes c ! j)" for i j
  proof -
    have "tmap c H (ident (dc_nodes c ! i)) = Some i" "tmap c H (ident (dc_nodes c ! j)) = Some j" using held that(1-6) by blast+
    then show ?thesis unfolding that(7) by (metis option.inject)
  qed
  show ?thesis
  proof (intro exI conjI allI impI)
    show "consistent c W P R H F" by (rule co)
    show "coherent c W H F" if "P = {} \<and> R = {}" using co that by simp
    fix i assume "i < ndenode c" "?held i"
    note h = held [OF this]
    show "i \<notin> set F" by (rule conjunct1 [OF h])
    show "tmap c H (ident (dc_nodes c ! i)) = Some i" if "valid (dc_nodes c ! i)" using h that by blast
  next
    fix i j assume "i < ndenode c" "j < ndenode c" "?held i \<and> ?held j
        \<and> valid (dc_nodes c ! i) \<and> valid (dc_nodes c ! j) \<and> ident (dc_nodes c ! i) = ident (dc_nodes c ! j)"
    then show "i = j" by (elim conjE) (rule uniq)
  qed
qed

section \<open>A release that is overtaken\<close>

lemma tmap_scan:
  assumes co: "coherent c W H F" and at: "cache_at c' H F'" and n: "ndenode c' = ndenode c"
    and id: "\<And>j. j < ndenode c \<Longrightarrow> valid (core_at c' j) = valid (core_at c j) \<and> ident (core_at c' j) = ident (core_at c j)"
  shows "deget_scan (ndenode c' + 1) (dc_nodes c') k (deget_head c' k) (de_forw (dc_nodes c' ! deget_head c' k)) = Some (tmap c H (kident k))"
proof -
  have "find (\<lambda>i. deget_match k (dc_nodes c' ! i)) (H (bucket (kident k))) = tmap c H (kident k)"
    unfolding tmap_def match_ident
  proof (rule find_cong [OF refl])
    fix j assume "j \<in> set (H (bucket (kident k)))"
    then have "j < ndenode c" using cache_bounds(1) [OF coherentD(1) [OF co] bucket_less] by blast
    then show "(valid (dc_nodes c' ! j) \<and> ident (dc_nodes c' ! j) = kident k) = (valid (dc_nodes c ! j) \<and> ident (dc_nodes c ! j) = kident k)"
      using id by (simp add: at_core)
  qed
  then show ?thesis unfolding head_bucket using deget_walk [OF at bucket_less] by simp
qed

text \<open>The first two steps of the release of a file that exists.\<close>

lemma release_put:
  assumes co: "coherent c W H F" and t: "tmap c H (kident k) = Some i" and v: "v_count (core_at c i) = 1" "\<not> de_locked (core_at c i)"
    and ne: "F \<noteq> []"
  obtains c1 c2 where "inact_count c i = Some (c1, True)" and "inact_free False c1 i = Some (c2, True)" and "cache_at c2 H (F @ [i])"
    and "i < ndenode c2" and "core_at c2 i = (core_at c i)\<lparr>v_count := 0, de_locked := True\<rparr>"
    and "deget_scan (ndenode c2 + 1) (dc_nodes c2) k (deget_head c2 k) (de_forw (dc_nodes c2 ! deget_head c2 k)) = Some (Some i)"
proof -
  note i = tmap_node [OF co t]
  note at = coherentD(1) [OF co]
  have rf: "0 < de_refcnt (de_node (core_at c i))" using i(3) by (simp add: valid_def)
  have nf: "i \<notin> set F" using coherentD(2) [OF co i(1)] v by (auto simp: at_core node_ok_def)
  define f :: "cnode \<Rightarrow> cnode" where "f = (\<lambda>n. n\<lparr>v_count := 0, de_locked := True\<rparr>)"
  have pf: "payload f" by (simp add: payload_def f_def)
  define c1 where "c1 = set_node c i f"
  note s1 = set_node_step [OF at i(1) pf, folded c1_def]
  have count: "inact_count c i = Some (c1, True)" using v by (simp add: inact_count_def Let_def at_core f_def c1_def)
  have i1: "i < ndenode c1" using s1(4) i(1) by simp
  have dn: "de_node (dc_nodes c1 ! i) = de_node (core_at c i)" using s1(2) by (simp add: at_core f_def)
  obtain c2 H' F' where s2: "inact_free False c1 i = Some (c2, True)" "cache_at c2 H' F'" "same_core c1 c2"
      "0 < de_refcnt (de_node (core_at c i)) \<longrightarrow> F' = F @ [i] \<and> (F \<noteq> [] \<longrightarrow> H' = H)"
    by (rule inact_free_step [OF s1(1) i1 nf, unfolded dn])
  have a2: "cache_at c2 H (F @ [i])" using s2(2,4) rf ne by simp
  note k2 = same_core_at [OF s2(3) s1(1) i1]
  have n2: "ndenode c2 = ndenode c" using k2 s1(4) by simp
  have c2i: "core_at c2 i = f (core_at c i)" using k2 s1(2) by simp
  have on: "only_node i c c2" by (rule only_node_trans [OF s1(3) same_core_only [OF s2(3) s1(1)]])
  have id: "valid (core_at c2 j) = valid (core_at c j) \<and> ident (core_at c2 j) = ident (core_at c j)" if "j < ndenode c" for j
    using on that c2i by (cases "j = i") (simp_all add: only_node_def f_def valid_def ident_def)
  have scan: "deget_scan (ndenode c2 + 1) (dc_nodes c2) k (deget_head c2 k) (de_forw (dc_nodes c2 ! deget_head c2 k)) = Some (Some i)"
    using tmap_scan [OF co a2 n2 id] t by simp
  have i2: "i < ndenode c2" using n2 i(1) by simp
  show ?thesis by (rule that [OF count s2(1) a2 i2 c2i [unfolded f_def] scan])
qed

text \<open>C30: A release runs without the lock of the table between putting the denode on the free list and clearing its
  flags. When another process asks for the file in between, \<open>deget\<close> finds the flag \<open>DEREF\<close> still set, so it does not take
  the denode off the free list, and waits for its lock; the release then clears the flag, and the denode it
  hands over has a reference and is on the free list, from where it will be given to another file.\<close>

theorem release_overtaken:
  assumes co: "coherent c W H F" and t: "tmap c H (kident k) = Some i" and v: "v_count (core_at c i) = 1" "\<not> de_locked (core_at c i)"
    and ne: "F \<noteq> []" and cl: "de_flag (de_node (core_at c i)) AND (DEUPD OR DEMOD) = 0" and hold: "\<forall>x. hold x = x + 1"
  shows "\<exists>c1 c2 c3 c4. inact_count c i = Some (c1, True) \<and> inact_free False c1 i = Some (c2, True)
    \<and> deget io hold purge pvp k direntp d c2 = Some (d, c3, Asleep i)
    \<and> inact_finish io ronly shared now pvp d cv c3 i = Some (d, pvp, cv, c4)
    \<and> (let c5 = deget_wake hold c4 i in v_count (dc_nodes c5 ! i) = 1 \<and> frees.list_at (dc_nodes c5) (dfreeh c5) (dfreet c5) (F @ [i]))"
proof -
  note i = tmap_node [OF co t]
  have rf: "0 < de_refcnt (de_node (core_at c i))" using i(3) by (simp add: valid_def)
  have ok: "de_flag (de_node (core_at c i)) AND DEREF \<noteq> 0"
    using coherentD(2) [OF co i(1)] v by (auto simp: at_core node_ok_def)
  obtain c1 c2 where put: "inact_count c i = Some (c1, True)" "inact_free False c1 i = Some (c2, True)"
    and a2: "cache_at c2 H (F @ [i])" and i2: "i < ndenode c2" and c2i: "core_at c2 i = (core_at c i)\<lparr>v_count := 0, de_locked := True\<rparr>"
    and scan: "deget_scan (ndenode c2 + 1) (dc_nodes c2) k (deget_head c2 k) (de_forw (dc_nodes c2 ! deget_head c2 k)) = Some (Some i)"
    by (rule release_put [OF co t v ne])
  define g :: "cnode \<Rightarrow> cnode" where "g = de_node_update (\<lambda>m. m\<lparr>de_flag := de_flag m OR DEREF\<rparr>)"
  have pg: "payload g" by (simp add: payload_def g_def)
  define c3 where "c3 = set_node c2 i g"
  note s3 = set_node_step [OF a2 i2 pg, folded c3_def]
  have found: "deget_found c2 i = c3" using ok c2i by (simp add: deget_found_def c3_def g_def at_core)
  have lk: "de_locked (dc_nodes c3 ! i)" using s3(2) c2i by (simp add: at_core g_def)
  have get: "deget io hold purge pvp k direntp d c2 = Some (d, c3, Asleep i)"
    unfolding deget_def by (subst deget_loop.simps) (simp only: Let_def scan option.case Option.bind.bind_lunit found if_P [OF lk])
  define q where "q = de_node (core_at c3 i)"
  have qf: "0 < de_refcnt q" "de_flag q AND (DEUPD OR DEMOD) = 0"
  proof -
    have q: "q = (de_node (core_at c i))\<lparr>de_flag := de_flag (de_node (core_at c i)) OR DEREF\<rparr>"
      using s3(2) c2i by (simp add: q_def g_def)
    show "0 < de_refcnt q" using rf by (simp add: q)
    show "de_flag q AND (DEUPD OR DEMOD) = 0" using cl by (simp add: q bit.conj_disj_distrib2 DEREF_def DEUPD_def DEMOD_def)
  qed
  define h :: "cnode \<Rightarrow> cnode" where "h = (\<lambda>n. n\<lparr>de_node := q\<lparr>de_flag := 0\<rparr>, de_locked := False\<rparr>)"
  have ph: "payload h" by (simp add: payload_def h_def)
  have i3: "i < ndenode c3" using s3(4) i2 by simp
  define c4 where "c4 = set_node c3 i h"
  note s4 = set_node_step [OF s3(1) i3 ph, folded c4_def]
  have fin: "inact_finish io ronly shared now pvp d cv c3 i = Some (d, pvp, cv, c4)"
    using qf by (simp add: inact_finish_def Let_def at_core q_def [symmetric] c4_def h_def)
  have i4: "i < ndenode c4" using s4(4) i3 by simp
  have pw: "payload (\<lambda>n. n\<lparr>de_locked := True, v_count := hold (v_count n)\<rparr>)" by (simp add: payload_def)
  note s5 = set_node_step [OF s4(1) i4 pw, folded deget_wake_def]
  have "v_count (dc_nodes (deget_wake hold c4 i) ! i) = 1"
    using s5(2) s4(2) s3(2) c2i hold by (simp add: at_core g_def h_def)
  then show ?thesis using put get fin s5(1) by (auto simp: Let_def cache_at_def)
qed

section \<open>Tables of one and two denodes\<close>

definition demo_key :: "nat \<Rightarrow> dkey" where
  "demo_key off = \<lparr>k_dev = 1, k_vfsp = 0, k_isadir = False, k_dirclust = 2, k_diroffset = off, k_startclust = 0\<rparr>"

definition demo_entry :: direntry where
  "demo_entry = (de_de (de_node zero_node))\<lparr>deAttributes := 0\<rparr>"

lemma demo_entry_for: "entry_for (demo_key off) (Some demo_entry)"
  by (simp add: entry_for_def demo_key_def demo_entry_def)

lemma demo_cache:
  assumes "0 < n"
  obtains c H where "cache_reach good_io (\<lambda>x. x + 1) n c [] {} {}" and "coherent c [] H [1..<n]" and "tmap c H (kident (demo_key 3)) = Some 0"
    and "tmap c H (kident (demo_key 4)) = None" and "v_count (core_at c 0) = 1" and "\<not> de_locked (core_at c 0)"
    and "de_flag (de_node (core_at c 0)) = DEREF" and "0 < ndenode c" and "valid (core_at c 0)"
proof -
  obtain c0 where c0: "dosfs_doinit n = Some c0" "ndenode c0 = n" "coherent c0 [] (\<lambda>_. []) [0..<n]" using dosfs_doinit_ok [OF assms] .
  have n: "[0..<n] = 0 # [1..<n]" using assms by (simp add: upt_conv_Cons)
  have t0: "tmap c0 (\<lambda>_. []) a = None" for a by (simp add: tmap_def)
  obtain c1 H where c1: "deget_loop good_io (\<lambda>x. x + 1) (\<lambda>s. s) demo_fs (demo_key 3) (Some demo_entry) 5 demo_dev c0 = Some (demo_dev, c1, Got 0)"
      "coherent c1 [] H [1..<n]" "only_node 0 c0 c1" "core_at c1 0 = taken_node (demo_key 3) (Some demo_entry) (core_at c0 0)"
      "tmap c1 H = (\<lambda>a. if a = kident (demo_key 3) then Some 0 else if tmap c0 (\<lambda>_. []) a = Some 0 then None else tmap c0 (\<lambda>_. []) a)"
    by (rule deget_miss [OF c0(3) [unfolded n] empty_not t0 demo_entry_for])
  have n1: "0 < ndenode c1" using c1(3) c0(2) assms by (simp add: only_node_def)
  note tk = taken_fields [OF demo_entry_for [of 3], where n = "core_at c0 0"]
  have v1: "0 < v_count (dc_nodes c1 ! 0)" "de_locked (dc_nodes c1 ! 0)" using tk(4,5) by (simp_all add: at_core c1(4))
  define c2 where "c2 = set_node c1 0 (de_locked_update (\<lambda>_. False))"
  have co: "coherent c2 [] H [1..<n]" unfolding c2_def by (rule lock_consistent [OF c1(2) n1 v1(1)])
  have pf: "payload (de_locked_update (\<lambda>_. False))" by (simp add: payload_def)
  note s = set_node_step [OF coherentD(1) [OF c1(2)] n1 pf, folded c2_def]
  have tm: "tmap c2 H = tmap c1 H"
    by (rule tmap_same [OF c1(2) co s(3) only_lists_refl]) (simp_all add: s(2) valid_def ident_def)
  have "cache_step good_io (\<lambda>x. x + 1) (c0, [], {}, {}) (c1, waiters (Got 0) [], {}, {})"
    by (rule cache_step.get [OF disjI1 [OF demo_entry_for] c1(1) [folded deget_round_def]]) simp
  then have "cache_reach good_io (\<lambda>x. x + 1) n c1 (waiters (Got 0) []) {} {}"
    by (rule cache_reach.step [OF cache_reach.load [OF c0(1)]])
  then have "cache_reach good_io (\<lambda>x. x + 1) n c1 [] {} {}" by (simp add: waiters_def)
  moreover have "cache_step good_io (\<lambda>x. x + 1) (c1, [], {}, {}) (c2, [], {}, {})"
    unfolding c2_def by (rule cache_step.unlock [OF n1 v1])
  ultimately have r: "cache_reach good_io (\<lambda>x. x + 1) n c2 [] {} {}" by (rule cache_reach.step)
  show ?thesis
  proof (rule that [OF r co])
    show "valid (core_at c2 0)" using tk(2) by (simp add: s(2) c1(4) valid_def)
    show "0 < ndenode c2" using n1 s(4) by simp
  qed (use tk(4) in \<open>simp_all add: tm c1(4,5) t0 s(2) kident_def demo_key_def, simp_all add: taken_node_def Let_def\<close>)
qed

lemma release_clean:
  assumes co: "coherent c W H F" and i: "i < ndenode c" and v: "v_count (core_at c i) = 1" "\<not> de_locked (core_at c i)" and w: "i \<notin> set W"
    and rf: "0 < de_refcnt (de_node (core_at c i))" and cl: "de_flag (de_node (core_at c i)) AND (DEUPD OR DEMOD) = 0"
  shows "\<exists>c'. dosfs_inactive io ronly shared now False pvp d cv c i = Some (d, pvp, cv, c')"
proof -
  obtain c1 where c1: "inact_count c i = Some (c1, True)" "consistent c1 W {i} {} H F"
    "core_at c1 i = (core_at c i)\<lparr>v_count := 0, de_locked := True\<rparr>"
    by (rule inact_last_ok [OF co i v])
  obtain c2 where c2: "inact_free False c1 i = Some (c2, True)" "core_at c2 i = core_at c1 i"
    by (rule inact_put_ok [OF c1(2) _ w]) simp
  show ?thesis using c1(1,3) c2 rf cl by (simp add: dosfs_inactive_def inact_finish_def Let_def at_core)
qed

text \<open>Witnesses.\<close>

lemma deget_refines_witness:
  "\<exists>c c'. dosfs_doinit 2 = Some c
    \<and> deget good_io (\<lambda>x. x + 1) id demo_fs (demo_key 3) (Some demo_entry) demo_dev c = Some (demo_dev, c', Got 0)"
proof -
  obtain c where c: "dosfs_doinit 2 = Some c" "coherent c [] (\<lambda>_. []) [0..<2]" using dosfs_doinit_ok [of 2] by auto
  have t: "tmap c (\<lambda>_. []) a = None" for a by (simp add: tmap_def)
  have "[0..<2] \<noteq> [] \<or> tmap c (\<lambda>_. []) (kident (demo_key 3)) \<noteq> None" by simp
  from deget_refines [OF c(2) demo_entry_for _ this, of "\<lambda>x. x + 1" good_io id demo_fs demo_dev] show ?thesis using c(1)
    by (auto simp: t)
qed

text \<open>The table of two denodes with one file, referenced and unlocked.\<close>

lemma demo_clean: "de_flag p = DEREF \<Longrightarrow> de_flag p AND (DEUPD OR DEMOD) = 0"
  by (simp add: DEREF_def DEUPD_def DEMOD_def)

lemma demo_release:
  assumes "0 < n"
  obtains c c' H where "cache_reach good_io (\<lambda>x. x + 1) n c [] {} {}" and "coherent c [] H [1..<n]" and "tmap c H (kident (demo_key 3)) = Some 0"
    and "v_count (core_at c 0) = 1" and "\<not> de_locked (core_at c 0)" and "de_flag (de_node (core_at c 0)) = DEREF" and "0 < ndenode c"
    and "0 < de_refcnt (de_node (core_at c 0))"
    and "dosfs_inactive good_io False False 0 False demo_fs demo_dev conv_init c 0 = Some (demo_dev, demo_fs, conv_init, c')"
proof -
  obtain c H where c: "cache_reach good_io (\<lambda>x. x + 1) n c [] {} {}" "coherent c [] H [1..<n]" "tmap c H (kident (demo_key 3)) = Some 0"
    "tmap c H (kident (demo_key 4)) = None" "v_count (core_at c 0) = 1" "\<not> de_locked (core_at c 0)"
    "de_flag (de_node (core_at c 0)) = DEREF" "0 < ndenode c" "valid (core_at c 0)"
    by (rule demo_cache [OF assms])
  have rf: "0 < de_refcnt (de_node (core_at c 0))" using c(9) by (simp add: valid_def)
  have w: "0 \<notin> set []" by simp
  obtain c' where r: "dosfs_inactive good_io False False 0 False demo_fs demo_dev conv_init c 0 = Some (demo_dev, demo_fs, conv_init, c')"
    using release_clean [OF c(2,8,5,6) w rf demo_clean [OF c(7)], of good_io False False 0 demo_fs demo_dev conv_init] by blast
  show ?thesis by (rule that [OF c(1-3,5-8) rf r])
qed

lemma dosfs_inactive_refines_witness:
  "\<exists>c c' H F. dosfs_inactive good_io False False 0 False demo_fs demo_dev conv_init c 0 = Some (demo_dev, demo_fs, conv_init, c')
    \<and> coherent c' [] H F \<and> F = [1, 0] \<and> v_count (core_at c' 0) = 0"
proof -
  have two: "0 < (2 :: nat)" by simp
  obtain c c' H where c: "cache_reach good_io (\<lambda>x. x + 1) 2 c [] {} {}" "coherent c [] H [1..<2]" "tmap c H (kident (demo_key 3)) = Some 0"
    "v_count (core_at c 0) = 1" "\<not> de_locked (core_at c 0)" "de_flag (de_node (core_at c 0)) = DEREF" "0 < ndenode c"
    "0 < de_refcnt (de_node (core_at c 0))"
    "dosfs_inactive good_io False False 0 False demo_fs demo_dev conv_init c 0 = Some (demo_dev, demo_fs, conv_init, c')"
    by (rule demo_release [OF two])
  then have r': "dosfs_inactive good_io False False 0 (0 \<in> set []) demo_fs demo_dev conv_init c 0 = Some (demo_dev, demo_fs, conv_init, c')" by simp
  have "0 < v_count (core_at c 0)" using c(4) by simp
  from dosfs_inactive_refines [OF c(2,7) this c(5) r'] obtain H' F' where "coherent c' [] H' F'"
    "v_count (core_at c' 0) = v_count (core_at c 0) - 1" "F' = (if v_count (core_at c 0) \<noteq> 1 \<or> (0 :: nat) \<in> set [] then [1..<2]
      else if 0 < de_refcnt (de_node (core_at c 0)) then [1..<2] @ [0] else 0 # [1..<2])" by blast
  moreover have "[Suc 0..<2] = [Suc 0]" by (simp add: upt_rec)
  ultimately show ?thesis using c(4,8,9) by (intro exI [of _ c] exI [of _ c'] exI [of _ H'] exI [of _ F']) simp
qed

lemma deget_purges_witness:
  "\<exists>c. cache_reach good_io (\<lambda>x. x + 1) 1 c [] {} {}
    \<and> deget good_io (\<lambda>x. x + 1) id demo_fs (demo_key 4) (Some demo_entry) demo_dev c = Some (demo_dev, c, Failed ENFILE)"
proof -
  obtain c H where c: "cache_reach good_io (\<lambda>x. x + 1) 1 c [] {} {}" "coherent c [] H [1..<1]" "tmap c H (kident (demo_key 4)) = None"
    by (rule demo_cache [of 1]) simp_all
  have co: "coherent c [] H []" using c(2) by simp
  have p: "id (demo_dev, c) = (demo_dev, c)" by simp
  have h: "\<forall>x :: int. x + 1 = x + 1" by simp
  show ?thesis using deget_purges [where purge = id and hold = "\<lambda>x. x + 1", OF co c(3) demo_entry_for h p co, of good_io demo_fs] c(1,3) by auto
qed

text \<open>With another denode free the old entry is found again; with none the file is asked for with its entry.\<close>

lemma release_then_get_witness:
  "\<exists>c c' c'' b b' b''. dosfs_inactive good_io False False 0 False demo_fs demo_dev conv_init c 0 = Some (demo_dev, demo_fs, conv_init, c')
    \<and> deget good_io (\<lambda>x. x + 1) id demo_fs (demo_key 3) None demo_dev c' = Some (demo_dev, c'', Got 0) \<and> v_count (core_at c'' 0) = 1
    \<and> same_file (de_node (core_at c 0)) (de_node (core_at c'' 0))
    \<and> dosfs_inactive good_io False False 0 False demo_fs demo_dev conv_init b 0 = Some (demo_dev, demo_fs, conv_init, b')
    \<and> deget good_io (\<lambda>x. x + 1) id demo_fs (demo_key 3) (Some demo_entry) demo_dev b' = Some (demo_dev, b'', Got 0)
    \<and> core_at b'' 0 = taken_node (demo_key 3) (Some demo_entry) (core_at b' 0)"
proof -
  have two: "0 < (2 :: nat)" and one: "0 < (1 :: nat)" by simp_all
  obtain c c' H where c: "cache_reach good_io (\<lambda>x. x + 1) 2 c [] {} {}" "coherent c [] H [1..<2]" "tmap c H (kident (demo_key 3)) = Some 0"
    "v_count (core_at c 0) = 1" "\<not> de_locked (core_at c 0)" "de_flag (de_node (core_at c 0)) = DEREF" "0 < ndenode c"
    "0 < de_refcnt (de_node (core_at c 0))"
    "dosfs_inactive good_io False False 0 False demo_fs demo_dev conv_init c 0 = Some (demo_dev, demo_fs, conv_init, c')"
    by (rule demo_release [OF two])
  obtain b b' G where b: "cache_reach good_io (\<lambda>x. x + 1) 1 b [] {} {}" "coherent b [] G [1..<1]" "tmap b G (kident (demo_key 3)) = Some 0"
    "v_count (core_at b 0) = 1" "\<not> de_locked (core_at b 0)" "de_flag (de_node (core_at b 0)) = DEREF" "0 < ndenode b"
    "0 < de_refcnt (de_node (core_at b 0))"
    "dosfs_inactive good_io False False 0 False demo_fs demo_dev conv_init b 0 = Some (demo_dev, demo_fs, conv_init, b')"
    by (rule demo_release [OF one])
  have w: "0 \<notin> set []" and h: "\<forall>x :: int. x + 1 = x + 1" and e: "[1..<2] = [] \<longrightarrow> entry_for (demo_key 3) None"
    "[1..<1] = [] \<longrightarrow> entry_for (demo_key 3) (Some demo_entry)" and ne: "[1..<2] \<noteq> []" "\<not> [1..<1] \<noteq> []" by (simp_all add: demo_entry_for)
  show ?thesis
    using release_then_get [where io = good_io and purge = id, OF c(2-5) w e(1) h c(9)] c(9)
      release_then_get [where io = good_io and purge = id, OF b(2-5) w e(2) h b(9)] b(9)
    unfolding if_P [OF ne(1)] if_not_P [OF ne(2)] by blast
qed

text \<open>A file is got while the release of another is between its second and its third step.\<close>

lemma cache_reach_safe_witness:
  "\<exists>c H F. cache_reach good_io (\<lambda>x. x + 1) 2 c [] {} {0} \<and> cache_at c H F \<and> v_count (dc_nodes c ! 1) = 1 \<and> 1 \<notin> set F
    \<and> tmap c H (kident (demo_key 4)) = Some 1"
proof -
  obtain c H where c: "cache_reach good_io (\<lambda>x. x + 1) 2 c [] {} {}" "coherent c [] H [1..<2]" "tmap c H (kident (demo_key 3)) = Some 0"
    "tmap c H (kident (demo_key 4)) = None" "v_count (core_at c 0) = 1" "\<not> de_locked (core_at c 0)"
    "de_flag (de_node (core_at c 0)) = DEREF" "0 < ndenode c" "valid (core_at c 0)"
    by (rule demo_cache [of 2]) simp
  have rf: "0 < de_refcnt (de_node (core_at c 0))" using c(9) by (simp add: valid_def)
  obtain c1 where c1: "inact_count c 0 = Some (c1, True)" "consistent c1 [] {0} {} H [1..<2]" "only_node 0 c c1"
    "core_at c1 0 = (core_at c 0)\<lparr>v_count := 0, de_locked := True\<rparr>"
    by (rule inact_last_ok [OF c(2,8,5,6)])
  have n1: "de_node (core_at c1 0) = de_node (core_at c 0)" by (simp add: c1(4))
  have m: "0 \<in> {0 :: nat}" "0 \<notin> set ([] :: nat list)" by simp_all
  obtain c2 H2 F2 where c2: "inact_free False c1 0 = Some (c2, True)" "consistent c2 [] ({0} - {0}) {0} H2 F2" "only_node 0 c1 c2"
    "core_at c2 0 = core_at c1 0" "0 < de_refcnt (de_node (core_at c 0)) \<longrightarrow> F2 = [1..<2] @ [0] \<and> ([1..<2] \<noteq> [] \<longrightarrow> H2 = H)"
    by (rule inact_put_ok [OF c1(2) m, unfolded n1]) (rule that; assumption)
  have two: "[Suc 0..<2] = [Suc 0]" by (simp add: upt_rec)
  have co2: "consistent c2 [] {} {0} H (1 # [0])" using c2(2,5) rf two by simp
  have on: "only_node 0 c c2" by (rule only_node_trans [OF c1(3) c2(3)])
  have t2: "tmap c2 H (kident (demo_key 4)) = None"
    using tmap_same [OF c(2) co2 on only_lists_refl] c(4) by (simp add: c2(4) c1(4) valid_def ident_def)
  have nr: "1 \<notin> {0 :: nat}" by simp
  obtain c3 H3 where c3: "deget_loop good_io (\<lambda>x. x + 1) (\<lambda>s. s) demo_fs (demo_key 4) (Some demo_entry) 5 demo_dev c2 = Some (demo_dev, c3, Got 1)"
    "only_node 1 c2 c3" "core_at c3 1 = taken_node (demo_key 4) (Some demo_entry) (core_at c2 1)"
    by (rule deget_miss [OF co2 nr t2 demo_entry_for])
  have "cache_step good_io (\<lambda>x. x + 1) (c, [], {}, {}) (c1, [], insert 0 {}, {})"
    by (rule cache_step.last_ref [OF c(8) _ c1(1)]) (use c(5) in \<open>simp add: at_core\<close>)
  from cache_reach.step [OF c(1) this] have r1: "cache_reach good_io (\<lambda>x. x + 1) 2 c1 [] {0} {}" .
  have "cache_step good_io (\<lambda>x. x + 1) (c1, [], {0}, {}) (c2, [], {0} - {0}, if True then insert 0 {} else {})"
    by (rule cache_step.put) (simp_all add: c2(1))
  from cache_reach.step [OF r1 this] have r2: "cache_reach good_io (\<lambda>x. x + 1) 2 c2 [] {} {0}" by simp
  have "cache_step good_io (\<lambda>x. x + 1) (c2, [], {}, {0}) (c3, waiters (Got 1) [], {}, {0})"
    by (rule cache_step.get [OF disjI1 [OF demo_entry_for] c3(1) [folded deget_round_def]]) simp
  from cache_reach.step [OF r2 this] have r3: "cache_reach good_io (\<lambda>x. x + 1) 2 c3 [] {} {0}" by (simp add: waiters_def)
  note tk = taken_fields [OF demo_entry_for [of 4], where n = "core_at c2 1"]
  have k: "v_count (dc_nodes c3 ! 1) = 1" "valid (dc_nodes c3 ! 1)" "ident (dc_nodes c3 ! 1) = kident (demo_key 4)"
    using tk(1,2,4) unfolding at_core c3(3) by simp_all
  have b: "1 < ndenode c3" using cache_bounds(3) [OF consistentD(1) [OF co2]] c3(2) by (simp add: only_node_def)
  have h: "\<forall>x :: int. x + 1 = x + 1" by simp
  from cache_reach_safe [OF r3 _ h] obtain H' F' where s: "consistent c3 [] {} {0} H' F'"
    "\<forall>i < ndenode c3. 0 < v_count (dc_nodes c3 ! i) \<or> i \<in> set [] \<longrightarrow>
       i \<notin> set F' \<and> (valid (dc_nodes c3 ! i) \<longrightarrow> tmap c3 H' (ident (dc_nodes c3 ! i)) = Some i)" by auto
  have "1 \<notin> set F' \<and> tmap c3 H' (kident (demo_key 4)) = Some 1" using s(2) b k by fastforce
  then show ?thesis using r3 consistentD(1) [OF s(1)] k(1) by blast
qed

lemma release_overtaken_witness:
  "\<exists>c c1 c2 c3 c4. cache_reach good_io (\<lambda>x. x + 1) 2 c [] {} {} \<and> inact_count c 0 = Some (c1, True) \<and> inact_free False c1 0 = Some (c2, True)
    \<and> deget good_io (\<lambda>x. x + 1) id demo_fs (demo_key 3) None demo_dev c2 = Some (demo_dev, c3, Asleep 0)
    \<and> inact_finish good_io False False 0 demo_fs demo_dev conv_init c3 0 = Some (demo_dev, demo_fs, conv_init, c4)
    \<and> v_count (dc_nodes (deget_wake (\<lambda>x. x + 1) c4 0) ! 0) = 1"
proof -
  obtain c H where c: "cache_reach good_io (\<lambda>x. x + 1) 2 c [] {} {}" "coherent c [] H [1..<2]" "tmap c H (kident (demo_key 3)) = Some 0"
    "tmap c H (kident (demo_key 4)) = None" "v_count (core_at c 0) = 1" "\<not> de_locked (core_at c 0)"
    "de_flag (de_node (core_at c 0)) = DEREF" "0 < ndenode c" "valid (core_at c 0)"
    by (rule demo_cache [of 2]) simp
  have ne: "[1..<2] \<noteq> []" and h: "\<forall>x :: int. x + 1 = x + 1" by simp_all
  show ?thesis
    using release_overtaken [OF c(2,3,5,6) ne demo_clean [OF c(7)] h, of good_io id demo_fs None demo_dev False False 0 conv_init] c(1)
    by (auto simp: Let_def)
qed

end
