(* ===== verification/FileIO.thy ===== *)
theory FileIO
  imports Denode
begin

text \<open>
  Reading and writing a file (\<open>dosfs_read\<close>, \<open>dosfs_write\<close>, \<open>dosfs_seek\<close>, \<open>dosfs_seek_l\<close> and \<open>dosfs_fsync\<close> of \<open>fs/dosfs/dosfs_vnops.c\<close>). The bytes go
  to and come from the memory of the calling process through \<open>uiomove\<close>, which is not part of this source tree:
  its two directions are the parameter \<open>umove\<close>, over what it knows of the process, \<open>'u\<close>. The loops end
  when nothing is left to move; since only \<open>uiomove\<close> knows that, they are given a number of rounds.
\<close>

definition EFBIG :: nat where "EFBIG = 27"
definition EPERM :: nat where "EPERM = 1"

record 'u uio =
  uio_offset :: int
  uio_resid :: nat
  uio_limit :: nat
  uio_user :: 'u

record 'u umove =
  um_out :: "'u uio \<Rightarrow> u8 list \<Rightarrow> 'u uio \<times> nat"
  um_in :: "'u uio \<Rightarrow> nat \<Rightarrow> 'u uio \<times> u8 list \<times> nat"

definition isadir_root :: "denode \<Rightarrow> bool" where
  "isadir_root dep \<longleftrightarrow> de_Attributes dep AND ATTR_DIRECTORY \<noteq> 0 \<and> de_StartCluster dep = DOSFSROOT"

section \<open>Reading\<close>

definition DETIMES :: "conv \<Rightarrow> denode \<Rightarrow> uint_t \<Rightarrow> conv \<times> denode" where
  "DETIMES cv dep t =
     (if de_flag dep AND DEUPD \<noteq> 0 then
        let dep = dep\<lparr>de_flag := de_flag dep OR DEMOD\<rparr>;
            (cv, date, time) = unix2dostime cv t;
            dep = dep\<lparr>de_de := (de_de dep)\<lparr>deDate := ddi date, deTime := dti time\<rparr>\<rparr>
        in (cv, dep\<lparr>de_flag := de_flag dep AND NOT DEUPD\<rparr>)
      else (cv, dep))"

text \<open>
  The block of the file at sector \<open>bn\<close>, with the read-ahead of a file read in order; \<open>Inl\<close> is an error the read
  returns with at once.
\<close>

definition read_block :: "'d bio \<Rightarrow> dosfs_vfs \<Rightarrow> nat \<Rightarrow> 'd \<Rightarrow> denode \<Rightarrow> nat \<Rightarrow> ('d \<times> denode \<times> (nat + lbuf)) option" where
  "read_block io pvp bsize d dep bn =
     (if de_Attributes dep AND ATTR_DIRECTORY \<noteq> 0 then do {
        (d, bp) \<leftarrow> lbread io d bn bsize;
        Some (d, dep, Inr bp) }
      else let rablock = uadd32 bn 1 in
        if uadd32 (de_lastr dep) 1 = bn \<and> umul32 rablock (vfs_bpcluster pvp) < de_FileSize dep then do {
          (d, dep, error, rablock, _) \<leftarrow> pcbmap io pvp d dep rablock True False;
          if error \<noteq> 0 then Some (d, dep, Inl error)
          else do {
            rablock \<leftarrow> rablock;
            (d, bp) \<leftarrow> lbreada io d bn rablock bsize;
            Some (d, dep\<lparr>de_lastr := bn\<rparr>, Inr bp) } }
        else do {
          (d, bp) \<leftarrow> lbread io d bn bsize;
          Some (d, dep\<lparr>de_lastr := bn\<rparr>, Inr bp) })"

text \<open>The rounds; \<open>Inl\<close> is a return from within, \<open>Inr\<close> the error at the end of the loop.\<close>

primrec read_loop :: "'u umove \<Rightarrow> 'd bio \<Rightarrow> dosfs_vfs \<Rightarrow> nat \<Rightarrow> nat \<Rightarrow> 'd \<Rightarrow> denode \<Rightarrow> 'u uio
    \<Rightarrow> ('d \<times> denode \<times> 'u uio \<times> (nat + nat)) option" where
  "read_loop um io pvp bsize 0 d dep uio = None"
| "read_loop um io pvp bsize (Suc fuel) d dep uio =
     (let lbn = drop_bit (vfs_cnshift pvp) (nat (uio_offset uio));
          on = nat (uio_offset uio) AND vfs_crbomask pvp;
          n = min (usub32 bsize on) (uio_resid uio);
          diff = slong (usub32 (de_FileSize dep) (nat (uio_offset uio)))
      in if diff \<le> 0 then Some (d, dep, uio, Inl 0)
         else do {
           (d, dep, error, lbn, _) \<leftarrow> pcbmap io pvp d dep lbn True False;
           if error \<noteq> 0 then Some (d, dep, uio, Inl error)
           else do {
             lbn \<leftarrow> lbn;
             let n = (if diff < int n then nat diff else n);
             (d, dep, r) \<leftarrow> read_block io pvp bsize d dep lbn;
             (case r of
                Inl error \<Rightarrow> Some (d, dep, uio, Inl error)
              | Inr bp \<Rightarrow>
                  let n = min n bsize in
                  if lgeterror io bp \<noteq> 0 then Some (lbrelse io d bp, dep, uio, Inl (lgeterror io bp))
                  else if length (lb_addr bp) < on + n then None
                  else let (uio, error) = um_out um uio (take n (drop on (lb_addr bp)));
                           d = lbrelse io d bp
                       in if error = 0 \<and> 0 < uio_resid uio \<and> n \<noteq> 0 then read_loop um io pvp bsize fuel d dep uio
                          else Some (d, dep, uio, Inr error)) } })"

definition dosfs_read :: "'u umove \<Rightarrow> 'd bio \<Rightarrow> uint_t \<Rightarrow> dosfs_vfs \<Rightarrow> nat \<Rightarrow> 'd \<Rightarrow> conv \<Rightarrow> denode \<Rightarrow> 'u uio
    \<Rightarrow> ('d \<times> conv \<times> denode \<times> 'u uio \<times> nat) option" where
  "dosfs_read um io now pvp fuel d cv dep uio =
     (if uio_resid uio = 0 then Some (d, cv, dep, uio, 0)
      else if uio_offset uio < 0 then Some (d, cv, dep, uio, EINVAL)
      else do {
        let bsize = (if isadir_root dep \<and> vfs_rootdirsize pvp < vfs_SectPerClust pvp
                     then umul32 (vfs_rootdirsize pvp) (vfs_BytesPerSec pvp) else vfs_bpcluster pvp);
        (d, dep, uio, r) \<leftarrow> read_loop um io pvp bsize fuel d dep uio;
        (case r of
           Inl error \<Rightarrow> Some (d, cv, dep, uio, error)
         | Inr error \<Rightarrow> let (cv, dep) = DETIMES cv dep now in Some (d, cv, dep, uio, error)) })"

section \<open>Growing a file\<close>

primrec seek_loop :: "'d bio \<Rightarrow> nat \<Rightarrow> nat \<Rightarrow> dosfs_vfs \<Rightarrow> 'd \<Rightarrow> denode \<Rightarrow> nat \<Rightarrow> ('d \<times> dosfs_vfs \<times> denode) option" where
  "seek_loop io 0 noff pvp d dep foff = None"
| "seek_loop io (Suc fuel) noff pvp d dep foff =
     (if slong foff < int noff then do {
        (d, pvp, dep, error, bp, _) \<leftarrow> extendfile io pvp d dep True False;
        if error \<noteq> 0 then Some (d, pvp, dep)
        else do {
          bp \<leftarrow> bp;
          let dep = dep\<lparr>de_flag := de_flag dep OR DEUPD\<rparr>;
          let d = lbdwrite io d bp;
          let dep = dep\<lparr>de_de := (de_de dep)\<lparr>deFileSize := deFileSize (de_de dep) + of_nat (vfs_bpcluster pvp)\<rparr>\<rparr>;
          seek_loop io fuel noff pvp d dep (uadd32 foff (vfs_bpcluster pvp)) } }
      else Some (d, pvp, dep))"

text \<open>The error of the loop is overwritten by that of \<open>deupdat\<close>.\<close>

definition dosfs_seek_l :: "'d bio \<Rightarrow> bool \<Rightarrow> uint_t \<Rightarrow> nat \<Rightarrow> dosfs_vfs \<Rightarrow> 'd \<Rightarrow> conv \<Rightarrow> denode \<Rightarrow> nat \<Rightarrow> nat
    \<Rightarrow> ('d \<times> dosfs_vfs \<times> conv \<times> denode \<times> nat) option" where
  "dosfs_seek_l io ronly now fuel pvp d cv dep foff noff = do {
     (d, pvp, dep) \<leftarrow> seek_loop io fuel noff pvp d dep foff;
     let dep = dep\<lparr>de_de := (de_de dep)\<lparr>deFileSize := of_nat noff\<rparr>\<rparr>;
     (d, cv, dep, error) \<leftarrow> deupdat io ronly pvp d cv dep now True;
     Some (d, pvp, cv, dep, error) }"

text \<open>The root of the file system cannot grow; a directory only for a privileged process (\<open>denied\<close> is \<open>pm_denied\<close>).\<close>

definition dosfs_seek :: "'d bio \<Rightarrow> bool \<Rightarrow> uint_t \<Rightarrow> bool \<Rightarrow> nat \<Rightarrow> dosfs_vfs \<Rightarrow> 'd \<Rightarrow> conv \<Rightarrow> denode \<Rightarrow> int
    \<Rightarrow> ('d \<times> dosfs_vfs \<times> conv \<times> denode \<times> nat) option" where
  "dosfs_seek io ronly now denied fuel pvp d cv dep newoff =
     (if newoff < 0 then Some (d, pvp, cv, dep, EINVAL)
      else let foff = uadd32 (de_FileSize dep) (vfs_bpcluster pvp - 1) AND (2 ^ 32 - 1 - vfs_crbomask pvp) in
        if slong foff < newoff then
          (if de_vroot dep then Some (d, pvp, cv, dep, EINVAL)
           else if de_Attributes dep AND ATTR_DIRECTORY \<noteq> 0 \<and> denied then Some (d, pvp, cv, dep, EPERM)
           else dosfs_seek_l io ronly now fuel pvp d cv dep foff (nat newoff))
        else Some (d, pvp, cv, dep, 0))"

definition dosfs_fsync :: "'d bio \<Rightarrow> bool \<Rightarrow> uint_t \<Rightarrow> dosfs_vfs \<Rightarrow> 'd \<Rightarrow> conv \<Rightarrow> denode \<Rightarrow> ('d \<times> conv \<times> denode \<times> nat) option" where
  "dosfs_fsync io ronly now pvp d cv dep = deupdat io ronly pvp d cv (dep\<lparr>de_flag := de_flag dep OR DEUPD\<rparr>) now True"

section \<open>Writing\<close>

text \<open>The buffer to write into: a new one at the end of the file, or the block that is there. \<open>Inl\<close> is an error,
  which ends the loop for the first and the function for the second.\<close>

definition write_block :: "'d bio \<Rightarrow> dosfs_vfs \<Rightarrow> 'd \<Rightarrow> denode \<Rightarrow> nat \<Rightarrow> ('d \<times> dosfs_vfs \<times> denode \<times> (nat + lbuf)) option" where
  "write_block io pvp d dep off =
     (if off = de_FileSize dep \<and> off AND vfs_crbomask pvp = 0 then do {
        (d, pvp, dep, error, bp, _) \<leftarrow> extendfile io pvp d dep True False;
        if error \<noteq> 0 then Some (d, pvp, dep, Inl error) else do { bp \<leftarrow> bp; Some (d, pvp, dep, Inr bp) } }
      else do {
        (d, dep, error, bn, _) \<leftarrow> pcbmap io pvp d dep (drop_bit (vfs_cnshift pvp) off) True False;
        if error \<noteq> 0 then Some (d, pvp, dep, Inl error)
        else do {
          bn \<leftarrow> bn;
          (d, bp) \<leftarrow> lbread io d bn (vfs_bpcluster pvp);
          if lgeterror io bp \<noteq> 0 then Some (lbrelse io d bp, pvp, dep, Inl (lgeterror io bp))
          else Some (d, pvp, dep, Inr bp) } })"

text \<open>\<open>uiomove\<close> into the buffer at \<open>i\<close>.\<close>

definition lb_move_in :: "'u umove \<Rightarrow> lbuf \<Rightarrow> nat \<Rightarrow> nat \<Rightarrow> 'u uio \<Rightarrow> (lbuf \<times> 'u uio \<times> nat) option" where
  "lb_move_in um lb i n uio =
     (if i + n \<le> length (lb_addr lb)
      then let (uio, bs, error) = um_in um uio n in Some (lb\<lparr>lb_addr := put_bytes i (take n bs) (lb_addr lb)\<rparr>, uio, error)
      else None)"

primrec write_loop :: "'u umove \<Rightarrow> 'd bio \<Rightarrow> bool \<Rightarrow> nat \<Rightarrow> dosfs_vfs \<Rightarrow> 'd \<Rightarrow> denode \<Rightarrow> 'u uio
    \<Rightarrow> ('d \<times> dosfs_vfs \<times> denode \<times> 'u uio \<times> nat) option" where
  "write_loop um io sync 0 pvp d dep uio = None"
| "write_loop um io sync (Suc fuel) pvp d dep uio = do {
     let off = nat (uio_offset uio);
     (d, pvp, dep, r) \<leftarrow> write_block io pvp d dep off;
     (case r of
        Inl error \<Rightarrow> Some (d, pvp, dep, uio, error)
      | Inr bp \<Rightarrow> do {
          let croffset = off AND vfs_crbomask pvp;
          let n = min (uio_resid uio) (vfs_bpcluster pvp - croffset);
          let dep = (if de_FileSize dep < uadd32 off n then dep\<lparr>de_de := (de_de dep)\<lparr>deFileSize := of_nat (off + n)\<rparr>\<rparr> else dep);
          (bp, uio, error) \<leftarrow> lb_move_in um bp croffset n uio;
          let (d, error) = (if sync then lbwritewait io d bp
                            else if n + croffset = vfs_bpcluster pvp then (lbawrite io d bp, error)
                            else (lbdwrite io d bp, error));
          let dep = dep\<lparr>de_flag := de_flag dep OR DEUPD\<rparr>;
          if error = 0 \<and> 0 < uio_resid uio then write_loop um io sync fuel pvp d dep uio
          else Some (d, pvp, dep, uio, error) }) }"

definition dosfs_write :: "'u umove \<Rightarrow> 'd bio \<Rightarrow> bool \<Rightarrow> uint_t \<Rightarrow> bool \<Rightarrow> bool \<Rightarrow> nat \<Rightarrow> dosfs_vfs \<Rightarrow> 'd \<Rightarrow> conv \<Rightarrow> denode \<Rightarrow> 'u uio
    \<Rightarrow> ('d \<times> dosfs_vfs \<times> conv \<times> denode \<times> 'u uio \<times> nat) option" where
  "dosfs_write um io ronly now io_append sync fuel pvp d cv dep uio =
     (let uio = (if io_append then uio\<lparr>uio_offset := slong (de_FileSize dep)\<rparr> else uio) in
      if uio_offset uio < 0 then Some (d, pvp, cv, dep, uio, EINVAL)
      else if uio_resid uio = 0 then Some (d, pvp, cv, dep, uio, 0)
      else if uio_limit uio < uadd32 (nat (uio_offset uio)) (uio_resid uio) then Some (d, pvp, cv, dep, uio, EFBIG)
      else if isadir_root dep \<and> de_FileSize dep < uadd32 (nat (uio_offset uio)) (uio_resid uio) then Some (d, pvp, cv, dep, uio, ENOSPC)
      else do {
        (d, pvp, cv, dep, error) \<leftarrow>
          (if int (de_FileSize dep) < uio_offset uio
           then let foffset = uadd32 (de_FileSize dep) (vfs_bpcluster pvp - 1) AND (2 ^ 32 - 1 - vfs_crbomask pvp)
                in dosfs_seek_l io ronly now fuel pvp d cv dep foffset (nat (uio_offset uio))
           else Some (d, pvp, cv, dep, 0));
        if error \<noteq> 0 then Some (d, pvp, cv, dep, uio, error)
        else do {
          (d, pvp, dep, uio, error) \<leftarrow> write_loop um io sync fuel pvp d dep uio;
          if error = 0 \<and> sync then do {
            (d, cv, dep, _) \<leftarrow> deupdat io ronly pvp d cv dep now False;
            Some (d, pvp, cv, dep, uio, error) }
          else Some (d, pvp, cv, dep, uio, error) } })"

end
