(* ===== verification/ReadProps.thy ===== *)
theory ReadProps
  imports FileIO TruncProps DirSearch
begin

text \<open>Reading a file: what the process receives is a piece of the bytes of the file, and the device stays as it was.\<close>

section \<open>The memory of the process\<close>

text \<open>
  What the callers of \<open>uiomove\<close> rely on: if it succeeds, all bytes have been moved, and offset and count are advanced.
  \<open>got\<close> are the bytes the process has received, \<open>src\<close> those it has still to give.
\<close>

definition um_ok :: "'u umove \<Rightarrow> ('u \<Rightarrow> u8 list) \<Rightarrow> ('u \<Rightarrow> u8 list) \<Rightarrow> bool" where
  "um_ok um got src \<longleftrightarrow>
     (\<forall>u bs u'. length bs \<le> uio_resid u \<longrightarrow> um_out um u bs = (u', 0) \<longrightarrow> got (uio_user u') = got (uio_user u) @ bs
        \<and> uio_offset u' = uio_offset u + int (length bs) \<and> uio_resid u' = uio_resid u - length bs)
     \<and> (\<forall>u n u' bs. n \<le> uio_resid u \<longrightarrow> um_in um u n = (u', bs, 0) \<longrightarrow> length bs = n \<and> src (uio_user u) = bs @ src (uio_user u')
        \<and> uio_offset u' = uio_offset u + int n \<and> uio_resid u' = uio_resid u - n)"

definition out_err :: "'u umove \<Rightarrow> nat \<Rightarrow> bool" where
  "out_err um e \<longleftrightarrow> e \<noteq> 0 \<and> (\<exists>u bs. e = snd (um_out um u bs))"

definition in_err :: "'u umove \<Rightarrow> nat \<Rightarrow> bool" where
  "in_err um e \<longleftrightarrow> e \<noteq> 0 \<and> (\<exists>u n. e = snd (snd (um_in um u n)))"

lemma um_outD:
  assumes "um_ok um got src" and "um_out um u bs = (u', 0)" and "length bs \<le> uio_resid u"
  shows "got (uio_user u') = got (uio_user u) @ bs" and "uio_offset u' = uio_offset u + int (length bs)" and "uio_resid u' = uio_resid u - length bs"
  using assms unfolding um_ok_def by blast+

lemma um_inD:
  assumes "um_ok um got src" and "um_in um u n = (u', bs, 0)" and "n \<le> uio_resid u"
  shows "length bs = n" and "src (uio_user u) = bs @ src (uio_user u')" and "uio_offset u' = uio_offset u + int n" and "uio_resid u' = uio_resid u - n"
  using assms unfolding um_ok_def by blast+

section \<open>The bytes of a block\<close>

lemma lbreada_ok:
  assumes ok: "bio_ok io view held" and n: "n \<le> MAXCLUSTBLOCKS" and free: "{b..<b + n} \<inter> held d = {}"
  shows "\<exists>d' lb. lbreada io d b ra (n * DEV_BSIZE) = Some (d', lb) \<and> view d' = view d
    \<and> held d' = held d \<union> {b..<b + n} \<and> lbuf_at lb b n
    \<and> (lgeterror io lb = 0 \<longrightarrow> lb_addr lb = concat (map (view d) [b..<b + n]))"
proof -
  let ?rd = "\<lambda>d c. io_breada io d c (ra + (c - b)) DEV_BSIZE"
  have rd: "reads_ok (io_geterror io) view held ?rd" using ok by (simp add: bio_ok_def)
  obtain d' lb where g: "gathered ?rd d b (n * DEV_BSIZE) n = (d', lb)" by (cases "gathered ?rd d b (n * DEV_BSIZE) n")
  note c = gathered_claims [OF claims_ok_reads [OF rd] free g]
  have at: "lbuf_at lb b n" using c by (simp add: lbuf_at_def)
  have "lgeterror io lb = 0 \<longrightarrow> lb_addr lb = concat (map (view d) [b..<b + n])"
    using gathered_reads [OF rd free g] err_lgeterror [OF at] by blast
  then show ?thesis using c at g by (simp add: lbreada_def lb_gather_gathered [OF n])
qed

lemma file_bytes_drop:
  assumes g: "geo_ok pvp" and len: "\<And>s. length (v s) = DEV_BSIZE" and f: "f \<le> length xs"
  shows "drop (f * vfs_bpcluster pvp) (file_bytes pvp v xs) = file_bytes pvp v (drop f xs)"
proof -
  have "file_bytes pvp v xs = file_bytes pvp v (take f xs) @ file_bytes pvp v (drop f xs)"
    using file_bytes_append [of pvp v "take f xs" "drop f xs"] by simp
  moreover have "length (file_bytes pvp v (take f xs)) = f * vfs_bpcluster pvp"
    using length_file_bytes [of pvp v "take f xs", OF g len] f by simp
  ultimately show ?thesis by simp
qed

lemma block_piece:
  assumes g: "geo_ok pvp" and len: "\<And>s. length (v s) = DEV_BSIZE" and f: "off div vfs_bpcluster pvp < length xs"
    and n: "off mod vfs_bpcluster pvp + n \<le> vfs_bpcluster pvp"
  shows "take n (drop (off mod vfs_bpcluster pvp) (clus_bytes pvp v (xs ! (off div vfs_bpcluster pvp)))) = take n (drop off (file_bytes pvp v xs))"
proof -
  let ?f = "off div vfs_bpcluster pvp" and ?o = "off mod vfs_bpcluster pvp"
  have d: "drop ?f xs = xs ! ?f # drop (Suc ?f) xs" by (rule Cons_nth_drop_Suc [OF f, symmetric])
  have "drop off (file_bytes pvp v xs) = drop ?o (drop (?f * vfs_bpcluster pvp) (file_bytes pvp v xs))"
    by (simp add: drop_drop add.commute)
  also have "\<dots> = drop ?o (clus_bytes pvp v (xs ! ?f) @ file_bytes pvp v (drop (Suc ?f) xs))"
    using file_bytes_drop [of pvp v ?f xs, OF g len] f by (simp add: d) (simp add: file_bytes_def)
  finally show ?thesis using n length_clus_bytes [of pvp v, OF g len] by simp
qed

section \<open>Reading a block of the file\<close>

text \<open>
  The read-ahead takes the number of the next sector for a position in the file. It stays inside the file
  when clusters are single sectors of a disk of less than 4 gigabytes, and is not done at all when a cluster has
  more sectors and the sector read last is not the one before a cluster of the file.
\<close>

definition readahead_ok :: "dosfs_vfs \<Rightarrow> denode \<Rightarrow> nat list \<Rightarrow> bool" where
  "readahead_ok pvp dep xs \<longleftrightarrow> (spc pvp = 1 \<and> (vfs_firstcluster pvp + vfs_maxcluster pvp) * DEV_BSIZE < 2 ^ 32)
     \<or> (1 < spc pvp \<and> (\<forall>x \<in> set xs. uadd32 (de_lastr dep) 1 \<noteq> cntobn pvp x))"

definition same_but_lastr :: "denode \<Rightarrow> denode \<Rightarrow> bool" where
  "same_but_lastr p q \<longleftrightarrow> q = p\<lparr>de_fc := de_fc q, de_lastr := de_lastr q\<rparr>"

lemma same_but_lastr_simps [simp]: "same_but_lastr p p" "same_but_lastr p (fc_setcache q i a b) = same_but_lastr p q"
    "same_but_lastr p (q\<lparr>de_lastr := n\<rparr>) = same_but_lastr p q" "same_but_lastr (fc_setcache p i a b) q = same_but_lastr p q"
  by (cases p; cases q; auto simp: same_but_lastr_def fc_setcache_def)+

lemma same_but_lastr_trans: "same_but_lastr p q \<Longrightarrow> same_but_lastr q r \<Longrightarrow> same_but_lastr p r"
  by (cases p; cases q; cases r; simp add: same_but_lastr_def)

lemma same_but_lastr_de: "same_but_lastr p q \<Longrightarrow> de_de q = de_de p \<and> de_flag q = de_flag p"
  by (cases p; cases q; simp add: same_but_lastr_def)

lemma readahead_next:
  assumes g: "geo_ok pvp" and c: "CLUST_FIRST \<le> c" "c \<le> vfs_maxcluster pvp" and xs: "\<forall>x \<in> set xs. CLUST_FIRST \<le> x \<and> x \<le> vfs_maxcluster pvp"
    and ra: "readahead_ok pvp dep xs"
  shows "readahead_ok pvp (dep'\<lparr>de_lastr := cntobn pvp c\<rparr>) xs"
proof (cases "spc pvp = 1")
  case False
  then have s: "1 < spc pvp" using ra by (auto simp: readahead_ok_def)
  have "uadd32 (cntobn pvp c) 1 \<noteq> cntobn pvp x" if x: "x \<in> set xs" for x
  proof
    assume e: "uadd32 (cntobn pvp c) 1 = cntobn pvp x"
    have "cntobn pvp c + 1 < 2 ^ 32" using cntobn_geo(2) [OF g c] s by simp
    then have "Suc ((c - CLUST_FIRST) * spc pvp) = (x - CLUST_FIRST) * spc pvp"
      using e cntobn_geo(1) [OF g c] cntobn_geo(1) [OF g] xs x by (simp add: uadd32_def)
    then have "Suc ((c - CLUST_FIRST) * spc pvp) mod spc pvp = 0" by simp
    then show False using s by (simp add: mod_Suc split: if_splits)
  qed
  then show ?thesis using s by (simp add: readahead_ok_def)
qed (use ra in \<open>simp add: readahead_ok_def\<close>)

text \<open>A file at rest: its clusters, its size and its buffers.\<close>

definition plain_file :: "dosfs_vfs \<Rightarrow> (nat \<Rightarrow> u8 list) \<Rightarrow> nat set \<Rightarrow> denode \<Rightarrow> nat list \<Rightarrow> bool" where
  "plain_file pvp v H dep xs \<longleftrightarrow> file_ok pvp v dep xs \<and> de_Attributes dep AND ATTR_DIRECTORY = 0
     \<and> de_FileSize dep \<le> length xs * vfs_bpcluster pvp \<and> fatblks pvp \<inter> H = {} \<and> (\<forall>x \<in> set xs. clus_secs pvp x \<inter> H = {})"

lemma plain_fileD:
  assumes "plain_file pvp v H dep xs"
  shows "file_ok pvp v dep xs" and "de_Attributes dep AND ATTR_DIRECTORY = 0" and "de_FileSize dep \<le> length xs * vfs_bpcluster pvp"
    and "fatblks pvp \<inter> H = {}" and "x \<in> set xs \<Longrightarrow> clus_secs pvp x \<inter> H = {}"
    and "x \<in> set xs \<Longrightarrow> CLUST_FIRST \<le> x" and "x \<in> set xs \<Longrightarrow> x \<le> vfs_maxcluster pvp"
  using assms file_cluster [of pvp v dep xs x] by (auto simp: plain_file_def)

lemma file_at_len: "file_ok pvp v dep xs \<Longrightarrow> xs \<noteq> [] \<Longrightarrow> file_at pvp v (de_StartCluster dep) xs \<and> fc_ok dep xs \<and> length xs < 0xffff"
  by (simp add: file_ok_def file_at_def)

lemma file_ok_lastr [simp]: "file_ok pvp v (dep\<lparr>de_lastr := n\<rparr>) xs = file_ok pvp v dep xs"
  by (simp add: file_ok_def fc_ok_def)

lemma read_block_ok:
  assumes ok: "bio_ok io view held" and m: "mount_ok pvp" and g: "geo_ok pvp" and pf: "plain_file pvp (view d) (held d) dep xs"
    and x: "x \<in> set xs" and ra: "readahead_ok pvp dep xs"
  obtains (err) d' dep' e where "read_block io pvp (vfs_bpcluster pvp) d dep (cntobn pvp x) = Some (d', dep', Inl e)" and "dev_err io e"
      and "view d' = view d" and "held d' = held d" and "same_but_lastr dep dep'" and "file_ok pvp (view d) dep' xs"
  | (got) d' dep' lb where "read_block io pvp (vfs_bpcluster pvp) d dep (cntobn pvp x) = Some (d', dep', Inr lb)"
      and "view d' = view d" and "held d' = held d \<union> clus_secs pvp x" and "lbuf_at lb (cntobn pvp x) (spc pvp)"
      and "lgeterror io lb = 0 \<longrightarrow> lb_addr lb = clus_bytes pvp (view d) x"
      and "same_but_lastr dep dep'" and "file_ok pvp (view d) dep' xs" and "readahead_ok pvp dep' xs"
proof -
  let ?b = "cntobn pvp x" and ?n = "spc pvp"
  note pd = plain_fileD [OF pf]
  have fa: "file_at pvp (view d) (de_StartCluster dep) xs" "fc_ok dep xs" "length xs < 0xffff"
  proof -
    have "xs \<noteq> []" using x by auto
    then show "file_at pvp (view d) (de_StartCluster dep) xs" "fc_ok dep xs" "length xs < 0xffff" using file_at_len [OF pd(1)] by blast+
  qed
  have n: "?n \<le> MAXCLUSTBLOCKS" and bp: "vfs_bpcluster pvp = ?n * DEV_BSIZE" using g by (simp_all add: geo_ok_def)
  have rd: "readahead_ok pvp (dep'\<lparr>de_lastr := ?b\<rparr>) xs" for dep'
    by (rule readahead_next [OF g pd(6) [OF x] pd(7) [OF x] _ ra]) (use pd(6,7) in blast)
  show ?thesis
  proof (cases "uadd32 (de_lastr dep) 1 = ?b \<and> umul32 (uadd32 ?b 1) (vfs_bpcluster pvp) < de_FileSize dep")
    case False
    have fr: "{?b..<?b + ?n} \<inter> held d = {}" using pd(5) [OF x] by (simp add: clus_secs_def)
    obtain d' lb where l: "lbread io d ?b (vfs_bpcluster pvp) = Some (d', lb)" "view d' = view d" "held d' = held d \<union> {?b..<?b + ?n}"
      "lbuf_at lb ?b ?n" "lgeterror io lb = 0 \<longrightarrow> lb_addr lb = concat (map (view d) [?b..<?b + ?n])"
      using lbread_ok [OF ok n fr, folded bp] by (elim exE conjE) (rule that)
    show ?thesis
    proof (rule got [of d' "dep\<lparr>de_lastr := ?b\<rparr>" lb])
      show "read_block io pvp (vfs_bpcluster pvp) d dep ?b = Some (d', dep\<lparr>de_lastr := ?b\<rparr>, Inr lb)"
        using pd(2) False l(1) by (auto simp: read_block_def Let_def)
    qed (use l pd(1) rd in \<open>simp_all add: clus_secs_def clus_bytes_def\<close>)
  next
    case True
    have want: "True \<or> False" by simp
    show ?thesis
    proof (cases rule: pcbmap_cases [OF ok m pd(4) fa(1,2) want, where f = "uadd32 ?b 1", case_names e f eof])
      case (e d' er)
      show ?thesis
      proof (rule err [of d' dep er])
        show "read_block io pvp (vfs_bpcluster pvp) d dep ?b = Some (d', dep, Inl er)"
          using pd(2) True e(1) dev_err_pos [OF e(2)] by (simp add: read_block_def Let_def)
      qed (use e pd(1) in simp_all)
    next
      case (f d')
      let ?dep = "fc_setcache dep FC_LASTMAP (uadd32 ?b 1) (xs ! uadd32 ?b 1)"
      have fr: "{?b..<?b + ?n} \<inter> held d' = {}" using pd(5) [OF x] f(4) by (simp add: clus_secs_def)
      obtain d2 lb where l: "lbreada io d' ?b (cntobn pvp (xs ! uadd32 ?b 1)) (vfs_bpcluster pvp) = Some (d2, lb)" "view d2 = view d'"
        "held d2 = held d' \<union> {?b..<?b + ?n}" "lbuf_at lb ?b ?n" "lgeterror io lb = 0 \<longrightarrow> lb_addr lb = concat (map (view d') [?b..<?b + ?n])"
        using lbreada_ok [OF ok n fr, of "cntobn pvp (xs ! uadd32 ?b 1)", folded bp] by (elim exE conjE) (rule that)
      have fo: "file_ok pvp (view d) ?dep xs" by (rule fc_step [OF pd(1) m f(1) fa(3)])
      show ?thesis
      proof (rule got [of d2 "?dep\<lparr>de_lastr := ?b\<rparr>" lb])
        show "read_block io pvp (vfs_bpcluster pvp) d dep ?b = Some (d2, ?dep\<lparr>de_lastr := ?b\<rparr>, Inr lb)"
          using pd(2) True f(2) l(1) by (simp add: read_block_def Let_def)
      qed (use l f fo rd in \<open>simp_all add: clus_secs_def clus_bytes_def\<close>)
    next
      case (eof d')
      have s: "spc pvp = 1" "(vfs_firstcluster pvp + vfs_maxcluster pvp) * DEV_BSIZE < 2 ^ 32" using ra True x by (auto simp: readahead_ok_def)
      have bn: "?b + 1 \<le> vfs_firstcluster pvp + vfs_maxcluster pvp"
        using cntobn_geo(1) [OF g pd(6) [OF x] pd(7) [OF x]] pd(6,7) [OF x] s(1) by (simp add: CLUST_FIRST_def)
      then have "(?b + 1) * DEV_BSIZE \<le> (vfs_firstcluster pvp + vfs_maxcluster pvp) * DEV_BSIZE" by (rule mult_le_mono1)
      then have "(?b + 1) * DEV_BSIZE < 2 ^ 32" using s(2) by linarith
      moreover have "?b + 1 < 2 ^ 32" using cntobn_geo(2) [OF g pd(6) [OF x] pd(7) [OF x]] s(1) by simp
      ultimately have "(?b + 1) * vfs_bpcluster pvp < de_FileSize dep" "uadd32 ?b 1 = ?b + 1"
        using True s(1) bp by (simp_all add: umul32_def uadd32_def)
      then have "(?b + 1) * vfs_bpcluster pvp < length xs * vfs_bpcluster pvp" "length xs \<le> ?b + 1" using pd(3) eof(1) by simp_all
      then have "?b + 1 < length xs" "length xs \<le> ?b + 1" by (simp_all only: mult_less_cancel2)
      then show ?thesis by simp
    qed
  qed
qed

section \<open>The loop\<close>

lemma plain_file_keep:
  assumes "plain_file pvp v H dep xs" and "same_but_lastr dep dep'" and "file_ok pvp v dep' xs"
  shows "plain_file pvp v H dep' xs"
  using assms same_but_lastr_de [OF assms(2)] by (simp add: plain_file_def)

lemma take_chunk:
  "n \<le> r \<Longrightarrow> off + n \<le> s \<Longrightarrow> take r (drop off (take s fb)) = take n (drop off fb) @ take (r - n) (drop (off + n) (take s fb))"
proof -
  assume n: "n \<le> r" "off + n \<le> s"
  have "take r (drop off (take s fb)) = take n (drop off (take s fb)) @ take (r - n) (drop n (drop off (take s fb)))"
    using take_add [of n "r - n" "drop off (take s fb)"] n(1) by simp
  moreover have "take n (drop off (take s fb)) = take n (drop off fb)" using n(2) by (simp add: drop_take min_def)
  ultimately show ?thesis by (simp add: drop_drop add.commute)
qed

lemma file_diff:
  assumes "s < 2 ^ 31" and "off < 2 ^ 31"
  shows "slong (usub32 s off) = int s - int off"
proof (cases "off \<le> s")
  case True
  have "s - off \<le> s" by simp
  then have "s - off < 2 ^ 32" using assms(1) by simp
  then have "(s - off) mod 2 ^ 32 = s - off" by (rule mod_less)
  then show ?thesis using True assms(1) by (simp add: slong_def)
next
  case False
  then have e: "usub32 s off = s + 2 ^ 32 - off" by (simp add: usub32_def)
  obtain k where k: "off = s + k" using False by (metis le_add_diff_inverse nat_le_linear)
  then have k': "0 < k" "k < 2 ^ 31" using False assms by simp_all
  have e2: "s + 2 ^ 32 - off = 2 ^ 32 - k" using k k' by simp
  have "(2 ^ 32 - k) mod 2 ^ 32 = 2 ^ 32 - k" using k' by simp
  moreover have "\<not> 2 ^ 32 - k < (2 ^ 31 :: nat)" using k' by simp
  moreover have "int (2 ^ 32 - k) = 2 ^ 32 - int k" using k' by (simp add: of_nat_diff)
  ultimately show ?thesis unfolding e e2 slong_def using k by simp
qed

text \<open>What the loop has done when it ends, or the function returns from within it.\<close>

definition read_done :: "'u umove \<Rightarrow> 'd bio \<Rightarrow> ('u \<Rightarrow> u8 list) \<Rightarrow> u8 list \<Rightarrow> 'u uio \<Rightarrow> 'u uio \<Rightarrow> nat \<Rightarrow> bool" where
  "read_done um io got bs u u' e \<longleftrightarrow> (e = 0 \<longrightarrow> got (uio_user u') = got (uio_user u) @ take (uio_resid u) (drop (nat (uio_offset u)) bs))
     \<and> (e \<noteq> 0 \<longrightarrow> dev_err io e \<or> out_err um e)"

lemma chunk_size:
  assumes "off < s"
  shows "min (if int s - int off < int (min (b - i) r) then nat (int s - int off) else min (b - i) r) b = min (min (b - i) r) (s - off)"
proof -
  have e: "int s - int off = int (s - off)" using assms by (simp add: of_nat_diff less_imp_le)
  show ?thesis unfolding e of_nat_less_iff nat_int by (auto simp: min_def)
qed

text \<open>One round, by its outcomes.\<close>

lemma read_round:
  assumes g: "geo_ok pvp" and off: "off = nat (uio_offset u)" "off < 2 ^ 31" and s: "de_FileSize dep < 2 ^ 31"
    and n: "n = min (min (vfs_bpcluster pvp - off mod vfs_bpcluster pvp) (uio_resid u)) (de_FileSize dep - off)"
  shows "de_FileSize dep \<le> off \<Longrightarrow> read_loop um io pvp (vfs_bpcluster pvp) (Suc fuel) d dep u = Some (d, dep, u, Inl 0)"
    and "off < de_FileSize dep \<Longrightarrow> pcbmap io pvp d dep (off div vfs_bpcluster pvp) True False = Some (d1, dep1, e, b, w) \<Longrightarrow> e \<noteq> 0 \<Longrightarrow>
      read_loop um io pvp (vfs_bpcluster pvp) (Suc fuel) d dep u = Some (d1, dep1, u, Inl e)"
    and "off < de_FileSize dep \<Longrightarrow> pcbmap io pvp d dep (off div vfs_bpcluster pvp) True False = Some (d1, dep1, 0, Some bn, w) \<Longrightarrow>
      read_block io pvp (vfs_bpcluster pvp) d1 dep1 bn = Some (d2, dep2, rd) \<Longrightarrow>
      read_loop um io pvp (vfs_bpcluster pvp) (Suc fuel) d dep u = (case rd of Inl e \<Rightarrow> Some (d2, dep2, u, Inl e)
        | Inr bp \<Rightarrow> if lgeterror io bp \<noteq> 0 then Some (lbrelse io d2 bp, dep2, u, Inl (lgeterror io bp))
            else if length (lb_addr bp) < off mod vfs_bpcluster pvp + n then None
            else let (u', e) = um_out um u (take n (drop (off mod vfs_bpcluster pvp) (lb_addr bp)))
                 in if e = 0 \<and> 0 < uio_resid u' \<and> n \<noteq> 0 then read_loop um io pvp (vfs_bpcluster pvp) fuel (lbrelse io d2 bp) dep2 u'
                    else Some (lbrelse io d2 bp, dep2, u', Inr e))"
proof -
  let ?D = "slong (usub32 (de_FileSize dep) off)"
  have D: "?D = int (de_FileSize dep) - int off" by (rule file_diff [OF s off(2)])
  note un = read_loop.simps(2) [of um io pvp "vfs_bpcluster pvp" fuel d dep u, folded off(1), unfolded Let_def, unfolded geo_bpc(6,7) [OF g]]
  show "read_loop um io pvp (vfs_bpcluster pvp) (Suc fuel) d dep u = Some (d, dep, u, Inl 0)" if "de_FileSize dep \<le> off"
  proof -
    have "int (de_FileSize dep) \<le> int off" using that by (simp only: of_nat_le_iff)
    then have "?D \<le> 0" unfolding D by linarith
    then show ?thesis unfolding un by (simp only: if_P)
  qed
  assume lt: "off < de_FileSize dep"
  have "int off < int (de_FileSize dep)" using lt by (simp only: of_nat_less_iff)
  then have nd: "\<not> ?D \<le> 0" unfolding D by linarith
  show "read_loop um io pvp (vfs_bpcluster pvp) (Suc fuel) d dep u = Some (d1, dep1, u, Inl e)"
    if "pcbmap io pvp d dep (off div vfs_bpcluster pvp) True False = Some (d1, dep1, e, b, w)" "e \<noteq> 0"
    unfolding un by (simp only: if_not_P [OF nd] that(1) Option.bind.bind_lunit prod.case if_P [OF that(2)])
  have le: "off mod vfs_bpcluster pvp \<le> vfs_bpcluster pvp" using geo_bpc(1) [OF g] by (simp add: less_imp_le)
  have N: "min (if ?D < int (min (usub32 (vfs_bpcluster pvp) (off mod vfs_bpcluster pvp)) (uio_resid u)) then nat ?D
      else min (usub32 (vfs_bpcluster pvp) (off mod vfs_bpcluster pvp)) (uio_resid u)) (vfs_bpcluster pvp) = n"
    unfolding D usub32_le [OF le] n by (rule chunk_size [OF lt])
  have z: "\<not> (0 :: nat) \<noteq> 0" by simp
  show "read_loop um io pvp (vfs_bpcluster pvp) (Suc fuel) d dep u = (case rd of Inl e \<Rightarrow> Some (d2, dep2, u, Inl e)
        | Inr bp \<Rightarrow> if lgeterror io bp \<noteq> 0 then Some (lbrelse io d2 bp, dep2, u, Inl (lgeterror io bp))
            else if length (lb_addr bp) < off mod vfs_bpcluster pvp + n then None
            else let (u', e) = um_out um u (take n (drop (off mod vfs_bpcluster pvp) (lb_addr bp)))
                 in if e = 0 \<and> 0 < uio_resid u' \<and> n \<noteq> 0 then read_loop um io pvp (vfs_bpcluster pvp) fuel (lbrelse io d2 bp) dep2 u'
                    else Some (lbrelse io d2 bp, dep2, u', Inr e))"
    if "pcbmap io pvp d dep (off div vfs_bpcluster pvp) True False = Some (d1, dep1, 0, Some bn, w)"
      "read_block io pvp (vfs_bpcluster pvp) d1 dep1 bn = Some (d2, dep2, rd)"
    unfolding un by (simp only: if_not_P [OF nd] that Option.bind.bind_lunit prod.case if_not_P [OF z] N Let_def)
qed

lemma read_loop_ok:
  assumes ok: "bio_ok io view held" and m: "mount_ok pvp" and g: "geo_ok pvp" and um: "um_ok um got src"
  shows "plain_file pvp (view d) (held d) dep xs \<Longrightarrow> readahead_ok pvp dep xs \<Longrightarrow> 0 < uio_resid u \<Longrightarrow> 0 \<le> uio_offset u \<Longrightarrow>
    uio_offset u < 2 ^ 31 \<Longrightarrow> de_FileSize dep < 2 ^ 31 \<Longrightarrow> uio_resid u < fuel \<Longrightarrow>
    \<exists>d' dep' u' r. read_loop um io pvp (vfs_bpcluster pvp) fuel d dep u = Some (d', dep', u', r)
      \<and> view d' = view d \<and> held d' = held d \<and> same_but_lastr dep dep' \<and> file_ok pvp (view d) dep' xs
      \<and> read_done um io got (take (de_FileSize dep) (file_bytes pvp (view d) xs)) u u' (case r of Inl e \<Rightarrow> e | Inr e \<Rightarrow> e)"
proof (induction fuel arbitrary: d dep u)
  case (Suc fuel)
  note pf = Suc.prems(1) and ra = Suc.prems(2) and prems = Suc.prems(3-7)
  note pd = plain_fileD [OF pf]
  define off where "off = nat (uio_offset u)"
  let ?bpc = "vfs_bpcluster pvp" and ?s = "de_FileSize dep" and ?fb = "file_bytes pvp (view d) xs"
  define n where "n = min (min (?bpc - off mod ?bpc) (uio_resid u)) (?s - off)"
  have bpc: "0 < ?bpc" by (rule geo_bpc(1) [OF g])
  have off31: "off < 2 ^ 31" using prems(2,3) by (simp add: off_def)
  have vl: "length (view d s) = DEV_BSIZE" for s using ok by (simp add: bio_ok_def)
  note rnd = read_round [where um = um and io = io and fuel = fuel and d = d, OF g off_def off31 prems(4) n_def]
  show ?case
  proof (cases "?s \<le> off")
    case True
    show ?thesis by (intro exI conjI, rule rnd(1) [OF True]) (use True pd(1) in \<open>simp_all add: read_done_def off_def\<close>)
  next
    case False
    then have lt: "off < ?s" by simp
    let ?f = "off div ?bpc" and ?on = "off mod ?bpc"
    have f: "?f < length xs" using lt pd(3) bpc by (intro less_mult_imp_div_less) simp
    then have xm: "xs ! ?f \<in> set xs" and ne: "xs \<noteq> []" by auto
    note fa = file_at_len [OF pd(1) ne]
    have on: "?on < ?bpc" using bpc by simp
    have n: "0 < n" "n \<le> uio_resid u" "off + n \<le> ?s" "?on + n \<le> ?bpc" using prems(1) on lt by (auto simp: n_def)
    have want: "True \<or> False" by simp
    show ?thesis
    proof (cases rule: pcbmap_cases [OF ok m pd(4) conjunct1 [OF fa] conjunct1 [OF conjunct2 [OF fa]] want, where f = ?f, case_names e f eof])
      case (e d' er)
      note nz = dev_err_pos [OF e(2)]
      show ?thesis by (intro exI conjI, rule rnd(2) [OF lt e(1)]) (use e pd(1) nz in \<open>simp_all add: read_done_def\<close>)
    next
      case (eof d')
      then show ?thesis using f by simp
    next
      case pm: (f d1)
      let ?dep = "fc_setcache dep FC_LASTMAP ?f (xs ! ?f)"
      have pf1: "plain_file pvp (view d1) (held d1) ?dep xs"
        using plain_file_keep [OF pf _ fc_step [OF pd(1) m f]] fa pm(3,4) by simp
      have ra1: "readahead_ok pvp ?dep xs" using ra by (simp add: readahead_ok_def fc_setcache_def)
      note pm2 = pm(2) [unfolded if_True if_False]
      show ?thesis
      proof (cases rule: read_block_ok [OF ok m g pf1 xm ra1, case_names e got])
        case (e d2 dep2 er)
        note run = rnd(3) [OF lt pm2 e(1), unfolded sum.case]
        show ?thesis by (intro exI conjI, rule run) (use e pm(3,4) dev_err_pos [OF e(2)] in \<open>simp_all add: read_done_def\<close>)
      next
        case (got d2 dep2 lb)
        have h: "{cntobn pvp (xs ! ?f)..<cntobn pvp (xs ! ?f) + spc pvp} \<subseteq> held d2" using got(3) by (simp add: clus_secs_def)
        have rel: "view (lbrelse io d2 lb) = view d" "held (lbrelse io d2 lb) = held d"
          using lbrelse_ok [OF ok got(4) h] got(2,3) pm(3,4) pd(5) [OF xm] by (auto simp: clus_secs_def)
        note run = rnd(3) [OF lt pm2 got(1), unfolded sum.case]
        have sb: "same_but_lastr dep dep2" using got(6) by (simp add: same_but_lastr_trans)
        show ?thesis
        proof (cases "lgeterror io lb = 0")
          case False
          note run' = run [unfolded if_P [OF False]]
          show ?thesis by (intro exI conjI, rule run') (use rel sb got(7) pm(3) False in \<open>simp_all add: read_done_def\<close>)
        next
          case True
          have la: "lb_addr lb = clus_bytes pvp (view d) (xs ! ?f)" using got(5) True pm(3) by simp
          have ll: "length (lb_addr lb) = ?bpc" using length_clus_bytes [of pvp "view d", OF g vl] la by simp
          define bs where "bs = take n (drop ?on (lb_addr lb))"
          have bs: "bs = take n (drop off ?fb)" unfolding bs_def la by (rule block_piece [OF g vl f n(4)])
          have lbs: "length bs = n" using ll n(4) by (simp add: bs_def)
          obtain u' e where uo: "um_out um u bs = (u', e)" by (cases "um_out um u bs")
          have nl: "\<not> length (lb_addr lb) < ?on + n" using ll n(4) by simp
          have nt: "\<not> lgeterror io lb \<noteq> 0" using True by simp
          note run' = run [unfolded if_not_P [OF nt] if_not_P [OF nl], folded bs_def, unfolded uo Let_def prod.case]
          show ?thesis
          proof (cases "e = 0 \<and> 0 < uio_resid u' \<and> n \<noteq> 0")
            case False
            note run2 = run' [unfolded if_not_P [OF False]]
            have dn: "read_done um io got (take ?s ?fb) u u' e"
            proof (cases "e = 0")
              case True
              note mv = um_outD [OF um uo [unfolded True], unfolded lbs, OF n(2)]
              have "uio_resid u = n" using False True mv(3) n(1,2) by simp
              then have "take (uio_resid u) (drop off (take ?s ?fb)) = bs" using n(3) bs by (simp add: drop_take min_def)
              then show ?thesis using mv(1) True by (simp add: read_done_def off_def)
            next
              case False
              have "e = snd (um_out um u bs)" using uo by simp
              then show ?thesis using False by (auto simp: read_done_def out_err_def)
            qed
            show ?thesis by (intro exI conjI, rule run2) (use rel sb got(7) pm(3) dn in simp_all)
          next
            case c: True
            note mv = um_outD [OF um uo [unfolded conjunct1 [OF c]], unfolded lbs, OF n(2)]
            have sz: "de_FileSize dep2 = ?s" using same_but_lastr_de [OF sb] by simp
            have pf2: "plain_file pvp (view (lbrelse io d2 lb)) (held (lbrelse io d2 lb)) dep2 xs"
              unfolding rel by (rule plain_file_keep [OF pf sb]) (use got(7) pm(3) in simp)
            have o2: "nat (uio_offset u') = off + n" using mv(2) prems(2) by (simp add: off_def nat_add_distrib)
            have "uio_offset u' = int (off + n)" using mv(2) prems(2) by (simp add: off_def)
            moreover have "off + n < 2 ^ 31" using n(3) prems(4) by (rule le_less_trans)
            then have "int (off + n) < int (2 ^ 31)" by (simp only: of_nat_less_iff)
            ultimately have o3: "0 \<le> uio_offset u'" "uio_offset u' < 2 ^ 31" by simp_all
            have f2: "uio_resid u' < fuel" using mv(3) n(1,2) prems(5) by linarith
            note ih = Suc.IH [OF pf2 got(8) conjunct1 [OF conjunct2 [OF c]] o3 prems(4) [folded sz] f2]
            from ih obtain d3 dep3 u3 r3 where i: "read_loop um io pvp ?bpc fuel (lbrelse io d2 lb) dep2 u' = Some (d3, dep3, u3, r3)"
              "view d3 = view d" "held d3 = held d" "same_but_lastr dep2 dep3" "file_ok pvp (view d) dep3 xs"
              "read_done um io got (take ?s ?fb) u' u3 (case r3 of Inl e \<Rightarrow> e | Inr e \<Rightarrow> e)"
              unfolding rel sz by blast
            have dn: "read_done um io got (take ?s ?fb) u u3 (case r3 of Inl e \<Rightarrow> e | Inr e \<Rightarrow> e)"
              using i(6) take_chunk [OF n(2,3), of ?fb] mv(1,3) bs o2 by (simp add: read_done_def off_def)
            show ?thesis by (intro exI conjI, unfold run' if_P [OF c], rule i(1)) (use i(2-5) sb dn in \<open>simp_all add: same_but_lastr_trans\<close>)
          qed
        qed
      qed
    qed
  qed
qed simp

section \<open>Property\<close>

lemma DETIMES_file [simp]:
  assumes "DETIMES cv dep now = (cv', dep')"
  shows "file_ok pvp v dep' xs = file_ok pvp v dep xs" and "de_FileSize dep' = de_FileSize dep"
  using assms by (auto simp: DETIMES_def Let_def file_ok_def fc_ok_def split: if_splits prod.splits)

lemma dosfs_read_ok:
  assumes ok: "bio_ok io view held" and m: "mount_ok pvp" and g: "geo_ok pvp" and um: "um_ok um got src"
    and pf: "plain_file pvp (view d) (held d) dep xs" and ra: "readahead_ok pvp dep xs"
    and off: "0 \<le> uio_offset u" "uio_offset u < 2 ^ 31" and size: "de_FileSize dep < 2 ^ 31" and fuel: "uio_resid u < fuel"
  shows "\<exists>d' cv' dep' u' e. dosfs_read um io now pvp fuel d cv dep u = Some (d', cv', dep', u', e)
    \<and> view d' = view d \<and> held d' = held d \<and> file_ok pvp (view d) dep' xs \<and> de_FileSize dep' = de_FileSize dep
    \<and> (if e = 0 then got (uio_user u') = got (uio_user u) @ take (uio_resid u) (drop (nat (uio_offset u)) (take (de_FileSize dep) (file_bytes pvp (view d) xs)))
        else dev_err io e \<or> out_err um e)"
proof (cases "uio_resid u = 0")
  case True
  show ?thesis unfolding dosfs_read_def if_P [OF True] by (intro exI conjI, rule refl) (use True pf in \<open>simp_all add: plain_file_def\<close>)
next
  case False
  have nd: "\<not> isadir_root dep" using pf by (simp add: isadir_root_def plain_file_def)
  have neg: "\<not> uio_offset u < 0" using off(1) by simp
  have r0: "0 < uio_resid u" using False by simp
  obtain d1 dep1 u1 r where l: "read_loop um io pvp (vfs_bpcluster pvp) fuel d dep u = Some (d1, dep1, u1, r)"
      "view d1 = view d" "held d1 = held d" "same_but_lastr dep dep1" "file_ok pvp (view d) dep1 xs"
      "read_done um io got (take (de_FileSize dep) (file_bytes pvp (view d) xs)) u u1 (case r of Inl e \<Rightarrow> e | Inr e \<Rightarrow> e)"
    using read_loop_ok [OF ok m g um pf ra r0 off size fuel] by (elim exE conjE) (rule that)
  have sz: "de_FileSize dep1 = de_FileSize dep" using same_but_lastr_de [OF l(4)] by simp
  note run = dosfs_read_def [of um io now pvp fuel d cv dep u, unfolded if_not_P [OF False] if_not_P [OF neg]]
  show ?thesis
  proof (cases r)
    case (Inl e)
    have "dosfs_read um io now pvp fuel d cv dep u = Some (d1, cv, dep1, u1, e)" unfolding run by (simp add: nd l(1) Inl)
    then show ?thesis by (intro exI conjI) (assumption, use l(2,3,5,6) sz Inl in \<open>simp_all add: read_done_def\<close>)
  next
    case (Inr e)
    obtain cv2 dep2 where t: "DETIMES cv dep1 now = (cv2, dep2)" by (cases "DETIMES cv dep1 now")
    have "dosfs_read um io now pvp fuel d cv dep u = Some (d1, cv2, dep2, u1, e)" unfolding run by (simp add: nd l(1) Inr t)
    then show ?thesis by (intro exI conjI) (assumption, use l(2,3,5,6) sz Inr DETIMES_file [OF t] in \<open>simp_all add: read_done_def\<close>)
  qed
qed

text \<open>C36: Reading a file is taking a piece of its bytes. For a file that is not a directory, of at most
  \<open>2 ^ 31\<close> bytes, whose read-ahead stays inside it, the process receives exactly the bytes from the offset
  up to the wanted count or the end of the file, whatever the clusters they lie in, and a number other than 0 is that of a failed read of the device or of
  \<open>uiomove\<close>; as many rounds as bytes are enough. Nothing on the device changes, no buffer stays locked, and
  the file keeps its clusters and its size.\<close>

theorem dosfs_reads:
  assumes ok: "bio_ok io view held" and m: "mount_ok pvp" and g: "geo_ok pvp" and um: "um_ok um got src"
    and pf: "plain_file pvp (view d) (held d) dep xs" and ra: "readahead_ok pvp dep xs"
    and off: "0 \<le> uio_offset u" "uio_offset u < 2 ^ 31" and size: "de_FileSize dep < 2 ^ 31" and fuel: "uio_resid u < fuel"
  shows "\<exists>d' cv' dep' u' e. dosfs_read um io now pvp fuel d cv dep u = Some (d', cv', dep', u', e)
    \<and> view d' = view d \<and> held d' = held d \<and> file_ok pvp (view d) dep' xs \<and> de_FileSize dep' = de_FileSize dep
    \<and> (if e = 0 then got (uio_user u') = got (uio_user u) @ take (uio_resid u) (drop (nat (uio_offset u)) (take (de_FileSize dep) (file_bytes pvp (view d) xs)))
        else dev_err io e \<or> out_err um e)"
  by (rule dosfs_read_ok [OF assms])

text \<open>A process of the witnesses: what it has received, and what it has still to give.\<close>

definition demo_um :: "(u8 list \<times> u8 list) umove" where
  "demo_um = \<lparr>um_out = (\<lambda>u bs. (u\<lparr>uio_offset := uio_offset u + int (length bs), uio_resid := uio_resid u - length bs,
       uio_user := (fst (uio_user u) @ bs, snd (uio_user u))\<rparr>, 0)),
     um_in = (\<lambda>u n. if n \<le> length (snd (uio_user u))
       then (u\<lparr>uio_offset := uio_offset u + int n, uio_resid := uio_resid u - n, uio_user := (fst (uio_user u), drop n (snd (uio_user u)))\<rparr>,
         take n (snd (uio_user u)), 0) else (u, [], 14))\<rparr>"

lemma demo_um_ok: "um_ok demo_um fst snd"
  by (auto simp: um_ok_def demo_um_def split: if_splits)

lemma demo_um_err: "\<not> out_err demo_um e"
  by (auto simp: out_err_def demo_um_def)

theorem dosfs_reads_witness:
  "\<exists>d pvp d' cv' dep' u'. dosfs_read demo_um good_io 0 pvp 5 d conv_init demo_open \<lparr>uio_offset = 998, uio_resid = 4, uio_limit = 0, uio_user = ([], [])\<rparr>
      = Some (d', cv', dep', u', 0)
    \<and> fst (uio_user u') = take 2 (drop 998 (clus_bytes pvp (ram_view d) 2))"
proof -
  obtain d pvp where e: "vol_ok pvp (ram_view d)" "geo_ok pvp" "ram_heldset d = {}"
      "file_ok pvp (ram_view d) demo_open [2]" "same_fs demo_fs pvp" by (rule demo_one_file)
  have m: "mount_ok pvp" using e(1) by (simp add: vol_ok_def)
  have sz: "de_FileSize demo_open = 1000" by (simp add: demo_open_def)
  have bpc: "vfs_bpcluster pvp = 1024" using same_fs_file(4) [OF e(5)] by (simp add: demo_fs_def)
  have pf: "plain_file pvp (ram_view d) (ram_heldset d) demo_open [2]"
    using e(3,4) bpc by (simp add: plain_file_def sz) (simp add: demo_open_def)
  have s: "spc pvp = 2" using e(2) bpc by (simp add: geo_ok_def DEV_BSIZE_def)
  have "de_lastr demo_open = 0" by (simp add: demo_open_def demo_file_def)
  moreover have "cntobn pvp 2 = vfs_firstcluster pvp" using same_fs_fields [OF e(5)] by (simp add: cntobn_def CLUST_FIRST_def uadd32_def demo_fs_def)
  ultimately have ra: "readahead_ok pvp demo_open [2]"
    using same_fs_fields [OF e(5)] s by (simp add: readahead_ok_def uadd32_def demo_fs_def)
  let ?u = "\<lparr>uio_offset = 998, uio_resid = 4, uio_limit = 0, uio_user = ([] :: u8 list, [] :: u8 list)\<rparr>"
  have p: "0 \<le> uio_offset ?u" "uio_offset ?u < 2 ^ 31" "de_FileSize demo_open < 2 ^ 31" "uio_resid ?u < 5"
    by (simp_all add: sz)
  have g: "\<forall>lb. lgeterror good_io lb = 0" by (simp add: good_err)
  from dosfs_reads [OF good_io_ok m e(2) demo_um_ok pf ra p, of 0 conv_init] show ?thesis
  proof (elim exE conjE, goal_cases)
    case (1 d' cv' dep' u' er)
    have "er = 0" using 1(6) no_dev_err [OF g] demo_um_err by (auto split: if_splits)
    moreover have "min (4::nat) 2 = 2" by simp
    ultimately show ?case using 1(1,6) by (intro exI conjI) (simp_all add: sz file_bytes_def drop_take)
  qed
qed

end
