(* ===== verification/WriteProps.thy ===== *)
theory WriteProps
  imports ReadProps
begin

text \<open>Writing a file: the bytes of the process are laid over those of the file, which grows by free clusters.\<close>

section \<open>Extending leaves the rest of the entry\<close>

definition same_but_chain :: "denode \<Rightarrow> denode \<Rightarrow> bool" where
  "same_but_chain p q \<longleftrightarrow> de_FileSize q = de_FileSize p \<and> de_Attributes q = de_Attributes p \<and> de_lastr q = de_lastr p
     \<and> de_vroot q = de_vroot p \<and> de_dirclust q = de_dirclust p \<and> de_diroffset q = de_diroffset p \<and> de_flag q = de_flag p"

lemma same_but_chain_fc [simp]: "same_but_chain p p" "same_but_chain p (fc_setcache q i a b) = same_but_chain p q"
    "same_but_chain p (q\<lparr>de_de := (de_de q)\<lparr>deStartCluster := s\<rparr>\<rparr>) = same_but_chain p q"
  by (simp_all add: same_but_chain_def fc_setcache_def)

lemma same_but_chain_trans: "same_but_chain p q \<Longrightarrow> same_but_chain q r \<Longrightarrow> same_but_chain p r"
  by (simp add: same_but_chain_def)

lemma pcbmap_same: "pcbmap io pvp d dep f a b = Some (d', dep', r) \<Longrightarrow> same_but_chain dep dep'"
  unfolding pcbmap_def
  by (auto simp: Let_def split: if_splits sum.splits Option.bind_splits prod.splits)

lemma ext_last_same: "ext_last io pvp d dep = Some (d', dep', r) \<Longrightarrow> same_but_chain dep dep'"
  unfolding ext_last_def
  by (auto dest!: pcbmap_same split: if_splits Option.bind_splits prod.splits)

lemma ext_chain_same: "ext_chain io pvp d dep c = Some (d', pvp', dep', r) \<Longrightarrow> same_but_chain dep dep'"
  unfolding ext_chain_def
  by (auto split: if_splits Option.bind_splits prod.splits)

lemma extendfile_same:
  assumes "extendfile io pvp d dep a b = Some (d', pvp', dep', r)"
  shows "same_but_chain dep dep'"
  using assms unfolding extendfile_def
  by (auto simp: Let_def dest!: ext_last_same ext_chain_same elim!: same_but_chain_trans
      split: if_splits option.splits Option.bind_splits prod.splits)

lemma same_but_chainD:
  assumes "same_but_chain p q"
  shows "de_FileSize q = de_FileSize p" and "de_Attributes q = de_Attributes p" and "de_lastr q = de_lastr p"
    and "de_vroot q = de_vroot p" and "de_dirclust q = de_dirclust p" and "de_diroffset q = de_diroffset p"
    and "de_flag q = de_flag p"
  using assms by (simp_all add: same_but_chain_def)

section \<open>Laying bytes over bytes\<close>

lemma put_bytes_nil [simp]: "i \<le> length xs \<Longrightarrow> put_bytes i [] xs = xs"
  by (simp add: put_bytes_def)

lemma put_bytes_put: "i \<le> length xs \<Longrightarrow> put_bytes (i + length as) bs (put_bytes i as xs) = put_bytes i (as @ bs) xs"
  by (simp add: put_bytes_def ac_simps)

lemma length_put: "i \<le> length xs \<Longrightarrow> length (put_bytes i bs xs) = max (length xs) (i + length bs)"
  by (simp add: put_bytes_def max_def)

lemma take_put:
  assumes "i \<le> k" and "i + length bs \<le> length xs" and "k \<le> length xs"
  shows "take (max k (i + length bs)) (put_bytes i bs xs) = put_bytes i bs (take k xs)"
proof (rule nth_equalityI)
  have l: "length (put_bytes i bs xs) = length xs" by (rule length_put_bytes [OF assms(2)])
  show "length (take (max k (i + length bs)) (put_bytes i bs xs)) = length (put_bytes i bs (take k xs))"
    using assms l length_put [of i "take k xs" bs] by simp
  fix j assume "j < length (take (max k (i + length bs)) (put_bytes i bs xs))"
  then have j: "j < k \<or> j < i + length bs" "j < length xs" using assms l by auto
  then have "take (max k (i + length bs)) (put_bytes i bs xs) ! j = put_bytes i bs xs ! j" by auto
  also have "\<dots> = put_bytes i bs (take k xs) ! j"
  proof (cases "i + length bs \<le> j")
    case True
    then have jk: "j < k" "i + length bs \<le> length (take k xs)" using j assms by auto
    then have "drop (i + length bs) (take k xs) ! (j - (i + length bs)) = take k xs ! j" using True by (simp only: nth_drop) simp
    then show ?thesis using True jk assms j by (simp add: put_bytes_def nth_append min_def)
  qed (use assms j in \<open>auto simp: put_bytes_def nth_append min_def\<close>)
  finally show "take (max k (i + length bs)) (put_bytes i bs xs) ! j = put_bytes i bs (take k xs) ! j" .
qed

lemma file_bytes_store:
  assumes g: "geo_ok pvp" and len: "\<And>s. length (v s) = DEV_BSIZE" and f: "f < length xs"
    and Z: "clus_bytes pvp v' (xs ! f) = put_bytes p bs (clus_bytes pvp v (xs ! f))" and p: "p + length bs \<le> vfs_bpcluster pvp"
    and rest: "\<And>j. j < length xs \<Longrightarrow> j \<noteq> f \<Longrightarrow> clus_bytes pvp v' (xs ! j) = clus_bytes pvp v (xs ! j)"
  shows "file_bytes pvp v' xs = put_bytes (f * vfs_bpcluster pvp + p) bs (file_bytes pvp v xs)"
proof -
  let ?A = "file_bytes pvp v (take f xs)" and ?B = "file_bytes pvp v (drop (Suc f) xs)" and ?c = "clus_bytes pvp v (xs ! f)"
  have e: "xs = take f xs @ xs ! f # drop (Suc f) xs" by (rule id_take_nth_drop [OF f])
  have "map (clus_bytes pvp v') (take f xs) = map (clus_bytes pvp v) (take f xs)"
    using rest f by (intro nth_equalityI) auto
  then have a: "file_bytes pvp v' (take f xs) = ?A" by (simp only: file_bytes_def)
  have "map (clus_bytes pvp v') (drop (Suc f) xs) = map (clus_bytes pvp v) (drop (Suc f) xs)"
    using rest f by (intro nth_equalityI) auto
  then have b: "file_bytes pvp v' (drop (Suc f) xs) = ?B" by (simp only: file_bytes_def)
  have c: "file_bytes pvp w (y # ys) = clus_bytes pvp w y @ file_bytes pvp w ys" for w y ys by (simp add: file_bytes_def)
  have l: "length ?A = f * vfs_bpcluster pvp" using length_file_bytes [of pvp v "take f xs", OF g len] f by simp
  have lc: "length ?c = vfs_bpcluster pvp" by (rule length_clus_bytes [of pvp v, OF g len])
  have x: "file_bytes pvp v xs = ?A @ ?c @ ?B" by (subst e, simp only: file_bytes_append c)
  have y: "file_bytes pvp v' xs = ?A @ put_bytes p bs ?c @ ?B" by (subst e, simp only: file_bytes_append c a b Z)
  show ?thesis unfolding x y using p lc by (simp add: put_bytes_def l)
qed

section \<open>A file written\<close>

text \<open>
  \<open>written\<close>: the bytes \<open>bs\<close> laid over the file at \<open>off\<close>. The file has its old clusters and the new ones
  \<open>ys\<close>, exactly as many as its size needs; nothing else on the device has changed.
\<close>

definition written :: "dosfs_vfs \<Rightarrow> (nat \<Rightarrow> u8 list) \<Rightarrow> denode \<Rightarrow> nat list \<Rightarrow> nat \<Rightarrow> u8 list
    \<Rightarrow> dosfs_vfs \<Rightarrow> (nat \<Rightarrow> u8 list) \<Rightarrow> denode \<Rightarrow> nat list \<Rightarrow> bool" where
  "written pvp v dep xs off bs pvp' v' dep' ys \<longleftrightarrow>
     vol_ok pvp' v' \<and> same_fs pvp pvp' \<and> file_ok pvp' v' dep' (xs @ ys)
     \<and> de_FileSize dep' = max (de_FileSize dep) (off + length bs)
     \<and> length (xs @ ys) = nclus pvp (de_FileSize dep')
     \<and> take (de_FileSize dep') (file_bytes pvp v' (xs @ ys)) = put_bytes off bs (take (de_FileSize dep) (file_bytes pvp v xs))
     \<and> set ys \<subseteq> free_set pvp v \<and> free_set pvp' v' = free_set pvp v - set ys
     \<and> (\<forall>x \<le> vfs_maxcluster pvp. x \<notin> set (xs @ ys) \<longrightarrow> fat_at pvp' v' x = fat_at pvp v x)
     \<and> (\<forall>s. s \<notin> fatblks pvp \<and> (\<forall>x \<in> set (xs @ ys). s \<notin> clus_secs pvp x) \<longrightarrow> v' s = v s)
     \<and> de_vroot dep' = de_vroot dep \<and> de_Attributes dep' = de_Attributes dep \<and> de_lastr dep' = de_lastr dep"

lemma same_fs_bytes:
  assumes "same_fs p q"
  shows "clus_secs q = clus_secs p" and "clus_bytes q = clus_bytes p" and "file_bytes q = file_bytes p" and "nclus q = nclus p"
    and "fatblks q = fatblks p" and "vfs_maxcluster q = vfs_maxcluster p" and "FAT12 q = FAT12 p"
proof -
  have q: "spc q = spc p" using same_fs_fields [OF assms] by simp
  show "clus_secs q = clus_secs p" "clus_bytes q = clus_bytes p" "nclus q = nclus p"
    using same_fs_file(3,4) [OF assms] q by (intro ext, simp add: clus_secs_def clus_bytes_def nclus_def)+
  then show "file_bytes q = file_bytes p" by (intro ext) (simp add: file_bytes_def)
qed (simp_all add: same_fs_geo [OF assms])

lemma writtenD:
  assumes "written pvp v dep xs off bs pvp' v' dep' ys"
  shows "vol_ok pvp' v'" and "same_fs pvp pvp'" and "file_ok pvp' v' dep' (xs @ ys)"
    and "de_FileSize dep' = max (de_FileSize dep) (off + length bs)" and "length (xs @ ys) = nclus pvp (de_FileSize dep')"
    and "take (de_FileSize dep') (file_bytes pvp v' (xs @ ys)) = put_bytes off bs (take (de_FileSize dep) (file_bytes pvp v xs))"
    and "set ys \<subseteq> free_set pvp v" and "free_set pvp' v' = free_set pvp v - set ys"
    and "x \<le> vfs_maxcluster pvp \<Longrightarrow> x \<notin> set (xs @ ys) \<Longrightarrow> fat_at pvp' v' x = fat_at pvp v x"
    and "s \<notin> fatblks pvp \<Longrightarrow> \<forall>x \<in> set (xs @ ys). s \<notin> clus_secs pvp x \<Longrightarrow> v' s = v s"
    and "de_vroot dep' = de_vroot dep" and "de_Attributes dep' = de_Attributes dep" and "de_lastr dep' = de_lastr dep"
  using assms unfolding written_def by blast+

lemma written_trans:
  assumes a: "written pvp v dep xs off as p1 v1 dep1 ys" and b: "written p1 v1 dep1 (xs @ ys) (off + length as) bs p2 v2 dep2 zs"
    and off: "off \<le> length (take (de_FileSize dep) (file_bytes pvp v xs))"
  shows "written pvp v dep xs off (as @ bs) p2 v2 dep2 (ys @ zs)"
  unfolding written_def
proof (intro conjI allI impI)
  note A = writtenD [OF a] and B = writtenD [OF b]
  note g = same_fs_bytes [OF A(2)]
  show "vol_ok p2 v2" by (rule B(1))
  show "same_fs pvp p2" by (rule same_fs_trans [OF A(2) B(2)])
  show "file_ok p2 v2 dep2 (xs @ ys @ zs)" using B(3) by simp
  show "de_FileSize dep2 = max (de_FileSize dep) (off + length (as @ bs))" using A(4) B(4) by simp
  show "length (xs @ ys @ zs) = nclus pvp (de_FileSize dep2)" using B(5) g(4) by simp
  have "take (de_FileSize dep2) (file_bytes pvp v2 ((xs @ ys) @ zs)) = put_bytes (off + length as) bs (take (de_FileSize dep1) (file_bytes pvp v1 (xs @ ys)))"
    using B(6) unfolding g .
  then show "take (de_FileSize dep2) (file_bytes pvp v2 (xs @ ys @ zs)) = put_bytes off (as @ bs) (take (de_FileSize dep) (file_bytes pvp v xs))"
    unfolding A(6) put_bytes_put [OF off] append_assoc .
  show "set (ys @ zs) \<subseteq> free_set pvp v" using A(7,8) B(7) by auto
  show "free_set p2 v2 = free_set pvp v - set (ys @ zs)" using A(8) B(8) by auto
  show "fat_at p2 v2 x = fat_at pvp v x" if "x \<le> vfs_maxcluster pvp" "x \<notin> set (xs @ ys @ zs)" for x
    using A(9) [of x] B(9) [of x] that g by simp
  show "v2 s = v s" if "s \<notin> fatblks pvp \<and> (\<forall>x \<in> set (xs @ ys @ zs). s \<notin> clus_secs pvp x)" for s
    using A(10) [of s] B(10) [of s] that g by (simp add: ball_Un)
  show "de_vroot dep2 = de_vroot dep" "de_Attributes dep2 = de_Attributes dep" "de_lastr dep2 = de_lastr dep"
    using A(11-13) B(11-13) by simp_all
qed

lemma written_nothing:
  assumes "vol_ok pvp v" and "file_ok pvp v dep' xs" and "same_but_chain dep dep'" and "length xs = nclus pvp (de_FileSize dep)"
    and "off \<le> de_FileSize dep" and "de_FileSize dep \<le> length (file_bytes pvp v xs)"
  shows "written pvp v dep xs off [] pvp v dep' []"
  using assms(1,2,4-) same_but_chainD [OF assms(3)] by (simp add: written_def)

section \<open>A block stored\<close>

lemma file_distinct: "file_ok pvp v dep xs \<Longrightarrow> distinct xs"
  by (cases "xs = []") (auto simp: file_ok_def file_at_def dest: chain_distinct)

lemma file_short:
  assumes v: "vol_ok pvp v" and f: "file_ok pvp v dep xs"
  shows "length xs + 1 < 0xffff"
proof -
  have "set xs \<subseteq> {..vfs_maxcluster pvp}" using file_cluster [OF f] by auto
  then have "card (set xs) \<le> Suc (vfs_maxcluster pvp)" using card_mono [of "{..vfs_maxcluster pvp}" "set xs"] by simp
  moreover have "vfs_maxcluster pvp < 32768" using v by (auto simp: vol_ok_def no_wrap_def FAT12_def)
  ultimately show ?thesis using distinct_card [OF file_distinct [OF f]] by simp
qed

lemma stored_clus:
  assumes g: "geo_ok pvp" and v: "vol_ok pvp v" and f: "file_ok pvp v dep xs" and x: "x \<in> set xs" and A: "length A = vfs_bpcluster pvp"
    and v': "v' = stored v (cntobn pvp x) (spc pvp) A"
  shows "vol_ok pvp v'" and "file_ok pvp v' dep xs" and "clus_bytes pvp v' x = A"
    and "y \<in> set xs \<Longrightarrow> y \<noteq> x \<Longrightarrow> clus_bytes pvp v' y = clus_bytes pvp v y"
    and "s \<notin> clus_secs pvp x \<Longrightarrow> v' s = v s" and "free_set pvp v' = free_set pvp v"
    and "c \<le> vfs_maxcluster pvp \<Longrightarrow> fat_at pvp v' c = fat_at pvp v c"
proof -
  have m: "mount_ok pvp" using v by (simp add: vol_ok_def)
  show out: "v' s = v s" if "s \<notin> clus_secs pvp x" for s
    using that by (auto simp: v' stored_def clus_secs_def)
  note xr = file_cluster(1,2) [OF f x]
  have sf: "same_fat pvp v v'" using out clus_data(1) [OF g xr] by (auto simp: same_fat_def)
  show "vol_ok pvp v'" by (rule same_fat_vol [OF v sf])
  show "file_ok pvp v' dep xs" by (rule same_fat_file [OF m sf f])
  show "free_set pvp v' = free_set pvp v" by (rule same_fat_free(1) [OF m sf])
  show "fat_at pvp v' c = fat_at pvp v c" if "c \<le> vfs_maxcluster pvp" by (rule same_fat_at [OF m sf that])
  show "clus_bytes pvp v' x = A"
    unfolding clus_bytes_def v' by (rule stored_concat) (use A geo_bpc(3) [OF g] in simp)
  show "clus_bytes pvp v' y = clus_bytes pvp v y" if y: "y \<in> set xs" "y \<noteq> x"
  proof (rule clus_bytes_cong)
    fix s assume "s \<in> clus_secs pvp y"
    then have "s \<notin> clus_secs pvp x" using clus_disjoint [OF g file_cluster(1,2) [OF f y(1)] xr y(2)] by blast
    then show "v' s = v s" by (rule out)
  qed
qed

lemma stored_file:
  assumes g: "geo_ok pvp" and v: "vol_ok pvp v" and f: "file_ok pvp v dep xs" and len: "\<And>s. length (v s) = DEV_BSIZE"
    and i: "i < length xs" and o: "p + length bs \<le> vfs_bpcluster pvp"
    and v': "v' = stored v (cntobn pvp (xs ! i)) (spc pvp) (put_bytes p bs (clus_bytes pvp v (xs ! i)))"
  shows "file_bytes pvp v' xs = put_bytes (i * vfs_bpcluster pvp + p) bs (file_bytes pvp v xs)"
proof (rule file_bytes_store [OF g len i _ o])
  have "length (put_bytes p bs (clus_bytes pvp v (xs ! i))) = vfs_bpcluster pvp"
    using length_put_bytes [of p bs "clus_bytes pvp v (xs ! i)"] o length_clus_bytes [of pvp v, OF g len] by simp
  note st = stored_clus [OF g v f nth_mem [OF i] this v']
  show "clus_bytes pvp v' (xs ! i) = put_bytes p bs (clus_bytes pvp v (xs ! i))" by (rule st(3))
  show "clus_bytes pvp v' (xs ! j) = clus_bytes pvp v (xs ! j)" if j: "j < length xs" "j \<noteq> i" for j
    by (rule st(4)) (use j i file_distinct [OF f] in \<open>simp_all add: nth_eq_iff_index_eq\<close>)
qed

text \<open>A new last cluster, of zeros but for the bytes at its start.\<close>

lemma stored_last:
  assumes g: "geo_ok pvp" and v: "vol_ok pvp v" and f: "file_ok pvp v dep (xs @ [c])" and A: "length A = vfs_bpcluster pvp"
    and v': "v' = stored v (cntobn pvp c) (spc pvp) A"
  shows "file_bytes pvp v' (xs @ [c]) = file_bytes pvp v xs @ A"
proof -
  have c: "c \<in> set (xs @ [c])" by simp
  note st = stored_clus [OF g v f c A v']
  have "c \<notin> set xs" using file_distinct [OF f] by simp
  then have "map (clus_bytes pvp v') xs = map (clus_bytes pvp v) xs" using st(4) by (intro map_cong) auto
  then have "file_bytes pvp v' xs = file_bytes pvp v xs" by (simp only: file_bytes_def)
  then show ?thesis unfolding file_bytes_append by (simp add: file_bytes_def st(3))
qed

section \<open>Numbers of clusters\<close>

lemma nclus_next:
  assumes "geo_ok pvp" and "0 < n" and "n \<le> vfs_bpcluster pvp"
  shows "nclus pvp (k * vfs_bpcluster pvp + n) = Suc k"
proof -
  obtain m where m: "n = Suc m" using assms(2) by (cases n) simp_all
  have "(k * vfs_bpcluster pvp + m) div vfs_bpcluster pvp = k" using assms(3) m by (simp add: div_add1_eq)
  then show ?thesis using nclus_pos [OF assms(1), of "k * vfs_bpcluster pvp + n"] by (simp add: m)
qed

lemma nclus_mult [simp]: "geo_ok pvp \<Longrightarrow> nclus pvp (k * vfs_bpcluster pvp) = k"
  using nclus_0 [of pvp] nclus_next [of pvp "vfs_bpcluster pvp" "k - 1"] geo_bpc(1) [of pvp] by (cases k) (simp_all add: add.commute)

lemma nclus_mono: "l \<le> l' \<Longrightarrow> nclus pvp l \<le> nclus pvp l'"
  by (simp add: nclus_def div_le_mono diff_le_mono)

lemma nclus_same:
  assumes "geo_ok pvp" and "sz \<le> l" and "l \<le> nclus pvp sz * vfs_bpcluster pvp"
  shows "nclus pvp l = nclus pvp sz"
  using nclus_mono [of sz l pvp] nclus_mono [of l "nclus pvp sz * vfs_bpcluster pvp" pvp] assms by simp

lemma nclus_ge:
  assumes "geo_ok pvp"
  shows "len \<le> nclus pvp len * vfs_bpcluster pvp"
proof (cases "len = 0")
  case False
  then have "len - 1 < Suc ((len - 1) div vfs_bpcluster pvp) * vfs_bpcluster pvp"
    using geo_bpc(1) [OF assms] by (metis Suc_eq_plus1 dividend_less_times_div mult.commute mult_Suc_right add.commute)
  then show ?thesis using False nclus_pos [OF assms, of len] by simp
qed simp

lemma file_len:
  assumes g: "geo_ok pvp" and len: "length xs = nclus pvp sz" and "\<And>s. length (v s) = DEV_BSIZE"
  shows "sz \<le> length (file_bytes pvp v xs)" and "length (take sz (file_bytes pvp v xs)) = sz"
  using nclus_ge [OF g, of sz] length_file_bytes [of pvp v xs, OF g assms(3)] by (simp_all add: len)

lemma block_inside:
  assumes g: "geo_ok pvp" and off: "off \<le> sz" and "\<not> (off = sz \<and> off mod vfs_bpcluster pvp = 0)"
  shows "off div vfs_bpcluster pvp < nclus pvp sz"
proof -
  have "off < nclus pvp sz * vfs_bpcluster pvp"
  proof (cases "off = nclus pvp sz * vfs_bpcluster pvp")
    case True
    then have "off mod vfs_bpcluster pvp = 0" by (rule ssubst) simp
    moreover have "off = sz" using True nclus_ge [OF g, of sz] off by simp
    ultimately show ?thesis using assms(3) by simp
  qed (use nclus_ge [OF g, of sz] off in simp)
  then show ?thesis by (rule less_mult_imp_div_less)
qed

section \<open>One round\<close>

text \<open>The file as the loop finds it: as many clusters as its size needs, no buffer locked.\<close>

definition settled :: "dosfs_vfs \<Rightarrow> (nat \<Rightarrow> u8 list) \<Rightarrow> denode \<Rightarrow> nat list \<Rightarrow> bool" where
  "settled pvp v dep xs \<longleftrightarrow> vol_ok pvp v \<and> geo_ok pvp \<and> file_ok pvp v dep xs \<and> length xs = nclus pvp (de_FileSize dep)
     \<and> \<not> de_vroot dep \<and> (FAT12 pvp \<longrightarrow> vfs_maxcluster pvp < 4080)"

lemma settledD:
  assumes "settled pvp v dep xs"
  shows "vol_ok pvp v" and "geo_ok pvp" and "file_ok pvp v dep xs" and "length xs = nclus pvp (de_FileSize dep)"
    and "\<not> de_vroot dep" and "FAT12 pvp \<Longrightarrow> vfs_maxcluster pvp < 4080" and "mount_ok pvp"
  using assms by (simp_all add: settled_def vol_ok_def)

lemma written_settled:
  assumes "settled pvp v dep xs" and "written pvp v dep xs off bs pvp' v' dep' ys"
  shows "settled pvp' v' dep' (xs @ ys)"
  using settledD [OF assms(1)] writtenD [OF assms(2)] same_fs_bytes [OF writtenD(2) [OF assms(2)]] geo_ok_geo [OF writtenD(2) [OF assms(2)]]
  by (simp add: settled_def)

lemma extend_cases:
  assumes ok: "bio_ok io view held" and good: "\<forall>lb. lgeterror io lb = 0" and v: "vol_ok pvp (view d)" and g: "geo_ok pvp" and h: "held d = {}"
    and fl: "file_ok pvp (view d) dep xs" and root: "\<not> de_vroot dep" and F: "FAT12 pvp \<Longrightarrow> vfs_maxcluster pvp < 4080"
  obtains (full) d' dep' where "extendfile io pvp d dep True False = Some (d', pvp, dep', ENOSPC, None, None)" and "view d' = view d" and "held d' = {}"
      and "free_set pvp (view d) = {}" and "file_ok pvp (view d) dep' xs" and "same_but_chain dep dep'"
  | (new) d' pvp' dep' lb c where "extendfile io pvp d dep True False = Some (d', pvp', dep', 0, Some lb, None)"
      and "c \<in> free_set pvp (view d)" and "vol_ok pvp' (view d')" and "same_fs pvp pvp'"
      and "file_ok pvp' (view d') dep' (xs @ [c])" and "same_but_chain dep dep'" and "lbuf_at lb (cntobn pvp c) (spc pvp)"
      and "lb_addr lb = replicate (vfs_bpcluster pvp) 0" and "held d' = clus_secs pvp c" and "free_set pvp' (view d') = free_set pvp (view d) - {c}"
      and "\<forall>x \<le> vfs_maxcluster pvp. x \<notin> set (xs @ [c]) \<longrightarrow> fat_at pvp' (view d') x = fat_at pvp (view d) x"
      and "\<forall>s. s \<notin> fatblks pvp \<longrightarrow> view d' s = view d s"
proof -
  let ?F = "free_set pvp (view d)"
  have fr: "fatblks pvp \<inter> held d = {}" using h by simp
  have n: "spc pvp \<le> MAXCLUSTBLOCKS" using g by (simp add: geo_ok_def)
  have Min: "?F \<noteq> {} \<Longrightarrow> Min ?F \<in> ?F" by simp
  have low: "?F \<noteq> {} \<and> FAT12 pvp \<longrightarrow> Min ?F < 4080" using Min F by (fastforce simp: free_set_def)
  have buf: "?F \<noteq> {} \<and> True \<longrightarrow> vfs_bpcluster pvp = spc pvp * DEV_BSIZE \<and> spc pvp \<le> MAXCLUSTBLOCKS
      \<and> {cntobn pvp (Min ?F)..<cntobn pvp (Min ?F) + spc pvp} \<inter> held d = {}"
    using geo_bpc(3) [OF g] n h by simp
  note ext = extendfile_ok [OF ok v fr good fl file_short [OF v fl] root refl low buf, of False]
  show ?thesis
  proof (cases "?F = {}")
    case E: True
    from ext obtain d' dep' where f: "extendfile io pvp d dep True False = Some (d', pvp, dep', ENOSPC, None, None)" "view d' = view d" "held d' = {}"
        "file_ok pvp (view d) dep' xs"
      unfolding if_P [OF E] h by (elim exE conjE) simp
    show ?thesis by (rule full [OF f(1-3) E f(4) extendfile_same [OF f(1)]])
  next
    case False
    from ext obtain d' pvp' dep' lb where f: "extendfile io pvp d dep True False = Some (d', pvp', dep', 0, Some lb, None)"
        "vol_ok pvp' (view d')" "same_fs pvp pvp'" "file_ok pvp' (view d') dep' (xs @ [Min ?F])" "free_set pvp' (view d') = ?F - {Min ?F}"
        "\<forall>x \<le> vfs_maxcluster pvp. x \<notin> set xs \<and> x \<noteq> Min ?F \<longrightarrow> fat_at pvp' (view d') x = fat_at pvp (view d) x"
        "lbuf_at lb (cntobn pvp (Min ?F)) (spc pvp)" "lb_addr lb = replicate (vfs_bpcluster pvp) 0"
        "held d' = {cntobn pvp (Min ?F)..<cntobn pvp (Min ?F) + spc pvp}" "\<forall>s. s \<notin> fatblks pvp \<longrightarrow> view d' s = view d s"
      unfolding if_not_P [OF False] if_True if_False h by (elim exE conjE) simp
    show ?thesis
      by (rule new [OF f(1) Min [OF False] f(2-4) extendfile_same [OF f(1)] f(7,8)]) (use f(5,6,9,10) in \<open>simp_all add: clus_secs_def\<close>)
  qed
qed

lemma write_block_ok:
  assumes ok: "bio_ok io view held" and good: "\<forall>lb. lgeterror io lb = 0" and st: "settled pvp (view d) dep xs" and h: "held d = {}"
    and off: "off \<le> de_FileSize dep"
  obtains (full) d' dep' where "write_block io pvp d dep off = Some (d', pvp, dep', Inl ENOSPC)" and "view d' = view d" and "held d' = {}"
      and "free_set pvp (view d) = {}" and "file_ok pvp (view d) dep' xs" and "same_but_chain dep dep'" and "off = de_FileSize dep"
  | (new) d' pvp' dep' lb c where "write_block io pvp d dep off = Some (d', pvp', dep', Inr lb)" and "off = de_FileSize dep"
      and "off mod vfs_bpcluster pvp = 0" and "c \<in> free_set pvp (view d)" and "vol_ok pvp' (view d')" and "same_fs pvp pvp'"
      and "file_ok pvp' (view d') dep' (xs @ [c])" and "same_but_chain dep dep'" and "lbuf_at lb (cntobn pvp c) (spc pvp)"
      and "lb_addr lb = replicate (vfs_bpcluster pvp) 0" and "held d' = clus_secs pvp c" and "free_set pvp' (view d') = free_set pvp (view d) - {c}"
      and "\<forall>x \<le> vfs_maxcluster pvp. x \<notin> set (xs @ [c]) \<longrightarrow> fat_at pvp' (view d') x = fat_at pvp (view d) x"
      and "\<forall>s. s \<notin> fatblks pvp \<longrightarrow> view d' s = view d s"
  | (old) d' dep' lb c where "write_block io pvp d dep off = Some (d', pvp, dep', Inr lb)" and "off div vfs_bpcluster pvp < length xs"
      and "c = xs ! (off div vfs_bpcluster pvp)" and "view d' = view d" and "file_ok pvp (view d) dep' xs" and "same_but_chain dep dep'"
      and "lbuf_at lb (cntobn pvp c) (spc pvp)" and "lb_addr lb = clus_bytes pvp (view d) c" and "held d' = clus_secs pvp c"
proof -
  note S = settledD [OF st]
  note bpc = geo_bpc [OF S(2)]
  have fr: "fatblks pvp \<inter> held d = {}" using h by simp
  have n: "spc pvp \<le> MAXCLUSTBLOCKS" using S(2) by (simp add: geo_ok_def)
  show ?thesis
  proof (cases "off = de_FileSize dep \<and> off mod vfs_bpcluster pvp = 0")
    case True
    have cond: "off = de_FileSize dep \<and> off AND vfs_crbomask pvp = 0" unfolding bpc(7) by (rule True)
    note run = write_block_def [of io pvp d dep off, unfolded if_P [OF cond]]
    show ?thesis
    proof (cases rule: extend_cases [OF ok good S(1,2) h S(3,5,6), case_names f full new])
      case (full d' dep')
      have r: "write_block io pvp d dep off = Some (d', pvp, dep', Inl ENOSPC)" using run full(1) by (simp add: ENOSPC_def)
      show ?thesis by (rule that(1) [OF r full(2-6) conjunct1 [OF True]])
    next
      case (new d' pvp' dep' lb c)
      have r: "write_block io pvp d dep off = Some (d', pvp', dep', Inr lb)" using run new(1) by simp
      show ?thesis by (rule that(2) [OF r conjunct1 [OF True] conjunct2 [OF True] new(2-)])
    qed simp
  next
    case False
    let ?f = "off div vfs_bpcluster pvp"
    have f: "?f < length xs" unfolding S(4) by (rule block_inside [OF S(2) off False])
    then have x: "xs ! ?f \<in> set xs" and ne: "xs \<noteq> []" by auto
    note fa = file_at_len [OF S(3) ne]
    have want: "True \<or> False" by simp
    have cond: "\<not> (off = de_FileSize dep \<and> off AND vfs_crbomask pvp = 0)" unfolding bpc(7) by (rule False)
    show ?thesis
    proof (cases rule: pcbmap_cases [OF ok S(7) fr conjunct1 [OF fa] conjunct1 [OF conjunct2 [OF fa]] want, where f = ?f, case_names e f eof])
      case (e d' er)
      then show ?thesis using no_dev_err [OF good] by blast
    next
      case (eof d')
      then show ?thesis using f by simp
    next
      case pm: (f d1)
      let ?dep = "fc_setcache dep FC_LASTMAP ?f (xs ! ?f)"
      have free: "{cntobn pvp (xs ! ?f)..<cntobn pvp (xs ! ?f) + spc pvp} \<inter> held d1 = {}" using pm(4) h by simp
      obtain d2 lb where l: "lbread io d1 (cntobn pvp (xs ! ?f)) (vfs_bpcluster pvp) = Some (d2, lb)" "view d2 = view d1"
          "held d2 = held d1 \<union> {cntobn pvp (xs ! ?f)..<cntobn pvp (xs ! ?f) + spc pvp}" "lbuf_at lb (cntobn pvp (xs ! ?f)) (spc pvp)"
          "lgeterror io lb = 0 \<longrightarrow> lb_addr lb = concat (map (view d1) [cntobn pvp (xs ! ?f)..<cntobn pvp (xs ! ?f) + spc pvp])"
        using lbread_ok [OF ok n free, folded bpc(3)] by (elim exE conjE) (rule that)
      have run: "write_block io pvp d dep off = Some (d2, pvp, ?dep, Inr lb)"
        unfolding write_block_def if_not_P [OF cond] bpc(6) using pm(2) l(1) good by simp
      have fc: "length xs < 0xffff" using fa by simp
      show ?thesis
        by (rule old [of d2 ?dep lb "xs ! ?f"])
          (use run f l(2-5) pm(3,4) h good fc_step [OF S(3,7) f fc] in \<open>simp_all add: clus_bytes_def clus_secs_def\<close>)
    qed
  qed
qed

text \<open>The buffer with the new bytes, written.\<close>

lemma written_new:
  assumes st: "settled pvp v dep xs" and len: "\<And>s. length (v s) = DEV_BSIZE" and off: "off = de_FileSize dep" "off mod vfs_bpcluster pvp = 0"
    and c: "c \<in> free_set pvp v" and v1: "vol_ok p1 v1" "same_fs pvp p1" "file_ok p1 v1 dep1 (xs @ [c])" "same_but_chain dep dep1"
    and fs: "free_set p1 v1 = free_set pvp v - {c}"
    and fat: "\<forall>x \<le> vfs_maxcluster pvp. x \<notin> set (xs @ [c]) \<longrightarrow> fat_at p1 v1 x = fat_at pvp v x"
    and out: "\<forall>s. s \<notin> fatblks pvp \<longrightarrow> v1 s = v s"
    and n: "0 < length bs" "length bs \<le> vfs_bpcluster pvp"
    and v2: "v2 = stored v1 (cntobn pvp c) (spc pvp) (put_bytes 0 bs (replicate (vfs_bpcluster pvp) 0))"
    and dep2: "file_ok p1 v2 dep1 (xs @ [c]) \<Longrightarrow> file_ok p1 v2 dep2 (xs @ [c])" "de_FileSize dep2 = off + length bs" "de_vroot dep2 = de_vroot dep1"
      "de_Attributes dep2 = de_Attributes dep1" "de_lastr dep2 = de_lastr dep1"
  shows "written pvp v dep xs off bs p1 v2 dep2 [c]"
proof -
  note S = settledD [OF st] and g1 = same_fs_bytes [OF v1(2)] and k = same_but_chainD [OF v1(4)]
  have g: "geo_ok p1" using geo_ok_geo [OF v1(2)] S(2) by simp
  let ?A = "put_bytes 0 bs (replicate (vfs_bpcluster pvp) 0)"
  have la: "length ?A = vfs_bpcluster pvp" using length_put_bytes [of 0 bs "replicate (vfs_bpcluster pvp) 0"] n(2) by simp
  have f1: "vfs_bpcluster p1 = vfs_bpcluster pvp" "spc p1 = spc pvp" "cntobn p1 = cntobn pvp"
    using same_fs_fields(1,2) [OF v1(2)] same_fs_file(3) [OF v1(2)] by simp_all
  have cx: "c \<in> set (xs @ [c])" by simp
  have lb: "length ?A = vfs_bpcluster p1" and v2': "v2 = stored v1 (cntobn p1 c) (spc p1) ?A" using la v2 f1 by simp_all
  note sc = stored_clus [OF g v1(1,3) cx lb v2']
  have k: "off = length xs * vfs_bpcluster pvp"
    using off nclus_mult [OF S(2), of "off div vfs_bpcluster pvp"] S(4) by (simp add: mod_0_imp_dvd)
  have "nclus pvp (off + length bs) = Suc (length xs)" unfolding k by (rule nclus_next [OF S(2) n])
  then have len2: "length (xs @ [c]) = nclus pvp (de_FileSize dep2)" using dep2(2) by simp
  have "clus_bytes pvp v1 x = clus_bytes pvp v x" if x: "x \<in> set xs" for x
  proof (rule clus_bytes_cong)
    fix s assume s: "s \<in> clus_secs pvp x"
    have "s \<notin> fatblks pvp" using clus_data(1) [OF S(2) file_cluster(1,2) [OF S(3) x]] s by blast
    then show "v1 s = v s" using out by blast
  qed
  then have "file_bytes pvp v1 xs = file_bytes pvp v xs" by (simp add: file_bytes_def cong: map_cong)
  then have fb: "file_bytes pvp v2 (xs @ [c]) = file_bytes pvp v xs @ ?A"
    using stored_last [OF g v1(1,3) lb v2'] by (simp add: g1)
  have lf: "length (file_bytes pvp v xs) = off" using length_file_bytes [of pvp v xs, OF S(2) len] k by simp
  have "take (off + length bs) (file_bytes pvp v2 (xs @ [c])) = put_bytes off bs (take off (file_bytes pvp v xs))"
    unfolding fb using lf by (simp add: put_bytes_def)
  then have bytes: "take (de_FileSize dep2) (file_bytes pvp v2 (xs @ [c])) = put_bytes off bs (take (de_FileSize dep) (file_bytes pvp v xs))"
    using off(1) dep2(2) by simp
  have o2: "v2 s = v s" if "s \<notin> fatblks pvp \<and> (\<forall>x \<in> set (xs @ [c]). s \<notin> clus_secs pvp x)" for s
    using sc(5) [of s] that out g1(1) by simp
  show ?thesis
    unfolding written_def using v1(2) sc(1) dep2(1) [OF sc(2)] dep2(2) off(1) len2 bytes c sc(6) fs o2 sc(7) fat dep2(3-5) g1 same_but_chainD [OF v1(4)]
    by simp
qed

lemma written_old:
  assumes st: "settled pvp v dep xs" and len: "\<And>s. length (v s) = DEV_BSIZE" and off: "off \<le> de_FileSize dep"
    and f: "off div vfs_bpcluster pvp < length xs" and c: "c = xs ! (off div vfs_bpcluster pvp)" and v1: "file_ok pvp v dep1 xs" "same_but_chain dep dep1"
    and n: "off mod vfs_bpcluster pvp + length bs \<le> vfs_bpcluster pvp"
    and v2: "v2 = stored v (cntobn pvp c) (spc pvp) (put_bytes (off mod vfs_bpcluster pvp) bs (clus_bytes pvp v c))"
    and dep2: "file_ok pvp v2 dep1 xs \<Longrightarrow> file_ok pvp v2 dep2 xs" "de_FileSize dep2 = max (de_FileSize dep) (off + length bs)" "de_vroot dep2 = de_vroot dep1"
      "de_Attributes dep2 = de_Attributes dep1" "de_lastr dep2 = de_lastr dep1"
  shows "written pvp v dep xs off bs pvp v2 dep2 []"
proof -
  note S = settledD [OF st]
  let ?b = "vfs_bpcluster pvp" let ?A = "put_bytes (off mod ?b) bs (clus_bytes pvp v c)"
  have la: "length ?A = ?b" using length_put_bytes [of "off mod ?b" bs "clus_bytes pvp v c"] n length_clus_bytes [of pvp v, OF S(2) len] by simp
  have cx: "c \<in> set xs" using f c by simp
  note sc = stored_clus [OF S(2,1) v1(1) cx la v2]
  have fb: "file_bytes pvp v2 xs = put_bytes off bs (file_bytes pvp v xs)"
    using stored_file [OF S(2,1) v1(1) len f n v2 [unfolded c]] by simp
  have "Suc (off div ?b) * ?b \<le> length xs * ?b" using f by (intro mult_le_mono1) simp
  then have "off div ?b * ?b + ?b \<le> length xs * ?b" by simp
  then have fit: "off + length bs \<le> length xs * ?b" using n div_mult_mod_eq [of off ?b] by linarith
  have l: "length (file_bytes pvp v xs) = length xs * ?b" by (rule length_file_bytes [of pvp v, OF S(2) len])
  have sz: "de_FileSize dep \<le> length xs * ?b" using nclus_ge [OF S(2), of "de_FileSize dep"] S(4) by simp
  have bytes: "take (de_FileSize dep2) (file_bytes pvp v2 xs) = put_bytes off bs (take (de_FileSize dep) (file_bytes pvp v xs))"
    unfolding fb dep2(2) by (rule take_put) (use off fit sz l in simp_all)
  have "nclus pvp (de_FileSize dep2) = nclus pvp (de_FileSize dep)"
    by (rule nclus_same [OF S(2)]) (use dep2(2) fit sz S(4) in simp_all)
  then show ?thesis
    unfolding written_def using sc(1) dep2(1) [OF sc(2)] dep2(2) bytes sc(5-7) dep2(3-5) same_but_chainD [OF v1(2)] S(4) cx by auto
qed

definition um_gives :: "'u umove \<Rightarrow> ('u \<Rightarrow> u8 list) \<Rightarrow> bool" where
  "um_gives um src \<longleftrightarrow> (\<forall>u n. n \<le> uio_resid u \<and> n \<le> length (src (uio_user u)) \<longrightarrow> snd (snd (um_in um u n)) = 0)"

lemma write_round:
  assumes ok: "bio_ok io view held" and good: "\<forall>lb. lgeterror io lb = 0" and um: "um_ok um got src" "um_gives um src"
    and st: "settled pvp (view d) dep xs" and h: "held d = {}"
    and off: "off = nat (uio_offset u)" "off \<le> de_FileSize dep" "off + uio_resid u < 2 ^ 31" and r: "0 < uio_resid u" "uio_resid u \<le> length (src (uio_user u))"
  obtains (full) d' dep' where "write_loop um io False (Suc fuel) pvp d dep u = Some (d', pvp, dep', u, ENOSPC)" and "held d' = {}"
      and "free_set pvp (view d) = {}" and "written pvp (view d) dep xs off [] pvp (view d') dep' []"
  | (moved) d' pvp' dep' u' bs ys where "write_loop um io False (Suc fuel) pvp d dep u =
        (if 0 < uio_resid u' then write_loop um io False fuel pvp' d' dep' u' else Some (d', pvp', dep', u', 0))"
      and "held d' = {}" and "written pvp (view d) dep xs off bs pvp' (view d') dep' ys" and "bs \<noteq> []"
      and "src (uio_user u) = bs @ src (uio_user u')" and "uio_offset u' = uio_offset u + int (length bs)" and "uio_resid u' = uio_resid u - length bs"
      and "length bs \<le> uio_resid u"
proof -
  note S = settledD [OF st]
  note bpc = geo_bpc [OF S(2)]
  have vl: "length (view d s) = DEV_BSIZE" for d s using ok by (simp add: bio_ok_def)
  let ?b = "vfs_bpcluster pvp"
  define n where "n = min (uio_resid u) (?b - off mod ?b)"
  have on: "off mod ?b < ?b" using bpc(1) by simp
  have n: "0 < n" "n \<le> uio_resid u" "off mod ?b + n \<le> ?b" using on r(1) by (auto simp: n_def)
  have nl: "n \<le> length (src (uio_user u))" using n(2) r(2) by simp
  obtain u' bs e where mv0: "um_in um u n = (u', bs, e)" by (cases "um_in um u n")
  have "e = 0" using um(2) n(2) nl mv0 unfolding um_gives_def by fastforce
  note mv = um_inD [OF um(1) mv0 [unfolded this] n(2)]
  have tk: "take n bs = bs" using mv(1) by simp
  have wrap: "uadd32 off n = off + n" using n(2) off(3) by (simp add: uadd32_def)
  have n0: "bs \<noteq> []" using mv(1) n(1) by auto
  define grow where "grow q = (if de_FileSize q < off + n then q\<lparr>de_de := (de_de q)\<lparr>deFileSize := of_nat (off + n)\<rparr>\<rparr> else q)" for q
  define fin where "fin q = (grow q)\<lparr>de_flag := de_flag (grow q) OR DEUPD\<rparr>" for q
  have un: "unat (of_nat (off + n) :: uint_t) = off + n" using n(2) off(3) by (simp only: unat_of_nat) simp
  have finD: "de_FileSize (fin q) = max (de_FileSize q) (off + n)" "de_vroot (fin q) = de_vroot q" "de_Attributes (fin q) = de_Attributes q"
      "de_lastr (fin q) = de_lastr q" "file_ok p v (fin q) zs = file_ok p v q zs" for q p v zs
    using un by (auto simp: fin_def grow_def file_ok_def fc_ok_def max_def simp del: of_nat_add)
  text \<open>the rest of a round, from a buffer over the cluster \<open>c\<close>\<close>
  have rest: "\<exists>d2. write_loop um io False (Suc fuel) pvp d dep u =
        (if 0 < uio_resid u' then write_loop um io False fuel p1 d2 (fin dep1) u' else Some (d2, p1, fin dep1, u', 0))
      \<and> view d2 = stored (view d1) (cntobn pvp c) (spc pvp) (put_bytes (off mod ?b) bs (lb_addr lb)) \<and> held d2 = held d1 - clus_secs pvp c"
    if wb: "write_block io pvp d dep off = Some (d1, p1, dep1, Inr lb)" and at: "lbuf_at lb (cntobn pvp c) (spc pvp)"
      and la: "length (lb_addr lb) = ?b" and hd: "held d1 = clus_secs pvp c" and sf: "same_fs pvp p1" for d1 p1 dep1 lb c
  proof -
    let ?lb = "lb\<lparr>lb_addr := put_bytes (off mod ?b) bs (lb_addr lb)\<rparr>"
    define d2 where "d2 = (if n + off mod ?b = ?b then lbawrite io d1 ?lb else lbdwrite io d1 ?lb)"
    have f1: "vfs_bpcluster p1 = ?b" "vfs_crbomask p1 = vfs_crbomask pvp" using same_fs_fields [OF sf] by simp_all
    have li: "lb_move_in um lb (off mod ?b) n u = Some (?lb, u', 0)"
      unfolding lb_move_in_def using n(3) la mv0 \<open>e = 0\<close> tk by simp
    have "write_loop um io False (Suc fuel) pvp d dep u =
        (if 0 < uio_resid u' then write_loop um io False fuel p1 d2 (fin dep1) u' else Some (d2, p1, fin dep1, u', 0))"
      unfolding write_loop.simps(2) Let_def off(1) [symmetric] wb Option.bind.bind_lunit prod.case sum.case f1 bpc(7) n_def [symmetric] wrap li
      by (simp add: d2_def fin_def grow_def)
    moreover have at': "lbuf_at ?lb (cntobn pvp c) (spc pvp)"
      using at length_put_bytes [of "off mod ?b" bs "lb_addr lb"] n(3) mv(1) la by (simp add: lbuf_at_def)
    have hs: "{cntobn pvp c..<cntobn pvp c + spc pvp} \<subseteq> held d1" using hd by (simp add: clus_secs_def)
    note w = lb_write_ok(3-6) [OF ok at' hs]
    ultimately show ?thesis using w by (intro exI [of _ d2]) (simp add: d2_def clus_secs_def)
  qed
  show ?thesis
  proof (cases rule: write_block_ok [OF ok good st h off(2), case_names full new old])
    case (full d' dep')
    have run: "write_loop um io False (Suc fuel) pvp d dep u = Some (d', pvp, dep', u, ENOSPC)"
      unfolding write_loop.simps(2) Let_def off(1) [symmetric] full(1) by simp
    have "written pvp (view d) dep xs off [] pvp (view d') dep' []"
      unfolding full(2) by (rule written_nothing [OF S(1) full(5,6) S(4) off(2)]) (rule file_len(1) [OF S(2,4) vl])
    then show ?thesis by (rule that(1) [OF run full(3,4)])
  next
    case (new d1 p1 dep1 lb c)
    have la: "length (lb_addr lb) = ?b" using new(10) by simp
    obtain d2 where d2: "write_loop um io False (Suc fuel) pvp d dep u =
        (if 0 < uio_resid u' then write_loop um io False fuel p1 d2 (fin dep1) u' else Some (d2, p1, fin dep1, u', 0))"
        "view d2 = stored (view d1) (cntobn pvp c) (spc pvp) (put_bytes (off mod ?b) bs (lb_addr lb))" "held d2 = held d1 - clus_secs pvp c"
      using rest [OF new(1,9) la new(11,6)] by blast
    have lb: "0 < length bs" "length bs \<le> ?b" using mv(1) n by simp_all
    have wr: "written pvp (view d) dep xs off bs p1 (view d2) (fin dep1) [c]"
      by (rule written_new [OF st vl new(2-8) new(12-14) lb])
        (use d2(2) new(2,3,10) finD same_but_chainD [OF new(8)] mv(1) in simp_all)
    show ?thesis by (rule that(2) [OF d2(1) _ wr n0 mv(2) mv(3,4) [folded mv(1)] n(2) [folded mv(1)]]) (use d2(3) new(11) in simp)
  next
    case (old d1 dep1 lb c)
    have la: "length (lb_addr lb) = ?b" using old(8) length_clus_bytes [of pvp "view d", OF S(2) vl] by simp
    obtain d2 where d2: "write_loop um io False (Suc fuel) pvp d dep u =
        (if 0 < uio_resid u' then write_loop um io False fuel pvp d2 (fin dep1) u' else Some (d2, pvp, fin dep1, u', 0))"
        "view d2 = stored (view d1) (cntobn pvp c) (spc pvp) (put_bytes (off mod ?b) bs (lb_addr lb))" "held d2 = held d1 - clus_secs pvp c"
      using rest [OF old(1,7) la old(9) same_fs_refl] by blast
    have wr: "written pvp (view d) dep xs off bs pvp (view d2) (fin dep1) []"
      by (rule written_old [OF st vl off(2) old(2,3,5,6)])
        (use d2(2) old(4,8) finD same_but_chainD [OF old(6)] mv(1) n(3) in simp_all)
    show ?thesis by (rule that(2) [OF d2(1) _ wr n0 mv(2) mv(3,4) [folded mv(1)] n(2) [folded mv(1)]]) (use d2(3) old(9) in simp)
  qed
qed

section \<open>The loop\<close>

lemma written_sizes:
  assumes "settled pvp v dep xs" and "written pvp v dep xs off bs pvp' v' dep' ys" and "off \<le> de_FileSize dep"
  shows "off + length bs \<le> de_FileSize dep'"
  using writtenD(4) [OF assms(2)] by simp

lemma write_loop_ok:
  assumes ok: "bio_ok io view held" and good: "\<forall>lb. lgeterror io lb = 0" and um: "um_ok um got src" "um_gives um src"
  shows "settled pvp (view d) dep xs \<Longrightarrow> held d = {} \<Longrightarrow> 0 \<le> uio_offset u \<Longrightarrow> nat (uio_offset u) \<le> de_FileSize dep
    \<Longrightarrow> nat (uio_offset u) + uio_resid u < 2 ^ 31 \<Longrightarrow> 0 < uio_resid u \<Longrightarrow> uio_resid u \<le> length (src (uio_user u)) \<Longrightarrow> uio_resid u \<le> fuel
    \<Longrightarrow> \<exists>d' pvp' dep' u' e bs ys. write_loop um io False fuel pvp d dep u = Some (d', pvp', dep', u', e) \<and> held d' = {}
      \<and> written pvp (view d) dep xs (nat (uio_offset u)) bs pvp' (view d') dep' ys \<and> src (uio_user u) = bs @ src (uio_user u')
      \<and> (if e = 0 then length bs = uio_resid u else e = ENOSPC \<and> length bs < uio_resid u \<and> free_set pvp' (view d') = {})"
proof (induction fuel arbitrary: pvp d dep xs u)
  case (Suc fuel)
  note st = Suc.prems(1) and p = Suc.prems(2-)
  have vl: "length (view d s) = DEV_BSIZE" for d s using ok by (simp add: bio_ok_def)
  let ?off = "nat (uio_offset u)"
  show ?case
  proof (cases rule: write_round [OF ok good um st p(1) refl p(3,4,5,6), where fuel = fuel, case_names full moved])
    case (full d' dep')
    show ?thesis by (intro exI conjI, rule full(1), rule full(2), rule full(4)) (use full(3) writtenD(8) [OF full(4)] p(5) in \<open>simp_all add: ENOSPC_def\<close>)
  next
    case (moved d1 p1 dep1 u1 bs ys)
    show ?thesis
    proof (cases "0 < uio_resid u1")
      case False
      have run: "write_loop um io False (Suc fuel) pvp d dep u = Some (d1, p1, dep1, u1, 0)" using moved(1) False by simp
      show ?thesis by (intro exI conjI, rule run, rule moved(2), rule moved(3), rule moved(5)) (use moved(7,8) False in simp)
    next
      case True
      have st1: "settled p1 (view d1) dep1 (xs @ ys)" by (rule written_settled [OF st moved(3)])
      have lb: "0 < length bs" using moved(4) by simp
      have o: "nat (uio_offset u1) = ?off + length bs" using moved(6) p(2) by (simp add: nat_add_distrib)
      have q: "0 \<le> uio_offset u1" "nat (uio_offset u1) \<le> de_FileSize dep1" "nat (uio_offset u1) + uio_resid u1 < 2 ^ 31"
          "uio_resid u1 \<le> length (src (uio_user u1))"
        using moved(5-8) p(2,4,6) o lb written_sizes [OF st moved(3) p(3)] by simp_all
      have q5: "uio_resid u1 \<le> fuel" using moved(7) lb p(7) by linarith
      obtain d2 p2 dep2 u2 e cs zs where ih: "write_loop um io False fuel p1 d1 dep1 u1 = Some (d2, p2, dep2, u2, e)" "held d2 = {}"
          "written p1 (view d1) dep1 (xs @ ys) (?off + length bs) cs p2 (view d2) dep2 zs" "src (uio_user u1) = cs @ src (uio_user u2)"
          "if e = 0 then length cs = uio_resid u1 else e = ENOSPC \<and> length cs < uio_resid u1 \<and> free_set p2 (view d2) = {}"
        using Suc.IH [OF st1 moved(2) q(1-3) True q(4) q5] unfolding o by (elim exE conjE) (rule that)
      have run: "write_loop um io False (Suc fuel) pvp d dep u = Some (d2, p2, dep2, u2, e)" using moved(1) True ih(1) by simp
      have "?off \<le> length (take (de_FileSize dep) (file_bytes pvp (view d) xs))"
        using file_len(2) [OF settledD(2,4) [OF st] vl] p(3) by simp
      note w = written_trans [OF moved(3) ih(3) this]
      have sr: "src (uio_user u) = (bs @ cs) @ src (uio_user u2)" using moved(5) ih(4) by simp
      show ?thesis by (intro exI conjI, rule run, rule ih(2), rule w, rule sr) (use ih(5) moved(7,8) in \<open>auto split: if_splits\<close>)
    qed
  qed
next
  case 0
  then have False using Nat.le_0_eq by (metis not_gr_zero)
  then show ?case ..
qed

section \<open>Properties\<close>

definition write_off :: "bool \<Rightarrow> denode \<Rightarrow> 'u uio \<Rightarrow> nat" where
  "write_off app dep u = (if app then de_FileSize dep else nat (uio_offset u))"

lemma dosfs_write_ok:
  assumes ok: "bio_ok io view held" and good: "\<forall>lb. lgeterror io lb = 0" and um: "um_ok um got src" "um_gives um src"
    and st: "settled pvp (view d) dep xs" and h: "held d = {}" and reg: "de_Attributes dep AND ATTR_DIRECTORY = 0"
    and off: "off = write_off app dep u" "0 \<le> uio_offset u" "off \<le> de_FileSize dep" "off + uio_resid u < 2 ^ 31" "off + uio_resid u \<le> uio_limit u"
    and src: "uio_resid u \<le> length (src (uio_user u))" and fuel: "uio_resid u \<le> fuel"
  shows "\<exists>d' pvp' dep' u' e bs ys. dosfs_write um io ronly now app False fuel pvp d cv dep u = Some (d', pvp', cv, dep', u', e) \<and> held d' = {}
      \<and> written pvp (view d) dep xs off bs pvp' (view d') dep' ys \<and> src (uio_user u) = bs @ src (uio_user u')
      \<and> (if e = 0 then length bs = uio_resid u else e = ENOSPC \<and> length bs < uio_resid u \<and> free_set pvp' (view d') = {})"
proof -
  note S = settledD [OF st]
  have vl: "length (view d s) = DEV_BSIZE" for s using ok by (simp add: bio_ok_def)
  define u0 where "u0 = (if app then u\<lparr>uio_offset := slong (de_FileSize dep)\<rparr> else u)"
  have fo: "slong (de_FileSize dep) = int off" if app
    using off(1,4) that by (simp add: write_off_def slong_def)
  have u0: "uio_offset u0 = int off" "nat (uio_offset u0) = off" "uio_resid u0 = uio_resid u" "uio_limit u0 = uio_limit u" "uio_user u0 = uio_user u"
    using fo off(1,2) by (auto simp: u0_def write_off_def)
  have ad: "uadd32 off (uio_resid u) = off + uio_resid u" using off(4) by (simp add: uadd32_def)
  have root: "\<not> isadir_root dep" using reg by (simp add: isadir_root_def)
  have "\<not> int (de_FileSize dep) < int off" using off(3) by (simp only: of_nat_less_iff not_less)
  then have c1: "\<not> uio_offset u0 < 0" "\<not> uio_limit u0 < uadd32 (nat (uio_offset u0)) (uio_resid u0)" "\<not> int (de_FileSize dep) < uio_offset u0"
    using u0 ad off(3,5) by simp_all
  have run: "dosfs_write um io ronly now app False fuel pvp d cv dep u = (if uio_resid u0 = 0 then Some (d, pvp, cv, dep, u0, 0)
      else do { (d, pvp, dep, uio, error) \<leftarrow> write_loop um io False fuel pvp d dep u0; Some (d, pvp, cv, dep, uio, error) })"
    unfolding dosfs_write_def u0_def [symmetric] Let_def if_not_P [OF c1(1)] if_not_P [OF c1(2)] if_not_P [OF c1(3)]
    using root by simp
  show ?thesis
  proof (cases "uio_resid u = 0")
    case True
    have w: "written pvp (view d) dep xs off [] pvp (view d) dep []"
      by (rule written_nothing [OF S(1,3) same_but_chain_fc(1) S(4) off(3)]) (rule file_len(1) [OF S(2,4) vl])
    have r: "dosfs_write um io ronly now app False fuel pvp d cv dep u = Some (d, pvp, cv, dep, u0, 0)" unfolding run using True u0 by simp
    show ?thesis by (intro exI conjI, rule r, rule h, rule w) (use True u0 in simp_all)
  next
    case False
    have q: "0 \<le> uio_offset u0" "nat (uio_offset u0) \<le> de_FileSize dep" "nat (uio_offset u0) + uio_resid u0 < 2 ^ 31" "0 < uio_resid u0"
        "uio_resid u0 \<le> length (src (uio_user u0))" "uio_resid u0 \<le> fuel"
      using u0 off(3,4) False src fuel by simp_all
    obtain d' pvp' dep' u' e bs ys where l: "write_loop um io False fuel pvp d dep u0 = Some (d', pvp', dep', u', e)" "held d' = {}"
        "written pvp (view d) dep xs off bs pvp' (view d') dep' ys" "src (uio_user u) = bs @ src (uio_user u')"
        "if e = 0 then length bs = uio_resid u else e = ENOSPC \<and> length bs < uio_resid u \<and> free_set pvp' (view d') = {}"
      using write_loop_ok [OF ok good um st h q] unfolding u0(2-5) by (elim exE conjE) (rule that)
    have r: "dosfs_write um io ronly now app False fuel pvp d cv dep u = Some (d', pvp', cv, dep', u', e)" unfolding run using False u0 l(1) by simp
    show ?thesis by (intro exI conjI, rule r, rule l(2), rule l(3), rule l(4), rule l(5))
  qed
qed

text \<open>C37: Writing a file, without IO_SYNC, is laying bytes over its bytes. On a device without read errors, for a process whose memory
  can be read, a file with as many clusters as its size needs and an offset not past its end (the end itself when the
  file is open for appending), the bytes the process gives lie over the old ones from the offset on, across the end
  too, and the file has grown by just the free clusters its new size needs. ENOSPC comes when the volume is full, after the
  part that fits has been written. The volume and the cache of the file stay consistent, no other entry of the table and no other sector of the
  disk changes, and no buffer stays locked. As many rounds as bytes are enough. A volume with a 12-bit table must end below cluster 4080. (\<open>sync_write_hangs\<close> shows
  a write with IO_SYNC.)\<close>

theorem dosfs_writes:
  assumes ok: "bio_ok io view held" and good: "\<forall>lb. lgeterror io lb = 0" and um: "um_ok um got src" "um_gives um src"
    and st: "settled pvp (view d) dep xs" and h: "held d = {}" and reg: "de_Attributes dep AND ATTR_DIRECTORY = 0"
    and off: "off = write_off app dep u" "0 \<le> uio_offset u" "off \<le> de_FileSize dep" "off + uio_resid u < 2 ^ 31" "off + uio_resid u \<le> uio_limit u"
    and src: "uio_resid u \<le> length (src (uio_user u))" and fuel: "uio_resid u \<le> fuel"
  shows "\<exists>d' pvp' dep' u' e bs ys. dosfs_write um io ronly now app False fuel pvp d cv dep u = Some (d', pvp', cv, dep', u', e) \<and> held d' = {}
      \<and> written pvp (view d) dep xs off bs pvp' (view d') dep' ys \<and> src (uio_user u) = bs @ src (uio_user u')
      \<and> (if e = 0 then length bs = uio_resid u else e = ENOSPC \<and> length bs < uio_resid u \<and> free_set pvp' (view d') = {})"
  by (rule dosfs_write_ok [OF assms])

lemma demo_settled:
  obtains d pvp where "settled pvp (ram_view d) demo_open [2]" and "ram_heldset d = {}" and "same_fs demo_fs pvp"
    and "free_set pvp (ram_view d) = {3..400}"
proof -
  obtain d pvp where e: "vol_ok pvp (ram_view d)" "geo_ok pvp" "ram_heldset d = {}" "file_ok pvp (ram_view d) demo_open [2]" "same_fs demo_fs pvp"
      "free_set pvp (ram_view d) = {3..400}" by (rule demo_one_file)
  have "nclus pvp 1000 = 1" using same_fs_file(4) [OF e(5)] by (simp add: nclus_def demo_fs_def)
  moreover have "vfs_maxcluster pvp = 400" using same_fs_geo(6) [OF e(5)] by (simp add: demo_max)
  ultimately have "settled pvp (ram_view d) demo_open [2]"
    using e(1,2,4) demo_open_ok(4) [OF e(5)] by (simp add: settled_def) (simp add: demo_open_def)
  then show ?thesis by (rule that [OF _ e(3,5,6)])
qed

lemma demo_um_gives: "um_gives demo_um snd"
  by (simp add: um_gives_def demo_um_def)

definition demo_uio :: "nat \<Rightarrow> nat \<Rightarrow> (u8 list \<times> u8 list) uio" where
  "demo_uio off n = \<lparr>uio_offset = int off, uio_resid = n, uio_limit = 4096, uio_user = ([], replicate n 7)\<rparr>"

lemma demo_open_size: "de_FileSize demo_open = 1000" "de_Attributes demo_open AND ATTR_DIRECTORY = 0" "de_lastr demo_open = 0"
  by (simp_all add: demo_open_def demo_file_def)

lemma demo_written:
  assumes w: "written pvp v demo_open [2] 1000 bs pvp' v' dep' ys" and sf: "same_fs demo_fs pvp" and f: "free_set pvp v = {3..400}"
    and bs: "replicate 30 7 = bs @ rest"
  shows "free_set pvp' v' \<noteq> {}" and "length bs = 30 \<Longrightarrow> bs = replicate 30 7 \<and> de_FileSize dep' = 1030 \<and> length ys = 1"
proof -
  note W = writtenD [OF w]
  have "30 = length bs + length rest" using arg_cong [OF bs, of length] by simp
  then have lb: "length bs \<le> 30" by simp
  have bpc: "vfs_bpcluster pvp = 1024" using same_fs_file(4) [OF sf] by (simp add: demo_fs_def)
  have "nclus pvp (de_FileSize dep') \<le> 2" using W(4) lb by (simp add: nclus_def bpc demo_open_size)
  then have "length ys \<le> 1" using W(5) by simp
  then have c: "card (set ys) \<le> 1" using card_length [of ys] by linarith
  show "free_set pvp' v' \<noteq> {}"
  proof
    assume "free_set pvp' v' = {}"
    then have "{3..400::nat} \<subseteq> set ys" using W(8) f by simp
    then have "card {3..400::nat} \<le> card (set ys)" by (intro card_mono) simp_all
    then show False using c by simp
  qed
  assume l: "length bs = 30"
  then have "take 30 (replicate 30 7) = bs" unfolding bs by simp
  then have b: "bs = replicate 30 7" by simp
  have sz: "de_FileSize dep' = 1030" using W(4) l by (simp add: demo_open_size)
  have "length ([2] @ ys) = 2" unfolding W(5) sz by (simp add: nclus_def bpc)
  then show "bs = replicate 30 7 \<and> de_FileSize dep' = 1030 \<and> length ys = 1" using b sz by simp
qed

lemma demo_append:
  "1000 = write_off True demo_open (demo_uio 0 30)" "0 \<le> uio_offset (demo_uio 0 30)" "1000 \<le> de_FileSize demo_open"
  "1000 + uio_resid (demo_uio 0 30) < 2 ^ 31" "1000 + uio_resid (demo_uio 0 30) \<le> uio_limit (demo_uio 0 30)"
  "uio_resid (demo_uio 0 30) \<le> length (snd (uio_user (demo_uio 0 30)))" "uio_resid (demo_uio 0 30) \<le> 30"
  by (simp_all add: write_off_def demo_open_size demo_uio_def)

theorem dosfs_writes_witness:
  "\<exists>d pvp d' pvp' dep' u' ys. dosfs_write demo_um good_io False 0 True False 30 pvp d conv_init demo_open (demo_uio 0 30)
      = Some (d', pvp', conv_init, dep', u', 0)
    \<and> file_ok pvp' (ram_view d') dep' ([2] @ ys) \<and> length ys = 1 \<and> de_FileSize dep' = 1030
    \<and> take 1030 (file_bytes pvp (ram_view d') ([2] @ ys)) = put_bytes 1000 (replicate 30 7) (take 1000 (file_bytes pvp (ram_view d) [2]))"
proof -
  obtain d pvp where e: "settled pvp (ram_view d) demo_open [2]" "ram_heldset d = {}" "same_fs demo_fs pvp" "free_set pvp (ram_view d) = {3..400}"
    by (rule demo_settled)
  have g: "\<forall>lb. lgeterror good_io lb = 0" by (simp add: good_err)
  from dosfs_writes [OF good_io_ok g demo_um_ok demo_um_gives e(1,2) demo_open_size(2) demo_append, of False 0 conv_init] show ?thesis
  proof (elim exE conjE, goal_cases)
    case (1 d' pvp' dep' u' er bs ys)
    have "replicate 30 7 = bs @ snd (uio_user u')" using 1(4) by (simp add: demo_uio_def)
    note D = demo_written [OF 1(3) e(3,4) this]
    have er: "er = 0" "length bs = 30" using 1(5) D(1) by (auto simp: demo_uio_def split: if_splits)
    note F = D(2) [OF er(2)] and W = writtenD [OF 1(3)]
    show ?case by (intro exI conjI, rule 1(1) [unfolded er(1)], rule W(3)) (use F W(6) demo_open_size in simp_all)
  qed
qed

section \<open>Reading what was written\<close>

definition readahead_safe :: "dosfs_vfs \<Rightarrow> denode \<Rightarrow> bool" where
  "readahead_safe pvp dep \<longleftrightarrow> (spc pvp = 1 \<and> (vfs_firstcluster pvp + vfs_maxcluster pvp) * DEV_BSIZE < 2 ^ 32)
     \<or> (1 < spc pvp \<and> de_lastr dep = 0 \<and> 0 < vfs_fatblk pvp)"

lemma readahead_safe_ok:
  assumes m: "mount_ok pvp" and g: "geo_ok pvp" and f: "file_ok pvp v dep xs" and r: "readahead_safe pvp dep"
  shows "readahead_ok pvp dep xs"
proof (cases "spc pvp = 1")
  case False
  then have s: "1 < spc pvp" "de_lastr dep = 0" "0 < vfs_fatblk pvp" using r by (auto simp: readahead_safe_def)
  have "0 < vfs_FATs pvp * vfs_FATsecs pvp" using m by (auto simp: mount_ok_def)
  moreover have "vfs_firstcluster pvp = vfs_fatblk pvp + vfs_FATs pvp * vfs_FATsecs pvp + vfs_rootdirsize pvp" using g by (simp add: geo_ok_def)
  ultimately have fc: "1 < vfs_firstcluster pvp" using s(3) by linarith
  have "uadd32 0 1 \<noteq> cntobn pvp x" if x: "x \<in> set xs" for x
    using cntobn_geo(1) [OF g file_cluster(1,2) [OF f x]] fc by (simp add: uadd32_def)
  then show ?thesis using s by (simp add: readahead_ok_def)
qed (use r in \<open>simp add: readahead_ok_def readahead_safe_def\<close>)

text \<open>C38: What was written is read. After a write as in \<open>dosfs_writes\<close> that reports no error, a read of as many bytes at the same
  place of the same open file gives the process exactly the bytes it wrote, unless \<open>uiomove\<close> fails. With clusters
  of more than one sector the file must not have been read before (\<open>de_lastr\<close> 0), so that nothing is read ahead.\<close>

theorem write_then_read:
  assumes ok: "bio_ok io view held" and good: "\<forall>lb. lgeterror io lb = 0" and um: "um_ok um got src" "um_gives um src"
    and st: "settled pvp (view d) dep xs" and h: "held d = {}" and reg: "de_Attributes dep AND ATTR_DIRECTORY = 0" and ra: "readahead_safe pvp dep"
    and off: "off = write_off app dep u" "0 \<le> uio_offset u" "off \<le> de_FileSize dep" "off + uio_resid u < 2 ^ 31" "off + uio_resid u \<le> uio_limit u"
    and src: "uio_resid u \<le> length (src (uio_user u))" and fuel: "uio_resid u \<le> fuel"
    and small: "de_FileSize dep < 2 ^ 31" and r: "uio_offset r = int off" "uio_resid r = uio_resid u" "uio_resid r < fuel2"
  shows "\<exists>d' pvp' dep' u' e. dosfs_write um io ronly now app False fuel pvp d cv dep u = Some (d', pvp', cv, dep', u', e)
    \<and> (e = 0 \<longrightarrow> (\<exists>d'' cv'' dep'' r' e'. dosfs_read um io now2 pvp' fuel2 d' cv dep' r = Some (d'', cv'', dep'', r', e')
        \<and> (if e' = 0 then got (uio_user r') = got (uio_user r) @ take (uio_resid u) (src (uio_user u)) else out_err um e')))"
proof -
  have vl: "length (view d s) = DEV_BSIZE" for d s using ok by (simp add: bio_ok_def)
  note S = settledD [OF st]
  obtain d' pvp' dep' u' e bs ys where w: "dosfs_write um io ronly now app False fuel pvp d cv dep u = Some (d', pvp', cv, dep', u', e)"
      "held d' = {}" "written pvp (view d) dep xs off bs pvp' (view d') dep' ys" "src (uio_user u) = bs @ src (uio_user u')"
      "if e = 0 then length bs = uio_resid u else e = ENOSPC \<and> length bs < uio_resid u \<and> free_set pvp' (view d') = {}"
    using dosfs_write_ok [where ronly = ronly and now = now and cv = cv, OF ok good um st h reg off src fuel] by (elim exE conjE) (rule that)
  show ?thesis
  proof (intro exI conjI, rule w(1), rule impI)
    assume "e = 0"
    then have lb: "length bs = uio_resid u" using w(5) by simp
    note W = writtenD [OF w(3)] and geo = same_fs_bytes [OF writtenD(2) [OF w(3)]] and st' = settledD [OF written_settled [OF st w(3)]]
    have "de_FileSize dep' \<le> length (xs @ ys) * vfs_bpcluster pvp'" using nclus_ge [OF st'(2), of "de_FileSize dep'"] st'(4) by simp
    then have pf: "plain_file pvp' (view d') (held d') dep' (xs @ ys)" using W(3,12) w(2) reg by (simp add: plain_file_def)
    have "readahead_safe pvp' dep'" using ra W(13) same_fs_fields [OF W(2)] geo by (simp add: readahead_safe_def)
    note ra' = readahead_safe_ok [OF st'(7,2) W(3) this]
    have r': "0 \<le> uio_offset r" "uio_offset r < 2 ^ 31" "nat (uio_offset r) = off"
    proof -
      have "int off < int (2 ^ 31)" using off(4) by (simp only: of_nat_less_iff)
      then show "uio_offset r < 2 ^ 31" using r(1) by simp
    qed (use r(1) in simp_all)
    have sz: "de_FileSize dep' < 2 ^ 31" using W(4) small off(4) lb by simp
    have "off \<le> length (take (de_FileSize dep) (file_bytes pvp (view d) xs))" using file_len(2) [OF S(2,4) vl] off(3) by simp
    then have bytes: "take (uio_resid u) (drop off (take (de_FileSize dep') (file_bytes pvp' (view d') (xs @ ys)))) = bs"
      unfolding geo W(6) using lb by (simp add: put_bytes_def)
    have tk: "take (uio_resid u) (src (uio_user u)) = bs" using w(4) lb by simp
    obtain d2 cv2 dep2 u2 e2 where rd: "dosfs_read um io now2 pvp' fuel2 d' cv dep' r = Some (d2, cv2, dep2, u2, e2)"
        "if e2 = 0 then got (uio_user u2) = got (uio_user r) @ take (uio_resid r) (drop (nat (uio_offset r)) (take (de_FileSize dep') (file_bytes pvp' (view d') (xs @ ys))))
          else dev_err io e2 \<or> out_err um e2"
      using dosfs_read_ok [where now = now2 and cv = cv, OF ok st'(7,2) um(1) pf ra' r'(1,2) sz r(3)] by (elim exE conjE) (rule that)
    show "\<exists>d'' cv'' dep'' r' e'. dosfs_read um io now2 pvp' fuel2 d' cv dep' r = Some (d'', cv'', dep'', r', e')
        \<and> (if e' = 0 then got (uio_user r') = got (uio_user r) @ take (uio_resid u) (src (uio_user u)) else out_err um e')"
      by (intro exI conjI, rule rd(1)) (use rd(2) r(2) r'(3) bytes tk no_dev_err [OF good] in \<open>auto split: if_splits\<close>)
  qed
qed

theorem write_then_read_witness:
  "\<exists>d pvp d' pvp' dep' u' d'' cv'' dep'' r'. dosfs_write demo_um good_io False 0 True False 30 pvp d conv_init demo_open (demo_uio 0 30)
      = Some (d', pvp', conv_init, dep', u', 0)
    \<and> dosfs_read demo_um good_io 0 pvp' 31 d' conv_init dep' (demo_uio 1000 30) = Some (d'', cv'', dep'', r', 0)
    \<and> fst (uio_user r') = replicate 30 7"
proof -
  obtain d pvp where e: "settled pvp (ram_view d) demo_open [2]" "ram_heldset d = {}" "same_fs demo_fs pvp" "free_set pvp (ram_view d) = {3..400}"
    by (rule demo_settled)
  have g: "\<forall>lb. lgeterror good_io lb = 0" by (simp add: good_err)
  have ra: "readahead_safe pvp demo_open"
    using settledD(2) [OF e(1)] same_fs_fields [OF e(3)] by (simp add: readahead_safe_def demo_open_size demo_fs_def)
  have s: "de_FileSize demo_open < 2 ^ 31" "uio_offset (demo_uio 1000 30) = int 1000" "uio_resid (demo_uio 1000 30) = uio_resid (demo_uio 0 30)"
      "uio_resid (demo_uio 1000 30) < 31"
    by (simp_all add: demo_open_size demo_uio_def)
  obtain d' pvp' dep' u' er bs ys where w: "dosfs_write demo_um good_io False 0 True False 30 pvp d conv_init demo_open (demo_uio 0 30) = Some (d', pvp', conv_init, dep', u', er)"
      "written pvp (ram_view d) demo_open [2] 1000 bs pvp' (ram_view d') dep' ys" "snd (uio_user (demo_uio 0 30)) = bs @ snd (uio_user u')"
      "if er = 0 then length bs = uio_resid (demo_uio 0 30) else er = ENOSPC \<and> length bs < uio_resid (demo_uio 0 30) \<and> free_set pvp' (ram_view d') = {}"
    using dosfs_write_ok [OF good_io_ok g demo_um_ok demo_um_gives e(1,2) demo_open_size(2) demo_append, of False 0 conv_init] by (elim exE conjE) (rule that)
  have "replicate 30 7 = bs @ snd (uio_user u')" using w(3) by (simp add: demo_uio_def)
  then have "er = 0" using w(4) demo_written(1) [OF w(2) e(3,4)] by (auto split: if_splits)
  note run = w(1) [unfolded this]
  from write_then_read [OF good_io_ok g demo_um_ok demo_um_gives e(1,2) demo_open_size(2) ra demo_append s, of False 0 conv_init 0] show ?thesis
  proof (elim exE conjE, goal_cases)
    case (1 a b c u0 e0)
    have eq: "a = d'" "b = pvp'" "c = dep'" "e0 = 0" using 1(1) run by simp_all
    from 1(2) [rule_format, OF eq(4)] show ?case
    proof (elim exE conjE, goal_cases)
      case (1 d2 cv2 dep2 r2 e2)
      have e2: "e2 = 0" using 1(2) demo_um_err by (auto split: if_splits)
      show ?case by (intro exI conjI, rule run, rule 1(1) [unfolded eq e2]) (use 1(2) e2 in \<open>simp add: demo_uio_def\<close>)
    qed
  qed
qed

end
