(* ===== verification/WriteErrors.thy ===== *)
theory WriteErrors
  imports WriteProps
begin

text \<open>Two errors of a write that do not reach the caller: a full volume behind the end of the file, and a fault of the process in a synchronous write.\<close>

section \<open>Seeking past the end on a full volume\<close>

lemma round_mask:
  assumes "k < 2 ^ 32" and "s \<le> 32"
  shows "k AND (2 ^ 32 - 1 - (2 ^ s - 1)) = k div 2 ^ s * (2 ^ s :: nat)"
proof -
  have m: "2 ^ 32 - 1 - (2 ^ s - 1) = push_bit s (mask (32 - s) :: nat)"
    using assms(2) by (simp add: push_bit_eq_mult mask_eq_exp_minus_1 diff_mult_distrib flip: power_add)
  have k: "k = take_bit 32 k" using assms(1) by (simp add: take_bit_nat_eq_self)
  have "k AND push_bit s (mask (32 - s)) = push_bit s (drop_bit s k)"
    by (subst k, intro bit_eqI) (auto simp: bit_simps)
  then show ?thesis unfolding m by (simp add: push_bit_eq_mult drop_bit_eq_div)
qed

lemma foffset_geo:
  assumes g: "geo_ok pvp" and "sz + vfs_bpcluster pvp < 2 ^ 32"
  shows "uadd32 sz (vfs_bpcluster pvp - 1) AND (2 ^ 32 - 1 - vfs_crbomask pvp) = nclus pvp sz * vfs_bpcluster pvp"
proof -
  have p: "vfs_bpcluster pvp = 2 ^ vfs_cnshift pvp" "vfs_crbomask pvp = 2 ^ vfs_cnshift pvp - 1" using g by (simp_all add: geo_ok_def)
  have "(2 :: nat) ^ vfs_cnshift pvp < 2 ^ 32" using geo_bpc(2) [OF g] unfolding p(1) by (rule le_less_trans) simp
  then have "vfs_cnshift pvp < 32" by (rule power_less_imp_less_exp [rotated]) simp
  then have s: "vfs_cnshift pvp \<le> 32" by simp
  have b: "0 < vfs_bpcluster pvp" by (rule geo_bpc(1) [OF g])
  have u: "uadd32 sz (vfs_bpcluster pvp - 1) = sz + vfs_bpcluster pvp - 1" "sz + vfs_bpcluster pvp - 1 < 2 ^ 32"
    using assms(2) b by (simp_all add: uadd32_def)
  show ?thesis unfolding u(1) p(2) round_mask [OF u(2) s] unfolding nclus_def p(1) [symmetric] ..
qed

lemma extend_full:
  assumes ok: "bio_ok io view held" and good: "\<forall>lb. lgeterror io lb = 0" and v: "vol_ok pvp (view d)" and g: "geo_ok pvp" and h: "held d = {}"
    and fl: "file_ok pvp (view d) dep xs" and root: "\<not> de_vroot dep" and F: "FAT12 pvp \<longrightarrow> vfs_maxcluster pvp < 4080" and full: "free_set pvp (view d) = {}"
  obtains d' dep' where "extendfile io pvp d dep True False = Some (d', pvp, dep', ENOSPC, None, None)" and "view d' = view d" and "held d' = {}"
    and "file_ok pvp (view d) dep' xs" and "same_but_chain dep dep'"
proof (cases rule: extend_cases [OF ok good v g h fl root, case_names f full new])
  case f
  then show ?case using F by simp
next
  case (full d' dep')
  then show ?thesis by (intro that)
next
  case (new d' pvp' dep' lb c)
  show ?thesis using new(2) full by simp
qed

lemma write_block_behind:
  assumes ok: "bio_ok io view held" and good: "\<forall>lb. lgeterror io lb = 0" and v: "vol_ok pvp (view d)" and g: "geo_ok pvp" and h: "held d = {}"
    and fl: "file_ok pvp (view d) dep xs" and root: "\<not> de_vroot dep" and reg: "de_Attributes dep AND ATTR_DIRECTORY = 0" and F: "FAT12 pvp \<longrightarrow> vfs_maxcluster pvp < 4080"
    and full: "free_set pvp (view d) = {}" and off: "de_FileSize dep = off" "length xs * vfs_bpcluster pvp < off"
  shows "\<exists>d' dep'. write_block io pvp d dep off = Some (d', pvp, dep', Inl (if off mod vfs_bpcluster pvp = 0 then ENOSPC else E2BIG))
    \<and> view d' = view d \<and> held d' = {} \<and> file_ok pvp (view d) dep' xs \<and> de_FileSize dep' = off"
proof (cases "off mod vfs_bpcluster pvp = 0")
  case True
  obtain d' dep' where e: "extendfile io pvp d dep True False = Some (d', pvp, dep', ENOSPC, None, None)" "view d' = view d" "held d' = {}"
      "file_ok pvp (view d) dep' xs" "same_but_chain dep dep'"
    by (rule extend_full [OF ok good v g h fl root F full])
  have "write_block io pvp d dep off = Some (d', pvp, dep', Inl ENOSPC)"
    unfolding write_block_def geo_bpc(7) [OF g] using True off(1) e(1) by (simp add: ENOSPC_def)
  then show ?thesis using True e same_but_chainD(1) [OF e(5)] off(1) by (intro exI [of _ d'] exI [of _ dep']) simp
next
  case False
  have m: "mount_ok pvp" using v by (simp add: vol_ok_def)
  let ?f = "off div vfs_bpcluster pvp"
  have f: "length xs \<le> ?f" using off(2) geo_bpc(1) [OF g] by (simp add: less_eq_div_iff_mult_less_eq)
  have "\<exists>d' dep'. pcbmap io pvp d dep ?f True False = Some (d', dep', E2BIG, None, None) \<and> view d' = view d \<and> held d' = {}
      \<and> file_ok pvp (view d) dep' xs \<and> de_FileSize dep' = off"
  proof (cases "xs = []")
    case True
    then have "de_StartCluster dep = 0" using fl by (simp add: file_ok_def)
    then have "pcbmap io pvp d dep ?f True False = Some (d, dep, E2BIG, None, None)" using reg by (simp add: pcbmap_def DOSFSROOT_def)
    then show ?thesis using fl h off(1) by blast
  next
    case ne: False
    note fa = file_at_len [OF fl ne]
    have want: "True \<or> False" by simp
    have fr: "fatblks pvp \<inter> held d = {}" using h by simp
    show ?thesis
    proof (cases rule: pcbmap_cases [OF ok m fr conjunct1 [OF fa] conjunct1 [OF conjunct2 [OF fa]] want, where f = ?f, case_names e f eof])
      case (e d' er)
      then show ?thesis using no_dev_err [OF good] by blast
    next
      case (f d')
      then show ?thesis using \<open>length xs \<le> ?f\<close> by simp
    next
      case (eof d')
      let ?dep = "fc_setcache dep FC_LASTFC (length xs - 1) (last xs)"
      have "last xs < 65536" using file_clus16 [OF m fl] ne by simp
      then have "fc_ok ?dep xs" using fc_set_last [OF _ ne] fa by simp
      then have fo: "file_ok pvp (view d) ?dep xs" using fl by (simp add: file_ok_def fc_setcache_def)
      have "de_FileSize ?dep = off" using off(1) by (simp add: fc_setcache_def)
      with fo show ?thesis using eof(2-4) h by (intro exI [of _ d'] exI [of _ ?dep]) simp
    qed
  qed
  then obtain d' dep' where p: "pcbmap io pvp d dep ?f True False = Some (d', dep', E2BIG, None, None)" "view d' = view d" "held d' = {}"
      "file_ok pvp (view d) dep' xs" "de_FileSize dep' = off" by (elim exE conjE) (rule that)
  have "write_block io pvp d dep off = Some (d', pvp, dep', Inl E2BIG)"
    unfolding write_block_def geo_bpc(6,7) [OF g] using False p(1) by (simp add: E2BIG_def)
  then show ?thesis using False p by (intro exI [of _ d'] exI [of _ dep']) simp
qed

text \<open>C39: A write behind the end of the file on a full volume. \<open>dosfs_seek_l\<close> drops the ENOSPC of \<open>extendfile\<close> (its variable is overwritten by the
  result of \<open>deupdat\<close>) and gives the file the size it was to have, so that \<open>dosfs_write\<close> goes on, and fails with E2BIG, or
  with ENOSPC at a cluster boundary. The file is left with a size its clusters do not have: it ends behind them.\<close>

theorem write_past_full:
  assumes ok: "bio_ok io view held" and good: "\<forall>lb. lgeterror io lb = 0" and st: "settled pvp (view d) dep xs" and h: "held d = {}"
    and reg: "de_Attributes dep AND ATTR_DIRECTORY = 0" and full: "free_set pvp (view d) = {}" and clean: "de_flag dep AND (DEUPD OR DEMOD) = 0"
    and off: "uio_offset u = int off" "length xs * vfs_bpcluster pvp < off" "off + uio_resid u < 2 ^ 31" "off + uio_resid u \<le> uio_limit u" "0 < uio_resid u"
  shows "\<exists>d' dep'. dosfs_write um io ronly now False sync (Suc fuel) pvp d cv dep u
      = Some (d', pvp, cv, dep', u, if off mod vfs_bpcluster pvp = 0 then ENOSPC else E2BIG)
    \<and> view d' = view d \<and> held d' = {} \<and> file_ok pvp (view d) dep' xs \<and> de_FileSize dep' = off \<and> length xs < nclus pvp (de_FileSize dep')"
proof -
  note S = settledD [OF st]
  let ?b = "vfs_bpcluster pvp"
  have F: "FAT12 pvp \<longrightarrow> vfs_maxcluster pvp < 4080" using S(6) by blast
  have sz: "de_FileSize dep \<le> length xs * ?b" using nclus_ge [OF S(2), of "de_FileSize dep"] S(4) by simp
  obtain d1 dep1 where e: "extendfile io pvp d dep True False = Some (d1, pvp, dep1, ENOSPC, None, None)" "view d1 = view d" "held d1 = {}"
      "file_ok pvp (view d) dep1 xs" "same_but_chain dep dep1"
    by (rule extend_full [OF ok good S(1,2) h S(3,5) F full])
  let ?dep = "dep1\<lparr>de_de := (de_de dep1)\<lparr>deFileSize := of_nat off\<rparr>\<rparr>"
  have o31: "off < 2 ^ 31" using off(3) by simp
  then have un: "unat (of_nat off :: uint_t) = off" by (simp only: unat_of_nat) simp
  have k: "de_FileSize ?dep = off" "de_vroot ?dep = de_vroot dep" "de_Attributes ?dep = de_Attributes dep" "de_flag ?dep = de_flag dep"
      "file_ok pvp (view d1) ?dep xs"
    using same_but_chainD [OF e(5)] e(2,4) un by (simp_all add: file_ok_def fc_ok_def)
  have "de_FileSize dep + ?b < 2 ^ 32" using sz off(2) o31 geo_bpc(2) [OF S(2)] by simp
  note fo = foffset_geo [OF S(2) this, folded S(4)]
  have "slong (length xs * ?b) = int (length xs * ?b)" using off(2) o31 by (simp add: slong_def)
  then have lt: "slong (length xs * ?b) < int off" using off(2) by (simp only: of_nat_less_iff)
  have nz: "ENOSPC \<noteq> 0" by (simp add: ENOSPC_def)
  have loop: "seek_loop io (Suc fuel) off pvp d dep (length xs * ?b) = Some (d1, pvp, dep1)"
    by (simp only: seek_loop.simps(2) if_P [OF lt] e(1) Option.bind.bind_lunit prod.case if_P [OF nz])
  have seek: "dosfs_seek_l io ronly now (Suc fuel) pvp d cv dep (length xs * ?b) off = Some (d1, pvp, cv, ?dep, 0)"
    unfolding dosfs_seek_l_def loop Option.bind.bind_lunit prod.case Let_def deupdat_def using k(4) clean by simp
  have v1: "vol_ok pvp (view d1)" "free_set pvp (view d1) = {}" "\<not> de_vroot ?dep" "de_Attributes ?dep AND ATTR_DIRECTORY = 0"
    using S(1,5) full e(2) k(2,3) reg by simp_all
  obtain d2 dep2 where w: "write_block io pvp d1 ?dep off = Some (d2, pvp, dep2, Inl (if off mod ?b = 0 then ENOSPC else E2BIG))"
      "view d2 = view d1" "held d2 = {}" "file_ok pvp (view d1) dep2 xs" "de_FileSize dep2 = off"
    using write_block_behind [OF ok good v1(1) S(2) e(3) k(5) v1(3,4) F v1(2) k(1) off(2)] by (elim exE conjE) (rule that)
  have wl: "write_loop um io sync (Suc fuel) pvp d1 ?dep u = Some (d2, pvp, dep2, u, if off mod ?b = 0 then ENOSPC else E2BIG)"
    unfolding write_loop.simps(2) Let_def off(1) nat_int w(1) by simp
  have ad: "uadd32 off (uio_resid u) = off + uio_resid u" using off(3) by (simp add: uadd32_def)
  have "int (de_FileSize dep) < int off" unfolding of_nat_less_iff using sz off(2) by simp
  then have run: "dosfs_write um io ronly now False sync (Suc fuel) pvp d cv dep u
      = Some (d2, pvp, cv, dep2, u, if off mod ?b = 0 then ENOSPC else E2BIG)"
    unfolding dosfs_write_def Let_def if_False off(1) nat_int ad fo seek using reg off(4,5) wl by (simp add: isadir_root_def ENOSPC_def E2BIG_def)
  have "length xs < nclus pvp off"
    using off(2) nclus_ge [OF S(2), of off] by (metis le_less_trans less_le_trans mult_less_cancel2 not_less)
  then show ?thesis using run w e(2) by (intro exI conjI) (assumption, simp_all)
qed

text \<open>A file that fills the volume, and an empty one beside it.\<close>

lemma demo_full:
  obtains d pvp where "vol_ok pvp (ram_view d)" and "same_fs demo_fs pvp" and "ram_heldset d = {}" and "free_set pvp (ram_view d) = {}"
proof -
  have fl: "file_ok demo_fs (ram_view demo_dev) (demo_file 0) []"
    using demo_file_fc [of 0 "[]"] by (simp add: file_ok_def demo_file_def)
  have g: "\<forall>lb. lgeterror good_io lb = 0" by (simp add: good_err)
  have r: "\<not> de_vroot (demo_file 0)" "FAT12 demo_fs \<longrightarrow> vfs_maxcluster demo_fs < 4080" "length ([] :: nat list) + 399 < 0xffff"
    by (simp_all add: demo_file_def demo_fs_def)
  have r3: "399 \<le> card (free_set demo_fs (ram_view demo_dev))" by (simp add: demo_free_set)
  obtain d pvp dep ys where e: "vol_ok pvp (ram_view d)" "file_ok pvp (ram_view d) dep ([] @ ys)" "length ys = 399"
      "set ys \<subseteq> free_set demo_fs (ram_view demo_dev)" "free_set pvp (ram_view d) = free_set demo_fs (ram_view demo_dev) - set ys"
      "ram_heldset d = ram_heldset demo_dev" "same_fs demo_fs pvp"
    using extend_times_ok [OF good_io_ok g demo_vol demo_free fl r(1,2) r3 r(3)] by (elim exE conjE) (rule that)
  have "card (set ys) = 399" using distinct_card [OF file_distinct [OF e(2)]] e(3) by simp
  then have "set ys = free_set demo_fs (ram_view demo_dev)" using e(4) by (intro card_subset_eq) (simp_all add: demo_free_set)
  then show ?thesis using e by (intro that [of pvp d]) (simp_all add: ram_heldset_def demo_dev_def)
qed

theorem write_past_full_witness:
  "\<exists>d pvp d' dep' u. dosfs_write demo_um good_io False 0 False False 1 pvp d conv_init (demo_file 0) (demo_uio 10 5)
      = Some (d', pvp, conv_init, dep', u, E2BIG)
    \<and> file_ok pvp (ram_view d') dep' [] \<and> de_FileSize dep' = 10"
proof -
  obtain d pvp where e: "vol_ok pvp (ram_view d)" "same_fs demo_fs pvp" "ram_heldset d = {}" "free_set pvp (ram_view d) = {}"
    by (rule demo_full)
  have g: "\<forall>lb. lgeterror good_io lb = 0" by (simp add: good_err)
  have geo: "geo_ok pvp" using geo_ok_geo [OF e(2)] demo_geo by simp
  have z: "de_FileSize (demo_file 0) = 0" "\<not> de_vroot (demo_file 0)" "de_Attributes (demo_file 0) AND ATTR_DIRECTORY = 0"
      "de_flag (demo_file 0) AND (DEUPD OR DEMOD) = 0" by (simp_all add: demo_file_def)
  have "file_ok pvp (ram_view d) (demo_file 0) []"
    using demo_file_fc [of 0 "[]"] by (simp add: file_ok_def demo_file_def)
  then have st: "settled pvp (ram_view d) (demo_file 0) []"
    using e(1) geo z nclus_0 [OF geo] same_fs_geo(6) [OF e(2)] by (simp add: settled_def demo_max)
  have o: "uio_offset (demo_uio 10 5) = int 10" "length ([] :: nat list) * vfs_bpcluster pvp < 10" "10 + uio_resid (demo_uio 10 5) < 2 ^ 31"
      "10 + uio_resid (demo_uio 10 5) \<le> uio_limit (demo_uio 10 5)" "0 < uio_resid (demo_uio 10 5)"
    by (simp_all add: demo_uio_def)
  have b: "vfs_bpcluster pvp = 1024" using same_fs_file(4) [OF e(2)] by (simp add: demo_fs_def)
  from write_past_full [OF good_io_ok g st e(3) z(3) e(4) z(4) o, of demo_um False 0 False 0 conv_init] show ?thesis
  proof (elim exE conjE, goal_cases)
    case (1 d' dep')
    have "dosfs_write demo_um good_io False 0 False False 1 pvp d conv_init (demo_file 0) (demo_uio 10 5)
      = Some (d', pvp, conv_init, dep', demo_uio 10 5, E2BIG)" using 1(1) b by simp
    then show ?case using 1(2,4,5) by (intro exI conjI) (assumption, simp_all)
  qed
qed

section \<open>A fault in a synchronous write\<close>

text \<open>A page of the process that cannot be read: \<open>uiomove\<close> fails and moves the offset no further.\<close>

definition um_faults :: "'u umove \<Rightarrow> 'u uio \<Rightarrow> bool" where
  "um_faults um u \<longleftrightarrow> (\<forall>n>0. \<exists>bs e. um_in um u n = (u, bs, e) \<and> e \<noteq> 0 \<and> length bs \<le> n)"

lemma lbwritewait_good:
  assumes "\<forall>d bp. snd (io_bwrite io d bp) = 0"
  shows "snd (lbwritewait io d lb) = 0"
proof -
  have "snd (foldl (\<lambda>(d, error) i. let (d', e) = io_bwrite io d (lb_sector lb i) in (d', if error = 0 then e else error)) (d, 0) ks) = 0"
    for d and ks :: "nat list"
  proof (induction ks arbitrary: d)
    case (Cons i js)
    obtain d' e where b: "io_bwrite io d (lb_sector lb i) = (d', e)" by (cases "io_bwrite io d (lb_sector lb i)")
    have "e = 0" using assms b by (metis snd_conv)
    then show ?case using Cons.IH [of d'] b by simp
  qed simp
  then show ?thesis by (simp add: lbwritewait_def)
qed

lemma lbwritewait_ok:
  assumes "bio_ok io view held" and "lbuf_at lb b n" and "{b..<b + n} \<subseteq> held d" and "\<forall>d bp. snd (io_bwrite io d bp) = 0"
  obtains d' where "lbwritewait io d lb = (d', 0)" and "view d' = stored (view d) b n (lb_addr lb)" and "held d' = held d - {b..<b + n}"
proof -
  have f: "fst (lbwritewait io d lb) = lbwrite io d lb" unfolding lbwritewait_first Let_def fst_conv lbwrite_def ..
  have "lbwritewait io d lb = (lbwrite io d lb, 0)" using f lbwritewait_good [OF assms(4)] by (metis prod.collapse)
  then show ?thesis using lb_write_ok(1,2) [OF assms(1-3)] by (intro that) simp_all
qed

lemma file_ok_upd: "file_ok pvp v (dep\<lparr>de_flag := a\<rparr>) xs = file_ok pvp v dep xs"
    "file_ok pvp v (dep\<lparr>de_de := (de_de dep)\<lparr>deFileSize := b\<rparr>\<rparr>) xs = file_ok pvp v dep xs"
  by (simp_all add: file_ok_def fc_ok_def)

lemma fault_round:
  assumes ok: "bio_ok io view held" and good: "\<forall>lb. lgeterror io lb = 0" "\<forall>d bp. snd (io_bwrite io d bp) = 0" and um: "um_faults um u"
    and st: "settled pvp (view d) dep xs" and h: "held d = {}"
    and off: "off = nat (uio_offset u)" "off < de_FileSize dep" "off + uio_resid u < 2 ^ 31" and r: "0 < uio_resid u"
  obtains d' dep' e where "settled pvp (view d') dep' xs" and "held d' = {}" and "off < de_FileSize dep'" and "e \<noteq> 0"
    and "\<forall>fuel. write_loop um io sync (Suc fuel) pvp d dep u
      = (if sync then write_loop um io sync fuel pvp d' dep' u else Some (d', pvp, dep', u, e))"
proof -
  note S = settledD [OF st]
  have vl: "length (view d s) = DEV_BSIZE" for s using ok by (simp add: bio_ok_def)
  let ?b = "vfs_bpcluster pvp"
  define n where "n = min (uio_resid u) (?b - off mod ?b)"
  have on: "off mod ?b < ?b" using geo_bpc(1) [OF S(2)] by simp
  have n: "n \<le> uio_resid u" "off mod ?b + n \<le> ?b" "0 < n" using on r by (auto simp: n_def)
  obtain bs e where mv: "um_in um u n = (u, bs, e)" "e \<noteq> 0" "length bs \<le> n" using um n(3) unfolding um_faults_def by blast
  have wrap: "uadd32 off n = off + n" using n(1) off(3) by (simp add: uadd32_def)
  have un: "unat (of_nat (off + n) :: uint_t) = off + n" using n(1) off(3) by (simp only: unat_of_nat) simp
  show ?thesis
  proof (cases rule: write_block_ok [OF ok good(1) st h less_imp_le [OF off(2)], case_names full new old])
    case (full d' dep')
    show ?thesis using full(7) off(2) by simp
  next
    case (new d1 p1 dep1 lb c)
    show ?thesis using new(2) off(2) by simp
  next
    case (old d1 dep1 lb c)
    let ?A = "put_bytes (off mod ?b) (take n bs) (lb_addr lb)" and ?lb = "lb\<lparr>lb_addr := put_bytes (off mod ?b) (take n bs) (lb_addr lb)\<rparr>"
    have la: "length (lb_addr lb) = ?b" using old(8) length_clus_bytes [of pvp "view d", OF S(2) vl] by simp
    have lA: "length ?A = ?b" using length_put_bytes [of "off mod ?b" "take n bs" "lb_addr lb"] n(2) la by simp
    have at: "lbuf_at ?lb (cntobn pvp c) (spc pvp)" using old(7) lA la by (simp add: lbuf_at_def)
    have hs: "{cntobn pvp c..<cntobn pvp c + spc pvp} \<subseteq> held d1" using old(9) by (simp add: clus_secs_def)
    obtain d2 er where w: "(if sync then lbwritewait io d1 ?lb else if n + off mod ?b = ?b then (lbawrite io d1 ?lb, e) else (lbdwrite io d1 ?lb, e)) = (d2, er)"
        "view d2 = stored (view d1) (cntobn pvp c) (spc pvp) ?A" "held d2 = {}" "er = (if sync then 0 else e)"
    proof (cases sync)
      case True
      obtain d2 where "lbwritewait io d1 ?lb = (d2, 0)" "view d2 = stored (view d1) (cntobn pvp c) (spc pvp) (lb_addr ?lb)"
          "held d2 = held d1 - {cntobn pvp c..<cntobn pvp c + spc pvp}"
        by (rule lbwritewait_ok [OF ok at hs good(2)])
      then show ?thesis using True old(9) by (intro that [of d2 0]) (simp_all add: clus_secs_def)
    next
      case False
      then show ?thesis using lb_write_ok(3-6) [OF ok at hs] old(9)
        by (intro that [of "if n + off mod ?b = ?b then lbawrite io d1 ?lb else lbdwrite io d1 ?lb" e]) (simp_all add: clus_secs_def)
    qed
    let ?g = "if de_FileSize dep1 < off + n then dep1\<lparr>de_de := (de_de dep1)\<lparr>deFileSize := of_nat (off + n)\<rparr>\<rparr> else dep1"
    let ?dep = "?g\<lparr>de_flag := de_flag ?g OR DEUPD\<rparr>"
    have sz: "de_FileSize ?dep = max (de_FileSize dep) (off + n)" using un same_but_chainD(1) [OF old(6)] by (simp del: of_nat_add)
    have cx: "c \<in> set xs" using old(2,3) by simp
    have v2: "view d2 = stored (view d) (cntobn pvp c) (spc pvp) ?A" using w(2) old(4) by simp
    note sc = stored_clus [OF S(2,1) old(5) cx lA v2]
    have "Suc (off div ?b) * ?b \<le> length xs * ?b" using old(2) by (intro mult_le_mono1) simp
    then have "off div ?b * ?b + ?b \<le> length xs * ?b" by simp
    then have "off + n \<le> length xs * ?b" using n(2) div_mult_mod_eq [of off ?b] by linarith
    then have "nclus pvp (max (de_FileSize dep) (off + n)) = nclus pvp (de_FileSize dep)"
      using nclus_ge [OF S(2), of "de_FileSize dep"] S(4) by (intro nclus_same [OF S(2)]) simp_all
    moreover have "file_ok pvp (view d2) ?dep xs" using sc(2) by (simp add: file_ok_upd)
    ultimately have "settled pvp (view d2) ?dep xs"
      using sc(1) S(2,4-6) same_but_chainD(4) [OF old(6)] unfolding settled_def sz by simp
    moreover have "\<forall>fuel. write_loop um io sync (Suc fuel) pvp d dep u = (if sync then write_loop um io sync fuel pvp d2 ?dep u else Some (d2, pvp, ?dep, u, e))"
    proof
      fix fuel
      have li: "lb_move_in um lb (off mod ?b) n u = Some (?lb, u, e)" unfolding lb_move_in_def using n(2) la mv(1) by simp
      show "write_loop um io sync (Suc fuel) pvp d dep u = (if sync then write_loop um io sync fuel pvp d2 ?dep u else Some (d2, pvp, ?dep, u, e))"
        unfolding write_loop.simps(2) Let_def off(1) [symmetric] old(1) Option.bind.bind_lunit prod.case sum.case geo_bpc(7) [OF S(2)] n_def [symmetric] wrap li w(1)
        using r mv(2) w(4) by simp
    qed
    ultimately show ?thesis using w(3) mv(2) sz off(2) by (intro that [of d2 ?dep e]) simp_all
  qed
qed

text \<open>C40: A synchronous write whose data cannot be fetched. The error of \<open>uiomove\<close> is overwritten by the result of
  \<open>lbwritewait\<close>, so that with a device that works each round ends as it began: after any number of rounds the
  same request is still to be served, and \<open>dosfs_write\<close> never returns. Without IO_SYNC the same write returns the error
  after one round.\<close>

theorem sync_write_hangs:
  assumes ok: "bio_ok io view held" and good: "\<forall>lb. lgeterror io lb = 0" "\<forall>d bp. snd (io_bwrite io d bp) = 0" and um: "um_faults um u"
    and st: "settled pvp (view d) dep xs" and h: "held d = {}" and reg: "de_Attributes dep AND ATTR_DIRECTORY = 0"
    and off: "uio_offset u = int off" "off < de_FileSize dep" "off + uio_resid u < 2 ^ 31" "off + uio_resid u \<le> uio_limit u" and r: "0 < uio_resid u"
  shows "(\<exists>d' dep'. settled pvp (view d') dep' xs \<and> (\<forall>fuel. write_loop um io True (k + fuel) pvp d dep u = write_loop um io True fuel pvp d' dep' u))
    \<and> dosfs_write um io ronly now False True fuel pvp d cv dep u = None
    \<and> (\<exists>d' dep' e. dosfs_write um io ronly now False False (Suc fuel) pvp d cv dep u = Some (d', pvp, cv, dep', u, e) \<and> e \<noteq> 0)"
proof (intro conjI)
  have o: "off = nat (uio_offset u)" using off(1) by simp
  have rounds: "settled pvp (view d) dep xs \<Longrightarrow> held d = {} \<Longrightarrow> off < de_FileSize dep \<Longrightarrow>
      \<exists>d' dep'. settled pvp (view d') dep' xs \<and> (\<forall>fuel. write_loop um io True (k + fuel) pvp d dep u = write_loop um io True fuel pvp d' dep' u)" for d dep k
  proof (induction k arbitrary: d dep)
    case (Suc k)
    obtain d1 dep1 e where f: "settled pvp (view d1) dep1 xs" "held d1 = {}" "off < de_FileSize dep1"
        "\<forall>fuel. write_loop um io True (Suc fuel) pvp d dep u = (if True then write_loop um io True fuel pvp d1 dep1 u else Some (d1, pvp, dep1, u, e))"
      by (rule fault_round [OF ok good um Suc.prems(1,2) o Suc.prems(3) off(3) r, where sync = True])
    obtain d2 dep2 where ih: "settled pvp (view d2) dep2 xs" "\<forall>fuel. write_loop um io True (k + fuel) pvp d1 dep1 u = write_loop um io True fuel pvp d2 dep2 u"
      using Suc.IH [OF f(1-3)] by blast
    have "write_loop um io True (Suc k + fuel) pvp d dep u = write_loop um io True fuel pvp d2 dep2 u" for fuel
      using f(4) ih(2) by simp
    then show ?case using ih(1) by blast
  qed auto
  show "\<exists>d' dep'. settled pvp (view d') dep' xs \<and> (\<forall>fuel. write_loop um io True (k + fuel) pvp d dep u = write_loop um io True fuel pvp d' dep' u)"
    by (rule rounds [OF st h off(2)])
  have ad: "uadd32 off (uio_resid u) = off + uio_resid u" using off(3) by (simp add: uadd32_def)
  have root: "\<not> isadir_root dep" using reg by (simp add: isadir_root_def)
  have "\<not> int (de_FileSize dep) < int off" unfolding of_nat_less_iff using off(2) by simp
  then have run: "dosfs_write um io ronly now False s fuel pvp d cv dep u = do {
      (d, pvp, dep, uio, error) \<leftarrow> write_loop um io s fuel pvp d dep u;
      if error = 0 \<and> s then do { (d, cv, dep, _) \<leftarrow> deupdat io ronly pvp d cv dep now False; Some (d, pvp, cv, dep, uio, error) }
      else Some (d, pvp, cv, dep, uio, error) }" for s fuel
    unfolding dosfs_write_def Let_def if_False off(1) nat_int ad using off(4) r root by simp
  have "write_loop um io True fuel pvp d dep u = None"
  proof -
    obtain d2 dep2 where "\<forall>f. write_loop um io True (fuel + f) pvp d dep u = write_loop um io True f pvp d2 dep2 u"
      using rounds [OF st h off(2), of fuel] by blast
    from this [rule_format, of 0] show ?thesis by simp
  qed
  then show "dosfs_write um io ronly now False True fuel pvp d cv dep u = None" unfolding run by simp
  obtain d1 dep1 e where f: "e \<noteq> 0"
      "\<forall>fuel. write_loop um io False (Suc fuel) pvp d dep u = (if False then write_loop um io False fuel pvp d1 dep1 u else Some (d1, pvp, dep1, u, e))"
    by (rule fault_round [OF ok good um st h o off(2,3) r, where sync = False])
  then show "\<exists>d' dep' e. dosfs_write um io ronly now False False (Suc fuel) pvp d cv dep u = Some (d', pvp, cv, dep', u, e) \<and> e \<noteq> 0"
    unfolding run by simp
qed

theorem sync_write_hangs_witness:
  "\<exists>d pvp. \<forall>fuel. dosfs_write demo_um good_io False 0 False True fuel pvp d conv_init demo_open
      \<lparr>uio_offset = 10, uio_resid = 5, uio_limit = 4096, uio_user = ([], [])\<rparr> = None"
proof -
  obtain d pvp where e: "settled pvp (ram_view d) demo_open [2]" "ram_heldset d = {}" by (rule demo_settled)
  have g: "\<forall>lb. lgeterror good_io lb = 0" by (simp add: good_err)
  have w: "\<forall>d bp. snd (io_bwrite good_io d bp) = 0" by (simp add: good_io_def ram_io_def)
  let ?u = "\<lparr>uio_offset = 10, uio_resid = 5, uio_limit = 4096, uio_user = ([] :: u8 list, [] :: u8 list)\<rparr>"
  have f: "um_faults demo_um ?u" by (simp add: um_faults_def demo_um_def)
  have o: "uio_offset ?u = int 10" "10 < de_FileSize demo_open" "10 + uio_resid ?u < 2 ^ 31" "10 + uio_resid ?u \<le> uio_limit ?u" "0 < uio_resid ?u"
    by (simp_all add: demo_open_size)
  show ?thesis using sync_write_hangs [OF good_io_ok g w f e demo_open_size(2) o] by blast
qed

end
