(* ===== verification/Spec2Isabelle.thy ===== *)
theory Spec2Isabelle
  imports BitmaskSearch RzbmProps ConvProps Mount DirProps CacheProps WriteErrors
begin

text \<open>
  A verification library for services of the UnixWare 7 kernel for the i386, the code under
  \<open>src/usr/src/i386/uts\<close>: the bit arrays of the kernel, its allocator of physical pages, and the DOS
  file system from its cluster buffers up to the mounted volume, its directories, its table of in-core files and the
  reading and writing of files. Paths below are relative to that
  directory.

  \<^bold>\<open>The parts and how they call each other.\<close>

  \<^item> Bit arrays (\<open>util/bitmasks.c\<close>, \<open>util/bitmasks.h\<close>): \<open>Bitmasks\<close> has the macros and the searches word for
    word (\<open>BITMASK1_FFS\<close> to \<open>BITMASKN_FREERANGE\<close>); \<open>BitmaskSearch\<close> proves each search equal to a scan of the
    bits, in the locale \<open>word_search\<close> interpreted on set and on clear bits, and the range allocator to be
    first fit. \<open>BitmapSpec\<close> is the contract of a bit map with an allocator (\<open>bitmap_alloc\<close>); the bit arrays
    and the map of clusters in use of a volume (\<open>FatMap\<close>) are its two providers.

  \<^item> Page allocator (\<open>mem/vm_rzbm.c\<close>, \<open>mem/rzbm.h\<close>): \<open>Rzbm\<close> has the cells, chunks and pools and every
    operation; it marks pages with the bit arrays. \<open>LinkRing\<close> is the locale of circular lists the cells
    and the chunks are linked in, interpreted twice in \<open>RzbmPools\<close>. \<open>RzbmAlloc\<close>, \<open>RzbmPse\<close>, \<open>RzbmList\<close> and
    \<open>RzbmInit\<close> show that the operations keep the invariant and refine one set of free pages, and that the 4M pages are the multiples
    of 4M the ranges contain; \<open>RzbmProps\<close> states it for every state the kernel can reach (\<open>rzbm_reach\<close>).

  \<^item> Logical buffers (\<open>fs/dosfs/dosfs_lbuf.c\<close>): \<open>Lbuf\<close>, cluster buffers over the buffer cache, which is a
    parameter (\<open>BlockIO\<close>, below).

  \<^item> File allocation table (\<open>fs/dosfs/dosfs_fat.c\<close>, with \<open>fat.h\<close>, \<open>denode.h\<close>, \<open>dosfs_filsys.h\<close> and
    \<open>direntry.h\<close> for the data of \<open>DosTypes\<close>): \<open>Fat\<close> has \<open>fatentry\<close>, \<open>updateotherfats\<close>, \<open>clusteralloc\<close>,
    \<open>clusterfree\<close>, \<open>freeclusterchain\<close>, \<open>fillinusemap\<close>, \<open>pcbmap\<close>, \<open>extendfile\<close> and the two-slot cache.
    \<open>FatTable\<close> is the byte encoding of 12-bit and 16-bit entries (the locale \<open>fat_codec\<close>, interpreted for
    both); \<open>FatIO\<close> and \<open>FatEntry\<close> lift it to the device and all copies of the table; \<open>FatMap\<close> and
    \<open>FatAlloc\<close> refine allocation to the set of free clusters, with reachability (\<open>fs_reach\<close>); \<open>FatWalk\<close>
    and \<open>FatFile\<close> show that a file is its list of clusters. \<open>FatProps\<close>, \<open>VolProps\<close> and \<open>FileProps\<close> hold
    the properties.

  \<^item> Mounting (\<open>mountdosfs\<close> of \<open>fs/dosfs/dosfs_vfsops.c\<close>, \<open>bootsect.h\<close>, \<open>bpb.h\<close>): \<open>Mount\<close>, from the bytes of the
    boot sector to the volume invariant \<open>vol_ok\<close> that all the operations above rest on.

  \<^item> Time conversion (\<open>fs/dosfs/dosfs_conv.c\<close>): \<open>DosConv\<close> with the static variables as state, \<open>ConvProps\<close>
    with the round trip, the Gregorian calendar and the soundness of the remembered values.

  \<^item> File names (\<open>util/ccnv/sb.c\<close>): \<open>DosName\<close>, over the configured code page tables.

  \<^item> In-core files (\<open>fs/dosfs/dosfs_denode.c\<close>, and the access to one entry in \<open>fs/dosfs/dosfs_lookup.c\<close>):
    \<open>DirEntry\<close> is \<open>struct direntry\<close> as bytes, entries as the slots of a buffer (the locale \<open>slots\<close>);
    \<open>Denode\<close> has \<open>readde\<close>, \<open>get_direntp\<close>, \<open>markdeleted\<close>, \<open>deupdat\<close> and \<open>detrunc\<close>, \<open>DenodeOps\<close> what the
    operations on one entry do to the device, \<open>Truncate\<close> and \<open>TruncProps\<close> that truncation is taking a prefix
    of the bytes of a file.

  \<^item> Directories (\<open>fs/dosfs/dosfs_lookup.c\<close>): \<open>Dir\<close> has \<open>dosfs_dirlook\<close>, \<open>createde\<close>, \<open>removede\<close> and
    \<open>dosdirempty\<close>; \<open>DirSearch\<close> shows the searches to be searches of the list of entries, \<open>DirMap\<close> that this
    list is a finite map from names to entries while nothing follows the first entry never used and no name
    occurs twice (\<open>dir_ok\<close>), \<open>DirOps\<close> and \<open>DirProps\<close> that creation and removal are updates of that map.

  \<^item> The table of in-core files (\<open>dosfs_doinit\<close>, \<open>deget\<close>, \<open>dosfs_inactive\<close> and \<open>reinsert\<close> of \<open>fs/dosfs/dosfs_denode.c\<close>): \<open>Dcache\<close> has
    the hash chains, the free list and the operations, \<open>dosfs_inactive\<close> in the three steps between which it drops the lock of the
    table. \<open>LinkList\<close> is the locale \<open>linked_list\<close> of doubly linked lists with a head, which \<open>DcacheLinks\<close> interprets for the
    chains (\<open>chains\<close>) and the free list (\<open>frees\<close>). \<open>DcacheInv\<close> has the invariant: \<open>consistent\<close> while releases are under way, \<open>coherent\<close>
    when none is; \<open>DcacheOps\<close> and \<open>DcacheProps\<close> show that the operations and the steps of a release keep it and refine a map from files
    to denodes (\<open>tmap\<close>); \<open>CacheReach\<close> is the step relation \<open>cache_step\<close> of processes that take turns wherever the code gives up the
    lock of the table, a round of \<open>deget\<close> (\<open>deget_round\<close>) and a step of a release at a time, with its reachable states; \<open>CacheProps\<close> has
    the properties.

  \<^item> Reading and writing (\<open>fs/dosfs/dosfs_vnops.c\<close>): \<open>FileIO\<close> has \<open>dosfs_read\<close>, \<open>dosfs_write\<close>, \<open>dosfs_seek\<close>, \<open>dosfs_seek_l\<close> and
    \<open>dosfs_fsync\<close>, over the map from positions to clusters and the logical buffers. \<open>ReadProps\<close> shows that a read takes a piece of
    the bytes of the file, \<open>WriteProps\<close> that a write lays bytes over them (\<open>written\<close>) and that a read gives back what was
    written, \<open>WriteErrors\<close> what happens to the errors of a seek and of a synchronous write.

  \<^bold>\<open>State and effects.\<close> C structures are records, pointers into tables are indices, and each operation takes
  and returns the state it changes. \<open>None\<close> is what C leaves undefined, a panic or a trap: an access outside
  an object, a variable read before it is set, a division by zero; errors the code reports are the numbers
  it returns. Integers whose width matters are words or have their wrap-around written out (\<open>uadd32\<close>,
  \<open>umul32\<close>, \<open>mod 65536\<close>). Spin locks make each routine one step.

  \<^bold>\<open>Parameters and hypotheses.\<close> The buffer cache (\<open>bread\<close>, \<open>getblk\<close>, \<open>bwrite\<close>, \<open>bdwrite\<close>, \<open>brelse\<close>) is the
  record \<open>bio\<close> of \<open>BlockIO\<close>; \<open>bio_ok\<close> states what its callers rely on (the contents of a sector are those of the
  cache: a write takes effect even when the device then reports an error), and \<open>ram_io\<close> and \<open>good_io\<close> are
  devices in memory that satisfy it, on which the witnesses run. The code page tables are four lists.
  \<open>mount_ok\<close> and \<open>made_ok\<close> collect what a properly made file system satisfies; \<open>no_wrap\<close> excludes the clusters
  whose table offset does not fit the 16-bit variable of \<open>fatentry\<close>, and \<open>fatentry_wraps\<close> shows what happens
  beyond. \<open>geo_ok\<close> is the layout mounting establishes, with clusters that fit a logical buffer and sector numbers
  that do not wrap. The flag for a read-only mount, the current time and the cache of names of the vnode layer
  are arguments of the operations that look at them, and so are, for the table of in-core files, the hold on a vnode
  (\<open>hold\<close>), the purge of the cache of names (\<open>purge\<close>) and the flag \<open>dosfs_shared\<close> (\<open>shared\<close>). \<open>uiomove\<close>, which copies from and to the memory of a process, is the record
  \<open>umove\<close> of \<open>FileIO\<close>; \<open>um_ok\<close> states what the callers rely on, and \<open>demo_um\<close> is a process that satisfies it.

  \<^bold>\<open>Loops.\<close> Walks along cluster chains may meet a cycle on a damaged disk: \<open>freeclusterchain\<close> is given
  one round more than there are clusters, and \<open>freeclusterchain_ends\<close> shows that it ends by then for every
  table. \<open>pcb_loop\<close> counts down to the cluster asked for, as the code does, and \<open>cnshift_scan\<close> over the 32 bits
  of an integer. The searches of a directory are given a bound on their rounds; one more than the directory has
  clusters is enough. The walk along a hash chain (\<open>deget_scan\<close>) is given one round more than there are denodes, enough for a chain; the
  retries of \<open>deget\<close> count up to six, as in the code. The rounds of a read or a write are given
  as fuel, since only \<open>uiomove\<close> knows when they end: as many as bytes wanted (one more for a read) are enough. All other loops are structural or have a measure.

  \<^bold>\<open>Not modelled.\<close> Flushing all in-core files (\<open>deflush\<close>), the check of a rename for cycles
  (\<open>doscheckpath\<close>), the vnode operations other than reading, writing and seeking (\<open>dosfs_vnops.c\<close>), which check credentials and hand over to
  the operations modelled here; locking and
  interleaving of processors, but for the rounds of \<open>deget\<close> and the steps of \<open>dosfs_inactive\<close>; statistics, warnings and debug printing; the sleep locks, the page tables and
  the rest of the kernel; the commands, libraries and window system of the repository.
\<close>

end
